(* ===== verification/TZ_Prelude.thy ===== *)
theory TZ_Prelude
  imports Main "HOL-Library.Word"
begin

text \<open>
  The shared vocabulary of the development: the machine types, the error values, the C heap
  as an explicit block of 64-bit words with its narrower views, counting of set bits below a
  position (the specification of rank), enumeration of set bits (the specification of select),
  and the generic lemmas about them that every component uses.
\<close>

unbundle bit_operations_syntax

type_synonym u8 = "8 word"
type_synonym u32 = "32 word"
type_synonym u64 = "64 word"

abbreviation (input) WordBits :: nat where "WordBits \<equiv> 64"
abbreviation (input) AllocUnitBits :: nat where "AllocUnitBits \<equiv> 64"

named_theorems mem_simps \<open>reads of a block of memory after writes to it\<close>
named_theorems cnt_simps \<open>counting set bits\<close>

text \<open>What the code raises: \<open>std::length_error\<close>, \<open>std::bad_alloc\<close>, \<open>std::out_of_range\<close>,
  \<open>std::invalid_argument\<close>, \<open>std::logic_error\<close>, \<open>std::runtime_error\<close>, \<open>EndOfFileException\<close>, \<open>OutOfSpaceException\<close>; \<open>Abort\<close> is a call of \<open>abort()\<close>. \<open>Out_of_bounds\<close> is not an exception: it marks the executions in
  which an unbounded scan of the source leaves the array it reads, and \<open>Undefined\<close> other operations that C++
  leaves undefined (a difference of pointers that is not a whole number of elements).\<close>

datatype error = Length_error | Bad_alloc | Out_of_range | Invalid_argument | Logic_error | Runtime_error | End_of_file | Out_of_space | Abort
  | Out_of_bounds | Undefined | Delay_write | Io_exception

text \<open>The unsigned subtraction of two \<open>size_t\<close> values, with its wrap-around.\<close>

definition size_sub :: "nat \<Rightarrow> nat \<Rightarrow> nat" where
  "size_sub a b = (if b \<le> a then a - b else 2 ^ 64 + a - b)"

lemma size_sub_le [simp]: "b \<le> a \<Longrightarrow> size_sub a b = a - b"
  by (simp add: size_sub_def)

lemma size_sub_word:
  assumes "a < 2 ^ 64" and "b < 2 ^ 64"
  shows "size_sub a b = unat (word_of_nat a - word_of_nat b :: u64)"
proof -
  have ab: "unat (word_of_nat a :: u64) = a" "unat (word_of_nat b :: u64) = b"
    using assms by (simp_all add: unat_of_nat)
  show ?thesis
    by (simp add: unat_sub_if_size ab word_size size_sub_def) arith
qed

text \<open>\<open>(n + k - 1) & ~(k - 1)\<close> for a power of two \<open>k\<close>: \<open>n\<close> rounded up to a multiple of \<open>k\<close>.\<close>

definition align_up :: "nat \<Rightarrow> nat \<Rightarrow> nat" where
  "align_up n k = (n + k - 1) div k * k"

lemma align_up_word:
  assumes "n + 2 ^ m - 1 < 2 ^ 64" and "m < 64"
  shows "align_up n (2 ^ m) =
    unat ((word_of_nat n + 2 ^ m - 1 :: u64) AND NOT (2 ^ m - 1))"
proof -
  have eq: "(word_of_nat n + 2 ^ m - 1 :: u64) = word_of_nat (n + 2 ^ m - 1)"
  proof -
    have "Suc (n + 2 ^ m - 1) = n + 2 ^ m" by simp
    then have "word_of_nat (Suc (n + 2 ^ m - 1)) = (word_of_nat (n + 2 ^ m) :: u64)" by (rule arg_cong)
    then have "1 + word_of_nat (n + 2 ^ m - 1) = (word_of_nat n + 2 ^ m :: u64)"
      by (simp only: of_nat_Suc of_nat_add of_nat_power of_nat_numeral)
    then show ?thesis by (simp add: algebra_simps)
  qed
  define N where "N = n + 2 ^ m - 1"
  have N: "unat (word_of_nat N :: u64) = N"
    using assms(1) by (simp add: unat_of_nat N_def)
  have Nl: "N < 2 ^ LENGTH(64)" using assms(1) by (simp add: N_def)
  have "(word_of_nat N :: u64) AND NOT (2 ^ m - 1) = push_bit m (drop_bit m (word_of_nat N))"
    by (rule bit_word_eqI) (auto simp: bit_simps mask_eq_exp_minus_1 [symmetric])
  then have "unat ((word_of_nat N :: u64) AND NOT (2 ^ m - 1))
      = take_bit 64 (push_bit m (drop_bit m (unat (word_of_nat N :: u64))))"
    by (simp only: unsigned_push_bit_eq unsigned_drop_bit_eq N take_bit_nat_eq_self [OF Nl]) simp
  also have "\<dots> = take_bit 64 (N div 2 ^ m * 2 ^ m)"
    by (simp only: N push_bit_eq_mult drop_bit_eq_div)
  also have "\<dots> = N div 2 ^ m * 2 ^ m"
  proof (rule take_bit_nat_eq_self)
    have "N div 2 ^ m * 2 ^ m \<le> N" by simp
    also have "N < 2 ^ 64" using Nl by simp
    finally show "N div 2 ^ m * 2 ^ m < 2 ^ 64" .
  qed
  finally show ?thesis
    by (simp only: eq align_up_def N_def)
qed

lemma align_up_ge: "0 < k \<Longrightarrow> n \<le> align_up n k"
  using div_mult_mod_eq [of "n + k - 1" k] mod_less_divisor [of k "n + k - 1"]
  unfolding align_up_def by linarith

lemma align_up_less: "0 < k \<Longrightarrow> align_up n k < n + k"
  using div_mult_mod_eq [of "n + k - 1" k] unfolding align_up_def by linarith

lemma align_up_dvd [simp]: "k dvd align_up n k"
  by (simp add: align_up_def)


lemma align_up_lines: "align_up n L = L * (align_up n L div L)"
  using align_up_dvd [of L n] by simp

section \<open>Counting and enumerating set bits\<close>

text \<open>\<open>cnt f n\<close> is the number of positions below \<open>n\<close> at which \<open>f\<close> holds: the rank of \<open>n\<close>.
  \<open>sel f n r\<close> is the position of the \<open>r\<close>-th such position (from 0): select.\<close>

definition cnt :: "(nat \<Rightarrow> bool) \<Rightarrow> nat \<Rightarrow> nat" where
  "cnt f n = length (filter f [0..<n])"

definition sel :: "(nat \<Rightarrow> bool) \<Rightarrow> nat \<Rightarrow> nat \<Rightarrow> nat" where
  "sel f n r = filter f [0..<n] ! r"

lemma cnt_0 [simp, cnt_simps]: "cnt f 0 = 0"
  by (simp add: cnt_def)

lemma cnt_Suc [cnt_simps]: "cnt f (Suc n) = cnt f n + of_bool (f n)"
  by (simp add: cnt_def)

lemma cnt_add: "cnt f (a + b) = cnt f a + cnt (\<lambda>i. f (a + i)) b"
  by (induction b) (simp_all add: cnt_Suc)

lemma cnt_le [simp]: "cnt f n \<le> n"
  using length_filter_le [of f "[0..<n]"] by (simp add: cnt_def)

lemma cnt_mono: "a \<le> b \<Longrightarrow> cnt f a \<le> cnt f b"
  using cnt_add [of f a "b - a"] by simp

lemma cnt_cong: "(\<And>i. i < n \<Longrightarrow> f i = g i) \<Longrightarrow> cnt f n = cnt g n"
  by (induction n) (simp_all add: cnt_Suc)

lemma cnt_Not: "cnt (\<lambda>i. \<not> f i) n = n - cnt f n"
proof (induction n)
  case (Suc n)
  have "cnt f n \<le> n" by simp
  with Suc show ?case by (cases "f n") (simp_all add: cnt_Suc Suc_diff_le)
qed simp

lemma cnt_False [simp]: "cnt (\<lambda>_. False) n = 0"
  by (induction n) (simp_all add: cnt_Suc)

lemma cnt_True [simp]: "cnt (\<lambda>_. True) n = n"
  by (induction n) (simp_all add: cnt_Suc)

lemma cnt_restrict: "cnt (\<lambda>i. i < k \<and> f i) n = cnt f (min k n)"
proof (induction n)
  case (Suc n)
  then show ?case by (cases "n < k") (auto simp: cnt_Suc min_def le_Suc_eq)
qed simp

lemma cnt_less_imp_less: "cnt f a < cnt f b \<Longrightarrow> a < b"
  using cnt_mono [of b a f] by (cases "a < b") auto

lemma cnt_strict: "f p \<Longrightarrow> p < q \<Longrightarrow> cnt f p < cnt f q"
  using cnt_mono [of "Suc p" q f] by (simp add: cnt_Suc)

lemma cnt_pad: "n \<le> N \<Longrightarrow> (\<And>p. n \<le> p \<Longrightarrow> p < N \<Longrightarrow> \<not> f p) \<Longrightarrow> cnt f N = cnt f n"
proof (induction N)
  case (Suc N)
  then show ?case by (cases "n = Suc N") (simp_all add: cnt_Suc)
qed simp

lemma filter_upt_nth:
  "p < n \<Longrightarrow> f p \<Longrightarrow> filter f [0..<n] ! cnt f p = p"
proof -
  assume p: "p < n" "f p"
  then have "[0..<n] = [0..<p] @ p # [Suc p..<n]"
    by (metis add_diff_inverse_nat le0 less_imp_le not_le upt_add_eq_append upt_conv_Cons)
  then show ?thesis
    using p by (simp add: cnt_def nth_append)
qed

lemma sel_unique: "p < n \<Longrightarrow> f p \<Longrightarrow> cnt f p = r \<Longrightarrow> sel f n r = p"
  using filter_upt_nth [of p n f] by (simp add: sel_def)

lemma cnt_witness: "r < cnt f n \<Longrightarrow> \<exists>p < n. f p \<and> cnt f p = r"
proof (induction n)
  case (Suc n)
  show ?case
  proof (cases "r < cnt f n")
    case True
    with Suc.IH show ?thesis using less_SucI by blast
  next
    case False
    with Suc.prems have "f n" and "cnt f n = r"
      by (cases "f n"; simp add: cnt_Suc)+
    then show ?thesis by blast
  qed
qed simp

lemma sel_props:
  assumes "r < cnt f n"
  shows sel_less: "sel f n r < n" and sel_sat: "f (sel f n r)" and cnt_sel: "cnt f (sel f n r) = r"
proof -
  obtain p where "p < n" "f p" "cnt f p = r" using cnt_witness [OF assms] by blast
  moreover from this have "sel f n r = p" by (rule sel_unique)
  ultimately show "sel f n r < n" "f (sel f n r)" "cnt f (sel f n r) = r" by auto
qed

lemma sel_cong: "(\<And>i. i < n \<Longrightarrow> f i = g i) \<Longrightarrow> sel f n r = sel g n r"
  unfolding sel_def by (metis (mono_tags, lifting) atLeastLessThan_iff filter_cong set_upt)

lemma sel_mono: "r < s \<Longrightarrow> s < cnt f n \<Longrightarrow> sel f n r < sel f n s"
  by (rule cnt_less_imp_less [of f]) (simp add: cnt_sel)

text \<open>The length of the run of \<open>f\<close> that starts at \<open>p\<close> and stays below \<open>n\<close>, and of the run that
  ends just before \<open>p\<close>.\<close>

definition run_len :: "(nat \<Rightarrow> bool) \<Rightarrow> nat \<Rightarrow> nat \<Rightarrow> nat" where
  "run_len f p n = length (takeWhile f [p..<n])"

definition run_revlen :: "(nat \<Rightarrow> bool) \<Rightarrow> nat \<Rightarrow> nat" where
  "run_revlen f p = length (takeWhile f (rev [0..<p]))"

lemma length_takeWhile_append:
  "(\<forall>x \<in> set xs. f x) \<Longrightarrow> takeWhile f ys = [] \<Longrightarrow> length (takeWhile f (xs @ ys)) = length xs"
  by (simp add: takeWhile_append)

lemma run_len_eqI:
  assumes "p + k \<le> n" and "\<And>i. i < k \<Longrightarrow> f (p + i)" and "p + k < n \<Longrightarrow> \<not> f (p + k)"
  shows "run_len f p n = k"
proof -
  have "[p..<n] = [p..<p + k] @ [p + k..<n]"
    using assms(1) by (metis le_add1 le_add_diff_inverse upt_add_eq_append)
  moreover have "\<forall>x \<in> set [p..<p + k]. f x"
    using assms(2) by (auto dest!: le_Suc_ex)
  moreover have "takeWhile f [p + k..<n] = []"
    using assms(3) by (cases "p + k < n") (simp_all add: upt_conv_Cons)
  ultimately have "length (takeWhile f [p..<n]) = length [p..<p + k]"
    by (simp only: length_takeWhile_append)
  then show ?thesis by (simp add: run_len_def)
qed

lemma run_revlen_eqI:
  assumes "k \<le> p" and "\<And>i. i < k \<Longrightarrow> f (p - Suc i)" and "k < p \<Longrightarrow> \<not> f (p - Suc k)"
  shows "run_revlen f p = k"
proof -
  have "[0..<p] = [0..<p - k] @ [p - k..<p]"
    using assms(1) by (metis diff_le_self le0 le_add_diff_inverse2 upt_add_eq_append add.commute)
  then have r: "rev [0..<p] = rev [p - k..<p] @ rev [0..<p - k]" by simp
  have f1: "\<forall>x \<in> set (rev [p - k..<p]). f x"
  proof
    fix x assume "x \<in> set (rev [p - k..<p])"
    then have "p - Suc x < k" and "x = p - Suc (p - Suc x)" by auto
    then show "f x" using assms(2) by metis
  qed
  have f2: "takeWhile f (rev [0..<p - k]) = []"
  proof (cases "k < p")
    case True
    then have "p - k = Suc (p - Suc k)" by simp
    then have "rev [0..<p - k] = (p - Suc k) # rev [0..<p - Suc k]" by simp
    with True assms(3) show ?thesis by simp
  qed simp
  show ?thesis
    unfolding run_revlen_def r length_takeWhile_append [OF f1 f2] using assms(1) by simp
qed

lemma sel_unique_cnt: "f p \<Longrightarrow> cnt f p = r \<Longrightarrow> r < cnt f n \<Longrightarrow> sel f n r = p"
  by (rule sel_unique) (auto intro: cnt_less_imp_less)

section \<open>Memory: a block of 64-bit words and its views\<close>

text \<open>A heap block is a list of 64-bit words, little-endian. \<open>mbit m i\<close> is its \<open>i\<close>-th bit; \<open>ld m p\<close>
  and \<open>st m p v\<close> read and write the \<open>'w\<close>-bit object at bit offset \<open>p\<close>, for an object that does not
  cross a 64-bit boundary (every aligned \<open>uint8_t\<close>, \<open>uint32_t\<close> and \<open>uint64_t\<close>).\<close>

definition mbit :: "u64 list \<Rightarrow> nat \<Rightarrow> bool" where
  "mbit m i = bit (m ! (i div 64)) (i mod 64)"

definition ld :: "u64 list \<Rightarrow> nat \<Rightarrow> 'w::len word" where
  "ld m p = ucast (drop_bit (p mod 64) (m ! (p div 64)))"

definition st :: "u64 list \<Rightarrow> nat \<Rightarrow> 'w::len word \<Rightarrow> u64 list" where
  "st m p v = m[p div 64 :=
     (m ! (p div 64) AND NOT (push_bit (p mod 64) (mask LENGTH('w)))) OR push_bit (p mod 64) (ucast v)]"

definition fits :: "nat \<Rightarrow> nat \<Rightarrow> bool" where
  "fits p w \<longleftrightarrow> p mod 64 + w \<le> 64"

lemma add64:
  assumes "p mod 64 + k < (64::nat)"
  shows "(p + k) div 64 = p div 64" and "(p + k) mod 64 = p mod 64 + k"
proof -
  have e: "p + k = (p mod 64 + k) + (p div 64) * 64" by simp
  have "(p + k) div 64 = ((p mod 64 + k) + (p div 64) * 64) div 64" using e by (rule arg_cong)
  also have "\<dots> = p div 64 + (p mod 64 + k) div 64" by (rule div_mult_self1) simp
  finally show "(p + k) div 64 = p div 64" using assms by simp
  have "(p + k) mod 64 = ((p mod 64 + k) + (p div 64) * 64) mod 64" using e by (rule arg_cong)
  also have "\<dots> = (p mod 64 + k) mod 64" by (rule mod_mult_self1)
  finally show "(p + k) mod 64 = p mod 64 + k" using assms by simp
qed

lemma length_st [simp]: "length (st m p v) = length m"
  by (simp add: st_def)

lemma mbit_st:
  fixes v :: "'w::len word"
  assumes "fits p LENGTH('w)" and "p div 64 < length m"
  shows "mbit (st m p v) i = (if p \<le> i \<and> i < p + LENGTH('w) then bit v (i - p) else mbit m i)"
proof (cases "i div 64 = p div 64")
  case True
  then have d: "i mod 64 - p mod 64 = i - p" "p mod 64 \<le> i mod 64 \<longleftrightarrow> p \<le> i"
    by (metis add_diff_cancel_left div_mult_mod_eq, metis add_le_cancel_left div_mult_mod_eq)
  have u: "i mod 64 - p mod 64 < LENGTH('w) \<and> p \<le> i \<longleftrightarrow> p \<le> i \<and> i < p + LENGTH('w)"
    using d by auto
  show ?thesis
    using assms True d u by (auto simp: mbit_def st_def fits_def bit_simps dest: bit_imp_le_length)
next
  case False
  have "\<not> (p \<le> i \<and> i < p + LENGTH('w))"
  proof
    assume i: "p \<le> i \<and> i < p + LENGTH('w)"
    then have "p mod 64 + (i - p) < 64" using assms(1) unfolding fits_def by linarith
    from add64(1) [OF this] i False show False by simp
  qed
  then show ?thesis
    using False by (auto simp: mbit_def st_def)
qed

lemma bit_ld:
  assumes "fits p LENGTH('w)"
  shows "bit (ld m p :: 'w::len word) k \<longleftrightarrow> k < LENGTH('w) \<and> mbit m (p + k)"
proof (cases "k < LENGTH('w)")
  case True
  with assms have "p mod 64 + k < 64" by (simp add: fits_def)
  with True show ?thesis
    by (simp add: ld_def mbit_def bit_simps add64)
qed (simp add: ld_def bit_simps)

lemma ld_st_same [simp, mem_simps]:
  fixes v :: "'w::len word"
  assumes "fits p LENGTH('w)" and "p div 64 < length m"
  shows "ld (st m p v) p = v"
  using assms by (intro bit_word_eqI) (simp add: bit_ld mbit_st)

lemma ld_st_other [mem_simps]:
  fixes v :: "'w::len word"
  assumes "fits p LENGTH('w)" and "p div 64 < length m" and "fits q LENGTH('b)"
    and "q + LENGTH('b) \<le> p \<or> p + LENGTH('w) \<le> q"
  shows "(ld (st m p v) q :: 'b::len word) = ld m q"
  using assms(4) by (intro bit_word_eqI) (auto simp: bit_ld mbit_st assms(1-3))

text \<open>The \<open>uint32_t*\<close> and \<open>uint8_t*\<close> views of a block.\<close>

definition get32 :: "u64 list \<Rightarrow> nat \<Rightarrow> u32" where "get32 m i = ld m (32 * i)"
definition set32 :: "u64 list \<Rightarrow> nat \<Rightarrow> u32 \<Rightarrow> u64 list" where "set32 m i v = st m (32 * i) v"
definition get8 :: "u64 list \<Rightarrow> nat \<Rightarrow> u8" where "get8 m i = ld m (8 * i)"
definition set8 :: "u64 list \<Rightarrow> nat \<Rightarrow> u8 \<Rightarrow> u64 list" where "set8 m i v = st m (8 * i) v"

lemma fits_views [simp]: "fits (64 * i) 64" "fits (32 * i) 32" "fits (8 * i) 8"
proof -
  have "32 * i mod 64 = 32 * (i mod 2)" using mult_mod_right [of 32 i 2] by simp
  then show "fits (32 * i) 32" by (simp add: fits_def)
  have "8 * i mod 64 = 8 * (i mod 8)" using mult_mod_right [of 8 i 8] by simp
  moreover have "i mod 8 < 8" by simp
  ultimately show "fits (8 * i) 8" unfolding fits_def by linarith
qed (simp add: fits_def)

lemma bit_views: "bit (get32 m i) k \<longleftrightarrow> k < 32 \<and> mbit m (32 * i + k)" "bit (get8 m i) j \<longleftrightarrow> j < 8 \<and> mbit m (8 * i + j)"
  by (simp_all add: get32_def get8_def bit_ld)

lemma length_set32 [simp]: "length (set32 m i v) = length m" "length (set8 m k w) = length m"
  by (simp_all add: set32_def set8_def)

lemma div_views: "32 * i div 64 = i div 2" "8 * i div 64 = i div (8::nat)"
  using div_mult_mult1 [of 32 i 2] div_mult_mult1 [of 8 i 8] by simp_all

lemma nth_ld: "m ! i = ld m (64 * i)"
  by (simp add: ld_def)

lemma get32_set32 [mem_simps]:
  assumes "i div 2 < length m"
  shows "get32 (set32 m i v) j = (if i = j then v else get32 m j)"
proof (cases "i = j")
  case False
  then have "32 * j + LENGTH(32) \<le> 32 * i \<or> 32 * i + LENGTH(32) \<le> 32 * j" by auto
  with False assms show ?thesis
    by (simp add: get32_def set32_def ld_st_other div_views)
qed (use assms in \<open>simp add: get32_def set32_def div_views\<close>)

text \<open>\<open>same_except m m' a b\<close>: the blocks have one length and agree outside the bits \<open>[a, b)\<close>.
  Every write of the code is framed by it.\<close>

definition same_except :: "u64 list \<Rightarrow> u64 list \<Rightarrow> nat \<Rightarrow> nat \<Rightarrow> bool" where
  "same_except m m' a b \<longleftrightarrow> length m = length m' \<and> (\<forall>p. \<not> (a \<le> p \<and> p < b) \<longrightarrow> mbit m p = mbit m' p)"

lemma same_except_refl [simp]: "same_except m m a b"
  by (simp add: same_except_def)

lemma same_except_sym: "same_except m m' a b \<Longrightarrow> same_except m' m a b"
  by (auto simp: same_except_def)

lemma same_except_trans [trans]:
  "same_except m m' a b \<Longrightarrow> same_except m' m'' a b \<Longrightarrow> same_except m m'' a b"
  by (auto simp: same_except_def)

lemma same_except_widen: "same_except m m' a b \<Longrightarrow> c \<le> a \<Longrightarrow> b \<le> d \<Longrightarrow> same_except m m' c d"
  by (auto simp: same_except_def)

lemma same_except_length: "same_except m m' a b \<Longrightarrow> length m' = length m"
  by (simp add: same_except_def)

lemma same_except_mbit: "same_except m m' a b \<Longrightarrow> p < a \<or> b \<le> p \<Longrightarrow> mbit m' p = mbit m p"
  unfolding same_except_def by (metis leD)

lemma cnt_same: "same_except m m' a b \<Longrightarrow> n \<le> a \<Longrightarrow> cnt (mbit m') n = cnt (mbit m) n"
  by (rule cnt_cong) (simp add: same_except_mbit)

lemma same_except_st:
  fixes v :: "'w::len word"
  assumes "fits p LENGTH('w)" and "p div 64 < length m"
  shows "same_except m (st m p v) p (p + LENGTH('w))"
  using assms by (simp add: same_except_def mbit_st)

lemma same_except_set32: "i div 2 < length m \<Longrightarrow> same_except m (set32 m i v) (32 * i) (32 * i + 32)"
  using same_except_st [of "32 * i" m v] by (simp add: set32_def div_views)

lemma same_except_set32_in:
  "i div 2 < length m \<Longrightarrow> a \<le> 32 * i \<Longrightarrow> 32 * i + 32 \<le> b \<Longrightarrow> same_except m (set32 m i v) a b"
  by (rule same_except_widen [OF same_except_set32])

lemma same_except_set8: "i div 8 < length m \<Longrightarrow> same_except m (set8 m i v) (8 * i) (8 * i + 8)"
  using same_except_st [of "8 * i" m v] by (simp add: set8_def div_views)

lemma same_except_ld:
  assumes "same_except m m' a b" and "fits q LENGTH('w)" and "q + LENGTH('w) \<le> a \<or> b \<le> q"
  shows "(ld m' q :: 'w::len word) = ld m q"
  using assms(3) by (intro bit_word_eqI) (auto simp: bit_ld assms(2) same_except_mbit [OF assms(1)])

lemma same_except_get32:
  "same_except m m' a b \<Longrightarrow> 32 * i + 32 \<le> a \<or> b \<le> 32 * i \<Longrightarrow> get32 m' i = get32 m i"
  unfolding get32_def by (rule same_except_ld) simp_all

lemma same_except_get8:
  "same_except m m' a b \<Longrightarrow> 8 * i + 8 \<le> a \<or> b \<le> 8 * i \<Longrightarrow> get8 m' i = get8 m i"
  unfolding get8_def by (rule same_except_ld) simp_all

lemma same_except_nth:
  "same_except m m' a b \<Longrightarrow> 64 * i + 64 \<le> a \<or> b \<le> 64 * i \<Longrightarrow> m' ! i = m ! i"
  unfolding nth_ld by (rule same_except_ld) simp_all

lemma same_except_update: "same_except m (m[i := w]) (64 * i) (64 * i + 64)"
proof -
  have "mbit m p = mbit (m[i := w]) p" if "\<not> (64 * i \<le> p \<and> p < 64 * i + 64)" for p
  proof -
    have "p div 64 \<noteq> i" using that by auto
    then show ?thesis by (simp add: mbit_def)
  qed
  then show ?thesis by (simp add: same_except_def)
qed

lemma get8_set8 [mem_simps]:
  assumes "i div 8 < length m"
  shows "get8 (set8 m i v) j = (if i = j then v else get8 m j)"
proof (cases "i = j")
  case False
  then have "8 * j + 8 \<le> 8 * i \<or> 8 * i + 8 \<le> 8 * j" by auto
  with False show ?thesis
    by (simp add: same_except_get8 [OF same_except_set8 [OF assms]])
qed (use assms in \<open>simp add: get8_def set8_def div_views\<close>)

section \<open>Machines that refine an abstract data type\<close>

text \<open>
  The contract of a container: \<open>exec\<close> runs one operation, \<open>run\<close> a sequence of them, \<open>pre\<close> is what an operation
  asserts, \<open>abs\<close> the abstract value and \<open>spec\<close> what the operation means there. \<open>fails\<close> says which errors are allowed.
  A container proves \<open>step\<close> for its operations and gets the refinement for every sequence.
\<close>

locale op_machine =
  fixes inv :: "'s \<Rightarrow> bool" and exec :: "'op \<Rightarrow> 's \<Rightarrow> error + 's" and run :: "'op list \<Rightarrow> 's \<Rightarrow> error + 's"
    and pre :: "'op \<Rightarrow> 's \<Rightarrow> bool" and pre_run :: "'op list \<Rightarrow> 's \<Rightarrow> bool" and abs :: "'s \<Rightarrow> 'a"
    and spec :: "'op \<Rightarrow> 'a \<Rightarrow> 'a" and fails :: "error \<Rightarrow> bool"
  assumes run_Nil: "run [] s = Inr s"
    and run_Cons: "run (a # ops) s = (case exec a s of Inl err \<Rightarrow> Inl err | Inr s' \<Rightarrow> run ops s')"
    and pre_Cons: "inv s \<Longrightarrow> pre_run (a # ops) s \<Longrightarrow> pre a s \<and> (\<forall>s'. exec a s = Inr s' \<longrightarrow> pre_run ops s')"
    and step: "inv s \<Longrightarrow> pre a s \<Longrightarrow> exec a s = Inr s' \<Longrightarrow> inv s' \<and> abs s' = spec a (abs s)"
    and step_fails: "inv s \<Longrightarrow> pre a s \<Longrightarrow> exec a s = Inl err \<Longrightarrow> fails err"
begin

lemma run_refines:
  "inv s \<Longrightarrow> pre_run ops s \<Longrightarrow>
    (case run ops s of Inl err \<Rightarrow> fails err | Inr s' \<Rightarrow> inv s' \<and> abs s' = fold spec ops (abs s))"
proof (induction ops arbitrary: s)
  case (Cons a ops)
  note p = pre_Cons [OF Cons.prems]
  show ?case
  proof (cases "exec a s")
    case (Inl err)
    with step_fails [OF Cons.prems(1), of a err] p show ?thesis by (simp add: run_Cons)
  next
    case (Inr s')
    with step [OF Cons.prems(1), of a s'] p Cons.IH [of s'] show ?thesis
      by (simp add: run_Cons split: sum.splits)
  qed
qed (simp add: run_Nil)

lemma run_total:
  assumes "inv s" and "pre_run ops s" and total: "\<And>a s. inv s \<Longrightarrow> pre a s \<Longrightarrow> \<exists>s'. exec a s = Inr s'"
  shows "\<exists>s'. run ops s = Inr s' \<and> inv s' \<and> abs s' = fold spec ops (abs s)"
  using assms(1,2)
proof (induction ops arbitrary: s)
  case (Cons a ops)
  note p = pre_Cons [OF Cons.prems]
  obtain s' where s': "exec a s = Inr s'" using total [OF Cons.prems(1)] p by blast
  with step [OF Cons.prems(1), of a s'] p Cons.IH [of s'] show ?case
    by (simp add: run_Cons)
qed (simp add: run_Nil)

end

end
