(* ===== verification/Bitmanip.thy ===== *)
theory Bitmanip
  imports TZ_Prelude
begin

text \<open>
  The word-level primitives of \<open>src/src/terark/bitmanip.hpp\<close>: population count (the compiler
  builtin and the portable arithmetic fallback), count of trailing and leading zeros, single-bit
  access in an array of words, and the range setters \<open>bits_range_set0\<close> and \<open>bits_range_set1\<close>.
\<close>

section \<open>Definitions\<close>

text \<open>\<open>fast_popcount\<close> is \<open>__builtin_popcountl\<close>, \<open>fast_ctz\<close> and \<open>fast_clz\<close> are \<open>__builtin_ctzl\<close>
  and \<open>__builtin_clzl\<close> on the supported compilers: the compiler's documented meaning is taken
  as their definition. The builtins are undefined at 0; the definitions give 64 there.\<close>

definition fast_popcount :: "u64 \<Rightarrow> nat" where
  "fast_popcount x = length (filter (bit x) [0..<64])"

definition fast_ctz :: "u64 \<Rightarrow> nat" where
  "fast_ctz x = length (takeWhile (\<lambda>i. \<not> bit x i) [0..<64])"

definition fast_clz :: "u64 \<Rightarrow> nat" where
  "fast_clz x = length (takeWhile (\<lambda>i. \<not> bit x i) (rev [0..<64]))"

definition terark_bsr_u64 :: "u64 \<Rightarrow> nat" where
  "terark_bsr_u64 x = 63 - fast_clz x"

text \<open>The portable fallback, at its width.\<close>

definition fast_popcount64_portable :: "u64 \<Rightarrow> u64" where
  "fast_popcount64_portable v0 =
     (let v1 = v0 - (drop_bit 1 v0 AND 0x5555555555555555);
          v2 = (v1 AND 0x3333333333333333) + (drop_bit 2 v1 AND 0x3333333333333333);
          v3 = (v2 + drop_bit 4 v2) AND 0x0F0F0F0F0F0F0F0F
      in drop_bit 56 (v3 * 0x0101010101010101))"

definition fast_popcount_trail :: "u64 \<Rightarrow> nat \<Rightarrow> nat" where
  "fast_popcount_trail x n = fast_popcount (x AND NOT (push_bit n (- 1)))"

definition terark_bit_test :: "u64 list \<Rightarrow> nat \<Rightarrow> bool" where
  "terark_bit_test a i = (a ! (i div 64) AND push_bit (i mod 64) 1 \<noteq> 0)"

definition terark_bit_set0 :: "u64 list \<Rightarrow> nat \<Rightarrow> u64 list" where
  "terark_bit_set0 a i = a[i div 64 := a ! (i div 64) AND NOT (push_bit (i mod 64) 1)]"

definition terark_bit_set1 :: "u64 list \<Rightarrow> nat \<Rightarrow> u64 list" where
  "terark_bit_set1 a i = a[i div 64 := a ! (i div 64) OR push_bit (i mod 64) 1]"

definition terark_bit_set_val :: "u64 list \<Rightarrow> nat \<Rightarrow> bool \<Rightarrow> u64 list" where
  "terark_bit_set_val a i val = (if val then terark_bit_set1 a i else terark_bit_set0 a i)"

text \<open>\<open>while (j < k / UintBits) data[j++] = x;\<close> as a function of the array, \<open>j\<close> and the bound.\<close>

function fill_words :: "u64 \<Rightarrow> u64 list \<Rightarrow> nat \<Rightarrow> nat \<Rightarrow> u64 list \<times> nat" where
  "fill_words x data j n = (if j < n then fill_words x (data[j := x]) (Suc j) n else (data, j))"
  by pat_completeness auto
termination
  by (relation "measure (\<lambda>(x, data, j, n). n - j)") auto

declare fill_words.simps [simp del]

definition bits_range_set0 :: "u64 list \<Rightarrow> nat \<Rightarrow> nat \<Rightarrow> u64 list" where
  "bits_range_set0 data i k =
     (if i = k then data
      else let j = i div 64 in
        if j = (k - 1) div 64 then
          data[j := data ! j AND (NOT (push_bit (i mod 64) (- 1)) OR push_bit ((k - 1) mod 64) (- 2))]
        else
          let (data, j) = (if i mod 64 \<noteq> 0
                           then (data[j := data ! j AND NOT (push_bit (i mod 64) (- 1))], j + 1)
                           else (data, j));
              (data, j) = fill_words 0 data j (k div 64)
          in if k mod 64 \<noteq> 0 then data[j := data ! j AND push_bit (k mod 64) (- 1)] else data)"

definition bits_range_set1 :: "u64 list \<Rightarrow> nat \<Rightarrow> nat \<Rightarrow> u64 list" where
  "bits_range_set1 data i k =
     (if i = k then data
      else let j = i div 64 in
        if j = (k - 1) div 64 then
          data[j := data ! j OR (push_bit (i mod 64) (- 1) AND NOT (push_bit ((k - 1) mod 64) (- 2)))]
        else
          let (data, j) = (if i mod 64 \<noteq> 0
                           then (data[j := data ! j OR push_bit (i mod 64) (- 1)], j + 1)
                           else (data, j));
              (data, j) = fill_words (- 1) data j (k div 64)
          in if k mod 64 \<noteq> 0 then data[j := data ! j OR NOT (push_bit (k mod 64) (- 1))] else data)"

definition bits_range_set :: "u64 list \<Rightarrow> nat \<Rightarrow> nat \<Rightarrow> bool \<Rightarrow> u64 list" where
  "bits_range_set data i k val = (if val then bits_range_set1 data i k else bits_range_set0 data i k)"

section \<open>Bits and words\<close>

lemma fast_popcount_cnt: "fast_popcount x = cnt (bit x) 64"
  by (simp add: fast_popcount_def cnt_def)

lemma fast_popcount_le [simp]: "fast_popcount x \<le> 64"
  by (simp add: fast_popcount_cnt)

lemma fast_popcount_trail_cnt:
  assumes "n \<le> 64" shows "fast_popcount_trail x n = cnt (bit x) n"
proof -
  have "cnt (bit (x AND NOT (push_bit n (- 1)))) 64 = cnt (\<lambda>i. i < n \<and> bit x i) 64"
    by (rule cnt_cong) (auto simp: bit_simps)
  then show ?thesis
    using assms by (simp add: fast_popcount_trail_def fast_popcount_cnt cnt_restrict min_def)
qed

lemma fast_popcount_not: "fast_popcount (NOT x) = 64 - fast_popcount x"
proof -
  have "cnt (bit (NOT x)) 64 = cnt (\<lambda>i. \<not> bit x i) 64"
    by (rule cnt_cong) (simp add: bit_simps)
  then show ?thesis by (simp add: fast_popcount_cnt cnt_Not)
qed

lemma and_push_bit_1: "x AND push_bit n 1 \<noteq> (0 :: u64) \<longleftrightarrow> bit x n"
proof -
  have "x AND push_bit n 1 = (if bit x n then push_bit n 1 else 0)"
    by (rule bit_word_eqI) (auto simp: bit_simps)
  moreover have "bit x n \<Longrightarrow> push_bit n (1 :: u64) \<noteq> 0"
    using bit_imp_le_length [of x n] by (auto simp: bit_eq_iff bit_simps)
  ultimately show ?thesis by auto
qed

lemma terark_bit_test_mbit: "terark_bit_test a i = mbit a i"
  by (simp only: terark_bit_test_def mbit_def and_push_bit_1)

lemma mbit_update:
  "mbit (m[j := w]) p = (if p div 64 = j \<and> j < length m then bit w (p mod 64) else mbit m p)"
  by (auto simp: mbit_def nth_list_update list_update_beyond)

lemma less_divmod64: "i < p \<longleftrightarrow> i div 64 < p div 64 \<or> i div 64 = p div 64 \<and> i mod 64 < p mod (64::nat)"
proof -
  have "i = 64 * (i div 64) + i mod 64" "p = 64 * (p div 64) + p mod 64" by simp_all
  moreover have "i mod 64 < 64" "p mod 64 < 64" by simp_all
  ultimately show ?thesis by linarith
qed

lemma le_divmod64: "i \<le> p \<longleftrightarrow> i div 64 < p div 64 \<or> i div 64 = p div 64 \<and> i mod 64 \<le> p mod (64::nat)"
  using less_divmod64 [of p i] by linarith

lemma eq_divmod64: "i = p \<longleftrightarrow> i div 64 = p div 64 \<and> i mod 64 = p mod (64::nat)"
  by (metis div_mult_mod_eq)

text \<open>The word index and the bit index of a position as opaque names: arithmetic procedures then
  treat them as atoms instead of expanding the division by 64.\<close>

definition wi :: "nat \<Rightarrow> nat" where "wi p = p div 64"
definition bi :: "nat \<Rightarrow> nat" where "bi p = p mod 64"

lemmas wibi = wi_def [symmetric] bi_def [symmetric]

lemma bi_less [simp]: "bi p < 64"
  by (simp add: bi_def)

lemma bi_diff_less [simp]: "bi p - q < 64"
  by (rule le_less_trans [OF diff_le_self bi_less])

lemma less_wibi: "i < p \<longleftrightarrow> wi i < wi p \<or> wi i = wi p \<and> bi i < bi p"
  unfolding wi_def bi_def by (rule less_divmod64)

lemma le_wibi: "i \<le> p \<longleftrightarrow> wi i < wi p \<or> wi i = wi p \<and> bi i \<le> bi p"
  unfolding wi_def bi_def by (rule le_divmod64)

lemma wi_mono: "i \<le> p \<Longrightarrow> wi i \<le> wi p"
  unfolding wi_def by (rule div_le_mono)

lemma wi_less: "k \<le> 64 * length data \<Longrightarrow> p < k \<Longrightarrow> wi p < length (data :: u64 list)"
  by (simp add: wi_def div_less_iff_less_mult mult.commute)

lemma wi_le: "k \<le> 64 * length data \<Longrightarrow> wi k \<le> length (data :: u64 list)"
  using div_le_mono [of k "64 * length data" 64] by (simp add: wi_def)

lemma wi_le_less: "k \<le> 64 * length data \<Longrightarrow> bi k \<noteq> 0 \<Longrightarrow> wi k < length (data :: u64 list)"
  using div_mult_mod_eq [of k 64] unfolding wi_def bi_def by linarith

lemma mbit_wibi: "mbit m p = bit (m ! wi p) (bi p)"
  by (simp add: mbit_def wi_def bi_def)

lemma length_bit_set [simp]:
  "length (terark_bit_set0 a i) = length a" "length (terark_bit_set1 a i) = length a"
  "length (terark_bit_set_val a i v) = length a"
  by (simp_all add: terark_bit_set0_def terark_bit_set1_def terark_bit_set_val_def)

lemma mbit_bit_set1:
  assumes "i div 64 < length a"
  shows "mbit (terark_bit_set1 a i) p = (p = i \<or> mbit a p)"
  using assms by (auto simp: terark_bit_set1_def mbit_update bit_simps eq_divmod64 [of p i])
    (auto simp: mbit_def)

lemma mbit_bit_set0:
  assumes "i div 64 < length a"
  shows "mbit (terark_bit_set0 a i) p = (p \<noteq> i \<and> mbit a p)"
  using assms by (auto simp: terark_bit_set0_def mbit_update bit_simps eq_divmod64 [of p i])
    (auto simp: mbit_def)

lemma mbit_bit_set_val:
  assumes "i div 64 < length a"
  shows "mbit (terark_bit_set_val a i v) p = (if p = i then v else mbit a p)"
  using assms by (simp add: terark_bit_set_val_def mbit_bit_set0 mbit_bit_set1)

section \<open>Range setters\<close>

lemma snd_fill_words: "snd (fill_words x data j n) = max j n"
  by (induction x data j n rule: fill_words.induct) (subst fill_words.simps, simp)

lemma length_fill_words [simp]: "length (fst (fill_words x data j n)) = length data"
  by (induction x data j n rule: fill_words.induct) (subst fill_words.simps, simp)

lemma nth_fill_words:
  "n \<le> length data \<Longrightarrow> fst (fill_words x data j n) ! a = (if j \<le> a \<and> a < n then x else data ! a)"
proof (induction x data j n rule: fill_words.induct)
  case (1 x data j n)
  then show ?case
    by (subst fill_words.simps) (auto simp: nth_list_update)
qed

lemma length_bits_range_set [simp]:
  "length (bits_range_set0 data i k) = length data" "length (bits_range_set1 data i k) = length data"
  "length (bits_range_set data i k v) = length data"
  by (simp_all add: bits_range_set_def bits_range_set0_def bits_range_set1_def Let_def
    case_prod_unfold)

lemma bit_minus_2: "bit (- 2 :: u64) n \<longleftrightarrow> 0 < n \<and> n < 64"
proof -
  have "(- 2 :: u64) = push_bit 1 (- 1)" by simp
  then show ?thesis by (simp only: bit_simps) auto
qed

lemma same_word_range:
  assumes "i < k" and "wi i = wi (k - 1)"
  shows "i \<le> p \<and> p < k \<longleftrightarrow> wi p = wi i \<and> bi i \<le> bi p \<and> bi p \<le> bi (k - 1)"
proof -
  have "p < k \<longleftrightarrow> p \<le> k - 1" using assms(1) by auto
  then show ?thesis
    using assms(2) le_wibi [of i p] le_wibi [of p "k - 1"] by auto
qed

lemma diff_word_less:
  assumes "i < k" and "wi i \<noteq> wi (k - 1)"
  shows "wi i < wi k"
  using assms wi_mono [of i "k - 1"] wi_mono [of "k - 1" k] by linarith

lemma mbit_bits_range_set0:
  assumes "i \<le> k" and "k \<le> 64 * length data"
  shows "mbit (bits_range_set0 data i k) p = (mbit data p \<and> \<not> (i \<le> p \<and> p < k))"
proof -
  consider "i = k" | "i < k" "wi i = wi (k - 1)" | "i < k" "wi i \<noteq> wi (k - 1)"
    using assms(1) by linarith
  then show ?thesis
  proof cases
    case 1
    then show ?thesis by (auto simp: bits_range_set0_def)
  next
    case 2
    have "wi i < length data" using assms 2(1) by (intro wi_less) auto
    with 2 show ?thesis
      unfolding same_word_range [OF 2] bits_range_set0_def Let_def wibi
      by (auto simp: mbit_wibi nth_list_update bit_simps bit_minus_2)
  next
    case 3
    have l: "wi i < wi k" by (rule diff_word_less [OF 3])
    have kl: "wi k \<le> length data" using assms(2) by (rule wi_le)
    have kl': "bi k \<noteq> 0 \<Longrightarrow> wi k < length data" using assms(2) by (rule wi_le_less)
    show ?thesis
      using 3 l kl kl'
      unfolding bits_range_set0_def Let_def wibi case_prod_unfold le_wibi [of i p] less_wibi [of p k]
      by (auto simp: snd_fill_words nth_fill_words bit_simps mbit_wibi nth_list_update)
  qed
qed

lemma mbit_bits_range_set1:
  assumes "i \<le> k" and "k \<le> 64 * length data"
  shows "mbit (bits_range_set1 data i k) p = (mbit data p \<or> i \<le> p \<and> p < k)"
proof -
  consider "i = k" | "i < k" "wi i = wi (k - 1)" | "i < k" "wi i \<noteq> wi (k - 1)"
    using assms(1) by linarith
  then show ?thesis
  proof cases
    case 1
    then show ?thesis by (auto simp: bits_range_set1_def)
  next
    case 2
    have "wi i < length data" using assms 2(1) by (intro wi_less) auto
    with 2 show ?thesis
      unfolding same_word_range [OF 2] bits_range_set1_def Let_def wibi
      by (auto simp: mbit_wibi nth_list_update bit_simps bit_minus_2)
  next
    case 3
    have l: "wi i < wi k" by (rule diff_word_less [OF 3])
    have kl: "wi k \<le> length data" using assms(2) by (rule wi_le)
    have kl': "bi k \<noteq> 0 \<Longrightarrow> wi k < length data" using assms(2) by (rule wi_le_less)
    show ?thesis
      using 3 l kl kl'
      unfolding bits_range_set1_def Let_def wibi case_prod_unfold le_wibi [of i p] less_wibi [of p k]
      by (auto simp: snd_fill_words nth_fill_words bit_simps mbit_wibi nth_list_update)
  qed
qed

lemma mbit_bits_range_set:
  assumes "i \<le> k" and "k \<le> 64 * length data"
  shows "mbit (bits_range_set data i k val) p = (if i \<le> p \<and> p < k then val else mbit data p)"
  using assms by (auto simp: bits_range_set_def mbit_bits_range_set0 mbit_bits_range_set1)

section \<open>Trailing and leading zeros\<close>

lemma fast_ctz_run: "fast_ctz x = run_len (\<lambda>i. \<not> bit x i) 0 64"
  by (simp add: fast_ctz_def run_len_def)

lemma fast_clz_run: "fast_clz x = run_revlen (\<lambda>i. \<not> bit x i) 64"
  by (simp add: fast_clz_def run_revlen_def)

lemma run_len_props:
  shows run_len_le: "p \<le> n \<Longrightarrow> p + run_len f p n \<le> n"
    and run_len_sat: "i < run_len f p n \<Longrightarrow> f (p + i)"
    and run_len_stop: "p + run_len f p n < n \<Longrightarrow> \<not> f (p + run_len f p n)"
proof -
  have le: "run_len f p n \<le> n - p"
    unfolding run_len_def using length_takeWhile_le [of f "[p..<n]"] by simp
  then show "p \<le> n \<Longrightarrow> p + run_len f p n \<le> n" by simp
  show "i < run_len f p n \<Longrightarrow> f (p + i)"
  proof -
    assume i: "i < run_len f p n"
    then have "takeWhile f [p..<n] ! i = [p..<n] ! i"
      unfolding run_len_def by (rule takeWhile_nth)
    moreover have "f (takeWhile f [p..<n] ! i)"
      using i unfolding run_len_def by (meson nth_mem set_takeWhileD)
    ultimately show "f (p + i)" using i le by (simp add: nth_upt)
  qed
  show "p + run_len f p n < n \<Longrightarrow> \<not> f (p + run_len f p n)"
  proof -
    assume l: "p + run_len f p n < n"
    then have "run_len f p n < length [p..<n]" by simp
    then have "\<not> f ([p..<n] ! run_len f p n)"
      unfolding run_len_def by (rule nth_length_takeWhile)
    with l show ?thesis by (simp add: nth_upt)
  qed
qed

lemma fast_ctz_less: "x \<noteq> 0 \<Longrightarrow> fast_ctz x < 64"
proof (rule ccontr)
  assume "x \<noteq> 0" and "\<not> fast_ctz x < 64"
  then have "\<And>i. i < 64 \<Longrightarrow> \<not> bit x i"
    using run_len_sat [of _ "\<lambda>i. \<not> bit x i" 0 64] by (simp add: fast_ctz_run)
  then have "x = 0" by (intro bit_word_eqI) simp
  with \<open>x \<noteq> 0\<close> show False by simp
qed

lemma fast_ctz_bits: "x \<noteq> 0 \<Longrightarrow> bit x (fast_ctz x)" "i < fast_ctz x \<Longrightarrow> \<not> bit x i"
  using run_len_stop [of 0 "\<lambda>i. \<not> bit x i" 64] run_len_sat [of i "\<lambda>i. \<not> bit x i" 0 64] fast_ctz_less [of x]
  by (simp_all add: fast_ctz_run)

end
