(* ===== verification/UintSelect.thy ===== *)
theory UintSelect
  imports Bitmanip
begin

text \<open>
  In-word selection: \<open>UintSelect1\<close> of \<open>src/src/terark/succinct/rank_select_inline_slow.hpp\<close>
  (arithmetic on packed counters) and of \<open>rank_select_inline_bmi2.hpp\<close> (\<open>pdep\<close> and \<open>bsr\<close>). Both are
  proved to return the position of the \<open>r\<close>-th set bit, so the two builds agree. The packed counters
  are reasoned about through their fields: \<open>fld k v i\<close> is the \<open>i\<close>-th \<open>k\<close>-bit field of \<open>v\<close>.
\<close>

section \<open>Definitions\<close>

text \<open>\<open>if (r >= t) {s += w; r -= t;}\<close>\<close>

definition select_step :: "nat \<Rightarrow> nat \<Rightarrow> nat \<times> nat \<Rightarrow> nat \<times> nat" where
  "select_step w t sr = (case sr of (s, r) \<Rightarrow> if t \<le> r then (s + w, r - t) else (s, r))"

text \<open>The release build of the slow variant aborts when \<open>r\<close> is not below the population count:
  \<open>None\<close>.\<close>

definition UintSelect1_slow :: "u64 \<Rightarrow> nat \<Rightarrow> nat option" where
  "UintSelect1_slow x r0 =
     (if fast_popcount x \<le> r0 then None
      else
        let a = x - (drop_bit 1 x AND 0x5555555555555555);
            b = (a AND 0x3333333333333333) + (drop_bit 2 a AND 0x3333333333333333);
            c = (b + drop_bit 4 b) AND 0x0F0F0F0F0F0F0F0F;
            d = (c + drop_bit 8 c) AND 0x00FF00FF00FF00FF;
            p = select_step 32 (unat ((drop_bit 16 d + d) AND 255)) (0, r0);
            p = select_step 16 (unat (drop_bit (fst p) d AND 0xFF)) p;
            p = select_step 8 (unat (drop_bit (fst p) c AND 0xF)) p;
            p = select_step 4 (unat (drop_bit (fst p) b AND 0x7)) p;
            p = select_step 2 (unat (drop_bit (fst p) a AND 0x3)) p;
            p = select_step 1 (unat (drop_bit (fst p) x AND 0x1)) p
        in Some (fst p))"

text \<open>\<open>_bzhi_u64(-1, n)\<close> keeps the low \<open>n\<close> bits; \<open>_pdep_u64(src, msk)\<close> deposits the low bits of
  \<open>src\<close> at the set positions of \<open>msk\<close>, in order.\<close>

definition bzhi_u64 :: "u64 \<Rightarrow> nat \<Rightarrow> u64" where
  "bzhi_u64 x n = x AND mask n"

definition pdep_u64 :: "u64 \<Rightarrow> u64 \<Rightarrow> u64" where
  "pdep_u64 src msk =
     horner_sum of_bool 2 (map (\<lambda>p. bit msk p \<and> bit src (cnt (bit msk) p)) [0..<64])"

definition UintSelect1 :: "u64 \<Rightarrow> nat \<Rightarrow> nat" where
  "UintSelect1 x r = terark_bsr_u64 (pdep_u64 (bzhi_u64 (- 1) (r + 1)) x)"

section \<open>Fields of a packed word\<close>

definition fld :: "nat \<Rightarrow> 'w::len word \<Rightarrow> nat \<Rightarrow> nat" where
  "fld k v i = take_bit k (drop_bit (k * i) (unat v))"

lemma bit_fld: "bit (fld k v i) j \<longleftrightarrow> j < k \<and> bit v (k * i + j)"
  by (auto simp: fld_def bit_simps bit_unsigned_iff dest: bit_imp_le_length)

lemma fld_less: "fld k v i < 2 ^ k"
  by (simp add: fld_def)

lemma fld_1: "fld 1 v i = of_bool (bit v i)"
  by (rule bit_eqI) (auto simp: bit_fld bit_simps)

lemma fld_drop_bit: "fld k (drop_bit (k * s) v) i = fld k v (s + i)"
  by (rule bit_eqI) (simp add: bit_fld bit_simps algebra_simps)

lemma fld_and_mask_lo:
  assumes "\<And>p. p < LENGTH('w) \<Longrightarrow> bit M p \<longleftrightarrow> p mod (2 * k) < k"
  shows "fld (2 * k) (v AND M :: 'w::len word) i = fld k v (2 * i)"
proof (rule bit_eqI)
  fix j
  have "j < 2 * k \<Longrightarrow> (2 * k * i + j) mod (2 * k) = j" by simp
  then show "bit (fld (2 * k) (v AND M) i) j = bit (fld k v (2 * i)) j"
    using assms by (auto simp: bit_fld bit_simps algebra_simps dest: bit_imp_le_length)
qed

lemma low_sum_less:
  fixes U W :: nat
  assumes "\<And>i. i < n \<Longrightarrow> take_bit k (drop_bit (k * i) U) + take_bit k (drop_bit (k * i) W) < 2 ^ k"
  shows "U mod 2 ^ (k * n) + W mod 2 ^ (k * n) < 2 ^ (k * n)"
  using assms
proof (induction n)
  case (Suc n)
  have split: "X mod 2 ^ (k * Suc n) = X mod 2 ^ (k * n) + take_bit k (drop_bit (k * n) X) * 2 ^ (k * n)"
    for X :: nat
  proof -
    have "X mod 2 ^ (k * Suc n) = X mod (2 ^ (k * n) * 2 ^ k)"
      by (simp add: power_add algebra_simps)
    also have "\<dots> = 2 ^ (k * n) * (X div 2 ^ (k * n) mod 2 ^ k) + X mod 2 ^ (k * n)"
      by (rule mod_mult2_eq)
    finally show ?thesis by (simp add: take_bit_eq_mod drop_bit_eq_div)
  qed
  define u w where "u = take_bit k (drop_bit (k * n) U)" and "w = take_bit k (drop_bit (k * n) W)"
  have "u + w + 1 \<le> 2 ^ k" using Suc.prems [of n] by (simp add: u_def w_def)
  then have "(u + w + 1) * 2 ^ (k * n) \<le> 2 ^ k * 2 ^ (k * n)" by (rule mult_le_mono1)
  moreover have "U mod 2 ^ (k * n) + W mod 2 ^ (k * n) < 2 ^ (k * n)"
    using Suc by simp
  ultimately show ?case
    unfolding split u_def [symmetric] w_def [symmetric] by (simp add: power_add algebra_simps)
qed simp

lemma fld_plus:
  fixes u w :: "'w::len word"
  assumes len: "LENGTH('w) = k * n" and sum: "\<And>i. i < n \<Longrightarrow> fld k u i + fld k w i < 2 ^ k" and i: "i < n"
  shows "fld k (u + w) i = fld k u i + fld k w i"
proof -
  define U W where "U = unat u" and "W = unat w"
  have low: "U mod 2 ^ (k * m) + W mod 2 ^ (k * m) < 2 ^ (k * m)" if "m \<le> n" for m
    using sum that by (intro low_sum_less) (simp add: fld_def U_def W_def)
  have "U < 2 ^ (k * n)" "W < 2 ^ (k * n)"
    unfolding U_def W_def len [symmetric] by simp_all
  with low [of n] have "U + W < 2 ^ LENGTH('w)" unfolding len by simp
  then have UW: "unat (u + w) = U + W"
    unfolding U_def W_def by (simp only: unat_word_ariths mod_less)
  have "(U + W) div 2 ^ (k * i) = U div 2 ^ (k * i) + W div 2 ^ (k * i)"
  proof -
    have "(U mod 2 ^ (k * i) + W mod 2 ^ (k * i)) div 2 ^ (k * i) = 0"
      using low [of i] i by (intro div_less) simp
    then show ?thesis by (simp only: div_add1_eq [of U] add_0_right)
  qed
  then have "fld k (u + w) i = (U div 2 ^ (k * i) + W div 2 ^ (k * i)) mod 2 ^ k"
    by (simp only: fld_def UW take_bit_eq_mod drop_bit_eq_div)
  also have "\<dots> = (fld k u i + fld k w i) mod 2 ^ k"
    by (simp only: fld_def U_def W_def take_bit_eq_mod drop_bit_eq_div mod_add_eq)
  also have "\<dots> = fld k u i + fld k w i" using sum [OF i] by simp
  finally show ?thesis .
qed

lemma fld_and_mask_hi:
  assumes "\<And>p. p < LENGTH('w) \<Longrightarrow> bit M p \<longleftrightarrow> p mod (2 * k) < k"
  shows "fld (2 * k) (drop_bit k v AND M :: 'w::len word) i = fld k v (2 * i + 1)"
  using fld_and_mask_lo [OF assms] fld_drop_bit [of k 1 v "2 * i"] by simp

text \<open>One folding step of the population count: neighbouring \<open>k\<close>-bit counters are added into
  \<open>2k\<close>-bit counters.\<close>

lemma fld_fold:
  fixes v :: "'w::len word"
  assumes len: "LENGTH('w) = 2 * k * n" and k: "0 < k" and i: "i < n"
    and M: "\<And>p. p < LENGTH('w) \<Longrightarrow> bit M p \<longleftrightarrow> p mod (2 * k) < k"
  shows "fld (2 * k) ((v AND M) + (drop_bit k v AND M)) i = fld k v (2 * i) + fld k v (2 * i + 1)"
proof -
  have lo: "fld (2 * k) (v AND M) j = fld k v (2 * j)" for j
    by (rule fld_and_mask_lo [OF M])
  have hi: "fld (2 * k) (drop_bit k v AND M) j = fld k v (2 * j + 1)" for j
    by (rule fld_and_mask_hi [OF M])
  have "fld k v a + fld k v b < 2 ^ (2 * k)" for a b
  proof -
    have "fld k v a + fld k v b \<le> 2 * (2 ^ k - 1)"
      using fld_less [of k v a] fld_less [of k v b] by simp
    also have "\<dots> < 2 ^ k * 2 ^ k"
    proof -
      have "(2::nat) \<le> 2 ^ k" using k by (cases k) simp_all
      then have "2 * (2 ^ k - 1) \<le> 2 ^ k * (2 ^ k - 1 :: nat)" by (rule mult_le_mono1)
      also have "\<dots> < 2 ^ k * 2 ^ k" by simp
      finally show ?thesis .
    qed
    finally show ?thesis by (simp add: power_add mult_2)
  qed
  then have "fld (2 * k) (v AND M) j + fld (2 * k) (drop_bit k v AND M) j < 2 ^ (2 * k)" for j
    by (simp only: lo hi)
  then have "fld (2 * k) ((v AND M) + (drop_bit k v AND M)) i
      = fld (2 * k) (v AND M) i + fld (2 * k) (drop_bit k v AND M) i"
    by (rule fld_plus [OF len _ i])
  then show ?thesis by (simp only: lo hi)
qed

text \<open>The same step with the mask applied after the addition, for counters that leave room.\<close>

lemma fld_fold_late:
  fixes v :: "'w::len word"
  assumes len: "LENGTH('w) = k * n" and i: "2 * i < n"
    and M: "\<And>p. p < LENGTH('w) \<Longrightarrow> bit M p \<longleftrightarrow> p mod (2 * k) < k"
    and small: "\<And>i. 2 * fld k v i < 2 ^ k"
  shows "fld (2 * k) ((v + drop_bit k v) AND M) i = fld k v (2 * i) + fld k v (2 * i + 1)"
proof -
  have sh: "fld k (drop_bit k v) j = fld k v (Suc j)" for j
    using fld_drop_bit [of k 1 v j] by simp
  have "fld k v j + fld k (drop_bit k v) j < 2 ^ k" for j
    using small [of j] small [of "Suc j"] by (simp add: sh)
  then have "fld k (v + drop_bit k v) (2 * i) = fld k v (2 * i) + fld k (drop_bit k v) (2 * i)"
    using i by (intro fld_plus [OF len]) auto
  then show ?thesis
    by (simp add: fld_and_mask_lo [OF M] sh)
qed

text \<open>The first step subtracts instead of masking; it computes the same word.\<close>

lemma sub_fold:
  assumes M: "\<And>p. p < 64 \<Longrightarrow> bit M p \<longleftrightarrow> p mod 2 < 1"
  shows "x - (drop_bit 1 x AND M) = (x AND M) + (drop_bit 1 x AND M :: u64)"
proof -
  define y where "y = drop_bit 1 x AND M"
  have d: "push_bit 1 y = x AND NOT M"
  proof (rule bit_word_eqI)
    fix n assume "n < LENGTH(64)"
    then have n: "n < 64" by simp
    have "bit (push_bit 1 y) n \<longleftrightarrow> 1 \<le> n \<and> bit y (n - 1)"
      using n by (simp only: Bit_Operations.bit_push_bit_iff possible_bit_word) simp
    also have "\<dots> \<longleftrightarrow> 1 \<le> n \<and> bit x (Suc (n - 1)) \<and> (n - 1) mod 2 < 1"
      using n M [of "n - 1"] by (auto simp: y_def bit_simps)
    also have "\<dots> \<longleftrightarrow> bit x n \<and> \<not> n mod 2 < 1"
      by (cases n) (auto simp: mod_Suc)
    also have "\<dots> \<longleftrightarrow> bit (x AND NOT M) n"
      using n M [of n] by (simp add: bit_simps)
    finally show "bit (push_bit 1 y) n = bit (x AND NOT M) n" .
  qed
  have "x = (x AND M) + (x AND NOT M)"
  proof -
    have "(x AND M) AND (x AND NOT M) = 0" by (rule bit_word_eqI) (simp add: bit_simps)
    then have "(x AND M) + (x AND NOT M) = (x AND M) OR (x AND NOT M)"
      by (rule disjunctive_add_eq_or)
    also have "\<dots> = x" by (rule bit_word_eqI) (auto simp: bit_simps)
    finally show ?thesis by simp
  qed
  also have "x AND NOT M = y + y" using d by (simp add: push_bit_eq_mult mult_2_right)
  finally have "x = (x AND M) + (y + y)" .
  then show ?thesis unfolding y_def [symmetric] by (metis add.assoc add_diff_cancel_right')
qed


text \<open>The masks of the source.\<close>

lemma bit_mask64_upto:
  "\<forall>p\<in>set [0..<64]. bit (0x5555555555555555 :: u64) p = (p mod 2 < 1)"
  "\<forall>p\<in>set [0..<64]. bit (0x3333333333333333 :: u64) p = (p mod 4 < 2)"
  "\<forall>p\<in>set [0..<64]. bit (0x0F0F0F0F0F0F0F0F :: u64) p = (p mod 8 < 4)"
  "\<forall>p\<in>set [0..<64]. bit (0x00FF00FF00FF00FF :: u64) p = (p mod 16 < 8)"
  by code_simp+

lemma bit_mask64:
  "p < 64 \<Longrightarrow> bit (0x5555555555555555 :: u64) p = (p mod 2 < 1)"
  "p < 64 \<Longrightarrow> bit (0x3333333333333333 :: u64) p = (p mod 4 < 2)"
  "p < 64 \<Longrightarrow> bit (0x0F0F0F0F0F0F0F0F :: u64) p = (p mod 8 < 4)"
  "p < 64 \<Longrightarrow> bit (0x00FF00FF00FF00FF :: u64) p = (p mod 16 < 8)"
  using bit_mask64_upto by simp_all

section \<open>The packed counters count\<close>

definition blk :: "u64 \<Rightarrow> nat \<Rightarrow> nat \<Rightarrow> nat" where
  "blk x k i = cnt (\<lambda>j. bit x (k * i + j)) k"

lemma blk_le: "blk x k i \<le> k"
  by (simp add: blk_def)

lemma blk_double: "blk x (2 * k) i = blk x k (2 * i) + blk x k (2 * i + 1)"
  using cnt_add [of "\<lambda>j. bit x (2 * k * i + j)" k k]
  by (simp add: blk_def mult_2_right algebra_simps)

lemma blk_high: "64 \<le> k * i \<Longrightarrow> blk x k i = 0"
proof -
  assume "64 \<le> k * i"
  then have "cnt (\<lambda>j. bit x (k * i + j)) k = cnt (\<lambda>_. False) k"
    by (intro cnt_cong) (auto dest: bit_imp_le_length)
  then show ?thesis by (simp add: blk_def)
qed

lemma fld_high: "64 \<le> k * i \<Longrightarrow> fld k (v :: u64) i = 0"
  by (rule bit_eqI) (auto simp: bit_fld dest: bit_imp_le_length)

lemma fld_blk_extend:
  assumes "64 = k * n" and "\<And>i. i < n \<Longrightarrow> fld k (v :: u64) i = blk x k i"
  shows "fld k v i = blk x k i"
proof (cases "i < n")
  case False
  then have "64 \<le> k * i" using assms(1) mult_le_mono2 [of n i k] by simp
  then show ?thesis by (simp add: fld_high blk_high)
qed (simp add: assms(2))

definition pc2 :: "u64 \<Rightarrow> u64" where
  "pc2 x = x - (drop_bit 1 x AND 0x5555555555555555)"
definition pc4 :: "u64 \<Rightarrow> u64" where
  "pc4 x = (pc2 x AND 0x3333333333333333) + (drop_bit 2 (pc2 x) AND 0x3333333333333333)"
definition pc8 :: "u64 \<Rightarrow> u64" where
  "pc8 x = (pc4 x + drop_bit 4 (pc4 x)) AND 0x0F0F0F0F0F0F0F0F"
definition pc16 :: "u64 \<Rightarrow> u64" where
  "pc16 x = (pc8 x + drop_bit 8 (pc8 x)) AND 0x00FF00FF00FF00FF"

lemma fld_pc2: "fld 2 (pc2 x) i = blk x 2 i"
proof (rule fld_blk_extend [of 2 32])
  fix i :: nat assume i: "i < 32"
  have M: "\<And>p. p < LENGTH(64) \<Longrightarrow> bit (0x5555555555555555 :: u64) p \<longleftrightarrow> p mod (2 * 1) < 1"
    using bit_mask64(1) by simp
  have eq: "pc2 x = (x AND 0x5555555555555555) + (drop_bit 1 x AND 0x5555555555555555)"
    unfolding pc2_def by (rule sub_fold) (rule bit_mask64(1))
  have "fld (2 * 1) (pc2 x) i = fld 1 x (2 * i) + fld 1 x (2 * i + 1)"
    unfolding eq using i by (intro fld_fold [OF _ _ _ M]) auto
  moreover have "fld 1 x j = blk x 1 j" for j
    unfolding fld_1 by (simp add: blk_def cnt_Suc)
  ultimately show "fld 2 (pc2 x) i = blk x 2 i"
    using blk_double [of x 1 i] by simp
qed simp

lemma fld_pc4: "fld 4 (pc4 x) i = blk x 4 i"
proof (rule fld_blk_extend [of 4 16])
  fix i :: nat assume i: "i < 16"
  have M: "\<And>p. p < LENGTH(64) \<Longrightarrow> bit (0x3333333333333333 :: u64) p \<longleftrightarrow> p mod (2 * 2) < 2"
    using bit_mask64(2) by simp
  have "fld (2 * 2) (pc4 x) i = fld 2 (pc2 x) (2 * i) + fld 2 (pc2 x) (2 * i + 1)"
    unfolding pc4_def using i by (intro fld_fold [OF _ _ _ M]) auto
  then show "fld 4 (pc4 x) i = blk x 4 i"
    using blk_double [of x 2 i] by (simp add: fld_pc2)
qed simp

lemma fld_pc8: "fld 8 (pc8 x) i = blk x 8 i"
proof (rule fld_blk_extend [of 8 8])
  fix i :: nat assume i: "i < 8"
  have M: "\<And>p. p < LENGTH(64) \<Longrightarrow> bit (0x0F0F0F0F0F0F0F0F :: u64) p \<longleftrightarrow> p mod (2 * 4) < 4"
    using bit_mask64(3) by simp
  have small: "2 * fld 4 (pc4 x) j < 2 ^ 4" for j
    using blk_le [of x 4 j] by (simp add: fld_pc4)
  have "fld (2 * 4) (pc8 x) i = fld 4 (pc4 x) (2 * i) + fld 4 (pc4 x) (2 * i + 1)"
    unfolding pc8_def using i by (intro fld_fold_late [OF _ _ M small, of 16]) auto
  then show "fld 8 (pc8 x) i = blk x 8 i"
    using blk_double [of x 4 i] by (simp add: fld_pc4)
qed simp

lemma fld_pc16: "fld 16 (pc16 x) i = blk x 16 i"
proof (rule fld_blk_extend [of 16 4])
  fix i :: nat assume i: "i < 4"
  have M: "\<And>p. p < LENGTH(64) \<Longrightarrow> bit (0x00FF00FF00FF00FF :: u64) p \<longleftrightarrow> p mod (2 * 8) < 8"
    using bit_mask64(4) by simp
  have small: "2 * fld 8 (pc8 x) j < 2 ^ 8" for j
    using blk_le [of x 8 j] by (simp add: fld_pc8)
  have "fld (2 * 8) (pc16 x) i = fld 8 (pc8 x) (2 * i) + fld 8 (pc8 x) (2 * i + 1)"
    unfolding pc16_def using i by (intro fld_fold_late [OF _ _ M small, of 8]) auto
  then show "fld 16 (pc16 x) i = blk x 16 i"
    using blk_double [of x 8 i] by (simp add: fld_pc8)
qed simp

section \<open>The portable population count\<close>

lemma sum_blk8: "(\<Sum>i<m. blk x 8 i) = cnt (bit x) (8 * m)"
proof (induction m)
  case (Suc m)
  then show ?case using cnt_add [of "bit x" "8 * m" 8] by (simp add: blk_def algebra_simps)
qed simp

lemma fld_push_bit8:
  "i < 8 \<Longrightarrow> fld 8 (push_bit (8 * j) v :: u64) i = (if j \<le> i then fld 8 v (i - j) else 0)"
  by (rule bit_eqI) (auto simp: bit_fld bit_simps algebra_simps)

lemma fld_shifted_sum:
  assumes v: "\<And>i. fld 8 v i = blk x 8 i" and "m \<le> 8" and "i < 8"
  shows "fld 8 (\<Sum>j<m. push_bit (8 * j) v :: u64) i = (\<Sum>j<min m (Suc i). blk x 8 (i - j))"
  using assms(2,3)
proof (induction m arbitrary: i)
  case 0
  then show ?case by (simp add: fld_def)
next
  case (Suc m)
  have bound: "(\<Sum>j<min m' (Suc i). blk x 8 (i - j)) \<le> 64" if "i < 8" for i m'
  proof -
    have "(\<Sum>j<min m' (Suc i). blk x 8 (i - j)) \<le> (\<Sum>j<min m' (Suc i). 8)"
      by (rule sum_mono) (rule blk_le)
    also have "\<dots> \<le> 64" using that by simp
    finally show ?thesis .
  qed
  have step: "(\<Sum>j<min (Suc m) (Suc i). blk x 8 (i - j))
      = (\<Sum>j<min m (Suc i). blk x 8 (i - j)) + (if m \<le> i then blk x 8 (i - m) else 0)" for i
  proof (cases "m \<le> i")
    case False
    then have "min m (Suc i) = Suc i" "min (Suc m) (Suc i) = Suc i" by auto
    with False show ?thesis by simp
  qed (simp add: min_def)
  have parts: "fld 8 (\<Sum>j<m. push_bit (8 * j) v) k + fld 8 (push_bit (8 * m) v) k
      = (\<Sum>j<min (Suc m) (Suc k). blk x 8 (k - j))" if "k < 8" for k
    using Suc.IH [of k] Suc.prems(1) that by (simp only: step fld_push_bit8 v)
  have "fld 8 ((\<Sum>j<m. push_bit (8 * j) v) + push_bit (8 * m) v) i
      = fld 8 (\<Sum>j<m. push_bit (8 * j) v) i + fld 8 (push_bit (8 * m) v) i"
  proof (rule fld_plus [where n = 8])
    fix k :: nat assume "k < 8"
    then show "fld 8 (\<Sum>j<m. push_bit (8 * j) v) k + fld 8 (push_bit (8 * m) v) k < 2 ^ 8"
      using bound [of k "Suc m"] by (simp only: parts) simp
  qed (use Suc.prems in simp_all)
  then show ?case
    using Suc.prems by (simp only: parts sum.lessThan_Suc)
qed

lemma mult_0101: "v * 0x0101010101010101 = (\<Sum>j<8. push_bit (8 * j) v :: u64)"
proof -
  have "(\<Sum>j<8. push_bit (8 * j) v) = (\<Sum>j<8. v * 2 ^ (8 * j))"
    by (simp only: push_bit_eq_mult)
  also have "\<dots> = v * (\<Sum>j<8. 2 ^ (8 * j))" by (simp only: sum_distrib_left)
  also have "(\<Sum>j<8. 2 ^ (8 * j) :: u64) = 0x0101010101010101"
    by (simp add: numeral_eq_Suc lessThan_Suc)
  finally show ?thesis by simp
qed

lemma fast_popcount64_portable_unat: "unat (fast_popcount64_portable x) = fast_popcount x"
proof -
  have "fast_popcount64_portable x = drop_bit 56 (\<Sum>j<8. push_bit (8 * j) (pc8 x))"
    by (simp add: fast_popcount64_portable_def Let_def mult_0101 pc8_def pc4_def pc2_def)
  moreover have "unat (drop_bit 56 w) = fld 8 w 7" for w :: u64
    by (rule bit_eqI) (auto simp: bit_fld bit_simps bit_unsigned_iff dest: bit_imp_le_length)
  ultimately have "unat (fast_popcount64_portable x) = (\<Sum>j<8. blk x 8 (7 - j))"
    by (simp add: fld_shifted_sum [OF fld_pc8])
  also have "\<dots> = (\<Sum>j<8. blk x 8 j)"
    by (simp add: numeral_eq_Suc lessThan_Suc)
  finally show ?thesis by (simp add: sum_blk8 fast_popcount_cnt)
qed

section \<open>Selection within a word\<close>

text \<open>The descent keeps: \<open>s\<close> is a multiple of the window \<open>w\<close>, \<open>r0 - r\<close> set bits lie below \<open>s\<close>,
  and the wanted bit is in the window that starts at \<open>s\<close>.\<close>

definition descent :: "u64 \<Rightarrow> nat \<Rightarrow> nat \<Rightarrow> nat \<times> nat \<Rightarrow> bool" where
  "descent x r0 w sr \<longleftrightarrow> (case sr of (s, r) \<Rightarrow>
     w dvd s \<and> cnt (bit x) s + r = r0 \<and> r < cnt (\<lambda>j. bit x (s + j)) w)"

lemma descent_step:
  assumes "descent x r0 (2 * w) sr" and "t = cnt (\<lambda>j. bit x (fst sr + j)) w"
  shows "descent x r0 w (select_step w t sr)"
  using assms cnt_add [of "bit x" "fst sr" w] cnt_add [of "\<lambda>j. bit x (fst sr + j)" w w]
  by (auto simp: descent_def select_step_def mult_2 add.assoc split: prod.splits
    intro: dvd_trans [OF dvd_triv_right])

lemma descent_done: "descent x r0 1 sr \<Longrightarrow> bit x (fst sr) \<and> cnt (bit x) (fst sr) = r0"
  by (cases sr; cases "bit x (fst sr)") (simp_all add: descent_def cnt_Suc)

lemma unat_window:
  assumes "w dvd s" and "fld w v (s div w) = blk x w (s div w)" and "w < 2 ^ k" and "k \<le> w"
  shows "unat (drop_bit s v AND mask k :: u64) = cnt (\<lambda>j. bit x (s + j)) w"
proof -
  have s: "s = w * (s div w)" using assms(1) by simp
  have "unat (drop_bit s v AND mask k) = take_bit k (fld w v (s div w))"
    by (rule bit_eqI) (use assms(4) s in \<open>auto simp: bit_fld bit_simps bit_unsigned_iff add.commute
      dest: bit_imp_le_length\<close>)
  also have "\<dots> = fld w v (s div w)"
    using blk_le [of x w "s div w"] assms(2,3) by (simp add: take_bit_nat_eq_self)
  also have "\<dots> = cnt (\<lambda>j. bit x (s + j)) w"
    using assms(1,2) by (simp add: blk_def)
  finally show ?thesis .
qed

lemma unat_first_window:
  "unat ((drop_bit 16 (pc16 x) + pc16 x) AND 255) = cnt (bit x) 32"
proof -
  have sh: "fld 16 (drop_bit 16 (pc16 x)) j = blk x 16 (Suc j)" for j
    using fld_drop_bit [of 16 1 "pc16 x" j] by (simp add: fld_pc16)
  have "fld 16 (drop_bit 16 (pc16 x)) j + fld 16 (pc16 x) j < 2 ^ 16" for j
    using blk_le [of x 16 j] blk_le [of x 16 "Suc j"] by (simp add: sh fld_pc16)
  then have "fld 16 (drop_bit 16 (pc16 x) + pc16 x) 0
      = fld 16 (drop_bit 16 (pc16 x)) 0 + fld 16 (pc16 x) 0"
    by (intro fld_plus [where n = 4]) auto
  also have "\<dots> = blk x 32 0"
    using blk_double [of x 16 0] by (simp add: sh fld_pc16)
  finally have f: "fld 16 (drop_bit 16 (pc16 x) + pc16 x) 0 = blk x 32 0" .
  have "unat (v AND 255) = take_bit 8 (fld 16 v 0)" for v :: u64
  proof -
    have "v AND 255 = take_bit 8 v" by (simp add: take_bit_eq_mask mask_eq_exp_minus_1)
    then show ?thesis by (simp add: fld_def unsigned_take_bit_eq)
  qed
  with f have "unat ((drop_bit 16 (pc16 x) + pc16 x) AND 255) = take_bit 8 (blk x 32 0)" by simp
  also have "\<dots> = blk x 32 0"
    using blk_le [of x 32 0] by (simp add: take_bit_nat_eq_self)
  finally show ?thesis by (simp add: blk_def)
qed

lemma descent_window:
  fixes v :: u64
  assumes d: "descent x r0 (2 * w) sr" and f: "\<And>i. fld w v i = blk x w i"
    and "w < 2 ^ k" and "k \<le> w"
  shows "descent x r0 w (select_step w (unat (drop_bit (fst sr) v AND mask k)) sr)"
proof (rule descent_step [OF d])
  have "w dvd fst sr" using d by (auto simp: descent_def split: prod.splits dest: dvd_mult_right)
  then show "unat (drop_bit (fst sr) v AND mask k) = cnt (\<lambda>j. bit x (fst sr + j)) w"
    using assms by (intro unat_window) auto
qed

lemma UintSelect1_slow_sel:
  assumes "r0 < fast_popcount x"
  shows "UintSelect1_slow x r0 = Some (sel (bit x) 64 r0)"
proof -
  define p1 where "p1 = select_step 32 (unat ((drop_bit 16 (pc16 x) + pc16 x) AND 255)) (0, r0)"
  define p2 where "p2 = select_step 16 (unat (drop_bit (fst p1) (pc16 x) AND 0xFF)) p1"
  define p3 where "p3 = select_step 8 (unat (drop_bit (fst p2) (pc8 x) AND 0xF)) p2"
  define p4 where "p4 = select_step 4 (unat (drop_bit (fst p3) (pc4 x) AND 0x7)) p3"
  define p5 where "p5 = select_step 2 (unat (drop_bit (fst p4) (pc2 x) AND 0x3)) p4"
  define p6 where "p6 = select_step 1 (unat (drop_bit (fst p5) x AND 0x1)) p5"
  have d0: "descent x r0 (2 * 32) (0, r0)"
    using assms by (simp add: descent_def fast_popcount_cnt)
  have d1: "descent x r0 (2 * 16) p1"
    using descent_step [OF d0, of "cnt (bit x) 32"] by (simp add: p1_def unat_first_window)
  have d2: "descent x r0 (2 * 8) p2"
    using descent_window [OF d1 fld_pc16, of 8] by (simp add: p2_def mask_eq_exp_minus_1)
  have d3: "descent x r0 (2 * 4) p3"
    using descent_window [OF d2 fld_pc8, of 4] by (simp add: p3_def mask_eq_exp_minus_1)
  have d4: "descent x r0 (2 * 2) p4"
    using descent_window [OF d3 fld_pc4, of 3] by (simp add: p4_def mask_eq_exp_minus_1)
  have d5: "descent x r0 (2 * 1) p5"
    using descent_window [OF d4 fld_pc2, of 2] by (simp add: p5_def mask_eq_exp_minus_1)
  have f1: "fld 1 x i = blk x 1 i" for i unfolding fld_1 by (simp add: blk_def cnt_Suc)
  have d6: "descent x r0 1 p6"
    using descent_window [OF d5 f1, of 1] by (simp add: p6_def mask_eq_exp_minus_1)
  have eq: "UintSelect1_slow x r0 = Some (fst p6)"
    using assms unfolding UintSelect1_slow_def Let_def p6_def p5_def p4_def p3_def p2_def
      p1_def pc16_def pc8_def pc4_def pc2_def by (simp only: not_le [symmetric] if_False)
  have "bit x (fst p6)" "cnt (bit x) (fst p6) = r0"
    using descent_done [OF d6] by simp_all
  moreover from this(1) have "fst p6 < 64" by (auto dest: bit_imp_le_length)
  ultimately show ?thesis
    unfolding eq by (simp add: sel_unique)
qed

lemma bit_pdep: "bit (pdep_u64 src msk) p \<longleftrightarrow> p < 64 \<and> bit msk p \<and> bit src (cnt (bit msk) p)"
  by (auto simp: pdep_u64_def bit_horner_sum_bit_word_iff)

lemma UintSelect1_sel:
  assumes "r < fast_popcount x"
  shows "UintSelect1 x r = sel (bit x) 64 r"
proof -
  define q where "q = sel (bit x) 64 r"
  have q: "q < 64" "bit x q" "cnt (bit x) q = r"
    using sel_props [of r "bit x" 64] assms by (simp_all add: q_def fast_popcount_cnt)
  define w where "w = pdep_u64 (bzhi_u64 (- 1) (r + 1)) x"
  have w: "bit w p \<longleftrightarrow> p < 64 \<and> bit x p \<and> cnt (bit x) p \<le> r" for p
    by (auto simp: w_def bit_pdep bzhi_u64_def bit_simps intro: le_less_trans [OF cnt_le])
  have "run_revlen (\<lambda>i. \<not> bit w i) 64 = 63 - q"
  proof (rule run_revlen_eqI)
    fix i assume "i < 63 - q"
    then have "q < 64 - Suc i" by simp
    then show "\<not> bit w (64 - Suc i)" using cnt_strict [of "bit x" q "64 - Suc i"] q by (auto simp: w)
  next
    show "\<not> \<not> bit w (64 - Suc (63 - q))" using q by (simp add: w)
  qed simp
  then show ?thesis
    using q(1) unfolding UintSelect1_def terark_bsr_u64_def fast_clz_run w_def [symmetric] q_def [symmetric]
    by simp
qed

end
