(* ===== verification/RankSelectSpec.thy ===== *)
theory RankSelectSpec
  imports UintSelect
begin

text \<open>
  What the rank/select structures of \<open>src/src/terark/succinct/\<close> share. The loops their sources
  repeat: the binary search \<open>upper_bound\<close> over the rank cache, the linear scan, and the construction
  of a select cache. The locale \<open>rank_lines\<close> (a cache that stores the rank at every line start) with
  what follows for any such cache, and the locale \<open>rank_select\<close>, the contract that every structure
  promises its clients.
\<close>

section \<open>The loops\<close>

text \<open>\<open>while (lo < hi) { mid = (lo + hi) / 2; if (val(mid) <= rank) lo = mid + 1; else hi = mid; }\<close>\<close>

function ub_loop :: "(nat \<Rightarrow> nat) \<Rightarrow> nat \<Rightarrow> nat \<Rightarrow> nat \<Rightarrow> nat" where
  "ub_loop v r lo hi =
     (if lo < hi then
        let mid = (lo + hi) div 2 in
        if v mid \<le> r then ub_loop v r (mid + 1) hi else ub_loop v r lo mid
      else lo)"
  by pat_completeness auto
termination
  by (relation "measure (\<lambda>(v, r, lo, hi). hi - lo)") auto

declare ub_loop.simps [simp del]

text \<open>\<open>while (P(k)) ++k;\<close> over an array with \<open>lim\<close> readable entries; \<open>None\<close> when the scan leaves it.\<close>

function scan_while :: "(nat \<Rightarrow> bool) \<Rightarrow> nat \<Rightarrow> nat \<Rightarrow> nat option" where
  "scan_while P k lim =
     (if lim \<le> k then None else if P k then scan_while P (Suc k) lim else Some k)"
  by pat_completeness auto
termination
  by (relation "measure (\<lambda>(P, k, lim). lim - k)") auto

declare scan_while.simps [simp del]

text \<open>The construction of a select cache of \<open>uint32_t\<close> entries at index \<open>c\<close> of the block (\<open>v\<close> reads
  the rank of a line start from the block, \<open>q\<close> is the number of ranks per slot):
  \<open>for (j = 1; j < slots; ++j) { k = cache[j-1]; while (v(k) < q * j) ++k; cache[j] = k; }\<close>\<close>

function sel_fill :: "(u64 list \<Rightarrow> nat \<Rightarrow> nat) \<Rightarrow> nat \<Rightarrow> nat \<Rightarrow> nat \<Rightarrow> nat \<Rightarrow> nat \<Rightarrow> u64 list \<Rightarrow> error + u64 list"
where
  "sel_fill v q lim slots c j m =
     (if j < slots then
        (case scan_while (\<lambda>k. v m k < q * j) (unat (get32 m (c + (j - 1)))) lim of
           None \<Rightarrow> Inl Out_of_bounds
         | Some k \<Rightarrow> sel_fill v q lim slots c (Suc j) (set32 m (c + j) (word_of_nat k)))
      else Inr m)"
  by pat_completeness auto
termination
  by (relation "measure (\<lambda>(v, q, lim, slots, c, j, m). slots - j)") auto

declare sel_fill.simps [simp del]

definition build_sel :: "(u64 list \<Rightarrow> nat \<Rightarrow> nat) \<Rightarrow> nat \<Rightarrow> nat \<Rightarrow> nat \<Rightarrow> nat \<Rightarrow> nat \<Rightarrow> u64 list \<Rightarrow> error + u64 list"
where
  "build_sel v q lim slots nlines c m =
     (case sel_fill v q lim slots c 1 (set32 m c 0) of
        Inl e \<Rightarrow> Inl e
      | Inr m \<Rightarrow> Inr (set32 m (c + slots) (word_of_nat nlines)))"

text \<open>What a rank/select structure over the bits \<open>xs\<close> must answer, in terms of the list.\<close>

definition rs_answers ::
  "bool list \<Rightarrow> nat \<Rightarrow> (nat \<Rightarrow> bool) \<Rightarrow> (nat \<Rightarrow> nat) \<Rightarrow> (nat \<Rightarrow> nat) \<Rightarrow> nat \<Rightarrow> nat \<Rightarrow> (nat \<Rightarrow> nat) \<Rightarrow> (nat \<Rightarrow> nat) \<Rightarrow> bool"
where
  "rs_answers xs sz is1 rank0 rank1 max_rank0 max_rank1 select0 select1 \<longleftrightarrow>
     sz = length xs \<and> (\<forall>i < sz. is1 i = xs ! i)
     \<and> (\<forall>p \<le> sz. rank1 p = count_list (take p xs) True \<and> rank0 p = count_list (take p xs) False)
     \<and> max_rank1 = count_list xs True \<and> max_rank0 = count_list xs False
     \<and> (\<forall>r < max_rank1. select1 r < sz \<and> xs ! select1 r \<and> count_list (take (select1 r) xs) True = r)
     \<and> (\<forall>r < max_rank0. select0 r < sz \<and> \<not> xs ! select0 r \<and> count_list (take (select0 r) xs) False = r)"

lemma count_list_cnt: "p \<le> length xs \<Longrightarrow> count_list (take p xs) b = cnt (\<lambda>i. xs ! i = b) p"
proof (induction p)
  case (Suc p)
  then have "take (Suc p) xs = take p xs @ [xs ! p]" by (simp add: take_Suc_conv_app_nth)
  with Suc show ?case by (simp add: cnt_Suc)
qed simp

section \<open>The searches find the first larger entry\<close>

lemma ub_loop_first:
  assumes "\<And>a b. lo \<le> a \<Longrightarrow> a \<le> b \<Longrightarrow> b < hi \<Longrightarrow> v a \<le> v b" and "lo \<le> hi"
  shows "lo \<le> ub_loop v r lo hi \<and> ub_loop v r lo hi \<le> hi
    \<and> (\<forall>k. lo \<le> k \<longrightarrow> k < ub_loop v r lo hi \<longrightarrow> v k \<le> r)
    \<and> (ub_loop v r lo hi < hi \<longrightarrow> r < v (ub_loop v r lo hi))"
  using assms
proof (induction v r lo hi rule: ub_loop.induct)
  case (1 v r lo hi)
  define mid where "mid = (lo + hi) div 2"
  show ?case
  proof (cases "lo < hi")
    case True
    then have mid: "lo \<le> mid" "mid < hi" by (simp_all add: mid_def)
    show ?thesis
    proof (cases "v mid \<le> r")
      case le: True
      have IH: "mid + 1 \<le> ub_loop v r (mid + 1) hi \<and> ub_loop v r (mid + 1) hi \<le> hi
        \<and> (\<forall>k. mid + 1 \<le> k \<longrightarrow> k < ub_loop v r (mid + 1) hi \<longrightarrow> v k \<le> r)
        \<and> (ub_loop v r (mid + 1) hi < hi \<longrightarrow> r < v (ub_loop v r (mid + 1) hi))"
        using True le mid "1.prems" by (intro "1.IH"(1)) (auto simp: mid_def)
      have "v k \<le> r" if "lo \<le> k" "k \<le> mid" for k
        using "1.prems"(1) [of k mid] that mid le by simp
      moreover have "ub_loop v r lo hi = ub_loop v r (mid + 1) hi"
        using True le by (subst ub_loop.simps) (simp add: Let_def mid_def)
      ultimately show ?thesis using IH mid by auto (meson not_less_eq_eq)+
    next
      case False
      have IH: "lo \<le> ub_loop v r lo mid \<and> ub_loop v r lo mid \<le> mid
        \<and> (\<forall>k. lo \<le> k \<longrightarrow> k < ub_loop v r lo mid \<longrightarrow> v k \<le> r)
        \<and> (ub_loop v r lo mid < mid \<longrightarrow> r < v (ub_loop v r lo mid))"
        using True False mid "1.prems" by (intro "1.IH"(2)) (auto simp: mid_def)
      moreover have "ub_loop v r lo hi = ub_loop v r lo mid"
        using True False by (subst ub_loop.simps) (simp add: Let_def mid_def)
      ultimately show ?thesis using mid False by (auto simp: le_less)
    qed
  next
    case False
    with "1.prems"(2) show ?thesis by (simp add: ub_loop.simps)
  qed
qed

lemma scan_while_first:
  assumes "k \<le> b" and "b < lim" and "\<not> P b" and "\<And>i. k \<le> i \<Longrightarrow> i < b \<Longrightarrow> P i"
  shows "scan_while P k lim = Some b"
  using assms
proof (induction P k lim rule: scan_while.induct)
  case (1 P k lim)
  show ?case
  proof (cases "k = b")
    case False
    with 1 show ?thesis by (subst scan_while.simps) simp
  qed (use 1 in \<open>subst scan_while.simps, simp\<close>)
qed

section \<open>Select caches\<close>

text \<open>Slot \<open>j\<close> of a select cache is the first line start with rank at least \<open>q * j\<close>; the slot after
  the last one is the number of lines.\<close>

definition sel_slot_ok :: "(nat \<Rightarrow> nat) \<Rightarrow> nat \<Rightarrow> nat \<Rightarrow> nat \<Rightarrow> nat \<Rightarrow> bool" where
  "sel_slot_ok v q nlines j k \<longleftrightarrow> k \<le> nlines \<and> q * j \<le> v k \<and> (\<forall>i<k. v i < q * j)"

definition sel_cache_ok :: "(nat \<Rightarrow> nat) \<Rightarrow> nat \<Rightarrow> nat \<Rightarrow> nat \<Rightarrow> (nat \<Rightarrow> nat) \<Rightarrow> bool" where
  "sel_cache_ok v q nlines slots c \<longleftrightarrow> (\<forall>j < slots. sel_slot_ok v q nlines j (c j)) \<and> c slots = nlines"

lemma sel_slot_mono:
  assumes "sel_slot_ok v q n i a" and "sel_slot_ok v q n j b" and "i \<le> j"
  shows "a \<le> b"
proof (rule ccontr)
  assume "\<not> a \<le> b"
  then have "v b < q * i" using assms(1) by (simp add: sel_slot_ok_def)
  also have "\<dots> \<le> q * j" using assms(3) by simp
  also have "\<dots> \<le> v b" using assms(2) by (simp add: sel_slot_ok_def)
  finally show False by simp
qed

lemma sel_cache_bracket:
  assumes ok: "sel_cache_ok v q n slots c" and q: "0 < q" and r: "r < q * slots" "r < v n"
  defines "lo \<equiv> c (r div q)" and "hi \<equiv> c (r div q + 1)"
  shows "lo = 0 \<or> v (lo - 1) \<le> r" and "lo \<le> hi" and "hi \<le> n" and "r < v hi"
proof -
  define j where "j = r div q"
  have j: "j < slots" using r(1) q by (simp add: j_def less_mult_imp_div_less mult.commute)
  have jr: "q * j \<le> r" by (simp add: j_def)
  have rj: "r < q * (j + 1)" using dividend_less_times_div [OF q, of r] by (simp add: j_def)
  have lo: "sel_slot_ok v q n j lo" using ok j by (simp add: sel_cache_ok_def lo_def j_def)
  show "lo = 0 \<or> v (lo - 1) \<le> r"
  proof (cases lo)
    case (Suc l)
    then have "v l < q * j" using lo by (simp add: sel_slot_ok_def)
    then show ?thesis using jr Suc by simp
  qed simp
  have "lo \<le> hi \<and> hi \<le> n \<and> r < v hi"
  proof (cases "j + 1 < slots")
    case True
    then have "sel_slot_ok v q n (j + 1) hi" using ok by (simp add: sel_cache_ok_def hi_def j_def)
    then show ?thesis using sel_slot_mono [OF lo, of "j + 1" hi] rj by (simp add: sel_slot_ok_def)
  next
    case False
    then have "j + 1 = slots" using j by simp
    then have "hi = n" using ok by (simp add: sel_cache_ok_def hi_def j_def)
    then show ?thesis using lo r(2) by (simp add: sel_slot_ok_def)
  qed
  then show "lo \<le> hi" "hi \<le> n" "r < v hi" by simp_all
qed

lemma sel_slot_ex:
  assumes "q * j \<le> v n"
  shows "\<exists>b. sel_slot_ok v q n j b"
proof -
  define b where "b = (LEAST b. q * j \<le> v b)"
  have "q * j \<le> v b" unfolding b_def using assms by (rule LeastI)
  moreover have "b \<le> n" unfolding b_def using assms by (rule Least_le)
  moreover have "\<forall>i<b. v i < q * j" unfolding b_def by (auto dest: not_less_Least simp: not_le)
  ultimately show ?thesis unfolding sel_slot_ok_def by blast
qed

lemma sel_fill_ok:
  assumes room: "c + slots < 2 * length m"
    and frame: "\<And>m' k. same_except m m' (32 * c) (32 * (c + slots) + 32) \<Longrightarrow> k \<le> nlines \<Longrightarrow> v m' k = v m k"
    and nl: "nlines < lim" "nlines < 2 ^ 32" and top: "\<And>j. j < slots \<Longrightarrow> q * j \<le> v m nlines"
    and same: "same_except m m1 (32 * c) (32 * (c + slots) + 32)" and j: "0 < j"
    and filled: "\<And>i. i < j \<Longrightarrow> sel_slot_ok (v m) q nlines i (unat (get32 m1 (c + i)))"
  shows "\<exists>m'. sel_fill v q lim slots c j m1 = Inr m' \<and> same_except m m' (32 * c) (32 * (c + slots) + 32)
    \<and> (\<forall>i < max j slots. sel_slot_ok (v m) q nlines i (unat (get32 m' (c + i))))"
  using same j filled
proof (induction "slots - j" arbitrary: j m1)
  case 0
  then show ?case by (subst sel_fill.simps) (auto simp: max_def)
next
  case (Suc d)
  then have js: "j < slots" by simp
  obtain b where b: "sel_slot_ok (v m) q nlines j b" using sel_slot_ex [of q j "v m", OF top [OF js]] by blast
  define k0 where "k0 = unat (get32 m1 (c + (j - 1)))"
  have k0: "k0 \<le> b"
    using sel_slot_mono [OF Suc.prems(3) [of "j - 1"] b] Suc.prems(2) by (simp add: k0_def)
  have vm: "v m1 k = v m k" if "k \<le> nlines" for k using frame [OF Suc.prems(1) that] .
  have blim: "b < lim" "b < 2 ^ 32" using b nl by (auto simp: sel_slot_ok_def)
  have scan: "scan_while (\<lambda>k. v m1 k < q * j) k0 lim = Some b"
    using k0 blim(1) b by (intro scan_while_first) (auto simp: vm sel_slot_ok_def)
  define m2 where "m2 = set32 m1 (c + j) (word_of_nat b)"
  have len: "(c + j) div 2 < length m1"
    using room js same_except_length [OF Suc.prems(1)] by (simp add: div_less_iff_less_mult)
  have s2: "same_except m m2 (32 * c) (32 * (c + slots) + 32)"
    unfolding m2_def using same_except_set32 [OF len, of "word_of_nat b"] js
    by (intro same_except_trans [OF Suc.prems(1)]) (auto elim!: same_except_widen)
  have ub: "unat (word_of_nat b :: u32) = b"
    using blim(2) by (simp add: unat_of_nat)
  have ok2: "sel_slot_ok (v m) q nlines i (unat (get32 m2 (c + i)))" if "i < Suc j" for i
    using that Suc.prems(3) [of i] b by (cases "i = j") (simp_all add: m2_def get32_set32 [OF len] ub)
  have dd: "d = slots - Suc j" using Suc.hyps(2) by simp
  obtain m' where m': "sel_fill v q lim slots c (Suc j) m2 = Inr m'"
    "same_except m m' (32 * c) (32 * (c + slots) + 32)"
    "\<forall>i<max (Suc j) slots. sel_slot_ok (v m) q nlines i (unat (get32 m' (c + i)))"
    using Suc.hyps(1) [OF dd s2 zero_less_Suc ok2] by blast
  have "sel_fill v q lim slots c j m1 = Inr m'"
    using js scan m'(1) by (subst sel_fill.simps) (simp add: k0_def m2_def)
  with m' js show ?case by (auto simp: max_def)
qed

lemma build_sel_ok:
  assumes room: "c + slots < 2 * length m"
    and frame: "\<And>m' k. same_except m m' (32 * c) (32 * (c + slots) + 32) \<Longrightarrow> k \<le> nlines \<Longrightarrow> v m' k = v m k"
    and nl: "nlines < lim" "nlines < 2 ^ 32" and top: "\<And>j. j < slots \<Longrightarrow> q * j \<le> v m nlines"
  shows "\<exists>m'. build_sel v q lim slots nlines c m = Inr m'
    \<and> same_except m m' (32 * c) (32 * (c + slots) + 32)
    \<and> sel_cache_ok (v m) q nlines slots (\<lambda>j. unat (get32 m' (c + j)))"
proof -
  define m1 where "m1 = set32 m c 0"
  have len: "c div 2 < length m" using room by (simp add: div_less_iff_less_mult)
  have same: "same_except m m1 (32 * c) (32 * (c + slots) + 32)"
    unfolding m1_def by (rule same_except_widen [OF same_except_set32 [OF len]]) simp_all
  have ok1: "sel_slot_ok (v m) q nlines i (unat (get32 m1 (c + i)))" if "i < 1" for i
    using that by (simp add: m1_def get32_set32 [OF len] sel_slot_ok_def)
  obtain m2 where m2: "sel_fill v q lim slots c 1 m1 = Inr m2"
    "same_except m m2 (32 * c) (32 * (c + slots) + 32)"
    "\<forall>i<max 1 slots. sel_slot_ok (v m) q nlines i (unat (get32 m2 (c + i)))"
    using sel_fill_ok [where v = v and m = m, OF room frame nl top same zero_less_one ok1] by blast
  have len2: "(c + slots) div 2 < length m2"
    using room same_except_length [OF m2(2)] by (simp add: div_less_iff_less_mult)
  define m' where "m' = set32 m2 (c + slots) (word_of_nat nlines)"
  have "unat (word_of_nat nlines :: u32) = nlines"
    using nl(2) by (simp add: unat_of_nat)
  then have "sel_cache_ok (v m) q nlines slots (\<lambda>j. unat (get32 m' (c + j)))"
    using m2(3) by (auto simp: sel_cache_ok_def m'_def get32_set32 [OF len2])
  moreover have "same_except m m' (32 * c) (32 * (c + slots) + 32)"
    unfolding m'_def by (rule same_except_trans [OF m2(2) same_except_widen [OF same_except_set32 [OF len2]]])
      simp_all
  moreover have "build_sel v q lim slots nlines c m = Inr m'"
    using m2(1) by (simp add: build_sel_def m1_def m'_def)
  ultimately show ?thesis by blast
qed

section \<open>Bits stored in words\<close>

locale word_bits =
  fixes f :: "nat \<Rightarrow> bool" and W :: "nat \<Rightarrow> u64"
  assumes f_word: "i < 64 \<Longrightarrow> f (64 * w + i) = bit (W w) i"
begin

lemma cnt_trail: "i \<le> 64 \<Longrightarrow> cnt f (64 * w + i) = cnt f (64 * w) + cnt (bit (W w)) i"
  unfolding cnt_add by (rule arg_cong [where f = "\<lambda>x. cnt f (64 * w) + x"], rule cnt_cong) (simp add: f_word)

lemma cnt_next: "cnt f (64 * w + 64) = cnt f (64 * w) + fast_popcount (W w)"
  using cnt_trail [of 64 w] by (simp add: fast_popcount_cnt)

lemma cnt_pos: "cnt f p = cnt f (64 * (p div 64)) + fast_popcount_trail (W (p div 64)) (p mod 64)"
proof -
  have "p mod 64 \<le> 64" by (rule less_imp_le) simp
  from cnt_trail [OF this, of "p div 64"] this show ?thesis
    by (simp add: fast_popcount_trail_cnt)
qed

lemma select_in_word:
  assumes "cnt f (64 * w) \<le> r" and "r < cnt f (64 * w + 64)" and "r < cnt f n"
  shows "64 * w + UintSelect1 (W w) (r - cnt f (64 * w)) = sel f n r"
proof -
  define i where "i = UintSelect1 (W w) (r - cnt f (64 * w))"
  have "r - cnt f (64 * w) < fast_popcount (W w)" using assms(1,2) by (simp add: cnt_next)
  then have "i < 64" "bit (W w) i" "cnt (bit (W w)) i = r - cnt f (64 * w)"
    using sel_props [of "r - cnt f (64 * w)" "bit (W w)" 64]
    by (simp_all add: i_def UintSelect1_sel fast_popcount_cnt)
  then have "f (64 * w + i)" "cnt f (64 * w + i) = r"
    using assms(1) by (simp_all add: f_word cnt_trail)
  then show ?thesis
    using assms(3) unfolding i_def [symmetric] by (intro sel_unique_cnt [symmetric])
qed

lemma compl_words: "word_bits (\<lambda>p. \<not> f p) (\<lambda>w. NOT (W w))"
  by unfold_locales (simp add: f_word bit_simps)

end

interpretation mem_bits: word_bits "mbit m" "\<lambda>w. m ! w" for m
  by unfold_locales (simp add: mbit_def)

interpretation mem_bits0: word_bits "\<lambda>p. \<not> mbit m p" "\<lambda>w. NOT (m ! w)" for m
  by (rule mem_bits.compl_words)

section \<open>Ranks cached at line starts\<close>

text \<open>A structure that stores, for each of its lines of \<open>L\<close> bits and for the end, the number of bits
  counted before it.\<close>

locale rank_lines =
  fixes invar :: "'s \<Rightarrow> bool" and f :: "'s \<Rightarrow> nat \<Rightarrow> bool" and L :: nat
    and nlines :: "'s \<Rightarrow> nat" and v :: "'s \<Rightarrow> nat \<Rightarrow> nat"
  assumes v_rank: "invar s \<Longrightarrow> k \<le> nlines s \<Longrightarrow> v s k = cnt (f s) (L * k)"
begin

lemma v_mono: "invar s \<Longrightarrow> a \<le> b \<Longrightarrow> b \<le> nlines s \<Longrightarrow> v s a \<le> v s b"
  by (simp add: v_rank cnt_mono)

lemma v_zero: "invar s \<Longrightarrow> v s 0 = 0"
  by (simp add: v_rank)

text \<open>Both searches end at the line end \<open>k\<close> with \<open>v (k-1) \<le> r < v k\<close>, whatever bracket
  \<open>[lo, hi]\<close> they start from, as long as it holds that point.\<close>

lemma ub_line:
  assumes "invar s" and "lo = 0 \<or> v s (lo - 1) \<le> r" and "lo \<le> h" and "h \<le> hi" and "h \<le> nlines s"
    and "hi \<le> Suc (nlines s)" and "r < v s h"
  defines "k \<equiv> ub_loop (v s) r lo hi"
  shows "0 < k" and "k \<le> nlines s" and "v s (k - 1) \<le> r" and "r < v s k"
proof -
  have first: "lo \<le> k" "k \<le> hi" "\<And>i. lo \<le> i \<Longrightarrow> i < k \<Longrightarrow> v s i \<le> r" "k < hi \<Longrightarrow> r < v s k"
    using ub_loop_first [of lo hi "v s" r] v_mono [OF assms(1)] assms(3-6) unfolding k_def by auto
  have kh: "k \<le> h" using first(3) [of h] assms(3,7) by (meson leI leD)
  then show "k \<le> nlines s" using assms(5) by simp
  show rk: "r < v s k"
  proof (cases "k < hi")
    case False
    then have "k = h" using kh assms(4) by simp
    with assms(7) show ?thesis by simp
  qed (rule first(4))
  then show "0 < k" using v_zero [OF assms(1)] by (cases k) auto
  then show "v s (k - 1) \<le> r"
    using first(1) first(3) [of "k - 1"] assms(2) by (cases "k = lo") auto
qed

lemma scan_line:
  assumes "invar s" and "lo = 0 \<or> v s (lo - 1) \<le> r" and "lo \<le> h" and "h \<le> nlines s" and "h < lim"
    and "r < v s h"
  shows "\<exists>k. scan_while (\<lambda>i. v s i \<le> r) lo lim = Some k \<and> 0 < k \<and> k \<le> nlines s \<and> v s (k - 1) \<le> r \<and> r < v s k"
proof -
  define k where "k = ub_loop (v s) r lo h"
  have k: "0 < k" "k \<le> nlines s" "v s (k - 1) \<le> r" "r < v s k"
    using ub_line [OF assms(1,2,3) order_refl assms(4) _ assms(6)] assms(4) unfolding k_def by auto
  have lo: "lo \<le> k" "k \<le> h"
    using ub_loop_first [of lo h "v s" r] v_mono [OF assms(1)] assms(3,4) unfolding k_def by auto
  have "v s i \<le> r" if "lo \<le> i" "i < k" for i
  proof -
    have "i \<le> k - 1" "k - 1 \<le> nlines s" using that k by auto
    from v_mono [OF assms(1) this] k(3) show ?thesis by simp
  qed
  then have "scan_while (\<lambda>i. v s i \<le> r) lo lim = Some k"
    using lo k assms(5) by (intro scan_while_first) auto
  with k show ?thesis by blast
qed

text \<open>The line found is the one that holds the wanted bit.\<close>

lemma line_cnt:
  assumes "invar s" and "0 < k" and "k \<le> nlines s" and "v s (k - 1) \<le> r" and "r < v s k"
  shows "cnt (f s) (L * (k - 1)) \<le> r" and "r < cnt (f s) (L * (k - 1) + L)"
proof -
  have "L * (k - 1) + L = L * k" using assms(2) by (cases k) simp_all
  then show "cnt (f s) (L * (k - 1)) \<le> r" and "r < cnt (f s) (L * (k - 1) + L)"
    using assms by (simp_all add: v_rank)
qed

lemma compl_lines: "rank_lines invar (\<lambda>s p. \<not> f s p) L nlines (\<lambda>s k. L * k - v s k)"
  by unfold_locales (simp add: v_rank cnt_Not)

end

section \<open>The contract of a rank/select structure\<close>

locale rank_select =
  fixes invar :: "'s \<Rightarrow> bool" and size :: "'s \<Rightarrow> nat" and is1 :: "'s \<Rightarrow> nat \<Rightarrow> bool"
    and rank0 rank1 :: "'s \<Rightarrow> nat \<Rightarrow> nat" and max_rank0 max_rank1 :: "'s \<Rightarrow> nat"
    and select0 select1 :: "'s \<Rightarrow> nat \<Rightarrow> nat"
  assumes rank1_cnt: "invar s \<Longrightarrow> p \<le> size s \<Longrightarrow> rank1 s p = cnt (is1 s) p"
    and rank0_cnt: "invar s \<Longrightarrow> p \<le> size s \<Longrightarrow> rank0 s p = cnt (\<lambda>i. \<not> is1 s i) p"
    and max_rank1_cnt: "invar s \<Longrightarrow> max_rank1 s = cnt (is1 s) (size s)"
    and max_rank0_cnt: "invar s \<Longrightarrow> max_rank0 s = cnt (\<lambda>i. \<not> is1 s i) (size s)"
    and select1_sel: "invar s \<Longrightarrow> r < max_rank1 s \<Longrightarrow> select1 s r = sel (is1 s) (size s) r"
    and select0_sel: "invar s \<Longrightarrow> r < max_rank0 s \<Longrightarrow> select0 s r = sel (\<lambda>i. \<not> is1 s i) (size s) r"
begin

lemma rank_sum: "invar s \<Longrightarrow> p \<le> size s \<Longrightarrow> rank0 s p + rank1 s p = p"
  by (simp add: rank0_cnt rank1_cnt cnt_Not)

lemma rank1_step: "invar s \<Longrightarrow> p < size s \<Longrightarrow> rank1 s (Suc p) = rank1 s p + of_bool (is1 s p)"
  by (simp add: rank1_cnt cnt_Suc)

lemma max_rank_sum: "invar s \<Longrightarrow> max_rank0 s + max_rank1 s = size s"
  by (simp add: max_rank0_cnt max_rank1_cnt cnt_Not)

lemma select1_inverse:
  assumes "invar s" and "r < max_rank1 s"
  shows "select1 s r < size s" and "is1 s (select1 s r)" and "rank1 s (select1 s r) = r"
  using sel_props [of r "is1 s" "size s"] assms by (simp_all add: select1_sel max_rank1_cnt rank1_cnt)

lemma select0_inverse:
  assumes "invar s" and "r < max_rank0 s"
  shows "select0 s r < size s" and "\<not> is1 s (select0 s r)" and "rank0 s (select0 s r) = r"
  using sel_props [of r "\<lambda>i. \<not> is1 s i" "size s"] assms
  by (simp_all add: select0_sel max_rank0_cnt rank0_cnt)

lemma rank1_inverse:
  assumes "invar s" and "p < size s" and "is1 s p"
  shows "rank1 s p < max_rank1 s" and "select1 s (rank1 s p) = p"
proof -
  show r: "rank1 s p < max_rank1 s"
    using assms cnt_strict [of "is1 s" p "size s"] by (simp add: rank1_cnt max_rank1_cnt)
  show "select1 s (rank1 s p) = p"
    using assms r by (simp add: select1_sel) (simp add: rank1_cnt sel_unique)
qed

lemma rank0_inverse:
  assumes "invar s" and "p < size s" and "\<not> is1 s p"
  shows "rank0 s p < max_rank0 s" and "select0 s (rank0 s p) = p"
proof -
  show r: "rank0 s p < max_rank0 s"
    using assms cnt_strict [of "\<lambda>i. \<not> is1 s i" p "size s"] by (simp add: rank0_cnt max_rank0_cnt)
  show "select0 s (rank0 s p) = p"
    using assms r by (simp add: select0_sel) (simp add: rank0_cnt sel_unique)
qed

lemma select1_strict_mono: "invar s \<Longrightarrow> r < r' \<Longrightarrow> r' < max_rank1 s \<Longrightarrow> select1 s r < select1 s r'"
  by (simp add: select1_sel) (simp add: max_rank1_cnt sel_mono)

text \<open>Galois connection between rank and select.\<close>

lemma select1_less_iff:
  assumes "invar s" and "r < max_rank1 s" and "p \<le> size s"
  shows "select1 s r < p \<longleftrightarrow> r < rank1 s p"
proof
  assume "select1 s r < p"
  with select1_inverse [OF assms(1,2)] assms show "r < rank1 s p"
    using cnt_strict [of "is1 s" "select1 s r" p] by (simp add: rank1_cnt)
next
  assume "r < rank1 s p"
  with select1_inverse [OF assms(1,2)] assms show "select1 s r < p"
    using cnt_less_imp_less [of "is1 s" "select1 s r" p] by (simp add: rank1_cnt)
qed

text \<open>The contract in the vocabulary of lists.\<close>

lemma answers_list:
  assumes "invar s" and sz: "size s = length xs" and is1: "\<And>i. i < length xs \<Longrightarrow> is1 s i = xs ! i"
  shows "rs_answers xs (size s) (is1 s) (rank0 s) (rank1 s) (max_rank0 s) (max_rank1 s) (select0 s) (select1 s)"
proof -
  have c1: "count_list (take p xs) True = cnt (is1 s) p" if "p \<le> length xs" for p
    unfolding count_list_cnt [OF that] by (rule cnt_cong) (use that is1 in simp)
  have c0: "count_list (take p xs) False = cnt (\<lambda>i. \<not> is1 s i) p" if "p \<le> length xs" for p
    unfolding count_list_cnt [OF that] by (rule cnt_cong) (use that is1 in simp)
  have s1: "select1 s r < length xs \<and> xs ! select1 s r \<and> count_list (take (select1 s r) xs) True = r"
    if "r < max_rank1 s" for r
    using select1_inverse [OF assms(1) that] by (simp add: sz is1 c1 rank1_cnt [OF assms(1)])
  have s0: "select0 s r < length xs \<and> \<not> xs ! select0 s r \<and> count_list (take (select0 s r) xs) False = r"
    if "r < max_rank0 s" for r
    using select0_inverse [OF assms(1) that] by (simp add: sz is1 c0 rank0_cnt [OF assms(1)])
  show ?thesis
    unfolding rs_answers_def sz
    using is1 s1 s0 c1 [of "length xs"] c0 [of "length xs"]
    by (simp add: sz c1 c0 rank1_cnt [OF assms(1)] rank0_cnt [OF assms(1)] max_rank1_cnt [OF assms(1)] max_rank0_cnt [OF assms(1)])
qed

end

end
