(* ===== verification/Febitvec.thy ===== *)
theory Febitvec
  imports RankSelectSpec
begin

text \<open>
  The growable bit vector \<open>febitvec\<close> of \<open>src/src/terark/bitmap.hpp\<close> and \<open>bitmap.cpp\<close>. A vector is its
  heap block (\<open>None\<close> for a null pointer), its size and its capacity in bits. \<open>bvec v\<close> is the list of
  its bits, the abstract value; the operations are shown to act on it as on a list. Memory obtained
  from the C allocator has unknown contents and may be refused: both are fields of \<open>env\<close>.
\<close>

section \<open>State and environment\<close>

record env =
  realloc_ok :: "nat \<Rightarrow> bool"
  fresh :: "nat \<Rightarrow> nat \<Rightarrow> u64"
  hasValgrind :: bool

record febitvec =
  m_words :: "u64 list option"
  m_size :: nat
  m_capacity :: nat

definition bldata :: "febitvec \<Rightarrow> u64 list" where
  "bldata v = (case m_words v of None \<Rightarrow> [] | Some ws \<Rightarrow> ws)"

definition upd_words :: "(u64 list \<Rightarrow> u64 list) \<Rightarrow> febitvec \<Rightarrow> febitvec" where
  "upd_words g v = v\<lparr>m_words := map_option g (m_words v)\<rparr>"

text \<open>\<open>realloc\<close> (and \<open>malloc\<close>, with an empty old block) of \<open>nbytes\<close> bytes: the common prefix is kept,
  the rest has unspecified contents.\<close>

definition realloc_words :: "env \<Rightarrow> u64 list \<Rightarrow> nat \<Rightarrow> u64 list option" where
  "realloc_words e old nbytes =
     (if realloc_ok e nbytes
      then Some (take (nbytes div 8) old @ map (fresh e nbytes) [length old..<nbytes div 8])
      else None)"

section \<open>Size, capacity, allocation\<close>

definition febitvec_align_bits :: "nat \<Rightarrow> nat" where
  "febitvec_align_bits nbits = align_up nbits 64"

definition febitvec_empty :: febitvec where
  "febitvec_empty = \<lparr>m_words = None, m_size = 0, m_capacity = 0\<rparr>"

definition febitvec_num_words :: "febitvec \<Rightarrow> nat" where
  "febitvec_num_words v = (m_size v + 64 - 1) div 64"

definition febitvec_mem_size :: "febitvec \<Rightarrow> nat" where
  "febitvec_mem_size v = align_up (m_size v) 64 div 8"

definition febitvec_unused :: "febitvec \<Rightarrow> nat" where
  "febitvec_unused v = size_sub (m_capacity v) (m_size v)"

definition febitvec_risk_release_ownership :: "febitvec \<Rightarrow> febitvec" where
  "febitvec_risk_release_ownership v = v\<lparr>m_words := None, m_size := 0, m_capacity := 0\<rparr>"

definition febitvec_clear :: "febitvec \<Rightarrow> febitvec" where
  "febitvec_clear v = febitvec_risk_release_ownership v"

definition febitvec_erase_all :: "febitvec \<Rightarrow> febitvec" where
  "febitvec_erase_all v = v\<lparr>m_size := 0\<rparr>"

definition febitvec_reserve :: "env \<Rightarrow> nat \<Rightarrow> febitvec \<Rightarrow> error + febitvec" where
  "febitvec_reserve e newcap v =
     (let newcap = align_up newcap 64 in
      if m_capacity v < newcap then
        (case realloc_words e (bldata v) (newcap div 8) of
           None \<Rightarrow> Inl Bad_alloc
         | Some q \<Rightarrow>
             let q = (if hasValgrind e
                      then fst (fill_words 0 q ((m_size v + 64 - 1) div 64) (newcap div 64)) else q)
             in Inr (v\<lparr>m_words := Some q, m_capacity := newcap\<rparr>))
      else Inr v)"

text \<open>\<open>while (newcap < newsize) newcap *= 2;\<close>, entered with \<open>newcap\<close> at least \<open>AllocUnitBits\<close>.\<close>

function grow_cap :: "nat \<Rightarrow> nat \<Rightarrow> nat" where
  "grow_cap newcap newsize =
     (if 0 < newcap \<and> newcap < newsize then grow_cap (newcap * 2) newsize else newcap)"
  by pat_completeness auto
termination
  by (relation "measure (\<lambda>(newcap, newsize). newsize - newcap)") auto

declare grow_cap.simps [simp del]

definition febitvec_resize_no_init :: "env \<Rightarrow> nat \<Rightarrow> febitvec \<Rightarrow> error + febitvec" where
  "febitvec_resize_no_init e newsize v =
     (if m_capacity v < newsize then
        let newcap = grow_cap (max (m_capacity v) AllocUnitBits) newsize in
        (case realloc_words e (bldata v) (newcap div 8) of
           None \<Rightarrow> Inl Bad_alloc
         | Some q \<Rightarrow>
             let q = (if hasValgrind e
                      then fst (fill_words 0 q ((m_size v + 64 - 1) div 64) (newcap div 64)) else q)
             in Inr (v\<lparr>m_words := Some q, m_capacity := newcap, m_size := newsize\<rparr>))
      else Inr (v\<lparr>m_size := newsize\<rparr>))"

definition febitvec_resize :: "env \<Rightarrow> nat \<Rightarrow> bool \<Rightarrow> febitvec \<Rightarrow> error + febitvec" where
  "febitvec_resize e newsize val v =
     (let oldsize = m_size v in
      if oldsize = newsize then Inr v
      else case febitvec_resize_no_init e newsize v of
          Inl err \<Rightarrow> Inl err
        | Inr v \<Rightarrow> Inr (if oldsize < newsize
                        then upd_words (\<lambda>ws. bits_range_set ws oldsize newsize val) v else v))"

definition febitvec_grow :: "env \<Rightarrow> nat \<Rightarrow> bool \<Rightarrow> febitvec \<Rightarrow> error + febitvec" where
  "febitvec_grow e n val v = febitvec_resize e (m_size v + n) val v"

text \<open>\<open>std::fill_n(m_words, num_words(), val ? -1 : 0)\<close>\<close>

definition febitvec_fill :: "bool \<Rightarrow> febitvec \<Rightarrow> febitvec" where
  "febitvec_fill val v =
     upd_words (\<lambda>ws. fst (fill_words (if val then - 1 else 0) ws 0 (febitvec_num_words v))) v"

definition febitvec_resize_fill :: "env \<Rightarrow> nat \<Rightarrow> bool \<Rightarrow> febitvec \<Rightarrow> error + febitvec" where
  "febitvec_resize_fill e newsize val v =
     (case febitvec_resize_no_init e newsize v of Inl err \<Rightarrow> Inl err | Inr v \<Rightarrow> Inr (febitvec_fill val v))"

text \<open>The branch for an empty vector frees the block and goes on: the block is then reallocated to
  size 0. A refused shrink aborts the process: \<open>None\<close>.\<close>

definition febitvec_shrink_to_fit :: "env \<Rightarrow> febitvec \<Rightarrow> febitvec option" where
  "febitvec_shrink_to_fit e v =
     (case m_words v of
        None \<Rightarrow> Some v
      | Some ws \<Rightarrow>
          let v = (if m_size v = 0 then v\<lparr>m_words := None, m_capacity := 0\<rparr> else v);
              ceiled_bits = align_up (m_size v) 64
          in case realloc_words e (bldata v) (ceiled_bits div 8) of
               None \<Rightarrow> None
             | Some p \<Rightarrow> Some (v\<lparr>m_words := Some p, m_capacity := ceiled_bits\<rparr>))"

section \<open>Constructors\<close>

definition febitvec_make :: "env \<Rightarrow> nat \<Rightarrow> bool \<Rightarrow> error + febitvec" where
  "febitvec_make e bits val = febitvec_resize e bits val febitvec_empty"

definition febitvec_make_no_init :: "env \<Rightarrow> nat \<Rightarrow> error + febitvec" where
  "febitvec_make_no_init e bits = febitvec_resize_no_init e bits febitvec_empty"

definition febitvec_make_reserve :: "env \<Rightarrow> nat \<Rightarrow> error + febitvec" where
  "febitvec_make_reserve e bits = febitvec_reserve e bits febitvec_empty"

definition febitvec_make_padding :: "env \<Rightarrow> nat \<Rightarrow> bool \<Rightarrow> bool \<Rightarrow> error + febitvec" where
  "febitvec_make_padding e bits val padding =
     (case febitvec_resize_no_init e bits febitvec_empty of
        Inl err \<Rightarrow> Inl err
      | Inr v \<Rightarrow>
          let nWords = febitvec_num_words v;
              v = upd_words (\<lambda>ws. fst (fill_words (if val then - 1 else 0) ws 0 nWords)) v
          in Inr (if bits \<noteq> m_capacity v \<and> padding \<noteq> val then
                    if padding
                    then upd_words (\<lambda>ws. ws[nWords - 1 := NOT (drop_bit (m_capacity v - bits) (- 1) - 1)]) v
                    else upd_words (\<lambda>ws. ws[nWords - 1 := drop_bit (m_capacity v - bits) (- 1) - 1]) v
                  else v))"

definition febitvec_copy :: "env \<Rightarrow> febitvec \<Rightarrow> error + febitvec" where
  "febitvec_copy e y =
     (let nWords = align_up (m_size y) 64 div 64 in
      if nWords = 0 then Inr \<lparr>m_words = None, m_size = m_size y, m_capacity = 64 * nWords\<rparr>
      else if realloc_ok e (8 * nWords)
      then Inr \<lparr>m_words = Some (take nWords (bldata y)), m_size = m_size y, m_capacity = 64 * nWords\<rparr>
      else Inl Bad_alloc)"

text \<open>The moving constructor takes the block and leaves the source empty.\<close>

definition febitvec_move :: "febitvec \<Rightarrow> febitvec \<times> febitvec" where
  "febitvec_move y = (y, febitvec_risk_release_ownership y)"

text \<open>\<open>for (i = 0; i < numBlock-1; ++i) bits[i] = (bits[i] >> rs) | (bits[i+1] << ls);\<close>\<close>

function shift_right_loop :: "nat \<Rightarrow> u64 list \<Rightarrow> nat \<Rightarrow> nat \<Rightarrow> u64 list" where
  "shift_right_loop rs bits i n =
     (if i < n then
        shift_right_loop rs (bits[i := drop_bit rs (bits ! i) OR push_bit (64 - rs) (bits ! (i + 1))]) (Suc i) n
      else bits)"
  by pat_completeness auto
termination
  by (relation "measure (\<lambda>(rs, bits, i, n). n - i)") auto

declare shift_right_loop.simps [simp del]

definition febitvec_make_sub :: "env \<Rightarrow> febitvec \<Rightarrow> nat \<Rightarrow> nat \<Rightarrow> error + febitvec" where
  "febitvec_make_sub e y beg len =
     (if m_size y < beg + len then Inl Out_of_range
      else if len = 0 then Inr febitvec_empty
      else
        let begBlock = beg div 64;
            endBlock = (beg + len + 64 - 1) div 64;
            numBlock = endBlock - begBlock;
            capacity = align_up (64 * numBlock) 64;
            capBlock = capacity div 64
        in if \<not> realloc_ok e (8 * capBlock) then Inl Bad_alloc
           else
             let bits = take numBlock (drop begBlock (bldata y)) @ map (fresh e (8 * capBlock)) [numBlock..<capBlock];
                 rightShift = beg mod 64;
                 bits = (if rightShift \<noteq> 0 then
                           let bits = shift_right_loop rightShift bits 0 (numBlock - 1)
                           in bits[numBlock - 1 := drop_bit rightShift (bits ! (numBlock - 1))]
                         else bits)
             in Inr \<lparr>m_words = Some bits, m_size = len, m_capacity = capacity\<rparr>)"


section \<open>Single bits\<close>

definition febitvec_is1 :: "febitvec \<Rightarrow> nat \<Rightarrow> bool" where
  "febitvec_is1 v i = terark_bit_test (bldata v) i"

definition febitvec_is0 :: "febitvec \<Rightarrow> nat \<Rightarrow> bool" where
  "febitvec_is0 v i = (\<not> terark_bit_test (bldata v) i)"

definition febitvec_back :: "febitvec \<Rightarrow> bool" where
  "febitvec_back v = terark_bit_test (bldata v) (m_size v - 1)"

definition febitvec_set0 :: "nat \<Rightarrow> febitvec \<Rightarrow> febitvec" where
  "febitvec_set0 i v = upd_words (\<lambda>ws. terark_bit_set0 ws i) v"

definition febitvec_set1 :: "nat \<Rightarrow> febitvec \<Rightarrow> febitvec" where
  "febitvec_set1 i v = upd_words (\<lambda>ws. terark_bit_set1 ws i) v"

definition febitvec_set :: "nat \<Rightarrow> bool \<Rightarrow> febitvec \<Rightarrow> febitvec" where
  "febitvec_set i val v = (if val then febitvec_set1 i v else febitvec_set0 i v)"

definition febitvec_push_back_slow_path :: "env \<Rightarrow> bool \<Rightarrow> febitvec \<Rightarrow> error + febitvec" where
  "febitvec_push_back_slow_path e val v =
     (case febitvec_resize_no_init e (m_size v + 1) v of
        Inl err \<Rightarrow> Inl err
      | Inr v \<Rightarrow> Inr (upd_words (\<lambda>ws. ws[m_size v div 64 := (if val then 1 else 0)]) v))"

definition febitvec_unchecked_push_back :: "bool \<Rightarrow> febitvec \<Rightarrow> febitvec" where
  "febitvec_unchecked_push_back val v = febitvec_set (m_size v) val (v\<lparr>m_size := m_size v + 1\<rparr>)"

definition febitvec_push_back :: "env \<Rightarrow> bool \<Rightarrow> febitvec \<Rightarrow> error + febitvec" where
  "febitvec_push_back e val v =
     (if m_size v < m_capacity v then Inr (febitvec_set (m_size v) val (v\<lparr>m_size := m_size v + 1\<rparr>))
      else febitvec_push_back_slow_path e val v)"

definition febitvec_pop_back :: "febitvec \<Rightarrow> febitvec" where
  "febitvec_pop_back v = v\<lparr>m_size := m_size v - 1\<rparr>"

definition febitvec_ensure_set0 :: "env \<Rightarrow> nat \<Rightarrow> febitvec \<Rightarrow> error + febitvec" where
  "febitvec_ensure_set0 e i v =
     (if i < m_size v then Inr (febitvec_set0 i v) else febitvec_resize e (i + 1) False v)"

definition febitvec_ensure_set1_slow_path :: "env \<Rightarrow> nat \<Rightarrow> febitvec \<Rightarrow> error + febitvec" where
  "febitvec_ensure_set1_slow_path e i v =
     (case febitvec_resize e (i + 1) False v of
        Inl err \<Rightarrow> Inl err | Inr v \<Rightarrow> Inr (febitvec_set1 i v))"

definition febitvec_ensure_set1 :: "env \<Rightarrow> nat \<Rightarrow> febitvec \<Rightarrow> error + febitvec" where
  "febitvec_ensure_set1 e i v =
     (if i < m_size v then Inr (febitvec_set1 i v) else febitvec_ensure_set1_slow_path e i v)"

definition febitvec_ensure_set :: "env \<Rightarrow> nat \<Rightarrow> bool \<Rightarrow> febitvec \<Rightarrow> error + febitvec" where
  "febitvec_ensure_set e i val v = (if val then febitvec_ensure_set1 e i v else febitvec_ensure_set0 e i v)"

definition febitvec_set_word :: "nat \<Rightarrow> u64 \<Rightarrow> febitvec \<Rightarrow> febitvec" where
  "febitvec_set_word word_idx bits v = upd_words (\<lambda>ws. ws[word_idx := bits]) v"

definition febitvec_get_word :: "febitvec \<Rightarrow> nat \<Rightarrow> u64" where
  "febitvec_get_word v word_idx = bldata v ! word_idx"

definition febitvec_swap :: "febitvec \<Rightarrow> febitvec \<Rightarrow> febitvec \<times> febitvec" where
  "febitvec_swap x y =
     (x\<lparr>m_words := m_words y, m_size := m_size y, m_capacity := m_capacity y\<rparr>,
      y\<lparr>m_words := m_words x, m_size := m_size x, m_capacity := m_capacity x\<rparr>)"

definition febitvec_risk_mmap_from :: "u64 list \<Rightarrow> nat \<Rightarrow> febitvec \<Rightarrow> febitvec" where
  "febitvec_risk_mmap_from base len v = v\<lparr>m_words := Some base, m_size := len * 8, m_capacity := len * 8\<rparr>"

section \<open>Ranges of bits\<close>

definition febitvec_set0_range :: "nat \<Rightarrow> nat \<Rightarrow> febitvec \<Rightarrow> febitvec" where
  "febitvec_set0_range i nbits v = upd_words (\<lambda>ws. bits_range_set0 ws i (i + nbits)) v"

definition febitvec_set1_range :: "nat \<Rightarrow> nat \<Rightarrow> febitvec \<Rightarrow> febitvec" where
  "febitvec_set1_range i nbits v = upd_words (\<lambda>ws. bits_range_set1 ws i (i + nbits)) v"

definition febitvec_set_range :: "nat \<Rightarrow> nat \<Rightarrow> bool \<Rightarrow> febitvec \<Rightarrow> febitvec" where
  "febitvec_set_range i nbits val v = upd_words (\<lambda>ws. bits_range_set ws i (i + nbits) val) v"

definition febitvec_beg_end_set0 :: "nat \<Rightarrow> nat \<Rightarrow> febitvec \<Rightarrow> febitvec" where
  "febitvec_beg_end_set0 beg end v = upd_words (\<lambda>ws. bits_range_set0 ws beg end) v"

definition febitvec_beg_end_set1 :: "nat \<Rightarrow> nat \<Rightarrow> febitvec \<Rightarrow> febitvec" where
  "febitvec_beg_end_set1 beg end v = upd_words (\<lambda>ws. bits_range_set1 ws beg end) v"

definition febitvec_beg_end_set :: "nat \<Rightarrow> nat \<Rightarrow> bool \<Rightarrow> febitvec \<Rightarrow> febitvec" where
  "febitvec_beg_end_set beg end val v = upd_words (\<lambda>ws. bits_range_set ws beg end val) v"

section \<open>Whole vectors\<close>

function append_loop :: "env \<Rightarrow> febitvec \<Rightarrow> nat \<Rightarrow> nat \<Rightarrow> febitvec \<Rightarrow> error + febitvec" where
  "append_loop e y i n v =
     (if i < n then
        (case febitvec_push_back e (febitvec_is1 y i) v of
           Inl err \<Rightarrow> Inl err | Inr v \<Rightarrow> append_loop e y (Suc i) n v)
      else Inr v)"
  by pat_completeness auto
termination
  by (relation "measure (\<lambda>(e, y, i, n, v). n - i)") auto

declare append_loop.simps [simp del]

definition febitvec_append :: "env \<Rightarrow> febitvec \<Rightarrow> febitvec \<Rightarrow> error + febitvec" where
  "febitvec_append e y v = append_loop e y 0 (m_size y) v"

definition febitvec_append_sub :: "env \<Rightarrow> febitvec \<Rightarrow> nat \<Rightarrow> nat \<Rightarrow> febitvec \<Rightarrow> error + febitvec" where
  "febitvec_append_sub e y beg len v = append_loop e y beg (beg + len) v"

text \<open>\<open>operator=\<close> and \<open>assign\<close> free the block and copy-construct in place.\<close>

definition febitvec_assign :: "env \<Rightarrow> febitvec \<Rightarrow> febitvec \<Rightarrow> error + febitvec" where
  "febitvec_assign e y v = (let v = febitvec_clear v in febitvec_copy e y)"

definition febitvec_risk_memcpy :: "febitvec \<Rightarrow> febitvec \<Rightarrow> febitvec" where
  "febitvec_risk_memcpy y v =
     (let numWords = (m_size v + 64 - 1) div 64
      in upd_words (\<lambda>ws. take numWords (bldata y) @ drop numWords ws) v)"

text \<open>Both overloads of the member \<open>copy\<close> throw.\<close>

definition febitvec_copy_into :: "nat \<Rightarrow> febitvec \<Rightarrow> febitvec \<Rightarrow> error + febitvec" where
  "febitvec_copy_into destBeg y v = Inl Invalid_argument"

definition febitvec_copy_into_sub :: "nat \<Rightarrow> febitvec \<Rightarrow> nat \<Rightarrow> nat \<Rightarrow> febitvec \<Rightarrow> error + febitvec" where
  "febitvec_copy_into_sub destBeg y srcBeg len v = Inl Invalid_argument"

text \<open>\<open>for (i = ...; i < n; ++i) xdata[i] = op(xdata[i], ydata[i]);\<close>\<close>

function zip_words :: "(u64 \<Rightarrow> u64 \<Rightarrow> u64) \<Rightarrow> u64 list \<Rightarrow> u64 list \<Rightarrow> nat \<Rightarrow> nat \<Rightarrow> u64 list" where
  "zip_words g xs ys i n =
     (if i < n then zip_words g (xs[i := g (xs ! i) (ys ! i)]) ys (Suc i) n else xs)"
  by pat_completeness auto
termination
  by (relation "measure (\<lambda>(g, xs, ys, i, n). n - i)") auto

declare zip_words.simps [simp del]

definition febitvec_zip :: "(u64 \<Rightarrow> u64 \<Rightarrow> u64) \<Rightarrow> febitvec \<Rightarrow> febitvec \<Rightarrow> febitvec" where
  "febitvec_zip g x y =
     (let nBlocks = min (febitvec_num_words x) (febitvec_num_words y)
      in upd_words (\<lambda>ws. zip_words g ws (bldata y) 0 nBlocks) x)"

definition febitvec_diff :: "febitvec \<Rightarrow> febitvec \<Rightarrow> febitvec" where
  "febitvec_diff = febitvec_zip (\<lambda>a b. a AND NOT b)"

definition febitvec_xor :: "febitvec \<Rightarrow> febitvec \<Rightarrow> febitvec" where
  "febitvec_xor = febitvec_zip (\<lambda>a b. a XOR b)"

definition febitvec_and :: "febitvec \<Rightarrow> febitvec \<Rightarrow> febitvec" where
  "febitvec_and = febitvec_zip (\<lambda>a b. a AND b)"

definition febitvec_or :: "febitvec \<Rightarrow> febitvec \<Rightarrow> febitvec" where
  "febitvec_or = febitvec_zip (\<lambda>a b. a OR b)"

definition febitvec_block_or :: "febitvec \<Rightarrow> febitvec \<Rightarrow> nat \<Rightarrow> nat \<Rightarrow> febitvec" where
  "febitvec_block_or x y yblstart blcnt =
     upd_words (\<lambda>ws. zip_words (\<lambda>a b. a OR b) ws (bldata y) yblstart (yblstart + blcnt)) x"

definition febitvec_block_and :: "febitvec \<Rightarrow> febitvec \<Rightarrow> nat \<Rightarrow> nat \<Rightarrow> febitvec" where
  "febitvec_block_and x y yblstart blcnt =
     upd_words (\<lambda>ws. zip_words (\<lambda>a b. a AND b) ws (bldata y) yblstart (yblstart + blcnt)) x"

text \<open>\<open>for (i = 0; i < n; ++i) if (m_words[i] != x) return false;\<close>\<close>

function words_all :: "u64 \<Rightarrow> u64 list \<Rightarrow> nat \<Rightarrow> nat \<Rightarrow> bool" where
  "words_all x ws i n = (if i < n then if ws ! i \<noteq> x then False else words_all x ws (Suc i) n else True)"
  by pat_completeness auto
termination
  by (relation "measure (\<lambda>(x, ws, i, n). n - i)") auto

declare words_all.simps [simp del]

definition febitvec_isall0 :: "febitvec \<Rightarrow> bool" where
  "febitvec_isall0 v =
     (let n = m_size v div 64; ws = bldata v in
      if \<not> words_all 0 ws 0 n then False
      else if m_size v mod 64 = 0 then True
      else let allone = push_bit (m_size v mod 64) 1 - 1 in ws ! n AND allone = 0)"

definition febitvec_isall1 :: "febitvec \<Rightarrow> bool" where
  "febitvec_isall1 v =
     (let n = m_size v div 64; ws = bldata v in
      if \<not> words_all (- 1) ws 0 n then False
      else if m_size v mod 64 = 0 then True
      else let allone = push_bit (m_size v mod 64) 1 - 1 in ws ! n AND allone = allone)"

text \<open>\<open>for (i = ...; i < n; ++i) pc += fast_popcount(m_words[i]);\<close>, shared by the rank functions.\<close>

function popcnt_loop :: "(nat \<Rightarrow> u64) \<Rightarrow> nat \<Rightarrow> nat \<Rightarrow> nat \<Rightarrow> nat" where
  "popcnt_loop W i n pc = (if i < n then popcnt_loop W (Suc i) n (pc + fast_popcount (W i)) else pc)"
  by pat_completeness auto
termination
  by (relation "measure (\<lambda>(W, i, n, pc). n - i)") auto

declare popcnt_loop.simps [simp del]

definition febitvec_popcnt :: "febitvec \<Rightarrow> nat" where
  "febitvec_popcnt v =
     (if m_size v = 0 then 0
      else
        let ws = bldata v; n = m_size v div 64; pc = popcnt_loop ((!) ws) 0 n 0
        in if m_size v mod 64 \<noteq> 0 then pc + fast_popcount_trail (ws ! n) (m_size v mod 64) else pc)"

definition febitvec_popcnt_blocks :: "febitvec \<Rightarrow> nat \<Rightarrow> nat \<Rightarrow> nat" where
  "febitvec_popcnt_blocks v blstart blcnt = popcnt_loop ((!) (bldata v)) blstart (blstart + blcnt) 0"

section \<open>Runs of equal bits\<close>

text \<open>The tail loops: whole words from \<open>j\<close> on (\<open>W j\<close> is the word, complemented when runs of ones are
  measured), until a word that is not zero.\<close>

function seq_len_loop :: "(nat \<Rightarrow> u64) \<Rightarrow> nat \<Rightarrow> nat \<Rightarrow> nat \<Rightarrow> nat" where
  "seq_len_loop W j len acc =
     (if j < len then
        if W j = 0 then seq_len_loop W (Suc j) len (acc + 64) else acc + fast_ctz (W j)
      else acc)"
  by pat_completeness auto
termination
  by (relation "measure (\<lambda>(W, j, len, acc). len - j)") auto

declare seq_len_loop.simps [simp del]

fun seq_revlen_loop :: "(nat \<Rightarrow> u64) \<Rightarrow> nat \<Rightarrow> nat \<Rightarrow> nat" where
  "seq_revlen_loop W 0 acc = acc"
| "seq_revlen_loop W (Suc j) acc =
     (if W j = 0 then seq_revlen_loop W j (acc + 64) else acc + fast_clz (W j))"

definition febitvec_one_seq_len :: "febitvec \<Rightarrow> nat \<Rightarrow> nat" where
  "febitvec_one_seq_len v bitpos =
     (let bits = bldata v; len = febitvec_num_words v in
      if bitpos mod 64 \<noteq> 0 then
        let x = bits ! (bitpos div 64) in
        if x AND push_bit (bitpos mod 64) 1 = 0 then 0
        else
          let y = NOT (drop_bit (bitpos mod 64) x); ctz = fast_ctz y in
          if ctz < 64 - bitpos mod 64 then ctz
          else seq_len_loop (\<lambda>j. NOT (bits ! j)) (bitpos div 64 + 1) len ctz
      else seq_len_loop (\<lambda>j. NOT (bits ! j)) (bitpos div 64) len 0)"

definition febitvec_zero_seq_len :: "febitvec \<Rightarrow> nat \<Rightarrow> nat" where
  "febitvec_zero_seq_len v bitpos =
     (let bits = bldata v; len = febitvec_num_words v in
      if bitpos mod 64 \<noteq> 0 then
        let x = bits ! (bitpos div 64) in
        if x AND push_bit (bitpos mod 64) 1 \<noteq> 0 then 0
        else
          let y = drop_bit (bitpos mod 64) x in
          if y \<noteq> 0 then fast_ctz y
          else seq_len_loop ((!) bits) (bitpos div 64 + 1) len (64 - bitpos mod 64)
      else seq_len_loop ((!) bits) (bitpos div 64) len 0)"

text \<open>\<open>fast_one_seq_len\<close> is told no length: it relies on a zero bit after the run. \<open>None\<close> is a scan
  that leaves the array.\<close>

function fast_seq_loop :: "u64 list \<Rightarrow> nat \<Rightarrow> nat \<Rightarrow> nat option" where
  "fast_seq_loop bits j acc =
     (if length bits \<le> j then None
      else let y = NOT (bits ! j) in
        if y = 0 then fast_seq_loop bits (Suc j) (acc + 64) else Some (acc + fast_ctz y))"
  by pat_completeness auto
termination
  by (relation "measure (\<lambda>(bits, j, acc). length bits - j)") auto

declare fast_seq_loop.simps [simp del]

definition febitvec_fast_one_seq_len :: "u64 list \<Rightarrow> nat \<Rightarrow> nat option" where
  "febitvec_fast_one_seq_len bits bitpos =
     (if bitpos mod 64 \<noteq> 0 then
        let x = bits ! (bitpos div 64) in
        if x AND push_bit (bitpos mod 64) 1 = 0 then Some 0
        else
          let y = NOT (drop_bit (bitpos mod 64) x); ctz = fast_ctz y in
          if ctz < 64 - bitpos mod 64 then Some ctz
          else fast_seq_loop bits (bitpos div 64 + 1) ctz
      else fast_seq_loop bits (bitpos div 64) 0)"

definition febitvec_one_seq_revlen :: "febitvec \<Rightarrow> nat \<Rightarrow> nat" where
  "febitvec_one_seq_revlen v endpos =
     (let bits = bldata v in
      if endpos mod 64 \<noteq> 0 then
        let x = bits ! ((endpos - 1) div 64) in
        if x AND push_bit ((endpos - 1) mod 64) 1 = 0 then 0
        else
          let y = NOT (push_bit (64 - endpos mod 64) x); clz = fast_clz y in
          if clz < endpos mod 64 then clz
          else seq_revlen_loop (\<lambda>j. NOT (bits ! j)) (endpos div 64) clz
      else seq_revlen_loop (\<lambda>j. NOT (bits ! j)) (endpos div 64) 0)"

definition febitvec_zero_seq_revlen :: "febitvec \<Rightarrow> nat \<Rightarrow> nat" where
  "febitvec_zero_seq_revlen v endpos =
     (let bits = bldata v in
      if endpos mod 64 \<noteq> 0 then
        let x = bits ! ((endpos - 1) div 64) in
        if x AND push_bit ((endpos - 1) mod 64) 1 \<noteq> 0 then 0
        else
          let y = push_bit (64 - endpos mod 64) x in
          if y \<noteq> 0 then fast_clz y
          else seq_revlen_loop ((!) bits) (endpos div 64) (endpos mod 64)
      else seq_revlen_loop ((!) bits) (endpos div 64) 0)"

section \<open>Integers of arbitrary width\<close>

text \<open>The templates over \<open>Uint\<close> read the block through the \<open>Uint*\<close> view: \<open>p[k]\<close> is
  \<open>ld m (UintBits * (p + k))\<close>. The result type fixes \<open>UintBits\<close>.\<close>

definition febitvec_s_get_uint :: "u64 list \<Rightarrow> nat \<Rightarrow> nat \<Rightarrow> 'w::len word" where
  "febitvec_s_get_uint base bitpos width =
     (let UintBits = LENGTH('w);
          p = bitpos div UintBits;
          offset = bitpos mod UintBits;
          msk = (if width < UintBits then NOT (push_bit width (- 1)) else - 1);
          low = drop_bit offset (ld base (UintBits * p))
      in if offset + width \<le> UintBits then msk AND low
         else msk AND (low OR push_bit (UintBits - offset) (ld base (UintBits * (p + 1)))))"

definition febitvec_get_uint :: "febitvec \<Rightarrow> nat \<Rightarrow> nat \<Rightarrow> 'w::len word" where
  "febitvec_get_uint v bitpos width = febitvec_s_get_uint (bldata v) bitpos width"

definition febitvec_get2_uints :: "febitvec \<Rightarrow> nat \<Rightarrow> nat \<Rightarrow> 'w::len word \<times> 'w word" where
  "febitvec_get2_uints v bitpos width =
     (febitvec_s_get_uint (bldata v) bitpos width, febitvec_s_get_uint (bldata v) (bitpos + width) width)"

definition febitvec_s_set_uint :: "u64 list \<Rightarrow> nat \<Rightarrow> nat \<Rightarrow> 'w::len word \<Rightarrow> u64 list" where
  "febitvec_s_set_uint base bitpos width val =
     (let UintBits = LENGTH('w);
          p = bitpos div UintBits;
          offset = bitpos mod UintBits;
          p0 = ld base (UintBits * p) :: 'w word
      in if offset + width < UintBits then
           st base (UintBits * p)
             ((p0 AND (NOT (push_bit offset (- 1)) OR push_bit (offset + width) (- 1))) OR push_bit offset val)
         else
           let base = st base (UintBits * p) ((p0 AND NOT (push_bit offset (- 1))) OR push_bit offset val)
           in if UintBits < offset + width then
                let off2 = (offset + width) mod UintBits;
                    p1 = ld base (UintBits * (p + 1)) :: 'w word
                in st base (UintBits * (p + 1))
                     ((p1 AND push_bit off2 (- 1)) OR drop_bit (UintBits - offset) val)
              else base)"

definition febitvec_set_uint :: "nat \<Rightarrow> nat \<Rightarrow> 'w::len word \<Rightarrow> febitvec \<Rightarrow> febitvec" where
  "febitvec_set_uint bitpos width val v = upd_words (\<lambda>ws. febitvec_s_set_uint ws bitpos width val) v"

definition febitvec_push_uint :: "env \<Rightarrow> nat \<Rightarrow> 'w::len word \<Rightarrow> febitvec \<Rightarrow> error + febitvec" where
  "febitvec_push_uint e width val v =
     (let oldsize = m_size v in
      if oldsize + width \<le> m_capacity v then
        Inr ((upd_words (\<lambda>ws. febitvec_s_set_uint ws oldsize width val) v)\<lparr>m_size := oldsize + width\<rparr>)
      else
        case febitvec_resize_no_init e (oldsize + width) v of
          Inl err \<Rightarrow> Inl err
        | Inr v \<Rightarrow>
            let v = upd_words (\<lambda>ws. bits_range_set0 ws oldsize (m_size v)) v
            in Inr (upd_words (\<lambda>ws. febitvec_s_set_uint ws oldsize width val) v))"


section \<open>Invariant and abstract value\<close>

definition febitvec_inv :: "febitvec \<Rightarrow> bool" where
  "febitvec_inv v \<longleftrightarrow> m_capacity v = 64 * length (bldata v) \<and> m_size v \<le> m_capacity v"

definition bvec :: "febitvec \<Rightarrow> bool list" where
  "bvec v = map (mbit (bldata v)) [0..<m_size v]"

text \<open>The client-visible operations as data, with the preconditions that the code asserts, their
  effect on the vector and on its abstract value, a list of bits.\<close>

datatype bv_op =
    Push_back bool | Pop_back | Set_bit nat bool | Set_range nat nat bool | Ensure_set nat bool
  | Resize nat bool | Resize_fill nat bool | Reserve nat | Fill bool | Erase_all | Clear
  | Push_uint nat u64 | Set_uint nat nat u64 | Append febitvec

fun bv_pre :: "bv_op \<Rightarrow> bool list \<Rightarrow> bool" where
  "bv_pre Pop_back xs = (xs \<noteq> [])"
| "bv_pre (Set_bit i b) xs = (i < length xs)"
| "bv_pre (Set_range i n b) xs = (i + n \<le> length xs)"
| "bv_pre (Push_uint w val) xs = (w \<le> 64 \<and> take_bit w val = val)"
| "bv_pre (Set_uint p w val) xs = (p + w \<le> length xs \<and> w \<le> 64 \<and> take_bit w val = val)"
| "bv_pre (Append y) xs = febitvec_inv y"
| "bv_pre _ xs = True"

fun bv_exec :: "env \<Rightarrow> bv_op \<Rightarrow> febitvec \<Rightarrow> error + febitvec" where
  "bv_exec e (Push_back b) v = febitvec_push_back e b v"
| "bv_exec e Pop_back v = Inr (febitvec_pop_back v)"
| "bv_exec e (Set_bit i b) v = Inr (febitvec_set i b v)"
| "bv_exec e (Set_range i n b) v = Inr (febitvec_set_range i n b v)"
| "bv_exec e (Ensure_set i b) v = febitvec_ensure_set e i b v"
| "bv_exec e (Resize n b) v = febitvec_resize e n b v"
| "bv_exec e (Resize_fill n b) v = febitvec_resize_fill e n b v"
| "bv_exec e (Reserve n) v = febitvec_reserve e n v"
| "bv_exec e (Fill b) v = Inr (febitvec_fill b v)"
| "bv_exec e Erase_all v = Inr (febitvec_erase_all v)"
| "bv_exec e Clear v = Inr (febitvec_clear v)"
| "bv_exec e (Push_uint w val) v = febitvec_push_uint e w val v"
| "bv_exec e (Set_uint p w val) v = Inr (febitvec_set_uint p w val v)"
| "bv_exec e (Append y) v = febitvec_append e y v"

fun bv_list :: "bv_op \<Rightarrow> bool list \<Rightarrow> bool list" where
  "bv_list (Push_back b) xs = xs @ [b]"
| "bv_list Pop_back xs = butlast xs"
| "bv_list (Set_bit i b) xs = xs[i := b]"
| "bv_list (Set_range i n b) xs = take i xs @ replicate n b @ drop (i + n) xs"
| "bv_list (Ensure_set i b) xs = (xs @ replicate (Suc i - length xs) False)[i := b]"
| "bv_list (Resize n b) xs = take n xs @ replicate (n - length xs) b"
| "bv_list (Resize_fill n b) xs = replicate n b"
| "bv_list (Reserve n) xs = xs"
| "bv_list (Fill b) xs = replicate (length xs) b"
| "bv_list Erase_all xs = []"
| "bv_list Clear xs = []"
| "bv_list (Push_uint w val) xs = xs @ map (bit val) [0..<w]"
| "bv_list (Set_uint p w val) xs = take p xs @ map (bit val) [0..<w] @ drop (p + w) xs"
| "bv_list (Append y) xs = xs @ bvec y"

fun bv_run :: "env \<Rightarrow> bv_op list \<Rightarrow> febitvec \<Rightarrow> error + febitvec" where
  "bv_run e [] v = Inr v"
| "bv_run e (op # ops) v = (case bv_exec e op v of Inl err \<Rightarrow> Inl err | Inr v' \<Rightarrow> bv_run e ops v')"

fun bv_pre_run :: "bv_op list \<Rightarrow> bool list \<Rightarrow> bool" where
  "bv_pre_run [] xs = True"
| "bv_pre_run (op # ops) xs = (bv_pre op xs \<and> bv_pre_run ops (bv_list op xs))"

text \<open>What the growth of the block keeps, common to \<open>reserve\<close> and \<open>resize_no_init\<close>: the bits of
  the vector, with or without the clearing under Valgrind.\<close>

definition bits_kept :: "febitvec \<Rightarrow> febitvec \<Rightarrow> bool" where
  "bits_kept v v' \<longleftrightarrow> length (bldata v) \<le> length (bldata v') \<and> (\<forall>i < m_size v. mbit (bldata v') i = mbit (bldata v) i)"

text \<open>The allocator that always succeeds and returns zeroed memory, for concrete runs.\<close>

definition env0 :: env where
  "env0 = \<lparr>realloc_ok = (\<lambda>_. True), fresh = (\<lambda>_ _. 0), hasValgrind = False\<rparr>"

section \<open>Blocks and abstract values\<close>

lemma bldata_upd [simp]:
  "(\<And>ws. length (g ws) = length ws) \<Longrightarrow> bldata (upd_words g v) = g (bldata v)"
  using length_0_conv [of "g []"] by (cases "m_words v") (simp_all add: bldata_def upd_words_def)

lemma upd_words_fields [simp]:
  "m_size (upd_words g v) = m_size v" "m_capacity (upd_words g v) = m_capacity v"
  by (simp_all add: upd_words_def)

lemma bldata_fields [simp]:
  "bldata (v\<lparr>m_size := n\<rparr>) = bldata v" "bldata (v\<lparr>m_capacity := n\<rparr>) = bldata v"
  "bldata (v\<lparr>m_words := Some q\<rparr>) = q" "bldata (v\<lparr>m_words := None\<rparr>) = []"
  by (simp_all add: bldata_def)

lemma length_bvec [simp]: "length (bvec v) = m_size v"
  by (simp add: bvec_def)

lemma nth_bvec [simp]: "i < m_size v \<Longrightarrow> bvec v ! i = mbit (bldata v) i"
  by (simp add: bvec_def)

lemma bvec_eqI: "m_size v = length xs \<Longrightarrow> (\<And>i. i < length xs \<Longrightarrow> mbit (bldata v) i = xs ! i) \<Longrightarrow> bvec v = xs"
  by (auto intro: nth_equalityI)

lemma febitvec_invD:
  assumes "febitvec_inv v"
  shows "m_size v \<le> 64 * length (bldata v)" and "m_capacity v = 64 * length (bldata v)"
    and "i < m_size v \<Longrightarrow> i div 64 < length (bldata v)"
  using assms by (auto simp: febitvec_inv_def div_less_iff_less_mult)

lemma length_realloc:
  "realloc_words e old nbytes = Some q \<Longrightarrow> length old \<le> nbytes div 8 \<Longrightarrow> length q = nbytes div 8"
  by (auto simp: realloc_words_def split: if_splits)

lemma nth_realloc:
  "realloc_words e old nbytes = Some q \<Longrightarrow> i < length old \<Longrightarrow> i < nbytes div 8 \<Longrightarrow> q ! i = old ! i"
  by (auto simp: realloc_words_def nth_append split: if_splits)

lemma mbit_realloc:
  assumes "realloc_words e old nbytes = Some q" and "i < 64 * length old" and "i < 64 * (nbytes div 8)"
  shows "mbit q i = mbit old i"
  using nth_realloc [OF assms(1), of "i div 64"] assms(2,3)
  by (simp add: mbit_def div_less_iff_less_mult mult.commute)

lemma mbit_fill_words:
  assumes "n \<le> length ws" and "i < 64 * j"
  shows "mbit (fst (fill_words x ws j n)) i = mbit ws i"
proof -
  have "i div 64 < j" using assms(2) by (simp add: div_less_iff_less_mult mult.commute)
  then show ?thesis using assms(1) by (simp only: mbit_def nth_fill_words) simp
qed

lemma grow_cap_ge: "0 < c \<Longrightarrow> c \<le> grow_cap c n \<and> n \<le> grow_cap c n"
proof (induction c n rule: grow_cap.induct)
  case (1 c n)
  then show ?case by (subst (1 2) grow_cap.simps) auto
qed

lemma grow_cap_dvd: "k dvd c \<Longrightarrow> (k::nat) dvd grow_cap c n"
proof (induction c n rule: grow_cap.induct)
  case (1 c n)
  then show ?case by (subst grow_cap.simps) auto
qed

lemma grow_block:
  assumes inv: "febitvec_inv v" and c: "64 dvd newcap" "m_capacity v \<le> newcap"
    and r: "realloc_words e (bldata v) (newcap div 8) = Some q"
  defines "q' \<equiv> if hasValgrind e then fst (fill_words 0 q ((m_size v + 64 - 1) div 64) (newcap div 64)) else q"
  shows "64 * length q' = newcap" and "\<forall>i < m_size v. mbit q' i = mbit (bldata v) i"
    and "length (bldata v) \<le> length q'"
proof -
  have n: "newcap div 8 div 8 = newcap div 64" by (simp add: div_mult2_eq [symmetric])
  have le: "length (bldata v) \<le> newcap div 64"
    using c(2) febitvec_invD(2) [OF inv] div_le_mono [of "64 * length (bldata v)" newcap 64] by simp
  have lq: "length q = newcap div 64" using length_realloc [OF r] le n by simp
  then show "64 * length q' = newcap" using c(1) by (simp add: q'_def)
  show "length (bldata v) \<le> length q'" using lq le by (simp add: q'_def)
  show "\<forall>i < m_size v. mbit q' i = mbit (bldata v) i"
  proof (intro allI impI)
    fix i assume i: "i < m_size v"
    have il: "i < 64 * length (bldata v)" using i febitvec_invD(1) [OF inv] by simp
    moreover have "i < 64 * (newcap div 64)" using il le by (meson less_le_trans mult_le_mono2)
    ultimately have "mbit q i = mbit (bldata v) i" using mbit_realloc [OF r, of i] n by simp
    moreover have "i < 64 * ((m_size v + 64 - 1) div 64)"
      using i align_up_ge [of 64 "m_size v"] by (simp add: align_up_def mult.commute)
    ultimately show "mbit q' i = mbit (bldata v) i"
      using lq by (simp add: q'_def mbit_fill_words)
  qed
qed

lemma reserve_ok:
  assumes "febitvec_inv v" and "febitvec_reserve e n v = Inr v'"
  shows "febitvec_inv v'" and "m_size v' = m_size v" and "bits_kept v v'" and "n \<le> m_capacity v'"
    and "m_capacity v' = max (m_capacity v) (align_up n 64)"
proof -
  have n: "n \<le> align_up n 64" by (rule align_up_ge) simp
  show "febitvec_inv v'" "m_size v' = m_size v" "bits_kept v v'" "n \<le> m_capacity v'"
    "m_capacity v' = max (m_capacity v) (align_up n 64)"
    using assms n grow_block [OF assms(1), of "align_up n 64" e]
    by (auto simp: febitvec_reserve_def Let_def bits_kept_def febitvec_inv_def split: if_splits option.splits)
qed

lemma resize_no_init_ok:
  assumes "febitvec_inv v" and "febitvec_resize_no_init e n v = Inr v'"
  shows "febitvec_inv v'" and "m_size v' = n" and "bits_kept v v'"
proof -
  define c where "c = grow_cap (max (m_capacity v) 64) n"
  have c: "64 dvd c" "m_capacity v \<le> c" "n \<le> c"
  proof -
    have "0 < max (m_capacity v) 64" by simp
    from grow_cap_ge [OF this, of n] show "m_capacity v \<le> c" "n \<le> c" by (auto simp: c_def)
    have "64 dvd max (m_capacity v) 64" using assms(1) by (simp add: febitvec_inv_def max_def)
    then show "64 dvd c" unfolding c_def by (rule grow_cap_dvd)
  qed
  consider "n \<le> m_capacity v" "v' = v\<lparr>m_size := n\<rparr>"
    | q where "realloc_words e (bldata v) (c div 8) = Some q"
        "v' = v\<lparr>m_words := Some (if hasValgrind e
           then fst (fill_words 0 q ((m_size v + 64 - 1) div 64) (c div 64)) else q), m_capacity := c, m_size := n\<rparr>"
    using assms(2) by (auto simp: febitvec_resize_no_init_def c_def [symmetric] Let_def not_less
      split: if_splits option.splits)
  then have "febitvec_inv v' \<and> m_size v' = n \<and> bits_kept v v'"
  proof cases
    case 1
    with assms(1) show ?thesis by (simp add: febitvec_inv_def bits_kept_def)
  next
    case 2
    from grow_block [OF assms(1) c(1,2) 2(1)] c(3) show ?thesis
      unfolding 2(2) by (simp add: febitvec_inv_def bits_kept_def)
  qed
  then show "febitvec_inv v'" "m_size v' = n" "bits_kept v v'" by simp_all
qed

lemma resize_no_init_total: "(\<And>n. realloc_ok e n) \<Longrightarrow> \<exists>v'. febitvec_resize_no_init e n v = Inr v'"
  by (auto simp: febitvec_resize_no_init_def realloc_words_def Let_def)

lemma reserve_total: "(\<And>n. realloc_ok e n) \<Longrightarrow> \<exists>v'. febitvec_reserve e n v = Inr v'"
  by (auto simp: febitvec_reserve_def realloc_words_def Let_def)

section \<open>The operations on the abstract value\<close>

lemma inv_upd: "(\<And>ws. length (g ws) = length ws) \<Longrightarrow> febitvec_inv (upd_words g v) = febitvec_inv v"
  by (simp add: febitvec_inv_def)

lemma resize_ok:
  assumes "febitvec_inv v" and "febitvec_resize e n b v = Inr v'"
  shows "febitvec_inv v'" and "bvec v' = take n (bvec v) @ replicate (n - m_size v) b"
proof -
  consider "n = m_size v" "v' = v"
    | v1 where "febitvec_resize_no_init e n v = Inr v1"
        "v' = (if m_size v < n then upd_words (\<lambda>ws. bits_range_set ws (m_size v) n b) v1 else v1)"
    using assms(2) by (auto simp: febitvec_resize_def Let_def split: if_splits sum.splits)
  then have "febitvec_inv v' \<and> bvec v' = take n (bvec v) @ replicate (n - m_size v) b"
  proof cases
    case 2
    note r = resize_no_init_ok [OF assms(1) 2(1)]
    have sz: "n \<le> 64 * length (bldata v1)" using febitvec_invD(1) [OF r(1)] r(2) by simp
    have "bvec v' = take n (bvec v) @ replicate (n - m_size v) b"
      using r(2,3) sz by (intro bvec_eqI) (auto simp: 2(2) bits_kept_def nth_append mbit_bits_range_set)
    with r(1) show ?thesis by (simp add: 2(2) inv_upd)
  qed (use assms in simp)
  then show "febitvec_inv v'" and "bvec v' = take n (bvec v) @ replicate (n - m_size v) b" by simp_all
qed

lemma fill_ok:
  assumes "febitvec_inv v"
  shows "febitvec_inv (febitvec_fill b v)" and "bvec (febitvec_fill b v) = replicate (m_size v) b"
proof -
  show "febitvec_inv (febitvec_fill b v)" using assms by (simp add: febitvec_fill_def inv_upd)
  define n where "n = febitvec_num_words v"
  have n: "m_size v \<le> 64 * n"
    using align_up_ge [of 64 "m_size v"] by (simp add: n_def febitvec_num_words_def align_up_def mult.commute)
  have "64 * n < m_size v + 64"
    using align_up_less [of 64 "m_size v"] by (simp add: n_def febitvec_num_words_def align_up_def mult.commute)
  then have nl: "n \<le> length (bldata v)" using febitvec_invD(1) [OF assms] by linarith
  show "bvec (febitvec_fill b v) = replicate (m_size v) b"
  proof (rule bvec_eqI)
    fix i assume "i < length (replicate (m_size v) b)"
    then have "i div 64 < n" using n by (simp add: div_less_iff_less_mult mult.commute)
    then show "mbit (bldata (febitvec_fill b v)) i = replicate (m_size v) b ! i"
      using nl \<open>i < length (replicate (m_size v) b)\<close>
      by (simp add: febitvec_fill_def n_def [symmetric] mbit_def nth_fill_words)
  qed (simp add: febitvec_fill_def)
qed

lemma set_ok:
  assumes "febitvec_inv v" and "i < 64 * length (bldata v)"
  shows "febitvec_inv (febitvec_set i b v)" and "m_size (febitvec_set i b v) = m_size v"
    and "mbit (bldata (febitvec_set i b v)) p = (if p = i then b else mbit (bldata v) p)"
proof -
  have "i div 64 < length (bldata v)" using assms(2) by (simp add: div_less_iff_less_mult mult.commute)
  then show "mbit (bldata (febitvec_set i b v)) p = (if p = i then b else mbit (bldata v) p)"
    by (simp add: febitvec_set_def febitvec_set0_def febitvec_set1_def mbit_bit_set0 mbit_bit_set1)
qed (use assms in \<open>simp_all add: febitvec_set_def febitvec_set0_def febitvec_set1_def inv_upd\<close>)

lemma push_back_slow:
  assumes "febitvec_inv v" and "m_size v = m_capacity v"
    and "febitvec_push_back_slow_path e b v = Inr v'"
  shows "febitvec_inv v'" and "bvec v' = bvec v @ [b]"
proof -
  obtain v1 where v1: "febitvec_resize_no_init e (m_size v + 1) v = Inr v1"
    and v': "v' = upd_words (\<lambda>ws. ws[m_size v1 div 64 := (if b then 1 else 0)]) v1"
    using assms(3) by (auto simp: febitvec_push_back_slow_path_def split: sum.splits)
  note r = resize_no_init_ok [OF assms(1) v1]
  show "febitvec_inv v'" using r(1) by (simp add: v' inv_upd)
  have sz: "m_size v = 64 * length (bldata v)" using assms(1,2) by (simp add: febitvec_inv_def)
  define k where "k = length (bldata v)"
  have d: "m_size v1 div 64 = k" using r(2) sz by (simp add: k_def)
  have kl: "k < length (bldata v1)" using febitvec_invD(1) [OF r(1)] r(2) sz by (simp add: k_def)
  show "bvec v' = bvec v @ [b]"
  proof (rule bvec_eqI)
    fix i assume "i < length (bvec v @ [b])"
    then consider "i < m_size v" | "i = 64 * k" using sz k_def by force
    then show "mbit (bldata v') i = (bvec v @ [b]) ! i"
    proof cases
      case 1
      then have "i div 64 \<noteq> k" using sz by (simp add: k_def div_less_iff_less_mult)
      with 1 r(3) show ?thesis by (simp add: v' d mbit_update nth_append bits_kept_def)
    next
      case 2
      with kl sz show ?thesis by (simp add: v' d mbit_update nth_append k_def)
    qed
  qed (simp add: v' r(2))
qed

lemma push_back_ok:
  assumes "febitvec_inv v" and "febitvec_push_back e b v = Inr v'"
  shows "febitvec_inv v'" and "bvec v' = bvec v @ [b]"
proof -
  have "febitvec_inv v' \<and> bvec v' = bvec v @ [b]"
  proof (cases "m_size v < m_capacity v")
    case True
    define u where "u = v\<lparr>m_size := m_size v + 1\<rparr>"
    have u: "febitvec_inv u" using True assms(1) by (simp add: u_def febitvec_inv_def)
    have l: "m_size v < 64 * length (bldata u)" using True assms(1) by (simp add: u_def febitvec_inv_def)
    have us: "m_size u = m_size v + 1" "bldata u = bldata v" by (simp_all add: u_def)
    have v': "v' = febitvec_set (m_size v) b u" using True assms(2) by (simp add: febitvec_push_back_def u_def)
    have "bvec v' = bvec v @ [b]"
      unfolding v' using us by (intro bvec_eqI) (auto simp: set_ok [OF u l] nth_append less_Suc_eq)
    with set_ok(1) [OF u l] show ?thesis by (simp add: v')
  next
    case False
    then have eq: "m_size v = m_capacity v" using assms(1) by (simp add: febitvec_inv_def)
    have "febitvec_push_back_slow_path e b v = Inr v'" using False assms(2) by (simp add: febitvec_push_back_def)
    from push_back_slow [OF assms(1) eq this] show ?thesis by simp
  qed
  then show "febitvec_inv v'" and "bvec v' = bvec v @ [b]" by simp_all
qed

lemma append_loop_ok:
  assumes "febitvec_inv v" and "append_loop e y i n v = Inr v'"
  shows "febitvec_inv v' \<and> bvec v' = bvec v @ map (mbit (bldata y)) [i..<n]"
  using assms
proof (induction e y i n v rule: append_loop.induct)
  case (1 e y i n v)
  show ?case
  proof (cases "i < n")
    case True
    then obtain v1 where v1: "febitvec_push_back e (febitvec_is1 y i) v = Inr v1"
      and rest: "append_loop e y (Suc i) n v1 = Inr v'"
      using "1.prems"(2) by (subst (asm) append_loop.simps) (auto split: sum.splits)
    note p = push_back_ok [OF "1.prems"(1) v1]
    have "febitvec_inv v' \<and> bvec v' = bvec v1 @ map (mbit (bldata y)) [Suc i..<n]"
      using True v1 p(1) rest by (intro "1.IH")
    then show ?thesis
      using True p(2) by (simp add: upt_conv_Cons febitvec_is1_def terark_bit_test_mbit)
  next
    case False
    with "1.prems" show ?thesis by (subst (asm) append_loop.simps) simp
  qed
qed

section \<open>Integers of arbitrary width\<close>

text \<open>The element type of a view divides the word: \<open>uint8_t\<close>, \<open>uint16_t\<close>, \<open>uint32_t\<close>, \<open>uint64_t\<close>.\<close>

lemma fits_view:
  assumes "LENGTH('w::len) dvd 64"
  shows "fits (LENGTH('w) * i) LENGTH('w)"
proof -
  obtain k where k: "64 = LENGTH('w) * k" using assms by blast
  then have "0 < k" by (metis mult_0_right neq0_conv zero_neq_numeral)
  then have "i mod k < k" by simp
  then have "LENGTH('w) * Suc (i mod k) \<le> LENGTH('w) * k" by (intro mult_le_mono2) simp
  then show ?thesis unfolding fits_def k mult_mod_right [symmetric] by simp
qed

lemma bit_ld_view:
  assumes "LENGTH('w::len) dvd 64"
  shows "bit (ld m (LENGTH('w) * i) :: 'w word) k \<longleftrightarrow> k < LENGTH('w) \<and> mbit m (LENGTH('w) * i + k)"
  by (rule bit_ld [OF fits_view [OF assms]])

lemma mbit_st_view:
  fixes v :: "'w::len word"
  assumes "LENGTH('w) dvd 64" and "LENGTH('w) * i < 64 * length m"
  shows "mbit (st m (LENGTH('w) * i) v) p =
    (if LENGTH('w) * i \<le> p \<and> p < LENGTH('w) * i + LENGTH('w) then bit v (p - LENGTH('w) * i) else mbit m p)"
  using assms(2) by (intro mbit_st fits_view [OF assms(1)]) (simp add: div_less_iff_less_mult mult.commute)

lemma bit_s_get_uint:
  assumes d: "LENGTH('w::len) dvd 64" and w: "w \<le> LENGTH('w)"
  shows "bit (febitvec_s_get_uint m bp w :: 'w word) i \<longleftrightarrow> i < w \<and> mbit m (bp + i)"
proof -
  define W where "W = LENGTH('w)"
  define p where "p = bp div W"
  define off where "off = bp mod W"
  have bp: "bp = W * p + off" by (simp add: p_def off_def)
  have off: "off < W" by (simp add: off_def W_def)
  note ld = bit_ld_view [OF d, folded W_def]
  show ?thesis
  proof (cases "off + w \<le> W")
    case True
    then show ?thesis
      using w unfolding febitvec_s_get_uint_def Let_def W_def [symmetric] p_def [symmetric] off_def [symmetric]
      by (auto simp: bit_simps ld W_def [symmetric] bp ac_simps)
  next
    case False
    define q where "q = W * (p + 1)"
    have ld1: "bit (ld m q :: 'w word) k \<longleftrightarrow> k < W \<and> mbit m (W * p + W + k)" for k
      using ld [of m "p + 1" k] by (simp add: q_def ac_simps)
    have hi: "W * p + W + (i - (W - off)) = bp + i" if "W - off \<le> i"
      using that off by (simp add: bp)
    have lo: "W * p + (off + i) = bp + i" "W * p + (i + off) = bp + i" by (simp_all add: bp)
    from False show ?thesis
      using w off unfolding febitvec_s_get_uint_def Let_def W_def [symmetric] p_def [symmetric] off_def [symmetric]
        q_def [symmetric]
      by (auto simp: bit_simps ld ld1 W_def [symmetric] hi lo)
  qed
qed

lemma length_s_set_uint [simp]: "length (febitvec_s_set_uint m bp w val) = length m"
  by (simp add: febitvec_s_set_uint_def Let_def)

lemma take_bit_bound: "take_bit w val = val \<Longrightarrow> bit val i \<Longrightarrow> i < w"
  by (metis bit_take_bit_iff)

text \<open>The two shapes of a write: inside one element of the view, and across two of them.\<close>

lemma mbit_s_set_uint_one:
  fixes val :: "'w::len word"
  defines "W \<equiv> LENGTH('w)"
  assumes d: "LENGTH('w) dvd 64" and val: "take_bit w val = val" and room: "bp + w \<le> 64 * length m"
    and w: "0 < w" "bp mod W + w \<le> W"
  shows "mbit (febitvec_s_set_uint m bp w val) i = (if bp \<le> i \<and> i < bp + w then bit val (i - bp) else mbit m i)"
proof -
  define p where "p = bp div W"
  define off where "off = bp mod W"
  have bp: "bp = W * p + off" by (simp add: p_def off_def)
  note ld = bit_ld_view [OF d, folded W_def]
  have r0: "LENGTH('w) * p < 64 * length m" using room w(1) by (simp add: bp W_def)
  note st = mbit_st_view [OF d r0, folded W_def]
  show ?thesis
    using w unfolding febitvec_s_set_uint_def Let_def W_def [symmetric] p_def [symmetric] off_def [symmetric]
    by (auto simp: st bit_simps ld W_def [symmetric] bp ac_simps dest: take_bit_bound [OF val])
qed

lemma mbit_s_set_uint_two:
  fixes val :: "'w::len word"
  defines "W \<equiv> LENGTH('w)"
  assumes d: "LENGTH('w) dvd 64" and val: "take_bit w val = val" and room: "bp + w \<le> 64 * length m"
    and w: "w \<le> W" "W < bp mod W + w"
  shows "mbit (febitvec_s_set_uint m bp w val) i = (if bp \<le> i \<and> i < bp + w then bit val (i - bp) else mbit m i)"
proof -
  define p where "p = bp div W"
  define off where "off = bp mod W"
  define q where "q = W * (p + 1)"
  have bp: "bp = W * p + off" by (simp add: p_def off_def)
  have off: "off < W" by (simp add: off_def W_def)
  have q: "q = W * p + W" by (simp add: q_def)
  have w': "\<not> off + w \<le> W" using w(2) by (simp add: off_def)
  have r: "W * p < 64 * length m" "q < 64 * length m" using room w' by (simp_all add: bp q)
  note ld = bit_ld_view [OF d, folded W_def]
  note st = mbit_st_view [OF d, folded W_def]
  define b1 where "b1 = st m (W * p) ((ld m (W * p) AND NOT (push_bit off (- 1))) OR push_bit off val)"
  have b1: "mbit b1 j = (if bp \<le> j \<and> j < q then bit val (j - bp) else mbit m j)" for j
  proof -
    have "j - W * p - off = j - bp" by (simp add: bp)
    then show ?thesis
      using off by (auto simp: b1_def st [OF r(1)] bit_simps ld W_def [symmetric] bp q)
  qed
  define v1 where "v1 = (ld b1 q AND push_bit (off + w - W) (- 1)) OR drop_bit (W - off) val"
  have v1: "bit v1 k = (if k < off + w - W then bit val (W - off + k) else mbit m (q + k))" if "k < W" for k
    using that w' off ld [of b1 "p + 1" k, folded q_def]
    by (auto simp: v1_def bit_simps b1 W_def [symmetric] dest: take_bit_bound [OF val])
  have st1: "mbit (st b1 q v1) i = (if q \<le> i \<and> i < q + W then bit v1 (i - q) else mbit b1 i)"
    using st [of "p + 1" b1 v1 i] r(2) by (simp add: q_def b1_def)
  have off2: "(off + w) mod W = off + w - W" using w' off w(1) by (simp add: mod_if)
  have set: "febitvec_s_set_uint m bp w val = st b1 q v1"
    using w' unfolding febitvec_s_set_uint_def Let_def W_def [symmetric] p_def [symmetric]
      off_def [symmetric] q_def [symmetric] off2 b1_def v1_def by simp
  have ar: "W - off + (i - q) = i - bp" "i - q < off + w - W \<longleftrightarrow> i < bp + w" "bp \<le> i" if "q \<le> i"
    using that off w' by (auto simp: bp q)
  have ar': "i < q + W" if "i < bp + w" using that w(1) off by (simp add: bp q)
  have "i < bp + w" if "i < q" using that w' by (simp add: bp q)
  then show ?thesis
    unfolding set st1 using v1 [of "i - q"] ar ar' by (auto simp: b1)
qed

lemma s_set_uint_zero:
  fixes val :: "'w::len word"
  assumes d: "LENGTH('w) dvd 64" and val: "take_bit 0 val = val"
  shows "mbit (febitvec_s_set_uint m bp 0 val) i = mbit m i"
proof -
  define p where "p = bp div LENGTH('w)"
  have "val = 0" using val by simp
  moreover have "bp mod LENGTH('w) < LENGTH('w)" by simp
  ultimately have eq: "febitvec_s_set_uint m bp 0 val = st m (LENGTH('w) * p) (ld m (LENGTH('w) * p) :: 'w word)"
    unfolding febitvec_s_set_uint_def Let_def p_def by simp
  show ?thesis
  proof (cases "LENGTH('w) * p < 64 * length m")
    case True
    show ?thesis unfolding eq mbit_st_view [OF d True] by (auto simp: bit_ld_view [OF d])
  next
    case False
    then have "length m \<le> LENGTH('w) * p div 64" by (metis div_le_mono div_mult_self1_is_m not_less zero_less_numeral)
    then show ?thesis unfolding eq st_def by (simp add: list_update_beyond)
  qed
qed

lemma mbit_s_set_uint:
  fixes val :: "'w::len word"
  assumes "LENGTH('w) dvd 64" and "w \<le> LENGTH('w)" and "take_bit w val = val" and "bp + w \<le> 64 * length m"
  shows "mbit (febitvec_s_set_uint m bp w val) i = (if bp \<le> i \<and> i < bp + w then bit val (i - bp) else mbit m i)"
proof (cases "w = 0")
  case True
  with assms show ?thesis by (auto simp: s_set_uint_zero)
next
  case False
  then show ?thesis
    using mbit_s_set_uint_one [OF assms(1,3,4)] mbit_s_set_uint_two [OF assms(1,3,4,2)]
    by (cases "bp mod LENGTH('w) + w \<le> LENGTH('w)") simp_all
qed

lemma set_uint_ok:
  fixes val :: "'w::len word"
  assumes "febitvec_inv v" and "LENGTH('w) dvd 64" and "w \<le> LENGTH('w)" and "take_bit w val = val"
    and "p + w \<le> m_size v"
  shows "febitvec_inv (febitvec_set_uint p w val v)"
    and "bvec (febitvec_set_uint p w val v) = take p (bvec v) @ map (bit val) [0..<w] @ drop (p + w) (bvec v)"
proof -
  have r: "p + w \<le> 64 * length (bldata v)" using assms(5) febitvec_invD(1) [OF assms(1)] by simp
  show "bvec (febitvec_set_uint p w val v) = take p (bvec v) @ map (bit val) [0..<w] @ drop (p + w) (bvec v)"
    using assms(5) by (intro bvec_eqI)
      (auto simp: febitvec_set_uint_def mbit_s_set_uint [OF assms(2-4) r] nth_append)
qed (simp add: febitvec_set_uint_def inv_upd assms(1))

lemma push_uint_ok:
  fixes val :: "'w::len word"
  assumes "febitvec_inv v" and "LENGTH('w) dvd 64" and "w \<le> LENGTH('w)" and "take_bit w val = val"
    and "febitvec_push_uint e w val v = Inr v'"
  shows "febitvec_inv v'" and "bvec v' = bvec v @ map (bit val) [0..<w]"
proof -
  define n where "n = m_size v + w"
  obtain u where u: "febitvec_inv u" "m_size u = n" "bits_kept v u"
    and v': "v' = upd_words (\<lambda>ws. febitvec_s_set_uint ws (m_size v) w val) u"
  proof (cases "n \<le> m_capacity v")
    case True
    let ?u = "v\<lparr>m_size := n\<rparr>"
    show ?thesis
    proof (rule that)
      show "febitvec_inv ?u" using True assms(1) by (simp add: febitvec_inv_def)
      show "v' = upd_words (\<lambda>ws. febitvec_s_set_uint ws (m_size v) w val) ?u"
        using assms(5) True by (cases v) (simp add: febitvec_push_uint_def Let_def n_def upd_words_def)
    qed (simp_all add: bits_kept_def)
  next
    case False
    then obtain v1 where v1: "febitvec_resize_no_init e n v = Inr v1"
      and v': "v' = upd_words (\<lambda>ws. febitvec_s_set_uint ws (m_size v) w val)
                      (upd_words (\<lambda>ws. bits_range_set0 ws (m_size v) (m_size v1)) v1)"
      using assms(5) by (auto simp: febitvec_push_uint_def Let_def n_def split: sum.splits)
    note r = resize_no_init_ok [OF assms(1) v1]
    show ?thesis
    proof (rule that [OF _ _ _ v'])
      show "bits_kept v (upd_words (\<lambda>ws. bits_range_set0 ws (m_size v) (m_size v1)) v1)"
        using r febitvec_invD(1) [OF r(1)] by (simp add: bits_kept_def mbit_bits_range_set0 n_def)
    qed (use r in \<open>simp_all add: inv_upd\<close>)
  qed
  have room: "m_size v + w \<le> 64 * length (bldata u)" using febitvec_invD(1) [OF u(1)] u(2) by (simp add: n_def)
  show "febitvec_inv v'" using u(1) by (simp add: v' inv_upd)
  show "bvec v' = bvec v @ map (bit val) [0..<w]"
    using u(2,3) by (intro bvec_eqI)
      (auto simp: v' mbit_s_set_uint [OF assms(2-4) room] n_def nth_append bits_kept_def)
qed


section \<open>Simulation by lists\<close>

lemma set_range_ok:
  assumes "febitvec_inv v" and "i + n \<le> m_size v"
  shows "febitvec_inv (febitvec_set_range i n b v)"
    and "bvec (febitvec_set_range i n b v) = take i (bvec v) @ replicate n b @ drop (i + n) (bvec v)"
proof -
  have "i + n \<le> 64 * length (bldata v)" using assms febitvec_invD(1) [OF assms(1)] by simp
  then show "bvec (febitvec_set_range i n b v) = take i (bvec v) @ replicate n b @ drop (i + n) (bvec v)"
    using assms(2) by (intro bvec_eqI) (auto simp: febitvec_set_range_def mbit_bits_range_set nth_append)
qed (simp add: febitvec_set_range_def inv_upd assms(1))

lemma bvec_set:
  assumes "febitvec_inv v" and "i < m_size v"
  shows "bvec (febitvec_set i b v) = (bvec v)[i := b]"
proof -
  have "i < 64 * length (bldata v)" using assms(2) febitvec_invD(1) [OF assms(1)] by simp
  note s = set_ok [OF assms(1) this]
  show ?thesis by (rule bvec_eqI) (auto simp: s nth_list_update)
qed

lemma ensure_set_ok:
  assumes "febitvec_inv v" and "febitvec_ensure_set e i b v = Inr v'"
  shows "febitvec_inv v' \<and> bvec v' = (bvec v @ replicate (Suc i - m_size v) False)[i := b]"
proof (cases "i < m_size v")
  case True
  then have v': "v' = febitvec_set i b v"
    using assms(2) by (auto simp: febitvec_ensure_set_def febitvec_ensure_set0_def febitvec_ensure_set1_def febitvec_set_def split: if_splits)
  from True have "i < 64 * length (bldata v)" using febitvec_invD(1) [OF assms(1)] by simp
  with True assms(1) show ?thesis by (simp add: v' set_ok bvec_set)
next
  case False
  then obtain v1 where v1: "febitvec_resize e (i + 1) False v = Inr v1" "v' = (if b then febitvec_set1 i v1 else v1)"
    using assms(2) by (auto simp: febitvec_ensure_set_def febitvec_ensure_set0_def febitvec_ensure_set1_def
      febitvec_ensure_set1_slow_path_def split: if_splits sum.splits)
  note r = resize_ok [OF assms(1) v1(1)]
  define ys where "ys = bvec v @ replicate (Suc i - m_size v) False"
  have bv: "bvec v1 = ys" using r(2) False by (simp add: ys_def)
  then have sz: "m_size v1 = Suc i" using length_bvec [of v1] False by (simp add: ys_def)
  show ?thesis unfolding ys_def [symmetric]
  proof (cases b)
    case True
    have "i < 64 * length (bldata v1)" using febitvec_invD(1) [OF r(1)] sz by simp
    from set_ok(1) [OF r(1) this, of True] bvec_set [OF r(1), of i True] sz bv True v1(2)
    show "febitvec_inv v' \<and> bvec v' = ys[i := b]" by (simp add: febitvec_set_def)
  next
    case False
    have "ys ! i = False" using \<open>\<not> i < m_size v\<close> by (simp add: ys_def nth_append)
    then have "ys[i := False] = ys" by (metis list_update_id)
    with False bv r(1) v1(2) show "febitvec_inv v' \<and> bvec v' = ys[i := b]" by simp
  qed
qed

lemma bv_exec_sim:
  assumes "febitvec_inv v" and "bv_pre op (bvec v)" and "bv_exec e op v = Inr v'"
  shows "febitvec_inv v' \<and> bvec v' = bv_list op (bvec v)"
proof (cases op)
  case (Push_back b)
  with push_back_ok [OF assms(1), of e b v'] assms(3) show ?thesis by simp
next
  case Pop_back
  with assms show ?thesis
    by (auto simp: febitvec_pop_back_def febitvec_inv_def nth_butlast intro!: bvec_eqI)
next
  case (Set_bit i b)
  with assms febitvec_invD(1) [OF assms(1)] show ?thesis by (auto simp: set_ok bvec_set)
next
  case (Set_range i n b)
  with assms set_range_ok [OF assms(1), of i n b] show ?thesis by auto
next
  case (Ensure_set i b)
  with ensure_set_ok [OF assms(1), of e i b v'] assms(3) show ?thesis by simp
next
  case (Resize n b)
  with resize_ok [OF assms(1), of e n b v'] assms(3) show ?thesis by simp
next
  case (Resize_fill n b)
  with assms(3) obtain v1 where v1: "febitvec_resize_no_init e n v = Inr v1" "v' = febitvec_fill b v1"
    by (auto simp: febitvec_resize_fill_def split: sum.splits)
  note r = resize_no_init_ok [OF assms(1) v1(1)]
  from fill_ok [OF r(1), of b] r(2) v1(2) Resize_fill show ?thesis by simp
next
  case (Reserve n)
  with assms(3) have "febitvec_reserve e n v = Inr v'" by simp
  from reserve_ok [OF assms(1) this] Reserve show ?thesis
    by (auto simp: bits_kept_def intro!: bvec_eqI)
next
  case (Fill b)
  with fill_ok [OF assms(1), of b] assms(3) show ?thesis by auto
next
  case Erase_all
  with assms show ?thesis by (auto simp: febitvec_erase_all_def febitvec_inv_def bvec_def)
next
  case Clear
  with assms show ?thesis
    by (auto simp: febitvec_clear_def febitvec_risk_release_ownership_def febitvec_inv_def bvec_def bldata_def)
next
  case (Push_uint w val)
  with push_uint_ok [OF assms(1), of w val e v'] assms(2,3) show ?thesis by simp
next
  case (Set_uint p w val)
  with set_uint_ok [OF assms(1), of w val p] assms(2,3) show ?thesis by auto
next
  case (Append y)
  with append_loop_ok [OF assms(1), of e y 0 "m_size y" v'] assms(3) show ?thesis
    by (simp add: febitvec_append_def bvec_def)
qed

lemma push_back_total: "(\<And>n. realloc_ok e n) \<Longrightarrow> \<exists>v'. febitvec_push_back e b v = Inr v'"
  using resize_no_init_total [of e "m_size v + 1" v]
  by (auto simp: febitvec_push_back_def febitvec_push_back_slow_path_def)

lemma resize_total: "(\<And>n. realloc_ok e n) \<Longrightarrow> \<exists>v'. febitvec_resize e n b v = Inr v'"
  using resize_no_init_total [of e n v] by (auto simp: febitvec_resize_def Let_def)

lemma append_loop_total: "(\<And>n. realloc_ok e n) \<Longrightarrow> \<exists>v'. append_loop e y i n v = Inr v'"
proof (induction e y i n v rule: append_loop.induct)
  case (1 e y i n v)
  obtain v1 where v1: "febitvec_push_back e (febitvec_is1 y i) v = Inr v1"
    using push_back_total [OF "1.prems"] by blast
  show ?case
    using "1.IH" [OF _ v1 "1.prems"] v1 by (subst append_loop.simps) auto
qed

lemma bv_exec_total:
  assumes ok: "\<And>n. realloc_ok e n"
  shows "\<exists>v'. bv_exec e op v = Inr v'"
proof (cases op)
  case (Ensure_set i b)
  obtain v1 where "febitvec_resize e (i + 1) False v = Inr v1" using resize_total [OF ok] by blast
  then show ?thesis
    by (simp add: Ensure_set febitvec_ensure_set_def febitvec_ensure_set0_def febitvec_ensure_set1_def
      febitvec_ensure_set1_slow_path_def)
next
  case (Resize_fill n b)
  obtain v1 where "febitvec_resize_no_init e n v = Inr v1" using resize_no_init_total [OF ok] by blast
  then show ?thesis by (simp add: Resize_fill febitvec_resize_fill_def)
next
  case (Push_uint w val)
  obtain v1 where "febitvec_resize_no_init e (m_size v + w) v = Inr v1" using resize_no_init_total [OF ok] by blast
  then show ?thesis by (simp add: Push_uint febitvec_push_uint_def Let_def)
qed (auto simp: push_back_total [OF ok] resize_total [OF ok] reserve_total [OF ok] append_loop_total [OF ok]
  febitvec_append_def)

section \<open>Properties of the bit vector\<close>

lemma resize_no_init_err: "febitvec_resize_no_init e n v = Inl err \<Longrightarrow> err = Bad_alloc"
  by (auto simp: febitvec_resize_no_init_def Let_def split: if_splits option.splits)

lemma resize_err: "febitvec_resize e n b v = Inl err \<Longrightarrow> err = Bad_alloc"
  by (auto simp: febitvec_resize_def Let_def dest: resize_no_init_err split: if_splits sum.splits)

lemma push_back_err: "febitvec_push_back e b v = Inl err \<Longrightarrow> err = Bad_alloc"
  by (auto simp: febitvec_push_back_def febitvec_push_back_slow_path_def dest: resize_no_init_err
    split: if_splits sum.splits)

lemma append_loop_err: "append_loop e y i n v = Inl err \<Longrightarrow> err = Bad_alloc"
proof (induction e y i n v rule: append_loop.induct)
  case (1 e y i n v)
  then show ?case
    by (subst (asm) (2) append_loop.simps) (auto dest: push_back_err split: if_splits sum.splits)
qed

lemma bv_exec_err: "bv_exec e op v = Inl err \<Longrightarrow> err = Bad_alloc"
  by (cases op) (auto simp: febitvec_ensure_set_def febitvec_ensure_set0_def febitvec_ensure_set1_def
    febitvec_ensure_set1_slow_path_def febitvec_resize_fill_def febitvec_reserve_def febitvec_push_uint_def
    febitvec_append_def Let_def
    dest: push_back_err resize_err resize_no_init_err append_loop_err split: if_splits sum.splits option.splits)

text \<open>The bit vector implements the container contract.\<close>

interpretation bv: op_machine febitvec_inv "bv_exec e" "bv_run e" "\<lambda>op v. bv_pre op (bvec v)" "\<lambda>ops v. bv_pre_run ops (bvec v)"
    bvec bv_list "\<lambda>err. err = Bad_alloc" for e
proof unfold_locales
  fix s op ops assume "febitvec_inv s" "bv_pre_run (op # ops) (bvec s)"
  then show "bv_pre op (bvec s) \<and> (\<forall>s'. bv_exec e op s = Inr s' \<longrightarrow> bv_pre_run ops (bvec s'))"
    using bv_exec_sim [of s op e] by (simp only: bv_pre_run.simps) metis
qed (rule bv_run.simps, rule bv_run.simps, erule (2) bv_exec_sim, erule bv_exec_err)

text \<open>C1. Refinement of lists: every sequence of the operations \<open>push_back\<close>, \<open>pop_back\<close>, \<open>set\<close>, range
  set, \<open>ensure_set\<close>, \<open>resize\<close>, \<open>resize_fill\<close>, \<open>reserve\<close>, \<open>fill\<close>, \<open>erase_all\<close>, \<open>clear\<close>, \<open>push_uint\<close>,
  \<open>set_uint\<close> and \<open>append\<close> whose asserted preconditions hold keeps the invariant and acts on the bits
  as the corresponding list operations, whatever the allocator returns; the only failure is \<open>bad_alloc\<close>.\<close>

theorem febitvec_run_refines:
  assumes "febitvec_inv v" and "bv_pre_run ops (bvec v)"
  shows "case bv_run e ops v of
      Inl err \<Rightarrow> err = Bad_alloc
    | Inr v' \<Rightarrow> febitvec_inv v' \<and> bvec v' = fold bv_list ops (bvec v)"
  using bv.run_refines [of v ops e] assms by simp

theorem febitvec_run_refines_witness:
  "case bv_run env0 [Push_back True, Resize 70 False, Set_bit 69 True, Push_uint 5 19] febitvec_empty of
      Inl err \<Rightarrow> err = Bad_alloc
    | Inr v' \<Rightarrow> febitvec_inv v' \<and> bvec v' =
        fold bv_list [Push_back True, Resize 70 False, Set_bit 69 True, Push_uint 5 19] (bvec febitvec_empty)"
proof (rule febitvec_run_refines)
  show "febitvec_inv febitvec_empty" by (simp add: febitvec_empty_def febitvec_inv_def bldata_def)
  show "bv_pre_run [Push_back True, Resize 70 False, Set_bit 69 True, Push_uint 5 19] (bvec febitvec_empty)"
    by (simp add: bvec_def febitvec_empty_def take_bit_eq_mod)
qed



text \<open>C28. \<open>set_uint\<close> and \<open>get_uint\<close> round trip, for every element width that divides the word: the
  written integer is read back, and every integer stored in disjoint bits is unchanged.\<close>

theorem febitvec_uint_roundtrip:
  fixes val :: "'w::len word"
  assumes "LENGTH('w) dvd 64" and "febitvec_inv v" and "width \<le> LENGTH('w)" and "take_bit width val = val"
    and "bitpos + width \<le> m_size v" and "w2 \<le> LENGTH('w)" and "p2 + w2 \<le> bitpos \<or> bitpos + width \<le> p2"
  shows "febitvec_get_uint (febitvec_set_uint bitpos width val v) bitpos width = val
    \<and> (febitvec_get_uint (febitvec_set_uint bitpos width val v) p2 w2 :: 'w word) = febitvec_get_uint v p2 w2"
proof -
  have r: "bitpos + width \<le> 64 * length (bldata v)" using assms(5) febitvec_invD(1) [OF assms(2)] by simp
  note mb = mbit_s_set_uint [OF assms(1,3,4) r]
  have "febitvec_get_uint (febitvec_set_uint bitpos width val v) bitpos width = val"
    by (rule bit_word_eqI)
      (auto simp: febitvec_get_uint_def febitvec_set_uint_def bit_s_get_uint [OF assms(1,3)] mb
        dest: take_bit_bound [OF assms(4)])
  moreover have "(febitvec_get_uint (febitvec_set_uint bitpos width val v) p2 w2 :: 'w word) = febitvec_get_uint v p2 w2"
    using assms(7) by (intro bit_word_eqI)
      (auto simp: febitvec_get_uint_def febitvec_set_uint_def bit_s_get_uint [OF assms(1,6)] mb)
  ultimately show ?thesis by blast
qed

theorem febitvec_uint_roundtrip_witness:
  "febitvec_get_uint (febitvec_set_uint 30 5 (21 :: 32 word) \<lparr>m_words = Some [7, 0], m_size = 100, m_capacity = 128\<rparr>) 30 5
     = (21 :: 32 word)
   \<and> (febitvec_get_uint (febitvec_set_uint 30 5 (21 :: 32 word) \<lparr>m_words = Some [7, 0], m_size = 100, m_capacity = 128\<rparr>) 0 30
     :: 32 word) = febitvec_get_uint \<lparr>m_words = Some [7, 0], m_size = 100, m_capacity = 128\<rparr> 0 30"
  by (rule febitvec_uint_roundtrip) (simp_all add: febitvec_inv_def bldata_def take_bit_eq_mod)

end
