(* ===== verification/FebitvecQuery.thy ===== *)
theory FebitvecQuery
  imports Febitvec
begin

text \<open>
  The queries and the whole-vector operations of \<open>febitvec\<close> (\<open>src/src/terark/bitmap.cpp\<close>):
  population count, run lengths in both directions, the uniform tests, the bitwise operators and
  the copying constructors. The word-by-word loops are related to the bits by lemmas of the locale
  \<open>word_bits\<close>, which the rank/select structures use as well.
\<close>

section \<open>Counting and measuring runs, word by word\<close>

lemma fast_ctz_eqI: "k \<le> 64 \<Longrightarrow> (\<And>i. i < k \<Longrightarrow> \<not> bit x i) \<Longrightarrow> (k < 64 \<Longrightarrow> bit x k) \<Longrightarrow> fast_ctz x = k"
  unfolding fast_ctz_run by (rule run_len_eqI) simp_all

lemma fast_clz_eqI:
  "k \<le> 64 \<Longrightarrow> (\<And>i. i < k \<Longrightarrow> \<not> bit x (63 - i)) \<Longrightarrow> (k < 64 \<Longrightarrow> bit x (63 - k)) \<Longrightarrow> fast_clz x = k"
  unfolding fast_clz_run by (rule run_revlen_eqI) simp_all

lemma run_len_split:
  assumes "p \<le> q" and "q \<le> n" and "\<And>i. p \<le> i \<Longrightarrow> i < q \<Longrightarrow> f i"
  shows "run_len f p n = (q - p) + run_len f q n"
proof (rule run_len_eqI)
  have le: "q + run_len f q n \<le> n" using assms(2) by (rule run_len_le)
  then show "p + (q - p + run_len f q n) \<le> n" using assms(1) by simp
  fix i assume i: "i < q - p + run_len f q n"
  show "f (p + i)"
  proof (cases "p + i < q")
    case False
    then have "p + i - q < run_len f q n" "q + (p + i - q) = p + i" using i assms(1) by simp_all
    then show ?thesis using run_len_sat [of "p + i - q" f q n] by simp
  qed (use assms(3) in simp)
next
  assume "p + (q - p + run_len f q n) < n"
  then show "\<not> f (p + (q - p + run_len f q n))"
    using run_len_stop [of q f n] assms(1) by simp
qed

lemma run_revlen_props:
  shows run_revlen_le: "run_revlen f p \<le> p"
    and run_revlen_sat: "i < run_revlen f p \<Longrightarrow> f (p - Suc i)"
    and run_revlen_stop: "run_revlen f p < p \<Longrightarrow> \<not> f (p - Suc (run_revlen f p))"
proof -
  show le: "run_revlen f p \<le> p"
    unfolding run_revlen_def using length_takeWhile_le [of f "rev [0..<p]"] by simp
  have nth: "rev [0..<p] ! i = p - Suc i" if "i < p" for i using that by (simp add: rev_nth)
  show "i < run_revlen f p \<Longrightarrow> f (p - Suc i)"
  proof -
    assume i: "i < run_revlen f p"
    then have "f (rev [0..<p] ! i)"
      unfolding run_revlen_def by (metis nth_mem set_takeWhileD takeWhile_nth)
    then show ?thesis using i le by (simp add: nth)
  qed
  show "run_revlen f p < p \<Longrightarrow> \<not> f (p - Suc (run_revlen f p))"
  proof -
    assume l: "run_revlen f p < p"
    then have "\<not> f (rev [0..<p] ! run_revlen f p)"
      unfolding run_revlen_def by (intro nth_length_takeWhile) simp
    then show ?thesis using l by (simp add: nth)
  qed
qed

lemma run_revlen_split:
  assumes "q \<le> p" and "\<And>i. q \<le> i \<Longrightarrow> i < p \<Longrightarrow> f i"
  shows "run_revlen f p = (p - q) + run_revlen f q"
proof (rule run_revlen_eqI)
  show "p - q + run_revlen f q \<le> p" using run_revlen_le [of f q] assms(1) by simp
  fix i assume i: "i < p - q + run_revlen f q"
  show "f (p - Suc i)"
  proof (cases "i < p - q")
    case False
    then have "i - (p - q) < run_revlen f q" using i by simp
    from run_revlen_sat [OF this] False assms(1) show ?thesis by simp
  qed (use assms in simp)
next
  assume "p - q + run_revlen f q < p"
  then have "run_revlen f q < q" "p - Suc (p - q + run_revlen f q) = q - Suc (run_revlen f q)"
    using assms(1) by auto
  then show "\<not> f (p - Suc (p - q + run_revlen f q))" using run_revlen_stop [of f q] by simp
qed

lemma fast_clz_bits:
  shows "x \<noteq> 0 \<Longrightarrow> fast_clz x < 64" and "x \<noteq> 0 \<Longrightarrow> bit x (63 - fast_clz x)"
    and "i < fast_clz x \<Longrightarrow> \<not> bit x (63 - i)"
proof -
  note k = run_revlen_props [where f = "\<lambda>i. \<not> bit x i" and p = 64, folded fast_clz_run]
  show sat: "\<not> bit x (63 - i)" if "i < fast_clz x" for i using k(2) [OF that] by simp
  show less: "fast_clz x < 64" if "x \<noteq> 0"
  proof (rule ccontr)
    assume "\<not> fast_clz x < 64"
    then have "\<not> bit x i" if "i < 64" for i using sat [of "63 - i"] that by simp
    then have "x = 0" by (intro bit_word_eqI) simp
    with \<open>x \<noteq> 0\<close> show False by simp
  qed
  show "bit x (63 - fast_clz x)" if "x \<noteq> 0" using k(3) less [OF that] by simp
qed

lemma word_start: "p mod 64 = 0 \<Longrightarrow> 64 * (p div 64) = (p::nat)"
  by (metis add.right_neutral mult_div_mod_eq)

lemma word_end: "p + (64 - p mod 64) = 64 * (p div 64 + 1)" for p :: nat
proof -
  have gen: "p + (64 - m) = 64 * (d + 1)" if "p = 64 * d + m" "m < 64" for d m using that by simp
  show ?thesis by (rule gen) simp_all
qed

context word_bits
begin

lemma f_pos: "f p \<longleftrightarrow> bit (W (p div 64)) (p mod 64)"
  using f_word [of "p mod 64" "p div 64"] by simp

lemma f_from: "p mod 64 + i < 64 \<Longrightarrow> f (p + i) \<longleftrightarrow> bit (drop_bit (p mod 64) (W (p div 64))) i"
  by (simp only: f_pos add64 bit_drop_bit_eq comp_def)

lemma popcnt_loop_cnt: "i \<le> n \<Longrightarrow> popcnt_loop W i n pc = pc + (cnt f (64 * n) - cnt f (64 * i))"
proof (induction "n - i" arbitrary: i pc)
  case 0
  then show ?case by (subst popcnt_loop.simps) simp
next
  case (Suc d)
  then have i: "i < n" by simp
  have e: "64 * Suc i = 64 * i + 64" by simp
  have "cnt f (64 * Suc i) \<le> cnt f (64 * n)" using i by (intro cnt_mono) simp
  moreover have "cnt f (64 * Suc i) = cnt f (64 * i) + fast_popcount (W i)" unfolding e by (rule cnt_next)
  moreover have "popcnt_loop W (Suc i) n (pc + fast_popcount (W i))
      = pc + fast_popcount (W i) + (cnt f (64 * n) - cnt f (64 * Suc i))"
    using Suc i by (intro Suc.hyps(1)) simp_all
  ultimately show ?case using i by (subst popcnt_loop.simps) simp
qed

text \<open>Runs of zeros.\<close>

lemma seq_len_loop_run: "j \<le> len \<Longrightarrow> seq_len_loop W j len acc = acc + run_len (\<lambda>p. \<not> f p) (64 * j) (64 * len)"
proof (induction "len - j" arbitrary: j acc)
  case 0
  then show ?case by (subst seq_len_loop.simps) (simp add: run_len_def)
next
  case (Suc d)
  then have j: "j < len" by simp
  show ?case
  proof (cases "W j = 0")
    case True
    have "\<not> f i" if "64 * j \<le> i" "i < 64 * Suc j" for i
      using f_word [of "i - 64 * j" j] that True by simp
    then have "run_len (\<lambda>p. \<not> f p) (64 * j) (64 * len) = 64 + run_len (\<lambda>p. \<not> f p) (64 * Suc j) (64 * len)"
      using run_len_split [of "64 * j" "64 * Suc j" "64 * len" "\<lambda>p. \<not> f p"] j by simp
    with Suc j True show ?thesis by (subst seq_len_loop.simps) simp
  next
    case False
    have l: "fast_ctz (W j) < 64" using False by (rule fast_ctz_less)
    have "run_len (\<lambda>p. \<not> f p) (64 * j) (64 * len) = fast_ctz (W j)"
      using l j fast_ctz_bits(1) [of "W j"] fast_ctz_bits(2) [of _ "W j"] False by (intro run_len_eqI) (simp_all add: f_word)
    with False j show ?thesis by (subst seq_len_loop.simps) simp
  qed
qed

lemma zero_run:
  assumes "p < 64 * len"
  defines "y \<equiv> drop_bit (p mod 64) (W (p div 64))"
  shows "run_len (\<lambda>p. \<not> f p) p (64 * len) =
    (if y \<noteq> 0 then fast_ctz y else seq_len_loop W (p div 64 + 1) len (64 - p mod 64))"
proof -
  have off: "p mod 64 < 64" by simp
  have l: "p div 64 < len" using assms(1) by (simp add: div_less_iff_less_mult mult.commute)
  define q where "q = p + (64 - p mod 64)"
  have q: "q = 64 * (p div 64 + 1)" unfolding q_def by (rule word_end)
  have ql: "q \<le> 64 * len" using l unfolding q by (intro mult_le_mono2) simp
  show ?thesis
  proof (cases "y = 0")
    case True
    have nf: "\<not> f i" if "p \<le> i" "i < q" for i
    proof -
      have "p mod 64 + (i - p) < 64" using that off unfolding q_def by linarith
      from f_from [OF this] that True show ?thesis by (simp add: y_def)
    qed
    have "run_len (\<lambda>p. \<not> f p) p (64 * len) = (q - p) + run_len (\<lambda>p. \<not> f p) q (64 * len)"
      using nf ql by (intro run_len_split) (simp_all add: q_def)
    also have "q - p = 64 - p mod 64" by (simp add: q_def)
    also have "64 - p mod 64 + run_len (\<lambda>p. \<not> f p) q (64 * len) = seq_len_loop W (p div 64 + 1) len (64 - p mod 64)"
      using seq_len_loop_run [of "p div 64 + 1" len "64 - p mod 64"] l by (simp only: q)
    finally show ?thesis using True by simp
  next
    case False
    have b: "bit y (fast_ctz y)" using False by (rule fast_ctz_bits)
    then have c: "p mod 64 + fast_ctz y < 64"
      by (auto simp: y_def bit_simps dest: bit_imp_le_length)
    have "run_len (\<lambda>p. \<not> f p) p (64 * len) = fast_ctz y"
    proof (rule run_len_eqI)
      show "p + fast_ctz y \<le> 64 * len" using c ql unfolding q_def by linarith
      show "\<not> f (p + i)" if "i < fast_ctz y" for i
        using fast_ctz_bits(2) [OF that] f_from [of p i] that c by (simp add: y_def)
      show "\<not> \<not> f (p + fast_ctz y)" using b f_from [OF c] by (simp add: y_def)
    qed
    with False show ?thesis by simp
  qed
qed

lemma seq_revlen_loop_run: "seq_revlen_loop W j acc = acc + run_revlen (\<lambda>p. \<not> f p) (64 * j)"
proof (induction j arbitrary: acc)
  case 0
  show ?case by (simp add: run_revlen_def)
next
  case (Suc j)
  show ?case
  proof (cases "W j = 0")
    case True
    have "\<not> f i" if "64 * j \<le> i" "i < 64 * Suc j" for i
      using f_word [of "i - 64 * j" j] that True by simp
    then have "run_revlen (\<lambda>p. \<not> f p) (64 * Suc j) = 64 + run_revlen (\<lambda>p. \<not> f p) (64 * j)"
      using run_revlen_split [of "64 * j" "64 * Suc j" "\<lambda>p. \<not> f p"] by simp
    with Suc True show ?thesis by simp
  next
    case False
    define k where "k = fast_clz (W j)"
    have k: "k < 64" "bit (W j) (63 - k)" "\<And>i. i < k \<Longrightarrow> \<not> bit (W j) (63 - i)"
      using fast_clz_bits(1,2) [OF False] fast_clz_bits(3) [of _ "W j"] by (simp_all add: k_def)
    have pos: "64 * Suc j - Suc i = 64 * j + (63 - i)" if "i < 64" for i using that by simp
    have "run_revlen (\<lambda>p. \<not> f p) (64 * Suc j) = k"
      using k by (intro run_revlen_eqI) (simp_all only: pos f_word, simp_all add: f_word)
    with False show ?thesis by (simp add: k_def)
  qed
qed

lemma zero_revrun:
  assumes "p mod 64 \<noteq> 0"
  defines "y \<equiv> push_bit (64 - p mod 64) (W (p div 64))"
  shows "run_revlen (\<lambda>p. \<not> f p) p =
    (if y \<noteq> 0 then fast_clz y else seq_revlen_loop W (p div 64) (p mod 64))"
proof -
  define d where "d = p div 64"
  define m where "m = p mod 64"
  have p: "p = 64 * d + m" and m: "0 < m" "m < 64" using assms(1) by (simp_all add: d_def m_def)
  have bity: "bit y (63 - i) \<longleftrightarrow> i < m \<and> f (p - Suc i)" if "i < 64" for i
  proof (cases "i < m")
    case True
    then have "p - Suc i = 64 * d + (m - Suc i)" "63 - i - (64 - m) = m - Suc i" "64 - m \<le> 63 - i" "63 - i < 64"
      using p m by simp_all
    then have "bit y (63 - i) = bit (W d) (m - Suc i)" "f (p - Suc i) = bit (W d) (m - Suc i)"
      using m f_word [of "m - Suc i" d] by (simp_all add: y_def d_def [symmetric] m_def [symmetric] bit_simps)
    with True show ?thesis by simp
  next
    case False
    then have "\<not> 64 - m \<le> 63 - i" using m that by linarith
    with False show ?thesis by (simp add: y_def m_def [symmetric] bit_simps)
  qed
  show ?thesis
  proof (cases "y = 0")
    case True
    have "\<not> f i" if "64 * d \<le> i" "i < p" for i
      using bity [of "p - Suc i"] that True p m by simp
    then have "run_revlen (\<lambda>p. \<not> f p) p = (p - 64 * d) + run_revlen (\<lambda>p. \<not> f p) (64 * d)"
      using p by (intro run_revlen_split) simp_all
    moreover have "p - 64 * d = m" using p by simp
    ultimately show ?thesis
      using True unfolding d_def [symmetric] m_def [symmetric] seq_revlen_loop_run by simp
  next
    case False
    define k where "k = fast_clz y"
    have k: "k < 64" "bit y (63 - k)" "\<And>i. i < k \<Longrightarrow> \<not> bit y (63 - i)"
      using fast_clz_bits(1,2) [OF False] fast_clz_bits(3) [of _ y] by (simp_all add: k_def)
    have km: "k < m" "f (p - Suc k)" using k(2) bity [OF k(1)] by auto
    have "\<not> f (p - Suc i)" if "i < k" for i using bity [of i] k(1) k(3) [OF that] that km(1) by simp
    then have "run_revlen (\<lambda>p. \<not> f p) p = k"
      using km p by (intro run_revlen_eqI) simp_all
    with False show ?thesis by (simp add: k_def)
  qed
qed

end


section \<open>Queries on the abstract value\<close>

lemma num_words_bounds:
  assumes "febitvec_inv v"
  shows "m_size v \<le> 64 * febitvec_num_words v" and "febitvec_num_words v \<le> length (bldata v)"
proof -
  show "m_size v \<le> 64 * febitvec_num_words v"
    using align_up_ge [of 64 "m_size v"] by (simp add: febitvec_num_words_def align_up_def mult.commute)
  have "64 * febitvec_num_words v < m_size v + 64"
    using align_up_less [of 64 "m_size v"] by (simp add: febitvec_num_words_def align_up_def mult.commute)
  then show "febitvec_num_words v \<le> length (bldata v)" using febitvec_invD(1) [OF assms] by linarith
qed

lemma trail_0 [simp]: "fast_popcount_trail x 0 = 0"
  by (simp add: fast_popcount_trail_cnt)

lemma popcnt_cnt: "febitvec_popcnt v = cnt (mbit (bldata v)) (m_size v)"
proof (cases "m_size v = 0")
  case False
  define d where "d = m_size v div 64"
  define m where "m = m_size v mod 64"
  have "febitvec_popcnt v = popcnt_loop ((!) (bldata v)) 0 d 0 + fast_popcount_trail (bldata v ! d) m"
    using False unfolding febitvec_popcnt_def Let_def d_def [symmetric] m_def [symmetric] by simp
  also have "\<dots> = cnt (mbit (bldata v)) (64 * d) + fast_popcount_trail (bldata v ! d) m"
    using mem_bits.popcnt_loop_cnt [of 0 d "bldata v" 0] by simp
  also have "\<dots> = cnt (mbit (bldata v)) (m_size v)"
    unfolding d_def m_def by (rule mem_bits.cnt_pos [symmetric])
  finally show ?thesis .
qed (simp add: febitvec_popcnt_def)

lemma and_push_bit_0: "x AND push_bit n 1 = (0 :: u64) \<longleftrightarrow> \<not> bit x n"
  using and_push_bit_1 [of x n] by blast

lemma run_len_here: "\<not> g p \<Longrightarrow> p \<le> n \<Longrightarrow> run_len g p n = 0"
  by (rule run_len_eqI) auto

lemma wi_le_words: "p < 64 * n \<Longrightarrow> p div 64 \<le> (n::nat)"
  by (rule less_imp_le) (simp add: div_less_iff_less_mult mult.commute)

lemma zero_seq_len_run:
  assumes "p < 64 * febitvec_num_words v"
  shows "febitvec_zero_seq_len v p = run_len (\<lambda>i. \<not> mbit (bldata v) i) p (64 * febitvec_num_words v)"
proof (cases "p mod 64 = 0")
  case True
  then have p: "64 * (p div 64) = p" by (rule word_start)
  from mem_bits.seq_len_loop_run [OF wi_le_words [OF assms], of "bldata v" 0] True show ?thesis
    unfolding p by (simp add: febitvec_zero_seq_len_def Let_def)
next
  case False
  show ?thesis
  proof (cases "mbit (bldata v) p")
    case True
    with False assms show ?thesis
      unfolding febitvec_zero_seq_len_def Let_def and_push_bit_0 by (simp add: mbit_def run_len_here)
  next
    case nb: False
    with False show ?thesis
      unfolding febitvec_zero_seq_len_def Let_def and_push_bit_0 mem_bits.zero_run [OF assms]
      by (simp add: mbit_def)
  qed
qed

text \<open>The code complements after the shift: the ones shifted in bound the count.\<close>

lemma ctz_not_shift:
  fixes x :: u64
  assumes "0 < off" and "off < 64"
  shows "fast_ctz (NOT (drop_bit off x)) =
    (if drop_bit off (NOT x) \<noteq> 0 then fast_ctz (drop_bit off (NOT x)) else 64 - off)"
    and "drop_bit off (NOT x) \<noteq> 0 \<Longrightarrow> fast_ctz (drop_bit off (NOT x)) < 64 - off"
proof -
  define z where "z = drop_bit off (NOT x)"
  have bz: "bit z i \<longleftrightarrow> i < 64 - off \<and> \<not> bit x (off + i)" for i by (auto simp: z_def bit_simps)
  have c: "fast_ctz z < 64 - off" if "z \<noteq> 0" using fast_ctz_bits(1) [OF that] bz by blast
  then show "drop_bit off (NOT x) \<noteq> 0 \<Longrightarrow> fast_ctz (drop_bit off (NOT x)) < 64 - off" by (simp add: z_def)
  have "fast_ctz (NOT (drop_bit off x)) = (if z \<noteq> 0 then fast_ctz z else 64 - off)"
  proof (cases "z = 0")
    case True
    then have "bit x (off + i)" if "i < 64 - off" for i using bz [of i] that by simp
    moreover have "\<not> bit x 64" using bit_imp_le_length [of x 64] by auto
    ultimately have "fast_ctz (NOT (drop_bit off x)) = 64 - off"
      using assms by (intro fast_ctz_eqI) (auto simp: bit_simps)
    with True show ?thesis by simp
  next
    case False
    have "fast_ctz (NOT (drop_bit off x)) = fast_ctz z"
      using c [OF False] fast_ctz_bits(1) [OF False] fast_ctz_bits(2) [of _ z]
      by (intro fast_ctz_eqI) (auto simp: bit_simps bz)
    with False show ?thesis by simp
  qed
  then show "fast_ctz (NOT (drop_bit off x)) =
    (if drop_bit off (NOT x) \<noteq> 0 then fast_ctz (drop_bit off (NOT x)) else 64 - off)" by (simp add: z_def)
qed

lemma one_seq_len_run:
  assumes "p < 64 * febitvec_num_words v"
  shows "febitvec_one_seq_len v p = run_len (mbit (bldata v)) p (64 * febitvec_num_words v)"
proof (cases "p mod 64 = 0")
  case True
  then have p: "64 * (p div 64) = p" by (rule word_start)
  from mem_bits0.seq_len_loop_run [OF wi_le_words [OF assms], of "bldata v" 0] True show ?thesis
    unfolding p by (simp add: febitvec_one_seq_len_def Let_def)
next
  case False
  then have off: "0 < p mod 64" "p mod 64 < 64" by simp_all
  have run: "run_len (mbit (bldata v)) p (64 * febitvec_num_words v) = run_len (\<lambda>i. \<not> \<not> mbit (bldata v) i) p (64 * febitvec_num_words v)"
    by simp
  show ?thesis
  proof (cases "mbit (bldata v) p")
    case nb: False
    with False assms show ?thesis
      unfolding febitvec_one_seq_len_def Let_def and_push_bit_0 by (simp add: mbit_def run_len_here)
  next
    case True
    with False ctz_not_shift [OF off, of "bldata v ! (p div 64)"] show ?thesis
      unfolding febitvec_one_seq_len_def Let_def and_push_bit_0 run mem_bits0.zero_run [OF assms]
      by (auto simp: mbit_def)
  qed
qed

text \<open>\<open>fast_one_seq_len\<close> agrees with it on an array that has the zero bit the code relies on.\<close>

lemma fast_seq_loop_len:
  assumes "j \<le> k" and "k < length bits" and "bits ! k \<noteq> - 1"
  shows "fast_seq_loop bits j acc = Some (seq_len_loop (\<lambda>j. NOT (bits ! j)) j (length bits) acc)"
  using assms(1)
proof (induction "k - j" arbitrary: j acc)
  case 0
  then have "j = k" by simp
  moreover have "NOT (bits ! k) \<noteq> 0" using assms(3) by (metis bit.double_compl bit.compl_zero)
  ultimately show ?case
    using assms(2) by (subst fast_seq_loop.simps, subst seq_len_loop.simps) (simp add: Let_def)
next
  case (Suc d)
  then have "fast_seq_loop bits (Suc j) (acc + 64)
      = Some (seq_len_loop (\<lambda>j. NOT (bits ! j)) (Suc j) (length bits) (acc + 64))"
    by (intro Suc.hyps(1)) simp_all
  with Suc assms(2) show ?case
    by (subst fast_seq_loop.simps, subst seq_len_loop.simps) (simp add: Let_def)
qed

lemma word_pred:
  assumes "p mod 64 \<noteq> (0::nat)"
  shows "(p - 1) div 64 = p div 64" and "(p - 1) mod 64 = p mod 64 - 1"
proof -
  define d where "d = p div 64"
  define m where "m = p mod 64"
  have p: "p - 1 = 64 * d + (m - 1)" and m: "m - 1 < 64" using assms by (simp_all add: d_def m_def)
  show "(p - 1) div 64 = p div 64" "(p - 1) mod 64 = p mod 64 - 1"
    unfolding p d_def [symmetric] m_def [symmetric] using m by simp_all
qed

lemma run_revlen_here: "0 < p \<Longrightarrow> \<not> g (p - 1) \<Longrightarrow> run_revlen g p = 0"
  by (rule run_revlen_eqI) auto

lemma zero_seq_revlen_run:
  "febitvec_zero_seq_revlen v p = run_revlen (\<lambda>i. \<not> mbit (bldata v) i) p"
proof (cases "p mod 64 = 0")
  case True
  then have p: "64 * (p div 64) = p" by (rule word_start)
  from mem_bits.seq_revlen_loop_run [of "bldata v" "p div 64" 0] True show ?thesis
    unfolding p by (simp add: febitvec_zero_seq_revlen_def Let_def)
next
  case False
  then have p: "0 < p" by (cases p) simp_all
  note last = word_pred [OF False]
  have mb: "mbit (bldata v) (p - 1) = bit (bldata v ! (p div 64)) (p mod 64 - 1)" by (simp only: mbit_def last)
  show ?thesis
  proof (cases "mbit (bldata v) (p - 1)")
    case True
    then have "febitvec_zero_seq_revlen v p = 0"
      using False unfolding febitvec_zero_seq_revlen_def Let_def and_push_bit_0 last mb unfolding wibi by simp
    with True p show ?thesis by (simp add: run_revlen_here)
  next
    case nb: False
    with False show ?thesis
      unfolding febitvec_zero_seq_revlen_def Let_def and_push_bit_0 mem_bits.zero_revrun [OF False] last mb unfolding wibi
      by simp
  qed
qed

lemma clz_not_shift:
  fixes x :: u64
  assumes "0 < m" and "m < 64"
  shows "fast_clz (NOT (push_bit (64 - m) x)) =
    (if push_bit (64 - m) (NOT x) \<noteq> 0 then fast_clz (push_bit (64 - m) (NOT x)) else m)"
    and "push_bit (64 - m) (NOT x) \<noteq> 0 \<Longrightarrow> fast_clz (push_bit (64 - m) (NOT x)) < m"
proof -
  define z where "z = push_bit (64 - m) (NOT x)"
  have bz: "bit z i \<longleftrightarrow> 64 - m \<le> i \<and> i < 64 \<and> \<not> bit x (i - (64 - m))" for i by (auto simp: z_def bit_simps)
  have bny: "bit (NOT (push_bit (64 - m) x)) i \<longleftrightarrow> i < 64 \<and> (i < 64 - m \<or> \<not> bit x (i - (64 - m)))" for i
    by (auto simp: bit_simps)
  have c: "fast_clz z < m" if "z \<noteq> 0" using fast_clz_bits(1,2) [OF that] bz assms by fastforce
  then show "push_bit (64 - m) (NOT x) \<noteq> 0 \<Longrightarrow> fast_clz (push_bit (64 - m) (NOT x)) < m" by (simp add: z_def)
  have "fast_clz (NOT (push_bit (64 - m) x)) = (if z \<noteq> 0 then fast_clz z else m)"
  proof (cases "z = 0")
    case True
    then have "bit x (i - (64 - m))" if "64 - m \<le> i" "i < 64" for i using bz [of i] that by simp
    then have "fast_clz (NOT (push_bit (64 - m) x)) = m"
      using assms by (intro fast_clz_eqI) (auto simp only: bny)
    with True show ?thesis by simp
  next
    case False
    have "fast_clz (NOT (push_bit (64 - m) x)) = fast_clz z"
    proof (rule fast_clz_eqI)
      show "fast_clz z \<le> 64" using fast_clz_bits(1) [OF False] by simp
      show "\<not> bit (NOT (push_bit (64 - m) x)) (63 - i)" if "i < fast_clz z" for i
        using that c [OF False] fast_clz_bits(3) [OF that] assms unfolding bny bz by auto
      show "bit (NOT (push_bit (64 - m) x)) (63 - fast_clz z)"
        using fast_clz_bits(2) [OF False] unfolding bny bz by auto
    qed
    with False show ?thesis by simp
  qed
  then show "fast_clz (NOT (push_bit (64 - m) x)) =
    (if push_bit (64 - m) (NOT x) \<noteq> 0 then fast_clz (push_bit (64 - m) (NOT x)) else m)" by (simp add: z_def)
qed

lemma one_seq_revlen_run:
  "febitvec_one_seq_revlen v p = run_revlen (mbit (bldata v)) p"
proof (cases "p mod 64 = 0")
  case True
  then have p: "64 * (p div 64) = p" by (rule word_start)
  from mem_bits0.seq_revlen_loop_run [of "bldata v" "p div 64" 0] True show ?thesis
    unfolding p by (simp add: febitvec_one_seq_revlen_def Let_def)
next
  case False
  then have p: "0 < p" by (cases p) simp_all
  from False have off: "0 < p mod 64" "p mod 64 < 64" by simp_all
  have run: "run_revlen (mbit (bldata v)) p = run_revlen (\<lambda>i. \<not> \<not> mbit (bldata v) i) p" by simp
  note last = word_pred [OF False]
  have mb: "mbit (bldata v) (p - 1) = bit (bldata v ! (p div 64)) (p mod 64 - 1)" by (simp only: mbit_def last)
  show ?thesis
  proof (cases "mbit (bldata v) (p - 1)")
    case nb: False
    then have "febitvec_one_seq_revlen v p = 0"
      using False unfolding febitvec_one_seq_revlen_def Let_def and_push_bit_0 last mb unfolding wibi by simp
    with nb p show ?thesis by (simp add: run_revlen_here)
  next
    case True
    with False clz_not_shift [OF off, of "bldata v ! (p div 64)"] show ?thesis
      unfolding febitvec_one_seq_revlen_def Let_def and_push_bit_0 run mem_bits0.zero_revrun [OF False] last mb unfolding wibi
      by simp
  qed
qed

section \<open>Whole-vector operations\<close>

lemma length_zip_words [simp]: "length (zip_words g xs ys i n) = length xs"
  by (induction g xs ys i n rule: zip_words.induct) (subst zip_words.simps, simp)

lemma nth_zip_words:
  "n \<le> length xs \<Longrightarrow> zip_words g xs ys i n ! k = (if i \<le> k \<and> k < n then g (xs ! k) (ys ! k) else xs ! k)"
proof (induction g xs ys i n rule: zip_words.induct)
  case (1 g xs ys i n)
  then show ?case by (subst zip_words.simps) (auto simp: nth_list_update Suc_le_eq le_less)
qed

lemma mbit_zip:
  assumes "febitvec_inv x" and "p < m_size x"
    and g: "\<And>a b i. i < 64 \<Longrightarrow> bit (g a b) i = h (bit a i) (bit b i)"
  shows "mbit (bldata (febitvec_zip g x y)) p =
    (if p < 64 * febitvec_num_words y then h (mbit (bldata x) p) (mbit (bldata y) p) else mbit (bldata x) p)"
proof -
  define k where "k = p div 64"
  have kx: "k < febitvec_num_words x"
    using num_words_bounds(1) [OF assms(1)] assms(2) by (simp add: k_def div_less_iff_less_mult mult.commute)
  have ky: "p < 64 * febitvec_num_words y \<longleftrightarrow> k < febitvec_num_words y"
    by (simp add: k_def div_less_iff_less_mult mult.commute)
  have "min (febitvec_num_words x) (febitvec_num_words y) \<le> length (bldata x)"
    using num_words_bounds(2) [OF assms(1)] by simp
  from nth_zip_words [OF this, of g "bldata y" 0 k] kx show ?thesis
    unfolding ky by (simp add: febitvec_zip_def Let_def mbit_def k_def [symmetric] g)
qed

lemma bvec_zip:
  assumes "febitvec_inv x" and "febitvec_inv y" and "m_size x = m_size y"
    and g: "\<And>a b i. i < 64 \<Longrightarrow> bit (g a b) i = h (bit a i) (bit b i)"
  shows "febitvec_inv (febitvec_zip g x y) \<and> bvec (febitvec_zip g x y) = map2 h (bvec x) (bvec y)"
proof
  show "febitvec_inv (febitvec_zip g x y)" using assms(1) by (simp add: febitvec_zip_def Let_def inv_upd)
  have s: "m_size (febitvec_zip g x y) = m_size x" by (simp add: febitvec_zip_def Let_def)
  show "bvec (febitvec_zip g x y) = map2 h (bvec x) (bvec y)"
    using assms(3) num_words_bounds(1) [OF assms(2)]
    by (intro bvec_eqI) (simp_all add: s mbit_zip [where g = g and h = h, OF assms(1) _ g])
qed

lemma words_all_iff: "words_all x ws i n \<longleftrightarrow> (\<forall>k. i \<le> k \<and> k < n \<longrightarrow> ws ! k = x)"
proof (induction x ws i n rule: words_all.induct)
  case (1 x ws i n)
  show ?case
  proof (cases "i < n")
    case True
    then have "(\<forall>k. i \<le> k \<and> k < n \<longrightarrow> ws ! k = x) \<longleftrightarrow> ws ! i = x \<and> (\<forall>k. Suc i \<le> k \<and> k < n \<longrightarrow> ws ! k = x)"
      by (metis Suc_leD Suc_le_eq le_neq_implies_less order_refl)
    with 1 True show ?thesis by (subst words_all.simps) auto
  qed (subst words_all.simps, auto)
qed

lemma word_const_iff: "(W :: u64) = (if b then - 1 else 0) \<longleftrightarrow> (\<forall>i<64. bit W i = b)"
  by (auto simp: bit_eq_iff)

text \<open>The bits below a bound: whole words, then the masked last word.\<close>

lemma all_bits_words:
  "(\<forall>p < n. mbit m p = b) \<longleftrightarrow>
     (\<forall>k < n div 64. m ! k = (if b then - 1 else 0)) \<and> (\<forall>i < n mod 64. bit (m ! (n div 64)) i = b)"
    (is "?L = (?A \<and> ?B)")
proof
  assume L: ?L
  show "?A \<and> ?B"
  proof (intro conjI allI impI)
    fix k assume k: "k < n div 64"
    have "bit (m ! k) i = b" if "i < 64" for i
    proof -
      have "64 * k + i < n" using k that div_times_less_eq_dividend [of n 64] by linarith
      with L have "mbit m (64 * k + i) = b" by blast
      with that show ?thesis by (simp add: mem_bits.f_word)
    qed
    then show "m ! k = (if b then - 1 else 0)" by (simp only: word_const_iff) simp
  next
    fix i assume i: "i < n mod 64"
    then have "64 * (n div 64) + i < n" using mult_div_mod_eq [of 64 n] by linarith
    with L have "mbit m (64 * (n div 64) + i) = b" by blast
    moreover have "i < 64" using i mod_less_divisor [of 64 n] by linarith
    ultimately show "bit (m ! (n div 64)) i = b" by (simp only: mem_bits.f_word)
  qed
next
  assume "?A \<and> ?B"
  then show ?L unfolding word_const_iff less_divmod64 [of _ n]
    by (auto simp: mbit_def)
qed

lemma bit_low_mask: "bit (push_bit m 1 - 1 :: u64) i \<longleftrightarrow> i < m \<and> i < 64"
proof -
  have "(push_bit m 1 - 1 :: u64) = mask m" by (simp add: mask_eq_exp_minus_1 push_bit_eq_mult)
  then show ?thesis by (simp only: bit_mask_iff) (auto simp: bit_simps)
qed

lemma word64_eq_iff: "(x :: u64) = y \<longleftrightarrow> (\<forall>n<64. bit x n = bit y n)"
  by (auto intro: bit_word_eqI)

lemma low_mask_iff:
  fixes x :: u64
  assumes "m < 64"
  shows "x AND (push_bit m 1 - 1) = 0 \<longleftrightarrow> (\<forall>i<m. bit x i = False)"
    and "x AND (push_bit m 1 - 1) = push_bit m 1 - 1 \<longleftrightarrow> (\<forall>i<m. bit x i = True)"
  using assms unfolding word64_eq_iff bit_and_iff bit_low_mask by (auto intro: less_trans)

lemma isall0_iff: "febitvec_isall0 v \<longleftrightarrow> (\<forall>p < m_size v. \<not> mbit (bldata v) p)"
proof -
  have m: "m_size v mod 64 < 64" by simp
  show ?thesis
    using all_bits_words [of "m_size v" "bldata v" False]
    unfolding febitvec_isall0_def Let_def words_all_iff low_mask_iff [OF m] by simp
qed

lemma isall1_iff: "febitvec_isall1 v \<longleftrightarrow> (\<forall>p < m_size v. mbit (bldata v) p)"
proof -
  have m: "m_size v mod 64 < 64" by simp
  show ?thesis
    using all_bits_words [of "m_size v" "bldata v" True]
    unfolding febitvec_isall1_def Let_def words_all_iff low_mask_iff [OF m] by simp
qed

section \<open>Copies\<close>

lemma copy_ok:
  assumes "febitvec_inv y" and "febitvec_copy e y = Inr v"
  shows "febitvec_inv v" and "bvec v = bvec y"
proof -
  define n where "n = align_up (m_size y) 64 div 64"
  have n64: "64 * n = align_up (m_size y) 64" using align_up_dvd [of 64 "m_size y"] by (simp add: n_def)
  have sz: "m_size y \<le> 64 * n" unfolding n64 by (rule align_up_ge) simp
  have "64 * n < m_size y + 64" unfolding n64 by (rule align_up_less) simp
  then have nl: "n \<le> length (bldata y)" using febitvec_invD(1) [OF assms(1)] by linarith
  have v: "m_size v = m_size y" "m_capacity v = 64 * n" "bldata v = take n (bldata y)"
    using assms(2) by (auto simp: febitvec_copy_def n_def [symmetric] Let_def bldata_def split: if_splits)
  then show "febitvec_inv v" using sz nl by (simp add: febitvec_inv_def)
  show "bvec v = bvec y"
  proof (rule bvec_eqI)
    fix i assume "i < length (bvec y)"
    then have "i div 64 < n" using sz by (simp add: div_less_iff_less_mult mult.commute)
    then show "mbit (bldata v) i = bvec y ! i"
      using \<open>i < length (bvec y)\<close> by (simp add: v(3) mbit_def)
  qed (simp add: v)
qed

lemma shrink_ok:
  assumes "febitvec_inv v" and "febitvec_shrink_to_fit e v = Some v'"
  shows "febitvec_inv v'" and "bvec v' = bvec v" and "m_size v' = m_size v"
    and "m_words v \<noteq> None \<Longrightarrow> m_capacity v' = align_up (m_size v) 64"
proof -
  define n where "n = align_up (m_size v) 64 div 64"
  have n64: "64 * n = align_up (m_size v) 64" using align_up_dvd [of 64 "m_size v"] by (simp add: n_def)
  have n8: "align_up (m_size v) 64 div 8 div 8 = n" by (simp add: n_def div_mult2_eq [symmetric])
  have sz: "m_size v \<le> 64 * n" unfolding n64 by (rule align_up_ge) simp
  have "64 * n < m_size v + 64" unfolding n64 by (rule align_up_less) simp
  then have nl: "n \<le> length (bldata v)" using febitvec_invD(1) [OF assms(1)] by linarith
  have "febitvec_inv v' \<and> bvec v' = bvec v \<and> m_size v' = m_size v
      \<and> (m_words v \<noteq> None \<longrightarrow> m_capacity v' = align_up (m_size v) 64)"
  proof (cases "m_words v")
    case None
    with assms show ?thesis by (simp add: febitvec_shrink_to_fit_def)
  next
    case (Some ws)
    define old where "old = (if m_size v = 0 then [] else bldata v)"
    obtain p where p: "realloc_words e old (align_up (m_size v) 64 div 8) = Some p"
      and v': "m_size v' = m_size v" "bldata v' = p" "m_capacity v' = 64 * n"
      using assms(2) Some by (auto simp: febitvec_shrink_to_fit_def old_def n64 Let_def bldata_def
        split: if_splits option.splits)
    have lp: "length p = n"
      using p nl sz by (auto simp: realloc_words_def n8 old_def n_def align_up_def split: if_splits)
    have "bvec v' = bvec v"
    proof (rule bvec_eqI)
      fix i assume i: "i < length (bvec v)"
      then have "i < 64 * length old" "i < 64 * n" using febitvec_invD(1) [OF assms(1)] sz by (auto simp: old_def)
      then have "mbit p i = mbit old i" using mbit_realloc [OF p] n8 by simp
      then show "mbit (bldata v') i = bvec v ! i" using i v' by (auto simp: old_def)
    qed (simp add: v')
    with v' lp sz show ?thesis by (simp add: febitvec_inv_def n64)
  qed
  then show "febitvec_inv v'" and "bvec v' = bvec v" and "m_size v' = m_size v"
    and "m_words v \<noteq> None \<Longrightarrow> m_capacity v' = align_up (m_size v) 64" by blast+
qed

lemma length_shift_right_loop [simp]: "length (shift_right_loop rs ws i n) = length ws"
  by (induction rs ws i n rule: shift_right_loop.induct) (subst shift_right_loop.simps, simp)

lemma nth_shift_right_loop:
  "n \<le> length ws \<Longrightarrow> shift_right_loop rs ws i n ! k =
     (if i \<le> k \<and> k < n then drop_bit rs (ws ! k) OR push_bit (64 - rs) (ws ! (k + 1)) else ws ! k)"
proof (induction rs ws i n rule: shift_right_loop.induct)
  case (1 rs ws i n)
  then show ?case by (subst shift_right_loop.simps) (auto simp: nth_list_update Suc_le_eq le_less)
qed

text \<open>The shifted copy: the bit at \<open>p\<close> is the bit of the source at \<open>p + rs\<close>.\<close>

lemma mbit_shifted:
  fixes ws :: "u64 list"
  assumes rs: "0 < rs" "rs < 64" and n: "n = length ws" "0 < n" and p: "p + rs < 64 * n"
  defines "b \<equiv> shift_right_loop rs ws 0 (n - 1)"
  shows "mbit (b[n - 1 := drop_bit rs (b ! (n - 1))]) p = mbit ws (p + rs)"
proof -
  define k where "k = p div 64"
  define i where "i = p mod 64"
  have pk: "p = 64 * k + i" and i: "i < 64" by (simp_all add: k_def i_def)
  have kn: "k < n" using p pk by simp
  have bk: "b ! k = (if k < n - 1 then drop_bit rs (ws ! k) OR push_bit (64 - rs) (ws ! (k + 1)) else ws ! k)"
    unfolding b_def using n by (subst nth_shift_right_loop) auto
  have src: "mbit ws (p + rs) = (if i + rs < 64 then bit (ws ! k) (i + rs) else bit (ws ! (k + 1)) (i + rs - 64))"
  proof (cases "i + rs < 64")
    case True
    then have "p + rs = 64 * k + (i + rs)" using pk by simp
    then show ?thesis using True mem_bits.f_word [of "i + rs" ws k] by (simp add: add.assoc)
  next
    case False
    then have e: "p + rs = 64 * (k + 1) + (i + rs - 64)" using pk by simp
    show ?thesis unfolding e using False i rs mem_bits.f_word [of "i + rs - 64" ws "k + 1"] by simp
  qed
  show ?thesis
  proof (cases "k < n - 1")
    case True
    then have "mbit (b[n - 1 := drop_bit rs (b ! (n - 1))]) p = bit (drop_bit rs (ws ! k) OR push_bit (64 - rs) (ws ! (k + 1))) i"
      by (simp add: mbit_def k_def [symmetric] i_def [symmetric] bk)
    also have "\<dots> = mbit ws (p + rs)"
      unfolding src using i rs by (auto simp: bit_simps ac_simps dest: bit_imp_le_length)
    finally show ?thesis .
  next
    case False
    then have kk: "k = n - 1" using kn by simp
    then have "i + rs < 64" using p pk by simp
    moreover have "b ! k = ws ! k" "k < length b" using bk False kn n by (simp_all add: b_def)
    then have "mbit (b[n - 1 := drop_bit rs (b ! (n - 1))]) p = bit (drop_bit rs (ws ! k)) i"
      unfolding kk [symmetric] mbit_def k_def [symmetric] i_def [symmetric] by simp
    ultimately show ?thesis unfolding src by (simp add: bit_simps ac_simps)
  qed
qed


lemma make_sub_ok:
  assumes "febitvec_inv y" and "febitvec_make_sub e y beg len = Inr v"
  shows "febitvec_inv v" and "bvec v = take len (drop beg (bvec y))"
proof -
  have "febitvec_inv v \<and> bvec v = take len (drop beg (bvec y))"
  proof (cases "len = 0")
    case True
    then have "v = febitvec_empty"
      using assms(2) by (auto simp: febitvec_make_sub_def split: if_splits)
    with True show ?thesis by (simp add: febitvec_empty_def febitvec_inv_def bldata_def bvec_def)
  next
    case False
    define b where "b = beg div 64"
    define rs where "rs = beg mod 64"
    define n where "n = (beg + len + 64 - 1) div 64 - b"
    define src where "src = take n (drop b (bldata y))"
    have le: "beg + len \<le> m_size y" using assms(2) by (auto simp: febitvec_make_sub_def split: if_splits)
    have beg: "beg = 64 * b + rs" "rs < 64" by (simp_all add: b_def rs_def)
    have up: "beg + len \<le> 64 * ((beg + len + 64 - 1) div 64)" "64 * ((beg + len + 64 - 1) div 64) < beg + len + 64"
      using align_up_ge [of 64 "beg + len"] align_up_less [of 64 "beg + len"]
      by (simp_all add: align_up_def mult.commute)
    have n: "0 < n" "len + rs \<le> 64 * n" "b + n \<le> length (bldata y)"
      using up beg False le febitvec_invD(1) [OF assms(1)] unfolding n_def by linarith+
    have ls: "length src = n" using n(3) by (simp add: src_def)
    have msrc: "mbit src p = mbit (bldata y) (64 * b + p)" if "p < 64 * n" for p
      using that n(3) by (simp add: src_def mbit_def div_less_iff_less_mult mult.commute)
    have cap: "align_up (64 * n) 64 = 64 * n" "64 * n div 64 = n" by (simp_all add: align_up_def)
    define q where "q = (if rs \<noteq> 0 then let bs = shift_right_loop rs src 0 (n - 1)
                         in bs[n - 1 := drop_bit rs (bs ! (n - 1))] else src)"
    have v: "v = \<lparr>m_words = Some q, m_size = len, m_capacity = 64 * n\<rparr>"
      using assms(2) False le unfolding febitvec_make_sub_def Let_def b_def [symmetric] n_def [symmetric] cap
        rs_def [symmetric] q_def src_def
      by (simp split: if_splits)
    have lq: "length q = n" using ls by (simp add: q_def Let_def)
    have "mbit q p = mbit (bldata y) (beg + p)" if "p < len" for p
    proof (cases "rs = 0")
      case True
      with that n(2) beg(1) show ?thesis by (simp add: q_def msrc)
    next
      case rs: False
      then have "mbit q p = mbit src (p + rs)"
        using mbit_shifted [of rs n src p] beg(2) ls n that by (simp add: q_def Let_def)
      with that n(2) beg(1) show ?thesis by (simp add: msrc ac_simps)
    qed
    with v lq n(2) le show ?thesis
      by (auto simp: febitvec_inv_def bldata_def intro!: bvec_eqI)
  qed
  then show "febitvec_inv v" and "bvec v = take len (drop beg (bvec y))" by simp_all
qed

section \<open>The padding constructor\<close>

lemma bit_padding_word:
  assumes "0 < k" and "k < 64"
  shows "bit (mask k - 1 :: u64) i \<longleftrightarrow> 0 < i \<and> i < k"
proof -
  have "mask k = (mask k AND NOT 1) + (1 :: u64)"
    using assms by (subst disjunctive_add) (auto simp: bit_simps word64_eq_iff)
  then have "mask k - 1 = mask k AND NOT (1 :: u64)" by (metis add_diff_cancel_right')
  then show ?thesis using assms by (auto simp: bit_simps)
qed

lemma make_sub_range: "febitvec_make_sub e y beg len = Inl Out_of_range \<longleftrightarrow> m_size y < beg + len"
  by (simp add: febitvec_make_sub_def Let_def)

section \<open>Properties of the queries\<close>

text \<open>\<open>popcnt\<close> is the number of set bits of the vector, and the block version counts whole words.\<close>

theorem febitvec_popcnt_counts:
  "febitvec_popcnt v = length (filter id (bvec v))
    \<and> febitvec_popcnt_blocks v blstart blcnt
      = cnt (mbit (bldata v)) (64 * (blstart + blcnt)) - cnt (mbit (bldata v)) (64 * blstart)"
proof
  have "filter id (bvec v) = map (\<lambda>_. True) (filter (mbit (bldata v)) [0..<m_size v])"
    by (simp add: bvec_def filter_map comp_def)
  then show "febitvec_popcnt v = length (filter id (bvec v))" by (simp add: popcnt_cnt cnt_def)
  show "febitvec_popcnt_blocks v blstart blcnt
      = cnt (mbit (bldata v)) (64 * (blstart + blcnt)) - cnt (mbit (bldata v)) (64 * blstart)"
    using mem_bits.popcnt_loop_cnt [of blstart "blstart + blcnt" "bldata v" 0]
    by (simp add: febitvec_popcnt_blocks_def)
qed

lemma run_len_min:
  assumes "p \<le> n" and "n \<le> N"
  shows "min (run_len f p N) (n - p) = run_len f p n"
proof (rule sym, rule run_len_eqI)
  show "f (p + i)" if "i < min (run_len f p N) (n - p)" for i using that by (auto intro: run_len_sat)
  show "\<not> f (p + min (run_len f p N) (n - p))" if "p + min (run_len f p N) (n - p) < n"
  proof -
    have "min (run_len f p N) (n - p) = run_len f p N" using that by (auto simp: min_def split: if_splits)
    with that assms show ?thesis using run_len_stop [of p f N] by simp
  qed
qed (use assms in auto)

lemma run_len_cong: "(\<And>i. i < n \<Longrightarrow> f i = g i) \<Longrightarrow> run_len f p n = run_len g p n"
  unfolding run_len_def by (rule arg_cong [where f = length], rule takeWhile_cong) auto

lemma run_revlen_cong: "(\<And>i. i < p \<Longrightarrow> f i = g i) \<Longrightarrow> run_revlen f p = run_revlen g p"
  unfolding run_revlen_def by (rule arg_cong [where f = length], rule takeWhile_cong) auto

text \<open>Run lengths: \<open>one_seq_len\<close> and \<open>zero_seq_len\<close>, cut at the end of the vector, are the lengths of
  the runs of ones and zeros that start at the position; \<open>one_seq_revlen\<close> and \<open>zero_seq_revlen\<close> are
  the lengths of the runs that end before it.\<close>

theorem febitvec_runs_correct:
  assumes "febitvec_inv v" and "bitpos < m_size v" and "endpos \<le> m_size v"
  shows "min (febitvec_one_seq_len v bitpos) (m_size v - bitpos) = run_len ((!) (bvec v)) bitpos (m_size v)
    \<and> min (febitvec_zero_seq_len v bitpos) (m_size v - bitpos) = run_len (\<lambda>i. \<not> bvec v ! i) bitpos (m_size v)
    \<and> febitvec_one_seq_revlen v endpos = run_revlen ((!) (bvec v)) endpos
    \<and> febitvec_zero_seq_revlen v endpos = run_revlen (\<lambda>i. \<not> bvec v ! i) endpos"
proof -
  have n: "m_size v \<le> 64 * febitvec_num_words v" by (rule num_words_bounds [OF assms(1)])
  have p: "bitpos < 64 * febitvec_num_words v" "bitpos \<le> m_size v" using n assms(2) by simp_all
  have "run_len ((!) (bvec v)) bitpos (m_size v) = run_len (mbit (bldata v)) bitpos (m_size v)"
    "run_len (\<lambda>i. \<not> bvec v ! i) bitpos (m_size v) = run_len (\<lambda>i. \<not> mbit (bldata v) i) bitpos (m_size v)"
    by (rule run_len_cong; simp)+
  moreover have "run_revlen ((!) (bvec v)) endpos = run_revlen (mbit (bldata v)) endpos"
    "run_revlen (\<lambda>i. \<not> bvec v ! i) endpos = run_revlen (\<lambda>i. \<not> mbit (bldata v) i) endpos"
    using assms(3) by (intro run_revlen_cong; simp)+
  ultimately show ?thesis
    by (simp only: one_seq_len_run [OF p(1)] zero_seq_len_run [OF p(1)] one_seq_revlen_run zero_seq_revlen_run
      run_len_min [OF p(2) n])
qed

theorem febitvec_runs_correct_witness:
  "min (febitvec_one_seq_len \<lparr>m_words = Some [- 1, 7], m_size = 66, m_capacity = 128\<rparr> 3) (66 - 3)
     = run_len ((!) (bvec \<lparr>m_words = Some [- 1, 7], m_size = 66, m_capacity = 128\<rparr>)) 3 66"
  using febitvec_runs_correct [of "\<lparr>m_words = Some [- 1, 7], m_size = 66, m_capacity = 128\<rparr>" 3 3]
  by (simp add: febitvec_inv_def bldata_def)


text \<open>\<open>isall0\<close> and \<open>isall1\<close> decide whether all bits of the vector are equal.\<close>

theorem febitvec_isall_correct:
  "(febitvec_isall0 v \<longleftrightarrow> bvec v = replicate (m_size v) False)
    \<and> (febitvec_isall1 v \<longleftrightarrow> bvec v = replicate (m_size v) True)"
  by (auto simp: isall0_iff isall1_iff list_eq_iff_nth_eq)

text \<open>The operators \<open>-=\<close>, \<open>^=\<close>, \<open>&=\<close> and \<open>|=\<close> on vectors of one size act bit by bit.\<close>

theorem febitvec_operators_bitwise:
  assumes "febitvec_inv x" and "febitvec_inv y" and "m_size x = m_size y"
  shows "bvec (febitvec_diff x y) = map2 (\<lambda>a b. a \<and> \<not> b) (bvec x) (bvec y)
    \<and> bvec (febitvec_xor x y) = map2 (\<noteq>) (bvec x) (bvec y)
    \<and> bvec (febitvec_and x y) = map2 (\<and>) (bvec x) (bvec y)
    \<and> bvec (febitvec_or x y) = map2 (\<or>) (bvec x) (bvec y)"
  unfolding febitvec_diff_def febitvec_xor_def febitvec_and_def febitvec_or_def
  by (intro conjI conjunct2 [OF bvec_zip [OF assms]]) (auto simp: bit_simps)

theorem febitvec_operators_bitwise_witness:
  "bvec (febitvec_xor \<lparr>m_words = Some [6], m_size = 4, m_capacity = 64\<rparr> \<lparr>m_words = Some [3], m_size = 4, m_capacity = 64\<rparr>)
    = map2 (\<noteq>) (bvec \<lparr>m_words = Some [6], m_size = 4, m_capacity = 64\<rparr>) (bvec \<lparr>m_words = Some [3], m_size = 4, m_capacity = 64\<rparr>)"
  using febitvec_operators_bitwise [of "\<lparr>m_words = Some [6], m_size = 4, m_capacity = 64\<rparr>"
      "\<lparr>m_words = Some [3], m_size = 4, m_capacity = 64\<rparr>"]
  by (simp add: febitvec_inv_def bldata_def)

text \<open>Copies: the copy constructor and \<open>shrink_to_fit\<close> keep the bits, and the sub-range constructor
  yields the requested slice; it throws \<open>out_of_range\<close> exactly when the range leaves the source.\<close>

theorem febitvec_copies_correct:
  assumes "febitvec_inv y"
  shows "(\<forall>v. febitvec_copy e y = Inr v \<longrightarrow> febitvec_inv v \<and> bvec v = bvec y)
    \<and> (\<forall>v. febitvec_shrink_to_fit e y = Some v \<longrightarrow> febitvec_inv v \<and> bvec v = bvec y)
    \<and> (\<forall>v. febitvec_make_sub e y beg len = Inr v \<longrightarrow> febitvec_inv v \<and> bvec v = take len (drop beg (bvec y)))
    \<and> (febitvec_make_sub e y beg len = Inl Out_of_range \<longleftrightarrow> m_size y < beg + len)"
  using copy_ok [OF assms] shrink_ok [OF assms] make_sub_ok [OF assms]
  by (simp add: make_sub_range)

theorem febitvec_copies_correct_witness:
  "febitvec_make_sub env0 \<lparr>m_words = Some [3, 5], m_size = 100, m_capacity = 128\<rparr> 90 11 = Inl Out_of_range"
  using febitvec_copies_correct [of "\<lparr>m_words = Some [3, 5], m_size = 100, m_capacity = 128\<rparr>" env0 90 11]
  by (simp add: febitvec_inv_def bldata_def)

text \<open>The constructor \<open>febitvec(bits, val, padding)\<close> does not build a vector of \<open>bits\<close> copies of
  \<open>val\<close> when the padding differs from \<open>val\<close>: the first bit of the last word is inverted. Shown for vectors
  of less than a word.\<close>

theorem febitvec_make_padding_inverts:
  assumes "0 < bits" and "bits < 64" and "padding \<noteq> val" and "febitvec_make_padding e bits val padding = Inr v"
  shows "bvec v = (\<not> val) # replicate (bits - 1) val"
proof -
  have c: "grow_cap 64 bits = 64" using assms(2) by (subst grow_cap.simps) simp
  have n: "(bits + 64 - 1) div 64 = 1" using assms(1,2) by (intro div_nat_eqI) simp_all
  have q: "m_size v = bits" "bldata v ! 0 =
      (if padding then NOT (drop_bit (64 - bits) (- 1) - 1) else drop_bit (64 - bits) (- 1) - 1)"
    using assms by (auto simp: febitvec_make_padding_def febitvec_resize_no_init_def febitvec_empty_def
      realloc_words_def bldata_def upd_words_def febitvec_num_words_def c n [simplified] Let_def split: if_splits)
  have b: "mbit (bldata v) i = (if i = 0 then \<not> val else val)" if "i < bits" for i
    using that assms(1-3) by (cases padding) (auto simp: mbit_def q bit_padding_word bit_not_iff)
  show ?thesis
    using assms(1) by (intro bvec_eqI) (auto simp: q(1) b nth_Cons split: nat.split)
qed

theorem febitvec_make_padding_inverts_witness:
  "\<exists>v. febitvec_make_padding env0 3 True False = Inr v \<and> bvec v = [False, True, True]"
proof -
  obtain v where v: "febitvec_make_padding env0 3 True False = Inr v"
    using resize_no_init_total [of env0 3 febitvec_empty]
    by (auto simp: febitvec_make_padding_def env0_def Let_def)
  from febitvec_make_padding_inverts [OF _ _ _ this] have "bvec v = [False, True, True]"
    by (simp add: numeral_2_eq_2)
  with v show ?thesis by blast
qed

lemma run_len_less_iff: "p \<le> n \<Longrightarrow> p + run_len f p n < n \<longleftrightarrow> (\<exists>q. p \<le> q \<and> q < n \<and> \<not> f q)"
proof
  assume "p + run_len f p n < n"
  then show "\<exists>q. p \<le> q \<and> q < n \<and> \<not> f q" using run_len_stop by (intro exI [of _ "p + run_len f p n"]) simp
next
  assume "p \<le> n" "\<exists>q. p \<le> q \<and> q < n \<and> \<not> f q"
  then obtain q where q: "p \<le> q" "q < n" "\<not> f q" by blast
  have "\<not> q - p < run_len f p n" using run_len_sat [of "q - p" f p n] q by auto
  with q show "p + run_len f p n < n" by linarith
qed

lemma ex_zero_word:
  "(\<exists>q. 64 * j \<le> q \<and> q < 64 * n \<and> \<not> mbit ws q) \<longleftrightarrow> (\<exists>k. j \<le> k \<and> k < n \<and> ws ! k \<noteq> - 1)"
proof
  assume "\<exists>q. 64 * j \<le> q \<and> q < 64 * n \<and> \<not> mbit ws q"
  then obtain q where q: "64 * j \<le> q" "q < 64 * n" "\<not> mbit ws q" by blast
  then have "j \<le> q div 64" "q div 64 < n" "ws ! (q div 64) \<noteq> - 1"
    by (auto simp: less_eq_div_iff_mult_less_eq div_less_iff_less_mult mult.commute mbit_def)
  then show "\<exists>k. j \<le> k \<and> k < n \<and> ws ! k \<noteq> - 1" by blast
next
  assume "\<exists>k. j \<le> k \<and> k < n \<and> ws ! k \<noteq> - 1"
  then obtain k where k: "j \<le> k" "k < n" "ws ! k \<noteq> - 1" by blast
  then obtain i where i: "i < 64" "\<not> bit (ws ! k) i" by (auto simp: word64_eq_iff)
  then have "\<not> mbit ws (64 * k + i)" by (simp add: mem_bits.f_word)
  moreover have "64 * j \<le> 64 * k + i" "64 * k + i < 64 * n" using k i by simp_all
  ultimately show "\<exists>q. 64 * j \<le> q \<and> q < 64 * n \<and> \<not> mbit ws q" by blast
qed

lemma fast_seq_loop_none: "(\<And>k. j \<le> k \<Longrightarrow> k < length bits \<Longrightarrow> bits ! k = - 1) \<Longrightarrow> fast_seq_loop bits j acc = None"
  by (induction bits j acc rule: fast_seq_loop.induct) (subst fast_seq_loop.simps, simp add: Let_def)

lemma fast_seq_loop_run:
  assumes "j \<le> length bits"
  shows "fast_seq_loop bits j acc =
    (if 64 * j + run_len (mbit bits) (64 * j) (64 * length bits) < 64 * length bits
     then Some (acc + run_len (mbit bits) (64 * j) (64 * length bits)) else None)"
proof -
  have le: "64 * j \<le> 64 * length bits" using assms by simp
  have run: "seq_len_loop (\<lambda>j. NOT (bits ! j)) j (length bits) acc = acc + run_len (mbit bits) (64 * j) (64 * length bits)"
    using mem_bits0.seq_len_loop_run [OF assms, of bits acc] by simp
  show ?thesis
    unfolding run_len_less_iff [OF le] ex_zero_word
    using fast_seq_loop_none [of j bits acc] fast_seq_loop_len [of j _ bits acc] run by auto
qed

text \<open>\<open>fast_one_seq_len\<close>, which is not told where the array ends, returns the length of the run when
  a zero bit follows it inside the array, and otherwise reads past the end.\<close>

theorem febitvec_fast_one_seq_len_correct:
  assumes "p < 64 * length bits"
  shows "febitvec_fast_one_seq_len bits p =
    (if \<exists>q. p \<le> q \<and> q < 64 * length bits \<and> \<not> mbit bits q then Some (run_len (mbit bits) p (64 * length bits))
     else None)"
proof (cases "p mod 64 = 0")
  case True
  then have p: "64 * (p div 64) = p" by (rule word_start)
  from True assms show ?thesis
    unfolding febitvec_fast_one_seq_len_def run_len_less_iff [symmetric, OF less_imp_le [OF assms]]
    by (simp add: fast_seq_loop_run [OF wi_le_words [OF assms]] p)
next
  case False
  define d where "d = p div 64"
  define off where "off = p mod 64"
  define x where "x = bits ! d"
  define z where "z = drop_bit off (NOT x)"
  define R where "R = run_len (mbit bits) p (64 * length bits)"
  have off: "0 < off" "off < 64" using False by (simp_all add: off_def)
  have pe: "p + (64 - off) = 64 * (d + 1)" unfolding off_def d_def by (rule word_end)
  have dl: "d + 1 \<le> length bits" using assms by (simp add: d_def Suc_le_eq div_less_iff_less_mult mult.commute)
  have R: "R = (if z \<noteq> 0 then fast_ctz z else (64 - off) + run_len (mbit bits) (64 * (d + 1)) (64 * length bits))"
    using mem_bits0.zero_run [OF assms, of bits] mem_bits0.seq_len_loop_run [OF dl, of bits "64 - off"]
    unfolding R_def z_def x_def off_def d_def by simp
  have mb: "mbit bits p = bit x off" by (simp add: mbit_def x_def d_def off_def)
  have fast: "febitvec_fast_one_seq_len bits p =
      (if \<not> bit x off then Some 0 else if z \<noteq> 0 then Some (fast_ctz z) else fast_seq_loop bits (d + 1) (64 - off))"
    using False ctz_not_shift [OF off, of x]
    unfolding febitvec_fast_one_seq_len_def Let_def and_push_bit_0 d_def [symmetric] off_def [symmetric]
      x_def [symmetric] z_def by auto
  have "z \<noteq> 0 \<Longrightarrow> p + R < 64 * length bits"
    using ctz_not_shift(2) [OF off, of x] pe dl by (simp add: R z_def)
  moreover have "\<not> bit x off \<Longrightarrow> R = 0" unfolding R_def using assms by (intro run_len_here) (simp_all add: mb)
  moreover have "z = 0 \<Longrightarrow> p + R = 64 * (d + 1) + run_len (mbit bits) (64 * (d + 1)) (64 * length bits)"
    using pe by (simp add: R)
  ultimately show ?thesis
    unfolding run_len_less_iff [symmetric, OF less_imp_le [OF assms]] R_def [symmetric] fast fast_seq_loop_run [OF dl]
    using assms by (auto simp: R)
qed

theorem febitvec_fast_one_seq_len_correct_witness:
  "febitvec_fast_one_seq_len [- 1, 7] 60 =
    (if \<exists>q. 60 \<le> q \<and> q < 64 * length [- 1 :: u64, 7] \<and> \<not> mbit [- 1, 7] q
     then Some (run_len (mbit [- 1, 7]) 60 (64 * length [- 1 :: u64, 7])) else None)"
  by (rule febitvec_fast_one_seq_len_correct) simp

end
