(* ===== verification/RankSelectLines.thy ===== *)
theory RankSelectLines
  imports FebitvecQuery
begin

text \<open>
  What the sources of the rank/select structures repeat, shared by their models: the overflow check
  of \<open>rank_select_basic.hpp\<close>, the decision trees that find the word of a line (four words in
  \<open>rank_select_se_256\<close> and \<open>rank_select_il_256\<close>, eight in \<open>rank_select_se_512\<close>), the scan of the words of a
  line, and the three searches for a line. They are related to \<open>sel\<close> in the locales \<open>word_bits\<close> and
  \<open>rank_lines\<close>.
\<close>

section \<open>Definitions\<close>

text \<open>\<open>rank_select_check_overflow(SIZE, >, TYPE)\<close>: the size must fit in 32 bits.\<close>

definition rank_select_check_overflow :: "nat \<Rightarrow> bool" where
  "rank_select_check_overflow sz \<longleftrightarrow> 2 ^ 32 - 1 < sz"

text \<open>\<open>for (i = 0; i < LineWords; ++i) { upper = hit + popcount(bits[i]); if (rank < upper) return
  i * WordBits + UintSelect1(bits[i], rank - hit); hit = upper; }\<close>; \<open>None\<close> when the loop ends.\<close>

function word_select_loop :: "(nat \<Rightarrow> u64) \<Rightarrow> nat \<Rightarrow> nat \<Rightarrow> nat \<Rightarrow> nat \<Rightarrow> nat option" where
  "word_select_loop bits rank hit i n =
     (if i < n then
        let bm = bits i; upper = hit + fast_popcount bm in
        if rank < upper then Some (i * 64 + UintSelect1 bm (rank - hit))
        else word_select_loop bits rank upper (Suc i) n
      else None)"
  by pat_completeness auto
termination
  by (relation "measure (\<lambda>(bits, rank, hit, i, n). n - i)") auto

declare word_select_loop.simps [simp del]

text \<open>The part of \<open>build_cache\<close> that fills the select caches, the same in all structures: the cache for zeros
  at \<open>select_index\<close> when it is asked for, then the cache for ones. \<open>v m k\<close> is the rank stored for line \<open>k\<close>,
  \<open>lim\<close> the number of entries of the rank cache that lie in the block, \<open>q0\<close> and \<open>q1\<close> the ranks per slot.\<close>

definition build_selects ::
  "nat \<Rightarrow> nat \<Rightarrow> nat \<Rightarrow> (u64 list \<Rightarrow> nat \<Rightarrow> nat) \<Rightarrow> nat \<Rightarrow> nat \<Rightarrow> nat \<Rightarrow> nat \<Rightarrow> nat \<Rightarrow> bool \<Rightarrow> bool \<Rightarrow> u64 list
   \<Rightarrow> error + u64 list \<times> nat option \<times> nat option"
where
  "build_selects L q0 q1 v lim nlines select_index select0_slots select1_slots speed_select0 speed_select1 m =
     (case (if speed_select0
            then build_sel (\<lambda>m k. k * L - v m k) q0 lim select0_slots nlines select_index m
            else Inr m) of
        Inl err \<Rightarrow> Inl err
      | Inr m \<Rightarrow>
          let sel0 = (if speed_select0 then Some select_index else None);
              select_index = (if speed_select0 then select_index + (select0_slots + 1) else select_index)
          in case (if speed_select1
                   then build_sel v q1 lim select1_slots nlines select_index m
                   else Inr m) of
               Inl err \<Rightarrow> Inl err
             | Inr m \<Rightarrow> Inr (m, sel0, if speed_select1 then Some select_index else None))"

text \<open>\<open>uint64_t flags = size << 8 | speed_select1 << 1 | speed_select0\<close>\<close>

definition rs_flags :: "nat \<Rightarrow> bool \<Rightarrow> bool \<Rightarrow> u64" where
  "rs_flags sz speed_select0 speed_select1 =
     push_bit 8 (word_of_nat sz) OR push_bit 1 (of_bool speed_select1) OR push_bit 0 (of_bool speed_select0)"

text \<open>The decision tree over the four words of a line: \<open>lev2 j\<close> is the count before word \<open>j\<close>.\<close>

definition line4_select1 :: "(nat \<Rightarrow> nat) \<Rightarrow> (nat \<Rightarrow> u64) \<Rightarrow> nat \<Rightarrow> nat \<Rightarrow> nat \<Rightarrow> nat" where
  "line4_select1 lev2 bit64 Rank1 hit index =
     (if Rank1 < hit + lev2 2 then
        if Rank1 < hit + lev2 1 then index + UintSelect1 (bit64 0) (Rank1 - hit)
        else index + 64 * 1 + UintSelect1 (bit64 1) (Rank1 - (hit + lev2 1))
      else if Rank1 < hit + lev2 3 then index + 64 * 2 + UintSelect1 (bit64 2) (Rank1 - (hit + lev2 2))
      else index + 64 * 3 + UintSelect1 (bit64 3) (Rank1 - (hit + lev2 3)))"

definition line4_select0 :: "(nat \<Rightarrow> nat) \<Rightarrow> (nat \<Rightarrow> u64) \<Rightarrow> nat \<Rightarrow> nat \<Rightarrow> nat \<Rightarrow> nat" where
  "line4_select0 lev2 bit64 Rank0 hit index =
     (if Rank0 < hit + 64 * 2 - lev2 2 then
        if Rank0 < hit + 64 * 1 - lev2 1 then index + UintSelect1 (NOT (bit64 0)) (Rank0 - hit)
        else index + 64 * 1 + UintSelect1 (NOT (bit64 1)) (Rank0 - (hit + 64 * 1 - lev2 1))
      else if Rank0 < hit + 64 * 3 - lev2 3
      then index + 64 * 2 + UintSelect1 (NOT (bit64 2)) (Rank0 - (hit + 64 * 2 - lev2 2))
      else index + 64 * 3 + UintSelect1 (NOT (bit64 3)) (Rank0 - (hit + 64 * 3 - lev2 3)))"

text \<open>The same over the eight words of a line of 512 bits.\<close>

definition line8_select1 :: "(nat \<Rightarrow> nat) \<Rightarrow> (nat \<Rightarrow> u64) \<Rightarrow> nat \<Rightarrow> nat \<Rightarrow> nat \<Rightarrow> nat" where
  "line8_select1 rank512 pBit64 Rank1 hit line_bitpos =
     (let select1_nth64 = (\<lambda>n. line_bitpos + 64 * n + UintSelect1 (pBit64 n) (Rank1 - (hit + rank512 n))) in
      if Rank1 < hit + rank512 4 then
        if Rank1 < hit + rank512 2 then
          if Rank1 < hit + rank512 1 then line_bitpos + UintSelect1 (pBit64 0) (Rank1 - hit) else select1_nth64 1
        else
          if Rank1 < hit + rank512 3 then select1_nth64 2 else select1_nth64 3
      else
        if Rank1 < hit + rank512 6 then
          if Rank1 < hit + rank512 5 then select1_nth64 4 else select1_nth64 5
        else
          if Rank1 < hit + rank512 7 then select1_nth64 6 else select1_nth64 7)"

definition line8_select0 :: "(nat \<Rightarrow> nat) \<Rightarrow> (nat \<Rightarrow> u64) \<Rightarrow> nat \<Rightarrow> nat \<Rightarrow> nat \<Rightarrow> nat" where
  "line8_select0 rank512 pBit64 Rank0 hit line_bitpos =
     (let select0_nth64 = (\<lambda>n. line_bitpos + 64 * n
            + UintSelect1 (NOT (pBit64 n)) (Rank0 - (hit + 64 * n - rank512 n))) in
      if Rank0 < hit + 64 * 4 - rank512 4 then
        if Rank0 < hit + 64 * 2 - rank512 2 then
          if Rank0 < hit + 64 * 1 - rank512 1
          then line_bitpos + UintSelect1 (NOT (pBit64 0)) (Rank0 - hit) else select0_nth64 1
        else
          if Rank0 < hit + 64 * 3 - rank512 3 then select0_nth64 2 else select0_nth64 3
      else
        if Rank0 < hit + 64 * 6 - rank512 6 then
          if Rank0 < hit + 64 * 5 - rank512 5 then select0_nth64 4 else select0_nth64 5
        else
          if Rank0 < hit + 64 * 7 - rank512 7 then select0_nth64 6 else select0_nth64 7)"

text \<open>\<open>agree m m' B\<close>: the blocks, of any lengths, have the same first \<open>B\<close> bits.\<close>

definition agree :: "u64 list \<Rightarrow> u64 list \<Rightarrow> nat \<Rightarrow> bool" where
  "agree m m' B \<longleftrightarrow> (\<forall>p < B. mbit m' p = mbit m p)"

section \<open>Selection within a line\<close>

lemma line4_select0_compl:
  assumes "\<And>j. j < 4 \<Longrightarrow> lev2 j \<le> 64 * j"
  shows "line4_select0 lev2 W r hit index = line4_select1 (\<lambda>j. 64 * j - lev2 j) (\<lambda>j. NOT (W j)) r hit index"
  using assms [of 1] assms [of 2] assms [of 3]
  by (simp add: line4_select0_def line4_select1_def)

lemma line8_select0_compl:
  assumes "\<And>j. j < 8 \<Longrightarrow> rk j \<le> 64 * j"
  shows "line8_select0 rk W r hit index = line8_select1 (\<lambda>j. 64 * j - rk j) (\<lambda>j. NOT (W j)) r hit index"
  using assms [of 1] assms [of 2] assms [of 3] assms [of 4] assms [of 5] assms [of 6] assms [of 7]
  by (simp add: line8_select0_def line8_select1_def Let_def)

context word_bits
begin

text \<open>The word of a line that the level-2 counts lead to holds the wanted bit.\<close>

lemma select_in_sub:
  assumes hit: "hit = cnt f (64 * w)" and l2: "\<And>j. j < n \<Longrightarrow> lev2 j = cnt f (64 * (w + j)) - cnt f (64 * w)"
    and j: "j < n" "hit + lev2 j \<le> r" and u: "if j + 1 < n then r < hit + lev2 (j + 1) else r < cnt f (64 * w + 64 * n)"
    and N: "r < cnt f N"
  shows "64 * w + 64 * j + UintSelect1 (W (w + j)) (r - (hit + lev2 j)) = sel f N r"
proof -
  have e: "hit + lev2 i = cnt f (64 * (w + i))" if "i < n" for i
    using hit l2 [OF that] cnt_mono [of "64 * w" "64 * (w + i)" f] by simp
  have "r < cnt f (64 * (w + j) + 64)"
  proof (cases "j + 1 < n")
    case True
    then have "r < cnt f (64 * (w + (j + 1)))" using u e by simp
    then show ?thesis by (simp add: algebra_simps)
  next
    case False
    then have "n = j + 1" using j(1) by simp
    with u show ?thesis by (simp add: algebra_simps)
  qed
  with select_in_word [of "w + j" r N] e [OF j(1)] j(2) N show ?thesis by (simp add: algebra_simps)
qed

lemma line4_select1_sel:
  assumes "hit = cnt f (64 * w)" and "\<And>j. j < 4 \<Longrightarrow> lev2 j = cnt f (64 * (w + j)) - cnt f (64 * w)"
    and "cnt f (64 * w) \<le> r" and "r < cnt f (64 * w + 256)" and "r < cnt f N"
  shows "line4_select1 lev2 (\<lambda>j. W (w + j)) r hit (64 * w) = sel f N r"
proof -
  have s: "64 * w + 64 * j + UintSelect1 (W (w + j)) (r - (hit + lev2 j)) = sel f N r"
    if "j < 4" "hit + lev2 j \<le> r" "if j + 1 < 4 then r < hit + lev2 (j + 1) else r < cnt f (64 * w + 64 * 4)" for j
    using that by (intro select_in_sub [OF assms(1,2) _ _ _ assms(5)]) auto
  have l0: "lev2 0 = 0" using assms(2) [of 0] by simp
  show ?thesis
    using s [of 0] s [of 1] s [of 2] s [of 3] assms(1,3,4) l0 unfolding line4_select1_def by (simp add: numeral_2_eq_2 [symmetric])
qed

lemma word_select_loop_sel:
  assumes "i \<le> n" and "hit = cnt f (64 * (w + i))" and "hit \<le> r" and "r < cnt f (64 * (w + n))" and "r < cnt f N"
  shows "\<exists>p. word_select_loop (\<lambda>j. W (w + j)) r hit i n = Some p \<and> 64 * w + p = sel f N r"
  using assms(1-3)
proof (induction "n - i" arbitrary: i hit)
  case 0
  then show ?case using assms(4) by simp
next
  case (Suc d)
  then have i: "i < n" by simp
  have e: "64 * (w + Suc i) = 64 * (w + i) + 64" by simp
  define upper where "upper = hit + fast_popcount (W (w + i))"
  have u: "upper = cnt f (64 * (w + Suc i))" unfolding e upper_def Suc.prems(2) by (rule cnt_next [symmetric])
  show ?case
  proof (cases "r < upper")
    case True
    then have "64 * (w + i) + UintSelect1 (W (w + i)) (r - hit) = sel f N r"
      using select_in_word [of "w + i" r N] Suc.prems(2,3) assms(5) u e by (simp add: ac_simps)
    with True i show ?thesis
      by (subst word_select_loop.simps) (simp add: Let_def upper_def algebra_simps)
  next
    case False
    then have "\<exists>p. word_select_loop (\<lambda>j. W (w + j)) r upper (Suc i) n = Some p \<and> 64 * w + p = sel f N r"
      using Suc i u by (intro Suc.hyps(1)) simp_all
    with False i show ?thesis
      by (subst word_select_loop.simps) (simp add: Let_def upper_def)
  qed
qed

lemma line8_select1_sel:
  assumes "hit = cnt f (64 * w)" and "\<And>j. j < 8 \<Longrightarrow> rk j = cnt f (64 * (w + j)) - cnt f (64 * w)"
    and "cnt f (64 * w) \<le> r" and "r < cnt f (64 * w + 512)" and "r < cnt f N"
  shows "line8_select1 rk (\<lambda>j. W (w + j)) r hit (64 * w) = sel f N r"
proof -
  have s: "64 * w + 64 * j + UintSelect1 (W (w + j)) (r - (hit + rk j)) = sel f N r"
    if "j < 8" "hit + rk j \<le> r" "if j + 1 < 8 then r < hit + rk (j + 1) else r < cnt f (64 * w + 64 * 8)" for j
    using that by (intro select_in_sub [OF assms(1,2) _ _ _ assms(5)]) auto
  have l0: "rk 0 = 0" using assms(2) [of 0] by simp
  have low: ?thesis if "r < hit + rk 4"
    using that s [of 0] s [of 1] s [of 2] s [of 3] assms(1,3) l0 unfolding line8_select1_def Let_def by (simp add: numeral_2_eq_2 [symmetric])
  have high: ?thesis if "\<not> r < hit + rk 4"
    using that s [of 4] s [of 5] s [of 6] s [of 7] assms(4) unfolding line8_select1_def Let_def by (simp add: numeral_2_eq_2 [symmetric])
  show ?thesis using low high by blast
qed

end

section \<open>The searches for a line\<close>

context rank_lines
begin

text \<open>The three ways in which the sources look for the line of the \<open>r\<close>-th bit: over all lines, in the
  bracket of the select cache by binary search, and there by a linear scan.\<close>

lemma global_ub:
  assumes "invar s" and "r < v s (nlines s)" and "nlines s \<le> hi" and "hi \<le> Suc (nlines s)"
  defines "k \<equiv> ub_loop (v s) r 0 hi"
  shows "0 < k" and "k \<le> nlines s" and "v s (k - 1) \<le> r" and "r < v s k"
  using ub_line [of s 0 r "nlines s" hi] assms by simp_all

lemma top_rank: "invar s \<Longrightarrow> r < cnt (f s) n \<Longrightarrow> n \<le> L * nlines s \<Longrightarrow> r < v s (nlines s)"
  using cnt_mono [of n "L * nlines s" "f s"] by (simp add: v_rank)

lemma line_found:
  assumes "invar s" and "0 < k" and "k \<le> nlines s" and "v s (k - 1) \<le> r" and "r < v s k"
  shows "v s (k - 1) = cnt (f s) (L * (k - 1))" and "cnt (f s) (L * (k - 1)) \<le> r"
    and "r < cnt (f s) (L * (k - 1) + L)"
  using line_cnt [OF assms] assms(3) by (simp_all add: v_rank [OF assms(1)])

lemma cached_ub:
  assumes "invar s" and "sel_cache_ok (v s) q (nlines s) slots c" and "0 < q" and "r < q * slots"
    and "r < v s (nlines s)"
  defines "k \<equiv> ub_loop (v s) r (c (r div q)) (c (r div q + 1))"
  shows "0 < k" and "k \<le> nlines s" and "v s (k - 1) \<le> r" and "r < v s k"
  using ub_line [of s "c (r div q)" r "c (r div q + 1)" "c (r div q + 1)"] sel_cache_bracket [OF assms(2-5)]
    assms(1) by (simp_all add: k_def)

lemma cached_scan:
  assumes "invar s" and "sel_cache_ok (v s) q (nlines s) slots c" and "0 < q" and "r < q * slots"
    and "r < v s (nlines s)" and "nlines s < lim"
  shows "\<exists>k. scan_while (\<lambda>i. v s i \<le> r) (c (r div q)) lim = Some k
    \<and> 0 < k \<and> k \<le> nlines s \<and> v s (k - 1) \<le> r \<and> r < v s k"
  using scan_line [of s "c (r div q)" r "c (r div q + 1)" lim] sel_cache_bracket [OF assms(2-5)] assms(1,6) by simp

end

lemma ceil_div_bound: "0 < q \<Longrightarrow> r < n \<Longrightarrow> r < q * ((n + q - 1) div q)" for q r n :: nat
  using align_up_ge [of q n] by (simp add: align_up_def mult.commute)

section \<open>Geometry of lines\<close>

lemma lines256:
  fixes n defines "k \<equiv> align_up n 256 div 256"
  shows "align_up n 256 = 256 * k" and "align_up n 256 div 64 = 4 * k" and "(n + 256 - 1) div 256 = k" and "n \<le> 256 * k"
    and "256 * k < n + 256"
proof -
  show e: "align_up n 256 = 256 * k" unfolding k_def by (rule align_up_lines)
  have "256 * k = (4 * k) * 64" by simp
  then show "align_up n 256 div 64 = 4 * k" unfolding e by (metis nonzero_mult_div_cancel_right zero_neq_numeral)
  show "(n + 256 - 1) div 256 = k" by (simp add: k_def align_up_def)
  show "n \<le> 256 * k" "256 * k < n + 256"
    unfolding e [symmetric] by (rule align_up_ge, simp, rule align_up_less, simp)
qed

lemma div_64_256: "p div 256 = p div 64 div (4::nat)"
  by (simp add: div_mult2_eq [symmetric])

lemma line_word: "p div 256 * 256 div 64 = 4 * (p div 256)" for p :: nat
proof -
  have "p div 256 * 256 = (4 * (p div 256)) * 64" by simp
  then show ?thesis by (metis nonzero_mult_div_cancel_right zero_neq_numeral)
qed

lemma shrink_total: "(\<And>n. realloc_ok e n) \<Longrightarrow> \<exists>v'. febitvec_shrink_to_fit e v = Some v'"
  by (cases "m_words v") (auto simp: febitvec_shrink_to_fit_def realloc_words_def Let_def)

lemma env0_ok: "realloc_ok env0 n"
  by (simp add: env0_def)

section \<open>Blocks that agree on a prefix\<close>

lemma agree_mbit: "agree m m' B \<Longrightarrow> p < B \<Longrightarrow> mbit m' p = mbit m p"
  by (simp add: agree_def)

lemma agree_mono: "agree m m' B \<Longrightarrow> A \<le> B \<Longrightarrow> agree m m' A"
  by (simp add: agree_def)

lemma agree_trans: "agree m m' B \<Longrightarrow> agree m' m'' B \<Longrightarrow> agree m m'' B"
  by (simp add: agree_def)

lemma agree_cnt: "agree m m' B \<Longrightarrow> n \<le> B \<Longrightarrow> cnt (mbit m') n = cnt (mbit m) n"
  by (rule cnt_cong) (simp add: agree_def)

lemma agree_get32: "agree m m' B \<Longrightarrow> 32 * i + 32 \<le> B \<Longrightarrow> get32 m' i = get32 m i"
  by (rule bit_word_eqI) (simp add: bit_views agree_def)

lemma agree_get8: "agree m m' B \<Longrightarrow> 8 * i + 8 \<le> B \<Longrightarrow> get8 m' i = get8 m i"
  by (rule bit_word_eqI) (simp add: bit_views agree_def)

lemma agree_nth: "agree m m' B \<Longrightarrow> 64 * i + 64 \<le> B \<Longrightarrow> m' ! i = m ! i"
  by (rule bit_word_eqI) (simp add: mem_bits.f_word [symmetric] agree_def)

lemma same_except_agree: "same_except m m' a b \<Longrightarrow> agree m m' a"
  by (simp add: agree_def same_except_mbit)

lemma agree_nthI: "(\<And>i. i < n \<Longrightarrow> m' ! i = m ! i) \<Longrightarrow> agree m m' (64 * n)"
  by (simp add: agree_def mbit_def div_less_iff_less_mult mult.commute)

lemma sel_cache_ok_cong:
  assumes "\<And>k. k \<le> N \<Longrightarrow> v k = v' k" and "\<And>j. j \<le> slots \<Longrightarrow> c j = c' j"
  shows "sel_cache_ok v q N slots c = sel_cache_ok v' q N slots c'"
proof -
  have "sel_slot_ok v q N j k = sel_slot_ok v' q N j k" for j k
    unfolding sel_slot_ok_def using assms(1) by auto
  then show ?thesis unfolding sel_cache_ok_def using assms(2) by auto
qed

text \<open>The second \<open>reserve\<close> of the structures with a separate rank cache grows the block behind the rank cache. It keeps the whole block
  unless Valgrind is detected, when it clears every word behind the bits.\<close>

lemma reserve_keeps:
  assumes "febitvec_inv v" and "\<not> hasValgrind e" and "febitvec_reserve e n v = Inr v'"
  shows "agree (bldata v) (bldata v') (64 * length (bldata v))"
proof (rule agree_nthI)
  fix i assume i: "i < length (bldata v)"
  have c: "m_capacity v < align_up n 64 \<Longrightarrow> i < align_up n 64 div 8 div 8"
    using i febitvec_invD(2) [OF assms(1)] by (simp add: div_mult2_eq [symmetric] less_eq_div_iff_mult_less_eq Suc_le_eq [symmetric])
  show "bldata v' ! i = bldata v ! i"
    using assms(2,3) i c by (auto simp: febitvec_reserve_def Let_def nth_realloc split: if_splits option.splits)
qed

lemma even_slots: "(a :: nat) \<le> (a + 1) div 2 * 2"
  by (cases "even a") (auto elim!: evenE oddE)

lemma slots_top: "j < (n + q - 1) div q \<Longrightarrow> q * j < n" for n q j :: nat
proof -
  assume j: "j < (n + q - 1) div q"
  then have "0 < q" by (cases q) simp_all
  from j have "q * Suc j \<le> q * ((n + q - 1) div q)" by (intro mult_le_mono2) simp
  also have "\<dots> < n + q" using align_up_less [OF \<open>0 < q\<close>, of n] by (simp add: align_up_def mult.commute)
  finally show ?thesis by simp
qed

section \<open>Both select caches and the flags\<close>

lemma build_selects_ok:
  fixes select_index slots0 :: nat and s0 :: bool
  defines "c1 \<equiv> select_index + (if s0 then slots0 + 1 else 0)"
  assumes room: "c1 + (if s1 then slots1 + 1 else 0) \<le> 2 * length m"
    and frame: "\<And>m' k. same_except m m' (32 * select_index) (64 * length m) \<Longrightarrow> k \<le> N \<Longrightarrow> v m' k = v m k"
    and nl: "N < lim" "N < 2 ^ 32"
    and top: "\<And>j. j < slots0 \<Longrightarrow> q0 * j \<le> L * N - v m N" "\<And>j. j < slots1 \<Longrightarrow> q1 * j \<le> v m N"
  shows "\<exists>m'. build_selects L q0 q1 v lim N select_index slots0 slots1 s0 s1 m
      = Inr (m', if s0 then Some select_index else None, if s1 then Some c1 else None)
    \<and> same_except m m' (32 * select_index) (32 * (c1 + (if s1 then slots1 + 1 else 0)))
    \<and> (s0 \<longrightarrow> sel_cache_ok (\<lambda>k. L * k - v m k) q0 N slots0 (\<lambda>j. unat (get32 m' (select_index + j))))
    \<and> (s1 \<longrightarrow> sel_cache_ok (v m) q1 N slots1 (\<lambda>j. unat (get32 m' (c1 + j))))"
proof -
  define e where "e = 32 * (c1 + (if s1 then slots1 + 1 else 0))"
  have e: "32 * c1 \<le> e" "e \<le> 64 * length m" using room by (simp_all add: e_def)
  have c1: "select_index \<le> c1" by (simp add: c1_def)
  have comm: "(\<lambda>k. k * L - v m k) = (\<lambda>k. L * k - v m k)" by (simp add: mult.commute)
  obtain m1 where m1: "(if s0 then build_sel (\<lambda>m k. k * L - v m k) q0 lim slots0 N select_index m else Inr m) = Inr m1"
    "same_except m m1 (32 * select_index) (32 * c1)"
    "s0 \<Longrightarrow> sel_cache_ok (\<lambda>k. L * k - v m k) q0 N slots0 (\<lambda>j. unat (get32 m1 (select_index + j)))"
  proof (cases s0)
    case True
    then have "select_index + slots0 < 2 * length m" using room by (simp add: c1_def)
    then have "\<exists>m'. build_sel (\<lambda>m k. k * L - v m k) q0 lim slots0 N select_index m = Inr m'
        \<and> same_except m m' (32 * select_index) (32 * (select_index + slots0) + 32)
        \<and> sel_cache_ok (\<lambda>k. k * L - v m k) q0 N slots0 (\<lambda>j. unat (get32 m' (select_index + j)))"
    proof (rule build_sel_ok)
      show "k * L - v m' k = k * L - v m k"
        if "same_except m m' (32 * select_index) (32 * (select_index + slots0) + 32)" "k \<le> N" for m' k
        using frame [OF same_except_widen [OF that(1)] that(2)] True e by (simp add: c1_def)
    qed (use nl top(1) in \<open>simp_all add: mult.commute\<close>)
    with True that show ?thesis unfolding comm by (auto simp: c1_def ac_simps)
  qed (use that in auto)
  have fr1: "v m1 k = v m k" if "k \<le> N" for k
    using frame [OF same_except_widen [OF m1(2)]] e that by simp
  have l1: "length m1 = length m" by (rule same_except_length [OF m1(2)])
  obtain m2 where m2: "(if s1 then build_sel v q1 lim slots1 N c1 m1 else Inr m1) = Inr m2"
    "same_except m1 m2 (32 * c1) e" "s1 \<Longrightarrow> sel_cache_ok (v m1) q1 N slots1 (\<lambda>j. unat (get32 m2 (c1 + j)))"
  proof (cases s1)
    case True
    then have "c1 + slots1 < 2 * length m1" using room by (simp add: l1)
    then have "\<exists>m'. build_sel v q1 lim slots1 N c1 m1 = Inr m'
        \<and> same_except m1 m' (32 * c1) (32 * (c1 + slots1) + 32)
        \<and> sel_cache_ok (v m1) q1 N slots1 (\<lambda>j. unat (get32 m' (c1 + j)))"
    proof (rule build_sel_ok)
      show "v m' k = v m1 k" if "same_except m1 m' (32 * c1) (32 * (c1 + slots1) + 32)" "k \<le> N" for m' k
      proof -
        have "same_except m m' (32 * select_index) (64 * length m)"
          using e c1 True by (intro same_except_trans [OF same_except_widen [OF m1(2)] same_except_widen [OF that(1)]]) (simp_all add: e_def)
        from frame [OF this that(2)] fr1 [OF that(2)] show ?thesis by simp
      qed
    qed (use nl top(2) fr1 in auto)
    with True that show ?thesis by (auto simp: e_def ac_simps)
  qed (use that in auto)
  have sm: "same_except m m2 (32 * select_index) e"
    using e c1 by (intro same_except_trans [OF same_except_widen [OF m1(2)] same_except_widen [OF m2(2)]]) simp_all
  have g0: "get32 m2 (select_index + j) = get32 m1 (select_index + j)" if s0 "j \<le> slots0" for j
    using that by (intro same_except_get32 [OF m2(2)]) (simp add: c1_def)
  have ok0: "s0 \<Longrightarrow> sel_cache_ok (\<lambda>k. L * k - v m k) q0 N slots0 (\<lambda>j. unat (get32 m2 (select_index + j)))"
    using m1(3) g0 by (auto simp: sel_cache_ok_def)
  have ok1: "s1 \<Longrightarrow> sel_cache_ok (v m) q1 N slots1 (\<lambda>j. unat (get32 m2 (c1 + j)))"
    using m2(3) fr1 by (auto simp: sel_cache_ok_def sel_slot_ok_def)
  have c1': "(if s0 then select_index + (slots0 + 1) else select_index) = c1" by (simp add: c1_def)
  have "build_selects L q0 q1 v lim N select_index slots0 slots1 s0 s1 m
      = Inr (m2, if s0 then Some select_index else None, if s1 then Some c1 else None)"
    unfolding build_selects_def m1(1) by (simp only: sum.case Let_def c1' m2(1))
  with sm ok0 ok1 show ?thesis unfolding e_def [symmetric] by blast
qed

lemma rs_flags_size: "sz < 2 ^ 56 \<Longrightarrow> unat (drop_bit 8 (rs_flags sz s0 s1)) = sz"
proof -
  assume sz: "sz < 2 ^ 56"
  have "drop_bit 8 (rs_flags sz s0 s1) = take_bit 56 (word_of_nat sz)"
    by (rule bit_word_eqI) (auto simp: rs_flags_def bit_simps)
  then have "unat (drop_bit 8 (rs_flags sz s0 s1)) = take_bit 56 (unat (word_of_nat sz :: u64))"
    by (simp add: unsigned_take_bit_eq)
  also have "unat (word_of_nat sz :: u64) = sz" using sz by (simp add: unat_of_nat)
  finally show ?thesis using sz by (simp add: take_bit_nat_eq_self)
qed

lemma rs_flags_bits: "bit (rs_flags sz s0 s1) 0 = s0" "bit (rs_flags sz s0 s1) 1 = s1"
  by (simp_all add: rs_flags_def bit_simps)


text \<open>The caches and then the flags in the last word, as every \<open>build_cache\<close> ends: the rank cache in front is
  kept and the select caches are right for it.\<close>

lemma build_selects_flags:
  fixes select_index slots0 :: nat and s0 :: bool and fl :: u64
  defines "c1 \<equiv> select_index + (if s0 then slots0 + 1 else 0)"
  assumes room: "c1 + (if s1 then slots1 + 1 else 0) + 2 \<le> 2 * length m"
    and frame: "\<And>m' k. agree m m' (32 * select_index) \<Longrightarrow> k \<le> N \<Longrightarrow> v m' k = v m k"
    and nl: "N < lim" "N < 2 ^ 32"
    and top: "\<And>j. j < slots0 \<Longrightarrow> q0 * j \<le> L * N - v m N" "\<And>j. j < slots1 \<Longrightarrow> q1 * j \<le> v m N"
  shows "\<exists>m5 m6. build_selects L q0 q1 v lim N select_index slots0 slots1 s0 s1 m
      = Inr (m5, if s0 then Some select_index else None, if s1 then Some c1 else None)
    \<and> m6 = m5[length m - 1 := fl] \<and> length m6 = length m \<and> agree m m6 (32 * select_index) \<and> m6 ! (length m - 1) = fl
    \<and> (s0 \<longrightarrow> sel_cache_ok (\<lambda>k. L * k - v m6 k) q0 N slots0 (\<lambda>j. unat (get32 m6 (select_index + j))))
    \<and> (s1 \<longrightarrow> sel_cache_ok (v m6) q1 N slots1 (\<lambda>j. unat (get32 m6 (c1 + j))))"
proof -
  define cend where "cend = c1 + (if s1 then slots1 + 1 else 0)"
  have cend: "cend + 2 \<le> 2 * length m" using room by (simp add: cend_def)
  have rm: "select_index + (if s0 then slots0 + 1 else 0) + (if s1 then slots1 + 1 else 0) \<le> 2 * length m"
    using room by (simp add: c1_def)
  have frame': "v m' k = v m k" if "same_except m m' (32 * select_index) (64 * length m)" "k \<le> N" for m' k
    by (rule frame [OF same_except_agree [OF that(1)] that(2)])
  obtain m5 where m5: "build_selects L q0 q1 v lim N select_index slots0 slots1 s0 s1 m
      = Inr (m5, if s0 then Some select_index else None, if s1 then Some c1 else None)"
    "same_except m m5 (32 * select_index) (32 * cend)"
    "s0 \<longrightarrow> sel_cache_ok (\<lambda>k. L * k - v m k) q0 N slots0 (\<lambda>j. unat (get32 m5 (select_index + j)))"
    "s1 \<longrightarrow> sel_cache_ok (v m) q1 N slots1 (\<lambda>j. unat (get32 m5 (c1 + j)))"
    using build_selects_ok [where v = v and m = m, OF rm frame' nl top(1) top(2)]
    unfolding c1_def [symmetric] cend_def [symmetric] by blast
  define m6 where "m6 = m5[length m - 1 := fl]"
  have l5: "length m5 = length m" by (rule same_except_length [OF m5(2)])
  have s56: "same_except m5 m6 (64 * (length m - 1)) (64 * (length m - 1) + 64)" unfolding m6_def by (rule same_except_update)
  have c56: "32 * cend \<le> 64 * (length m - 1)" using cend by linarith
  have ag: "agree m m6 (32 * select_index)"
  proof (rule agree_trans)
    show "agree m m5 (32 * select_index)" by (rule same_except_agree [OF m5(2)])
    show "agree m5 m6 (32 * select_index)"
      by (rule agree_mono [OF same_except_agree [OF s56]]) (use c56 in \<open>simp add: cend_def c1_def\<close>)
  qed
  have g: "get32 m6 j = get32 m5 j" if "j < cend" for j
    using c56 that by (intro same_except_get32 [OF s56]) simp
  have v6: "v m6 k = v m k" if "k \<le> N" for k by (rule frame [OF ag that])
  have "s0 \<longrightarrow> sel_cache_ok (\<lambda>k. L * k - v m6 k) q0 N slots0 (\<lambda>j. unat (get32 m6 (select_index + j)))"
  proof
    assume s0
    then have "sel_cache_ok (\<lambda>k. L * k - v m6 k) q0 N slots0 (\<lambda>j. unat (get32 m6 (select_index + j)))
        = sel_cache_ok (\<lambda>k. L * k - v m k) q0 N slots0 (\<lambda>j. unat (get32 m5 (select_index + j)))"
      by (intro sel_cache_ok_cong) (simp_all add: v6 g cend_def c1_def)
    with m5(3) \<open>s0\<close> show "sel_cache_ok (\<lambda>k. L * k - v m6 k) q0 N slots0 (\<lambda>j. unat (get32 m6 (select_index + j)))" by simp
  qed
  moreover have "s1 \<longrightarrow> sel_cache_ok (v m6) q1 N slots1 (\<lambda>j. unat (get32 m6 (c1 + j)))"
  proof
    assume s1
    then have "sel_cache_ok (v m6) q1 N slots1 (\<lambda>j. unat (get32 m6 (c1 + j)))
        = sel_cache_ok (v m) q1 N slots1 (\<lambda>j. unat (get32 m5 (c1 + j)))"
      by (intro sel_cache_ok_cong) (simp_all add: v6 g cend_def)
    with m5(4) \<open>s1\<close> show "sel_cache_ok (v m6) q1 N slots1 (\<lambda>j. unat (get32 m6 (c1 + j)))" by simp
  qed
  moreover have "length m6 = length m" "m6 ! (length m - 1) = fl" using l5 cend by (simp_all add: m6_def)
  ultimately show ?thesis using m5(1) m6_def ag by blast
qed

section \<open>The end of \<open>build_cache\<close>\<close>

lemma agree_refl: "agree m m B"
  by (simp add: agree_def)

lemma reserved_slots:
  fixes l a l' :: nat
  assumes "64 * l + 32 * ((a + 1) div 2 * 2 + 2) \<le> 64 * l'"
  shows "2 * l + a + 2 \<le> 2 * l'"
proof -
  define x where "x = (a + 1) div 2 * 2"
  have "a \<le> x" unfolding x_def by (rule even_slots)
  moreover have "32 * (2 * l + x + 2) \<le> 32 * (2 * l')" using assms by (simp add: x_def algebra_simps)
  then have "2 * l + x + 2 \<le> 2 * l'" by (simp only: mult_le_cancel1)
  ultimately show ?thesis by linarith
qed

text \<open>The block of \<open>v3\<close> holds the bits and, below \<open>select_index\<close>, the rank cache, whose entries \<open>v\<close> reads. It
  grows by the select caches and one word for the flags; \<open>F\<close> is what is done to the new part before
  the caches are written.\<close>

lemma build_index_ok:
  fixes s0 s1 :: bool
  assumes inv: "febitvec_inv v3" and nv: "\<not> hasValgrind e"
    and v4: "febitvec_reserve e (m_capacity v3 + 32 * (((if s0 then slots0 + 1 else 0) + (if s1 then slots1 + 1 else 0) + 1) div 2 * 2 + 2)) v3 = Inr v4"
    and F: "length (F (bldata v4)) = length (bldata v4)" "agree (bldata v4) (F (bldata v4)) (32 * si)"
    and si: "si \<le> 2 * length (bldata v3)"
    and frame: "\<And>m m' k. agree m m' (32 * si) \<Longrightarrow> k \<le> N \<Longrightarrow> v m' k = v m k"
    and nl: "N < lim" "N < 2 ^ 32"
    and R: "v (bldata v3) N = R" "R \<le> n" "n \<le> L * N"
    and sl: "slots0 = (n - R + L - 1) div L" "slots1 = (R + L - 1) div L"
  defines "c1 \<equiv> si + (if s0 then slots0 + 1 else 0)"
  shows "\<exists>m5 m6. build_selects L L L v lim N si slots0 slots1 s0 s1 (F (bldata v4))
      = Inr (m5, if s0 then Some si else None, if s1 then Some c1 else None)
    \<and> m6 = m5[m_capacity v4 div 64 - 1 := fl] \<and> length m6 = length (bldata v4) \<and> agree (bldata v3) m6 (32 * si)
    \<and> last m6 = fl \<and> febitvec_inv (v4\<lparr>m_words := Some m6\<rparr>) \<and> si < 2 * length m6
    \<and> (s0 \<longrightarrow> sel_cache_ok (\<lambda>k. L * k - v m6 k) L N slots0 (\<lambda>j. unat (get32 m6 (si + j))))
    \<and> (s1 \<longrightarrow> sel_cache_ok (v m6) L N slots1 (\<lambda>j. unat (get32 m6 (c1 + j))))"
proof -
  define m where "m = F (bldata v4)"
  note r4 = reserve_ok [OF inv v4]
  have cap3: "m_capacity v3 = 64 * length (bldata v3)" using febitvec_invD(2) [OF inv] by simp
  have cap4: "m_capacity v4 = 64 * length m" using febitvec_invD(2) [OF r4(1)] F(1) by (simp add: m_def)
  have rm: "c1 + (if s1 then slots1 + 1 else 0) + 2 \<le> 2 * length m"
    using reserved_slots [OF r4(4) [unfolded cap3 cap4]] si by (simp add: c1_def)
  have ag: "agree (bldata v3) m (32 * si)"
  proof -
    have "agree (bldata v3) (bldata v4) (32 * si)"
      by (rule agree_mono [OF reserve_keeps [OF inv nv v4]]) (use si in simp)
    with F(2) show ?thesis by (simp add: agree_def m_def)
  qed
  have vN: "v m N = R" using frame [OF ag order_refl] R(1) by simp
  have top0: "L * j \<le> L * N - v m N" if "j < slots0" for j
    using slots_top [OF that [unfolded sl]] R(2,3) unfolding vN by simp
  have top1: "L * j \<le> v m N" if "j < slots1" for j using slots_top [OF that [unfolded sl]] unfolding vN by simp
  obtain m5 m6 where b: "build_selects L L L v lim N si slots0 slots1 s0 s1 m = Inr (m5, if s0 then Some si else None, if s1 then Some c1 else None)"
    and m6: "m6 = m5[length m - 1 := fl]" "length m6 = length m" "agree m m6 (32 * si)" "m6 ! (length m - 1) = fl"
    and ok: "s0 \<longrightarrow> sel_cache_ok (\<lambda>k. L * k - v m6 k) L N slots0 (\<lambda>j. unat (get32 m6 (si + j)))"
      "s1 \<longrightarrow> sel_cache_ok (v m6) L N slots1 (\<lambda>j. unat (get32 m6 (c1 + j)))"
    using build_selects_flags [where v = v and m = m and fl = fl, OF rm [unfolded c1_def] frame nl top0 top1]
    unfolding c1_def by blast
  have "last m6 = fl" using m6(2,4) rm by (cases "m6 = []") (simp_all add: last_conv_nth)
  moreover have "agree (bldata v3) m6 (32 * si)" using ag m6(3) by (simp add: agree_def)
  moreover have "febitvec_inv (v4\<lparr>m_words := Some m6\<rparr>)" using r4(1) m6(2) F(1) by (simp add: febitvec_inv_def m_def)
  moreover have "m6 = m5[m_capacity v4 div 64 - 1 := fl]" using m6(1) by (simp add: cap4)
  moreover have "si < 2 * length m6" using rm unfolding m6(2) c1_def by simp
  moreover have "length m6 = length (bldata v4)" using m6(2) F(1) by (simp add: m_def)
  ultimately show ?thesis using b ok unfolding m_def by blast
qed

text \<open>Copying the whole block of a vector into a fresh one of the same capacity.\<close>

lemma copy_block:
  assumes inv: "febitvec_inv y" and ws: "m_words y = Some m" and ne: "m \<noteq> []"
    and v: "febitvec_reserve e (m_capacity y) febitvec_empty = Inr v"
  shows "upd_words (\<lambda>ws. take (m_capacity y div 64) m @ drop (m_capacity y div 64) ws) (v\<lparr>m_size := m_size y\<rparr>) = y"
proof -
  have cap: "m_capacity y = 64 * length m" using inv ws by (simp add: febitvec_inv_def bldata_def)
  have e: "febitvec_inv febitvec_empty" by (simp add: febitvec_inv_def febitvec_empty_def bldata_def)
  note r = reserve_ok [OF e v]
  have cv: "m_capacity v = 64 * length m" using r(5) cap by (simp add: align_up_def febitvec_empty_def)
  have lv: "length (bldata v) = length m" using r(1) cv by (simp add: febitvec_inv_def)
  obtain ws' where wv: "m_words v = Some ws'" using lv ne by (cases "m_words v") (auto simp: bldata_def)
  have "length ws' = length m" using lv wv by (simp add: bldata_def)
  then show ?thesis using ws wv cap cv by (cases y) (simp add: upd_words_def)
qed

text \<open>Growing under \<open>g_Terark_hasValgrind\<close> zero-fills every word past the bits.\<close>

lemma reserve_zeroes:
  assumes inv: "febitvec_inv v" and hv: "hasValgrind e" and n: "m_capacity v < n" and v': "febitvec_reserve e n v = Inr v'"
    and i: "m_size v \<le> 64 * i" "i < length (bldata v)"
  shows "bldata v' ! i = 0" and "m_capacity v' = align_up n 64"
proof -
  have lt: "m_capacity v < align_up n 64" using n align_up_ge [of 64 n] by simp
  obtain q where q: "realloc_words e (bldata v) (align_up n 64 div 8) = Some q"
    and e: "v' = v\<lparr>m_words := Some (fst (fill_words 0 q ((m_size v + 64 - 1) div 64) (align_up n 64 div 64))), m_capacity := align_up n 64\<rparr>"
    using v' hv lt by (auto simp: febitvec_reserve_def Let_def split: option.splits)
  show "m_capacity v' = align_up n 64" by (simp add: e)
  have c: "m_capacity v = 64 * length (bldata v)" using febitvec_invD(2) [OF inv] .
  have "(m_size v + 64 - 1) div 64 \<le> (64 * i + 64 - 1) div 64" by (rule div_le_mono) (use i(1) in simp)
  also have "\<dots> = i" by simp
  finally have lo: "(m_size v + 64 - 1) div 64 \<le> i" .
  have d8: "align_up n 64 div 8 div 8 = align_up n 64 div 64" by (simp add: div_mult2_eq [symmetric])
  have le: "length (bldata v) \<le> align_up n 64 div 64" using div_le_mono [of "64 * length (bldata v)" "align_up n 64" 64] lt c by simp
  have "length q = align_up n 64 div 64" using length_realloc [OF q] le by (simp add: d8)
  with lo le i(2) show "bldata v' ! i = 0" by (simp add: e nth_fill_words)
qed

section \<open>The search of the queries\<close>

context rank_lines
begin

text \<open>The member functions search the bracket of the select cache when there is one and all lines otherwise; the
  static functions scan a short bracket and bisect a long one.\<close>

lemma member_search:
  assumes "invar s" and "\<And>c. sc = Some c \<Longrightarrow> sel_cache_ok (v s) q (nlines s) slots (g c)" and "0 < q" and "r < q * slots"
    and "r < v s (nlines s)" and "nlines s \<le> h" and "h \<le> Suc (nlines s)"
    and "(lo, hi) = (case sc of Some c \<Rightarrow> (g c (r div q), g c (r div q + 1)) | None \<Rightarrow> (0, h))"
  defines "k \<equiv> ub_loop (v s) r lo hi"
  shows "0 < k" and "k \<le> nlines s" and "v s (k - 1) \<le> r" and "r < v s k"
proof -
  have "0 < k \<and> k \<le> nlines s \<and> v s (k - 1) \<le> r \<and> r < v s k"
  proof (cases sc)
    case None
    then show ?thesis using assms(8) global_ub [OF assms(1,5,6,7)] by (simp add: k_def)
  next
    case (Some c)
    then show ?thesis using assms(8) cached_ub [OF assms(1) assms(2) [OF Some] assms(3-5)] by (simp add: k_def)
  qed
  then show "0 < k" and "k \<le> nlines s" and "v s (k - 1) \<le> r" and "r < v s k" by blast+
qed

lemma static_search:
  assumes "invar s" and "sel_cache_ok (v s) q (nlines s) slots c" and "0 < q" and "r < q * slots"
    and "r < v s (nlines s)" and "nlines s < lim"
  shows "\<exists>k. (if b then scan_while (\<lambda>i. v s i \<le> r) (c (r div q)) lim
      else Some (ub_loop (v s) r (c (r div q)) (c (r div q + 1)))) = Some k
    \<and> 0 < k \<and> k \<le> nlines s \<and> v s (k - 1) \<le> r \<and> r < v s k"
  using cached_scan [OF assms] cached_ub [OF assms(1-5)] by (cases b) simp_all

end

end
