(* ===== verification/RankSelectSimple.thy ===== *)
theory RankSelectSimple
  imports RankSelectLines
begin

text \<open>
  \<open>rank_select_simple\<close>, \<open>rank_select_allzero\<close> and \<open>rank_select_allone\<close> of
  \<open>src/src/terark/succinct/rank_select_simple.hpp\<close> and \<open>.cpp\<close>. The first keeps one 32-bit rank per line of 256 bits in the
  tail of the block of its bit vector; the pointer \<open>m_rank_cache\<close> is the index of a \<open>uint32_t\<close> of
  that block. The other two store only a size.
\<close>

section \<open>The structure\<close>

record rank_select_simple =
  simple_bits :: febitvec
  simple_rank_cache :: "nat option"
  simple_max_rank0 :: nat
  simple_max_rank1 :: nat

definition simple_with :: "febitvec \<Rightarrow> rank_select_simple" where
  "simple_with v = \<lparr>simple_bits = v, simple_rank_cache = None, simple_max_rank0 = 0, simple_max_rank1 = 0\<rparr>"

definition simple_make :: "env \<Rightarrow> nat \<Rightarrow> bool \<Rightarrow> error + rank_select_simple" where
  "simple_make e n val =
     (case febitvec_make e n val of
        Inl err \<Rightarrow> Inl err
      | Inr v \<Rightarrow> if rank_select_check_overflow (m_size v) then Inl Length_error else Inr (simple_with v))"

text \<open>The two constructors below check \<open>m_size\<close>, which is still 0, and not \<open>n\<close>.\<close>

definition simple_make_no_init :: "env \<Rightarrow> nat \<Rightarrow> error + rank_select_simple" where
  "simple_make_no_init e n =
     (if rank_select_check_overflow (m_size febitvec_empty) then Inl Length_error
      else case febitvec_resize_no_init e n febitvec_empty of
          Inl err \<Rightarrow> Inl err | Inr v \<Rightarrow> Inr (simple_with v))"

definition simple_make_reserve :: "env \<Rightarrow> nat \<Rightarrow> error + rank_select_simple" where
  "simple_make_reserve e n =
     (if rank_select_check_overflow (m_size febitvec_empty) then Inl Length_error
      else case febitvec_reserve e n febitvec_empty of
          Inl err \<Rightarrow> Inl err | Inr v \<Rightarrow> Inr (simple_with v))"

definition simple_copy :: "env \<Rightarrow> rank_select_simple \<Rightarrow> error + rank_select_simple" where
  "simple_copy e y =
     (case febitvec_reserve e (m_capacity (simple_bits y)) febitvec_empty of
        Inl err \<Rightarrow> Inl err
      | Inr v \<Rightarrow>
          let v = v\<lparr>m_size := m_size (simple_bits y)\<rparr>;
              n = m_capacity (simple_bits y) div 64;
              v = upd_words (\<lambda>ws. take n (bldata (simple_bits y)) @ drop n ws) v
          in Inr (if simple_rank_cache y \<noteq> None
                  then \<lparr>simple_bits = v, simple_rank_cache = Some (2 * febitvec_num_words v),
                        simple_max_rank0 = simple_max_rank0 y, simple_max_rank1 = simple_max_rank1 y\<rparr>
                  else simple_with v))"

definition simple_clear :: "rank_select_simple \<Rightarrow> rank_select_simple" where
  "simple_clear s = simple_with (febitvec_clear (simple_bits s))"

definition simple_risk_release_ownership :: "rank_select_simple \<Rightarrow> rank_select_simple" where
  "simple_risk_release_ownership s = simple_with (febitvec_risk_release_ownership (simple_bits s))"

text \<open>The moving constructor and assignment copy the members and release the source.\<close>

definition simple_move :: "rank_select_simple \<Rightarrow> rank_select_simple \<times> rank_select_simple" where
  "simple_move y = (y, simple_risk_release_ownership y)"

definition simple_swap :: "rank_select_simple \<Rightarrow> rank_select_simple \<Rightarrow> rank_select_simple \<times> rank_select_simple" where
  "simple_swap x y =
     (let (bx, by') = febitvec_swap (simple_bits x) (simple_bits y) in
      (\<lparr>simple_bits = bx, simple_rank_cache = simple_rank_cache y,
        simple_max_rank0 = simple_max_rank0 y, simple_max_rank1 = simple_max_rank1 y\<rparr>,
       \<lparr>simple_bits = by', simple_rank_cache = simple_rank_cache x,
        simple_max_rank0 = simple_max_rank0 x, simple_max_rank1 = simple_max_rank1 x\<rparr>))"

text \<open>\<open>base\<close> is the mapped memory, \<open>len\<close> its size in bytes.\<close>

definition simple_risk_mmap_from :: "u64 list \<Rightarrow> nat \<Rightarrow> rank_select_simple" where
  "simple_risk_mmap_from base len =
     (let bits = unat (get32 base (len div 4 - 1));
          ceiled_bits = align_up bits 256;
          c = 2 * (ceiled_bits div 64);
          r1 = unat (get32 base (c + ceiled_bits div 256))
      in \<lparr>simple_bits = \<lparr>m_words = Some base, m_size = bits, m_capacity = len * 8\<rparr>,
          simple_rank_cache = Some c, simple_max_rank0 = size_sub bits r1, simple_max_rank1 = r1\<rparr>)"

section \<open>Building the cache\<close>

text \<open>\<open>for (i = 0; i < nlines; ++i) { cache[i] = Rank1; for (j = 0; j < LineWords; ++j)
  Rank1 += popcount(bits[i*LineWords + j]); }\<close>; the cache is at index \<open>c\<close> of the same block.\<close>

function simple_fill :: "nat \<Rightarrow> nat \<Rightarrow> nat \<Rightarrow> nat \<Rightarrow> u64 list \<Rightarrow> u64 list \<times> nat" where
  "simple_fill c nlines i Rank1 m =
     (if i < nlines then
        let m = set32 m (c + i) (word_of_nat Rank1);
            Rank1 = popcnt_loop ((!) m) (i * 4) (i * 4 + 4) Rank1
        in simple_fill c nlines (Suc i) Rank1 m
      else (m, Rank1))"
  by pat_completeness auto
termination
  by (relation "measure (\<lambda>(c, nlines, i, Rank1, m). nlines - i)") auto

declare simple_fill.simps [simp del]

definition simple_build_cache :: "env \<Rightarrow> rank_select_simple \<Rightarrow> error + rank_select_simple" where
  "simple_build_cache e s =
     (let v = simple_bits s in
      if rank_select_check_overflow (m_size v) then Inl Length_error
      else if m_words v = None then Inr s
      else
        let ceiled_bits = align_up (m_size v) 256; nlines = ceiled_bits div 256 in
        case febitvec_shrink_to_fit e v of
          None \<Rightarrow> Inl Abort
        | Some v \<Rightarrow>
            (case febitvec_reserve e (ceiled_bits + 32 * (nlines + 2)) v of
               Inl err \<Rightarrow> Inl err
             | Inr v \<Rightarrow>
                 let m = bits_range_set0 (bldata v) (m_size v) ceiled_bits;
                     c = 2 * (ceiled_bits div 64);
                     (m, Rank1) = simple_fill c nlines 0 0 m;
                     m = set32 m (c + nlines) (word_of_nat Rank1);
                     m = set32 m (m_capacity v div 32 - 1) (word_of_nat (m_size v))
                 in Inr (s\<lparr>simple_bits := v\<lparr>m_words := Some m\<rparr>, simple_rank_cache := Some c,
                           simple_max_rank1 := Rank1, simple_max_rank0 := size_sub (m_size v) Rank1\<rparr>)))"

section \<open>Queries\<close>

definition simple_size :: "rank_select_simple \<Rightarrow> nat" where
  "simple_size s = m_size (simple_bits s)"

definition simple_mem_size :: "rank_select_simple \<Rightarrow> nat" where
  "simple_mem_size s = m_capacity (simple_bits s) div 8"

definition simple_is1 :: "rank_select_simple \<Rightarrow> nat \<Rightarrow> bool" where
  "simple_is1 s i = febitvec_is1 (simple_bits s) i"

text \<open>The static functions take the pointers; both point into the block \<open>bits\<close>.\<close>

definition simple_fast_rank1 :: "u64 list \<Rightarrow> nat \<Rightarrow> nat \<Rightarrow> nat" where
  "simple_fast_rank1 bits rankCache bitpos =
     (let line_wordpos = bitpos div 256 * 256 div 64;
          line_word_idxupp = bitpos div 64;
          rank = unat (get32 bits (rankCache + bitpos div 256));
          rank = popcnt_loop ((!) bits) line_wordpos line_word_idxupp rank
      in if bitpos mod 64 \<noteq> 0 then rank + fast_popcount_trail (bits ! line_word_idxupp) (bitpos mod 64) else rank)"

definition simple_fast_rank0 :: "u64 list \<Rightarrow> nat \<Rightarrow> nat \<Rightarrow> nat" where
  "simple_fast_rank0 bits rankCache bitpos = size_sub bitpos (simple_fast_rank1 bits rankCache bitpos)"

definition simple_fast_select0 :: "u64 list \<Rightarrow> nat \<Rightarrow> nat \<Rightarrow> nat \<Rightarrow> error + nat" where
  "simple_fast_select0 bits sel0 rankCache rank = Inl Invalid_argument"

definition simple_fast_select1 :: "u64 list \<Rightarrow> nat \<Rightarrow> nat \<Rightarrow> nat \<Rightarrow> error + nat" where
  "simple_fast_select1 bits sel1 rankCache rank = Inl Invalid_argument"

definition simple_rank1 :: "rank_select_simple \<Rightarrow> nat \<Rightarrow> nat" where
  "simple_rank1 s bitpos =
     (let bits = bldata (simple_bits s);
          line_wordpos = bitpos div 256 * 256 div 64;
          line_word_idxupp = bitpos div 64;
          rank = unat (get32 bits (the (simple_rank_cache s) + bitpos div 256));
          rank = popcnt_loop ((!) bits) line_wordpos line_word_idxupp rank
      in if bitpos mod 64 \<noteq> 0 then rank + fast_popcount_trail (bits ! line_word_idxupp) (bitpos mod 64) else rank)"

definition simple_rank0 :: "rank_select_simple \<Rightarrow> nat \<Rightarrow> nat" where
  "simple_rank0 s bitpos = size_sub bitpos (simple_rank1 s bitpos)"

definition simple_excess1 :: "rank_select_simple \<Rightarrow> nat \<Rightarrow> nat" where
  "simple_excess1 s bp = size_sub (2 * simple_rank1 s bp) bp"

definition simple_line_rank :: "rank_select_simple \<Rightarrow> nat \<Rightarrow> nat" where
  "simple_line_rank s k = unat (get32 (bldata (simple_bits s)) (the (simple_rank_cache s) + k))"

text \<open>A loop that ends without a hit returns \<open>size_t(-1)\<close>.\<close>

definition simple_select1 :: "rank_select_simple \<Rightarrow> nat \<Rightarrow> nat" where
  "simple_select1 s rank =
     (let nLines = (m_size (simple_bits s) + 256 - 1) div 256;
          lo = ub_loop (simple_line_rank s) rank 0 nLines;
          hit = simple_line_rank s (lo - 1);
          bits = (\<lambda>i. bldata (simple_bits s) ! (4 * (lo - 1) + i))
      in case word_select_loop bits rank hit 0 4 of
           Some p \<Rightarrow> 256 * (lo - 1) + p
         | None \<Rightarrow> 2 ^ 64 - 1)"

definition simple_select0 :: "rank_select_simple \<Rightarrow> nat \<Rightarrow> nat" where
  "simple_select0 s rank =
     (let nLines = (m_size (simple_bits s) + 256 - 1) div 256;
          lo = ub_loop (\<lambda>mid. 256 * mid - simple_line_rank s mid) rank 0 nLines;
          hit = 256 * (lo - 1) - simple_line_rank s (lo - 1);
          bits = (\<lambda>i. NOT (bldata (simple_bits s) ! (4 * (lo - 1) + i)))
      in case word_select_loop bits rank hit 0 4 of
           Some p \<Rightarrow> 256 * (lo - 1) + p
         | None \<Rightarrow> 2 ^ 64 - 1)"

definition simple_isall0 :: "rank_select_simple \<Rightarrow> bool" where
  "simple_isall0 s \<longleftrightarrow> simple_max_rank1 s = 0"

definition simple_isall1 :: "rank_select_simple \<Rightarrow> bool" where
  "simple_isall1 s \<longleftrightarrow> simple_max_rank0 s = 0"

section \<open>The two uniform structures\<close>

record rank_select_allzero =
  allzero_size :: nat
  allzero_placeholder :: "nat option"

record rank_select_allone =
  allone_size :: nat
  allone_placeholder :: "nat option"

definition allzero_make :: "nat \<Rightarrow> rank_select_allzero" where
  "allzero_make sz = \<lparr>allzero_size = sz, allzero_placeholder = None\<rparr>"

definition allzero_clear :: "rank_select_allzero \<Rightarrow> rank_select_allzero" where
  "allzero_clear s = s\<lparr>allzero_size := 0\<rparr>"

definition allzero_risk_mmap_from :: "u64 list \<Rightarrow> nat \<Rightarrow> rank_select_allzero \<Rightarrow> rank_select_allzero" where
  "allzero_risk_mmap_from base len s = s\<lparr>allzero_size := unat (base ! 0)\<rparr>"

definition allzero_resize :: "nat \<Rightarrow> rank_select_allzero \<Rightarrow> rank_select_allzero" where
  "allzero_resize newsize s = s\<lparr>allzero_size := newsize\<rparr>"

definition allzero_is1 :: "rank_select_allzero \<Rightarrow> nat \<Rightarrow> bool" where "allzero_is1 s i = False"
definition allzero_rank0 :: "rank_select_allzero \<Rightarrow> nat \<Rightarrow> nat" where "allzero_rank0 s bitpos = bitpos"
definition allzero_rank1 :: "rank_select_allzero \<Rightarrow> nat \<Rightarrow> nat" where "allzero_rank1 s bitpos = 0"
definition allzero_select0 :: "rank_select_allzero \<Rightarrow> nat \<Rightarrow> nat" where "allzero_select0 s i = i"
definition allzero_select1 :: "rank_select_allzero \<Rightarrow> nat \<Rightarrow> nat" where "allzero_select1 s i = 2 ^ 64 - 1"
definition allzero_max_rank0 :: "rank_select_allzero \<Rightarrow> nat" where "allzero_max_rank0 s = allzero_size s"
definition allzero_max_rank1 :: "rank_select_allzero \<Rightarrow> nat" where "allzero_max_rank1 s = 0"
definition allzero_zero_seq_len :: "rank_select_allzero \<Rightarrow> nat \<Rightarrow> nat" where
  "allzero_zero_seq_len s bitpos = allzero_size s - bitpos"
definition allzero_zero_seq_revlen :: "rank_select_allzero \<Rightarrow> nat \<Rightarrow> nat" where
  "allzero_zero_seq_revlen s bitpos = bitpos"

definition allone_make :: "nat \<Rightarrow> rank_select_allone" where
  "allone_make sz = \<lparr>allone_size = sz, allone_placeholder = None\<rparr>"

definition allone_clear :: "rank_select_allone \<Rightarrow> rank_select_allone" where
  "allone_clear s = s\<lparr>allone_size := 0\<rparr>"

definition allone_risk_mmap_from :: "u64 list \<Rightarrow> nat \<Rightarrow> rank_select_allone \<Rightarrow> rank_select_allone" where
  "allone_risk_mmap_from base len s = s\<lparr>allone_size := unat (base ! 0)\<rparr>"

definition allone_resize :: "nat \<Rightarrow> rank_select_allone \<Rightarrow> rank_select_allone" where
  "allone_resize newsize s = s\<lparr>allone_size := newsize\<rparr>"

definition allone_is1 :: "rank_select_allone \<Rightarrow> nat \<Rightarrow> bool" where "allone_is1 s i = True"
definition allone_rank0 :: "rank_select_allone \<Rightarrow> nat \<Rightarrow> nat" where "allone_rank0 s bitpos = 0"
definition allone_rank1 :: "rank_select_allone \<Rightarrow> nat \<Rightarrow> nat" where "allone_rank1 s bitpos = bitpos"
definition allone_select0 :: "rank_select_allone \<Rightarrow> nat \<Rightarrow> nat" where "allone_select0 s i = 2 ^ 64 - 1"
definition allone_select1 :: "rank_select_allone \<Rightarrow> nat \<Rightarrow> nat" where "allone_select1 s i = i"
definition allone_max_rank0 :: "rank_select_allone \<Rightarrow> nat" where "allone_max_rank0 s = 0"
definition allone_max_rank1 :: "rank_select_allone \<Rightarrow> nat" where "allone_max_rank1 s = allone_size s"
definition allone_one_seq_len :: "rank_select_allone \<Rightarrow> nat \<Rightarrow> nat" where
  "allone_one_seq_len s bitpos = allone_size s - bitpos"
definition allone_one_seq_revlen :: "rank_select_allone \<Rightarrow> nat \<Rightarrow> nat" where
  "allone_one_seq_revlen s bitpos = bitpos"

section \<open>Invariant\<close>

text \<open>A built structure: the vector, zeros from the size to the end of the last line, the ranks of all
  line starts, and room for the trailing size field.\<close>

definition simple_inv :: "rank_select_simple \<Rightarrow> bool" where
  "simple_inv s \<longleftrightarrow>
     (let v = simple_bits s; m = bldata v; ceiled = align_up (m_size v) 256; n = ceiled div 256; c = 2 * (ceiled div 64) in
      febitvec_inv v \<and> m_size v < 2 ^ 32 \<and> m_words v \<noteq> None
      \<and> simple_rank_cache s = Some c \<and> ceiled + 32 * (n + 2) \<le> m_capacity v
      \<and> (\<forall>p. m_size v \<le> p \<and> p < ceiled \<longrightarrow> \<not> mbit m p)
      \<and> (\<forall>k \<le> n. unat (get32 m (c + k)) = cnt (mbit m) (256 * k))
      \<and> simple_max_rank1 s = cnt (mbit m) (m_size v)
      \<and> simple_max_rank0 s = m_size v - simple_max_rank1 s)"

definition simple_lines :: "rank_select_simple \<Rightarrow> nat" where
  "simple_lines s = align_up (simple_size s) 256 div 256"

definition simple_bit :: "rank_select_simple \<Rightarrow> nat \<Rightarrow> bool" where
  "simple_bit s = mbit (bldata (simple_bits s))"

text \<open>Two small vectors for concrete runs.\<close>

definition simple_ex :: rank_select_simple where
  "simple_ex = simple_with \<lparr>m_words = Some [5, 0], m_size = 70, m_capacity = 128\<rparr>"

definition simple_ex2 :: rank_select_simple where
  "simple_ex2 = simple_with \<lparr>m_words = Some [5, 0, 0, 0, 0], m_size = 300, m_capacity = 320\<rparr>"

section \<open>The cache is built right\<close>

lemma simple_fill_ok:
  assumes c: "8 * nlines \<le> c" "c + nlines \<le> 2 * length m0"
    and small: "\<And>k. k \<le> nlines \<Longrightarrow> cnt (mbit m0) (256 * k) < 2 ^ 32"
    and same: "same_except m0 m (32 * c) (32 * (c + nlines))" and i: "i \<le> nlines"
    and filled: "\<And>k. k < i \<Longrightarrow> unat (get32 m (c + k)) = cnt (mbit m0) (256 * k)"
  shows "\<exists>m'. simple_fill c nlines i (cnt (mbit m0) (256 * i)) m = (m', cnt (mbit m0) (256 * nlines))
    \<and> same_except m0 m' (32 * c) (32 * (c + nlines))
    \<and> (\<forall>k < nlines. unat (get32 m' (c + k)) = cnt (mbit m0) (256 * k))"
  using same i filled
proof (induction "nlines - i" arbitrary: i m)
  case 0
  then have "i = nlines" by simp
  with 0 show ?case by (subst simple_fill.simps) simp
next
  case (Suc d)
  then have il: "i < nlines" by simp
  define m2 where "m2 = set32 m (c + i) (word_of_nat (cnt (mbit m0) (256 * i)))"
  have len: "(c + i) div 2 < length m"
    using c(2) il same_except_length [OF Suc.prems(1)] by (simp add: div_less_iff_less_mult)
  have s2: "same_except m0 m2 (32 * c) (32 * (c + nlines))"
    unfolding m2_def using il by (intro same_except_trans [OF Suc.prems(1)] same_except_set32_in [OF len]) simp_all
  have pop: "popcnt_loop ((!) m2) (i * 4) (i * 4 + 4) (cnt (mbit m0) (256 * i)) = cnt (mbit m0) (256 * Suc i)"
  proof -
    have "256 * Suc i \<le> 32 * c" using c(1) il by simp
    then have "cnt (mbit m2) (256 * Suc i) = cnt (mbit m0) (256 * Suc i)" "cnt (mbit m2) (256 * i) = cnt (mbit m0) (256 * i)"
      by (intro cnt_same [OF s2]; simp)+
    moreover have "cnt (mbit m0) (256 * i) \<le> cnt (mbit m0) (256 * Suc i)" by (rule cnt_mono) simp
    moreover have e: "64 * (i * 4 + 4) = 256 * Suc i" "64 * (i * 4) = 256 * i" by simp_all
    ultimately show ?thesis
      using mem_bits.popcnt_loop_cnt [of "i * 4" "i * 4 + 4" m2 "cnt (mbit m0) (256 * i)", unfolded e] by simp
  qed
  have ui: "unat (word_of_nat (cnt (mbit m0) (256 * i)) :: u32) = cnt (mbit m0) (256 * i)"
    using small [of i] il by (simp add: unat_of_nat)
  have f2: "unat (get32 m2 (c + k)) = cnt (mbit m0) (256 * k)" if "k < Suc i" for k
    using that Suc.prems(3) [of k] ui by (cases "k = i") (simp_all add: m2_def get32_set32 [OF len])
  have "\<exists>m'. simple_fill c nlines (Suc i) (cnt (mbit m0) (256 * Suc i)) m2 = (m', cnt (mbit m0) (256 * nlines))
    \<and> same_except m0 m' (32 * c) (32 * (c + nlines))
    \<and> (\<forall>k < nlines. unat (get32 m' (c + k)) = cnt (mbit m0) (256 * k))"
    using Suc.hyps il s2 f2 by (intro Suc.hyps(1)) simp_all
  moreover have "simple_fill c nlines i (cnt (mbit m0) (256 * i)) m = simple_fill c nlines (Suc i) (cnt (mbit m0) (256 * Suc i)) m2"
    using il by (subst simple_fill.simps) (simp add: Let_def m2_def [symmetric] pop)
  ultimately show ?case by simp
qed

text \<open>The steps of \<open>build_cache\<close> after the block has its final size.\<close>

lemma simple_cache_mem:
  fixes n defines "N \<equiv> align_up n 256 div 256" and "c \<equiv> 2 * (align_up n 256 div 64)"
  assumes small: "n < 2 ^ 32" and room: "256 * N + 32 * (N + 2) \<le> 64 * length m" and q: "q = 2 * length m - 1"
  defines "m1 \<equiv> bits_range_set0 m n (align_up n 256)"
  defines "m3 \<equiv> set32 (fst (simple_fill c N 0 0 m1)) (c + N) (word_of_nat (snd (simple_fill c N 0 0 m1)))"
  defines "m4 \<equiv> set32 m3 q (word_of_nat n)"
  shows "length m4 = length m" and "snd (simple_fill c N 0 0 m1) = cnt (mbit m) n"
    and "\<And>p. p < n \<Longrightarrow> mbit m4 p = mbit m p" and "\<And>p. n \<le> p \<Longrightarrow> p < align_up n 256 \<Longrightarrow> \<not> mbit m4 p"
    and "\<And>k. k \<le> N \<Longrightarrow> unat (get32 m4 (c + k)) = cnt (mbit m4) (256 * k)" and "get32 m4 q = word_of_nat n"
proof -
  note L = lines256 [of n, folded N_def]
  have c: "c = 8 * N" using L(2) by (simp add: c_def)
  have b1: "mbit m1 p = (mbit m p \<and> \<not> (n \<le> p \<and> p < 256 * N))" for p
    unfolding m1_def L(1) using L(4) room by (intro mbit_bits_range_set0) simp_all
  have l1: "length m1 = length m" by (simp add: m1_def)
  have cm: "cnt (mbit m1) (256 * N) = cnt (mbit m) n"
  proof -
    have "cnt (mbit m1) (256 * N) = cnt (mbit m1) n" using L(4) by (intro cnt_pad) (auto simp: b1)
    also have "\<dots> = cnt (mbit m) n" by (rule cnt_cong) (simp add: b1)
    finally show ?thesis .
  qed
  have sm: "cnt (mbit m1) (256 * k) < 2 ^ 32" if "k \<le> N" for k
    using cnt_mono [of "256 * k" "256 * N" "mbit m1"] that cm le_less_trans [OF cnt_le small, of "mbit m"] by simp
  have r1: "8 * N \<le> c" "c + N \<le> 2 * length m1" using room by (simp_all add: c l1)
  obtain m2 where m2: "simple_fill c N 0 0 m1 = (m2, cnt (mbit m1) (256 * N))"
    "same_except m1 m2 (32 * c) (32 * (c + N))" "\<forall>k<N. unat (get32 m2 (c + k)) = cnt (mbit m1) (256 * k)"
    using simple_fill_ok [OF r1 sm, of m1 0] by auto
  show sn: "snd (simple_fill c N 0 0 m1) = cnt (mbit m) n" using m2(1) cm by simp
  have l2: "(c + N) div 2 < length m2" using room same_except_length [OF m2(2)] by (simp add: c l1 div_less_iff_less_mult)
  have m3: "m3 = set32 m2 (c + N) (word_of_nat (cnt (mbit m) n))" using m2(1) cm by (simp add: m3_def)
  have l3: "q div 2 < length m3"
    using room same_except_length [OF m2(2)] by (simp add: c l1 div_less_iff_less_mult q m3)
  have q': "c + N < q" using room by (simp add: c q)
  have s3: "same_except m1 m3 (32 * c) (64 * length m)"
    unfolding m3 using room by (intro same_except_trans [OF same_except_widen [OF m2(2)]] same_except_set32_in [OF l2])
      (simp_all add: c)
  have s4: "same_except m1 m4 (32 * c) (64 * length m)"
    unfolding m4_def using q' q by (intro same_except_trans [OF s3] same_except_set32_in [OF l3]) simp_all
  show "length m4 = length m" using same_except_length [OF s4] l1 by simp
  have b4: "mbit m4 p = mbit m1 p" if "p < 256 * N" for p using same_except_mbit [OF s4, of p] that by (simp add: c)
  show "mbit m4 p = mbit m p" if "p < n" for p using that L(4) by (simp add: b4 b1)
  show "\<not> mbit m4 p" if "n \<le> p" "p < align_up n 256" for p using that by (simp add: b4 b1 L(1))
  show "get32 m4 q = word_of_nat n" by (simp add: m4_def get32_set32 [OF l3])
  show "unat (get32 m4 (c + k)) = cnt (mbit m4) (256 * k)" if k: "k \<le> N" for k
  proof -
    have "cnt (mbit m4) (256 * k) = cnt (mbit m1) (256 * k)" using k by (intro cnt_same [OF s4]) (simp add: c)
    moreover have "unat (get32 m4 (c + k)) = unat (get32 m3 (c + k))" using q' k by (simp add: m4_def get32_set32 [OF l3])
    moreover have "unat (get32 m3 (c + k)) = cnt (mbit m1) (256 * k)"
    proof (cases "k = N")
      case True
      moreover have "cnt (mbit m) n < 2 ^ 32" by (rule le_less_trans [OF cnt_le small])
      ultimately show ?thesis by (simp add: m3 get32_set32 [OF l2] cm unat_of_nat)
    qed (use k m2(3) in \<open>simp add: m3 get32_set32 [OF l2]\<close>)
    ultimately show ?thesis by simp
  qed
qed

lemma simple_build_cache_ok:
  assumes inv: "febitvec_inv (simple_bits s)" and w: "m_words (simple_bits s) \<noteq> None"
    and b: "simple_build_cache e s = Inr s'"
  shows "simple_inv s'" and "simple_size s' = simple_size s"
    and "i < simple_size s \<Longrightarrow> simple_bit s' i = simple_bit s i"
    and "get32 (bldata (simple_bits s')) (m_capacity (simple_bits s') div 32 - 1) = word_of_nat (simple_size s)"
proof -
  define n where "n = m_size (simple_bits s)"
  define N where "N = align_up n 256 div 256"
  note L = lines256 [of n, folded N_def]
  obtain v1 where v1: "febitvec_shrink_to_fit e (simple_bits s) = Some v1"
    using b w by (auto simp: simple_build_cache_def Let_def split: option.splits if_splits)
  obtain v2 where v2: "febitvec_reserve e (align_up n 256 + 32 * (N + 2)) v1 = Inr v2"
    using b w v1 by (auto simp: simple_build_cache_def Let_def n_def [symmetric] N_def split: sum.splits if_splits)
  have small: "n < 2 ^ 32"
    using b w by (auto simp: simple_build_cache_def Let_def rank_select_check_overflow_def n_def split: if_splits)
  note sh = shrink_ok [OF inv v1]
  note rs = reserve_ok [OF sh(1) v2]
  have sz: "m_size v2 = n" using sh(3) rs(2) by (simp add: n_def)
  define m where "m = bldata v2"
  have cap: "m_capacity v2 = 64 * length m" using febitvec_invD(2) [OF rs(1)] by (simp add: m_def)
  have q: "m_capacity v2 div 32 - 1 = 2 * length m - 1" by (simp add: cap)
  have room: "256 * N + 32 * (N + 2) \<le> 64 * length m" using rs(4) cap L(1) by simp
  note M = simple_cache_mem [OF small room [unfolded N_def] refl, folded N_def]
  define c where "c = 2 * (align_up n 256 div 64)"
  define m1 where "m1 = bits_range_set0 m n (align_up n 256)"
  define R where "R = snd (simple_fill c N 0 0 m1)"
  define m4 where "m4 = set32 (set32 (fst (simple_fill c N 0 0 m1)) (c + N) (word_of_nat R)) (2 * length m - 1) (word_of_nat n)"
  note M = M [folded c_def, folded m1_def, folded R_def, folded m4_def]
  have s': "s' = s\<lparr>simple_bits := v2\<lparr>m_words := Some m4\<rparr>, simple_rank_cache := Some c, simple_max_rank1 := R,
      simple_max_rank0 := size_sub n R\<rparr>"
    using b w v1 v2 sz q by (simp add: simple_build_cache_def Let_def n_def [symmetric] N_def [symmetric] m_def [symmetric]
      c_def [symmetric] m1_def [symmetric] R_def [symmetric] m4_def case_prod_unfold split: if_splits)
  have cR: "cnt (mbit m4) n = R" using M(2,3) by (metis cnt_cong)
  then have Rn: "size_sub n R = n - R" using cnt_le [of "mbit m4" n] by simp
  have "febitvec_inv (v2\<lparr>m_words := Some m4\<rparr>)" using rs(1) M(1) by (simp add: febitvec_inv_def m_def)
  moreover have "c = 8 * N" using L(2) by (simp add: c_def)
  ultimately show "simple_inv s'"
    using small room M(4,5) cR Rn L(1) cap sz
    by (simp add: simple_inv_def s' Let_def N_def [symmetric] c_def [symmetric])
  show "simple_size s' = simple_size s" by (simp add: s' simple_size_def sz n_def)
  show "simple_bit s' i = simple_bit s i" if i: "i < simple_size s"
  proof -
    have "i < n" using i by (simp add: simple_size_def n_def)
    then have "mbit m4 i = mbit m i" by (rule M(3))
    also have "\<dots> = mbit (bldata v1) i" using rs(3) \<open>i < n\<close> sh(3) by (simp add: bits_kept_def m_def n_def)
    also have "\<dots> = mbit (bldata (simple_bits s)) i"
      using sh(2,3) \<open>i < n\<close> nth_bvec [of i v1] nth_bvec [of i "simple_bits s"] by (simp add: n_def)
    finally show ?thesis by (simp add: simple_bit_def s')
  qed
  show "get32 (bldata (simple_bits s')) (m_capacity (simple_bits s') div 32 - 1) = word_of_nat (simple_size s)"
    using M(6) q by (simp add: s' simple_size_def n_def)
qed


section \<open>Rank and select\<close>

lemma simple_invD:
  assumes "simple_inv s"
  shows "febitvec_inv (simple_bits s)" and "simple_size s < 2 ^ 32"
    and "simple_rank_cache s = Some (2 * (align_up (simple_size s) 256 div 64))"
    and "\<And>p. simple_size s \<le> p \<Longrightarrow> p < 256 * simple_lines s \<Longrightarrow> \<not> simple_bit s p"
    and "\<And>k. k \<le> simple_lines s \<Longrightarrow> simple_line_rank s k = cnt (simple_bit s) (256 * k)"
    and "simple_max_rank1 s = cnt (simple_bit s) (simple_size s)"
    and "simple_max_rank0 s = simple_size s - simple_max_rank1 s"
  using assms lines256(1) [of "simple_size s"]
  by (auto simp: simple_inv_def Let_def simple_size_def simple_lines_def simple_bit_def simple_line_rank_def)

lemma simple_size_lines: "simple_size s \<le> 256 * simple_lines s"
  unfolding simple_lines_def by (rule lines256(4))

interpretation simple1: rank_lines simple_inv simple_bit 256 simple_lines simple_line_rank
  by unfold_locales (rule simple_invD(5))

interpretation simple0: rank_lines simple_inv "\<lambda>s p. \<not> simple_bit s p" 256 simple_lines
  "\<lambda>s k. 256 * k - simple_line_rank s k"
  by (rule simple1.compl_lines)

lemma simple_fast_rank1_eq: "simple_rank1 s p = simple_fast_rank1 (bldata (simple_bits s)) (the (simple_rank_cache s)) p"
  by (simp add: simple_rank1_def simple_fast_rank1_def Let_def)

lemma simple_rank1_cnt:
  assumes "simple_inv s" and "p \<le> simple_size s"
  shows "simple_rank1 s p = cnt (simple_bit s) p"
proof -
  define m where "m = bldata (simple_bits s)"
  define k where "k = p div 256"
  define w where "w = p div 64"
  have "k \<le> simple_lines s"
    using div_le_mono [OF le_trans [OF assms(2) simple_size_lines], of 256] by (simp add: k_def)
  then have k: "simple_line_rank s k = cnt (mbit m) (256 * k)"
    using simple_invD(5) [OF assms(1), of k] by (simp add: simple_bit_def m_def)
  have kw: "4 * k \<le> w" by (simp add: k_def w_def div_64_256)
  have e: "64 * (4 * k) = 256 * k" by simp
  have le: "cnt (mbit m) (256 * k) \<le> cnt (mbit m) (64 * w)" using kw by (intro cnt_mono) simp
  have pop: "popcnt_loop ((!) m) (4 * k) w (simple_line_rank s k) = cnt (mbit m) (64 * w)"
    using mem_bits.popcnt_loop_cnt [OF kw, of m "simple_line_rank s k", unfolded e] k le by simp
  have "simple_rank1 s p = popcnt_loop ((!) m) (4 * k) w (simple_line_rank s k) + fast_popcount_trail (m ! w) (p mod 64)"
    by (simp add: simple_rank1_def simple_line_rank_def Let_def line_word m_def k_def w_def)
  then show ?thesis
    unfolding pop using mem_bits.cnt_pos [of m p] by (simp add: simple_bit_def m_def w_def)
qed

lemma simple_nLines: "(m_size (simple_bits s) + 256 - 1) div 256 = simple_lines s"
  unfolding simple_lines_def simple_size_def by (rule lines256(3))

lemma simple_select1_sel:
  assumes "simple_inv s" and "r < simple_max_rank1 s"
  shows "simple_select1 s r = sel (simple_bit s) (simple_size s) r"
proof -
  define lo where "lo = ub_loop (simple_line_rank s) r 0 (simple_lines s)"
  have r: "r < cnt (simple_bit s) (simple_size s)" using assms simple_invD(6) by simp
  note top = simple1.top_rank [OF assms(1) r simple_size_lines]
  note lo = simple1.global_ub [OF assms(1) top order_refl le_SucI [OF order_refl], folded lo_def]
  note lf = simple1.line_found [OF assms(1) lo]
  have "\<exists>p. word_select_loop (\<lambda>j. bldata (simple_bits s) ! (4 * (lo - 1) + j)) r (simple_line_rank s (lo - 1)) 0 4 = Some p
      \<and> 64 * (4 * (lo - 1)) + p = sel (simple_bit s) (simple_size s) r"
    unfolding simple_bit_def using r lf by (intro mem_bits.word_select_loop_sel) (simp_all add: simple_bit_def)
  then show ?thesis
    unfolding simple_select1_def Let_def simple_nLines lo_def [symmetric] by auto
qed

lemma simple_select0_sel:
  assumes "simple_inv s" and "r < simple_max_rank0 s"
  shows "simple_select0 s r = sel (\<lambda>p. \<not> simple_bit s p) (simple_size s) r"
proof -
  define lo where "lo = ub_loop (\<lambda>k. 256 * k - simple_line_rank s k) r 0 (simple_lines s)"
  have r: "r < cnt (\<lambda>p. \<not> simple_bit s p) (simple_size s)"
    using assms simple_invD(6,7) [OF assms(1)] by (simp add: cnt_Not)
  note top = simple0.top_rank [OF assms(1) r simple_size_lines]
  note lo = simple0.global_ub [OF assms(1) top order_refl le_SucI [OF order_refl], folded lo_def]
  note lf = simple0.line_found [OF assms(1) lo]
  have "\<exists>p. word_select_loop (\<lambda>j. NOT (bldata (simple_bits s) ! (4 * (lo - 1) + j))) r
      (256 * (lo - 1) - simple_line_rank s (lo - 1)) 0 4 = Some p
      \<and> 64 * (4 * (lo - 1)) + p = sel (\<lambda>p. \<not> simple_bit s p) (simple_size s) r"
    unfolding simple_bit_def using r lf by (intro mem_bits0.word_select_loop_sel) (simp_all add: simple_bit_def)
  then show ?thesis
    unfolding simple_select0_def Let_def simple_nLines lo_def [symmetric] by auto
qed

lemma simple_is1_bit: "simple_is1 s = simple_bit s"
  by (rule ext) (simp add: simple_is1_def simple_bit_def febitvec_is1_def terark_bit_test_mbit)

lemma simple_rank0_cnt:
  assumes "simple_inv s" and "p \<le> simple_size s"
  shows "simple_rank0 s p = cnt (\<lambda>i. \<not> simple_bit s i) p"
  by (simp add: simple_rank0_def simple_rank1_cnt [OF assms] cnt_Not)

interpretation simple: rank_select simple_inv simple_size simple_is1 simple_rank0 simple_rank1
  simple_max_rank0 simple_max_rank1 simple_select0 simple_select1
  by unfold_locales (simp_all add: simple_is1_bit simple_rank1_cnt simple_rank0_cnt simple_invD(6,7) cnt_Not
    simple_select1_sel simple_select0_sel)

lemma uniform_is1 [simp]: "allzero_is1 s = (\<lambda>_. False)" "allone_is1 t = (\<lambda>_. True)"
  by (simp_all add: fun_eq_iff allzero_is1_def allone_is1_def)

interpretation allzero: rank_select "\<lambda>_. True" allzero_size allzero_is1 allzero_rank0 allzero_rank1
  allzero_max_rank0 allzero_max_rank1 allzero_select0 allzero_select1
  by unfold_locales (simp_all add: allzero_rank0_def allzero_rank1_def allzero_max_rank0_def
    allzero_max_rank1_def allzero_select0_def allzero_select1_def sel_def)

interpretation allone: rank_select "\<lambda>_. True" allone_size allone_is1 allone_rank0 allone_rank1
  allone_max_rank0 allone_max_rank1 allone_select0 allone_select1
  by unfold_locales (simp_all add: allone_rank0_def allone_rank1_def allone_max_rank0_def
    allone_max_rank1_def allone_select0_def allone_select1_def sel_def)

section \<open>Totality, errors and the memory map\<close>

lemma simple_build_total:
  assumes ok: "\<And>n. realloc_ok e n" and small: "simple_size s < 2 ^ 32"
  shows "\<exists>s'. simple_build_cache e s = Inr s'"
proof -
  obtain v1 where v1: "febitvec_shrink_to_fit e (simple_bits s) = Some v1" using shrink_total [OF ok] by blast
  obtain v2 where "febitvec_reserve e (align_up (m_size (simple_bits s)) 256
      + 32 * (align_up (m_size (simple_bits s)) 256 div 256 + 2)) v1 = Inr v2"
    using reserve_total [OF ok] by blast
  with v1 small show ?thesis
    by (simp add: simple_build_cache_def simple_size_def rank_select_check_overflow_def Let_def case_prod_unfold)
qed

text \<open>The layout is a function of the size field and the ranks: mapping the built block restores the
  structure.\<close>

lemma simple_mmap_built:
  assumes "simple_inv s" and "get32 (bldata (simple_bits s)) (m_capacity (simple_bits s) div 32 - 1) = word_of_nat (simple_size s)"
  shows "simple_risk_mmap_from (bldata (simple_bits s)) (simple_mem_size s) = s"
proof -
  define v where "v = simple_bits s"
  define n where "n = m_size v"
  have ws: "m_words v = Some (bldata v)" using assms(1) by (auto simp: simple_inv_def Let_def v_def bldata_def)
  have cap: "m_capacity v = 64 * length (bldata v)"
    using simple_invD(1) [OF assms(1)] by (simp add: v_def febitvec_inv_def)
  have len: "simple_mem_size s div 4 - 1 = m_capacity v div 32 - 1" "simple_mem_size s * 8 = m_capacity v"
    by (simp_all add: simple_mem_size_def v_def [symmetric] cap)
  have n: "unat (get32 (bldata v) (m_capacity v div 32 - 1)) = n"
    using assms(2) simple_invD(2) [OF assms(1)] by (simp add: v_def n_def simple_size_def unat_of_nat)
  define c where "c = 2 * (align_up n 256 div 64)"
  have c: "simple_rank_cache s = Some c" using simple_invD(3) [OF assms(1)] by (simp add: c_def n_def v_def simple_size_def)
  have r: "unat (get32 (bldata v) (c + align_up n 256 div 256)) = simple_max_rank1 s"
  proof -
    have "unat (get32 (bldata v) (c + align_up n 256 div 256)) = cnt (simple_bit s) (256 * simple_lines s)"
      using simple_invD(5) [OF assms(1) order_refl]
      by (simp add: simple_line_rank_def c v_def [symmetric] simple_lines_def simple_size_def n_def [symmetric])
    also have "\<dots> = cnt (simple_bit s) (simple_size s)"
      using simple_invD(4) [OF assms(1)] by (intro cnt_pad [OF simple_size_lines]) auto
    finally show ?thesis using simple_invD(6) [OF assms(1)] by simp
  qed
  have "size_sub n (simple_max_rank1 s) = simple_max_rank0 s"
    using simple_invD(6,7) [OF assms(1)] by (simp add: n_def v_def simple_size_def)
  then show ?thesis
    unfolding simple_risk_mmap_from_def v_def [symmetric] len n Let_def c_def [symmetric] r
    using ws c by (cases s; cases v) (simp add: v_def n_def)
qed

section \<open>Properties\<close>

text \<open>C5. End to end: after \<open>build_cache\<close>, \<open>rank_select_simple\<close> answers \<open>is1\<close>, \<open>rank0\<close>, \<open>rank1\<close>, \<open>select0\<close>,
  \<open>select1\<close> and the maximal ranks for exactly the bits that were in the vector, and the static
  \<open>fast_rank1\<close> agrees.\<close>

theorem simple_build_correct:
  assumes "febitvec_inv (simple_bits s)" and "m_words (simple_bits s) \<noteq> None" and "simple_build_cache e s = Inr s'"
  shows "rs_answers (bvec (simple_bits s)) (simple_size s') (simple_is1 s') (simple_rank0 s') (simple_rank1 s')
      (simple_max_rank0 s') (simple_max_rank1 s') (simple_select0 s') (simple_select1 s')
    \<and> (\<forall>p. simple_fast_rank1 (bldata (simple_bits s')) (the (simple_rank_cache s')) p = simple_rank1 s' p)"
proof -
  note b = simple_build_cache_ok [OF assms]
  have "simple_is1 s' i = bvec (simple_bits s) ! i" if "i < length (bvec (simple_bits s))" for i
    using b(3) [of i] that by (simp add: simple_is1_bit simple_size_def simple_bit_def)
  then show ?thesis
    using simple.answers_list [OF b(1), of "bvec (simple_bits s)"] b(2)
    by (simp add: simple_fast_rank1_eq simple_size_def)
qed

lemma simple_ex_ok: "febitvec_inv (simple_bits simple_ex)" "m_words (simple_bits simple_ex) \<noteq> None"
  "simple_size simple_ex < 2 ^ 32"
  by (simp_all add: simple_ex_def simple_with_def febitvec_inv_def bldata_def simple_size_def)

theorem simple_build_correct_witness:
  "\<exists>s'. simple_build_cache env0 simple_ex = Inr s' \<and> simple_rank1 s' 3 = 2"
proof -
  obtain s' where s': "simple_build_cache env0 simple_ex = Inr s'"
    using simple_build_total [OF env0_ok simple_ex_ok(3)] by blast
  from simple_build_correct [OF simple_ex_ok(1,2) s']
  have "simple_rank1 s' 3 = count_list (take 3 (bvec (simple_bits simple_ex))) True"
    by (simp add: rs_answers_def simple_ex_def simple_with_def)
  also have "\<dots> = 2"
    by (simp add: bvec_def simple_ex_def simple_with_def bldata_def mbit_def upt_rec take_map)
  finally show ?thesis using s' by blast
qed

text \<open>\<open>build_cache\<close> returns: with an allocator that does not refuse it ends in a built structure unless the
  size exceeds 32 bits, in which case it throws \<open>length_error\<close>.\<close>

theorem simple_build_returns:
  assumes "\<forall>n. realloc_ok e n"
  shows "(simple_size s < 2 ^ 32 \<longrightarrow> (\<exists>s'. simple_build_cache e s = Inr s'))
    \<and> (2 ^ 32 \<le> simple_size s \<longrightarrow> simple_build_cache e s = Inl Length_error)"
  using simple_build_total [of e s] assms
  by (auto simp: simple_build_cache_def simple_size_def rank_select_check_overflow_def Let_def)

theorem simple_build_returns_witness: "\<exists>s'. simple_build_cache env0 simple_ex = Inr s'"
  using simple_build_returns [of env0 simple_ex] simple_ex_ok(3) env0_ok by simp

text \<open>Round trip through the memory map: mapping the block of a built structure gives the structure back.\<close>

theorem simple_mmap_roundtrip:
  assumes "febitvec_inv (simple_bits s)" and "m_words (simple_bits s) \<noteq> None" and "simple_build_cache e s = Inr s'"
  shows "simple_risk_mmap_from (bldata (simple_bits s')) (simple_mem_size s') = s'"
  using simple_build_cache_ok [OF assms] by (intro simple_mmap_built) simp_all

theorem simple_mmap_roundtrip_witness:
  "\<exists>s'. simple_build_cache env0 simple_ex = Inr s'
    \<and> simple_risk_mmap_from (bldata (simple_bits s')) (simple_mem_size s') = s'"
  using simple_build_total [OF env0_ok simple_ex_ok(3)] simple_mmap_roundtrip [OF simple_ex_ok(1,2)] by blast


lemma simple_copy_block:
  assumes "febitvec_inv (simple_bits y)" and "simple_rank_cache y \<noteq> None" and "simple_copy e y = Inr s'"
  shows "bldata (simple_bits s') = bldata (simple_bits y)"
    and "simple_rank_cache s' = Some (2 * febitvec_num_words (simple_bits y))"
proof -
  define m where "m = bldata (simple_bits y)"
  have cap: "m_capacity (simple_bits y) = 64 * length m" using assms(1) by (simp add: febitvec_inv_def m_def)
  obtain v where v: "febitvec_reserve e (64 * length m) febitvec_empty = Inr v"
    and s': "simple_bits s' = upd_words (\<lambda>ws. take (length m) m @ drop (length m) ws) (v\<lparr>m_size := m_size (simple_bits y)\<rparr>)"
      "simple_rank_cache s' = Some (2 * febitvec_num_words (simple_bits s'))"
    using assms(2,3) by (auto simp: simple_copy_def Let_def cap m_def split: sum.splits if_splits)
  have e: "febitvec_inv febitvec_empty" by (simp add: febitvec_inv_def febitvec_empty_def bldata_def)
  note r = reserve_ok [OF e v]
  have lv: "length (bldata v) = length m"
    using r(1,5) by (simp add: febitvec_inv_def align_up_def febitvec_empty_def)
  show "bldata (simple_bits s') = bldata (simple_bits y)"
    using lv by (cases "m_words v") (auto simp: s'(1) bldata_def upd_words_def m_def)
  show "simple_rank_cache s' = Some (2 * febitvec_num_words (simple_bits y))"
    by (simp add: s' febitvec_num_words_def)
qed

text \<open>The copy constructor of \<open>rank_select_simple\<close> places the cache pointer after the last word of the bits
  instead of after the last line: when the last line ends in a padding word, the copy reads ranks from the
  padding, and \<open>rank1(256)\<close> is 0 whatever the first line holds.\<close>

theorem simple_copy_misplaces_cache:
  assumes "simple_inv y" and "simple_copy e y = Inr s'" and "256 < simple_size y"
    and "64 * febitvec_num_words (simple_bits y) < align_up (simple_size y) 256"
  shows "simple_rank1 s' 256 = 0 \<and> simple_rank1 y 256 = count_list (take 256 (bvec (simple_bits y))) True"
proof
  define m where "m = bldata (simple_bits y)"
  define w where "w = febitvec_num_words (simple_bits y)"
  note inv = simple_invD(1) [OF assms(1)]
  have "simple_rank_cache y \<noteq> None" using simple_invD(3) [OF assms(1)] by simp
  note cp = simple_copy_block [OF inv this assms(2)]
  define k where "k = simple_lines y"
  have k: "align_up (simple_size y) 256 = 256 * k" unfolding k_def simple_lines_def by (rule lines256(1))
  have "w < 4 * k" using assms(4) unfolding k w_def by simp
  then have "64 * w + 64 \<le> 256 * k" by simp
  then have "\<not> mbit m p" if "64 * w \<le> p" "p < 64 * w + 64" for p
    using simple_invD(4) [OF assms(1), of p] num_words_bounds(1) [OF inv] that
    by (simp add: w_def k_def simple_bit_def m_def simple_size_def)
  then have "get32 m (2 * w + 1) = 0"
    by (intro bit_word_eqI) (simp add: bit_views)
  moreover have "popcnt_loop ((!) m) 4 4 0 = 0" by (subst popcnt_loop.simps) simp
  ultimately show "simple_rank1 s' 256 = 0"
    by (simp add: simple_rank1_def Let_def cp m_def [symmetric] w_def [symmetric])
  have "cnt (simple_bit y) 256 = cnt (\<lambda>i. bvec (simple_bits y) ! i = True) 256"
    using assms(3) by (intro cnt_cong) (simp add: simple_bit_def simple_size_def)
  then show "simple_rank1 y 256 = count_list (take 256 (bvec (simple_bits y))) True"
    using assms(1,3) by (simp add: simple_rank1_cnt count_list_cnt simple_size_def)
qed

lemma simple_copy_total:
  assumes "\<And>n. realloc_ok e n"
  shows "\<exists>s'. simple_copy e y = Inr s'"
  using reserve_total [OF assms, of "m_capacity (simple_bits y)" febitvec_empty] by (auto simp: simple_copy_def Let_def)

theorem simple_copy_misplaces_cache_witness:
  "\<exists>y s'. simple_build_cache env0 simple_ex2 = Inr y \<and> simple_copy env0 y = Inr s' \<and> simple_rank1 s' 256 = 0"
proof -
  have ok: "febitvec_inv (simple_bits simple_ex2)" "m_words (simple_bits simple_ex2) \<noteq> None" "simple_size simple_ex2 = 300"
    by (simp_all add: simple_ex2_def simple_with_def febitvec_inv_def bldata_def simple_size_def)
  obtain y where y: "simple_build_cache env0 simple_ex2 = Inr y" using simple_build_total [OF env0_ok, of simple_ex2] ok(3) by auto
  obtain s' where s': "simple_copy env0 y = Inr s'" using simple_copy_total [OF env0_ok] by blast
  note b = simple_build_cache_ok [OF ok(1,2) y]
  have "64 * febitvec_num_words (simple_bits y) < align_up (simple_size y) 256"
    using b(2) ok(3) by (simp add: febitvec_num_words_def simple_size_def align_up_def)
  with simple_copy_misplaces_cache [OF b(1) s'] b(2) ok(3) have "simple_rank1 s' 256 = 0" by simp
  with y s' show ?thesis by blast
qed

text \<open>\<open>rank_select_allzero\<close> and \<open>rank_select_allone\<close> of a size answer for the uniform vectors of that size,
  and their run lengths are the runs.\<close>

theorem uniform_correct:
  "rs_answers (replicate n False) (allzero_size (allzero_make n)) (allzero_is1 (allzero_make n))
      (allzero_rank0 (allzero_make n)) (allzero_rank1 (allzero_make n)) (allzero_max_rank0 (allzero_make n))
      (allzero_max_rank1 (allzero_make n)) (allzero_select0 (allzero_make n)) (allzero_select1 (allzero_make n))
    \<and> rs_answers (replicate n True) (allone_size (allone_make n)) (allone_is1 (allone_make n))
      (allone_rank0 (allone_make n)) (allone_rank1 (allone_make n)) (allone_max_rank0 (allone_make n))
      (allone_max_rank1 (allone_make n)) (allone_select0 (allone_make n)) (allone_select1 (allone_make n))"
  using allzero.answers_list [of "allzero_make n" "replicate n False"] allone.answers_list [of "allone_make n" "replicate n True"]
  by (simp add: allzero_make_def allone_make_def)

end
