(* ===== verification/RankSelectSE256.thy ===== *)
theory RankSelectSE256
  imports RankSelectSimple
begin

text \<open>
  \<open>rank_select_se\<close> (\<open>rank_select_se_256\<close>) of \<open>src/src/terark/succinct/rank_select_se_256.hpp\<close> and \<open>.cpp\<close>: the rank cache, one
  \<open>RankCache\<close> per line of 256 bits, follows the bits in the block of the vector, the two optional
  select caches follow it, and the last word holds the size and the flags. A \<open>RankCache\<close> is one word:
  \<open>lev1\<close> in its low half and the four bytes \<open>lev2\<close> in its high half. The pointer to the rank cache is a
  word index of the block, the pointers to the select caches are indices of \<open>uint32_t\<close>.
\<close>

section \<open>The structure\<close>

record rank_select_se =
  se_bits :: febitvec
  se_rank_cache :: "nat option"
  se_sel0_cache :: "nat option"
  se_sel1_cache :: "nat option"
  se_max_rank0 :: nat
  se_max_rank1 :: nat

definition se_lev1 :: "u64 list \<Rightarrow> nat \<Rightarrow> nat \<Rightarrow> nat" where
  "se_lev1 m rankCache k = unat (get32 m (2 * (rankCache + k)))"

definition se_lev2 :: "u64 list \<Rightarrow> nat \<Rightarrow> nat \<Rightarrow> nat \<Rightarrow> nat" where
  "se_lev2 m rankCache k j = unat (get8 m (8 * (rankCache + k) + 4 + j))"

definition se_RankCache :: "u32 \<Rightarrow> u64" where
  "se_RankCache l1 = ucast l1"

definition se_nullize_cache :: "rank_select_se \<Rightarrow> rank_select_se" where
  "se_nullize_cache s = s\<lparr>se_rank_cache := None, se_sel0_cache := None, se_sel1_cache := None,
     se_max_rank0 := 0, se_max_rank1 := 0\<rparr>"

definition se_with :: "febitvec \<Rightarrow> rank_select_se" where
  "se_with v = \<lparr>se_bits = v, se_rank_cache = None, se_sel0_cache = None, se_sel1_cache = None,
     se_max_rank0 = 0, se_max_rank1 = 0\<rparr>"

definition se_make :: "env \<Rightarrow> nat \<Rightarrow> bool \<Rightarrow> error + rank_select_se" where
  "se_make e n val =
     (case febitvec_make e n val of
        Inl err \<Rightarrow> Inl err
      | Inr v \<Rightarrow> if rank_select_check_overflow n then Inl Length_error else Inr (se_with v))"

definition se_make_no_init :: "env \<Rightarrow> nat \<Rightarrow> error + rank_select_se" where
  "se_make_no_init e n =
     (if rank_select_check_overflow n then Inl Length_error
      else case febitvec_resize_no_init e n febitvec_empty of Inl err \<Rightarrow> Inl err | Inr v \<Rightarrow> Inr (se_with v))"

definition se_make_reserve :: "env \<Rightarrow> nat \<Rightarrow> error + rank_select_se" where
  "se_make_reserve e n =
     (if rank_select_check_overflow n then Inl Length_error
      else case febitvec_reserve e n febitvec_empty of Inl err \<Rightarrow> Inl err | Inr v \<Rightarrow> Inr (se_with v))"

text \<open>The cache pointers of the copy have the offsets of the original.\<close>

definition se_copy :: "env \<Rightarrow> rank_select_se \<Rightarrow> error + rank_select_se" where
  "se_copy e y =
     (case febitvec_reserve e (m_capacity (se_bits y)) febitvec_empty of
        Inl err \<Rightarrow> Inl err
      | Inr v \<Rightarrow>
          let v = v\<lparr>m_size := m_size (se_bits y)\<rparr>;
              n = m_capacity (se_bits y) div 64;
              v = upd_words (\<lambda>ws. take n (bldata (se_bits y)) @ drop n ws) v
          in Inr \<lparr>se_bits = v, se_rank_cache = se_rank_cache y, se_sel0_cache = se_sel0_cache y,
               se_sel1_cache = se_sel1_cache y, se_max_rank0 = se_max_rank0 y, se_max_rank1 = se_max_rank1 y\<rparr>)"

definition se_clear :: "rank_select_se \<Rightarrow> rank_select_se" where
  "se_clear s = (se_nullize_cache s)\<lparr>se_bits := febitvec_clear (se_bits s)\<rparr>"

definition se_risk_release_ownership :: "rank_select_se \<Rightarrow> rank_select_se" where
  "se_risk_release_ownership s = (se_nullize_cache s)\<lparr>se_bits := febitvec_risk_release_ownership (se_bits s)\<rparr>"

definition se_move :: "rank_select_se \<Rightarrow> rank_select_se \<times> rank_select_se" where
  "se_move y = (y, se_risk_release_ownership y)"

definition se_swap :: "rank_select_se \<Rightarrow> rank_select_se \<Rightarrow> rank_select_se \<times> rank_select_se" where
  "se_swap x y =
     (let (bx, by') = febitvec_swap (se_bits x) (se_bits y) in
      (\<lparr>se_bits = bx, se_rank_cache = se_rank_cache y, se_sel0_cache = se_sel0_cache y,
        se_sel1_cache = se_sel1_cache y, se_max_rank0 = se_max_rank0 y, se_max_rank1 = se_max_rank1 y\<rparr>,
       \<lparr>se_bits = by', se_rank_cache = se_rank_cache x, se_sel0_cache = se_sel0_cache x,
        se_sel1_cache = se_sel1_cache x, se_max_rank0 = se_max_rank0 x, se_max_rank1 = se_max_rank1 x\<rparr>))"

definition se_risk_mmap_from :: "u64 list \<Rightarrow> nat \<Rightarrow> rank_select_se" where
  "se_risk_mmap_from base len =
     (let flags = base ! (len div 8 - 1);
          sz = unat (drop_bit 8 flags);
          ceiled_bits = align_up sz 256;
          nlines = ceiled_bits div 256;
          rank_cache = ceiled_bits div 64;
          max_rank1 = se_lev1 base rank_cache nlines;
          max_rank0 = size_sub sz max_rank1;
          select0_slots = (max_rank0 + 256 - 1) div 256;
          select_index = 2 * (rank_cache + nlines + 1);
          (sel0, select_index) =
            (if flags AND push_bit 0 1 \<noteq> 0 then (Some select_index, select_index + select0_slots + 1)
             else (None, select_index));
          sel1 = (if flags AND push_bit 1 1 \<noteq> 0 then Some select_index else None)
      in \<lparr>se_bits = \<lparr>m_words = Some base, m_size = sz, m_capacity = len * 8\<rparr>, se_rank_cache = Some rank_cache,
          se_sel0_cache = sel0, se_sel1_cache = sel1, se_max_rank0 = max_rank0, se_max_rank1 = max_rank1\<rparr>)"

section \<open>Building the caches\<close>

text \<open>\<open>for (j = 0; j < 4; ++j) { rank_cache[i].lev2[j] = r; r += popcount(pBit64[i*4 + j]); }\<close>\<close>

function se_fill_lev2 :: "nat \<Rightarrow> nat \<Rightarrow> nat \<Rightarrow> nat \<Rightarrow> u64 list \<Rightarrow> u64 list \<times> nat" where
  "se_fill_lev2 rank_cache i j r m =
     (if j < 4 then
        let m = set8 m (8 * (rank_cache + i) + 4 + j) (word_of_nat r)
        in se_fill_lev2 rank_cache i (Suc j) (r + fast_popcount (m ! (i * 4 + j))) m
      else (m, r))"
  by pat_completeness auto
termination
  by (relation "measure (\<lambda>(rank_cache, i, j, r, m). 4 - j)") auto

declare se_fill_lev2.simps [simp del]

function se_fill :: "nat \<Rightarrow> nat \<Rightarrow> nat \<Rightarrow> nat \<Rightarrow> u64 list \<Rightarrow> u64 list \<times> nat" where
  "se_fill rank_cache nlines i Rank1 m =
     (if i < nlines then
        let m = set32 m (2 * (rank_cache + i)) (word_of_nat Rank1);
            (m, r) = se_fill_lev2 rank_cache i 0 0 m
        in se_fill rank_cache nlines (Suc i) (Rank1 + r) m
      else (m, Rank1))"
  by pat_completeness auto
termination
  by (relation "measure (\<lambda>(rank_cache, nlines, i, Rank1, m). nlines - i)") auto

declare se_fill.simps [simp del]

text \<open>The first half of \<open>build_cache\<close>: the block is cut to the bits and then extended by the rank cache, which is
  filled. The result is the vector and the number of ones.\<close>

definition se_build_ranks :: "env \<Rightarrow> febitvec \<Rightarrow> error + febitvec \<times> nat" where
  "se_build_ranks e v =
     (case febitvec_shrink_to_fit e v of
        None \<Rightarrow> Inl Abort
      | Some v \<Rightarrow>
          let ceiled_bits = align_up (m_size v) 256; nlines = ceiled_bits div 256 in
          (case febitvec_reserve e (ceiled_bits + (nlines + 1) * 8 * 8) v of
             Inl err \<Rightarrow> Inl err
           | Inr v \<Rightarrow>
               let m = bits_range_set0 (bldata v) (m_size v) ceiled_bits;
                   rank_cache = ceiled_bits div 64;
                   (m, Rank1) = se_fill rank_cache nlines 0 0 m;
                   m = m[rank_cache + nlines := se_RankCache (word_of_nat Rank1)]
               in Inr (v\<lparr>m_words := Some m\<rparr>, Rank1)))"

text \<open>The second half: the block grows by the select caches and the flags, which are written.\<close>

definition se_build_index :: "env \<Rightarrow> bool \<Rightarrow> bool \<Rightarrow> rank_select_se \<Rightarrow> febitvec \<Rightarrow> nat \<Rightarrow> error + rank_select_se" where
  "se_build_index e speed_select0 speed_select1 s v Rank1 =
     (let ceiled_bits = align_up (m_size v) 256;
          nlines = ceiled_bits div 256;
          max_rank0 = size_sub (m_size v) Rank1;
          max_rank1 = Rank1;
          select0_slots = (max_rank0 + 256 - 1) div 256;
          select1_slots = (max_rank1 + 256 - 1) div 256;
          u32_slots = ((if speed_select0 then select0_slots + 1 else 0)
                       + (if speed_select1 then select1_slots + 1 else 0) + 1) div 2 * 2
      in case febitvec_reserve e (m_capacity v + 32 * (u32_slots + 2)) v of
           Inl err \<Rightarrow> Inl err
         | Inr v \<Rightarrow>
             let rank_cache = ceiled_bits div 64 in
             (case build_selects 256 256 256 (\<lambda>m. se_lev1 m rank_cache) (m_capacity v div 64 - rank_cache)
                     nlines (2 * (rank_cache + nlines + 1)) select0_slots select1_slots
                     speed_select0 speed_select1 (bldata v) of
                Inl err \<Rightarrow> Inl err
              | Inr (m, sel0, sel1) \<Rightarrow>
                  let m = m[m_capacity v div 64 - 1 := rs_flags (m_size v) speed_select0 speed_select1] in
                  Inr \<lparr>se_bits = v\<lparr>m_words := Some m\<rparr>, se_rank_cache = Some rank_cache,
                       se_sel0_cache = (if speed_select0 then sel0 else se_sel0_cache s),
                       se_sel1_cache = (if speed_select1 then sel1 else se_sel1_cache s),
                       se_max_rank0 = max_rank0, se_max_rank1 = max_rank1\<rparr>))"

definition se_build_cache :: "env \<Rightarrow> bool \<Rightarrow> bool \<Rightarrow> rank_select_se \<Rightarrow> error + rank_select_se" where
  "se_build_cache e speed_select0 speed_select1 s =
     (if rank_select_check_overflow (m_size (se_bits s)) then Inl Length_error
      else if m_words (se_bits s) = None then Inr s
      else case se_build_ranks e (se_bits s) of
             Inl err \<Rightarrow> Inl err
           | Inr (v, Rank1) \<Rightarrow> se_build_index e speed_select0 speed_select1 s v Rank1)"

section \<open>Queries\<close>

definition se_size :: "rank_select_se \<Rightarrow> nat" where
  "se_size s = m_size (se_bits s)"

definition se_mem_size :: "rank_select_se \<Rightarrow> nat" where
  "se_mem_size s = m_capacity (se_bits s) div 8"

definition se_is1 :: "rank_select_se \<Rightarrow> nat \<Rightarrow> bool" where
  "se_is1 s i = febitvec_is1 (se_bits s) i"

definition se_fast_rank1 :: "u64 list \<Rightarrow> nat \<Rightarrow> nat \<Rightarrow> nat" where
  "se_fast_rank1 bits rankCache bitpos =
     se_lev1 bits rankCache (bitpos div 256) + se_lev2 bits rankCache (bitpos div 256) (bitpos div 64 mod 4)
     + fast_popcount_trail (bits ! (bitpos div 64)) (bitpos mod 64)"

definition se_fast_rank0 :: "u64 list \<Rightarrow> nat \<Rightarrow> nat \<Rightarrow> nat" where
  "se_fast_rank0 bits rankCache bitpos = size_sub bitpos (se_fast_rank1 bits rankCache bitpos)"

definition se_rank1 :: "rank_select_se \<Rightarrow> nat \<Rightarrow> nat" where
  "se_rank1 s bitpos =
     (let m = bldata (se_bits s); rank_cache = the (se_rank_cache s) in
      se_lev1 m rank_cache (bitpos div 256) + se_lev2 m rank_cache (bitpos div 256) (bitpos div 64 mod 4)
      + fast_popcount_trail (m ! (bitpos div 64)) (bitpos mod 64))"

definition se_rank0 :: "rank_select_se \<Rightarrow> nat \<Rightarrow> nat" where
  "se_rank0 s bitpos = size_sub bitpos (se_rank1 s bitpos)"

definition se_excess1 :: "rank_select_se \<Rightarrow> nat \<Rightarrow> nat" where
  "se_excess1 s bp = size_sub (2 * se_rank1 s bp) bp"

text \<open>The linear scans of the static functions read the rank cache without a bound; \<open>None\<close> is a scan
  that leaves the block.\<close>

definition se_fast_select0 :: "u64 list \<Rightarrow> nat \<Rightarrow> nat \<Rightarrow> nat \<Rightarrow> nat option" where
  "se_fast_select0 bits sel0 rankCache Rank0 =
     (let lo = unat (get32 bits (sel0 + Rank0 div 256));
          hi = unat (get32 bits (sel0 + (Rank0 div 256 + 1)));
          val = (\<lambda>k. 256 * k - se_lev1 bits rankCache k)
      in case (if size_sub hi lo < 32 then scan_while (\<lambda>k. val k \<le> Rank0) lo (length bits - rankCache)
               else Some (ub_loop val Rank0 lo hi)) of
           None \<Rightarrow> None
         | Some lo \<Rightarrow>
             Some (line4_select0 (se_lev2 bits rankCache (lo - 1)) (\<lambda>j. bits ! (4 * (lo - 1) + j)) Rank0
               (256 * (lo - 1) - se_lev1 bits rankCache (lo - 1)) ((lo - 1) * 256)))"

definition se_fast_select1 :: "u64 list \<Rightarrow> nat \<Rightarrow> nat \<Rightarrow> nat \<Rightarrow> nat option" where
  "se_fast_select1 bits sel1 rankCache Rank1 =
     (let lo = unat (get32 bits (sel1 + Rank1 div 256));
          hi = unat (get32 bits (sel1 + (Rank1 div 256 + 1)));
          val = se_lev1 bits rankCache
      in case (if size_sub hi lo < 32 then scan_while (\<lambda>k. val k \<le> Rank1) lo (length bits - rankCache)
               else Some (ub_loop val Rank1 lo hi)) of
           None \<Rightarrow> None
         | Some lo \<Rightarrow>
             Some (line4_select1 (se_lev2 bits rankCache (lo - 1)) (\<lambda>j. bits ! (4 * (lo - 1) + j)) Rank1
               (se_lev1 bits rankCache (lo - 1)) ((lo - 1) * 256)))"

definition se_select0 :: "rank_select_se \<Rightarrow> nat \<Rightarrow> nat" where
  "se_select0 s Rank0 =
     (let m = bldata (se_bits s);
          rank_cache = the (se_rank_cache s);
          (lo, hi) = (case se_sel0_cache s of
                        Some sel0 \<Rightarrow> (unat (get32 m (sel0 + Rank0 div 256)), unat (get32 m (sel0 + (Rank0 div 256 + 1))))
                      | None \<Rightarrow> (0, (m_size (se_bits s) + 256 + 1) div 256));
          lo = ub_loop (\<lambda>mid. 256 * mid - se_lev1 m rank_cache mid) Rank0 lo hi
      in line4_select0 (se_lev2 m rank_cache (lo - 1)) (\<lambda>j. m ! (4 * (lo - 1) + j)) Rank0
           (256 * (lo - 1) - se_lev1 m rank_cache (lo - 1)) ((lo - 1) * 256))"

definition se_select1 :: "rank_select_se \<Rightarrow> nat \<Rightarrow> nat" where
  "se_select1 s Rank1 =
     (let m = bldata (se_bits s);
          rank_cache = the (se_rank_cache s);
          (lo, hi) = (case se_sel1_cache s of
                        Some sel1 \<Rightarrow> (unat (get32 m (sel1 + Rank1 div 256)), unat (get32 m (sel1 + (Rank1 div 256 + 1))))
                      | None \<Rightarrow> (0, (m_size (se_bits s) + 256 + 1) div 256));
          lo = ub_loop (se_lev1 m rank_cache) Rank1 lo hi
      in line4_select1 (se_lev2 m rank_cache (lo - 1)) (\<lambda>j. m ! (4 * (lo - 1) + j)) Rank1
           (se_lev1 m rank_cache (lo - 1)) ((lo - 1) * 256))"

definition se_isall0 :: "rank_select_se \<Rightarrow> bool" where "se_isall0 s \<longleftrightarrow> se_max_rank1 s = 0"
definition se_isall1 :: "rank_select_se \<Rightarrow> bool" where "se_isall1 s \<longleftrightarrow> se_max_rank0 s = 0"

section \<open>Invariant\<close>

definition se_lines :: "rank_select_se \<Rightarrow> nat" where
  "se_lines s = align_up (se_size s) 256 div 256"

definition se_bit :: "rank_select_se \<Rightarrow> nat \<Rightarrow> bool" where
  "se_bit s = mbit (bldata (se_bits s))"

definition se_line_rank :: "rank_select_se \<Rightarrow> nat \<Rightarrow> nat" where
  "se_line_rank s = se_lev1 (bldata (se_bits s)) (the (se_rank_cache s))"

text \<open>The rank cache of \<open>N\<close> lines at word \<open>rc\<close> counts the bits of the block.\<close>

definition se_cache_ok :: "u64 list \<Rightarrow> nat \<Rightarrow> nat \<Rightarrow> bool" where
  "se_cache_ok m rc N \<longleftrightarrow>
     (\<forall>k \<le> N. se_lev1 m rc k = cnt (mbit m) (256 * k))
     \<and> (\<forall>k < N. \<forall>j < 4. se_lev2 m rc k j = cnt (mbit m) (256 * k + 64 * j) - cnt (mbit m) (256 * k))
     \<and> (\<forall>j < 4. se_lev2 m rc N j = 0)"

definition se_inv :: "rank_select_se \<Rightarrow> bool" where
  "se_inv s \<longleftrightarrow>
     (let v = se_bits s; m = bldata v; N = se_lines s in
      febitvec_inv v \<and> m_size v < 2 ^ 32 \<and> m_words v \<noteq> None
      \<and> se_rank_cache s = Some (4 * N) \<and> 4 * N + N < length m
      \<and> (\<forall>p. m_size v \<le> p \<and> p < 256 * N \<longrightarrow> \<not> mbit m p)
      \<and> se_cache_ok m (4 * N) N
      \<and> se_max_rank1 s = cnt (mbit m) (m_size v) \<and> se_max_rank0 s = m_size v - se_max_rank1 s
      \<and> (\<forall>c. se_sel0_cache s = Some c \<longrightarrow>
           sel_cache_ok (\<lambda>k. 256 * k - se_line_rank s k) 256 N ((se_max_rank0 s + 256 - 1) div 256) (\<lambda>j. unat (get32 m (c + j))))
      \<and> (\<forall>c. se_sel1_cache s = Some c \<longrightarrow>
           sel_cache_ok (se_line_rank s) 256 N ((se_max_rank1 s + 256 - 1) div 256) (\<lambda>j. unat (get32 m (c + j)))))"

definition se_ex :: rank_select_se where
  "se_ex = se_with \<lparr>m_words = Some [5, 0], m_size = 70, m_capacity = 128\<rparr>"

definition se_ex2 :: rank_select_se where
  "se_ex2 = se_with \<lparr>m_words = Some [5, 0, 0, 0, 0], m_size = 300, m_capacity = 320\<rparr>"

section \<open>The rank cache is built right\<close>

lemma same_except_set8_in:
  "i div 8 < length m \<Longrightarrow> a \<le> 8 * i \<Longrightarrow> 8 * i + 8 \<le> b \<Longrightarrow> same_except m (set8 m i v) a b"
  by (rule same_except_widen [OF same_except_set8])

lemma get32_low: "get32 m (2 * w) = ucast (m ! w)"
  by (rule bit_word_eqI) (simp add: bit_views bit_simps mem_bits.f_word)

lemma cnt_sub_line: "j \<le> 4 \<Longrightarrow> cnt f (256 * i + 64 * j) - cnt f (256 * i) \<le> 64 * j"
  unfolding cnt_add by simp

text \<open>One line: the bytes \<open>lev2\<close> of entry \<open>i\<close>; \<open>m0\<close> is the block before the cache is written.\<close>

lemma se_fill_lev2_ok:
  assumes rc: "4 * N \<le> rc" "i < N" "rc + i < length m0"
    and same: "same_except m0 m (64 * rc) (64 * length m0)" and j: "j \<le> 4"
    and filled: "\<And>k. k < j \<Longrightarrow> se_lev2 m rc i k = cnt (mbit m0) (256 * i + 64 * k) - cnt (mbit m0) (256 * i)"
  shows "\<exists>m'. se_fill_lev2 rc i j (cnt (mbit m0) (256 * i + 64 * j) - cnt (mbit m0) (256 * i)) m
      = (m', cnt (mbit m0) (256 * i + 256) - cnt (mbit m0) (256 * i))
    \<and> same_except m m' (64 * (rc + i) + 32) (64 * (rc + i) + 64)
    \<and> (\<forall>k < 4. se_lev2 m' rc i k = cnt (mbit m0) (256 * i + 64 * k) - cnt (mbit m0) (256 * i))"
  using same j filled
proof (induction "4 - j" arbitrary: j m)
  case 0
  then have "j = 4" by simp
  with 0 show ?case by (subst se_fill_lev2.simps) simp
next
  case (Suc d)
  then have j4: "j < 4" by simp
  define r where "r = cnt (mbit m0) (256 * i + 64 * j) - cnt (mbit m0) (256 * i)"
  define b where "b = 8 * (rc + i) + 4 + j"
  define m2 where "m2 = set8 m b (word_of_nat r)"
  have "b div 8 = rc + i" unfolding b_def using j4 by (intro div_nat_eqI) simp_all
  then have len: "b div 8 < length m" using rc(3) same_except_length [OF Suc.prems(1)] by simp
  have s: "same_except m m2 (64 * (rc + i) + 32) (64 * (rc + i) + 64)"
    unfolding m2_def using j4 by (intro same_except_set8_in [OF len]) (simp_all add: b_def)
  have s0: "same_except m0 m2 (64 * rc) (64 * length m0)"
    using rc(3) by (intro same_except_trans [OF Suc.prems(1)] same_except_widen [OF s]) simp_all
  have ur: "unat (word_of_nat r :: u8) = r"
    using cnt_sub_line [of j "mbit m0" i] j4 by (simp add: r_def unat_of_nat)
  have w: "m2 ! (i * 4 + j) = m0 ! (i * 4 + j)"
    using rc(1,2) j4 by (intro same_except_nth [OF s0]) simp
  have next': "r + fast_popcount (m2 ! (i * 4 + j)) = cnt (mbit m0) (256 * i + 64 * Suc j) - cnt (mbit m0) (256 * i)"
  proof -
    have e: "64 * (i * 4 + j) = 256 * i + 64 * j" by simp
    have "cnt (mbit m0) (256 * i + 64 * j + 64) = cnt (mbit m0) (256 * i + 64 * j) + fast_popcount (m0 ! (i * 4 + j))"
      using mem_bits.cnt_next [of m0 "i * 4 + j"] unfolding e .
    moreover have e2: "256 * i + 64 * Suc j = 256 * i + 64 * j + 64" by simp
    moreover have "cnt (mbit m0) (256 * i) \<le> cnt (mbit m0) (256 * i + 64 * j)" by (rule cnt_mono) simp
    ultimately show ?thesis unfolding w r_def e2 by simp
  qed
  have g2: "se_lev2 m2 rc i k = (if k = j then r else se_lev2 m rc i k)" for k
    unfolding se_lev2_def m2_def get8_set8 [OF len] using ur by (simp add: b_def)
  have f2: "se_lev2 m2 rc i k = cnt (mbit m0) (256 * i + 64 * k) - cnt (mbit m0) (256 * i)" if "k < Suc j" for k
    using that Suc.prems(3) [of k] by (simp add: g2 r_def)
  have dd: "d = 4 - Suc j" using Suc.hyps(2) by simp
  obtain m' where m': "se_fill_lev2 rc i (Suc j) (cnt (mbit m0) (256 * i + 64 * Suc j) - cnt (mbit m0) (256 * i)) m2
      = (m', cnt (mbit m0) (256 * i + 256) - cnt (mbit m0) (256 * i))"
    "same_except m2 m' (64 * (rc + i) + 32) (64 * (rc + i) + 64)"
    "\<forall>k < 4. se_lev2 m' rc i k = cnt (mbit m0) (256 * i + 64 * k) - cnt (mbit m0) (256 * i)"
    using Suc.hyps(1) [OF dd s0 Suc_leI [OF j4] f2] by blast
  have "se_fill_lev2 rc i j r m = se_fill_lev2 rc i (Suc j) (r + fast_popcount (m2 ! (i * 4 + j))) m2"
    using j4 by (subst se_fill_lev2.simps) (simp add: Let_def m2_def b_def)
  then show ?case
    unfolding next' r_def [symmetric] using m' same_except_trans [OF s m'(2)] by auto
qed

lemma se_lev_same:
  assumes "same_except m m' a b" and "64 * (rc + k) + 64 \<le> a \<or> b \<le> 64 * (rc + k)"
  shows "se_lev1 m' rc k = se_lev1 m rc k" and "j < 4 \<Longrightarrow> se_lev2 m' rc k j = se_lev2 m rc k j"
proof -
  show "se_lev1 m' rc k = se_lev1 m rc k"
    unfolding se_lev1_def using assms(2) by (subst same_except_get32 [OF assms(1)]) auto
  show "se_lev2 m' rc k j = se_lev2 m rc k j" if "j < 4"
    unfolding se_lev2_def using assms(2) that by (subst same_except_get8 [OF assms(1)]) auto
qed

lemma se_fill_ok:
  assumes rc: "4 * N \<le> rc" "rc + N \<le> length m0"
    and small: "\<And>k. k \<le> N \<Longrightarrow> cnt (mbit m0) (256 * k) < 2 ^ 32"
    and same: "same_except m0 m (64 * rc) (64 * (rc + N))" and i: "i \<le> N"
    and filled: "\<And>k. k < i \<Longrightarrow> se_lev1 m rc k = cnt (mbit m0) (256 * k)"
      "\<And>k j. k < i \<Longrightarrow> j < 4 \<Longrightarrow> se_lev2 m rc k j = cnt (mbit m0) (256 * k + 64 * j) - cnt (mbit m0) (256 * k)"
  shows "\<exists>m'. se_fill rc N i (cnt (mbit m0) (256 * i)) m = (m', cnt (mbit m0) (256 * N))
    \<and> same_except m0 m' (64 * rc) (64 * (rc + N))
    \<and> (\<forall>k < N. se_lev1 m' rc k = cnt (mbit m0) (256 * k))
    \<and> (\<forall>k < N. \<forall>j < 4. se_lev2 m' rc k j = cnt (mbit m0) (256 * k + 64 * j) - cnt (mbit m0) (256 * k))"
  using same i filled
proof (induction "N - i" arbitrary: i m)
  case 0
  then have "i = N" by simp
  with 0 show ?case by (subst se_fill.simps) simp
next
  case (Suc d)
  then have iN: "i < N" by simp
  define f where "f = mbit m0"
  define m1 where "m1 = set32 m (2 * (rc + i)) (word_of_nat (cnt f (256 * i)))"
  have len: "2 * (rc + i) div 2 < length m" using rc(2) iN same_except_length [OF Suc.prems(1)] by simp
  have s1: "same_except m m1 (64 * (rc + i)) (64 * (rc + i) + 64)"
    unfolding m1_def by (rule same_except_set32_in [OF len]) simp_all
  have s01: "same_except m0 m1 (64 * rc) (64 * length m0)"
    using rc(2) iN by (intro same_except_trans [OF same_except_widen [OF Suc.prems(1)] same_except_widen [OF s1]]) simp_all
  have ri: "rc + i < length m0" using rc(2) iN by simp
  obtain m2 where m2: "se_fill_lev2 rc i 0 0 m1 = (m2, cnt f (256 * i + 256) - cnt f (256 * i))"
    "same_except m1 m2 (64 * (rc + i) + 32) (64 * (rc + i) + 64)"
    "\<forall>k < 4. se_lev2 m2 rc i k = cnt f (256 * i + 64 * k) - cnt f (256 * i)"
    using se_fill_lev2_ok [OF rc(1) iN ri s01, of 0] by (auto simp: f_def)
  have s2: "same_except m m2 (64 * (rc + i)) (64 * (rc + i) + 64)"
    by (rule same_except_trans [OF s1 same_except_widen [OF m2(2)]]) simp_all
  have s02: "same_except m0 m2 (64 * rc) (64 * (rc + N))"
    using iN by (intro same_except_trans [OF Suc.prems(1) same_except_widen [OF s2]]) simp_all
  have ui: "unat (word_of_nat (cnt f (256 * i)) :: u32) = cnt f (256 * i)"
    using small [of i] iN by (simp add: unat_of_nat f_def)
  have l1: "se_lev1 m2 rc i = cnt f (256 * i)"
  proof -
    have "get32 m1 (2 * (rc + i)) = word_of_nat (cnt f (256 * i))" unfolding m1_def get32_set32 [OF len] by simp
    then show ?thesis unfolding se_lev1_def using ui by (subst same_except_get32 [OF m2(2)]) simp_all
  qed
  have f1: "se_lev1 m2 rc k = cnt f (256 * k)" if "k < Suc i" for k
    using that l1 Suc.prems(3) [of k] se_lev_same(1) [OF s2, of rc k] by (cases "k = i") (simp_all add: f_def)
  have f2: "se_lev2 m2 rc k j = cnt f (256 * k + 64 * j) - cnt f (256 * k)" if "k < Suc i" "j < 4" for k j
    using that m2(3) Suc.prems(4) [of k j] se_lev_same(2) [OF s2, of rc k j] by (cases "k = i") (simp_all add: f_def)
  have R: "cnt f (256 * i) + (cnt f (256 * i + 256) - cnt f (256 * i)) = cnt f (256 * Suc i)"
    using cnt_mono [of "256 * i" "256 * i + 256" f] by (simp add: add.commute)
  have dd: "d = N - Suc i" using Suc.hyps(2) by simp
  obtain m' where "se_fill rc N (Suc i) (cnt f (256 * Suc i)) m2 = (m', cnt f (256 * N))"
    "same_except m0 m' (64 * rc) (64 * (rc + N))"
    "\<forall>k < N. se_lev1 m' rc k = cnt f (256 * k)"
    "\<forall>k < N. \<forall>j < 4. se_lev2 m' rc k j = cnt f (256 * k + 64 * j) - cnt f (256 * k)"
    using Suc.hyps(1) [OF dd s02 Suc_leI [OF iN] f1 [unfolded f_def] f2 [unfolded f_def]] unfolding f_def by blast
  moreover have "se_fill rc N i (cnt f (256 * i)) m = se_fill rc N (Suc i) (cnt f (256 * Suc i)) m2"
  proof -
    have "se_fill rc N i (cnt f (256 * i)) m = (case se_fill_lev2 rc i 0 0 m1 of
        (m, r) \<Rightarrow> se_fill rc N (Suc i) (cnt f (256 * i) + r) m)"
      using iN by (subst se_fill.simps) (simp only: Let_def m1_def if_True)
    then show ?thesis unfolding m2(1) prod.case R .
  qed
  ultimately show ?case unfolding f_def by auto
qed

text \<open>The block after the rank cache is complete.\<close>

lemma se_cache_mem:
  fixes n defines "N \<equiv> align_up n 256 div 256"
  assumes small: "n < 2 ^ 32" and room: "4 * N + N < length m"
  defines "m1 \<equiv> bits_range_set0 m n (256 * N)"
  defines "m3 \<equiv> (fst (se_fill (4 * N) N 0 0 m1))[4 * N + N := se_RankCache (word_of_nat (snd (se_fill (4 * N) N 0 0 m1)))]"
  shows "length m3 = length m" and "snd (se_fill (4 * N) N 0 0 m1) = cnt (mbit m) n"
    and "\<And>p. p < n \<Longrightarrow> mbit m3 p = mbit m p" and "\<And>p. n \<le> p \<Longrightarrow> p < 256 * N \<Longrightarrow> \<not> mbit m3 p"
    and "se_cache_ok m3 (4 * N) N"
proof -
  note L = lines256 [of n, folded N_def]
  have b1: "mbit m1 p = (mbit m p \<and> \<not> (n \<le> p \<and> p < 256 * N))" for p
    unfolding m1_def using L(4) room by (intro mbit_bits_range_set0) simp_all
  have l1: "length m1 = length m" by (simp add: m1_def)
  have cm: "cnt (mbit m1) (256 * N) = cnt (mbit m) n"
  proof -
    have "cnt (mbit m1) (256 * N) = cnt (mbit m1) n" using L(4) by (intro cnt_pad) (auto simp: b1)
    also have "\<dots> = cnt (mbit m) n" by (rule cnt_cong) (simp add: b1)
    finally show ?thesis .
  qed
  have cs: "cnt (mbit m) n < 2 ^ 32" by (rule le_less_trans [OF cnt_le small])
  have sm: "cnt (mbit m1) (256 * k) < 2 ^ 32" if "k \<le> N" for k
    using cnt_mono [of "256 * k" "256 * N" "mbit m1"] that cm cs by simp
  have room1: "4 * N + N \<le> length m1" using room by (simp add: l1)
  obtain m2 where m2: "se_fill (4 * N) N 0 0 m1 = (m2, cnt (mbit m1) (256 * N))"
    "same_except m1 m2 (64 * (4 * N)) (64 * (4 * N + N))"
    "\<forall>k<N. se_lev1 m2 (4 * N) k = cnt (mbit m1) (256 * k)"
    "\<forall>k<N. \<forall>j<4. se_lev2 m2 (4 * N) k j = cnt (mbit m1) (256 * k + 64 * j) - cnt (mbit m1) (256 * k)"
    using se_fill_ok [OF order_refl room1 sm, of m1 0] by auto
  show "snd (se_fill (4 * N) N 0 0 m1) = cnt (mbit m) n" using m2(1) cm by simp
  have m3: "m3 = m2[4 * N + N := ucast (word_of_nat (cnt (mbit m) n) :: u32)]"
    using m2(1) cm by (simp add: m3_def se_RankCache_def)
  have l2: "length m2 = length m" using same_except_length [OF m2(2)] l1 by simp
  then show "length m3 = length m" by (simp add: m3)
  have s23: "same_except m2 m3 (64 * (4 * N + N)) (64 * (4 * N + N) + 64)" unfolding m3 by (rule same_except_update)
  have s3: "same_except m1 m3 (256 * N) (64 * (4 * N + N) + 64)"
    by (rule same_except_trans [OF same_except_widen [OF m2(2)] same_except_widen [OF s23]]) simp_all
  have b3: "mbit m3 p = mbit m1 p" if "p < 256 * N" for p using same_except_mbit [OF s3, of p] that by simp
  show "mbit m3 p = mbit m p" if "p < n" for p using that L(4) by (simp add: b3 b1)
  show "\<not> mbit m3 p" if "n \<le> p" "p < 256 * N" for p using that by (simp add: b3 b1)
  have c3: "cnt (mbit m3) q = cnt (mbit m1) q" if "q \<le> 256 * N" for q by (rule cnt_same [OF s3 that])
  have last: "m3 ! (4 * N + N) = ucast (word_of_nat (cnt (mbit m) n) :: u32)" using room l2 by (simp add: m3)
  have lastN: "se_lev1 m3 (4 * N) N = cnt (mbit m) n"
  proof -
    have "get32 m3 (2 * (4 * N + N)) = ucast (m3 ! (4 * N + N))" by (rule get32_low)
    also have "\<dots> = (word_of_nat (cnt (mbit m) n) :: u32)" unfolding last by (rule bit_word_eqI) (simp add: bit_simps)
    finally show ?thesis using cs by (simp add: se_lev1_def unat_of_nat)
  qed
  have lev2N: "se_lev2 m3 (4 * N) N j = 0" if "j < 4" for j
  proof -
    have "get8 m3 (8 * (4 * N + N) + 4 + j) = 0"
    proof (rule bit_word_eqI)
      fix k assume k: "k < LENGTH(8)"
      have e: "8 * (8 * (4 * N + N) + 4 + j) + k = 64 * (4 * N + N) + (32 + 8 * j + k)" by simp
      have lt: "32 + 8 * j + k < 64" using that k by simp
      have "\<not> mbit m3 (64 * (4 * N + N) + (32 + 8 * j + k))"
        unfolding mem_bits.f_word [OF lt] last by (simp add: bit_simps)
      then show "bit (get8 m3 (8 * (4 * N + N) + 4 + j)) k = bit 0 k" unfolding bit_views e by simp
    qed
    then show ?thesis by (simp add: se_lev2_def)
  qed
  show "se_cache_ok m3 (4 * N) N"
    unfolding se_cache_ok_def
  proof (intro conjI allI impI)
    fix k assume k: "k \<le> N"
    show "se_lev1 m3 (4 * N) k = cnt (mbit m3) (256 * k)"
      using lastN cm m2(3) se_lev_same(1) [OF s23, of "4 * N" k] k by (cases "k = N") (simp_all add: c3)
  next
    fix k j :: nat assume k: "k < N" "j < 4"
    show "se_lev2 m3 (4 * N) k j = cnt (mbit m3) (256 * k + 64 * j) - cnt (mbit m3) (256 * k)"
      using m2(4) se_lev_same(2) [OF s23, of "4 * N" k j] k by (simp add: c3)
  qed (rule lev2N)
qed

lemma se_cache_ok_agree:
  assumes "agree m m' (64 * (rc + N + 1))" and "4 * N \<le> rc" and "se_cache_ok m rc N"
  shows "se_cache_ok m' rc N"
proof -
  have l: "se_lev1 m' rc k = se_lev1 m rc k" "j < 4 \<Longrightarrow> se_lev2 m' rc k j = se_lev2 m rc k j" if "k \<le> N" for k j
    unfolding se_lev1_def se_lev2_def using that
    by (subst agree_get32 [OF assms(1)], simp_all, subst agree_get8 [OF assms(1)], simp_all)
  have c: "cnt (mbit m') p = cnt (mbit m) p" if "p \<le> 256 * N" for p
    using that assms(2) by (intro agree_cnt [OF assms(1)]) simp
  show ?thesis using assms(3) unfolding se_cache_ok_def by (auto simp: l c)
qed

section \<open>The whole build\<close>

lemma se_build_ranks_ok:
  assumes inv: "febitvec_inv v" and small: "m_size v < 2 ^ 32" and b: "se_build_ranks e v = Inr (v3, R)"
  defines "n \<equiv> m_size v"
  defines "N \<equiv> align_up n 256 div 256"
  shows "febitvec_inv v3" and "m_size v3 = n" and "R = cnt (mbit (bldata v3)) n" and "m_words v3 = Some (bldata v3)"
    and "\<And>p. p < n \<Longrightarrow> mbit (bldata v3) p = mbit (bldata v) p" and "\<And>p. n \<le> p \<Longrightarrow> p < 256 * N \<Longrightarrow> \<not> mbit (bldata v3) p"
    and "se_cache_ok (bldata v3) (4 * N) N" and "4 * N + N < length (bldata v3)"
proof -
  note L = lines256 [of n, folded N_def]
  have LD: "256 * N div 64 = 4 * N" "256 * N div 256 = N" using L(1,2) by simp_all
  obtain v1 where v1: "febitvec_shrink_to_fit e v = Some v1"
    using b by (auto simp: se_build_ranks_def split: option.splits)
  note sh = shrink_ok [OF inv v1]
  have sz1: "m_size v1 = n" using sh(3) by (simp add: n_def)
  obtain v2 where v2: "febitvec_reserve e (256 * N + (N + 1) * 8 * 8) v1 = Inr v2"
    using b v1 L by (auto simp: se_build_ranks_def Let_def sz1 split: sum.splits)
  note rs = reserve_ok [OF sh(1) v2]
  have sz2: "m_size v2 = n" using rs(2) sz1 by simp
  have room: "4 * N + N < length (bldata v2)" using rs(4) febitvec_invD(2) [OF rs(1)] by simp
  define fl where "fl = se_fill (4 * N) N 0 0 (bits_range_set0 (bldata v2) n (256 * N))"
  define m3 where "m3 = (fst fl)[4 * N + N := se_RankCache (word_of_nat (snd fl))]"
  have "se_build_ranks e v = Inr (v2\<lparr>m_words := Some m3\<rparr>, snd fl)"
    using v1 v2 by (simp only: se_build_ranks_def Let_def option.case sum.case sz1 sz2 L(1) LD case_prod_unfold fl_def [symmetric] m3_def [symmetric])
  then have v3: "v3 = v2\<lparr>m_words := Some m3\<rparr>" "R = snd fl" using b by simp_all
  note M = se_cache_mem [OF small [folded n_def] room [unfolded N_def], folded N_def, folded fl_def, folded m3_def]
  show "febitvec_inv v3" using rs(1) M(1) by (simp add: v3 febitvec_inv_def)
  show "m_size v3 = n" "m_words v3 = Some (bldata v3)" by (simp_all add: v3 sz2)
  show "R = cnt (mbit (bldata v3)) n" using M(2,3) by (simp add: v3 cong: cnt_cong)
  show "mbit (bldata v3) p = mbit (bldata v) p" if "p < n" for p
  proof -
    have "mbit (bldata v2) p = mbit (bldata v1) p" using rs(3) that sz1 by (simp add: bits_kept_def)
    also have "\<dots> = mbit (bldata v) p"
      using sh(2,3) that nth_bvec [of p v1] nth_bvec [of p v] by (simp add: n_def)
    finally show ?thesis using M(3) that by (simp add: v3)
  qed
  show "\<not> mbit (bldata v3) p" if "n \<le> p" "p < 256 * N" for p using M(4) that by (simp add: v3)
  show "se_cache_ok (bldata v3) (4 * N) N" "4 * N + N < length (bldata v3)" using M(1,5) room by (simp_all add: v3)
qed

text \<open>What the second half adds to a vector with its rank cache.\<close>

lemma se_build_index_ok:
  assumes inv: "febitvec_inv v3" "m_words v3 = Some (bldata v3)" and nv: "\<not> hasValgrind e"
    and small: "n < 2 ^ 32" and n: "m_size v3 = n" and R: "R = cnt (mbit (bldata v3)) n"
    and zero: "\<And>p. n \<le> p \<Longrightarrow> p < 256 * N \<Longrightarrow> \<not> mbit (bldata v3) p"
    and cache: "se_cache_ok (bldata v3) (4 * N) N" "4 * N + N < length (bldata v3)" and N: "N = align_up n 256 div 256"
    and null: "se_sel0_cache s = None" "se_sel1_cache s = None"
    and v4: "febitvec_reserve e (m_capacity v3 + 32 * (((if s0 then (n - R + 256 - 1) div 256 + 1 else 0)
      + (if s1 then (R + 256 - 1) div 256 + 1 else 0) + 1) div 2 * 2 + 2)) v3 = Inr v4"
  shows "\<exists>s'. se_build_index e s0 s1 s v3 R = Inr s' \<and> se_inv s' \<and> se_size s' = n
    \<and> (\<forall>i < n. se_bit s' i = mbit (bldata v3) i) \<and> last (bldata (se_bits s')) = rs_flags n s0 s1
    \<and> se_sel0_cache s' = (if s0 then Some (2 * (5 * N + 1)) else None)
    \<and> se_sel1_cache s' = (if s1 then Some (2 * (5 * N + 1)
      + (if s0 then (se_max_rank0 s' + 256 - 1) div 256 + 1 else 0)) else None)"
proof -
  note L = lines256 [of n, folded N]
  have LD: "256 * N div 64 = 4 * N" "256 * N div 256 = N" using L(1,2) by simp_all
  define si where "si = 2 * (4 * N + N + 1)"
  define slots0 slots1 where "slots0 = (n - R + 256 - 1) div 256" and "slots1 = (R + 256 - 1) div 256"
  note r4 = reserve_ok [OF inv(1) v4]
  have Rn: "R \<le> n" unfolding R by (rule cnt_le)
  have vR: "se_lev1 (bldata v3) (4 * N) N = R"
    using cache(1) cnt_pad [OF L(4) zero] R by (simp add: se_cache_ok_def)
  have frame: "se_lev1 m' (4 * N) k = se_lev1 m (4 * N) k" if "agree m m' (32 * si)" "k \<le> N" for m m' k
    unfolding se_lev1_def using that(2) by (subst agree_get32 [OF that(1)]) (simp_all add: si_def)
  have si: "si \<le> 2 * length (bldata v3)" using cache(2) by (simp add: si_def)
  have nl: "N < m_capacity v4 div 64 - 4 * N" "N < 2 ^ 32"
  proof -
    have "m_capacity v3 \<le> m_capacity v4" by (rule order_trans [OF le_add1 r4(4)])
    moreover have "64 * (4 * N + N + 1) \<le> m_capacity v3"
      unfolding febitvec_invD(2) [OF inv(1)] using cache(2) by (intro mult_le_mono2) simp
    ultimately have "64 * (4 * N + N + 1) \<le> m_capacity v4" by (rule order_trans [rotated])
    then have "4 * N + N + 1 \<le> m_capacity v4 div 64" using div_le_mono [of "64 * (4 * N + N + 1)" "m_capacity v4" 64] by simp
    then show "N < m_capacity v4 div 64 - 4 * N" by simp
    show "N < 2 ^ 32" using small L(5) by simp
  qed
  obtain m5 m6 where b: "build_selects 256 256 256 (\<lambda>m. se_lev1 m (4 * N)) (m_capacity v4 div 64 - 4 * N) N si slots0 slots1 s0 s1 (bldata v4)
      = Inr (m5, if s0 then Some si else None, if s1 then Some (si + (if s0 then slots0 + 1 else 0)) else None)"
    and m6: "m6 = m5[m_capacity v4 div 64 - 1 := rs_flags n s0 s1]" "agree (bldata v3) m6 (32 * si)" "last m6 = rs_flags n s0 s1"
      "febitvec_inv (v4\<lparr>m_words := Some m6\<rparr>)" "si < 2 * length m6"
    and ok: "s0 \<longrightarrow> sel_cache_ok (\<lambda>k. 256 * k - se_lev1 m6 (4 * N) k) 256 N slots0 (\<lambda>j. unat (get32 m6 (si + j)))"
      "s1 \<longrightarrow> sel_cache_ok (se_lev1 m6 (4 * N)) 256 N slots1 (\<lambda>j. unat (get32 m6 (si + (if s0 then slots0 + 1 else 0) + j)))"
    using build_index_ok [where v = "\<lambda>m. se_lev1 m (4 * N)" and F = "\<lambda>m. m" and fl = "rs_flags n s0 s1",
        OF inv(1) nv v4 [folded slots0_def slots1_def] refl agree_refl si frame nl vR Rn L(4) slots0_def slots1_def] by blast
  have sz4: "m_size v4 = n" using r4(2) n by simp
  define s' where "s' = \<lparr>se_bits = v4\<lparr>m_words := Some m6\<rparr>, se_rank_cache = Some (4 * N),
    se_sel0_cache = (if s0 then Some si else None), se_sel1_cache = (if s1 then Some (si + (if s0 then slots0 + 1 else 0)) else None),
    se_max_rank0 = n - R, se_max_rank1 = R\<rparr>"
  have bld: "se_build_index e s0 s1 s v3 R = Inr s'"
    using v4 b null unfolding se_build_index_def Let_def n L(1) LD slots0_def slots1_def si_def s'_def m6(1) size_sub_le [OF Rn] by (simp add: sz4)
  have lines: "se_lines s' = N" by (simp add: s'_def se_lines_def se_size_def sz4 N)
  have b6: "mbit m6 p = mbit (bldata v3) p" if "p < 256 * N" for p
    using agree_mbit [OF m6(2), of p] that by (simp add: si_def)
  have c6: "cnt (mbit m6) n = R" unfolding R using L(4) b6 by (intro cnt_cong) simp
  have "se_cache_ok m6 (4 * N) N" by (rule se_cache_ok_agree [OF _ order_refl cache(1)]) (use m6(2) in \<open>simp add: si_def\<close>)
  then have "se_inv s'"
    unfolding se_inv_def Let_def lines se_line_rank_def
    using m6(4) small ok m6(5) c6 zero b6 by (simp add: s'_def sz4 slots0_def slots1_def si_def)
  moreover have "\<forall>i < n. se_bit s' i = mbit (bldata v3) i" using b6 L(4) by (simp add: s'_def se_bit_def)
  ultimately show ?thesis
    using bld m6(3) by (intro exI [of _ s']) (simp add: s'_def se_size_def sz4 si_def slots0_def)
qed

section \<open>Rank and select\<close>

lemma se_invD:
  assumes "se_inv s"
  shows "febitvec_inv (se_bits s)" and "se_size s < 2 ^ 32" and "se_rank_cache s = Some (4 * se_lines s)"
    and "4 * se_lines s + se_lines s < length (bldata (se_bits s))"
    and "\<And>p. se_size s \<le> p \<Longrightarrow> p < 256 * se_lines s \<Longrightarrow> \<not> se_bit s p"
    and "se_cache_ok (bldata (se_bits s)) (4 * se_lines s) (se_lines s)"
    and "se_max_rank1 s = cnt (se_bit s) (se_size s)" and "se_max_rank0 s = se_size s - se_max_rank1 s"
    and "\<And>c. se_sel0_cache s = Some c \<Longrightarrow> sel_cache_ok (\<lambda>k. 256 * k - se_line_rank s k) 256 (se_lines s)
      ((se_max_rank0 s + 256 - 1) div 256) (\<lambda>j. unat (get32 (bldata (se_bits s)) (c + j)))"
    and "\<And>c. se_sel1_cache s = Some c \<Longrightarrow> sel_cache_ok (se_line_rank s) 256 (se_lines s)
      ((se_max_rank1 s + 256 - 1) div 256) (\<lambda>j. unat (get32 (bldata (se_bits s)) (c + j)))"
  using assms unfolding se_inv_def Let_def se_size_def se_bit_def by blast+

lemma se_size_lines: "se_size s \<le> 256 * se_lines s"
  unfolding se_lines_def by (rule lines256(4))

lemma se_line_rank_cnt: "se_inv s \<Longrightarrow> k \<le> se_lines s \<Longrightarrow> se_line_rank s k = cnt (se_bit s) (256 * k)"
  using se_invD(3,6) [of s] by (simp add: se_line_rank_def se_cache_ok_def se_bit_def)

lemma se_lev2_cnt:
  assumes "se_inv s" and "k < se_lines s" and "j < 4"
  shows "se_lev2 (bldata (se_bits s)) (4 * se_lines s) k j = cnt (se_bit s) (256 * k + 64 * j) - cnt (se_bit s) (256 * k)"
  using se_invD(6) [OF assms(1)] assms(2,3) by (simp add: se_cache_ok_def se_bit_def)

interpretation se1: rank_lines se_inv se_bit 256 se_lines se_line_rank
  by unfold_locales (rule se_line_rank_cnt)

interpretation se0: rank_lines se_inv "\<lambda>s p. \<not> se_bit s p" 256 se_lines "\<lambda>s k. 256 * k - se_line_rank s k"
  by (rule se1.compl_lines)

lemma pos256: "256 * (p div 256) + 64 * (p div 64 mod 4) = 64 * (p div 64)" for p :: nat
proof -
  have e: "256 * d + 64 * m = 64 * (4 * d + m)" for d m :: nat by simp
  show ?thesis unfolding div_64_256 e by (simp only: mult_div_mod_eq)
qed

lemma se_fast_rank1_eq: "se_rank1 s p = se_fast_rank1 (bldata (se_bits s)) (the (se_rank_cache s)) p"
  by (simp add: se_rank1_def se_fast_rank1_def Let_def)

lemma se_rank1_cnt:
  assumes "se_inv s" and "p \<le> se_size s"
  shows "se_rank1 s p = cnt (se_bit s) p"
proof -
  define m where "m = bldata (se_bits s)"
  define k where "k = p div 256"
  define j where "j = p div 64 mod 4"
  have j: "j < 4" by (simp add: j_def)
  have kN: "k \<le> se_lines s" using div_le_mono [OF le_trans [OF assms(2) se_size_lines], of 256] by (simp add: k_def)
  have pos: "256 * k + 64 * j = 64 * (p div 64)" unfolding k_def j_def by (rule pos256)
  have lev: "se_line_rank s k + se_lev2 m (4 * se_lines s) k j = cnt (se_bit s) (64 * (p div 64))"
  proof (cases "k < se_lines s")
    case True
    have "cnt (se_bit s) (256 * k) \<le> cnt (se_bit s) (256 * k + 64 * j)" by (rule cnt_mono) simp
    then show ?thesis
      using se_line_rank_cnt [OF assms(1) kN] se_lev2_cnt [OF assms(1) True j] by (simp add: m_def pos)
  next
    case False
    then have k: "k = se_lines s" using kN by simp
    have "p \<le> 256 * k" using le_trans [OF assms(2) se_size_lines] k by simp
    then have p: "p = 256 * k" using mult_div_mod_eq [of 256 p] unfolding k_def by linarith
    then have "64 * (p div 64) = 256 * k" using pos j \<open>p \<le> 256 * k\<close> times_div_less_eq_dividend [of 64 p] by linarith
    moreover have "se_lev2 m (4 * se_lines s) k j = 0" using se_invD(6) [OF assms(1)] j k by (simp add: se_cache_ok_def m_def)
    ultimately show ?thesis using se_line_rank_cnt [OF assms(1) kN] by simp
  qed
  have "se_rank1 s p = se_line_rank s k + se_lev2 m (4 * se_lines s) k j + fast_popcount_trail (m ! (p div 64)) (p mod 64)"
    using se_invD(3) [OF assms(1)] by (simp add: se_rank1_def Let_def se_line_rank_def m_def k_def j_def)
  then show ?thesis
    unfolding lev using mem_bits.cnt_pos [of m p] by (simp add: se_bit_def m_def)
qed

text \<open>Once the line is found, its decision tree finds the bit.\<close>

lemma se_line_select1:
  assumes "se_inv s" and "0 < k" and "k \<le> se_lines s" and "se_line_rank s (k - 1) \<le> r" and "r < se_line_rank s k"
    and "r < cnt (se_bit s) (se_size s)"
  shows "line4_select1 (se_lev2 (bldata (se_bits s)) (4 * se_lines s) (k - 1)) (\<lambda>j. bldata (se_bits s) ! (4 * (k - 1) + j)) r
    (se_line_rank s (k - 1)) ((k - 1) * 256) = sel (se_bit s) (se_size s) r"
proof -
  note lf = se1.line_found [OF assms(1-5)]
  have e: "(k - 1) * 256 = 64 * (4 * (k - 1))" "\<And>j. 64 * (4 * (k - 1) + j) = 256 * (k - 1) + 64 * j" by simp_all
  have "k - 1 < se_lines s" using assms(2,3) by simp
  with lf assms(6) se_lev2_cnt [OF assms(1)] show ?thesis
    unfolding e(1) by (unfold se_bit_def, intro mem_bits.line4_select1_sel) (simp_all add: se_bit_def e(2))
qed

lemma sub_compl: "A \<le> base \<Longrightarrow> A \<le> B \<Longrightarrow> B - A \<le> x \<Longrightarrow> x - (B - A) = (base + x - B) - (base - A)" for A B base x :: nat
  by simp

lemma se_line_select0:
  assumes "se_inv s" and "0 < k" and "k \<le> se_lines s" and "256 * (k - 1) - se_line_rank s (k - 1) \<le> r"
    and "r < 256 * k - se_line_rank s k" and "r < cnt (\<lambda>p. \<not> se_bit s p) (se_size s)"
  shows "line4_select0 (se_lev2 (bldata (se_bits s)) (4 * se_lines s) (k - 1)) (\<lambda>j. bldata (se_bits s) ! (4 * (k - 1) + j)) r
    (256 * (k - 1) - se_line_rank s (k - 1)) ((k - 1) * 256) = sel (\<lambda>p. \<not> se_bit s p) (se_size s) r"
proof -
  define m where "m = bldata (se_bits s)"
  note lf = se0.line_found [OF assms(1-5)]
  have e: "(k - 1) * 256 = 64 * (4 * (k - 1))" "\<And>j. 64 * (4 * (k - 1) + j) = 256 * (k - 1) + 64 * j" by simp_all
  have k: "k - 1 < se_lines s" using assms(2,3) by simp
  have lev: "se_lev2 m (4 * se_lines s) (k - 1) j = cnt (mbit m) (256 * (k - 1) + 64 * j) - cnt (mbit m) (256 * (k - 1))" if "j < 4" for j
    using se_lev2_cnt [OF assms(1) k that] by (simp add: se_bit_def m_def)
  have le: "se_lev2 m (4 * se_lines s) (k - 1) j \<le> 64 * j" if "j < 4" for j
    unfolding lev [OF that] using that by (intro cnt_sub_line) simp
  have zero: "64 * j - se_lev2 m (4 * se_lines s) (k - 1) j
      = cnt (\<lambda>p. \<not> mbit m p) (256 * (k - 1) + 64 * j) - cnt (\<lambda>p. \<not> mbit m p) (256 * (k - 1))" if "j < 4" for j
    unfolding lev [OF that] cnt_Not using that by (intro sub_compl cnt_le cnt_mono cnt_sub_line) simp_all
  have "line4_select1 (\<lambda>j. 64 * j - se_lev2 m (4 * se_lines s) (k - 1) j) (\<lambda>j. NOT (m ! (4 * (k - 1) + j))) r
      (256 * (k - 1) - se_line_rank s (k - 1)) (64 * (4 * (k - 1))) = sel (\<lambda>p. \<not> mbit m p) (se_size s) r"
    using lf assms(6) zero
    by (intro mem_bits0.line4_select1_sel) (simp_all add: se_bit_def m_def e(2))
  with line4_select0_compl [where ?lev2.0 = "se_lev2 m (4 * se_lines s) (k - 1)", OF le]
  show ?thesis unfolding e(1) m_def [symmetric] se_bit_def by (rule trans)
qed

lemma se_hi_bounds: "se_lines s \<le> (m_size (se_bits s) + 256 + 1) div 256" "(m_size (se_bits s) + 256 + 1) div 256 \<le> Suc (se_lines s)"
proof -
  have N: "se_lines s = (m_size (se_bits s) + 256 - 1) div 256"
    unfolding se_lines_def se_size_def by (rule lines256(3) [symmetric])
  show "se_lines s \<le> (m_size (se_bits s) + 256 + 1) div 256" unfolding N by (rule div_le_mono) simp
  have "(m_size (se_bits s) + 256 + 1) div 256 \<le> (m_size (se_bits s) + 256 - 1 + 256) div 256" by (rule div_le_mono) simp
  then show "(m_size (se_bits s) + 256 + 1) div 256 \<le> Suc (se_lines s)" unfolding N by simp
qed

lemma se_select1_sel:
  assumes "se_inv s" and "r < se_max_rank1 s"
  shows "se_select1 s r = sel (se_bit s) (se_size s) r"
proof -
  have r: "r < cnt (se_bit s) (se_size s)" using assms se_invD(7) by simp
  note top = se1.top_rank [OF assms(1) r se_size_lines]
  have slots: "r < 256 * ((se_max_rank1 s + 256 - 1) div 256)" using assms(2) by (intro ceil_div_bound) simp_all
  have rc: "se_lev1 (bldata (se_bits s)) (4 * se_lines s) = se_line_rank s"
    using se_invD(3) [OF assms(1)] by (simp add: se_line_rank_def)
  show ?thesis
  proof (cases "se_sel1_cache s")
    case None
    then show ?thesis
      using se_line_select1 [OF assms(1) se1.global_ub [OF assms(1) top se_hi_bounds] r] se_invD(3) [OF assms(1)]
      by (simp add: se_select1_def Let_def rc)
  next
    case (Some c)
    note k = se1.cached_ub [OF assms(1) se_invD(10) [OF assms(1) Some] _ slots top]
    from Some show ?thesis
      using se_line_select1 [OF assms(1) k r] se_invD(3) [OF assms(1)]
      by (simp add: se_select1_def Let_def rc)
  qed
qed

lemma se_select0_sel:
  assumes "se_inv s" and "r < se_max_rank0 s"
  shows "se_select0 s r = sel (\<lambda>p. \<not> se_bit s p) (se_size s) r"
proof -
  have r: "r < cnt (\<lambda>p. \<not> se_bit s p) (se_size s)" using assms se_invD(7,8) [OF assms(1)] by (simp add: cnt_Not)
  note top = se0.top_rank [OF assms(1) r se_size_lines]
  have slots: "r < 256 * ((se_max_rank0 s + 256 - 1) div 256)" using assms(2) by (intro ceil_div_bound) simp_all
  have rc: "se_lev1 (bldata (se_bits s)) (4 * se_lines s) = se_line_rank s"
    using se_invD(3) [OF assms(1)] by (simp add: se_line_rank_def)
  show ?thesis
  proof (cases "se_sel0_cache s")
    case None
    then show ?thesis
      using se_line_select0 [OF assms(1) se0.global_ub [OF assms(1) top se_hi_bounds] r] se_invD(3) [OF assms(1)]
      by (simp add: se_select0_def Let_def rc)
  next
    case (Some c)
    note k = se0.cached_ub [OF assms(1) se_invD(9) [OF assms(1) Some] _ slots top]
    from Some show ?thesis
      using se_line_select0 [OF assms(1) k r] se_invD(3) [OF assms(1)]
      by (simp add: se_select0_def Let_def rc)
  qed
qed

lemma se_build_cache_ok:
  assumes inv: "febitvec_inv (se_bits s)" and w: "m_words (se_bits s) \<noteq> None"
    and null: "se_sel0_cache s = None" "se_sel1_cache s = None" and nv: "\<not> hasValgrind e"
    and b: "se_build_cache e s0 s1 s = Inr s'"
  shows "se_inv s'" and "se_size s' = se_size s" and "i < se_size s \<Longrightarrow> se_bit s' i = se_bit s i"
    and "last (bldata (se_bits s')) = rs_flags (se_size s) s0 s1"
    and "se_sel0_cache s' = (if s0 then Some (2 * (5 * se_lines s + 1)) else None)"
    and "se_sel1_cache s' = (if s1 then Some (2 * (5 * se_lines s + 1)
      + (if s0 then (se_max_rank0 s' + 256 - 1) div 256 + 1 else 0)) else None)"
proof -
  have small: "m_size (se_bits s) < 2 ^ 32"
    using b by (auto simp: se_build_cache_def rank_select_check_overflow_def split: if_splits)
  obtain v3 R where r: "se_build_ranks e (se_bits s) = Inr (v3, R)" and x: "se_build_index e s0 s1 s v3 R = Inr s'"
    using b w small by (auto simp: se_build_cache_def rank_select_check_overflow_def split: sum.splits prod.splits)
  note k = se_build_ranks_ok [OF inv small r]
  have Rn: "R \<le> m_size (se_bits s)" unfolding k(3) by (rule cnt_le)
  obtain v4 where v4: "febitvec_reserve e (m_capacity v3 + 32 * (((if s0 then (m_size (se_bits s) - R + 256 - 1) div 256 + 1 else 0)
      + (if s1 then (R + 256 - 1) div 256 + 1 else 0) + 1) div 2 * 2 + 2)) v3 = Inr v4"
    using x unfolding se_build_index_def Let_def k(2) size_sub_le [OF Rn] by (cases "febitvec_reserve e (m_capacity v3 + 32 * (((if s0 then (m_size (se_bits s) - R + 256 - 1) div 256 + 1 else 0)
      + (if s1 then (R + 256 - 1) div 256 + 1 else 0) + 1) div 2 * 2 + 2)) v3") auto
  from se_build_index_ok [OF k(1,4) nv small k(2,3,6,7,8) refl null v4] x k(5)
  show "se_inv s'" and "se_size s' = se_size s" and "i < se_size s \<Longrightarrow> se_bit s' i = se_bit s i"
    and "last (bldata (se_bits s')) = rs_flags (se_size s) s0 s1"
    and "se_sel0_cache s' = (if s0 then Some (2 * (5 * se_lines s + 1)) else None)"
    and "se_sel1_cache s' = (if s1 then Some (2 * (5 * se_lines s + 1)
      + (if s0 then (se_max_rank0 s' + 256 - 1) div 256 + 1 else 0)) else None)"
    by (auto simp: se_size_def se_bit_def se_lines_def)
qed

lemma se_build_ranks_total: "(\<And>n. realloc_ok e n) \<Longrightarrow> \<exists>v3 R. se_build_ranks e v = Inr (v3, R)"
proof -
  assume ok: "\<And>n. realloc_ok e n"
  obtain v1 where v1: "febitvec_shrink_to_fit e v = Some v1" using shrink_total [OF ok] by blast
  obtain v2 where "febitvec_reserve e (align_up (m_size v1) 256 + (align_up (m_size v1) 256 div 256 + 1) * 8 * 8) v1 = Inr v2"
    using reserve_total [OF ok] by blast
  with v1 show ?thesis unfolding se_build_ranks_def Let_def case_prod_unfold by (simp only: option.case sum.case) simp
qed

lemma se_build_total:
  assumes ok: "\<And>n. realloc_ok e n" and inv: "febitvec_inv (se_bits s)"
    and null: "se_sel0_cache s = None" "se_sel1_cache s = None" and nv: "\<not> hasValgrind e" and small: "se_size s < 2 ^ 32"
  shows "\<exists>s'. se_build_cache e s0 s1 s = Inr s'"
proof (cases "m_words (se_bits s)")
  case None
  then show ?thesis using small by (simp add: se_build_cache_def rank_select_check_overflow_def se_size_def)
next
  case (Some ws)
  obtain v3 R where r: "se_build_ranks e (se_bits s) = Inr (v3, R)" using se_build_ranks_total [OF ok] by blast
  note k = se_build_ranks_ok [OF inv small [unfolded se_size_def] r]
  obtain v4 where v4: "febitvec_reserve e (m_capacity v3 + 32 * (((if s0 then (m_size (se_bits s) - R + 256 - 1) div 256 + 1 else 0)
      + (if s1 then (R + 256 - 1) div 256 + 1 else 0) + 1) div 2 * 2 + 2)) v3 = Inr v4"
    using reserve_total [OF ok] by blast
  from se_build_index_ok [OF k(1,4) nv small [unfolded se_size_def] k(2,3,6,7,8) refl null v4] Some small r
  show ?thesis by (auto simp: se_build_cache_def rank_select_check_overflow_def se_size_def)
qed

section \<open>The static queries and the contract\<close>

lemma se_is1_bit: "se_is1 s = se_bit s"
  by (rule ext) (simp add: se_is1_def se_bit_def febitvec_is1_def terark_bit_test_mbit)

lemma se_rank0_cnt:
  assumes "se_inv s" and "p \<le> se_size s"
  shows "se_rank0 s p = cnt (\<lambda>i. \<not> se_bit s i) p"
  by (simp add: se_rank0_def se_rank1_cnt [OF assms] cnt_Not)

interpretation se: rank_select se_inv se_size se_is1 se_rank0 se_rank1 se_max_rank0 se_max_rank1 se_select0 se_select1
  by unfold_locales (simp_all add: se_is1_bit se_rank1_cnt se_rank0_cnt se_invD(7,8) cnt_Not se_select1_sel se_select0_sel)

lemma se_fast_select1_sel:
  assumes "se_inv s" and "r < se_max_rank1 s" and "se_sel1_cache s = Some c"
  shows "se_fast_select1 (bldata (se_bits s)) c (the (se_rank_cache s)) r = Some (se_select1 s r)"
proof -
  define m where "m = bldata (se_bits s)"
  have r: "r < cnt (se_bit s) (se_size s)" using assms se_invD(7) by simp
  note top = se1.top_rank [OF assms(1) r se_size_lines]
  have slots: "r < 256 * ((se_max_rank1 s + 256 - 1) div 256)" using assms(2) by (intro ceil_div_bound) simp_all
  have rc: "the (se_rank_cache s) = 4 * se_lines s" "se_lev1 m (4 * se_lines s) = se_line_rank s"
    using se_invD(3) [OF assms(1)] by (simp_all add: se_line_rank_def m_def)
  have lim: "se_lines s < length m - 4 * se_lines s" using se_invD(4) [OF assms(1)] by (simp add: m_def)
  note sc = se_invD(10) [OF assms(1,3)]
  define lo hi where "lo = unat (get32 m (c + r div 256))" and "hi = unat (get32 m (c + (r div 256 + 1)))"
  have "\<exists>k. (if size_sub hi lo < 32 then scan_while (\<lambda>k. se_line_rank s k \<le> r) lo (length m - 4 * se_lines s)
      else Some (ub_loop (se_line_rank s) r lo hi)) = Some k
    \<and> 0 < k \<and> k \<le> se_lines s \<and> se_line_rank s (k - 1) \<le> r \<and> r < se_line_rank s k"
    using se1.cached_scan [OF assms(1) sc _ slots top lim] se1.cached_ub [OF assms(1) sc _ slots top]
    by (simp add: lo_def hi_def m_def)
  then obtain k where k: "(if size_sub hi lo < 32 then scan_while (\<lambda>k. se_line_rank s k \<le> r) lo (length m - 4 * se_lines s)
      else Some (ub_loop (se_line_rank s) r lo hi)) = Some k"
    "0 < k" "k \<le> se_lines s" "se_line_rank s (k - 1) \<le> r" "r < se_line_rank s k" by blast
  show ?thesis
    unfolding se_fast_select1_def Let_def m_def [symmetric] rc lo_def [symmetric] hi_def [symmetric] k(1)
    using se_line_select1 [OF assms(1) k(2-5) r] se_select1_sel [OF assms(1,2)] by (simp add: m_def)
qed

lemma se_fast_select0_sel:
  assumes "se_inv s" and "r < se_max_rank0 s" and "se_sel0_cache s = Some c"
  shows "se_fast_select0 (bldata (se_bits s)) c (the (se_rank_cache s)) r = Some (se_select0 s r)"
proof -
  define m where "m = bldata (se_bits s)"
  have r: "r < cnt (\<lambda>p. \<not> se_bit s p) (se_size s)" using assms se_invD(7,8) [OF assms(1)] by (simp add: cnt_Not)
  note top = se0.top_rank [OF assms(1) r se_size_lines]
  have slots: "r < 256 * ((se_max_rank0 s + 256 - 1) div 256)" using assms(2) by (intro ceil_div_bound) simp_all
  have rc: "the (se_rank_cache s) = 4 * se_lines s" "se_lev1 m (4 * se_lines s) = se_line_rank s"
    using se_invD(3) [OF assms(1)] by (simp_all add: se_line_rank_def m_def)
  have lim: "se_lines s < length m - 4 * se_lines s" using se_invD(4) [OF assms(1)] by (simp add: m_def)
  note sc = se_invD(9) [OF assms(1,3)]
  define lo hi where "lo = unat (get32 m (c + r div 256))" and "hi = unat (get32 m (c + (r div 256 + 1)))"
  have "\<exists>k. (if size_sub hi lo < 32 then scan_while (\<lambda>k. 256 * k - se_line_rank s k \<le> r) lo (length m - 4 * se_lines s)
      else Some (ub_loop (\<lambda>k. 256 * k - se_line_rank s k) r lo hi)) = Some k
    \<and> 0 < k \<and> k \<le> se_lines s \<and> 256 * (k - 1) - se_line_rank s (k - 1) \<le> r \<and> r < 256 * k - se_line_rank s k"
    using se0.cached_scan [OF assms(1) sc _ slots top lim] se0.cached_ub [OF assms(1) sc _ slots top]
    by (simp add: lo_def hi_def m_def)
  then obtain k where k: "(if size_sub hi lo < 32 then scan_while (\<lambda>k. 256 * k - se_line_rank s k \<le> r) lo (length m - 4 * se_lines s)
      else Some (ub_loop (\<lambda>k. 256 * k - se_line_rank s k) r lo hi)) = Some k"
    "0 < k" "k \<le> se_lines s" "256 * (k - 1) - se_line_rank s (k - 1) \<le> r" "r < 256 * k - se_line_rank s k" by blast
  show ?thesis
    unfolding se_fast_select0_def Let_def m_def [symmetric] rc lo_def [symmetric] hi_def [symmetric] k(1)
    using se_line_select0 [OF assms(1) k(2-5) r] se_select0_sel [OF assms(1,2)] by (simp add: m_def)
qed

section \<open>Memory map and copy\<close>

lemma se_mmap_built:
  assumes "se_inv s" and "last (bldata (se_bits s)) = rs_flags (se_size s) s0 s1"
    and "se_sel0_cache s = (if s0 then Some (2 * (5 * se_lines s + 1)) else None)"
    and "se_sel1_cache s = (if s1 then Some (2 * (5 * se_lines s + 1)
      + (if s0 then (se_max_rank0 s + 256 - 1) div 256 + 1 else 0)) else None)"
  shows "se_risk_mmap_from (bldata (se_bits s)) (se_mem_size s) = s"
proof -
  define m where "m = bldata (se_bits s)"
  define n where "n = se_size s"
  define N where "N = align_up n 256 div 256"
  note L = lines256 [of n, folded N_def]
  have LD: "256 * N div 64 = 4 * N" "256 * N div 256 = N" using L(1,2) by simp_all
  have N: "se_lines s = N" by (simp add: se_lines_def N_def n_def)
  have ws: "m_words (se_bits s) = Some m" using assms(1) by (auto simp: se_inv_def Let_def m_def bldata_def)
  have cap: "m_capacity (se_bits s) = 64 * length m" using se_invD(1) [OF assms(1)] by (simp add: m_def febitvec_inv_def)
  have ne: "m \<noteq> []" using se_invD(4) [OF assms(1)] by (auto simp: m_def)
  have len: "se_mem_size s div 8 - 1 = length m - 1" "se_mem_size s * 8 = m_capacity (se_bits s)" by (simp_all add: se_mem_size_def cap)
  have fl: "m ! (length m - 1) = rs_flags n s0 s1" using assms(2) ne by (simp add: m_def n_def last_conv_nth)
  have sz: "unat (drop_bit 8 (rs_flags n s0 s1)) = n" using se_invD(2) [OF assms(1)] by (intro rs_flags_size) (simp add: n_def)
  have bits: "rs_flags n s0 s1 AND push_bit 0 1 \<noteq> 0 \<longleftrightarrow> s0" "rs_flags n s0 s1 AND push_bit 1 1 \<noteq> 0 \<longleftrightarrow> s1"
    by (simp_all only: and_push_bit_1 rs_flags_bits)
  have r: "se_lev1 m (4 * N) N = se_max_rank1 s"
  proof -
    have "se_lev1 m (4 * N) N = cnt (se_bit s) (256 * N)" using se_invD(6) [OF assms(1)] by (simp add: se_cache_ok_def m_def N se_bit_def)
    also have "\<dots> = cnt (se_bit s) n"
      using se_invD(5) [OF assms(1)] by (intro cnt_pad [OF L(4)]) (auto simp: N n_def)
    finally show ?thesis using se_invD(7) [OF assms(1)] by (simp add: n_def)
  qed
  have r0: "size_sub n (se_max_rank1 s) = se_max_rank0 s" using se_invD(7,8) [OF assms(1)] by (simp add: n_def)
  have sels: "2 * (4 * N + N + 1) = 2 * (5 * N + 1)" by simp
  have rcs: "se_rank_cache s = Some (4 * N)" using se_invD(3) [OF assms(1)] by (simp add: N)
  show ?thesis
    unfolding se_risk_mmap_from_def m_def [symmetric] len Let_def fl sz L(1) LD r r0 bits sels
    using ws rcs assms(3,4) by (cases s; cases "se_bits s") (simp add: N n_def se_size_def)
qed

lemma se_copy_id:
  assumes "se_inv y" and "se_copy e y = Inr s'"
  shows "s' = y"
proof -
  have ws: "m_words (se_bits y) = Some (bldata (se_bits y))" using assms(1) by (auto simp: se_inv_def Let_def bldata_def)
  have ne: "bldata (se_bits y) \<noteq> []" using se_invD(4) [OF assms(1)] by auto
  obtain v where v: "febitvec_reserve e (m_capacity (se_bits y)) febitvec_empty = Inr v"
    using assms(2) by (auto simp: se_copy_def split: sum.splits)
  have "s' = y\<lparr>se_bits := upd_words (\<lambda>ws. take (m_capacity (se_bits y) div 64) (bldata (se_bits y))
      @ drop (m_capacity (se_bits y) div 64) ws) (v\<lparr>m_size := m_size (se_bits y)\<rparr>)\<rparr>"
    using assms(2) v by (cases y) (simp add: se_copy_def Let_def)
  then show ?thesis unfolding copy_block [OF se_invD(1) [OF assms(1)] ws ne v] by simp
qed

lemma se_copy_total: "(\<And>n. realloc_ok e n) \<Longrightarrow> \<exists>s'. se_copy e y = Inr s'"
  using reserve_total [of e "m_capacity (se_bits y)" febitvec_empty] by (auto simp: se_copy_def Let_def)

section \<open>The zero fill under Valgrind\<close>

text \<open>With \<open>g_Terark_hasValgrind\<close> the second \<open>reserve\<close> of \<open>build_cache\<close> zero-fills the words past the bits, where
  the rank cache has just been built.\<close>

lemma get8_zero: "m ! w = 0 \<Longrightarrow> i < 8 \<Longrightarrow> get8 m (8 * w + i) = 0"
proof (rule bit_word_eqI)
  fix n assume "m ! w = 0" "i < 8" "n < LENGTH(8)"
  then have "\<not> mbit m (64 * w + (8 * i + n))" by (subst mem_bits.f_word) simp_all
  then show "bit (get8 m (8 * w + i)) n = bit 0 n" by (simp add: bit_views algebra_simps)
qed

lemma se_build_valgrind:
  assumes inv: "febitvec_inv (se_bits s)" and w: "m_words (se_bits s) \<noteq> None" and hv: "hasValgrind e"
    and b: "se_build_cache e False False s = Inr s'" and n: "256 \<le> se_size s"
  shows "se_rank1 s' 256 = 0"
proof -
  have small: "m_size (se_bits s) < 2 ^ 32"
    using b by (auto simp: se_build_cache_def rank_select_check_overflow_def split: if_splits)
  obtain v3 R where r: "se_build_ranks e (se_bits s) = Inr (v3, R)" and x: "se_build_index e False False s v3 R = Inr s'"
    using b w small by (auto simp: se_build_cache_def rank_select_check_overflow_def split: sum.splits prod.splits)
  note k = se_build_ranks_ok [OF inv small r]
  define N where "N = align_up (m_size (se_bits s)) 256 div 256"
  note L = lines256 [of "m_size (se_bits s)", folded N_def]
  have LD: "256 * N div 64 = 4 * N" "256 * N div 256 = N" using L(1,2) by simp_all
  obtain v4 where v4: "febitvec_reserve e (m_capacity v3 + 64) v3 = Inr v4"
    and s': "s' = \<lparr>se_bits = v4\<lparr>m_words := Some ((bldata v4)[m_capacity v4 div 64 - 1 := rs_flags (m_size v4) False False])\<rparr>,
      se_rank_cache = Some (4 * N), se_sel0_cache = se_sel0_cache s, se_sel1_cache = se_sel1_cache s,
      se_max_rank0 = size_sub (m_size (se_bits s)) R, se_max_rank1 = R\<rparr>"
    using x unfolding se_build_index_def build_selects_def Let_def k(2) L(1) LD
    by (cases "febitvec_reserve e (m_capacity v3 + 64) v3") auto
  have cap3: "m_capacity v3 = 64 * length (bldata v3)" using febitvec_invD(2) [OF k(1)] .
  have N1: "1 \<le> N" using n L(4) by (simp add: se_size_def)
  have i: "4 * N + 1 < length (bldata v3)" "m_size v3 \<le> 64 * (4 * N)" using k(8) N1 L(4) k(2) by (simp_all add: N_def)
  have z: "bldata v4 ! (4 * N + 1) = 0" and l4: "m_capacity v4 = 64 * (length (bldata v3) + 1)"
    using reserve_zeroes [OF k(1) hv _ v4, of "4 * N + 1"] i cap3 by (simp_all add: align_up_def)
  have "(bldata (se_bits s')) ! (4 * N + 1) = 0" using z i(1) l4 by (simp add: s')
  then have g: "get32 (bldata (se_bits s')) (2 * (4 * N + 1)) = 0" "get8 (bldata (se_bits s')) (8 * (4 * N + 1) + 4) = 0"
    unfolding get32_low by (simp, rule get8_zero) simp_all
  show ?thesis
    using g by (simp add: se_rank1_def Let_def se_lev1_def se_lev2_def s')
qed

section \<open>Properties\<close>

text \<open>C2. End to end: after \<open>build_cache\<close>, with or without the select caches, \<open>rank_select_se_256\<close> answers
  \<open>is1\<close>, \<open>rank0\<close>, \<open>rank1\<close>, \<open>select0\<close>, \<open>select1\<close> and the maximal ranks for exactly the bits that were in
  the vector, and the static functions give the same answers.\<close>

theorem se_build_correct:
  assumes "febitvec_inv (se_bits s)" and "m_words (se_bits s) \<noteq> None" and "se_sel0_cache s = None" and "se_sel1_cache s = None"
    and "\<not> hasValgrind e" and "se_build_cache e s0 s1 s = Inr s'"
  shows "rs_answers (bvec (se_bits s)) (se_size s') (se_is1 s') (se_rank0 s') (se_rank1 s')
      (se_max_rank0 s') (se_max_rank1 s') (se_select0 s') (se_select1 s')
    \<and> (\<forall>p. se_fast_rank1 (bldata (se_bits s')) (the (se_rank_cache s')) p = se_rank1 s' p)
    \<and> (s0 \<longrightarrow> (\<forall>r < se_max_rank0 s'. se_fast_select0 (bldata (se_bits s')) (the (se_sel0_cache s')) (the (se_rank_cache s')) r
          = Some (se_select0 s' r)))
    \<and> (s1 \<longrightarrow> (\<forall>r < se_max_rank1 s'. se_fast_select1 (bldata (se_bits s')) (the (se_sel1_cache s')) (the (se_rank_cache s')) r
          = Some (se_select1 s' r)))"
proof -
  note b = se_build_cache_ok [OF assms]
  have "se_is1 s' i = bvec (se_bits s) ! i" if "i < length (bvec (se_bits s))" for i
    using b(3) [of i] that by (simp add: se_is1_bit se_size_def se_bit_def)
  then have "rs_answers (bvec (se_bits s)) (se_size s') (se_is1 s') (se_rank0 s') (se_rank1 s')
      (se_max_rank0 s') (se_max_rank1 s') (se_select0 s') (se_select1 s')"
    using se.answers_list [OF b(1), of "bvec (se_bits s)"] b(2) by (simp add: se_size_def)
  then show ?thesis
    using se_fast_select0_sel [OF b(1)] se_fast_select1_sel [OF b(1)] b(5,6) by (simp add: se_fast_rank1_eq)
qed

lemma se_ex_ok: "febitvec_inv (se_bits se_ex)" "m_words (se_bits se_ex) \<noteq> None" "se_sel0_cache se_ex = None" "se_sel1_cache se_ex = None"
  "se_size se_ex < 2 ^ 32" "\<not> hasValgrind env0"
  by (simp_all add: se_ex_def se_with_def febitvec_inv_def bldata_def se_size_def env0_def)

theorem se_build_correct_witness:
  "\<exists>s'. se_build_cache env0 True True se_ex = Inr s' \<and> se_rank1 s' 3 = 2"
proof -
  obtain s' where s': "se_build_cache env0 True True se_ex = Inr s'"
    using se_build_total [OF env0_ok se_ex_ok(1,3,4,6,5)] by blast
  from se_build_correct [OF se_ex_ok(1-4,6) s']
  have "se_rank1 s' 3 = count_list (take 3 (bvec (se_bits se_ex))) True"
    by (simp add: rs_answers_def se_ex_def se_with_def)
  also have "\<dots> = 2"
    by (simp add: bvec_def se_ex_def se_with_def bldata_def mbit_def upt_rec take_map)
  finally show ?thesis using s' by blast
qed





text \<open>Under \<open>g_Terark_hasValgrind\<close> the second \<open>reserve\<close> of \<open>build_cache\<close> zero-fills the words after the bits and
  with them the rank cache: the built structure answers \<open>rank1(256) = 0\<close> whatever the first line holds.\<close>

theorem se_build_wiped_by_valgrind_fill:
  assumes "febitvec_inv (se_bits s)" and "m_words (se_bits s) \<noteq> None" and "hasValgrind e"
    and "se_build_cache e False False s = Inr s'" and "256 \<le> se_size s"
  shows "se_rank1 s' 256 = 0"
  by (rule se_build_valgrind [OF assms])

theorem se_build_wiped_by_valgrind_fill_witness:
  "\<exists>s'. se_build_cache (env0\<lparr>hasValgrind := True\<rparr>) False False se_ex2 = Inr s' \<and> se_rank1 s' 256 = 0"
proof -
  have ok: "febitvec_inv (se_bits se_ex2)" "m_words (se_bits se_ex2) \<noteq> None" "se_size se_ex2 = 300"
    by (simp_all add: se_ex2_def se_with_def febitvec_inv_def bldata_def se_size_def)
  have al: "realloc_ok (env0\<lparr>hasValgrind := True\<rparr>) n" for n using env0_ok by simp
  obtain v3 R where r: "se_build_ranks (env0\<lparr>hasValgrind := True\<rparr>) (se_bits se_ex2) = Inr (v3, R)"
    using se_build_ranks_total [OF al] by blast
  have "\<exists>s'. se_build_index (env0\<lparr>hasValgrind := True\<rparr>) False False se_ex2 v3 R = Inr s'"
    using reserve_total [OF al, of "m_capacity v3 + 64" v3] by (auto simp: se_build_index_def build_selects_def Let_def)
  then obtain s' where "se_build_cache (env0\<lparr>hasValgrind := True\<rparr>) False False se_ex2 = Inr s'"
    using r ok(2,3) by (auto simp: se_build_cache_def rank_select_check_overflow_def se_size_def)
  with se_build_wiped_by_valgrind_fill [OF ok(1,2) _ this] ok(3) show ?thesis by auto
qed

end
