(* ===== verification/RankSelectSE512.thy ===== *)
theory RankSelectSE512
  imports RankSelectSE256
begin

text \<open>
  \<open>rank_select_se_512_tpl<uint32_t>\<close> (\<open>rank_select_se_512\<close>) of
  \<open>src/src/terark/succinct/rank_select_se_512.hpp\<close> and \<open>.cpp\<close>. The layout of the block is that of
  \<open>rank_select_se_256\<close> with lines of 512 bits; an entry of the rank cache, \<open>RankCache512\<close>, takes three
  \<open>uint32_t\<close> under \<open>#pragma pack(4)\<close>: the base rank and a 64-bit word of seven fields of nine bits, the
  counts before the words 1 to 7 of the line. All pointers into the block are indices of \<open>uint32_t\<close>.
\<close>

section \<open>The structure\<close>

record rank_select_se_512 =
  s5_bits :: febitvec
  s5_rank_cache :: "nat option"
  s5_sel0_cache :: "nat option"
  s5_sel1_cache :: "nat option"
  s5_max_rank0 :: nat
  s5_max_rank1 :: nat

text \<open>\<open>TERARK_GET_BITS_64(u64, k, width)\<close>\<close>

definition get_bits_64 :: "u64 \<Rightarrow> nat \<Rightarrow> nat \<Rightarrow> nat" where
  "get_bits_64 u k width = (if k \<noteq> 0 then unat (drop_bit ((k - 1) * width) u AND (push_bit width 1 - 1)) else 0)"

definition rank512 :: "u64 \<Rightarrow> nat \<Rightarrow> nat" where
  "rank512 bm64 i = get_bits_64 bm64 i 9"

definition s5_base :: "u64 list \<Rightarrow> nat \<Rightarrow> nat \<Rightarrow> nat" where
  "s5_base m rankCache k = unat (get32 m (rankCache + 3 * k))"

definition s5_rela :: "u64 list \<Rightarrow> nat \<Rightarrow> nat \<Rightarrow> u64" where
  "s5_rela m rankCache k =
     ucast (get32 m (rankCache + 3 * k + 1)) OR push_bit 32 (ucast (get32 m (rankCache + 3 * k + 2)))"

definition s5_set_base :: "u64 list \<Rightarrow> nat \<Rightarrow> nat \<Rightarrow> u32 \<Rightarrow> u64 list" where
  "s5_set_base m rankCache k v = set32 m (rankCache + 3 * k) v"

definition s5_set_rela :: "u64 list \<Rightarrow> nat \<Rightarrow> nat \<Rightarrow> u64 \<Rightarrow> u64 list" where
  "s5_set_rela m rankCache k v =
     set32 (set32 m (rankCache + 3 * k + 1) (ucast v)) (rankCache + 3 * k + 2) (ucast (drop_bit 32 v))"

definition s5_RankCache512 :: "u64 list \<Rightarrow> nat \<Rightarrow> nat \<Rightarrow> u32 \<Rightarrow> u64 list" where
  "s5_RankCache512 m rankCache k l1 = s5_set_rela (s5_set_base m rankCache k l1) rankCache k 0"

definition s5_nullize_cache :: "rank_select_se_512 \<Rightarrow> rank_select_se_512" where
  "s5_nullize_cache s = s\<lparr>s5_rank_cache := None, s5_sel0_cache := None, s5_sel1_cache := None,
     s5_max_rank0 := 0, s5_max_rank1 := 0\<rparr>"

definition s5_with :: "febitvec \<Rightarrow> rank_select_se_512" where
  "s5_with v = \<lparr>s5_bits = v, s5_rank_cache = None, s5_sel0_cache = None, s5_sel1_cache = None,
     s5_max_rank0 = 0, s5_max_rank1 = 0\<rparr>"

definition s5_make :: "env \<Rightarrow> nat \<Rightarrow> bool \<Rightarrow> error + rank_select_se_512" where
  "s5_make e n val =
     (case febitvec_make e n val of
        Inl err \<Rightarrow> Inl err
      | Inr v \<Rightarrow> if rank_select_check_overflow (m_size v) then Inl Length_error else Inr (s5_with v))"

text \<open>The next two check \<open>m_size\<close>, which is still 0, before the vector gets its size.\<close>

definition s5_make_no_init :: "env \<Rightarrow> nat \<Rightarrow> error + rank_select_se_512" where
  "s5_make_no_init e n =
     (if rank_select_check_overflow (m_size febitvec_empty) then Inl Length_error
      else case febitvec_resize_no_init e n febitvec_empty of Inl err \<Rightarrow> Inl err | Inr v \<Rightarrow> Inr (s5_with v))"

definition s5_make_reserve :: "env \<Rightarrow> nat \<Rightarrow> error + rank_select_se_512" where
  "s5_make_reserve e n =
     (if rank_select_check_overflow (m_size febitvec_empty) then Inl Length_error
      else case febitvec_reserve e n febitvec_empty of Inl err \<Rightarrow> Inl err | Inr v \<Rightarrow> Inr (s5_with v))"

text \<open>\<open>y.m_rank_cache - (RankCache512*)y.m_words\<close> is a difference in elements of 12 bytes; C++ defines it only
  when the byte offset is a multiple of 12.\<close>

definition s5_copy :: "env \<Rightarrow> rank_select_se_512 \<Rightarrow> error + rank_select_se_512" where
  "s5_copy e y =
     (case febitvec_reserve e (m_capacity (s5_bits y)) febitvec_empty of
        Inl err \<Rightarrow> Inl err
      | Inr v \<Rightarrow>
          let v = v\<lparr>m_size := m_size (s5_bits y)\<rparr>;
              n = m_capacity (s5_bits y) div 64;
              v = upd_words (\<lambda>ws. take n (bldata (s5_bits y)) @ drop n ws) v;
              s = \<lparr>s5_bits = v, s5_rank_cache = map_option (\<lambda>rc. rc div 3 * 3) (s5_rank_cache y),
                   s5_sel0_cache = s5_sel0_cache y, s5_sel1_cache = s5_sel1_cache y,
                   s5_max_rank0 = s5_max_rank0 y, s5_max_rank1 = s5_max_rank1 y\<rparr>
          in case s5_rank_cache y of
               None \<Rightarrow> Inr s
             | Some rc \<Rightarrow> if rc mod 3 = 0 then Inr s else Inl Undefined)"

definition s5_clear :: "rank_select_se_512 \<Rightarrow> rank_select_se_512" where
  "s5_clear s = (s5_nullize_cache s)\<lparr>s5_bits := febitvec_clear (s5_bits s)\<rparr>"

definition s5_risk_release_ownership :: "rank_select_se_512 \<Rightarrow> rank_select_se_512" where
  "s5_risk_release_ownership s = (s5_nullize_cache s)\<lparr>s5_bits := febitvec_risk_release_ownership (s5_bits s)\<rparr>"

definition s5_move :: "rank_select_se_512 \<Rightarrow> rank_select_se_512 \<times> rank_select_se_512" where
  "s5_move y = (y, s5_risk_release_ownership y)"

definition s5_swap :: "rank_select_se_512 \<Rightarrow> rank_select_se_512 \<Rightarrow> rank_select_se_512 \<times> rank_select_se_512" where
  "s5_swap x y =
     (let (bx, by') = febitvec_swap (s5_bits x) (s5_bits y) in
      (\<lparr>s5_bits = bx, s5_rank_cache = s5_rank_cache y, s5_sel0_cache = s5_sel0_cache y,
        s5_sel1_cache = s5_sel1_cache y, s5_max_rank0 = s5_max_rank0 y, s5_max_rank1 = s5_max_rank1 y\<rparr>,
       \<lparr>s5_bits = by', s5_rank_cache = s5_rank_cache x, s5_sel0_cache = s5_sel0_cache x,
        s5_sel1_cache = s5_sel1_cache x, s5_max_rank0 = s5_max_rank0 x, s5_max_rank1 = s5_max_rank1 x\<rparr>))"

definition s5_risk_mmap_from :: "u64 list \<Rightarrow> nat \<Rightarrow> rank_select_se_512" where
  "s5_risk_mmap_from base len =
     (let flags = base ! (len div 8 - 1);
          sz = unat (drop_bit 8 flags);
          ceiled_bits = align_up sz 512;
          nlines = ceiled_bits div 512;
          rank_cache = 2 * (ceiled_bits div 64);
          max_rank1 = s5_base base rank_cache nlines;
          max_rank0 = size_sub sz max_rank1;
          select0_slots = (max_rank0 + 512 - 1) div 512;
          select_index = rank_cache + 3 * (nlines + 1);
          (sel0, select_index) =
            (if flags AND push_bit 0 1 \<noteq> 0 then (Some select_index, select_index + select0_slots + 1)
             else (None, select_index));
          sel1 = (if flags AND push_bit 1 1 \<noteq> 0 then Some select_index else None)
      in \<lparr>s5_bits = \<lparr>m_words = Some base, m_size = sz, m_capacity = len * 8\<rparr>, s5_rank_cache = Some rank_cache,
          s5_sel0_cache = sel0, s5_sel1_cache = sel1, s5_max_rank0 = max_rank0, s5_max_rank1 = max_rank1\<rparr>)"

section \<open>Building the caches\<close>

text \<open>\<open>for (j = 0; j < 8; ++j) { r += popcount(pBit64[i*8 + j]); rela |= uint64_t(r) << (j*9); }\<close>\<close>

function s5_rela_loop :: "u64 list \<Rightarrow> nat \<Rightarrow> nat \<Rightarrow> nat \<Rightarrow> u64 \<Rightarrow> nat \<times> u64" where
  "s5_rela_loop m i j r rela =
     (if j < 8 then
        let r = r + fast_popcount (m ! (i * 8 + j))
        in s5_rela_loop m i (Suc j) r (rela OR push_bit (j * 9) (word_of_nat r))
      else (r, rela))"
  by pat_completeness auto
termination
  by (relation "measure (\<lambda>(m, i, j, r, rela). 8 - j)") auto

declare s5_rela_loop.simps [simp del]

function s5_fill :: "nat \<Rightarrow> nat \<Rightarrow> nat \<Rightarrow> nat \<Rightarrow> u64 list \<Rightarrow> u64 list \<times> nat" where
  "s5_fill rank_cache nlines i Rank1 m =
     (if i < nlines then
        let (r, rela) = s5_rela_loop m i 0 0 0;
            rela = rela AND drop_bit 1 (- 1);
            m = s5_set_base m rank_cache i (word_of_nat Rank1);
            m = s5_set_rela m rank_cache i rela
        in s5_fill rank_cache nlines (Suc i) (Rank1 + r) m
      else (m, Rank1))"
  by pat_completeness auto
termination
  by (relation "measure (\<lambda>(rank_cache, nlines, i, Rank1, m). nlines - i)") auto

declare s5_fill.simps [simp del]

text \<open>\<open>std::fill(start, finish, 0)\<close> on \<open>char\<close>: the bytes from \<open>i\<close> to \<open>n\<close>.\<close>

function fill8 :: "u64 list \<Rightarrow> nat \<Rightarrow> nat \<Rightarrow> u64 list" where
  "fill8 m i n = (if i < n then fill8 (set8 m i 0) (Suc i) n else m)"
  by pat_completeness auto
termination
  by (relation "measure (\<lambda>(m, i, n). n - i)") auto

declare fill8.simps [simp del]

definition s5_build_ranks :: "env \<Rightarrow> febitvec \<Rightarrow> error + febitvec \<times> nat" where
  "s5_build_ranks e v =
     (case febitvec_shrink_to_fit e v of
        None \<Rightarrow> Inl Abort
      | Some v \<Rightarrow>
          let ceiled_bits = align_up (m_size v) 512; nlines = ceiled_bits div 512 in
          (case febitvec_reserve e (ceiled_bits + (nlines + 1) * 12 * 8) v of
             Inl err \<Rightarrow> Inl err
           | Inr v \<Rightarrow>
               let m = bits_range_set0 (bldata v) (m_size v) ceiled_bits;
                   rank_cache = 2 * (ceiled_bits div 64);
                   (m, Rank1) = s5_fill rank_cache nlines 0 0 m;
                   m = s5_RankCache512 m rank_cache nlines (word_of_nat Rank1)
               in Inr (v\<lparr>m_words := Some m\<rparr>, Rank1)))"

definition s5_build_index :: "env \<Rightarrow> bool \<Rightarrow> bool \<Rightarrow> rank_select_se_512 \<Rightarrow> febitvec \<Rightarrow> nat \<Rightarrow> error + rank_select_se_512" where
  "s5_build_index e speed_select0 speed_select1 s v Rank1 =
     (let ceiled_bits = align_up (m_size v) 512;
          nlines = ceiled_bits div 512;
          max_rank0 = size_sub (m_size v) Rank1;
          max_rank1 = Rank1;
          select0_slots = (max_rank0 + 512 - 1) div 512;
          select1_slots = (max_rank1 + 512 - 1) div 512;
          u32_slots = ((if speed_select0 then select0_slots + 1 else 0)
                       + (if speed_select1 then select1_slots + 1 else 0) + 1) div 2 * 2
      in case febitvec_reserve e (m_capacity v + 32 * (u32_slots + 2)) v of
           Inl err \<Rightarrow> Inl err
         | Inr v \<Rightarrow>
             let rank_cache = 2 * (ceiled_bits div 64);
                 m = fill8 (bldata v) (4 * (rank_cache + 3 * (nlines + 1))) (8 * (m_capacity v div 64)) in
             (case build_selects 512 512 512 (\<lambda>m. s5_base m rank_cache) ((2 * (m_capacity v div 64) - rank_cache) div 3)
                     nlines (rank_cache + 3 * (nlines + 1)) select0_slots select1_slots
                     speed_select0 speed_select1 m of
                Inl err \<Rightarrow> Inl err
              | Inr (m, sel0, sel1) \<Rightarrow>
                  let m = m[m_capacity v div 64 - 1 := rs_flags (m_size v) speed_select0 speed_select1] in
                  Inr \<lparr>s5_bits = v\<lparr>m_words := Some m\<rparr>, s5_rank_cache = Some rank_cache,
                       s5_sel0_cache = (if speed_select0 then sel0 else s5_sel0_cache s),
                       s5_sel1_cache = (if speed_select1 then sel1 else s5_sel1_cache s),
                       s5_max_rank0 = max_rank0, s5_max_rank1 = max_rank1\<rparr>))"

definition s5_build_cache :: "env \<Rightarrow> bool \<Rightarrow> bool \<Rightarrow> rank_select_se_512 \<Rightarrow> error + rank_select_se_512" where
  "s5_build_cache e speed_select0 speed_select1 s =
     (if rank_select_check_overflow (m_size (s5_bits s)) then Inl Length_error
      else if m_words (s5_bits s) = None then Inr s
      else case s5_build_ranks e (s5_bits s) of
             Inl err \<Rightarrow> Inl err
           | Inr (v, Rank1) \<Rightarrow> s5_build_index e speed_select0 speed_select1 s v Rank1)"

section \<open>Queries\<close>

definition s5_size :: "rank_select_se_512 \<Rightarrow> nat" where
  "s5_size s = m_size (s5_bits s)"

definition s5_mem_size :: "rank_select_se_512 \<Rightarrow> nat" where
  "s5_mem_size s = m_capacity (s5_bits s) div 8"

definition s5_is1 :: "rank_select_se_512 \<Rightarrow> nat \<Rightarrow> bool" where
  "s5_is1 s i = febitvec_is1 (s5_bits s) i"

definition s5_fast_rank1 :: "u64 list \<Rightarrow> nat \<Rightarrow> nat \<Rightarrow> nat" where
  "s5_fast_rank1 bits rankCache bitpos =
     (let k = bitpos mod 512 div 64;
          tail = fast_popcount_trail (bits ! (bitpos div 64)) (bitpos mod 64)
      in s5_base bits rankCache (bitpos div 512) + tail + get_bits_64 (s5_rela bits rankCache (bitpos div 512)) k 9)"

definition s5_fast_rank0 :: "u64 list \<Rightarrow> nat \<Rightarrow> nat \<Rightarrow> nat" where
  "s5_fast_rank0 bits rankCache bitpos = size_sub bitpos (s5_fast_rank1 bits rankCache bitpos)"

definition s5_rank1 :: "rank_select_se_512 \<Rightarrow> nat \<Rightarrow> nat" where
  "s5_rank1 s bitpos =
     (let m = bldata (s5_bits s);
          rank_cache = the (s5_rank_cache s);
          k = bitpos mod 512 div 64;
          tail = fast_popcount_trail (m ! (bitpos div 64)) (bitpos mod 64)
      in s5_base m rank_cache (bitpos div 512) + tail + get_bits_64 (s5_rela m rank_cache (bitpos div 512)) k 9)"

definition s5_rank0 :: "rank_select_se_512 \<Rightarrow> nat \<Rightarrow> nat" where
  "s5_rank0 s bitpos = size_sub bitpos (s5_rank1 s bitpos)"

definition s5_excess1 :: "rank_select_se_512 \<Rightarrow> nat \<Rightarrow> nat" where
  "s5_excess1 s bp = size_sub (2 * s5_rank1 s bp) bp"

definition s5_fast_select0 :: "u64 list \<Rightarrow> nat \<Rightarrow> nat \<Rightarrow> nat \<Rightarrow> nat option" where
  "s5_fast_select0 bits sel0 rankCache Rank0 =
     (let lo = unat (get32 bits (sel0 + Rank0 div 512));
          hi = unat (get32 bits (sel0 + (Rank0 div 512 + 1)));
          val = (\<lambda>k. 512 * k - s5_base bits rankCache k)
      in case (if size_sub hi lo < 32 then scan_while (\<lambda>k. val k \<le> Rank0) lo ((2 * length bits - rankCache) div 3)
               else Some (ub_loop val Rank0 lo hi)) of
           None \<Rightarrow> None
         | Some lo \<Rightarrow>
             Some (line8_select0 (rank512 (s5_rela bits rankCache (lo - 1))) (\<lambda>j. bits ! (8 * (lo - 1) + j)) Rank0
               (512 * (lo - 1) - s5_base bits rankCache (lo - 1)) ((lo - 1) * 512)))"

definition s5_fast_select1 :: "u64 list \<Rightarrow> nat \<Rightarrow> nat \<Rightarrow> nat \<Rightarrow> nat option" where
  "s5_fast_select1 bits sel1 rankCache Rank1 =
     (let lo = unat (get32 bits (sel1 + Rank1 div 512));
          hi = unat (get32 bits (sel1 + (Rank1 div 512 + 1)));
          val = s5_base bits rankCache
      in case (if size_sub hi lo < 32 then scan_while (\<lambda>k. val k \<le> Rank1) lo ((2 * length bits - rankCache) div 3)
               else Some (ub_loop val Rank1 lo hi)) of
           None \<Rightarrow> None
         | Some lo \<Rightarrow>
             Some (line8_select1 (rank512 (s5_rela bits rankCache (lo - 1))) (\<lambda>j. bits ! (8 * (lo - 1) + j)) Rank1
               (s5_base bits rankCache (lo - 1)) ((lo - 1) * 512)))"

definition s5_select0 :: "rank_select_se_512 \<Rightarrow> nat \<Rightarrow> nat" where
  "s5_select0 s Rank0 =
     (let m = bldata (s5_bits s);
          rank_cache = the (s5_rank_cache s);
          (lo, hi) = (case s5_sel0_cache s of
                        Some sel0 \<Rightarrow> (unat (get32 m (sel0 + Rank0 div 512)), unat (get32 m (sel0 + (Rank0 div 512 + 1))))
                      | None \<Rightarrow> (0, (m_size (s5_bits s) + 512 + 1) div 512));
          lo = ub_loop (\<lambda>mid. 512 * mid - s5_base m rank_cache mid) Rank0 lo hi
      in line8_select0 (rank512 (s5_rela m rank_cache (lo - 1))) (\<lambda>j. m ! (8 * (lo - 1) + j)) Rank0
           (512 * (lo - 1) - s5_base m rank_cache (lo - 1)) ((lo - 1) * 512))"

definition s5_select1 :: "rank_select_se_512 \<Rightarrow> nat \<Rightarrow> nat" where
  "s5_select1 s Rank1 =
     (let m = bldata (s5_bits s);
          rank_cache = the (s5_rank_cache s);
          (lo, hi) = (case s5_sel1_cache s of
                        Some sel1 \<Rightarrow> (unat (get32 m (sel1 + Rank1 div 512)), unat (get32 m (sel1 + (Rank1 div 512 + 1))))
                      | None \<Rightarrow> (0, (m_size (s5_bits s) + 512 + 1) div 512));
          lo = ub_loop (s5_base m rank_cache) Rank1 lo hi
      in line8_select1 (rank512 (s5_rela m rank_cache (lo - 1))) (\<lambda>j. m ! (8 * (lo - 1) + j)) Rank1
           (s5_base m rank_cache (lo - 1)) ((lo - 1) * 512))"

definition s5_isall0 :: "rank_select_se_512 \<Rightarrow> bool" where "s5_isall0 s \<longleftrightarrow> s5_max_rank1 s = 0"
definition s5_isall1 :: "rank_select_se_512 \<Rightarrow> bool" where "s5_isall1 s \<longleftrightarrow> s5_max_rank0 s = 0"

section \<open>Invariant\<close>

definition s5_lines :: "rank_select_se_512 \<Rightarrow> nat" where
  "s5_lines s = align_up (s5_size s) 512 div 512"

definition s5_bit :: "rank_select_se_512 \<Rightarrow> nat \<Rightarrow> bool" where
  "s5_bit s = mbit (bldata (s5_bits s))"

definition s5_line_rank :: "rank_select_se_512 \<Rightarrow> nat \<Rightarrow> nat" where
  "s5_line_rank s = s5_base (bldata (s5_bits s)) (the (s5_rank_cache s))"

definition s5_cache_ok :: "u64 list \<Rightarrow> nat \<Rightarrow> nat \<Rightarrow> bool" where
  "s5_cache_ok m rc N \<longleftrightarrow>
     (\<forall>k \<le> N. s5_base m rc k = cnt (mbit m) (512 * k))
     \<and> (\<forall>k < N. \<forall>j < 8. rank512 (s5_rela m rc k) j = cnt (mbit m) (512 * k + 64 * j) - cnt (mbit m) (512 * k))
     \<and> s5_rela m rc N = 0"

definition s5_inv :: "rank_select_se_512 \<Rightarrow> bool" where
  "s5_inv s \<longleftrightarrow>
     (let v = s5_bits s; m = bldata v; N = s5_lines s in
      febitvec_inv v \<and> m_size v < 2 ^ 32 \<and> m_words v \<noteq> None
      \<and> s5_rank_cache s = Some (16 * N) \<and> 16 * N + 3 * (N + 1) \<le> 2 * length m
      \<and> (\<forall>p. m_size v \<le> p \<and> p < 512 * N \<longrightarrow> \<not> mbit m p)
      \<and> s5_cache_ok m (16 * N) N
      \<and> s5_max_rank1 s = cnt (mbit m) (m_size v) \<and> s5_max_rank0 s = m_size v - s5_max_rank1 s
      \<and> (\<forall>c. s5_sel0_cache s = Some c \<longrightarrow>
           sel_cache_ok (\<lambda>k. 512 * k - s5_line_rank s k) 512 N ((s5_max_rank0 s + 512 - 1) div 512) (\<lambda>j. unat (get32 m (c + j))))
      \<and> (\<forall>c. s5_sel1_cache s = Some c \<longrightarrow>
           sel_cache_ok (s5_line_rank s) 512 N ((s5_max_rank1 s + 512 - 1) div 512) (\<lambda>j. unat (get32 m (c + j)))))"

definition s5_ex :: rank_select_se_512 where
  "s5_ex = s5_with \<lparr>m_words = Some [5, 0], m_size = 70, m_capacity = 128\<rparr>"

text \<open>The nine-bit fields of \<open>rela\<close>: the first \<open>j\<close> of them are set and the rest is zero.\<close>

definition fields_ok :: "u64 \<Rightarrow> (nat \<Rightarrow> nat) \<Rightarrow> nat \<Rightarrow> bool" where
  "fields_ok rela c j \<longleftrightarrow> (\<forall>k < j. take_bit 9 (drop_bit (k * 9) rela) = word_of_nat (c (Suc k))) \<and> drop_bit (j * 9) rela = 0"

section \<open>Fields and entries\<close>

lemma rank512_field: "0 < k \<Longrightarrow> rank512 w k = unat (take_bit 9 (drop_bit ((k - 1) * 9) w))"
  by (simp add: rank512_def get_bits_64_def take_bit_eq_mask mask_eq_decr_exp)

lemma rank512_0 [simp]: "rank512 w 0 = 0" "rank512 0 k = 0"
  by (simp_all add: rank512_def get_bits_64_def)

lemma join32: "(ucast (ucast v :: u32) :: u64) OR push_bit 32 (ucast (ucast (drop_bit 32 v) :: u32)) = v"
  by (rule bit_word_eqI) (auto simp: bit_simps)

lemma half_less: "i < 2 * n \<Longrightarrow> i div 2 < n" for i n :: nat
  by simp

text \<open>Writing one entry of the rank cache.\<close>

lemma s5_entry:
  fixes m and b :: u32 and w :: u64
  assumes room: "rc + 3 * k + 2 < 2 * length m"
  defines "m' \<equiv> s5_set_rela (s5_set_base m rc k b) rc k w"
  shows "same_except m m' (32 * (rc + 3 * k)) (32 * (rc + 3 * k) + 96)" and "s5_base m' rc k = unat b" and "s5_rela m' rc k = w"
proof -
  define x where "x = rc + 3 * k"
  have l: "x div 2 < length m" "(x + 1) div 2 < length m" "(x + 2) div 2 < length m"
    using room by (simp_all only: x_def half_less)
  define m1 where "m1 = set32 m x b"
  define m2 where "m2 = set32 m1 (x + 1) (ucast w)"
  have l1: "(x + 1) div 2 < length m1" "(x + 2) div 2 < length m2" using l by (simp_all add: m1_def m2_def)
  have m': "m' = set32 m2 (x + 2) (ucast (drop_bit 32 w))"
    by (simp add: m'_def s5_set_rela_def s5_set_base_def m2_def m1_def x_def)
  have "same_except m m1 (32 * x) (32 * x + 96)" unfolding m1_def by (rule same_except_set32_in [OF l(1)]) simp_all
  moreover have "same_except m1 m2 (32 * x) (32 * x + 96)" unfolding m2_def by (rule same_except_set32_in [OF l1(1)]) simp_all
  moreover have "same_except m2 m' (32 * x) (32 * x + 96)" unfolding m' by (rule same_except_set32_in [OF l1(2)]) simp_all
  ultimately show "same_except m m' (32 * (rc + 3 * k)) (32 * (rc + 3 * k) + 96)"
    unfolding x_def by (meson same_except_trans)
  have g: "get32 m' x = b" "get32 m' (x + 1) = ucast w" "get32 m' (x + 2) = ucast (drop_bit 32 w)"
    unfolding m' get32_set32 [OF l1(2)] unfolding m2_def get32_set32 [OF l1(1)] unfolding m1_def get32_set32 [OF l(1)] by simp_all
  show "s5_base m' rc k = unat b" by (simp add: s5_base_def x_def [symmetric] g)
  show "s5_rela m' rc k = w" unfolding s5_rela_def x_def [symmetric] g by (rule join32)
qed

lemma s5_entry_same:
  assumes "same_except m m' a b" and "32 * (rc + 3 * k) + 96 \<le> a \<or> b \<le> 32 * (rc + 3 * k)"
  shows "s5_base m' rc k = s5_base m rc k" and "s5_rela m' rc k = s5_rela m rc k"
proof -
  have g: "get32 m' (rc + 3 * k + i) = get32 m (rc + 3 * k + i)" if "i < 3" for i
    using assms(2) that by (intro same_except_get32 [OF assms(1)]) auto
  show "s5_base m' rc k = s5_base m rc k" "s5_rela m' rc k = s5_rela m rc k"
    using g [of 0] g [of 1] g [of 2] by (simp_all add: s5_base_def s5_rela_def)
qed

section \<open>The rank cache is built right\<close>

lemma fields_step:
  assumes "fields_ok rela c j" and "c (Suc j) < 2 ^ 9" and "j < 7"
  shows "fields_ok (rela OR push_bit (j * 9) (word_of_nat (c (Suc j)))) c (Suc j)"
proof -
  define x :: u64 where "x = word_of_nat (c (Suc j))"
  have "unat x = c (Suc j)" using assms(2) by (simp add: x_def unat_of_nat)
  then have "unat (take_bit 9 x) = unat x" unfolding unsigned_take_bit_eq using assms(2) by (simp add: take_bit_nat_eq_self)
  then have x9: "take_bit 9 x = x" by (rule unsigned_word_eqI)
  have hx: "\<not> bit x n" if "9 \<le> n" for n using that by (subst x9 [symmetric]) (simp add: bit_take_bit_iff)
  have hz: "\<not> bit rela n" if "j * 9 \<le> n" for n
  proof -
    have "bit (drop_bit (j * 9) rela) (n - j * 9) = bit rela n" using that by (simp add: bit_simps)
    with assms(1) show ?thesis by (simp add: fields_ok_def)
  qed
  define y where "y = rela OR push_bit (j * 9) x"
  have bt: "bit y n \<longleftrightarrow> (if n < j * 9 then bit rela n else n < 64 \<and> bit x (n - j * 9))" for n
    using hz [of n] by (auto simp: y_def bit_simps)
  have old: "take_bit 9 (drop_bit (k * 9) y) = take_bit 9 (drop_bit (k * 9) rela)" if "k < j" for k
  proof (rule bit_word_eqI)
    fix n
    have "n < 9 \<Longrightarrow> k * 9 + n < j * 9" using that by linarith
    then show "bit (take_bit 9 (drop_bit (k * 9) y)) n = bit (take_bit 9 (drop_bit (k * 9) rela)) n"
      by (cases "n < 9") (simp_all add: bit_take_bit_iff bit_drop_bit_eq bt)
  qed
  have new: "take_bit 9 (drop_bit (j * 9) y) = x"
  proof (rule bit_word_eqI)
    fix n
    have "n < 9 \<Longrightarrow> j * 9 + n < 64" using assms(3) by linarith
    then show "bit (take_bit 9 (drop_bit (j * 9) y)) n = bit x n"
      using hx [of n] by (cases "n < 9") (simp_all add: bit_take_bit_iff bit_drop_bit_eq bt)
  qed
  have top: "drop_bit (Suc j * 9) y = 0"
  proof (rule bit_word_eqI)
    fix n
    have "\<not> Suc j * 9 + n < j * 9" "Suc j * 9 + n - j * 9 = 9 + n" by simp_all
    then show "bit (drop_bit (Suc j * 9) y) n = bit 0 n"
      using hx [of "9 + n"] unfolding bit_drop_bit_eq by (simp only: comp_apply bt if_False) simp
  qed
  have "take_bit 9 (drop_bit (k * 9) y) = word_of_nat (c (Suc k))" if "k < Suc j" for k
  proof (cases "k = j")
    case True
    then show ?thesis using new by (simp only: x_def)
  next
    case False
    then have "k < j" using that by simp
    with old assms(1) show ?thesis by (simp add: fields_ok_def)
  qed
  with top show ?thesis unfolding fields_ok_def y_def x_def by blast
qed

lemma s5_rela_loop_ok:
  fixes m i
  defines "c \<equiv> \<lambda>j. cnt (mbit m) (512 * i + 64 * j) - cnt (mbit m) (512 * i)"
  assumes "j \<le> 7" and "fields_ok rela c j"
  shows "\<exists>rela'. s5_rela_loop m i j (c j) rela = (c 8, rela') \<and> (\<forall>k < 8. rank512 (rela' AND drop_bit 1 (- 1)) k = c k)"
  using assms(2,3)
proof (induction "7 - j" arbitrary: j rela)
  have step: "c j + fast_popcount (m ! (i * 8 + j)) = c (Suc j)" for j
  proof -
    have e: "64 * (i * 8 + j) = 512 * i + 64 * j" "512 * i + 64 * Suc j = 512 * i + 64 * j + 64" by simp_all
    show ?thesis
      using mem_bits.cnt_next [of m "i * 8 + j"] cnt_mono [of "512 * i" "512 * i + 64 * j" "mbit m"] unfolding c_def e by simp
  qed
  have small: "c j \<le> 64 * j" for j unfolding c_def cnt_add by simp
  {
    case 0
    then have j: "j = 7" by simp
    define r2 where "r2 = rela OR push_bit (7 * 9) (word_of_nat (c 8))"
    have "s5_rela_loop m i 7 (c 7) rela = (c 8, r2)"
      using step [of 7] by (subst s5_rela_loop.simps, subst s5_rela_loop.simps) (simp add: Let_def r2_def)
    moreover have "rank512 (r2 AND drop_bit 1 (- 1)) k = c k" if "k < 8" for k
    proof (cases "k = 0")
      case False
      have "take_bit 9 (drop_bit ((k - 1) * 9) (r2 AND drop_bit 1 (- 1))) = take_bit 9 (drop_bit ((k - 1) * 9) rela)"
        using that False unfolding r2_def by (intro bit_word_eqI) (auto simp: bit_simps)
      also have "\<dots> = word_of_nat (c k)"
        using "0"(3) False that unfolding fields_ok_def j by (auto dest: spec [where x = "k - 1"])
      finally show ?thesis
        using False small [of k] that by (simp add: rank512_field unat_of_nat)
    qed (simp add: c_def)
    ultimately show ?case unfolding j by auto
  next
    case (Suc d)
    then have j: "j < 7" by simp
    have "fields_ok (rela OR push_bit (j * 9) (word_of_nat (c (Suc j)))) c (Suc j)"
      using Suc.prems(2) j small [of "Suc j"] by (intro fields_step) simp_all
    then obtain rela' where "s5_rela_loop m i (Suc j) (c (Suc j)) (rela OR push_bit (j * 9) (word_of_nat (c (Suc j)))) = (c 8, rela')"
      "\<forall>k < 8. rank512 (rela' AND drop_bit 1 (- 1)) k = c k"
      using Suc.hyps(1) [of "Suc j"] Suc.hyps(2) j by fastforce
    moreover have "s5_rela_loop m i j (c j) rela = s5_rela_loop m i (Suc j) (c (Suc j)) (rela OR push_bit (j * 9) (word_of_nat (c (Suc j))))"
      using j step by (subst s5_rela_loop.simps) (simp add: Let_def)
    ultimately show ?case by auto
  }
qed

lemma lines512:
  fixes n defines "k \<equiv> align_up n 512 div 512"
  shows "align_up n 512 = 512 * k" and "512 * k div 64 = 8 * k" and "512 * k div 512 = k" and "n \<le> 512 * k"
    and "512 * k < n + 512" and "(n + 512 - 1) div 512 = k"
proof -
  show e: "align_up n 512 = 512 * k" unfolding k_def by (rule align_up_lines)
  have "512 * k = (8 * k) * 64" by simp
  then show "512 * k div 64 = 8 * k" by (metis nonzero_mult_div_cancel_right zero_neq_numeral)
  show "512 * k div 512 = k" by simp
  show "(n + 512 - 1) div 512 = k" by (simp add: k_def align_up_def)
  show "n \<le> 512 * k" "512 * k < n + 512"
    using align_up_ge [of 512 n] align_up_less [of 512 n] unfolding e by simp_all
qed

lemma s5_fill_ok:
  assumes rc: "16 * N \<le> rc" "rc + 3 * N \<le> 2 * length m0"
    and small: "\<And>k. k \<le> N \<Longrightarrow> cnt (mbit m0) (512 * k) < 2 ^ 32"
    and same: "same_except m0 m (32 * rc) (32 * (rc + 3 * N))" and i: "i \<le> N"
    and filled: "\<And>k. k < i \<Longrightarrow> s5_base m rc k = cnt (mbit m0) (512 * k)"
      "\<And>k j. k < i \<Longrightarrow> j < 8 \<Longrightarrow> rank512 (s5_rela m rc k) j = cnt (mbit m0) (512 * k + 64 * j) - cnt (mbit m0) (512 * k)"
  shows "\<exists>m'. s5_fill rc N i (cnt (mbit m0) (512 * i)) m = (m', cnt (mbit m0) (512 * N))
    \<and> same_except m0 m' (32 * rc) (32 * (rc + 3 * N))
    \<and> (\<forall>k < N. s5_base m' rc k = cnt (mbit m0) (512 * k))
    \<and> (\<forall>k < N. \<forall>j < 8. rank512 (s5_rela m' rc k) j = cnt (mbit m0) (512 * k + 64 * j) - cnt (mbit m0) (512 * k))"
  using same i filled
proof (induction "N - i" arbitrary: i m)
  case 0
  then have "i = N" by simp
  with 0 show ?case by (subst s5_fill.simps) simp
next
  case (Suc d)
  then have iN: "i < N" by simp
  define f where "f = mbit m0"
  have cm: "cnt (mbit m) p = cnt f p" if "p \<le> 512 * N" for p
    using that rc(1) unfolding f_def by (intro cnt_same [OF Suc.prems(1)]) simp
  have le: "512 * i + 64 * j \<le> 512 * N" if "j \<le> 8" for j using that iN by simp
  have "fields_ok 0 (\<lambda>j. cnt (mbit m) (512 * i + 64 * j) - cnt (mbit m) (512 * i)) 0" by (simp add: fields_ok_def)
  from s5_rela_loop_ok [OF _ this] obtain rela where rl:
    "s5_rela_loop m i 0 0 0 = (cnt f (512 * i + 512) - cnt f (512 * i), rela)"
    "\<And>k. k < 8 \<Longrightarrow> rank512 (rela AND drop_bit 1 (- 1)) k = cnt f (512 * i + 64 * k) - cnt f (512 * i)"
    using cm [OF le [of 8]] cm [OF le [of 0]] cm [OF le] by auto
  define m2 where "m2 = s5_set_rela (s5_set_base m rc i (word_of_nat (cnt f (512 * i)))) rc i (rela AND drop_bit 1 (- 1))"
  have rm: "rc + 3 * i + 2 < 2 * length m" using rc(2) iN same_except_length [OF Suc.prems(1)] by simp
  note en = s5_entry [OF rm, of "word_of_nat (cnt f (512 * i))" "rela AND drop_bit 1 (- 1)", folded m2_def]
  have s02: "same_except m0 m2 (32 * rc) (32 * (rc + 3 * N))"
    using iN by (intro same_except_trans [OF Suc.prems(1) same_except_widen [OF en(1)]]) simp_all
  have ui: "s5_base m2 rc i = cnt f (512 * i)" using en(2) small [of i] iN by (simp add: unat_of_nat f_def)
  have f1: "s5_base m2 rc k = cnt f (512 * k)" if "k < Suc i" for k
    using that ui Suc.prems(3) [of k] s5_entry_same(1) [OF en(1), of rc k] by (cases "k = i") (simp_all add: f_def)
  have f2: "rank512 (s5_rela m2 rc k) j = cnt f (512 * k + 64 * j) - cnt f (512 * k)" if "k < Suc i" "j < 8" for k j
    using that en(3) rl(2) [of j] Suc.prems(4) [of k j] s5_entry_same(2) [OF en(1), of rc k] by (cases "k = i") (simp_all add: f_def)
  have R: "cnt f (512 * i) + (cnt f (512 * i + 512) - cnt f (512 * i)) = cnt f (512 * Suc i)"
    using cnt_mono [of "512 * i" "512 * i + 512" f] by (simp add: add.commute)
  have dd: "d = N - Suc i" using Suc.hyps(2) by simp
  obtain m' where "s5_fill rc N (Suc i) (cnt f (512 * Suc i)) m2 = (m', cnt f (512 * N))"
    "same_except m0 m' (32 * rc) (32 * (rc + 3 * N))"
    "\<forall>k < N. s5_base m' rc k = cnt f (512 * k)"
    "\<forall>k < N. \<forall>j < 8. rank512 (s5_rela m' rc k) j = cnt f (512 * k + 64 * j) - cnt f (512 * k)"
    using Suc.hyps(1) [OF dd s02 Suc_leI [OF iN] f1 [unfolded f_def] f2 [unfolded f_def]] unfolding f_def by blast
  moreover have "s5_fill rc N i (cnt f (512 * i)) m = s5_fill rc N (Suc i) (cnt f (512 * Suc i)) m2"
    using iN by (subst s5_fill.simps) (simp only: if_True Let_def rl(1) prod.case m2_def R)
  ultimately show ?case unfolding f_def by auto
qed

text \<open>The block after the rank cache is complete.\<close>

lemma s5_cache_mem:
  fixes n defines "N \<equiv> align_up n 512 div 512"
  assumes small: "n < 2 ^ 32" and room: "16 * N + 3 * (N + 1) \<le> 2 * length m"
  defines "m1 \<equiv> bits_range_set0 m n (512 * N)"
  defines "m3 \<equiv> s5_RankCache512 (fst (s5_fill (16 * N) N 0 0 m1)) (16 * N) N (word_of_nat (snd (s5_fill (16 * N) N 0 0 m1)))"
  shows "length m3 = length m" and "snd (s5_fill (16 * N) N 0 0 m1) = cnt (mbit m) n"
    and "\<And>p. p < n \<Longrightarrow> mbit m3 p = mbit m p" and "\<And>p. n \<le> p \<Longrightarrow> p < 512 * N \<Longrightarrow> \<not> mbit m3 p"
    and "s5_cache_ok m3 (16 * N) N"
proof -
  note L = lines512 [of n, folded N_def]
  have b1: "mbit m1 p = (mbit m p \<and> \<not> (n \<le> p \<and> p < 512 * N))" for p
    unfolding m1_def using L(4) room by (intro mbit_bits_range_set0) simp_all
  have l1: "length m1 = length m" by (simp add: m1_def)
  have cm: "cnt (mbit m1) (512 * N) = cnt (mbit m) n"
  proof -
    have "cnt (mbit m1) (512 * N) = cnt (mbit m1) n" using L(4) by (intro cnt_pad) (auto simp: b1)
    also have "\<dots> = cnt (mbit m) n" by (rule cnt_cong) (simp add: b1)
    finally show ?thesis .
  qed
  have cs: "cnt (mbit m) n < 2 ^ 32" by (rule le_less_trans [OF cnt_le small])
  have sm: "cnt (mbit m1) (512 * k) < 2 ^ 32" if "k \<le> N" for k
    using cnt_mono [of "512 * k" "512 * N" "mbit m1"] that cm cs by simp
  have room1: "16 * N + 3 * N \<le> 2 * length m1" using room by (simp add: l1)
  obtain m2 where m2: "s5_fill (16 * N) N 0 0 m1 = (m2, cnt (mbit m1) (512 * N))"
    "same_except m1 m2 (32 * (16 * N)) (32 * (16 * N + 3 * N))"
    "\<forall>k<N. s5_base m2 (16 * N) k = cnt (mbit m1) (512 * k)"
    "\<forall>k<N. \<forall>j<8. rank512 (s5_rela m2 (16 * N) k) j = cnt (mbit m1) (512 * k + 64 * j) - cnt (mbit m1) (512 * k)"
    using s5_fill_ok [OF order_refl room1 sm, of m1 0] by auto
  show "snd (s5_fill (16 * N) N 0 0 m1) = cnt (mbit m) n" using m2(1) cm by simp
  have l2: "length m2 = length m" using same_except_length [OF m2(2)] l1 by simp
  have rm: "16 * N + 3 * N + 2 < 2 * length m2" using room by (simp add: l2)
  have m3: "m3 = s5_set_rela (s5_set_base m2 (16 * N) N (word_of_nat (cnt (mbit m) n))) (16 * N) N 0"
    using m2(1) cm by (simp add: m3_def s5_RankCache512_def)
  note en = s5_entry [OF rm, of "word_of_nat (cnt (mbit m) n)" 0, folded m3]
  show "length m3 = length m" using same_except_length [OF en(1)] l2 by simp
  have s3: "same_except m1 m3 (512 * N) (32 * (16 * N + 3 * N) + 96)"
    by (rule same_except_trans [OF same_except_widen [OF m2(2)] same_except_widen [OF en(1)]]) simp_all
  have b3: "mbit m3 p = mbit m1 p" if "p < 512 * N" for p using same_except_mbit [OF s3, of p] that by simp
  show "mbit m3 p = mbit m p" if "p < n" for p using that L(4) by (simp add: b3 b1)
  show "\<not> mbit m3 p" if "n \<le> p" "p < 512 * N" for p using that by (simp add: b3 b1)
  have c3: "cnt (mbit m3) q = cnt (mbit m1) q" if "q \<le> 512 * N" for q by (rule cnt_same [OF s3 that])
  have old: "s5_base m3 (16 * N) k = s5_base m2 (16 * N) k" "s5_rela m3 (16 * N) k = s5_rela m2 (16 * N) k" if "k < N" for k
    using that s5_entry_same [OF en(1), of "16 * N" k] by simp_all
  have lastb: "s5_base m3 (16 * N) N = cnt (mbit m1) (512 * N)" using en(2) cs cm by (simp add: unat_of_nat)
  show "s5_cache_ok m3 (16 * N) N"
    unfolding s5_cache_ok_def
  proof (intro conjI allI impI)
    fix k assume "k \<le> N"
    then show "s5_base m3 (16 * N) k = cnt (mbit m3) (512 * k)"
      using m2(3) old(1) [of k] lastb c3 [of "512 * k"] by (cases "k = N") simp_all
  next
    fix k j :: nat assume "k < N" "j < 8"
    then show "rank512 (s5_rela m3 (16 * N) k) j = cnt (mbit m3) (512 * k + 64 * j) - cnt (mbit m3) (512 * k)"
      using m2(4) old(2) c3 [of "512 * k + 64 * j"] c3 [of "512 * k"] by simp
  qed (rule en(3))
qed

lemma s5_cache_ok_agree:
  assumes "agree m m' (32 * (rc + 3 * (N + 1)))" and "16 * N \<le> rc" and "s5_cache_ok m rc N"
  shows "s5_cache_ok m' rc N"
proof -
  have l: "s5_base m' rc k = s5_base m rc k" "s5_rela m' rc k = s5_rela m rc k" if "k \<le> N" for k
    unfolding s5_base_def s5_rela_def using that
    by (subst agree_get32 [OF assms(1)], simp_all, subst agree_get32 [OF assms(1)], simp_all, subst agree_get32 [OF assms(1)], simp_all)
  have c: "cnt (mbit m') p = cnt (mbit m) p" if "p \<le> 512 * N" for p
    using that assms(2) by (intro agree_cnt [OF assms(1)]) simp
  show ?thesis using assms(3) unfolding s5_cache_ok_def by (auto simp: l c)
qed

lemma fill8_frame: "n \<le> 8 * length m \<Longrightarrow> length (fill8 m i n) = length m \<and> agree m (fill8 m i n) (8 * i)"
proof (induction m i n rule: fill8.induct)
  case (1 m i n)
  show ?case
  proof (cases "i < n")
    case True
    then have l: "i div 8 < length m" using "1.prems" by (simp add: less_mult_imp_div_less mult.commute)
    have s: "agree m (set8 m i 0) (8 * i)" using same_except_agree [OF same_except_set8 [OF l]] .
    have "length (fill8 (set8 m i 0) (Suc i) n) = length m \<and> agree (set8 m i 0) (fill8 (set8 m i 0) (Suc i) n) (8 * Suc i)"
      using "1.IH" [OF True] "1.prems" by simp
    with s True show ?thesis by (subst (1 2) fill8.simps) (simp add: agree_def)
  next
    case False
    then show ?thesis by (subst (1 2) fill8.simps) (simp add: agree_refl)
  qed
qed

section \<open>The whole build\<close>

lemma s5_build_ranks_ok:
  assumes inv: "febitvec_inv v" and small: "m_size v < 2 ^ 32" and b: "s5_build_ranks e v = Inr (v3, R)"
  defines "n \<equiv> m_size v"
  defines "N \<equiv> align_up n 512 div 512"
  shows "febitvec_inv v3" and "m_size v3 = n" and "R = cnt (mbit (bldata v3)) n" and "m_words v3 = Some (bldata v3)"
    and "\<And>p. p < n \<Longrightarrow> mbit (bldata v3) p = mbit (bldata v) p" and "\<And>p. n \<le> p \<Longrightarrow> p < 512 * N \<Longrightarrow> \<not> mbit (bldata v3) p"
    and "s5_cache_ok (bldata v3) (16 * N) N" and "16 * N + 3 * (N + 1) \<le> 2 * length (bldata v3)"
proof -
  note L = lines512 [of n, folded N_def]
  have LD: "2 * (512 * N div 64) = 16 * N" "512 * N div 512 = N" using L(2,3) by simp_all
  obtain v1 where v1: "febitvec_shrink_to_fit e v = Some v1"
    using b by (auto simp: s5_build_ranks_def split: option.splits)
  note sh = shrink_ok [OF inv v1]
  have sz1: "m_size v1 = n" using sh(3) by (simp add: n_def)
  obtain v2 where v2: "febitvec_reserve e (512 * N + (N + 1) * 12 * 8) v1 = Inr v2"
    using b v1 L by (auto simp: s5_build_ranks_def Let_def sz1 split: sum.splits)
  note rs = reserve_ok [OF sh(1) v2]
  have sz2: "m_size v2 = n" using rs(2) sz1 by simp
  have room: "16 * N + 3 * (N + 1) \<le> 2 * length (bldata v2)" using rs(4) febitvec_invD(2) [OF rs(1)] by simp
  define fl where "fl = s5_fill (16 * N) N 0 0 (bits_range_set0 (bldata v2) n (512 * N))"
  define m3 where "m3 = s5_RankCache512 (fst fl) (16 * N) N (word_of_nat (snd fl))"
  have "s5_build_ranks e v = Inr (v2\<lparr>m_words := Some m3\<rparr>, snd fl)"
    using v1 v2 by (simp only: s5_build_ranks_def Let_def option.case sum.case sz1 sz2 L(1) LD case_prod_unfold fl_def [symmetric] m3_def [symmetric])
  then have v3: "v3 = v2\<lparr>m_words := Some m3\<rparr>" "R = snd fl" using b by simp_all
  note M = s5_cache_mem [OF small [folded n_def] room [unfolded N_def], folded N_def, folded fl_def, folded m3_def]
  show "febitvec_inv v3" using rs(1) M(1) by (simp add: v3 febitvec_inv_def)
  show "m_size v3 = n" "m_words v3 = Some (bldata v3)" by (simp_all add: v3 sz2)
  show "R = cnt (mbit (bldata v3)) n" using M(2,3) by (simp add: v3 cong: cnt_cong)
  show "mbit (bldata v3) p = mbit (bldata v) p" if "p < n" for p
  proof -
    have "mbit (bldata v2) p = mbit (bldata v1) p" using rs(3) that sz1 by (simp add: bits_kept_def)
    also have "\<dots> = mbit (bldata v) p"
      using sh(2,3) that nth_bvec [of p v1] nth_bvec [of p v] by (simp add: n_def)
    finally show ?thesis using M(3) that by (simp add: v3)
  qed
  show "\<not> mbit (bldata v3) p" if "n \<le> p" "p < 512 * N" for p using M(4) that by (simp add: v3)
  show "s5_cache_ok (bldata v3) (16 * N) N" "16 * N + 3 * (N + 1) \<le> 2 * length (bldata v3)" using M(1,5) room by (simp_all add: v3)
qed

text \<open>What the second half adds to a vector with its rank cache.\<close>

lemma s5_build_index_ok:
  assumes inv: "febitvec_inv v3" "m_words v3 = Some (bldata v3)" and nv: "\<not> hasValgrind e"
    and small: "n < 2 ^ 32" and n: "m_size v3 = n" and R: "R = cnt (mbit (bldata v3)) n"
    and zero: "\<And>p. n \<le> p \<Longrightarrow> p < 512 * N \<Longrightarrow> \<not> mbit (bldata v3) p"
    and cache: "s5_cache_ok (bldata v3) (16 * N) N" "16 * N + 3 * (N + 1) \<le> 2 * length (bldata v3)" and N: "N = align_up n 512 div 512"
    and null: "s5_sel0_cache s = None" "s5_sel1_cache s = None"
    and v4: "febitvec_reserve e (m_capacity v3 + 32 * (((if s0 then (n - R + 512 - 1) div 512 + 1 else 0)
      + (if s1 then (R + 512 - 1) div 512 + 1 else 0) + 1) div 2 * 2 + 2)) v3 = Inr v4"
  shows "\<exists>s'. s5_build_index e s0 s1 s v3 R = Inr s' \<and> s5_inv s' \<and> s5_size s' = n
    \<and> (\<forall>i < n. s5_bit s' i = mbit (bldata v3) i) \<and> last (bldata (s5_bits s')) = rs_flags n s0 s1
    \<and> s5_sel0_cache s' = (if s0 then Some (19 * N + 3) else None)
    \<and> s5_sel1_cache s' = (if s1 then Some (19 * N + 3
      + (if s0 then (s5_max_rank0 s' + 512 - 1) div 512 + 1 else 0)) else None)"
proof -
  note L = lines512 [of n, folded N]
  have LD: "2 * (512 * N div 64) = 16 * N" "512 * N div 512 = N" using L(2,3) by simp_all
  define si where "si = 16 * N + 3 * (N + 1)"
  define slots0 slots1 where "slots0 = (n - R + 512 - 1) div 512" and "slots1 = (R + 512 - 1) div 512"
  note r4 = reserve_ok [OF inv(1) v4]
  have Rn: "R \<le> n" unfolding R by (rule cnt_le)
  have vR: "s5_base (bldata v3) (16 * N) N = R"
    using cache(1) cnt_pad [OF L(4) zero] R by (simp add: s5_cache_ok_def)
  have frame: "s5_base m' (16 * N) k = s5_base m (16 * N) k" if "agree m m' (32 * si)" "k \<le> N" for m m' k
    unfolding s5_base_def using that(2) by (subst agree_get32 [OF that(1)]) (simp_all add: si_def)
  have si: "si \<le> 2 * length (bldata v3)" using cache(2) by (simp add: si_def)
  define m4 where "m4 = fill8 (bldata v4) (4 * si) (8 * (m_capacity v4 div 64))"
  have cap4: "m_capacity v4 = 64 * length (bldata v4)" using febitvec_invD(2) [OF r4(1)] .
  have F: "length m4 = length (bldata v4)" "agree (bldata v4) m4 (32 * si)"
    using fill8_frame [of "8 * length (bldata v4)" "bldata v4" "4 * si"] by (simp_all add: m4_def cap4)
  have nl: "N < (2 * (m_capacity v4 div 64) - 16 * N) div 3" "N < 2 ^ 32"
  proof -
    have "64 * length (bldata v3) \<le> 64 * length (bldata v4)"
      using order_trans [OF le_add1 r4(4)] unfolding cap4 febitvec_invD(2) [OF inv(1)] .
    then have "length (bldata v3) \<le> length (bldata v4)" by simp
    then have "3 * (N + 1) \<le> 2 * (m_capacity v4 div 64) - 16 * N" using cache(2) by (simp add: cap4)
    then have "3 * (N + 1) div 3 \<le> (2 * (m_capacity v4 div 64) - 16 * N) div 3" by (rule div_le_mono)
    then show "N < (2 * (m_capacity v4 div 64) - 16 * N) div 3" by simp
    show "N < 2 ^ 32" using small L(5) by simp
  qed
  obtain m5 m6 where b: "build_selects 512 512 512 (\<lambda>m. s5_base m (16 * N)) ((2 * (m_capacity v4 div 64) - 16 * N) div 3) N si slots0 slots1 s0 s1 m4
      = Inr (m5, if s0 then Some si else None, if s1 then Some (si + (if s0 then slots0 + 1 else 0)) else None)"
    and m6: "m6 = m5[m_capacity v4 div 64 - 1 := rs_flags n s0 s1]" "agree (bldata v3) m6 (32 * si)" "last m6 = rs_flags n s0 s1"
      "febitvec_inv (v4\<lparr>m_words := Some m6\<rparr>)" "si < 2 * length m6"
    and ok: "s0 \<longrightarrow> sel_cache_ok (\<lambda>k. 512 * k - s5_base m6 (16 * N) k) 512 N slots0 (\<lambda>j. unat (get32 m6 (si + j)))"
      "s1 \<longrightarrow> sel_cache_ok (s5_base m6 (16 * N)) 512 N slots1 (\<lambda>j. unat (get32 m6 (si + (if s0 then slots0 + 1 else 0) + j)))"
    using build_index_ok [where v = "\<lambda>m. s5_base m (16 * N)" and F = "\<lambda>m. m4" and fl = "rs_flags n s0 s1",
        OF inv(1) nv v4 [folded slots0_def slots1_def] F si frame nl vR Rn L(4) slots0_def slots1_def] by blast
  have sz4: "m_size v4 = n" using r4(2) n by simp
  define s' where "s' = \<lparr>s5_bits = v4\<lparr>m_words := Some m6\<rparr>, s5_rank_cache = Some (16 * N),
    s5_sel0_cache = (if s0 then Some si else None), s5_sel1_cache = (if s1 then Some (si + (if s0 then slots0 + 1 else 0)) else None),
    s5_max_rank0 = n - R, s5_max_rank1 = R\<rparr>"
  have bld: "s5_build_index e s0 s1 s v3 R = Inr s'"
    using v4 b null unfolding s5_build_index_def Let_def n L(1) LD slots0_def slots1_def m4_def si_def s'_def m6(1) size_sub_le [OF Rn] by (simp add: sz4)
  have lines: "s5_lines s' = N" by (simp add: s'_def s5_lines_def s5_size_def sz4 N)
  have b6: "mbit m6 p = mbit (bldata v3) p" if "p < 512 * N" for p
    using agree_mbit [OF m6(2), of p] that by (simp add: si_def)
  have c6: "cnt (mbit m6) n = R" unfolding R using L(4) b6 by (intro cnt_cong) simp
  have "s5_cache_ok m6 (16 * N) N" by (rule s5_cache_ok_agree [OF _ order_refl cache(1)]) (use m6(2) in \<open>simp add: si_def\<close>)
  then have "s5_inv s'"
    unfolding s5_inv_def Let_def lines s5_line_rank_def
    using m6(4) small ok m6(5) c6 zero b6 by (simp add: s'_def sz4 slots0_def slots1_def si_def)
  moreover have "\<forall>i < n. s5_bit s' i = mbit (bldata v3) i" using b6 L(4) by (simp add: s'_def s5_bit_def)
  ultimately show ?thesis
    using bld m6(3) by (intro exI [of _ s']) (simp add: s'_def s5_size_def sz4 si_def slots0_def)
qed

lemma s5_build_cache_ok:
  assumes inv: "febitvec_inv (s5_bits s)" and w: "m_words (s5_bits s) \<noteq> None"
    and null: "s5_sel0_cache s = None" "s5_sel1_cache s = None" and nv: "\<not> hasValgrind e"
    and b: "s5_build_cache e s0 s1 s = Inr s'"
  shows "s5_inv s'" and "s5_size s' = s5_size s" and "i < s5_size s \<Longrightarrow> s5_bit s' i = s5_bit s i"
    and "last (bldata (s5_bits s')) = rs_flags (s5_size s) s0 s1"
    and "s5_sel0_cache s' = (if s0 then Some (19 * s5_lines s + 3) else None)"
    and "s5_sel1_cache s' = (if s1 then Some (19 * s5_lines s + 3
      + (if s0 then (s5_max_rank0 s' + 512 - 1) div 512 + 1 else 0)) else None)"
proof -
  have small: "m_size (s5_bits s) < 2 ^ 32"
    using b by (auto simp: s5_build_cache_def rank_select_check_overflow_def split: if_splits)
  obtain v3 R where r: "s5_build_ranks e (s5_bits s) = Inr (v3, R)" and x: "s5_build_index e s0 s1 s v3 R = Inr s'"
    using b w small by (auto simp: s5_build_cache_def rank_select_check_overflow_def split: sum.splits prod.splits)
  note k = s5_build_ranks_ok [OF inv small r]
  have Rn: "R \<le> m_size (s5_bits s)" unfolding k(3) by (rule cnt_le)
  obtain v4 where v4: "febitvec_reserve e (m_capacity v3 + 32 * (((if s0 then (m_size (s5_bits s) - R + 512 - 1) div 512 + 1 else 0)
      + (if s1 then (R + 512 - 1) div 512 + 1 else 0) + 1) div 2 * 2 + 2)) v3 = Inr v4"
    using x unfolding s5_build_index_def Let_def k(2) size_sub_le [OF Rn] by (cases "febitvec_reserve e (m_capacity v3 + 32 * (((if s0 then (m_size (s5_bits s) - R + 512 - 1) div 512 + 1 else 0)
      + (if s1 then (R + 512 - 1) div 512 + 1 else 0) + 1) div 2 * 2 + 2)) v3") auto
  from s5_build_index_ok [OF k(1,4) nv small k(2,3,6,7,8) refl null v4] x k(5)
  show "s5_inv s'" and "s5_size s' = s5_size s" and "i < s5_size s \<Longrightarrow> s5_bit s' i = s5_bit s i"
    and "last (bldata (s5_bits s')) = rs_flags (s5_size s) s0 s1"
    and "s5_sel0_cache s' = (if s0 then Some (19 * s5_lines s + 3) else None)"
    and "s5_sel1_cache s' = (if s1 then Some (19 * s5_lines s + 3
      + (if s0 then (s5_max_rank0 s' + 512 - 1) div 512 + 1 else 0)) else None)"
    by (auto simp: s5_size_def s5_bit_def s5_lines_def)
qed

lemma s5_build_ranks_total: "(\<And>n. realloc_ok e n) \<Longrightarrow> \<exists>v3 R. s5_build_ranks e v = Inr (v3, R)"
proof -
  assume ok: "\<And>n. realloc_ok e n"
  obtain v1 where v1: "febitvec_shrink_to_fit e v = Some v1" using shrink_total [OF ok] by blast
  obtain v2 where "febitvec_reserve e (align_up (m_size v1) 512 + (align_up (m_size v1) 512 div 512 + 1) * 12 * 8) v1 = Inr v2"
    using reserve_total [OF ok] by blast
  with v1 show ?thesis unfolding s5_build_ranks_def Let_def case_prod_unfold by (simp only: option.case sum.case) simp
qed

lemma s5_build_total:
  assumes ok: "\<And>n. realloc_ok e n" and inv: "febitvec_inv (s5_bits s)"
    and null: "s5_sel0_cache s = None" "s5_sel1_cache s = None" and nv: "\<not> hasValgrind e" and small: "s5_size s < 2 ^ 32"
  shows "\<exists>s'. s5_build_cache e s0 s1 s = Inr s'"
proof (cases "m_words (s5_bits s)")
  case None
  then show ?thesis using small by (simp add: s5_build_cache_def rank_select_check_overflow_def s5_size_def)
next
  case (Some ws)
  obtain v3 R where r: "s5_build_ranks e (s5_bits s) = Inr (v3, R)" using s5_build_ranks_total [OF ok] by blast
  note k = s5_build_ranks_ok [OF inv small [unfolded s5_size_def] r]
  obtain v4 where v4: "febitvec_reserve e (m_capacity v3 + 32 * (((if s0 then (m_size (s5_bits s) - R + 512 - 1) div 512 + 1 else 0)
      + (if s1 then (R + 512 - 1) div 512 + 1 else 0) + 1) div 2 * 2 + 2)) v3 = Inr v4"
    using reserve_total [OF ok] by blast
  from s5_build_index_ok [OF k(1,4) nv small [unfolded s5_size_def] k(2,3,6,7,8) refl null v4] Some small r
  show ?thesis by (auto simp: s5_build_cache_def rank_select_check_overflow_def s5_size_def)
qed

section \<open>Rank and select\<close>

lemma s5_invD:
  assumes "s5_inv s"
  shows "febitvec_inv (s5_bits s)" and "s5_size s < 2 ^ 32" and "s5_rank_cache s = Some (16 * s5_lines s)"
    and "16 * s5_lines s + 3 * (s5_lines s + 1) \<le> 2 * length (bldata (s5_bits s))"
    and "\<And>p. s5_size s \<le> p \<Longrightarrow> p < 512 * s5_lines s \<Longrightarrow> \<not> s5_bit s p"
    and "s5_cache_ok (bldata (s5_bits s)) (16 * s5_lines s) (s5_lines s)"
    and "s5_max_rank1 s = cnt (s5_bit s) (s5_size s)" and "s5_max_rank0 s = s5_size s - s5_max_rank1 s"
    and "\<And>c. s5_sel0_cache s = Some c \<Longrightarrow> sel_cache_ok (\<lambda>k. 512 * k - s5_line_rank s k) 512 (s5_lines s)
      ((s5_max_rank0 s + 512 - 1) div 512) (\<lambda>j. unat (get32 (bldata (s5_bits s)) (c + j)))"
    and "\<And>c. s5_sel1_cache s = Some c \<Longrightarrow> sel_cache_ok (s5_line_rank s) 512 (s5_lines s)
      ((s5_max_rank1 s + 512 - 1) div 512) (\<lambda>j. unat (get32 (bldata (s5_bits s)) (c + j)))"
  using assms unfolding s5_inv_def Let_def s5_size_def s5_bit_def by blast+

lemma s5_size_lines: "s5_size s \<le> 512 * s5_lines s"
  unfolding s5_lines_def by (rule lines512(4))

lemma s5_line_rank_cnt: "s5_inv s \<Longrightarrow> k \<le> s5_lines s \<Longrightarrow> s5_line_rank s k = cnt (s5_bit s) (512 * k)"
  using s5_invD(3,6) [of s] by (simp add: s5_line_rank_def s5_cache_ok_def s5_bit_def)

lemma s5_rela_cnt:
  assumes "s5_inv s" and "k < s5_lines s" and "j < 8"
  shows "rank512 (s5_rela (bldata (s5_bits s)) (16 * s5_lines s) k) j = cnt (s5_bit s) (512 * k + 64 * j) - cnt (s5_bit s) (512 * k)"
  using s5_invD(6) [OF assms(1)] assms(2,3) by (simp add: s5_cache_ok_def s5_bit_def)

interpretation s51: rank_lines s5_inv s5_bit 512 s5_lines s5_line_rank
  by unfold_locales (rule s5_line_rank_cnt)

interpretation s50: rank_lines s5_inv "\<lambda>s p. \<not> s5_bit s p" 512 s5_lines "\<lambda>s k. 512 * k - s5_line_rank s k"
  by (rule s51.compl_lines)

lemma pos512: "512 * (p div 512) + 64 * (p mod 512 div 64) = 64 * (p div 64)" for p :: nat
proof -
  have "p div 64 div 8 = p div 512" "p div 64 mod 8 = p mod 512 div 64"
    using div_mult2_eq [of p 64 8] mod_mult2_eq [of p 64 8] by simp_all
  then have "p div 64 = 8 * (p div 512) + p mod 512 div 64" using mult_div_mod_eq [of 8 "p div 64"] by simp
  then show ?thesis by simp
qed

lemma s5_fast_rank1_eq: "s5_rank1 s p = s5_fast_rank1 (bldata (s5_bits s)) (the (s5_rank_cache s)) p"
  by (simp add: s5_rank1_def s5_fast_rank1_def Let_def)

lemma s5_rank1_cnt:
  assumes "s5_inv s" and "p \<le> s5_size s"
  shows "s5_rank1 s p = cnt (s5_bit s) p"
proof -
  define m where "m = bldata (s5_bits s)"
  define k where "k = p div 512"
  define j where "j = p mod 512 div 64"
  have j: "j < 8" unfolding j_def by (rule less_mult_imp_div_less) simp
  have kN: "k \<le> s5_lines s" using div_le_mono [OF le_trans [OF assms(2) s5_size_lines], of 512] by (simp add: k_def)
  have pos: "512 * k + 64 * j = 64 * (p div 64)" unfolding k_def j_def by (rule pos512)
  have lev: "s5_line_rank s k + rank512 (s5_rela m (16 * s5_lines s) k) j = cnt (s5_bit s) (64 * (p div 64))"
  proof (cases "k < s5_lines s")
    case True
    have "cnt (s5_bit s) (512 * k) \<le> cnt (s5_bit s) (512 * k + 64 * j)" by (rule cnt_mono) simp
    then show ?thesis
      using s5_line_rank_cnt [OF assms(1) kN] s5_rela_cnt [OF assms(1) True j] by (simp add: m_def pos)
  next
    case False
    then have k: "k = s5_lines s" using kN by simp
    have "p \<le> 512 * k" using le_trans [OF assms(2) s5_size_lines] k by simp
    then have "64 * (p div 64) = 512 * k" using pos times_div_less_eq_dividend [of 64 p] by linarith
    moreover have "s5_rela m (16 * s5_lines s) k = 0" using s5_invD(6) [OF assms(1)] k by (simp add: s5_cache_ok_def m_def)
    ultimately show ?thesis using s5_line_rank_cnt [OF assms(1) kN] by simp
  qed
  have "s5_rank1 s p = s5_line_rank s k + rank512 (s5_rela m (16 * s5_lines s) k) j + fast_popcount_trail (m ! (p div 64)) (p mod 64)"
    using s5_invD(3) [OF assms(1)] by (simp add: s5_rank1_def Let_def s5_line_rank_def m_def k_def j_def rank512_def)
  then show ?thesis
    unfolding lev using mem_bits.cnt_pos [of m p] by (simp add: s5_bit_def m_def)
qed

text \<open>Once the line is found, its decision tree finds the bit.\<close>

lemma s5_line_select1:
  assumes "s5_inv s" and "0 < k" and "k \<le> s5_lines s" and "s5_line_rank s (k - 1) \<le> r" and "r < s5_line_rank s k"
    and "r < cnt (s5_bit s) (s5_size s)"
  shows "line8_select1 (rank512 (s5_rela (bldata (s5_bits s)) (16 * s5_lines s) (k - 1))) (\<lambda>j. bldata (s5_bits s) ! (8 * (k - 1) + j)) r
    (s5_line_rank s (k - 1)) ((k - 1) * 512) = sel (s5_bit s) (s5_size s) r"
proof -
  note lf = s51.line_found [OF assms(1-5)]
  have e: "(k - 1) * 512 = 64 * (8 * (k - 1))" "\<And>j. 64 * (8 * (k - 1) + j) = 512 * (k - 1) + 64 * j" by simp_all
  have "k - 1 < s5_lines s" using assms(2,3) by simp
  with lf assms(6) s5_rela_cnt [OF assms(1)] show ?thesis
    unfolding e(1) by (unfold s5_bit_def, intro mem_bits.line8_select1_sel) (simp_all add: s5_bit_def e(2))
qed

lemma cnt_sub_words: "cnt f (a + 64 * j) - cnt f a \<le> 64 * j"
  unfolding cnt_add by simp

lemma s5_line_select0:
  assumes "s5_inv s" and "0 < k" and "k \<le> s5_lines s" and "512 * (k - 1) - s5_line_rank s (k - 1) \<le> r"
    and "r < 512 * k - s5_line_rank s k" and "r < cnt (\<lambda>p. \<not> s5_bit s p) (s5_size s)"
  shows "line8_select0 (rank512 (s5_rela (bldata (s5_bits s)) (16 * s5_lines s) (k - 1))) (\<lambda>j. bldata (s5_bits s) ! (8 * (k - 1) + j)) r
    (512 * (k - 1) - s5_line_rank s (k - 1)) ((k - 1) * 512) = sel (\<lambda>p. \<not> s5_bit s p) (s5_size s) r"
proof -
  define m where "m = bldata (s5_bits s)"
  define rk where "rk = rank512 (s5_rela m (16 * s5_lines s) (k - 1))"
  note lf = s50.line_found [OF assms(1-5)]
  have e: "(k - 1) * 512 = 64 * (8 * (k - 1))" "\<And>j. 64 * (8 * (k - 1) + j) = 512 * (k - 1) + 64 * j" by simp_all
  have k: "k - 1 < s5_lines s" using assms(2,3) by simp
  have lev: "rk j = cnt (mbit m) (512 * (k - 1) + 64 * j) - cnt (mbit m) (512 * (k - 1))" if "j < 8" for j
    using s5_rela_cnt [OF assms(1) k that] by (simp add: s5_bit_def m_def rk_def)
  have le: "rk j \<le> 64 * j" if "j < 8" for j unfolding lev [OF that] by (rule cnt_sub_words)
  have zero: "64 * j - rk j = cnt (\<lambda>p. \<not> mbit m p) (512 * (k - 1) + 64 * j) - cnt (\<lambda>p. \<not> mbit m p) (512 * (k - 1))" if "j < 8" for j
    unfolding lev [OF that] cnt_Not by (intro sub_compl cnt_le cnt_mono cnt_sub_words) simp_all
  have "line8_select1 (\<lambda>j. 64 * j - rk j) (\<lambda>j. NOT (m ! (8 * (k - 1) + j))) r
      (512 * (k - 1) - s5_line_rank s (k - 1)) (64 * (8 * (k - 1))) = sel (\<lambda>p. \<not> mbit m p) (s5_size s) r"
    using lf assms(6) zero
    by (intro mem_bits0.line8_select1_sel) (simp_all add: s5_bit_def m_def e(2))
  with line8_select0_compl [where rk = rk, OF le]
  show ?thesis unfolding e(1) m_def [symmetric] rk_def [symmetric] s5_bit_def by (rule trans)
qed

lemma s5_hi_bounds: "s5_lines s \<le> (m_size (s5_bits s) + 512 + 1) div 512" "(m_size (s5_bits s) + 512 + 1) div 512 \<le> Suc (s5_lines s)"
proof -
  have N: "s5_lines s = (m_size (s5_bits s) + 512 - 1) div 512"
    unfolding s5_lines_def s5_size_def by (rule lines512(6) [symmetric])
  show "s5_lines s \<le> (m_size (s5_bits s) + 512 + 1) div 512" unfolding N by (rule div_le_mono) simp
  have "(m_size (s5_bits s) + 512 + 1) div 512 \<le> (m_size (s5_bits s) + 512 - 1 + 512) div 512" by (rule div_le_mono) simp
  then show "(m_size (s5_bits s) + 512 + 1) div 512 \<le> Suc (s5_lines s)" unfolding N by simp
qed

text \<open>What every select query starts from: the rank is below the last entry and inside the slots.\<close>

lemma s5_query1:
  assumes "s5_inv s" and "r < s5_max_rank1 s"
  shows "r < cnt (s5_bit s) (s5_size s)" and "r < s5_line_rank s (s5_lines s)" and "r < 512 * ((s5_max_rank1 s + 512 - 1) div 512)"
proof -
  show r: "r < cnt (s5_bit s) (s5_size s)" using assms s5_invD(7) by simp
  show "r < s5_line_rank s (s5_lines s)" by (rule s51.top_rank [OF assms(1) r s5_size_lines])
  show "r < 512 * ((s5_max_rank1 s + 512 - 1) div 512)" using assms(2) by (intro ceil_div_bound) simp_all
qed

lemma s5_query0:
  assumes "s5_inv s" and "r < s5_max_rank0 s"
  shows "r < cnt (\<lambda>p. \<not> s5_bit s p) (s5_size s)" and "r < 512 * s5_lines s - s5_line_rank s (s5_lines s)"
    and "r < 512 * ((s5_max_rank0 s + 512 - 1) div 512)"
proof -
  show r: "r < cnt (\<lambda>p. \<not> s5_bit s p) (s5_size s)" using assms s5_invD(7,8) [OF assms(1)] by (simp add: cnt_Not)
  show "r < 512 * s5_lines s - s5_line_rank s (s5_lines s)" by (rule s50.top_rank [OF assms(1) r s5_size_lines])
  show "r < 512 * ((s5_max_rank0 s + 512 - 1) div 512)" using assms(2) by (intro ceil_div_bound) simp_all
qed

lemma s5_ranks:
  assumes "s5_inv s"
  shows "the (s5_rank_cache s) = 16 * s5_lines s" and "s5_base (bldata (s5_bits s)) (16 * s5_lines s) = s5_line_rank s"
    and "s5_lines s < (2 * length (bldata (s5_bits s)) - 16 * s5_lines s) div 3"
proof -
  show "the (s5_rank_cache s) = 16 * s5_lines s" "s5_base (bldata (s5_bits s)) (16 * s5_lines s) = s5_line_rank s"
    using s5_invD(3) [OF assms] by (simp_all add: s5_line_rank_def)
  have "3 * (s5_lines s + 1) \<le> 2 * length (bldata (s5_bits s)) - 16 * s5_lines s" using s5_invD(4) [OF assms] by simp
  from div_le_mono [OF this, of 3] show "s5_lines s < (2 * length (bldata (s5_bits s)) - 16 * s5_lines s) div 3" by simp
qed

lemma s5_select1_sel:
  assumes "s5_inv s" and "r < s5_max_rank1 s"
  shows "s5_select1 s r = sel (s5_bit s) (s5_size s) r"
proof -
  note q = s5_query1 [OF assms]
  obtain lo hi where lh: "(lo, hi) = (case s5_sel1_cache s of
      Some c \<Rightarrow> (unat (get32 (bldata (s5_bits s)) (c + r div 512)), unat (get32 (bldata (s5_bits s)) (c + (r div 512 + 1))))
    | None \<Rightarrow> (0, (m_size (s5_bits s) + 512 + 1) div 512))" by (rule prod.exhaust, drule sym, rule that)
  note k = s51.member_search [OF assms(1) s5_invD(10) [OF assms(1)] _ q(3,2) s5_hi_bounds lh]
  show ?thesis
    unfolding s5_select1_def Let_def s5_ranks [OF assms(1)] lh [symmetric] prod.case
    by (rule s5_line_select1 [OF assms(1) k q(1)]) simp_all
qed

lemma s5_select0_sel:
  assumes "s5_inv s" and "r < s5_max_rank0 s"
  shows "s5_select0 s r = sel (\<lambda>p. \<not> s5_bit s p) (s5_size s) r"
proof -
  note q = s5_query0 [OF assms]
  obtain lo hi where lh: "(lo, hi) = (case s5_sel0_cache s of
      Some c \<Rightarrow> (unat (get32 (bldata (s5_bits s)) (c + r div 512)), unat (get32 (bldata (s5_bits s)) (c + (r div 512 + 1))))
    | None \<Rightarrow> (0, (m_size (s5_bits s) + 512 + 1) div 512))" by (rule prod.exhaust, drule sym, rule that)
  note k = s50.member_search [OF assms(1) s5_invD(9) [OF assms(1)] _ q(3,2) s5_hi_bounds lh]
  show ?thesis
    unfolding s5_select0_def Let_def s5_ranks [OF assms(1)] lh [symmetric] prod.case
    by (rule s5_line_select0 [OF assms(1) k q(1)]) simp_all
qed

lemma s5_fast_select1_sel:
  assumes "s5_inv s" and "r < s5_max_rank1 s" and "s5_sel1_cache s = Some c"
  shows "s5_fast_select1 (bldata (s5_bits s)) c (the (s5_rank_cache s)) r = Some (s5_select1 s r)"
proof -
  note q = s5_query1 [OF assms(1,2)]
  note st = s51.static_search [OF assms(1) s5_invD(10) [OF assms(1,3)] zero_less_numeral q(3,2) s5_ranks(3) [OF assms(1)]]
  show ?thesis
    unfolding s5_fast_select1_def Let_def s5_ranks [OF assms(1)] s5_select1_sel [OF assms(1,2)]
    using st [of "size_sub (unat (get32 (bldata (s5_bits s)) (c + (r div 512 + 1)))) (unat (get32 (bldata (s5_bits s)) (c + r div 512))) < 32"] by (elim exE conjE) (simp_all only: option.case s5_line_select1 [OF assms(1) _ _ _ _ q(1)])
qed

lemma s5_fast_select0_sel:
  assumes "s5_inv s" and "r < s5_max_rank0 s" and "s5_sel0_cache s = Some c"
  shows "s5_fast_select0 (bldata (s5_bits s)) c (the (s5_rank_cache s)) r = Some (s5_select0 s r)"
proof -
  note q = s5_query0 [OF assms(1,2)]
  note st = s50.static_search [OF assms(1) s5_invD(9) [OF assms(1,3)] zero_less_numeral q(3,2) s5_ranks(3) [OF assms(1)]]
  show ?thesis
    unfolding s5_fast_select0_def Let_def s5_ranks [OF assms(1)] s5_select0_sel [OF assms(1,2)]
    using st [of "size_sub (unat (get32 (bldata (s5_bits s)) (c + (r div 512 + 1)))) (unat (get32 (bldata (s5_bits s)) (c + r div 512))) < 32"] by (elim exE conjE) (simp_all only: option.case s5_line_select0 [OF assms(1) _ _ _ _ q(1)])
qed

section \<open>The contract, memory map and copy\<close>

lemma s5_is1_bit: "s5_is1 s = s5_bit s"
  by (rule ext) (simp add: s5_is1_def s5_bit_def febitvec_is1_def terark_bit_test_mbit)

lemma s5_rank0_cnt:
  assumes "s5_inv s" and "p \<le> s5_size s"
  shows "s5_rank0 s p = cnt (\<lambda>i. \<not> s5_bit s i) p"
  by (simp add: s5_rank0_def s5_rank1_cnt [OF assms] cnt_Not)

interpretation s5: rank_select s5_inv s5_size s5_is1 s5_rank0 s5_rank1 s5_max_rank0 s5_max_rank1 s5_select0 s5_select1
  by unfold_locales (simp_all add: s5_is1_bit s5_rank1_cnt s5_rank0_cnt s5_invD(7,8) cnt_Not s5_select1_sel s5_select0_sel)

lemma s5_mmap_built:
  assumes "s5_inv s" and "last (bldata (s5_bits s)) = rs_flags (s5_size s) s0 s1"
    and "s5_sel0_cache s = (if s0 then Some (19 * s5_lines s + 3) else None)"
    and "s5_sel1_cache s = (if s1 then Some (19 * s5_lines s + 3
      + (if s0 then (s5_max_rank0 s + 512 - 1) div 512 + 1 else 0)) else None)"
  shows "s5_risk_mmap_from (bldata (s5_bits s)) (s5_mem_size s) = s"
proof -
  define m where "m = bldata (s5_bits s)"
  define n where "n = s5_size s"
  define N where "N = align_up n 512 div 512"
  note L = lines512 [of n, folded N_def]
  have LD: "2 * (512 * N div 64) = 16 * N" "512 * N div 512 = N" using L(2,3) by simp_all
  have N: "s5_lines s = N" by (simp add: s5_lines_def N_def n_def)
  have ws: "m_words (s5_bits s) = Some m" using assms(1) by (auto simp: s5_inv_def Let_def m_def bldata_def)
  have cap: "m_capacity (s5_bits s) = 64 * length m" using s5_invD(1) [OF assms(1)] by (simp add: m_def febitvec_inv_def)
  have ne: "m \<noteq> []" using s5_invD(4) [OF assms(1)] by (auto simp: m_def)
  have len: "s5_mem_size s div 8 - 1 = length m - 1" "s5_mem_size s * 8 = m_capacity (s5_bits s)" by (simp_all add: s5_mem_size_def cap)
  have fl: "m ! (length m - 1) = rs_flags n s0 s1" using assms(2) ne by (simp add: m_def n_def last_conv_nth)
  have sz: "unat (drop_bit 8 (rs_flags n s0 s1)) = n" using s5_invD(2) [OF assms(1)] by (intro rs_flags_size) (simp add: n_def)
  have bits: "rs_flags n s0 s1 AND push_bit 0 1 \<noteq> 0 \<longleftrightarrow> s0" "rs_flags n s0 s1 AND push_bit 1 1 \<noteq> 0 \<longleftrightarrow> s1"
    by (simp_all only: and_push_bit_1 rs_flags_bits)
  have r: "s5_base m (16 * N) N = s5_max_rank1 s"
  proof -
    have "s5_base m (16 * N) N = cnt (s5_bit s) (512 * N)" using s5_invD(6) [OF assms(1)] by (simp add: s5_cache_ok_def m_def N s5_bit_def)
    also have "\<dots> = cnt (s5_bit s) n"
      using s5_invD(5) [OF assms(1)] by (intro cnt_pad [OF L(4)]) (auto simp: N n_def)
    finally show ?thesis using s5_invD(7) [OF assms(1)] by (simp add: n_def)
  qed
  have r0: "size_sub n (s5_max_rank1 s) = s5_max_rank0 s" using s5_invD(7,8) [OF assms(1)] by (simp add: n_def)
  have sels: "16 * N + 3 * (N + 1) = 19 * N + 3" by simp
  have rcs: "s5_rank_cache s = Some (16 * N)" using s5_invD(3) [OF assms(1)] by (simp add: N)
  show ?thesis
    unfolding s5_risk_mmap_from_def m_def [symmetric] len Let_def fl sz L(1) LD r r0 bits sels
    using ws rcs assms(3,4) by (cases s; cases "s5_bits s") (simp add: N n_def s5_size_def)
qed

lemma s5_copy_built:
  assumes "s5_inv y" and "\<And>n. realloc_ok e n"
  shows "s5_copy e y = (if 3 dvd s5_lines y then Inr y else Inl Undefined)"
proof -
  have ws: "m_words (s5_bits y) = Some (bldata (s5_bits y))" using assms(1) by (auto simp: s5_inv_def Let_def bldata_def)
  have ne: "bldata (s5_bits y) \<noteq> []" using s5_invD(4) [OF assms(1)] by auto
  obtain v where v: "febitvec_reserve e (m_capacity (s5_bits y)) febitvec_empty = Inr v"
    using reserve_total [OF assms(2)] by blast
  note cb = copy_block [OF s5_invD(1) [OF assms(1)] ws ne v]
  have m3: "16 * n mod 3 = 0 \<longleftrightarrow> 3 dvd n" for n :: nat by presburger
  have d3: "3 dvd n \<Longrightarrow> 16 * n div 3 * 3 = 16 * n" for n :: nat by (auto elim!: dvdE)
  have "s5_copy e y = (if 16 * s5_lines y mod 3 = 0 then Inr (y\<lparr>s5_rank_cache := Some (16 * s5_lines y div 3 * 3)\<rparr>) else Inl Undefined)"
    unfolding s5_copy_def v sum.case Let_def cb s5_invD(3) [OF assms(1)] option.case option.map by (cases y) simp
  also have "\<dots> = (if 3 dvd s5_lines y then Inr y else Inl Undefined)"
  proof (cases "3 dvd s5_lines y")
    case True
    then show ?thesis using m3 d3 s5_invD(3) [OF assms(1)] by (cases y) simp
  qed (use m3 in simp)
  finally show ?thesis .
qed

section \<open>Properties\<close>

text \<open>C4. End to end: after \<open>build_cache\<close>, with or without the select caches, \<open>rank_select_se_512\<close> answers
  \<open>is1\<close>, \<open>rank0\<close>, \<open>rank1\<close>, \<open>select0\<close>, \<open>select1\<close> and the maximal ranks for exactly the bits that were in
  the vector, and the static functions give the same answers.\<close>

theorem s5_build_correct:
  assumes "febitvec_inv (s5_bits s)" and "m_words (s5_bits s) \<noteq> None" and "s5_sel0_cache s = None" and "s5_sel1_cache s = None"
    and "\<not> hasValgrind e" and "s5_build_cache e s0 s1 s = Inr s'"
  shows "rs_answers (bvec (s5_bits s)) (s5_size s') (s5_is1 s') (s5_rank0 s') (s5_rank1 s')
      (s5_max_rank0 s') (s5_max_rank1 s') (s5_select0 s') (s5_select1 s')
    \<and> (\<forall>p. s5_fast_rank1 (bldata (s5_bits s')) (the (s5_rank_cache s')) p = s5_rank1 s' p)
    \<and> (s0 \<longrightarrow> (\<forall>r < s5_max_rank0 s'. s5_fast_select0 (bldata (s5_bits s')) (the (s5_sel0_cache s')) (the (s5_rank_cache s')) r
          = Some (s5_select0 s' r)))
    \<and> (s1 \<longrightarrow> (\<forall>r < s5_max_rank1 s'. s5_fast_select1 (bldata (s5_bits s')) (the (s5_sel1_cache s')) (the (s5_rank_cache s')) r
          = Some (s5_select1 s' r)))"
proof -
  note b = s5_build_cache_ok [OF assms]
  have "s5_is1 s' i = bvec (s5_bits s) ! i" if "i < length (bvec (s5_bits s))" for i
    using b(3) [of i] that by (simp add: s5_is1_bit s5_size_def s5_bit_def)
  then have "rs_answers (bvec (s5_bits s)) (s5_size s') (s5_is1 s') (s5_rank0 s') (s5_rank1 s')
      (s5_max_rank0 s') (s5_max_rank1 s') (s5_select0 s') (s5_select1 s')"
    using s5.answers_list [OF b(1), of "bvec (s5_bits s)"] b(2) by (simp add: s5_size_def)
  then show ?thesis
    using s5_fast_select0_sel [OF b(1)] s5_fast_select1_sel [OF b(1)] b(5,6) by (simp add: s5_fast_rank1_eq)
qed

lemma s5_ex_ok: "febitvec_inv (s5_bits s5_ex)" "m_words (s5_bits s5_ex) \<noteq> None" "s5_sel0_cache s5_ex = None" "s5_sel1_cache s5_ex = None"
  "s5_size s5_ex < 2 ^ 32" "\<not> hasValgrind env0"
  by (simp_all add: s5_ex_def s5_with_def febitvec_inv_def bldata_def s5_size_def env0_def)

theorem s5_build_correct_witness:
  "\<exists>s'. s5_build_cache env0 True True s5_ex = Inr s' \<and> s5_rank1 s' 3 = 2"
proof -
  obtain s' where s': "s5_build_cache env0 True True s5_ex = Inr s'"
    using s5_build_total [OF env0_ok s5_ex_ok(1,3,4,6,5)] by blast
  from s5_build_correct [OF s5_ex_ok(1-4,6) s']
  have "s5_rank1 s' 3 = count_list (take 3 (bvec (s5_bits s5_ex))) True"
    by (simp add: rs_answers_def s5_ex_def s5_with_def)
  also have "\<dots> = 2"
    by (simp add: bvec_def s5_ex_def s5_with_def bldata_def mbit_def upt_rec take_map)
  finally show ?thesis using s' by blast
qed



text \<open>Round trip of \<open>rank_select_se_512\<close> through the memory map, and what its copy constructor does: the
  offset of the rank cache is taken as a difference of pointers to 12-byte entries, so the copy is the
  original when the number of lines is a multiple of three and undefined otherwise.\<close>

theorem s5_mmap_copy:
  assumes "febitvec_inv (s5_bits s)" and "m_words (s5_bits s) \<noteq> None" and "s5_sel0_cache s = None" and "s5_sel1_cache s = None"
    and "\<not> hasValgrind e" and "s5_build_cache e s0 s1 s = Inr s'" and "\<forall>n. realloc_ok e' n"
  shows "s5_risk_mmap_from (bldata (s5_bits s')) (s5_mem_size s') = s'
    \<and> s5_copy e' s' = (if 3 dvd align_up (s5_size s) 512 div 512 then Inr s' else Inl Undefined)"
proof -
  note b = s5_build_cache_ok [OF assms(1-6)]
  have l: "s5_lines s' = s5_lines s" using b(2) by (simp add: s5_lines_def)
  then have "s5_risk_mmap_from (bldata (s5_bits s')) (s5_mem_size s') = s'"
    using b by (intro s5_mmap_built [of s' s0 s1]) simp_all
  then show ?thesis using s5_copy_built [OF b(1)] assms(7) l by (simp add: s5_lines_def)
qed

theorem s5_mmap_copy_witness:
  "\<exists>s'. s5_build_cache env0 True True s5_ex = Inr s' \<and> s5_copy env0 s' = Inl Undefined"
proof -
  obtain s' where s': "s5_build_cache env0 True True s5_ex = Inr s'"
    using s5_build_total [OF env0_ok s5_ex_ok(1,3,4,6,5)] by blast
  have "align_up (s5_size s5_ex) 512 div 512 = 1" by (simp add: s5_ex_def s5_with_def s5_size_def align_up_def)
  with s5_mmap_copy [OF s5_ex_ok(1-4,6) s'] env0_ok s' show ?thesis by simp
qed

end
