(* ===== verification/Valvec.thy ===== *)
theory Valvec
  imports Febitvec
begin

text \<open>
  \<open>valvec<T>\<close> of \<open>src/src/terark/valvec.hpp\<close>: the growable array that the containers of the library are
  built on. Memory is obtained with \<open>realloc\<close>, so the block is a list of slots: the first \<open>vn\<close> hold the
  elements and the rest is whatever the allocator left there (\<open>v_junk\<close>). \<open>vp = None\<close> is the null pointer.
  Elements are values; \<open>d\<close> stands for the value of \<open>T()\<close>.
\<close>

section \<open>The structure and its memory\<close>

record 'a venv =
  v_ok :: "nat \<Rightarrow> bool"
  v_junk :: "nat \<Rightarrow> 'a"

record 'a valvec =
  vp :: "'a list option"
  vn :: nat
  vc :: nat

definition vdata :: "'a valvec \<Rightarrow> 'a list" where
  "vdata v = (case vp v of None \<Rightarrow> [] | Some m \<Rightarrow> m)"

text \<open>\<open>realloc\<close> and \<open>malloc\<close> of a number of elements.\<close>

definition v_realloc :: "'a venv \<Rightarrow> 'a list \<Rightarrow> nat \<Rightarrow> 'a list option" where
  "v_realloc e old k = (if v_ok e k then Some (take k old @ map (v_junk e) [length old ..< k]) else None)"

text \<open>Copying \<open>xs\<close> to the slots from \<open>i\<close>, and \<open>memmove\<close> of \<open>k\<close> slots from \<open>b\<close> to \<open>a\<close>.\<close>

definition put_at :: "nat \<Rightarrow> 'a list \<Rightarrow> 'a list \<Rightarrow> 'a list" where
  "put_at i xs m = take i m @ xs @ drop (i + length xs) m"

definition mem_move :: "nat \<Rightarrow> nat \<Rightarrow> nat \<Rightarrow> 'a list \<Rightarrow> 'a list" where
  "mem_move a b k m = put_at a (take k (drop b m)) m"

definition upd_slots :: "('a list \<Rightarrow> 'a list) \<Rightarrow> 'a valvec \<Rightarrow> 'a valvec" where
  "upd_slots f v = v\<lparr>vp := map_option f (vp v)\<rparr>"

definition vv_get :: "'a valvec \<Rightarrow> nat \<Rightarrow> 'a" where
  "vv_get v i = vdata v ! i"

text \<open>An argument passed by \<open>param_type\<close>: a value that is not in the vector, or a reference to its element \<open>i\<close>.\<close>

datatype 'a arg = Val 'a | Ref nat

fun is_Ref :: "'a arg \<Rightarrow> bool" where
  "is_Ref (Ref i) = True"
| "is_Ref (Val a) = False"

fun arg_val :: "'a valvec \<Rightarrow> 'a arg \<Rightarrow> 'a" where
  "arg_val v (Val a) = a"
| "arg_val v (Ref i) = vv_get v i"

section \<open>Construction and capacity\<close>

definition vv_empty :: "'a valvec" where
  "vv_empty = \<lparr>vp = None, vn = 0, vc = 0\<rparr>"

definition vv_construct :: "'a venv \<Rightarrow> 'a list \<Rightarrow> error + 'a valvec" where
  "vv_construct e xs =
     (if length xs \<noteq> 0 then
        case v_realloc e [] (length xs) of
          None \<Rightarrow> Inl Bad_alloc
        | Some q \<Rightarrow> Inr \<lparr>vp = Some (put_at 0 xs q), vn = length xs, vc = length xs\<rparr>
      else Inr vv_empty)"

definition vv_make_fill :: "'a venv \<Rightarrow> nat \<Rightarrow> 'a \<Rightarrow> error + 'a valvec" where
  "vv_make_fill e sz val =
     (if sz \<noteq> 0 then
        case v_realloc e [] sz of
          None \<Rightarrow> Inl Bad_alloc
        | Some q \<Rightarrow> Inr \<lparr>vp = Some (put_at 0 (replicate sz val) q), vn = sz, vc = sz\<rparr>
      else Inr vv_empty)"

definition vv_make :: "'a venv \<Rightarrow> 'a \<Rightarrow> nat \<Rightarrow> error + 'a valvec" where
  "vv_make e d sz =
     (if sz \<noteq> 0 then
        case v_realloc e [] sz of
          None \<Rightarrow> Inl Bad_alloc
        | Some q \<Rightarrow> Inr \<lparr>vp = Some (put_at 0 (replicate sz d) q), vn = sz, vc = sz\<rparr>
      else Inr vv_empty)"

definition vv_make_no_init :: "'a venv \<Rightarrow> nat \<Rightarrow> error + 'a valvec" where
  "vv_make_no_init e sz =
     (if sz \<noteq> 0 then
        case v_realloc e [] sz of None \<Rightarrow> Inl Bad_alloc | Some q \<Rightarrow> Inr \<lparr>vp = Some q, vn = sz, vc = sz\<rparr>
      else Inr vv_empty)"

definition vv_make_reserve :: "'a venv \<Rightarrow> nat \<Rightarrow> error + 'a valvec" where
  "vv_make_reserve e sz =
     (if sz \<noteq> 0 then
        case v_realloc e [] sz of None \<Rightarrow> Inl Bad_alloc | Some q \<Rightarrow> Inr \<lparr>vp = Some q, vn = 0, vc = sz\<rparr>
      else Inr vv_empty)"

definition vv_copy :: "'a venv \<Rightarrow> 'a valvec \<Rightarrow> error + 'a valvec" where
  "vv_copy e y = vv_construct e (take (vn y) (vdata y))"

definition vv_clear :: "'a valvec \<Rightarrow> 'a valvec" where
  "vv_clear v = v\<lparr>vp := None, vn := 0, vc := 0\<rparr>"

definition vv_risk_release_ownership :: "'a valvec \<Rightarrow> 'a valvec" where
  "vv_risk_release_ownership v = v\<lparr>vp := None, vn := 0, vc := 0\<rparr>"

definition vv_move :: "'a valvec \<Rightarrow> 'a valvec \<times> 'a valvec" where
  "vv_move y = (y, vv_risk_release_ownership y)"

text \<open>The move assignment calls \<open>new(this)valvec(y)\<close> with the named parameter \<open>y\<close>, an lvalue: the copy
  constructor is chosen. The result is the new \<open>*this\<close> and \<open>y\<close>.\<close>

definition vv_move_assign :: "'a venv \<Rightarrow> 'a valvec \<Rightarrow> 'a valvec \<Rightarrow> error + 'a valvec \<times> 'a valvec" where
  "vv_move_assign e v y =
     (case vv_copy e y of
        Inl err \<Rightarrow> Inl Abort
      | Inr v' \<Rightarrow> Inr (v', y))"

definition vv_swap :: "'a valvec \<Rightarrow> 'a valvec \<Rightarrow> 'a valvec \<times> 'a valvec" where
  "vv_swap x y = (y, x)"

definition vv_reserve_slow :: "'a venv \<Rightarrow> nat \<Rightarrow> 'a valvec \<Rightarrow> error + 'a valvec" where
  "vv_reserve_slow e newcap v =
     (case v_realloc e (vdata v) newcap of
        None \<Rightarrow> Inl Bad_alloc
      | Some q \<Rightarrow> Inr (v\<lparr>vp := Some q, vc := newcap\<rparr>))"

definition vv_reserve :: "'a venv \<Rightarrow> nat \<Rightarrow> 'a valvec \<Rightarrow> error + 'a valvec" where
  "vv_reserve e newcap v = (if newcap \<le> vc v then Inr v else vv_reserve_slow e newcap v)"

text \<open>\<open>size_t(ull(oldcap) * 103 / 64)\<close>, with the product reduced to 64 bits.\<close>

definition larger_capacity :: "nat \<Rightarrow> nat" where
  "larger_capacity oldcap = (oldcap * 103) mod 2 ^ 64 div 64"

definition vv_ensure_capacity_slow :: "'a venv \<Rightarrow> nat \<Rightarrow> 'a valvec \<Rightarrow> error + 'a valvec" where
  "vv_ensure_capacity_slow e min_cap v =
     (let new_cap = max (larger_capacity (vc v)) min_cap in
      case v_realloc e (vdata v) new_cap of
        None \<Rightarrow> Inl Bad_alloc
      | Some q \<Rightarrow> Inr (v\<lparr>vp := Some q, vc := new_cap\<rparr>))"

definition vv_ensure_capacity :: "'a venv \<Rightarrow> nat \<Rightarrow> 'a valvec \<Rightarrow> error + 'a valvec" where
  "vv_ensure_capacity e min_cap v = (if min_cap \<le> vc v then Inr v else vv_ensure_capacity_slow e min_cap v)"

text \<open>The result of the next two is also the index of the first unused slot.\<close>

definition vv_ensure_unused :: "'a venv \<Rightarrow> nat \<Rightarrow> 'a valvec \<Rightarrow> error + nat \<times> 'a valvec" where
  "vv_ensure_unused e unused_cap v =
     (let oldsize = vn v in
      case vv_ensure_capacity e (oldsize + unused_cap) v of Inl err \<Rightarrow> Inl err | Inr v \<Rightarrow> Inr (oldsize, v))"

definition vv_grow_capacity :: "'a venv \<Rightarrow> nat \<Rightarrow> 'a valvec \<Rightarrow> error + nat \<times> 'a valvec" where
  "vv_grow_capacity e k v =
     (let oldsize = vn v in
      case vv_ensure_capacity e (oldsize + k) v of Inl err \<Rightarrow> Inl err | Inr v \<Rightarrow> Inr (oldsize, v))"

text \<open>\<open>for (;;)\<close> of \<open>try_capacity_slow\<close>: halve the distance to \<open>min_cap\<close> until \<open>realloc\<close> succeeds.\<close>

function try_capacity_loop :: "'a venv \<Rightarrow> nat \<Rightarrow> nat \<Rightarrow> 'a valvec \<Rightarrow> error + 'a valvec" where
  "try_capacity_loop e min_cap cur_cap v =
     (case v_realloc e (vdata v) cur_cap of
        Some q \<Rightarrow> Inr (v\<lparr>vp := Some q, vc := cur_cap\<rparr>)
      | None \<Rightarrow>
          if cur_cap \<le> min_cap then Inl Bad_alloc
          else try_capacity_loop e min_cap (min_cap + (cur_cap - min_cap) div 2) v)"
  by pat_completeness auto
termination
  by (relation "measure (\<lambda>(e, min_cap, cur_cap, v). cur_cap - min_cap)") auto

declare try_capacity_loop.simps [simp del]

definition vv_try_capacity_slow :: "'a venv \<Rightarrow> nat \<Rightarrow> nat \<Rightarrow> 'a valvec \<Rightarrow> error + 'a valvec" where
  "vv_try_capacity_slow e min_cap max_cap v = try_capacity_loop e min_cap (if max_cap < min_cap then min_cap else max_cap) v"

definition vv_try_capacity :: "'a venv \<Rightarrow> nat \<Rightarrow> nat \<Rightarrow> 'a valvec \<Rightarrow> error + 'a valvec" where
  "vv_try_capacity e min_cap max_cap v = (if min_cap \<le> vc v then Inr v else vv_try_capacity_slow e min_cap max_cap v)"

text \<open>A \<open>realloc\<close> that refuses to shrink leaves the vector as it is.\<close>

definition vv_shrink_to_fit :: "'a venv \<Rightarrow> 'a valvec \<Rightarrow> 'a valvec" where
  "vv_shrink_to_fit e v =
     (if vn v = vc v then v
      else if vn v \<noteq> 0 then
        case v_realloc e (vdata v) (vn v) of Some q \<Rightarrow> v\<lparr>vp := Some q, vc := vn v\<rparr> | None \<Rightarrow> v
      else v\<lparr>vp := None, vc := 0, vn := 0\<rparr>)"

definition vv_shrink_to_fit_malloc_free :: "'a venv \<Rightarrow> 'a valvec \<Rightarrow> 'a valvec" where
  "vv_shrink_to_fit_malloc_free e v =
     (if vc v = 0 then v
      else if vn v = 0 then v\<lparr>vp := None, vc := 0\<rparr>
      else if vn v = vc v then v
      else case v_realloc e [] (vn v) of
             Some q \<Rightarrow> v\<lparr>vp := Some (put_at 0 (take (vn v) (vdata v)) q), vc := vn v\<rparr>
           | None \<Rightarrow> vv_shrink_to_fit e v)"

section \<open>Operations\<close>

definition vv_fill :: "'a \<Rightarrow> 'a valvec \<Rightarrow> 'a valvec" where
  "vv_fill x v = upd_slots (put_at 0 (replicate (vn v) x)) v"

definition vv_fill_range :: "nat \<Rightarrow> nat \<Rightarrow> 'a \<Rightarrow> 'a valvec \<Rightarrow> 'a valvec" where
  "vv_fill_range pos k x v = upd_slots (put_at pos (replicate k x)) v"

definition vv_erase_all :: "'a valvec \<Rightarrow> 'a valvec" where
  "vv_erase_all v = v\<lparr>vn := 0\<rparr>"

definition vv_assign :: "'a venv \<Rightarrow> 'a list \<Rightarrow> 'a valvec \<Rightarrow> error + 'a valvec" where
  "vv_assign e xs v =
     (case vv_reserve e (length xs) (vv_erase_all v) of
        Inl err \<Rightarrow> Inl err
      | Inr v \<Rightarrow> Inr ((upd_slots (put_at 0 xs) v)\<lparr>vn := length xs\<rparr>))"

definition vv_resize_slow_fill :: "'a venv \<Rightarrow> nat \<Rightarrow> 'a \<Rightarrow> 'a valvec \<Rightarrow> error + 'a valvec" where
  "vv_resize_slow_fill e newsize val v =
     (let oldsize = vn v in
      if newsize \<le> oldsize then Inr (v\<lparr>vn := newsize\<rparr>)
      else case vv_ensure_capacity e newsize v of
             Inl err \<Rightarrow> Inl err
           | Inr v \<Rightarrow> Inr ((upd_slots (put_at oldsize (replicate (newsize - oldsize) val)) v)\<lparr>vn := newsize\<rparr>))"

definition vv_resize_slow :: "'a venv \<Rightarrow> 'a \<Rightarrow> nat \<Rightarrow> 'a valvec \<Rightarrow> error + 'a valvec" where
  "vv_resize_slow e d newsize v =
     (let oldsize = vn v in
      if newsize \<le> oldsize then Inr (v\<lparr>vn := newsize\<rparr>)
      else case vv_ensure_capacity e newsize v of
             Inl err \<Rightarrow> Inl err
           | Inr v \<Rightarrow> Inr ((upd_slots (put_at oldsize (replicate (newsize - oldsize) d)) v)\<lparr>vn := newsize\<rparr>))"

definition vv_resize_val :: "'a venv \<Rightarrow> nat \<Rightarrow> 'a \<Rightarrow> 'a valvec \<Rightarrow> error + 'a valvec" where
  "vv_resize_val e newsize val v =
     (if newsize \<le> vn v then Inr (v\<lparr>vn := newsize\<rparr>) else vv_resize_slow_fill e newsize val v)"

definition vv_resize :: "'a venv \<Rightarrow> 'a \<Rightarrow> nat \<Rightarrow> 'a valvec \<Rightarrow> error + 'a valvec" where
  "vv_resize e d newsize v =
     (if newsize \<le> vn v then Inr (v\<lparr>vn := newsize\<rparr>) else vv_resize_slow e d newsize v)"

definition vv_resize_fill_val :: "'a venv \<Rightarrow> nat \<Rightarrow> 'a \<Rightarrow> 'a valvec \<Rightarrow> error + 'a valvec" where
  "vv_resize_fill_val e newsize val v =
     (case vv_ensure_capacity e newsize v of
        Inl err \<Rightarrow> Inl err
      | Inr v \<Rightarrow> Inr ((upd_slots (put_at 0 (replicate newsize val)) v)\<lparr>vn := newsize\<rparr>))"

definition vv_resize_fill :: "'a venv \<Rightarrow> 'a \<Rightarrow> nat \<Rightarrow> 'a valvec \<Rightarrow> error + 'a valvec" where
  "vv_resize_fill e d newsize v =
     (case vv_ensure_capacity e newsize v of
        Inl err \<Rightarrow> Inl err
      | Inr v \<Rightarrow> Inr ((upd_slots (put_at 0 (replicate newsize d)) v)\<lparr>vn := newsize\<rparr>))"

definition vv_resize_no_init :: "'a venv \<Rightarrow> nat \<Rightarrow> 'a valvec \<Rightarrow> error + 'a valvec" where
  "vv_resize_no_init e newsize v =
     (case vv_ensure_capacity e newsize v of Inl err \<Rightarrow> Inl err | Inr v \<Rightarrow> Inr (v\<lparr>vn := newsize\<rparr>))"

definition vv_trim :: "nat \<Rightarrow> 'a valvec \<Rightarrow> 'a valvec" where
  "vv_trim from' v = v\<lparr>vn := from'\<rparr>"

text \<open>\<open>insert\<close> reads its argument after the elements were moved: a reference into the vector then reads the slot
  it points to, and dangles when the block was reallocated.\<close>

definition vv_insert :: "'a venv \<Rightarrow> nat \<Rightarrow> 'a arg \<Rightarrow> 'a valvec \<Rightarrow> error + 'a valvec" where
  "vv_insert e pos x v =
     (if vn v < pos then Inl Out_of_range
      else case vv_ensure_capacity e (vn v + 1) v of
             Inl err \<Rightarrow> Inl err
           | Inr w \<Rightarrow>
               if is_Ref x \<and> vc v < vn v + 1 then Inl Undefined
               else
                 let w = upd_slots (mem_move (pos + 1) pos (vn w - pos)) w;
                     w = upd_slots (\<lambda>m. m[pos := arg_val w x]) w
                 in Inr (w\<lparr>vn := vn w + 1\<rparr>))"

definition vv_insert_n :: "'a venv \<Rightarrow> nat \<Rightarrow> 'a list \<Rightarrow> 'a valvec \<Rightarrow> error + 'a valvec" where
  "vv_insert_n e pos xs v =
     (if vn v < pos then Inl Out_of_range
      else case vv_ensure_capacity e (vn v + length xs) v of
             Inl err \<Rightarrow> Inl err
           | Inr v \<Rightarrow>
               let v = upd_slots (mem_move (pos + length xs) pos (vn v - pos)) v;
                   v = upd_slots (put_at pos xs) v
               in Inr (v\<lparr>vn := vn v + length xs\<rparr>))"

text \<open>\<open>push_back_slow\<close> keeps the index of an argument that is an element of the vector, so that it is read from the
  new block.\<close>

definition vv_push_back_slow :: "'a venv \<Rightarrow> 'a arg \<Rightarrow> 'a valvec \<Rightarrow> error + 'a valvec" where
  "vv_push_back_slow e x v =
     (let oldsize = vn v in
      case x of
        Ref idx \<Rightarrow>
          (case vv_ensure_capacity e (oldsize + 1) v of
             Inl err \<Rightarrow> Inl err
           | Inr v \<Rightarrow> Inr ((upd_slots (\<lambda>m. m[oldsize := vv_get v idx]) v)\<lparr>vn := oldsize + 1\<rparr>))
      | Val a \<Rightarrow>
          (case vv_ensure_capacity e (oldsize + 1) v of
             Inl err \<Rightarrow> Inl err
           | Inr v \<Rightarrow> Inr ((upd_slots (\<lambda>m. m[oldsize := a]) v)\<lparr>vn := oldsize + 1\<rparr>)))"

definition vv_push_back :: "'a venv \<Rightarrow> 'a arg \<Rightarrow> 'a valvec \<Rightarrow> error + 'a valvec" where
  "vv_push_back e x v =
     (let oldsize = vn v in
      if oldsize < vc v then Inr ((upd_slots (\<lambda>m. m[oldsize := arg_val v x]) v)\<lparr>vn := oldsize + 1\<rparr>)
      else vv_push_back_slow e x v)"

definition vv_push_back_slow_default :: "'a venv \<Rightarrow> 'a \<Rightarrow> 'a valvec \<Rightarrow> error + 'a valvec" where
  "vv_push_back_slow_default e d v =
     (let oldsize = vn v in
      case vv_ensure_capacity e (oldsize + 1) v of
        Inl err \<Rightarrow> Inl err
      | Inr v \<Rightarrow> Inr ((upd_slots (\<lambda>m. m[oldsize := d]) v)\<lparr>vn := oldsize + 1\<rparr>))"

definition vv_push_back_default :: "'a venv \<Rightarrow> 'a \<Rightarrow> 'a valvec \<Rightarrow> error + 'a valvec" where
  "vv_push_back_default e d v =
     (let oldsize = vn v in
      if oldsize < vc v then Inr ((upd_slots (\<lambda>m. m[oldsize := d]) v)\<lparr>vn := oldsize + 1\<rparr>)
      else vv_push_back_slow_default e d v)"

definition vv_emplace_back_slow :: "'a venv \<Rightarrow> 'a \<Rightarrow> 'a valvec \<Rightarrow> error + 'a valvec" where
  "vv_emplace_back_slow e x v =
     (case vv_ensure_capacity_slow e (vn v + 1) v of
        Inl err \<Rightarrow> Inl err
      | Inr v \<Rightarrow> Inr ((upd_slots (\<lambda>m. m[vn v := x]) v)\<lparr>vn := vn v + 1\<rparr>))"

definition vv_emplace_back :: "'a venv \<Rightarrow> 'a \<Rightarrow> 'a valvec \<Rightarrow> error + 'a valvec" where
  "vv_emplace_back e x v =
     (let oldsize = vn v in
      if oldsize < vc v then Inr ((upd_slots (\<lambda>m. m[oldsize := x]) v)\<lparr>vn := oldsize + 1\<rparr>)
      else vv_emplace_back_slow e x v)"

definition vv_unchecked_push_back :: "'a \<Rightarrow> 'a valvec \<Rightarrow> 'a valvec" where
  "vv_unchecked_push_back x v =
     (let oldsize = vn v in (upd_slots (\<lambda>m. m[oldsize := x]) v)\<lparr>vn := oldsize + 1\<rparr>)"

text \<open>Construction and assignment from input iterators, one \<open>push_back\<close> per element; \<open>operator=\<close>, where \<open>same\<close> is the
  test \<open>&y == this\<close>.\<close>

fun vv_push_all :: "'a venv \<Rightarrow> 'a list \<Rightarrow> 'a valvec \<Rightarrow> error + 'a valvec" where
  "vv_push_all e [] v = Inr v"
| "vv_push_all e (x # xs) v = (case vv_push_back e (Val x) v of Inl err \<Rightarrow> Inl err | Inr v \<Rightarrow> vv_push_all e xs v)"

definition vv_construct_input :: "'a venv \<Rightarrow> 'a list \<Rightarrow> error + 'a valvec" where
  "vv_construct_input e xs = vv_push_all e xs vv_empty"

definition vv_assign_input :: "'a venv \<Rightarrow> 'a \<Rightarrow> 'a list \<Rightarrow> 'a valvec \<Rightarrow> error + 'a valvec" where
  "vv_assign_input e d xs v = (case vv_resize e d 0 v of Inl err \<Rightarrow> Inl err | Inr v \<Rightarrow> vv_push_all e xs v)"

definition vv_copy_assign :: "'a venv \<Rightarrow> bool \<Rightarrow> 'a valvec \<Rightarrow> 'a valvec \<Rightarrow> error + 'a valvec" where
  "vv_copy_assign e same y v = (if same then Inr v else vv_assign e (take (vn y) (vdata y)) v)"

definition vv_append :: "'a venv \<Rightarrow> 'a list \<Rightarrow> 'a valvec \<Rightarrow> error + 'a valvec" where
  "vv_append e xs v =
     (let newsize = vn v + length xs in
      case vv_ensure_capacity e newsize v of
        Inl err \<Rightarrow> Inl err
      | Inr v \<Rightarrow> Inr ((upd_slots (put_at (vn v) xs) v)\<lparr>vn := newsize\<rparr>))"

definition vv_append_vec :: "'a venv \<Rightarrow> 'a valvec \<Rightarrow> 'a valvec \<Rightarrow> error + 'a valvec" where
  "vv_append_vec e y v =
     (let newsize = vn v + vn y in
      case vv_ensure_capacity e newsize v of
        Inl err \<Rightarrow> Inl err
      | Inr v \<Rightarrow> Inr ((upd_slots (put_at (vn v) (take (vn y) (vdata y))) v)\<lparr>vn := newsize\<rparr>))"

definition vv_grow_no_init :: "'a venv \<Rightarrow> nat \<Rightarrow> 'a valvec \<Rightarrow> error + nat \<times> 'a valvec" where
  "vv_grow_no_init e k v =
     (let oldsize = vn v in
      case vv_resize_no_init e (oldsize + k) v of Inl err \<Rightarrow> Inl err | Inr v \<Rightarrow> Inr (oldsize, v))"

definition vv_grow_val :: "'a venv \<Rightarrow> nat \<Rightarrow> 'a \<Rightarrow> 'a valvec \<Rightarrow> error + nat \<times> 'a valvec" where
  "vv_grow_val e k x v =
     (let oldsize = vn v in
      case vv_resize_val e (oldsize + k) x v of Inl err \<Rightarrow> Inl err | Inr v \<Rightarrow> Inr (oldsize, v))"

definition vv_grow :: "'a venv \<Rightarrow> 'a \<Rightarrow> nat \<Rightarrow> 'a valvec \<Rightarrow> error + nat \<times> 'a valvec" where
  "vv_grow e d k v =
     (let oldsize = vn v in
      case vv_resize e d (oldsize + k) v of Inl err \<Rightarrow> Inl err | Inr v \<Rightarrow> Inr (oldsize, v))"

text \<open>\<open>push_n\<close> fills the new slots at once for a \<open>T\<close> with a trivial copy and pushes one by one otherwise.\<close>

definition vv_push_n :: "'a venv \<Rightarrow> bool \<Rightarrow> nat \<Rightarrow> 'a \<Rightarrow> 'a valvec \<Rightarrow> error + 'a valvec" where
  "vv_push_n e trivial_copy k val v =
     (if trivial_copy then
        case vv_grow_no_init e k v of
          Inl err \<Rightarrow> Inl err
        | Inr (q, v) \<Rightarrow> Inr (upd_slots (put_at q (replicate k val)) v)
      else
        case vv_ensure_capacity e (vn v + k) v of
          Inl err \<Rightarrow> Inl err
        | Inr v \<Rightarrow> Inr ((vv_unchecked_push_back val ^^ k) v))"

definition vv_pop_back :: "'a valvec \<Rightarrow> 'a valvec" where
  "vv_pop_back v = v\<lparr>vn := vn v - 1\<rparr>"

definition vv_pop_n :: "nat \<Rightarrow> 'a valvec \<Rightarrow> 'a valvec" where
  "vv_pop_n num v = v\<lparr>vn := vn v - num\<rparr>"

definition vv_pop_val :: "'a valvec \<Rightarrow> 'a \<times> 'a valvec" where
  "vv_pop_val v = (vv_get v (vn v - 1), v\<lparr>vn := vn v - 1\<rparr>)"

definition vv_top :: "'a valvec \<Rightarrow> error + 'a" where
  "vv_top v = (if vn v = 0 then Inl Logic_error else Inr (vv_get v (vn v - 1)))"

definition vv_at :: "'a valvec \<Rightarrow> nat \<Rightarrow> error + 'a" where
  "vv_at v i = (if vn v \<le> i then Inl Out_of_range else Inr (vv_get v i))"

definition vv_set :: "nat \<Rightarrow> 'a \<Rightarrow> 'a valvec \<Rightarrow> 'a valvec" where
  "vv_set i val v = upd_slots (\<lambda>m. m[i := val]) v"

definition vv_front :: "'a valvec \<Rightarrow> 'a" where "vv_front v = vv_get v 0"
definition vv_back :: "'a valvec \<Rightarrow> 'a" where "vv_back v = vv_get v (vn v - 1)"
definition vv_ende :: "'a valvec \<Rightarrow> nat \<Rightarrow> 'a" where "vv_ende v k = vv_get v (vn v - k)"

definition vv_get_2d :: "'a valvec \<Rightarrow> nat \<Rightarrow> nat \<Rightarrow> nat \<Rightarrow> 'a" where
  "vv_get_2d v colsize row col = vv_get v (row * colsize + col)"

definition vv_ensure_get :: "'a venv \<Rightarrow> 'a \<Rightarrow> nat \<Rightarrow> 'a valvec \<Rightarrow> error + 'a \<times> 'a valvec" where
  "vv_ensure_get e d i v =
     (if i < vn v then Inr (vv_get v i, v)
      else case vv_resize_slow e d (i + 1) v of Inl err \<Rightarrow> Inl err | Inr v \<Rightarrow> Inr (vv_get v i, v))"

definition vv_ensure_set :: "'a venv \<Rightarrow> 'a \<Rightarrow> nat \<Rightarrow> 'a \<Rightarrow> 'a valvec \<Rightarrow> error + 'a valvec" where
  "vv_ensure_set e d i x v =
     (if i < vn v then Inr (vv_set i x v)
      else case vv_resize_slow e d (i + 1) v of Inl err \<Rightarrow> Inl err | Inr v \<Rightarrow> Inr (vv_set i x v))"

definition vv_erase_i :: "nat \<Rightarrow> nat \<Rightarrow> 'a valvec \<Rightarrow> 'a valvec" where
  "vv_erase_i pos k v = (upd_slots (mem_move pos (pos + k) (vn v - k - pos)) v)\<lparr>vn := vn v - k\<rparr>"

definition vv_risk_set_data :: "'a list \<Rightarrow> nat \<Rightarrow> 'a valvec \<Rightarrow> 'a valvec" where
  "vv_risk_set_data Data Size v = v\<lparr>vp := Some Data, vn := Size, vc := Size\<rparr>"

definition vv_risk_set_size :: "nat \<Rightarrow> 'a valvec \<Rightarrow> 'a valvec" where
  "vv_risk_set_size sz v = v\<lparr>vn := sz\<rparr>"

definition vv_risk_set_capacity :: "nat \<Rightarrow> 'a valvec \<Rightarrow> 'a valvec" where
  "vv_risk_set_capacity capa v = v\<lparr>vc := capa\<rparr>"

text \<open>\<open>risk_destroy\<close>: \<open>aligned\<close> is the check that the block starts on a page, which ends the program when it fails;
  unmapping the pages is an effect outside the object.\<close>

datatype MemType = Malloc | Mmap | User

definition vv_risk_destroy :: "MemType \<Rightarrow> bool \<Rightarrow> 'a valvec \<Rightarrow> error + 'a valvec" where
  "vv_risk_destroy mt aligned v =
     (case mt of
        Malloc \<Rightarrow> Inr (vv_clear v)
      | Mmap \<Rightarrow> if aligned then Inr (vv_risk_release_ownership v) else Inl Abort
      | User \<Rightarrow> Inr (vv_risk_release_ownership v))"

section \<open>Comparison\<close>

text \<open>\<open>lessThan\<close> and \<open>equalTo\<close>, from index \<open>i\<close> on, over the data of the vectors.\<close>

function vv_less_loop :: "('a \<Rightarrow> 'a \<Rightarrow> bool) \<Rightarrow> ('a \<Rightarrow> 'a \<Rightarrow> bool) \<Rightarrow> 'a valvec \<Rightarrow> 'a valvec \<Rightarrow> nat \<Rightarrow> bool" where
  "vv_less_loop le eq x y i =
     (if i < min (vn x) (vn y) then
        if \<not> eq (vv_get x i) (vv_get y i) then le (vv_get x i) (vv_get y i)
        else vv_less_loop le eq x y (Suc i)
      else vn x < vn y)"
  by pat_completeness auto
termination
  by (relation "measure (\<lambda>(le, eq, x, y, i). min (vn x) (vn y) - i)") auto

declare vv_less_loop.simps [simp del]

definition vv_lessThan :: "('a \<Rightarrow> 'a \<Rightarrow> bool) \<Rightarrow> ('a \<Rightarrow> 'a \<Rightarrow> bool) \<Rightarrow> 'a valvec \<Rightarrow> 'a valvec \<Rightarrow> bool" where
  "vv_lessThan le eq x y = vv_less_loop le eq x y 0"

function vv_equal_loop :: "('a \<Rightarrow> 'a \<Rightarrow> bool) \<Rightarrow> 'a valvec \<Rightarrow> 'a valvec \<Rightarrow> nat \<Rightarrow> bool" where
  "vv_equal_loop eq x y i =
     (if i < vn x then
        if \<not> eq (vv_get x i) (vv_get y i) then False else vv_equal_loop eq x y (Suc i)
      else True)"
  by pat_completeness auto
termination
  by (relation "measure (\<lambda>(eq, x, y, i). vn x - i)") auto

declare vv_equal_loop.simps [simp del]

definition vv_equalTo :: "('a \<Rightarrow> 'a \<Rightarrow> bool) \<Rightarrow> 'a valvec \<Rightarrow> 'a valvec \<Rightarrow> bool" where
  "vv_equalTo eq x y = (if vn x \<noteq> vn y then False else vv_equal_loop eq x y 0)"

definition vv_eq :: "'a valvec \<Rightarrow> 'a valvec \<Rightarrow> bool" where "vv_eq x y = vv_equalTo (=) x y"
definition vv_ne :: "'a valvec \<Rightarrow> 'a valvec \<Rightarrow> bool" where "vv_ne x y \<longleftrightarrow> \<not> vv_equalTo (=) x y"
definition vv_lt :: "'a::linorder valvec \<Rightarrow> 'a valvec \<Rightarrow> bool" where "vv_lt x y = vv_lessThan (<) (=) x y"
definition vv_gt :: "'a::linorder valvec \<Rightarrow> 'a valvec \<Rightarrow> bool" where "vv_gt x y = vv_lessThan (<) (=) y x"
definition vv_le :: "'a::linorder valvec \<Rightarrow> 'a valvec \<Rightarrow> bool" where "vv_le x y \<longleftrightarrow> \<not> vv_lessThan (<) (=) y x"
definition vv_ge :: "'a::linorder valvec \<Rightarrow> 'a valvec \<Rightarrow> bool" where "vv_ge x y \<longleftrightarrow> \<not> vv_lessThan (<) (=) x y"

section \<open>Invariant and abstraction\<close>

definition vv_inv :: "'a valvec \<Rightarrow> bool" where
  "vv_inv v \<longleftrightarrow> vn v \<le> vc v \<and> length (vdata v) = vc v"

definition vec :: "'a valvec \<Rightarrow> 'a list" where
  "vec v = take (vn v) (vdata v)"

text \<open>The operations as commands, their preconditions (the asserts), their execution and their meaning on lists.\<close>

datatype 'a vv_op =
    VPush "'a arg" | VPush_default | VEmplace 'a | VUnchecked 'a | VPop | VPop_n nat | VSet nat 'a | VEnsure_set nat 'a | VInsert nat "'a arg"
  | VInsert_n nat "'a list" | VErase nat nat | VAppend "'a list" | VAppend_self | VPush_n bool nat 'a | VResize nat
  | VResize_val nat 'a | VResize_fill nat 'a | VTrim nat | VFill 'a | VFill_range nat nat 'a | VAssign "'a list" | VAssign_input "'a list"
  | VReserve nat | VTry nat nat | VShrink | VShrink_malloc | VErase_all | VClear

fun vv_pre :: "'a vv_op \<Rightarrow> 'a valvec \<Rightarrow> bool" where
  "vv_pre (VPush (Ref i)) v \<longleftrightarrow> i < vn v"
| "vv_pre (VUnchecked x) v \<longleftrightarrow> vn v < vc v"
| "vv_pre VPop v \<longleftrightarrow> 0 < vn v"
| "vv_pre (VPop_n k) v \<longleftrightarrow> k \<le> vn v"
| "vv_pre (VSet i x) v \<longleftrightarrow> i < vn v"
| "vv_pre (VInsert i x) v \<longleftrightarrow> i \<le> vn v \<and> \<not> is_Ref x"
| "vv_pre (VInsert_n i xs) v \<longleftrightarrow> i \<le> vn v"
| "vv_pre (VErase pos k) v \<longleftrightarrow> pos + k \<le> vn v"
| "vv_pre (VTrim k) v \<longleftrightarrow> k \<le> vn v"
| "vv_pre (VFill_range pos k x) v \<longleftrightarrow> pos + k \<le> vn v"
| "vv_pre _ v \<longleftrightarrow> True"

fun vv_exec :: "'a venv \<Rightarrow> 'a \<Rightarrow> 'a vv_op \<Rightarrow> 'a valvec \<Rightarrow> error + 'a valvec" where
  "vv_exec e d (VPush x) v = vv_push_back e x v"
| "vv_exec e d VPush_default v = vv_push_back_default e d v"
| "vv_exec e d (VEmplace x) v = vv_emplace_back e x v"
| "vv_exec e d (VUnchecked x) v = Inr (vv_unchecked_push_back x v)"
| "vv_exec e d VPop v = Inr (vv_pop_back v)"
| "vv_exec e d (VPop_n k) v = Inr (vv_pop_n k v)"
| "vv_exec e d (VSet i x) v = Inr (vv_set i x v)"
| "vv_exec e d (VEnsure_set i x) v = vv_ensure_set e d i x v"
| "vv_exec e d (VInsert i x) v = vv_insert e i x v"
| "vv_exec e d (VInsert_n i xs) v = vv_insert_n e i xs v"
| "vv_exec e d (VErase pos k) v = Inr (vv_erase_i pos k v)"
| "vv_exec e d (VAppend xs) v = vv_append e xs v"
| "vv_exec e d VAppend_self v = vv_append_vec e v v"
| "vv_exec e d (VPush_n t k x) v = vv_push_n e t k x v"
| "vv_exec e d (VResize k) v = vv_resize e d k v"
| "vv_exec e d (VResize_val k x) v = vv_resize_val e k x v"
| "vv_exec e d (VResize_fill k x) v = vv_resize_fill_val e k x v"
| "vv_exec e d (VTrim k) v = Inr (vv_trim k v)"
| "vv_exec e d (VFill x) v = Inr (vv_fill x v)"
| "vv_exec e d (VFill_range pos k x) v = Inr (vv_fill_range pos k x v)"
| "vv_exec e d (VAssign xs) v = vv_assign e xs v"
| "vv_exec e d (VAssign_input xs) v = vv_assign_input e d xs v"
| "vv_exec e d (VReserve k) v = vv_reserve e k v"
| "vv_exec e d (VTry a b) v = vv_try_capacity e a b v"
| "vv_exec e d VShrink v = Inr (vv_shrink_to_fit e v)"
| "vv_exec e d VShrink_malloc v = Inr (vv_shrink_to_fit_malloc_free e v)"
| "vv_exec e d VErase_all v = Inr (vv_erase_all v)"
| "vv_exec e d VClear v = Inr (vv_clear v)"

definition list_resize :: "'a \<Rightarrow> nat \<Rightarrow> 'a list \<Rightarrow> 'a list" where
  "list_resize d k xs = take k xs @ replicate (k - length xs) d"

fun list_arg :: "'a list \<Rightarrow> 'a arg \<Rightarrow> 'a" where
  "list_arg xs (Val a) = a"
| "list_arg xs (Ref i) = xs ! i"

fun vv_list :: "'a \<Rightarrow> 'a vv_op \<Rightarrow> 'a list \<Rightarrow> 'a list" where
  "vv_list d (VPush x) xs = xs @ [list_arg xs x]"
| "vv_list d VPush_default xs = xs @ [d]"
| "vv_list d (VEmplace x) xs = xs @ [x]"
| "vv_list d (VUnchecked x) xs = xs @ [x]"
| "vv_list d VPop xs = butlast xs"
| "vv_list d (VPop_n k) xs = take (length xs - k) xs"
| "vv_list d (VSet i x) xs = xs[i := x]"
| "vv_list d (VEnsure_set i x) xs = (if i < length xs then xs[i := x] else (list_resize d (i + 1) xs)[i := x])"
| "vv_list d (VInsert i x) xs = take i xs @ list_arg xs x # drop i xs"
| "vv_list d (VInsert_n i ys) xs = take i xs @ ys @ drop i xs"
| "vv_list d (VErase pos k) xs = take pos xs @ drop (pos + k) xs"
| "vv_list d (VAppend ys) xs = xs @ ys"
| "vv_list d VAppend_self xs = xs @ xs"
| "vv_list d (VPush_n t k x) xs = xs @ replicate k x"
| "vv_list d (VResize k) xs = list_resize d k xs"
| "vv_list d (VResize_val k x) xs = list_resize x k xs"
| "vv_list d (VResize_fill k x) xs = replicate k x"
| "vv_list d (VTrim k) xs = take k xs"
| "vv_list d (VFill x) xs = replicate (length xs) x"
| "vv_list d (VFill_range pos k x) xs = take pos xs @ replicate k x @ drop (pos + k) xs"
| "vv_list d (VAssign ys) xs = ys"
| "vv_list d (VAssign_input ys) xs = ys"
| "vv_list d VErase_all xs = []"
| "vv_list d VClear xs = []"
| "vv_list d _ xs = xs"

fun vv_run :: "'a venv \<Rightarrow> 'a \<Rightarrow> 'a vv_op list \<Rightarrow> 'a valvec \<Rightarrow> error + 'a valvec" where
  "vv_run e d [] v = Inr v"
| "vv_run e d (a # ops) v = (case vv_exec e d a v of Inl err \<Rightarrow> Inl err | Inr v' \<Rightarrow> vv_run e d ops v')"

fun vv_pre_run :: "'a venv \<Rightarrow> 'a \<Rightarrow> 'a vv_op list \<Rightarrow> 'a valvec \<Rightarrow> bool" where
  "vv_pre_run e d [] v = True"
| "vv_pre_run e d (a # ops) v = (vv_pre a v \<and> (case vv_exec e d a v of Inl err \<Rightarrow> True | Inr v' \<Rightarrow> vv_pre_run e d ops v'))"

definition venv0 :: "nat venv" where
  "venv0 = \<lparr>v_ok = (\<lambda>_. True), v_junk = (\<lambda>_. 0)\<rparr>"

text \<open>What a write of \<open>xs\<close> at \<open>i\<close> followed by a change of the size to \<open>k\<close> makes of the elements.\<close>

definition wrote :: "'a valvec \<Rightarrow> nat \<Rightarrow> 'a list \<Rightarrow> nat \<Rightarrow> 'a valvec" where
  "wrote v i xs k = (upd_slots (put_at i xs) v)\<lparr>vn := k\<rparr>"

text \<open>\<open>regrown v v' k\<close>: \<open>v'\<close> holds the elements of \<open>v\<close> in a block of at least \<open>k\<close> slots.\<close>

definition regrown :: "'a valvec \<Rightarrow> 'a valvec \<Rightarrow> nat \<Rightarrow> bool" where
  "regrown v v' k \<longleftrightarrow> vv_inv v' \<and> vn v' = vn v \<and> vec v' = vec v \<and> k \<le> vc v' \<and> vc v \<le> vc v'"

text \<open>\<open>step_ok r xs\<close>: if the operation returned, the vector is well formed and holds \<open>xs\<close>.\<close>

definition step_ok :: "error + 'a valvec \<Rightarrow> 'a list \<Rightarrow> bool" where
  "step_ok r xs \<longleftrightarrow> (\<forall>v'. r = Inr v' \<longrightarrow> vv_inv v' \<and> vec v' = xs)"

text \<open>The element that \<open>insert\<close> stores for an argument that refers to element \<open>i\<close> of the vector.\<close>

definition moved_arg :: "'a list \<Rightarrow> nat \<Rightarrow> 'a arg \<Rightarrow> 'a" where
  "moved_arg xs pos x = (case x of Val a \<Rightarrow> a | Ref i \<Rightarrow> xs ! (if i \<le> pos then i else i - 1))"

definition vv_sample :: "nat valvec" where
  "vv_sample = \<lparr>vp = Some [10, 20, 30, 0], vn = 3, vc = 4\<rparr>"

section \<open>Memory of the vector\<close>

lemma vdata_simps [simp]: "vdata (v\<lparr>vp := None\<rparr>) = []" "vdata (v\<lparr>vp := Some m\<rparr>) = m" "vdata (v\<lparr>vn := k\<rparr>) = vdata v"
    "vdata (v\<lparr>vc := k\<rparr>) = vdata v"
  by (simp_all add: vdata_def)

lemma vdata_make [simp]: "vdata \<lparr>vp = Some m, vn = a, vc = b\<rparr> = m" "vdata \<lparr>vp = None, vn = a, vc = b\<rparr> = []"
  by (simp_all add: vdata_def)

lemma length_put_at [simp]: "i + length xs \<le> length m \<Longrightarrow> length (put_at i xs m) = length m"
  by (simp add: put_at_def)

lemma put_at_nil [simp]: "put_at i [] m = m"
  by (simp add: put_at_def)

lemma update_put_at: "i < length m \<Longrightarrow> m[i := x] = put_at i [x] m"
  by (simp add: put_at_def upd_conv_take_nth_drop)

lemma upd_slots_simps [simp]: "vn (upd_slots f v) = vn v" "vc (upd_slots f v) = vc v"
  by (simp_all add: upd_slots_def)

lemma vdata_write:
  assumes "vv_inv v" and "i + length xs \<le> vc v"
  shows "vdata (upd_slots (put_at i xs) v) = put_at i xs (vdata v)"
  using assms by (cases "vp v") (auto simp: upd_slots_def vdata_def vv_inv_def)

lemma write_inv:
  assumes "vv_inv v" and "i + length xs \<le> vc v"
  shows "vv_inv (upd_slots (put_at i xs) v)"
  using assms vdata_write [OF assms] by (simp add: vv_inv_def)

lemma upd_slots_cong: "f (vdata v) = g (vdata v) \<Longrightarrow> upd_slots f v = upd_slots g v"
  by (cases "vp v") (simp_all add: upd_slots_def vdata_def)

lemma upd_slots_update:
  "vv_inv v \<Longrightarrow> i < vc v \<Longrightarrow> upd_slots (\<lambda>m. m[i := x]) v = upd_slots (put_at i [x]) v"
  by (rule upd_slots_cong) (simp add: update_put_at vv_inv_def)

lemma upd_slots_move:
  "upd_slots (mem_move a b k) v = upd_slots (put_at a (take k (drop b (vdata v)))) v"
  by (rule upd_slots_cong) (simp add: mem_move_def)

lemma inv_vn: "vv_inv v \<Longrightarrow> k \<le> vc v \<Longrightarrow> vv_inv (v\<lparr>vn := k\<rparr>)"
  by (simp add: vv_inv_def)

lemma vec_vn: "vec (v\<lparr>vn := k\<rparr>) = take k (vdata v)"
  by (simp add: vec_def)

lemma length_vec [simp]: "vv_inv v \<Longrightarrow> length (vec v) = vn v"
  by (simp add: vec_def vv_inv_def)

lemma vdata_split: "vv_inv v \<Longrightarrow> vdata v = vec v @ drop (vn v) (vdata v)"
  by (simp add: vec_def)

lemma vv_get_vec: "i < vn v \<Longrightarrow> vv_get v i = vec v ! i"
  by (simp add: vv_get_def vec_def)

lemma wrote_inv: "vv_inv v \<Longrightarrow> i + length xs \<le> vc v \<Longrightarrow> k \<le> vc v \<Longrightarrow> vv_inv (wrote v i xs k)"
  unfolding wrote_def by (rule inv_vn [OF write_inv]) simp_all

lemma wrote_vec:
  assumes "vv_inv v" and "i + length xs \<le> k" and "k \<le> vc v"
  shows "vec (wrote v i xs k) = take i (vdata v) @ xs @ take (k - (i + length xs)) (drop (i + length xs) (vdata v))"
proof -
  have "i \<le> length (vdata v)" using assms by (simp add: vv_inv_def)
  then show ?thesis
    using assms vdata_write [of v i xs] by (simp add: wrote_def vec_vn put_at_def min_absorb2 min_absorb1)
qed

lemma wrote_end:
  assumes "vv_inv v" and "vn v + length xs \<le> vc v"
  shows "vv_inv (wrote v (vn v) xs (vn v + length xs))" and "vec (wrote v (vn v) xs (vn v + length xs)) = vec v @ xs"
  using assms wrote_inv [of v "vn v" xs] wrote_vec [of v "vn v" xs] by (simp_all add: vec_def)

section \<open>Capacity\<close>

lemma v_realloc_some:
  "v_realloc e old k = Some q \<Longrightarrow> length q = k \<and> (\<forall>j. j \<le> length old \<longrightarrow> j \<le> k \<longrightarrow> take j q = take j old)"
  by (auto simp: v_realloc_def min_def split: if_splits)

lemma v_realloc_none: "v_realloc e old k = None \<longleftrightarrow> \<not> v_ok e k"
  by (simp add: v_realloc_def)

lemma regrown_realloc:
  assumes "vv_inv v" and "v_realloc e (vdata v) c = Some q" and "vc v \<le> c" and "k \<le> c"
  shows "regrown v (v\<lparr>vp := Some q, vc := c\<rparr>) k"
  using assms v_realloc_some [OF assms(2)] by (auto simp: regrown_def vv_inv_def vec_def vdata_def)

lemma regrown_refl: "vv_inv v \<Longrightarrow> k \<le> vc v \<Longrightarrow> regrown v v k"
  by (simp add: regrown_def)

lemma regrown_trans: "regrown v v' k \<Longrightarrow> regrown v' v'' k' \<Longrightarrow> regrown v v'' k'"
  by (simp add: regrown_def)

lemma vv_reserve_ok: "vv_inv v \<Longrightarrow> vv_reserve e k v = Inr v' \<Longrightarrow> regrown v v' k"
  by (auto simp: vv_reserve_def vv_reserve_slow_def regrown_refl 
      split: if_splits option.splits intro: regrown_realloc)

lemma vv_ensure_capacity_slow_ok: "vv_inv v \<Longrightarrow> vc v < k \<Longrightarrow> vv_ensure_capacity_slow e k v = Inr v' \<Longrightarrow> regrown v v' k"
  by (auto simp: vv_ensure_capacity_slow_def Let_def split: option.splits intro!: regrown_realloc)

lemma vv_ensure_capacity_ok: "vv_inv v \<Longrightarrow> vv_ensure_capacity e k v = Inr v' \<Longrightarrow> regrown v v' k"
  by (auto simp: vv_ensure_capacity_def regrown_refl split: if_splits intro: vv_ensure_capacity_slow_ok)

lemma try_capacity_loop_ok:
  assumes "vv_inv v" and "try_capacity_loop e mn cur v = Inr v'" and "vc v \<le> mn" and "mn \<le> cur"
  shows "regrown v v' mn \<and> vc v' \<le> cur \<and> v_ok e (vc v')"
  using assms
proof (induction e mn cur v rule: try_capacity_loop.induct)
  case (1 e mn cur v)
  show ?case
  proof (cases "v_realloc e (vdata v) cur")
    case None
    with "1.prems"(2) have lt: "mn < cur" and step: "try_capacity_loop e mn (mn + (cur - mn) div 2) v = Inr v'"
      by (simp_all add: try_capacity_loop.simps [of e mn cur v] split: if_splits)
    then have "regrown v v' mn \<and> vc v' \<le> mn + (cur - mn) div 2 \<and> v_ok e (vc v')"
      using "1.IH" [OF None _ "1.prems"(1) step "1.prems"(3)] by simp
    with lt show ?thesis by auto
  next
    case (Some q)
    with "1.prems" have "v' = v\<lparr>vp := Some q, vc := cur\<rparr>"
      by (simp add: try_capacity_loop.simps [of e mn cur v])
    with Some "1.prems" regrown_realloc [OF "1.prems"(1) Some] show ?thesis
      by (simp add: v_realloc_def split: if_splits)
  qed
qed

lemma try_capacity_loop_error:
  "try_capacity_loop e mn cur v = Inl err \<Longrightarrow> mn \<le> cur \<Longrightarrow> err = Bad_alloc \<and> \<not> v_ok e mn \<and> \<not> v_ok e cur"
proof (induction e mn cur v rule: try_capacity_loop.induct)
  case (1 e mn cur v)
  from "1.prems" have None: "v_realloc e (vdata v) cur = None"
    by (subst (asm) try_capacity_loop.simps) (auto split: option.splits)
  show ?case
  proof (cases "cur \<le> mn")
    case True
    with "1.prems" None show ?thesis by (auto simp: try_capacity_loop.simps [of e mn cur v] v_realloc_none)
  next
    case False
    with None "1.prems" have "try_capacity_loop e mn (mn + (cur - mn) div 2) v = Inl err"
      by (simp add: try_capacity_loop.simps [of e mn cur v])
    with False "1.IH" [OF None False] None show ?thesis by (simp add: v_realloc_none)
  qed
qed

lemma vv_try_capacity_ok:
  "vv_inv v \<Longrightarrow> vv_try_capacity e mn mx v = Inr v' \<Longrightarrow> regrown v v' mn"
  using try_capacity_loop_ok [of v e mn _ v']
  by (fastforce simp: vv_try_capacity_def vv_try_capacity_slow_def regrown_refl split: if_splits)

lemma vv_shrink_ok: "vv_inv v \<Longrightarrow> vv_inv (vv_shrink_to_fit e v) \<and> vec (vv_shrink_to_fit e v) = vec v"
  by (auto simp: vv_shrink_to_fit_def vv_inv_def vec_def v_realloc_def vdata_def split: option.splits)

lemma vv_shrink_malloc_ok:
  assumes "vv_inv v"
  shows "vv_inv (vv_shrink_to_fit_malloc_free e v) \<and> vec (vv_shrink_to_fit_malloc_free e v) = vec v"
  using assms vv_shrink_ok [OF assms, of e]
  by (simp add: vv_shrink_to_fit_malloc_free_def v_realloc_def vv_inv_def vec_def put_at_def)

section \<open>The operations on the elements\<close>

lemma step_okI: "(\<And>v'. r = Inr v' \<Longrightarrow> vv_inv v' \<and> vec v' = xs) \<Longrightarrow> step_ok r xs"
  by (simp add: step_ok_def)

lemma step_ok_Inr [simp]: "step_ok (Inr v) xs \<longleftrightarrow> vv_inv v \<and> vec v = xs"
  by (simp add: step_ok_def)

lemma step_ok_ensure:
  assumes "vv_inv v" and "\<And>w. regrown v w k \<Longrightarrow> step_ok (f w) xs"
  shows "step_ok (case vv_ensure_capacity e k v of Inl err \<Rightarrow> Inl err | Inr w \<Rightarrow> f w) xs"
  using vv_ensure_capacity_ok [OF assms(1), of e k] assms(2) by (cases "vv_ensure_capacity e k v") (simp_all add: step_ok_def)

lemma regrownD: "regrown v w k \<Longrightarrow> vv_inv w" "regrown v w k \<Longrightarrow> vn w = vn v" "regrown v w k \<Longrightarrow> vec w = vec v"
    "regrown v w k \<Longrightarrow> k \<le> vc w"
  by (simp_all add: regrown_def)

lemma append_one:
  assumes "vv_inv v" and "vn v < vc v"
  shows "step_ok (Inr ((upd_slots (\<lambda>m. m[vn v := x]) v)\<lparr>vn := vn v + 1\<rparr>)) (vec v @ [x])"
  using wrote_end [of v "[x]"] assms by (simp add: upd_slots_update wrote_def)

lemma append_one_grown:
  assumes "regrown v w (vn v + 1)"
  shows "step_ok (Inr ((upd_slots (\<lambda>m. m[vn v := x]) w)\<lparr>vn := vn v + 1\<rparr>)) (vec v @ [x])"
  using append_one [of w x] regrownD [OF assms] by simp

lemma append_one_ensure:
  "vv_inv v \<Longrightarrow> step_ok (case vv_ensure_capacity e (vn v + 1) v of Inl err \<Rightarrow> Inl err
     | Inr w \<Rightarrow> Inr ((upd_slots (\<lambda>m. m[vn v := x]) w)\<lparr>vn := vn v + 1\<rparr>)) (vec v @ [x])"
  by (erule step_ok_ensure) (rule append_one_grown)

lemma vv_push_back_ok:
  assumes "vv_inv v" and "vv_pre (VPush x) v"
  shows "step_ok (vv_push_back e x v) (vec v @ [list_arg (vec v) x])"
proof (cases "vn v < vc v")
  case True
  have "arg_val v x = list_arg (vec v) x" using assms by (cases x) (simp_all add: vv_get_vec)
  then show ?thesis using True append_one [OF assms(1) True] by (simp add: Let_def vv_push_back_def)
next
  case False
  have get: "vv_get w i = vec v ! i" if "regrown v w k" "i < vn v" for w k i
    using that by (metis regrownD(2) regrownD(3) vv_get_vec)
  show ?thesis
  proof (cases x)
    case (Val a)
    with False append_one_ensure [OF assms(1), where e = e and x = a] show ?thesis
      by (simp add: Let_def vv_push_back_def vv_push_back_slow_def)
  next
    case (Ref i)
    have "step_ok (case vv_ensure_capacity e (vn v + 1) v of Inl err \<Rightarrow> Inl err
        | Inr w \<Rightarrow> Inr ((upd_slots (\<lambda>m. m[vn v := vv_get w i]) w)\<lparr>vn := vn v + 1\<rparr>)) (vec v @ [vec v ! i])"
      using assms Ref by (intro step_ok_ensure) (simp_all only: get vv_pre.simps append_one_grown)
    with False Ref show ?thesis
      by (simp add: Let_def vv_push_back_def vv_push_back_slow_def)
  qed
qed

lemma vv_push_back_default_ok: "vv_inv v \<Longrightarrow> step_ok (vv_push_back_default e d v) (vec v @ [d])"
  using append_one [of v d] append_one_ensure [where v = v and e = e and x = d]
  by (simp add: Let_def vv_push_back_default_def vv_push_back_slow_default_def)

lemma vv_emplace_back_ok: "vv_inv v \<Longrightarrow> step_ok (vv_emplace_back e x v) (vec v @ [x])"
proof (cases "vn v < vc v")
  case False
  assume v: "vv_inv v"
  show ?thesis
  proof (rule step_okI)
    fix v' assume "vv_emplace_back e x v = Inr v'"
    with False obtain w where w: "vv_ensure_capacity_slow e (vn v + 1) v = Inr w"
      and v': "v' = (upd_slots (\<lambda>m. m[vn w := x]) w)\<lparr>vn := vn w + 1\<rparr>"
      by (auto simp: Let_def vv_emplace_back_def vv_emplace_back_slow_def split: sum.splits)
    have "regrown v w (vn v + 1)"
      using v w False by (intro vv_ensure_capacity_slow_ok) (auto simp: Let_def vv_inv_def)
    from append_one_grown [OF this, of x] v' regrownD(2) [OF this] show "vv_inv v' \<and> vec v' = vec v @ [x]" by simp
  qed
qed (use append_one [of v x] in \<open>simp add: Let_def vv_emplace_back_def\<close>)

lemma vv_unchecked_push_back_ok:
  "vv_inv v \<Longrightarrow> vn v < vc v \<Longrightarrow> vv_inv (vv_unchecked_push_back x v) \<and> vec (vv_unchecked_push_back x v) = vec v @ [x]"
  using append_one [of v x] by (simp add: Let_def vv_unchecked_push_back_def)

lemma unchecked_push_back_n:
  assumes "vv_inv v" and "vn v + k \<le> vc v"
  shows "let w = (vv_unchecked_push_back x ^^ k) v in vv_inv w \<and> vec w = vec v @ replicate k x \<and> vn w = vn v + k \<and> vc w = vc v"
  using assms(2)
proof (induction k)
  case (Suc k)
  define w where "w = (vv_unchecked_push_back x ^^ k) v"
  from Suc have w: "vv_inv w" "vec w = vec v @ replicate k x" "vn w = vn v + k" "vc w = vc v"
    by (simp_all add: w_def Let_def)
  have "vn (vv_unchecked_push_back x w) = Suc (vn w)" "vc (vv_unchecked_push_back x w) = vc w"
    by (simp_all add: vv_unchecked_push_back_def Let_def)
  then show ?case
    using vv_unchecked_push_back_ok [of w x] w Suc.prems
    by (simp add: w_def [symmetric] Let_def replicate_append_same)
qed (use assms in simp)

lemma append_grown:
  assumes "regrown v w (vn v + length xs)"
  shows "step_ok (Inr ((upd_slots (put_at (vn w) xs) w)\<lparr>vn := vn v + length xs\<rparr>)) (vec v @ xs)"
  using wrote_end [of w xs] regrownD [OF assms] by (simp add: wrote_def)

lemma vv_append_ok: "vv_inv v \<Longrightarrow> step_ok (vv_append e xs v) (vec v @ xs)"
  unfolding vv_append_def Let_def by (erule step_ok_ensure) (rule append_grown)

lemma vv_append_vec_eq: "vv_inv y \<Longrightarrow> vv_append_vec e y v = vv_append e (vec y) v"
  by (simp add: Let_def vv_append_vec_def vv_append_def vec_def vv_inv_def Let_def)

lemma vv_push_n_ok: "vv_inv v \<Longrightarrow> step_ok (vv_push_n e t k x v) (vec v @ replicate k x)"
proof (cases t)
  case True
  assume v: "vv_inv v"
  have "step_ok (case vv_ensure_capacity e (vn v + k) v of Inl err \<Rightarrow> Inl err
      | Inr w \<Rightarrow> Inr ((upd_slots (put_at (vn w) (replicate k x)) w)\<lparr>vn := vn v + k\<rparr>)) (vec v @ replicate k x)"
    by (rule step_ok_ensure [OF v]) (use append_grown [of v _ "replicate k x"] in simp)
  moreover have "vv_push_n e t k x v = (case vv_ensure_capacity e (vn v + k) v of Inl err \<Rightarrow> Inl err
      | Inr w \<Rightarrow> Inr ((upd_slots (put_at (vn w) (replicate k x)) w)\<lparr>vn := vn v + k\<rparr>))"
    using True vv_ensure_capacity_ok [OF v, of e "vn v + k"]
    by (auto simp: Let_def vv_push_n_def vv_grow_no_init_def vv_resize_no_init_def upd_slots_def Let_def regrown_def split: sum.splits)
  ultimately show ?thesis by simp
next
  case False
  assume v: "vv_inv v"
  show ?thesis
    unfolding vv_push_n_def if_not_P [OF False]
  proof (rule step_ok_ensure [OF v])
    fix w assume "regrown v w (vn v + k)"
    with unchecked_push_back_n [of w k x] show "step_ok (Inr ((vv_unchecked_push_back x ^^ k) w)) (vec v @ replicate k x)"
      by (simp add: regrown_def Let_def)
  qed
qed

lemma resize_slow_fill_ok: "vv_inv v \<Longrightarrow> vn v < k \<Longrightarrow> step_ok (vv_resize_slow_fill e k x v) (list_resize x k (vec v))"
proof -
  assume v: "vv_inv v" "vn v < k"
  then have "list_resize x k (vec v) = vec v @ replicate (k - vn v) x" by (simp add: list_resize_def)
  moreover have "step_ok (Inr ((upd_slots (put_at (vn v) (replicate (k - vn v) x)) w)\<lparr>vn := k\<rparr>)) (vec v @ replicate (k - vn v) x)"
    if "regrown v w k" for w
    using append_grown [of v w "replicate (k - vn v) x"] that v(2) by (simp add: regrown_def)
  ultimately show ?thesis
    unfolding vv_resize_slow_fill_def Let_def using v by (auto intro!: step_ok_ensure)
qed

lemma vv_resize_slow_eq: "vv_resize_slow e d = (\<lambda>k. vv_resize_slow_fill e k d)"
  by (rule ext)+ (simp add: Let_def vv_resize_slow_def vv_resize_slow_fill_def)

lemma shrink_size: "vv_inv v \<Longrightarrow> k \<le> vn v \<Longrightarrow> vv_inv (v\<lparr>vn := k\<rparr>) \<and> vec (v\<lparr>vn := k\<rparr>) = take k (vec v)"
  by (simp add: Let_def vv_inv_def vec_def)

lemma vv_resize_val_ok: "vv_inv v \<Longrightarrow> step_ok (vv_resize_val e k x v) (list_resize x k (vec v))"
  using shrink_size [of v k] resize_slow_fill_ok [of v k e x] by (auto simp: Let_def vv_resize_val_def list_resize_def)

lemma vv_resize_ok: "vv_inv v \<Longrightarrow> step_ok (vv_resize e d k v) (list_resize d k (vec v))"
  using vv_resize_val_ok [of v e k d] unfolding vv_resize_def vv_resize_val_def vv_resize_slow_eq .

lemma write_within:
  assumes "vv_inv v" and "i + length xs \<le> vn v"
  shows "vv_inv (upd_slots (put_at i xs) v)" "vec (upd_slots (put_at i xs) v) = put_at i xs (vec v)"
proof -
  have le: "i + length xs \<le> vc v" using assms by (simp add: Let_def vv_inv_def)
  show "vv_inv (upd_slots (put_at i xs) v)" by (rule write_inv [OF assms(1) le])
  show "vec (upd_slots (put_at i xs) v) = put_at i xs (vec v)"
    using assms unfolding vec_def upd_slots_simps vdata_write [OF assms(1) le]
    by (simp add: put_at_def vv_inv_def min_absorb2 min_absorb1 drop_take)
qed

lemma vv_set_ok: "vv_inv v \<Longrightarrow> i < vn v \<Longrightarrow> vv_inv (vv_set i x v) \<and> vec (vv_set i x v) = (vec v)[i := x]"
  using write_within [of v i "[x]"] upd_slots_update [of v i x] update_put_at [of i "vec v" x]
  by (simp add: Let_def vv_set_def vv_inv_def)

lemma vv_fill_ok: "vv_inv v \<Longrightarrow> vv_inv (vv_fill x v) \<and> vec (vv_fill x v) = replicate (vn v) x"
  using write_within [of v 0 "replicate (vn v) x"] by (simp add: Let_def vv_fill_def put_at_def)

lemma vv_fill_range_ok:
  "vv_inv v \<Longrightarrow> pos + k \<le> vn v \<Longrightarrow> vv_inv (vv_fill_range pos k x v) \<and> vec (vv_fill_range pos k x v) = put_at pos (replicate k x) (vec v)"
  using write_within [of v pos "replicate k x"] by (simp add: Let_def vv_fill_range_def)

lemma vv_ensure_set_ok:
  assumes "vv_inv v"
  shows "step_ok (vv_ensure_set e d i x v) (if i < vn v then (vec v)[i := x] else (list_resize d (i + 1) (vec v))[i := x])"
proof (cases "i < vn v")
  case False
  then have "step_ok (vv_resize_slow_fill e (i + 1) d v) (list_resize d (i + 1) (vec v))"
    using assms by (intro resize_slow_fill_ok) auto
  moreover have "step_ok (Inr (vv_set i x w)) ((vec w)[i := x])" if "i < length (vec w)" "vv_inv w" for w
    using vv_set_ok [of w i x] that by simp
  moreover have "length (list_resize d (i + 1) (vec v)) = i + 1" by (simp add: list_resize_def)
  ultimately have "step_ok (case vv_resize_slow_fill e (i + 1) d v of Inl err \<Rightarrow> Inl err | Inr w \<Rightarrow> Inr (vv_set i x w))
      ((list_resize d (i + 1) (vec v))[i := x])"
    by (cases "vv_resize_slow_fill e (i + 1) d v") (auto simp: step_ok_def simp del: length_vec)
  with False show ?thesis by (simp add: vv_ensure_set_def vv_resize_slow_eq)
qed (use vv_set_ok [OF assms] in \<open>simp add: vv_ensure_set_def\<close>)

lemma overwrite_all: "vv_inv w \<Longrightarrow> length xs \<le> vc w \<Longrightarrow> step_ok (Inr ((upd_slots (put_at 0 xs) w)\<lparr>vn := length xs\<rparr>)) xs"
  using wrote_inv [of w 0 xs "length xs"] wrote_vec [of w 0 xs "length xs"] by (simp add: wrote_def)

lemma vv_resize_fill_val_ok: "vv_inv v \<Longrightarrow> step_ok (vv_resize_fill_val e k x v) (replicate k x)"
  unfolding vv_resize_fill_val_def
  by (rule step_ok_ensure) (use overwrite_all [of _ "replicate k x"] in \<open>simp_all add: regrown_def\<close>)

lemma vv_resize_fill_eq: "vv_resize_fill e d k v = vv_resize_fill_val e k d v"
  by (simp add: Let_def vv_resize_fill_def vv_resize_fill_val_def)

lemma vv_erase_all_ok: "vv_inv v \<Longrightarrow> vv_inv (vv_erase_all v) \<and> vec (vv_erase_all v) = []"
  by (simp add: Let_def vv_erase_all_def vv_inv_def vec_def)

lemma vv_assign_ok: "vv_inv v \<Longrightarrow> step_ok (vv_assign e xs v) xs"
  using vv_reserve_ok [of "vv_erase_all v" e "length xs"] vv_erase_all_ok [of v] overwrite_all [of _ xs]
  by (auto simp: Let_def vv_assign_def step_ok_def regrown_def split: sum.splits)

lemma move_up:
  assumes w: "vv_inv w" and pos: "pos \<le> vn w" and len: "vn w + k \<le> vc w"
  defines "u \<equiv> upd_slots (mem_move (pos + k) pos (vn w - pos)) w"
  shows "vv_inv u" and "vn u = vn w" and "vc u = vc w"
    and "vdata u = take (pos + k) (vdata w) @ drop pos (vec w) @ drop (vn w + k) (vdata w)"
proof -
  have x: "take (vn w - pos) (drop pos (vdata w)) = drop pos (vec w)" by (simp add: vec_def drop_take)
  have l: "length (drop pos (vec w)) = vn w - pos" using w by simp
  show "vv_inv u" unfolding u_def upd_slots_move x by (rule write_inv [OF w]) (use l len pos in simp)
  show "vn u = vn w" "vc u = vc w" by (simp_all add: u_def)
  show "vdata u = take (pos + k) (vdata w) @ drop pos (vec w) @ drop (vn w + k) (vdata w)"
    unfolding u_def upd_slots_move x
    by (subst vdata_write [OF w]) (use l len pos w in \<open>simp_all add: put_at_def add.commute\<close>)
qed

lemma insert_after_move:
  assumes w: "vv_inv w" and pos: "pos \<le> vn w" and len: "vn w + length xs \<le> vc w"
  defines "u \<equiv> upd_slots (mem_move (pos + length xs) pos (vn w - pos)) w"
  shows "step_ok (Inr ((upd_slots (put_at pos xs) u)\<lparr>vn := vn w + length xs\<rparr>)) (take pos (vec w) @ xs @ drop pos (vec w))"
proof -
  note u = move_up [OF w pos len, folded u_def]
  have "vec (wrote u pos xs (vn w + length xs))
      = take pos (vdata u) @ xs @ take (vn w - pos) (drop (pos + length xs) (vdata u))"
    using wrote_vec [OF u(1), of pos xs "vn w + length xs"] pos len u(3) by simp
  also have "\<dots> = take pos (vec w) @ xs @ drop pos (vec w)"
    unfolding u(4) using w pos len by (auto simp: vv_inv_def vec_def min_def)
  finally show ?thesis
    using wrote_inv [OF u(1), of pos xs "vn w + length xs"] pos len u(3) by (simp add: wrote_def)
qed

lemma vv_insert_n_ok:
  assumes "vv_inv v" and "pos \<le> vn v"
  shows "step_ok (vv_insert_n e pos xs v) (take pos (vec v) @ xs @ drop pos (vec v))"
proof -
  have "step_ok (let w = upd_slots (mem_move (pos + length xs) pos (vn w - pos)) w; w = upd_slots (put_at pos xs) w
      in Inr (w\<lparr>vn := vn w + length xs\<rparr>)) (take pos (vec v) @ xs @ drop pos (vec v))" if "regrown v w (vn v + length xs)" for w
    using insert_after_move [of w pos xs] regrownD [OF that] assms(2) by (simp add: Let_def)
  from step_ok_ensure [OF assms(1) this] assms(2) show ?thesis
    unfolding vv_insert_n_def by simp
qed

lemma arg_after_move:
  assumes w: "vv_inv w" and pos: "pos \<le> vn w" and len: "vn w + 1 \<le> vc w" and x: "vv_pre (VPush x) w"
  defines "u \<equiv> upd_slots (mem_move (pos + 1) pos (vn w - pos)) w"
  shows "arg_val u x = moved_arg (vec w) pos x"
proof (cases x)
  case (Ref i)
  then have i: "i < vn w" using x by simp
  note u = move_up [OF w pos len, folded u_def]
  have n: "length (vdata w) = vc w" using w by (simp add: vv_inv_def)
  have "vdata u ! i = vec w ! (if i \<le> pos then i else i - 1)"
    unfolding u(4) using i pos len n w by (auto simp: nth_append vec_def)
  then show ?thesis using Ref by (simp add: moved_arg_def vv_get_def)
qed (simp add: moved_arg_def)

lemma insert_one_after_move:
  assumes w: "vv_inv w" and pos: "pos \<le> vn w" and len: "vn w + 1 \<le> vc w"
  defines "u \<equiv> upd_slots (mem_move (pos + 1) pos (vn w - pos)) w"
  shows "step_ok (Inr ((upd_slots (\<lambda>m. m[pos := a]) u)\<lparr>vn := vn u + 1\<rparr>)) (take pos (vec w) @ a # drop pos (vec w))"
proof -
  note u = move_up [OF w pos len, folded u_def]
  have "upd_slots (\<lambda>m. m[pos := a]) u = upd_slots (put_at pos [a]) u"
    by (rule upd_slots_update) (use u pos len in simp_all)
  then show ?thesis
    using insert_after_move [OF w pos, of "[a]"] len u(2) by (simp add: u_def)
qed

lemma vv_insert_ok:
  assumes v: "vv_inv v" and pos: "pos \<le> vn v" and x: "vv_pre (VPush x) v" and d: "is_Ref x \<Longrightarrow> vn v < vc v"
  shows "step_ok (vv_insert e pos x v) (take pos (vec v) @ moved_arg (vec v) pos x # drop pos (vec v))"
proof -
  have x': "vv_pre (VPush x) w" if "regrown v w k" for w k
    using x regrownD(2) [OF that] by (cases x) auto
  have "step_ok (let w = upd_slots (mem_move (pos + 1) pos (vn w - pos)) w;
            w = upd_slots (\<lambda>m. m[pos := arg_val w x]) w in Inr (w\<lparr>vn := vn w + 1\<rparr>))
          (take pos (vec v) @ moved_arg (vec v) pos x # drop pos (vec v))" if "regrown v w (vn v + 1)" for w
    using insert_one_after_move [of w pos "moved_arg (vec w) pos x"] arg_after_move [of w pos x] regrownD [OF that] pos x' [OF that]
    by (simp add: Let_def)
  then have "step_ok (if is_Ref x \<and> vc v < vn v + 1 then Inl Undefined
      else let w = upd_slots (mem_move (pos + 1) pos (vn w - pos)) w;
            w = upd_slots (\<lambda>m. m[pos := arg_val w x]) w in Inr (w\<lparr>vn := vn w + 1\<rparr>))
          (take pos (vec v) @ moved_arg (vec v) pos x # drop pos (vec v))" if "regrown v w (vn v + 1)" for w
    using that d by auto
  from step_ok_ensure [OF v this] pos show ?thesis
    unfolding vv_insert_def by simp
qed

lemma vv_push_all_ok: "vv_inv v \<Longrightarrow> step_ok (vv_push_all e xs v) (vec v @ xs)"
proof (induction xs arbitrary: v)
  case (Cons x xs)
  have "step_ok (vv_push_back e (Val x) v) (vec v @ [x])"
    using vv_push_back_ok [OF Cons.prems, of "Val x" e] by simp
  with Cons.IH show ?case
    by (cases "vv_push_back e (Val x) v") (auto simp: step_ok_def)
qed simp

lemma vv_assign_input_ok: "vv_inv v \<Longrightarrow> step_ok (vv_assign_input e d xs v) xs"
  using shrink_size [of v 0] vv_push_all_ok [of "v\<lparr>vn := 0\<rparr>" e xs]
  by (simp add: vv_assign_input_def vv_resize_def)

lemma vv_erase_i_ok:
  assumes v: "vv_inv v" and "pos + k \<le> vn v"
  shows "vv_inv (vv_erase_i pos k v) \<and> vec (vv_erase_i pos k v) = take pos (vec v) @ drop (pos + k) (vec v)"
proof -
  let ?x = "take (vn v - k - pos) (drop (pos + k) (vdata v))"
  have x: "?x = drop (pos + k) (vec v)" by (simp add: vec_def drop_take add.commute)
  have l: "length ?x = vn v - k - pos" unfolding x using v assms(2) by simp
  have le: "vn v \<le> vc v" using v by (simp add: vv_inv_def)
  have e: "vv_erase_i pos k v = wrote v pos ?x (vn v - k)"
    by (simp add: vv_erase_i_def upd_slots_move wrote_def)
  have "take pos (vdata v) = take pos (vec v)" using assms(2) by (simp add: vec_def min_def)
  then show ?thesis
    unfolding e using wrote_inv [OF v, of pos ?x "vn v - k"] wrote_vec [OF v, of pos ?x "vn v - k"] l le assms(2) x by simp
qed

lemma vv_clear_ok: "vv_inv (vv_clear v)" "vec (vv_clear v) = []"
  by (simp_all add: vv_clear_def vv_inv_def vec_def)

section \<open>Sequences of operations\<close>

lemma vv_exec_ok:
  assumes v: "vv_inv v" and pre: "vv_pre a v"
  shows "step_ok (vv_exec e d a v) (vv_list d a (vec v))"
proof (cases a)
  case (VInsert i x)
  then obtain b where "x = Val b" using pre by (cases x) auto
  with VInsert pre vv_insert_ok [OF v, of i x e] show ?thesis by (simp add: moved_arg_def)
next
  case (VAppend_self)
  with vv_append_ok [OF v, of e "vec v"] vv_append_vec_eq [OF v, of e v] show ?thesis by simp
next
  case VPop
  with shrink_size [OF v, of "vn v - 1"] pre v show ?thesis by (simp add: vv_pop_back_def butlast_conv_take)
next
  case (VReserve k)
  then show ?thesis using vv_reserve_ok [OF v, of e k] by (auto simp: step_ok_def regrown_def)
next
  case (VTry k m)
  then show ?thesis using vv_try_capacity_ok [OF v, of e k m] by (auto simp: step_ok_def regrown_def)
next
  case (VEnsure_set i x)
  with vv_ensure_set_ok [OF v, of e d i x] v show ?thesis by simp
qed (use v pre in \<open>simp_all add: vv_push_back_ok vv_push_back_default_ok vv_emplace_back_ok vv_unchecked_push_back_ok
    vv_pop_n_def vv_trim_def shrink_size vv_set_ok vv_insert_n_ok vv_erase_i_ok vv_append_ok vv_push_n_ok vv_resize_ok
    vv_resize_val_ok vv_resize_fill_val_ok vv_fill_ok vv_fill_range_ok put_at_def vv_assign_ok vv_assign_input_ok vv_shrink_ok
    vv_shrink_malloc_ok vv_erase_all_ok vv_clear_ok\<close>)

lemma vv_ensure_capacity_err: "vv_ensure_capacity e k v = Inl err \<Longrightarrow> err = Bad_alloc \<and> (\<exists>c. \<not> v_ok e c)"
  by (auto simp: vv_ensure_capacity_def vv_ensure_capacity_slow_def v_realloc_none Let_def split: if_splits option.splits)

lemma vv_reserve_err: "vv_reserve e k v = Inl err \<Longrightarrow> err = Bad_alloc \<and> (\<exists>c. \<not> v_ok e c)"
  by (auto simp: vv_reserve_def vv_reserve_slow_def v_realloc_none split: if_splits option.splits)

lemma vv_try_capacity_err: "vv_try_capacity e mn mx v = Inl err \<Longrightarrow> err = Bad_alloc \<and> (\<exists>c. \<not> v_ok e c)"
  using try_capacity_loop_error [of e mn "if mx < mn then mn else mx" v err]
  by (auto simp: vv_try_capacity_def vv_try_capacity_slow_def split: if_splits)

lemma resize_slow_fill_err: "vv_resize_slow_fill e k x v = Inl err \<Longrightarrow> err = Bad_alloc \<and> (\<exists>c. \<not> v_ok e c)"
  by (auto simp: vv_resize_slow_fill_def Let_def split: if_splits sum.splits dest: vv_ensure_capacity_err)

lemma vv_push_back_err: "vv_push_back e x v = Inl err \<Longrightarrow> err = Bad_alloc \<and> (\<exists>c. \<not> v_ok e c)"
  by (auto simp: vv_push_back_def vv_push_back_slow_def Let_def split: if_splits sum.splits arg.splits dest: vv_ensure_capacity_err)

lemma vv_push_all_err: "vv_push_all e xs v = Inl err \<Longrightarrow> err = Bad_alloc \<and> (\<exists>c. \<not> v_ok e c)"
  by (induction xs arbitrary: v) (auto split: sum.splits dest: vv_push_back_err)

lemma vv_exec_err:
  assumes "vv_exec e d a v = Inl err" and "vv_pre a v"
  shows "err = Bad_alloc \<and> (\<exists>c. \<not> v_ok e c)"
proof (cases a)
  case (VEmplace x)
  with assms show ?thesis
    by (auto simp: vv_emplace_back_def vv_emplace_back_slow_def vv_ensure_capacity_slow_def v_realloc_none Let_def
      split: if_splits sum.splits option.splits)
next
  case (VInsert i x)
  with assms show ?thesis
    by (auto simp: vv_insert_def Let_def split: if_splits sum.splits dest: vv_ensure_capacity_err)
qed (use assms in \<open>auto simp: vv_assign_input_def vv_push_back_default_def vv_push_back_slow_default_def
    vv_ensure_set_def vv_insert_n_def vv_append_def vv_append_vec_def vv_push_n_def vv_grow_no_init_def
    vv_resize_no_init_def vv_resize_def vv_resize_val_def vv_resize_slow_eq vv_resize_fill_val_def vv_assign_def Let_def
    split: if_splits sum.splits
    dest: vv_push_back_err vv_push_all_err vv_ensure_capacity_err vv_reserve_err vv_try_capacity_err resize_slow_fill_err\<close>)

text \<open>\<open>valvec\<close> implements the container contract; the only failure is \<open>bad_alloc\<close>.\<close>

interpretation vv: op_machine vv_inv "vv_exec e d" "vv_run e d" vv_pre "vv_pre_run e d" vec "vv_list d" "\<lambda>err. err = Bad_alloc" for e d
proof unfold_locales
  fix s s' op assume "vv_inv s" "vv_pre op s" "vv_exec e d op s = Inr s'"
  with vv_exec_ok [of s op e d] show "vv_inv s' \<and> vec s' = vv_list d op (vec s)" by (simp add: step_ok_def)
next
  fix s op err assume "vv_pre op s" "vv_exec e d op s = Inl err"
  with vv_exec_err [of e d op s err] show "err = Bad_alloc" by simp
qed auto

section \<open>Comparison\<close>

lemma drop_vec: "vv_inv x \<Longrightarrow> i < vn x \<Longrightarrow> drop i (vec x) = vv_get x i # drop (Suc i) (vec x)"
  by (simp add: Cons_nth_drop_Suc vv_get_vec)

lemma vv_less_loop_lex:
  fixes x y :: "'a::linorder valvec"
  assumes "vv_inv x" and "vv_inv y"
  shows "i \<le> min (vn x) (vn y) \<Longrightarrow> vv_less_loop (<) (=) x y i \<longleftrightarrow> ord_class.lexordp (drop i (vec x)) (drop i (vec y))"
proof (induction "min (vn x) (vn y) - i" arbitrary: i)
  case 0
  then have "i = vn x \<or> i = vn y" "i \<le> vn x" "i \<le> vn y" by auto
  then show ?case
    unfolding vv_less_loop.simps [of _ _ x y i] using assms by (auto simp: lexordp_simps)
next
  case (Suc k)
  then have i: "i < vn x" "i < vn y" by auto
  then have IH: "vv_less_loop (<) (=) x y (Suc i) \<longleftrightarrow> ord_class.lexordp (drop (Suc i) (vec x)) (drop (Suc i) (vec y))"
    by (intro Suc.hyps(1)) (use Suc.hyps(2) in linarith, simp)
  show ?case
    unfolding vv_less_loop.simps [of _ _ x y i] drop_vec [OF assms(1) i(1)] drop_vec [OF assms(2) i(2)] lexordp_simps
    using i IH by auto
qed

lemma vv_equal_loop_iff:
  assumes "vv_inv x" and "vv_inv y" and "vn x = vn y"
  shows "i \<le> vn x \<Longrightarrow> vv_equal_loop (=) x y i \<longleftrightarrow> drop i (vec x) = drop i (vec y)"
proof (induction "vn x - i" arbitrary: i)
  case (Suc k)
  then have i: "i < vn x" "i < vn y" and IH: "vv_equal_loop (=) x y (Suc i) \<longleftrightarrow> drop (Suc i) (vec x) = drop (Suc i) (vec y)"
    using assms(3) by auto
  show ?case
    unfolding vv_equal_loop.simps [of _ x y i] drop_vec [OF assms(1) i(1)] drop_vec [OF assms(2) i(2)]
    using i IH by auto
qed (use assms in \<open>simp add: vv_equal_loop.simps\<close>)

lemma vv_lessThan_lex: "vv_inv x \<Longrightarrow> vv_inv y \<Longrightarrow> vv_lessThan (<) (=) x y \<longleftrightarrow> ord_class.lexordp (vec x) (vec (y :: 'a::linorder valvec))"
  using vv_less_loop_lex [of x y 0] by (simp add: vv_lessThan_def)

lemma vv_equalTo_iff: "vv_inv x \<Longrightarrow> vv_inv y \<Longrightarrow> vv_equalTo (=) x y \<longleftrightarrow> vec x = vec y"
  using vv_equal_loop_iff [of x y 0] by (auto simp: vv_equalTo_def dest: arg_cong [of _ _ length])

lemmas vv_eval = venv0_def vv_empty_def vdata_def v_realloc_def put_at_def mem_move_def upd_slots_def vv_get_def
  vv_push_back_def vv_push_back_slow_def vv_ensure_capacity_def vv_ensure_capacity_slow_def larger_capacity_def vv_insert_def
  vv_resize_def vv_resize_slow_def vv_erase_i_def vv_shrink_to_fit_def vv_assign_def vv_erase_all_def vv_reserve_def
  vv_reserve_slow_def vv_append_vec_def vv_try_capacity_def vv_try_capacity_slow_def try_capacity_loop.simps Let_def

section \<open>Properties\<close>



text \<open>The operations return: when the allocator never refuses, a sequence of operations that respects the
  asserted preconditions ends without an error and yields the list result.\<close>

theorem vv_run_total:
  assumes "vv_inv v" and "vv_pre_run e d ops v" and "\<forall>k. v_ok e k"
  shows "\<exists>v'. vv_run e d ops v = Inr v' \<and> vv_inv v' \<and> vec v' = fold (vv_list d) ops (vec v)"
proof (rule vv.run_total [OF assms(1,2)])
  fix a :: "'a vv_op" and s assume "vv_pre a s"
  with vv_exec_err [of e d a s] assms(3) show "\<exists>s'. vv_exec e d a s = Inr s'"
    by (cases "vv_exec e d a s") auto
qed

theorem vv_run_total_witness:
  "\<exists>v'. vv_run venv0 0 [VAssign [3, 4], VAppend_self, VTry 9 20] vv_empty = Inr v' \<and> vv_inv v'
    \<and> vec v' = fold (vv_list 0) [VAssign [3, 4], VAppend_self, VTry 9 20] (vec vv_empty)"
proof (rule vv_run_total)
  show "vv_inv (vv_empty :: nat valvec)" by (simp add: vv_empty_def vv_inv_def)
  show "vv_pre_run venv0 0 [VAssign [3, 4], VAppend_self, VTry 9 20] vv_empty" by (simp add: vv_eval)
  show "\<forall>k. v_ok venv0 k" by (simp add: venv0_def)
qed

text \<open>C30. \<open>try_capacity\<close> ends for every allocator: it gives up with \<open>bad_alloc\<close> only when the allocator refuses both
  the maximal and the minimal request; otherwise the elements are kept and the capacity is at least \<open>min_cap\<close>,
  and at most the larger of the two bounds when the vector had to grow.\<close>

theorem vv_try_capacity_bounds:
  assumes "vv_inv v"
  shows "case vv_try_capacity e min_cap max_cap v of
      Inl err \<Rightarrow> err = Bad_alloc \<and> vc v < min_cap \<and> \<not> v_ok e min_cap \<and> \<not> v_ok e (max min_cap max_cap)
    | Inr v' \<Rightarrow> vv_inv v' \<and> vec v' = vec v \<and> min_cap \<le> vc v'
        \<and> (vc v < min_cap \<longrightarrow> vc v' \<le> max min_cap max_cap \<and> v_ok e (vc v'))"
proof (cases "min_cap \<le> vc v")
  case False
  have m: "(if max_cap < min_cap then min_cap else max_cap) = max min_cap max_cap" by auto
  have e: "vv_try_capacity e min_cap max_cap v = try_capacity_loop e min_cap (max min_cap max_cap) v"
    using False unfolding vv_try_capacity_def vv_try_capacity_slow_def m by simp
  show ?thesis
    unfolding e using False try_capacity_loop_ok [OF assms, of e min_cap "max min_cap max_cap"]
      try_capacity_loop_error [of e min_cap "max min_cap max_cap" v]
    by (auto simp: regrown_def split: sum.splits)
qed (use assms in \<open>simp add: vv_try_capacity_def\<close>)

theorem vv_try_capacity_bounds_witness:
  "case vv_try_capacity (venv0\<lparr>v_ok := \<lambda>k. k < 12\<rparr>) 4 20 vv_empty of
      Inl err \<Rightarrow> False
    | Inr v' \<Rightarrow> vv_inv v' \<and> vec v' = [] \<and> 4 \<le> vc v' \<and> vc v' < 12"
proof -
  have e: "vv_inv (vv_empty :: nat valvec)" "vec (vv_empty :: nat valvec) = []" "vc (vv_empty :: nat valvec) = 0"
    by (simp_all add: vv_empty_def vv_inv_def vec_def)
  from vv_try_capacity_bounds [OF e(1), where e = "venv0\<lparr>v_ok := \<lambda>k. k < 12\<rparr>" and min_cap = 4 and max_cap = 20] show ?thesis
    by (simp add: e split: sum.splits)
qed

text \<open>Element access: \<open>at\<close> throws \<open>out_of_range\<close> exactly past the end, \<open>top\<close> throws \<open>logic_error\<close> exactly on the
  empty vector, and otherwise they, \<open>front\<close>, \<open>back\<close>, \<open>ende\<close>, \<open>get_2d\<close>, \<open>pop_val\<close> and \<open>ensure_get\<close> read the elements.\<close>

theorem vv_access_correct:
  assumes "vv_inv v"
  shows "vv_at v i = (if i < length (vec v) then Inr (vec v ! i) else Inl Out_of_range)
    \<and> vv_top v = (if vec v = [] then Inl Logic_error else Inr (last (vec v)))
    \<and> (vec v \<noteq> [] \<longrightarrow> vv_front v = hd (vec v) \<and> vv_back v = last (vec v)
        \<and> fst (vv_pop_val v) = last (vec v) \<and> vec (snd (vv_pop_val v)) = butlast (vec v))
    \<and> (0 < k \<and> k \<le> length (vec v) \<longrightarrow> vv_ende v k = rev (vec v) ! (k - 1))
    \<and> (row * colsize + col < length (vec v) \<longrightarrow> vv_get_2d v colsize row col = vec v ! (row * colsize + col))
    \<and> (vv_ensure_get e d i v = Inr (y, v') \<longrightarrow> vv_inv v' \<and> i < length (vec v') \<and> y = vec v' ! i
        \<and> vec v' = (if i < length (vec v) then vec v else list_resize d (i + 1) (vec v)))"
proof -
  have ne: "vec v = [] \<longleftrightarrow> vn v = 0" using length_vec [OF assms] by auto
  have lst: "vv_get v (vn v - 1) = last (vec v)" if "vec v \<noteq> []"
    using that ne by (simp add: vv_get_vec last_conv_nth assms)
  have "vv_ensure_get e d i v = Inr (y, v') \<longrightarrow> vv_inv v' \<and> i < length (vec v') \<and> y = vec v' ! i
        \<and> vec v' = (if i < length (vec v) then vec v else list_resize d (i + 1) (vec v))"
  proof (cases "i < vn v")
    case False
    have "vv_inv v' \<and> vec v' = list_resize d (i + 1) (vec v) \<and> i < vn v'" if "vv_resize_slow_fill e (i + 1) d v = Inr v'"
      using resize_slow_fill_ok [OF assms, of "i + 1" e d] False that length_vec [of v']
      by (auto simp: step_ok_def list_resize_def)
    with False show ?thesis
      by (auto simp: vv_ensure_get_def vv_resize_slow_eq assms vv_get_vec list_resize_def split: sum.splits)
  qed (use assms in \<open>auto simp: vv_ensure_get_def vv_get_vec\<close>)
  moreover have "0 < k \<and> k \<le> length (vec v) \<longrightarrow> vv_ende v k = rev (vec v) ! (k - 1)"
    using assms by (auto simp: vv_ende_def vv_get_vec rev_nth)
  moreover have "vec v \<noteq> [] \<longrightarrow> vv_front v = hd (vec v) \<and> vv_back v = last (vec v)
        \<and> fst (vv_pop_val v) = last (vec v) \<and> vec (snd (vv_pop_val v)) = butlast (vec v)"
    using assms ne lst shrink_size [OF assms, of "vn v - 1"]
    by (simp add: vv_front_def vv_back_def vv_pop_val_def vv_get_vec hd_conv_nth butlast_conv_take)
  moreover have "vv_top v = (if vec v = [] then Inl Logic_error else Inr (last (vec v)))"
    using ne lst by (simp add: vv_top_def)
  moreover have "vv_at v i = (if i < length (vec v) then Inr (vec v ! i) else Inl Out_of_range)"
    "row * colsize + col < length (vec v) \<longrightarrow> vv_get_2d v colsize row col = vec v ! (row * colsize + col)"
    using assms by (simp_all add: vv_at_def vv_get_2d_def vv_get_vec)
  ultimately show ?thesis by (intro conjI)
qed

theorem vv_access_correct_witness:
  "vv_at vv_sample 2 = Inr 30 \<and> vv_at vv_sample 3 = Inl Out_of_range \<and> vv_top vv_sample = Inr 30 \<and> vv_ende vv_sample 2 = 20
    \<and> vv_front vv_sample = 10 \<and> vv_get_2d vv_sample 2 1 0 = 30"
proof -
  have v: "vv_inv vv_sample" "vec vv_sample = [10, 20, 30]" by (simp_all add: vv_sample_def vv_inv_def vec_def)
  from vv_access_correct [OF v(1), of 2 2 1 2 0 venv0 0 30 vv_sample] vv_access_correct [OF v(1), of 3]
  show ?thesis by (simp add: v(2))
qed



text \<open>The comparison operators decide equality and the lexicographic order of the elements.\<close>

theorem vv_compare_lexicographic:
  fixes x y :: "'a::linorder valvec"
  assumes "vv_inv x" and "vv_inv y"
  shows "(vv_eq x y \<longleftrightarrow> vec x = vec y) \<and> (vv_ne x y \<longleftrightarrow> vec x \<noteq> vec y)
    \<and> (vv_lt x y \<longleftrightarrow> ord_class.lexordp (vec x) (vec y)) \<and> (vv_gt x y \<longleftrightarrow> ord_class.lexordp (vec y) (vec x))
    \<and> (vv_le x y \<longleftrightarrow> ord_class.lexordp_eq (vec x) (vec y)) \<and> (vv_ge x y \<longleftrightarrow> ord_class.lexordp_eq (vec y) (vec x))"
  using assms lexordp_eq_linear [of "vec x" "vec y"]
  by (auto simp: vv_eq_def vv_ne_def vv_lt_def vv_gt_def vv_le_def vv_ge_def vv_equalTo_iff vv_lessThan_lex
    lexordp_conv_lexordp_eq)

theorem vv_compare_lexicographic_witness:
  "(vv_eq vv_sample vv_empty \<longleftrightarrow> vec vv_sample = vec vv_empty) \<and> (vv_ne vv_sample vv_empty \<longleftrightarrow> vec vv_sample \<noteq> vec vv_empty)
    \<and> (vv_lt vv_sample vv_empty \<longleftrightarrow> ord_class.lexordp (vec vv_sample) (vec vv_empty))
    \<and> (vv_gt vv_sample vv_empty \<longleftrightarrow> ord_class.lexordp (vec vv_empty) (vec vv_sample))
    \<and> (vv_le vv_sample vv_empty \<longleftrightarrow> ord_class.lexordp_eq (vec vv_sample) (vec vv_empty))
    \<and> (vv_ge vv_sample vv_empty \<longleftrightarrow> ord_class.lexordp_eq (vec vv_empty) (vec vv_sample))"
  by (rule vv_compare_lexicographic) (simp_all add: vv_sample_def vv_empty_def vv_inv_def)

lemma vv_construct_input_ok:
  "case vv_construct_input e xs of Inl err \<Rightarrow> err = Bad_alloc | Inr w \<Rightarrow> vv_inv w \<and> vec w = xs"
proof -
  have "vv_inv (vv_empty :: 'a valvec)" "vec (vv_empty :: 'a valvec) = []" by (simp_all add: vv_empty_def vv_inv_def vec_def)
  with vv_push_all_ok [of vv_empty e xs] vv_push_all_err [of e xs vv_empty] show ?thesis
    by (cases "vv_push_all e xs vv_empty") (simp_all add: vv_construct_input_def)
qed

lemma vv_copy_assign_ok:
  assumes "vv_inv v" and "vv_inv y"
  shows "case vv_copy_assign e False y v of Inl err \<Rightarrow> err = Bad_alloc | Inr w \<Rightarrow> vv_inv w \<and> vec w = vec y"
proof -
  have a: "vv_copy_assign e False y v = vv_assign e (vec y) v" by (simp add: vv_copy_assign_def vec_def)
  have "vv_assign e (vec y) v = Inl err \<Longrightarrow> err = Bad_alloc" for err
    using vv_reserve_err [of e "length (vec y)" "vv_erase_all v" err] by (simp add: vv_assign_def split: sum.splits)
  with vv_assign_ok [OF assms(1), of e "vec y"] show ?thesis
    unfolding a by (cases "vv_assign e (vec y) v") (simp_all add: step_ok_def)
qed

text \<open>Construction, copy and move: the constructors and \<open>operator=\<close> give a well formed vector with the given elements or throw
  \<open>bad_alloc\<close>; the move constructor leaves an empty source; the move assignment, whose \<open>new(this)valvec(y)\<close> selects the
  copy constructor, copies the elements, leaves its source as it was, and ends the program when the
  allocator refuses (it is \<open>noexcept\<close>).\<close>

theorem vv_construction_correct:
  assumes "vv_inv v" and "vv_inv y"
  shows "(case vv_construct e xs of Inl err \<Rightarrow> err = Bad_alloc \<and> \<not> v_ok e (length xs) | Inr w \<Rightarrow> vv_inv w \<and> vec w = xs)
    \<and> (case vv_make_fill e k x of Inl err \<Rightarrow> err = Bad_alloc \<and> \<not> v_ok e k | Inr w \<Rightarrow> vv_inv w \<and> vec w = replicate k x)
    \<and> (case vv_make e d k of Inl err \<Rightarrow> err = Bad_alloc \<and> \<not> v_ok e k | Inr w \<Rightarrow> vv_inv w \<and> vec w = replicate k d)
    \<and> (case vv_make_reserve e k of Inl err \<Rightarrow> err = Bad_alloc \<and> \<not> v_ok e k | Inr w \<Rightarrow> vv_inv w \<and> vec w = [] \<and> vc w = k)
    \<and> (case vv_make_no_init e k of Inl err \<Rightarrow> err = Bad_alloc \<and> \<not> v_ok e k | Inr w \<Rightarrow> vv_inv w \<and> length (vec w) = k)
    \<and> (case vv_construct_input e xs of Inl err \<Rightarrow> err = Bad_alloc | Inr w \<Rightarrow> vv_inv w \<and> vec w = xs)
    \<and> (case vv_copy_assign e False y v of Inl err \<Rightarrow> err = Bad_alloc | Inr w \<Rightarrow> vv_inv w \<and> vec w = vec y)
    \<and> (case vv_copy e y of Inl err \<Rightarrow> err = Bad_alloc | Inr w \<Rightarrow> vv_inv w \<and> vec w = vec y)
    \<and> vv_inv (fst (vv_move y)) \<and> vec (fst (vv_move y)) = vec y \<and> vv_inv (snd (vv_move y)) \<and> vec (snd (vv_move y)) = []
    \<and> (case vv_move_assign e v y of
          Inl err \<Rightarrow> err = Abort \<and> \<not> v_ok e (length (vec y))
        | Inr (w, y') \<Rightarrow> vv_inv w \<and> vec w = vec y \<and> y' = y)"
proof -
  have c: "case vv_construct e xs of Inl err \<Rightarrow> err = Bad_alloc \<and> \<not> v_ok e (length xs) | Inr w \<Rightarrow> vv_inv w \<and> vec w = xs" for xs
    by (auto simp: vv_construct_def vv_empty_def v_realloc_def vv_inv_def vec_def put_at_def)
  have f: "case vv_make_fill e k x of Inl err \<Rightarrow> err = Bad_alloc \<and> \<not> v_ok e k | Inr w \<Rightarrow> vv_inv w \<and> vec w = replicate k x" for x
    by (auto simp: vv_make_fill_def vv_empty_def v_realloc_def vv_inv_def vec_def put_at_def)
  have "vv_make e d k = vv_make_fill e k d" by (simp add: vv_make_def vv_make_fill_def)
  moreover have "vv_copy e y = vv_construct e (vec y)" by (simp add: vv_copy_def vec_def)
  moreover note vv_construct_input_ok [of xs e] vv_copy_assign_ok [OF assms, of e]
  moreover have "case vv_make_reserve e k of Inl err \<Rightarrow> err = Bad_alloc \<and> \<not> v_ok e k | Inr w \<Rightarrow> vv_inv w \<and> vec w = [] \<and> vc w = k"
    "case vv_make_no_init e k of Inl err \<Rightarrow> err = Bad_alloc \<and> \<not> v_ok e k | Inr w \<Rightarrow> vv_inv w \<and> length (vec w) = k"
    by (simp_all add: vv_make_reserve_def vv_make_no_init_def vv_empty_def v_realloc_def vv_inv_def vec_def)
  moreover have "vv_inv (fst (vv_move y)) \<and> vec (fst (vv_move y)) = vec y \<and> vv_inv (snd (vv_move y)) \<and> vec (snd (vv_move y)) = []"
    using assms by (simp add: vv_move_def vv_risk_release_ownership_def vv_inv_def vec_def)
  ultimately show ?thesis
    using c [of xs] c [of "vec y"] f [of x] f [of d]
    by (cases "vv_construct e (vec y)") (simp_all add: vv_move_assign_def)
qed

theorem vv_construction_correct_witness:
  "(case vv_construct venv0 [1, 2] of Inl err \<Rightarrow> err = Bad_alloc \<and> \<not> v_ok venv0 (length [1, 2::nat]) | Inr w \<Rightarrow> vv_inv w \<and> vec w = [1, 2])
    \<and> (case vv_make_fill venv0 3 9 of Inl err \<Rightarrow> err = Bad_alloc \<and> \<not> v_ok venv0 3 | Inr w \<Rightarrow> vv_inv w \<and> vec w = replicate 3 9)
    \<and> (case vv_make venv0 0 3 of Inl err \<Rightarrow> err = Bad_alloc \<and> \<not> v_ok venv0 3 | Inr w \<Rightarrow> vv_inv w \<and> vec w = replicate 3 0)
    \<and> (case vv_make_reserve venv0 3 of Inl err \<Rightarrow> err = Bad_alloc \<and> \<not> v_ok venv0 3 | Inr w \<Rightarrow> vv_inv w \<and> vec w = [] \<and> vc w = 3)
    \<and> (case vv_make_no_init venv0 3 of Inl err \<Rightarrow> err = Bad_alloc \<and> \<not> v_ok venv0 3 | Inr w \<Rightarrow> vv_inv w \<and> length (vec w) = 3)
    \<and> (case vv_construct_input venv0 [1, 2] of Inl err \<Rightarrow> err = Bad_alloc | Inr w \<Rightarrow> vv_inv w \<and> vec w = [1, 2])
    \<and> (case vv_copy_assign venv0 False vv_sample vv_empty of Inl err \<Rightarrow> err = Bad_alloc | Inr w \<Rightarrow> vv_inv w \<and> vec w = vec vv_sample)
    \<and> (case vv_copy venv0 vv_sample of Inl err \<Rightarrow> err = Bad_alloc | Inr w \<Rightarrow> vv_inv w \<and> vec w = vec vv_sample)
    \<and> vv_inv (fst (vv_move vv_sample)) \<and> vec (fst (vv_move vv_sample)) = vec vv_sample
    \<and> vv_inv (snd (vv_move vv_sample)) \<and> vec (snd (vv_move vv_sample)) = []
    \<and> (case vv_move_assign venv0 vv_empty vv_sample of
          Inl err \<Rightarrow> err = Abort \<and> \<not> v_ok venv0 (length (vec vv_sample))
        | Inr (w, y') \<Rightarrow> vv_inv w \<and> vec w = vec vv_sample \<and> y' = vv_sample)"
  by (rule vv_construction_correct) (simp_all add: vv_sample_def vv_empty_def vv_inv_def)

end
