(* ===== verification/RankSelectIL256.thy ===== *)
theory RankSelectIL256
  imports RankSelectSE256 FebitvecQuery Valvec
begin

text \<open>
  \<open>rank_select_il\<close> (\<open>rank_select_il_256\<close>) of \<open>src/src/terark/succinct/rank_select_il_256.hpp\<close> and \<open>.cpp\<close>: ranks and bits are
  interleaved. A \<open>Line\<close> is five words: the first holds \<open>rlev1\<close> in its low half and the four bytes \<open>rlev2\<close> in its high
  half, the other four the bits. The lines are a \<open>valvec<Line>\<close>, whose operations are those of the theory
  Valvec; the code also reads and writes the unused capacity of the vector through casts to \<open>uint32_t*\<close> and
  \<open>uint64_t*\<close>, so the block is also viewed as a list of words. Select caches are indices of \<open>uint32_t\<close> of
  that block. \<open>Q\<close> is the number of select slots per line: 1, and 4 for zeros in \<open>rank_select_il_256_32_41\<close>.
\<close>

section \<open>Lines\<close>

datatype Line = Line u64 u64 u64 u64 u64

fun line_words :: "Line \<Rightarrow> u64 list" where
  "line_words (Line h w0 w1 w2 w3) = [h, w0, w1, w2, w3]"

text \<open>The casts between \<open>Line*\<close> and \<open>uint64_t*\<close>.\<close>

definition lines_words :: "Line list \<Rightarrow> u64 list" where
  "lines_words ls = concat (map line_words ls)"

fun words_lines :: "u64 list \<Rightarrow> Line list" where
  "words_lines (h # w0 # w1 # w2 # w3 # m) = Line h w0 w1 w2 w3 # words_lines m"
| "words_lines _ = []"

definition il_Line :: "bool \<Rightarrow> Line" where
  "il_Line val = (let w = (if val then - 1 else 0) in Line 0 w w w w)"

definition il_rlev1 :: "u64 list \<Rightarrow> nat \<Rightarrow> nat" where
  "il_rlev1 m k = unat (get32 m (10 * k))"

definition il_rlev2 :: "u64 list \<Rightarrow> nat \<Rightarrow> nat \<Rightarrow> nat" where
  "il_rlev2 m k j = unat (get8 m (40 * k + 4 + j))"

definition il_bit64 :: "u64 list \<Rightarrow> nat \<Rightarrow> nat \<Rightarrow> u64" where
  "il_bit64 m k j = m ! (5 * k + 1 + j)"

definition BitsToLines :: "nat \<Rightarrow> nat" where
  "BitsToLines nbits = (nbits + 256 - 1) div 256"

section \<open>The structure\<close>

record rank_select_il =
  il_lines :: "Line valvec"
  il_sel0 :: "nat option"
  il_sel1 :: "nat option"
  il_max_rank0 :: nat
  il_max_rank1 :: nat
  il_size :: nat

definition il_mem :: "rank_select_il \<Rightarrow> u64 list" where
  "il_mem s = lines_words (vdata (il_lines s))"

text \<open>A write through a cast of the block.\<close>

definition il_upd :: "(u64 list \<Rightarrow> u64 list) \<Rightarrow> rank_select_il \<Rightarrow> rank_select_il" where
  "il_upd f s = s\<lparr>il_lines := upd_slots (\<lambda>ls. words_lines (f (lines_words ls))) (il_lines s)\<rparr>"

definition il_with :: "Line valvec \<Rightarrow> nat \<Rightarrow> rank_select_il" where
  "il_with ls sz = \<lparr>il_lines = ls, il_sel0 = None, il_sel1 = None, il_max_rank0 = 0, il_max_rank1 = 0, il_size = sz\<rparr>"

definition il_empty :: rank_select_il where
  "il_empty = il_with vv_empty 0"

text \<open>The index of the word of bit \<open>i\<close> in the block, and single bits.\<close>

definition il_word :: "nat \<Rightarrow> nat" where
  "il_word i = 5 * (i div 256) + 1 + i mod 256 div 64"

definition il_bit :: "u64 list \<Rightarrow> nat \<Rightarrow> bool" where
  "il_bit m i = bit (m ! il_word i) (i mod 64)"

definition il_is1 :: "rank_select_il \<Rightarrow> nat \<Rightarrow> bool" where
  "il_is1 s i = (il_mem s ! il_word i AND push_bit (i mod 64) 1 \<noteq> 0)"

definition il_is0 :: "rank_select_il \<Rightarrow> nat \<Rightarrow> bool" where
  "il_is0 s i \<longleftrightarrow> \<not> il_is1 s i"

definition il_set0 :: "nat \<Rightarrow> rank_select_il \<Rightarrow> rank_select_il" where
  "il_set0 i = il_upd (\<lambda>m. m[il_word i := m ! il_word i AND NOT (push_bit (i mod 64) 1)])"

definition il_set1 :: "nat \<Rightarrow> rank_select_il \<Rightarrow> rank_select_il" where
  "il_set1 i = il_upd (\<lambda>m. m[il_word i := m ! il_word i OR push_bit (i mod 64) 1])"

definition il_set :: "nat \<Rightarrow> bool \<Rightarrow> rank_select_il \<Rightarrow> rank_select_il" where
  "il_set i val s = (if val then il_set1 i s else il_set0 i s)"

fun il_set0_range :: "nat \<Rightarrow> nat \<Rightarrow> rank_select_il \<Rightarrow> rank_select_il" where
  "il_set0_range i 0 s = s"
| "il_set0_range i (Suc n) s = il_set0_range (Suc i) n (il_set0 i s)"

fun il_set1_range :: "nat \<Rightarrow> nat \<Rightarrow> rank_select_il \<Rightarrow> rank_select_il" where
  "il_set1_range i 0 s = s"
| "il_set1_range i (Suc n) s = il_set1_range (Suc i) n (il_set1 i s)"

definition il_set_range :: "nat \<Rightarrow> nat \<Rightarrow> bool \<Rightarrow> rank_select_il \<Rightarrow> rank_select_il" where
  "il_set_range i nbits val s = (if val then il_set1_range i nbits s else il_set0_range i nbits s)"

definition il_set_word :: "nat \<Rightarrow> u64 \<Rightarrow> rank_select_il \<Rightarrow> rank_select_il" where
  "il_set_word word_idx bits = il_upd (\<lambda>m. m[5 * (word_idx div 4) + 1 + word_idx mod 4 := bits])"

definition il_get_word :: "rank_select_il \<Rightarrow> nat \<Rightarrow> u64" where
  "il_get_word s word_idx = il_mem s ! (5 * (word_idx div 4) + 1 + word_idx mod 4)"

section \<open>Construction and resizing\<close>

text \<open>\<open>rank_select_check_overflow(SIZE, >=, TYPE)\<close> of \<open>push_back\<close>.\<close>

definition il_full :: "nat \<Rightarrow> bool" where
  "il_full sz \<longleftrightarrow> 2 ^ 32 - 1 \<le> sz"

definition il_make :: "Line venv \<Rightarrow> nat \<Rightarrow> bool \<Rightarrow> error + rank_select_il" where
  "il_make e bits val =
     (if rank_select_check_overflow bits then Inl Length_error
      else case vv_resize_fill_val e (BitsToLines bits) (il_Line val) vv_empty of
             Inl err \<Rightarrow> Inl err | Inr ls \<Rightarrow> Inr (il_with ls bits))"

text \<open>The range is set while \<open>m_size\<close> is not yet set; the asserts of \<open>set0\<close> and \<open>set1\<close> do not hold there.\<close>

definition il_make_padding :: "Line venv \<Rightarrow> nat \<Rightarrow> bool \<Rightarrow> bool \<Rightarrow> error + rank_select_il" where
  "il_make_padding e bits val padding =
     (if rank_select_check_overflow bits then Inl Length_error
      else case vv_resize_fill_val e (BitsToLines bits) (il_Line val) vv_empty of
             Inl err \<Rightarrow> Inl err
           | Inr ls \<Rightarrow>
               let s = il_with ls bits in
               Inr (if padding \<noteq> val then il_set_range bits (vn ls * 256 - bits) padding s else s))"

definition il_make_no_init :: "Line venv \<Rightarrow> nat \<Rightarrow> error + rank_select_il" where
  "il_make_no_init e bits =
     (if rank_select_check_overflow bits then Inl Length_error
      else case vv_resize_no_init e (BitsToLines bits) vv_empty of Inl err \<Rightarrow> Inl err | Inr ls \<Rightarrow> Inr (il_with ls bits))"

definition il_make_reserve :: "Line venv \<Rightarrow> nat \<Rightarrow> error + rank_select_il" where
  "il_make_reserve e bits =
     (if rank_select_check_overflow bits then Inl Length_error
      else case vv_reserve e (BitsToLines bits) vv_empty of Inl err \<Rightarrow> Inl err | Inr ls \<Rightarrow> Inr (il_with ls 0))"

definition il_clear :: "rank_select_il \<Rightarrow> rank_select_il" where
  "il_clear s = \<lparr>il_lines = vv_clear (il_lines s), il_sel0 = None, il_sel1 = None, il_max_rank0 = 0, il_max_rank1 = 0, il_size = 0\<rparr>"

definition il_erase_all :: "rank_select_il \<Rightarrow> rank_select_il" where
  "il_erase_all s = s\<lparr>il_lines := vv_erase_all (il_lines s)\<rparr>"

definition il_fill :: "bool \<Rightarrow> rank_select_il \<Rightarrow> rank_select_il" where
  "il_fill val s = s\<lparr>il_lines := vv_fill (il_Line val) (il_lines s)\<rparr>"

definition il_resize :: "Line venv \<Rightarrow> nat \<Rightarrow> bool \<Rightarrow> rank_select_il \<Rightarrow> error + rank_select_il" where
  "il_resize e newsize val s =
     (if rank_select_check_overflow newsize then Inl Length_error
      else case vv_resize_val e (BitsToLines newsize) (il_Line val) (il_lines s) of
             Inl err \<Rightarrow> Inl err | Inr ls \<Rightarrow> Inr (s\<lparr>il_lines := ls, il_size := newsize\<rparr>))"

definition il_resize_no_init :: "Line venv \<Rightarrow> bool \<Rightarrow> nat \<Rightarrow> rank_select_il \<Rightarrow> error + rank_select_il" where
  "il_resize_no_init e hv newsize s =
     (if rank_select_check_overflow newsize then Inl Length_error
      else
        let oldlines = vn (il_lines s) in
        case vv_resize_no_init e (BitsToLines newsize) (il_lines s) of
          Inl err \<Rightarrow> Inl err
        | Inr ls \<Rightarrow>
            let ls = (if hv \<and> oldlines < vn ls
                      then upd_slots (put_at oldlines (replicate (vn ls - oldlines) (Line 0 0 0 0 0))) ls else ls)
            in Inr (s\<lparr>il_lines := ls, il_size := newsize\<rparr>))"

definition il_resize_fill :: "Line venv \<Rightarrow> nat \<Rightarrow> bool \<Rightarrow> rank_select_il \<Rightarrow> error + rank_select_il" where
  "il_resize_fill e newsize val s =
     (if rank_select_check_overflow newsize then Inl Length_error
      else case vv_resize_fill_val e (BitsToLines newsize) (il_Line val) (il_lines s) of
             Inl err \<Rightarrow> Inl err | Inr ls \<Rightarrow> Inr (s\<lparr>il_lines := ls, il_size := newsize\<rparr>))"

definition il_shrink_to_fit :: "Line venv \<Rightarrow> rank_select_il \<Rightarrow> rank_select_il" where
  "il_shrink_to_fit e s = s\<lparr>il_lines := vv_shrink_to_fit e (il_lines s)\<rparr>"

definition il_swap :: "rank_select_il \<Rightarrow> rank_select_il \<Rightarrow> rank_select_il \<times> rank_select_il" where
  "il_swap x y =
     (let (lx, ly) = vv_swap (il_lines x) (il_lines y) in
      (\<lparr>il_lines = lx, il_sel0 = il_sel0 y, il_sel1 = il_sel1 y, il_max_rank0 = il_max_rank0 y,
        il_max_rank1 = il_max_rank1 y, il_size = il_size y\<rparr>,
       \<lparr>il_lines = ly, il_sel0 = il_sel0 x, il_sel1 = il_sel1 x, il_max_rank0 = il_max_rank0 x,
        il_max_rank1 = il_max_rank1 x, il_size = il_size x\<rparr>))"

definition il_risk_release_ownership :: "rank_select_il \<Rightarrow> rank_select_il" where
  "il_risk_release_ownership s = \<lparr>il_lines = vv_risk_release_ownership (il_lines s), il_sel0 = None, il_sel1 = None,
     il_max_rank0 = 0, il_max_rank1 = 0, il_size = 0\<rparr>"

definition il_move :: "rank_select_il \<Rightarrow> rank_select_il \<times> rank_select_il" where
  "il_move y = (y, il_risk_release_ownership y)"

definition il_push_back_slow_path :: "Line venv \<Rightarrow> bool \<Rightarrow> rank_select_il \<Rightarrow> error + rank_select_il" where
  "il_push_back_slow_path e val s =
     (if il_full (il_size s) then Inl Length_error
      else case vv_emplace_back e (il_Line False) (il_lines s) of
             Inl err \<Rightarrow> Inl err
           | Inr ls \<Rightarrow> Inr (il_set (il_size s) val (s\<lparr>il_lines := ls, il_size := il_size s + 1\<rparr>)))"

definition il_push_back :: "Line venv \<Rightarrow> bool \<Rightarrow> rank_select_il \<Rightarrow> error + rank_select_il" where
  "il_push_back e val s =
     (if il_full (il_size s) then Inl Length_error
      else if il_size s < vn (il_lines s) * 256 then Inr (il_set (il_size s) val (s\<lparr>il_size := il_size s + 1\<rparr>))
      else il_push_back_slow_path e val s)"

definition il_pop_back :: "rank_select_il \<Rightarrow> rank_select_il" where
  "il_pop_back s = s\<lparr>il_size := il_size s - 1\<rparr>"

definition il_back :: "rank_select_il \<Rightarrow> bool" where
  "il_back s = il_is1 s (il_size s - 1)"

definition il_mem_size :: "rank_select_il \<Rightarrow> nat" where
  "il_mem_size s = 40 * vc (il_lines s)"

definition il_num_bits :: "rank_select_il \<Rightarrow> nat" where
  "il_num_bits s = vn (il_lines s) * 256"

section \<open>Building the caches\<close>

function il_fill_lev2 :: "nat \<Rightarrow> nat \<Rightarrow> nat \<Rightarrow> u64 list \<Rightarrow> u64 list \<times> nat" where
  "il_fill_lev2 i j inc m =
     (if j < 4 then
        let m = set8 m (40 * i + 4 + j) (word_of_nat inc)
        in il_fill_lev2 i (Suc j) (inc + fast_popcount (il_bit64 m i j)) m
      else (m, inc))"
  by pat_completeness auto
termination
  by (relation "measure (\<lambda>(i, j, inc, m). 4 - j)") auto

declare il_fill_lev2.simps [simp del]

function il_fill_ranks :: "nat \<Rightarrow> nat \<Rightarrow> nat \<Rightarrow> u64 list \<Rightarrow> u64 list \<times> nat" where
  "il_fill_ranks nlines i Rank1 m =
     (if i < nlines then
        let m = set32 m (10 * i) (word_of_nat Rank1);
            (m, inc) = il_fill_lev2 i 0 0 m
        in il_fill_ranks nlines (Suc i) (Rank1 + inc) m
      else (m, Rank1))"
  by pat_completeness auto
termination
  by (relation "measure (\<lambda>(nlines, i, Rank1, m). nlines - i)") auto

declare il_fill_ranks.simps [simp del]

text \<open>\<open>build_cache_q\<close> up to the ranks: the bits after the last one are cleared in the last line, the block is cut to the
  lines, and the ranks are filled in. The result is the structure and the number of ones.\<close>

definition il_build_ranks :: "Line venv \<Rightarrow> rank_select_il \<Rightarrow> rank_select_il \<times> nat" where
  "il_build_ranks e s =
     (let s = (if il_size s mod 256 \<noteq> 0 then
                 let back = 64 * (5 * (vn (il_lines s) - 1) + 1) in
                 il_upd (\<lambda>m. bits_range_set0 m (back + il_size s mod 256) (back + 256)) s
               else s);
          s = il_shrink_to_fit e s;
          (m, Rank1) = il_fill_ranks (vn (il_lines s)) 0 0 (il_mem s)
      in (il_upd (\<lambda>_. m) s, Rank1))"

text \<open>The rest: one line past the end for the total, the select caches and, in the last word of the block, the flags.\<close>

definition il_build_index :: "Line venv \<Rightarrow> nat \<Rightarrow> nat \<Rightarrow> rank_select_il \<Rightarrow> nat \<Rightarrow> error + rank_select_il" where
  "il_build_index e Q0 Q1 s Rank1 =
     (let speed_select0 = Q0 \<noteq> 0;
          speed_select1 = Q1 \<noteq> 0;
          nlines = vn (il_lines s);
          max_rank0 = size_sub (il_size s) Rank1;
          max_rank1 = Rank1;
          q0 = 256 div (if Q0 \<noteq> 0 then Q0 else 1);
          q1 = 256 div (if Q1 \<noteq> 0 then Q1 else 1);
          select0_slots = (max_rank0 + 256 - 1) div q0;
          select1_slots = (max_rank1 + 256 - 1) div q1;
          u32_slots = (if speed_select0 then select0_slots + 1 else 0) + (if speed_select1 then select1_slots + 1 else 0)
      in case vv_reserve e (nlines + 1 + (u32_slots + 2 + 10 - 1) div 10) (il_lines s) of
           Inl err \<Rightarrow> Inl err
         | Inr ls \<Rightarrow>
             let m = lines_words (vdata ls);
                 m = put_at (5 * nlines) [0, 0, 0, 0, 0] m;
                 m = set32 m (10 * nlines) (word_of_nat Rank1)
             in (case build_selects 256 q0 q1 il_rlev1 (vc ls) nlines (10 * (nlines + 1))
                     select0_slots select1_slots speed_select0 speed_select1 m of
                   Inl err \<Rightarrow> Inl err
                 | Inr (m, sel0, sel1) \<Rightarrow>
                     let m = m[5 * vc ls - 1 := rs_flags (il_size s) speed_select0 speed_select1] in
                     Inr (il_upd (\<lambda>_. m)
                       (s\<lparr>il_lines := ls,
                          il_sel0 := (if speed_select0 then sel0 else il_sel0 s),
                          il_sel1 := (if speed_select1 then sel1 else il_sel1 s),
                          il_max_rank0 := max_rank0, il_max_rank1 := max_rank1\<rparr>))))"

definition il_build_cache_q :: "Line venv \<Rightarrow> nat \<Rightarrow> nat \<Rightarrow> rank_select_il \<Rightarrow> error + rank_select_il" where
  "il_build_cache_q e Q0 Q1 s =
     (if rank_select_check_overflow (il_size s) then Inl Length_error
      else let (s, Rank1) = il_build_ranks e s in il_build_index e Q0 Q1 s Rank1)"

definition il_build_cache :: "Line venv \<Rightarrow> bool \<Rightarrow> bool \<Rightarrow> rank_select_il \<Rightarrow> error + rank_select_il" where
  "il_build_cache e speed_select0 speed_select1 s = il_build_cache_q e (of_bool speed_select0) (of_bool speed_select1) s"

definition il41_build_cache :: "Line venv \<Rightarrow> bool \<Rightarrow> bool \<Rightarrow> rank_select_il \<Rightarrow> error + rank_select_il" where
  "il41_build_cache e speed_select0 speed_select1 s =
     il_build_cache_q e (if speed_select0 then 4 else 0) (of_bool speed_select1) s"

definition il_risk_mmap_from :: "u64 list \<Rightarrow> nat \<Rightarrow> rank_select_il" where
  "il_risk_mmap_from base len =
     (let flags = base ! (len div 8 - 1);
          sz = unat (drop_bit 8 flags);
          nlines = (sz + 256 - 1) div 256;
          ls = \<lparr>vp = Some (words_lines base), vn = nlines, vc = len div 40\<rparr>;
          max_rank1 = il_rlev1 base nlines;
          max_rank0 = size_sub sz max_rank1;
          select0_slots = (max_rank0 + 256 - 1) div 256;
          select_index = 10 * (nlines + 1);
          (sel0, select_index) =
            (if flags AND push_bit 0 1 \<noteq> 0 then (Some select_index, select_index + (select0_slots + 1))
             else (None, select_index));
          sel1 = (if flags AND push_bit 1 1 \<noteq> 0 then Some select_index else None)
      in \<lparr>il_lines = ls, il_sel0 = sel0, il_sel1 = sel1, il_max_rank0 = max_rank0, il_max_rank1 = max_rank1, il_size = sz\<rparr>)"

section \<open>Queries\<close>

definition il_isall0 :: "rank_select_il \<Rightarrow> bool" where "il_isall0 s \<longleftrightarrow> il_max_rank1 s = 0"
definition il_isall1 :: "rank_select_il \<Rightarrow> bool" where "il_isall1 s \<longleftrightarrow> il_max_rank0 s = 0"

definition il_popcnt_lines :: "rank_select_il \<Rightarrow> nat \<Rightarrow> nat \<Rightarrow> nat" where
  "il_popcnt_lines s startline lines = il_rlev1 (il_mem s) (startline + lines) - il_rlev1 (il_mem s) startline"

definition il_popcnt :: "rank_select_il \<Rightarrow> nat" where
  "il_popcnt s = il_popcnt_lines s 0 (vn (il_lines s))"

definition il_fast_rank1 :: "u64 list \<Rightarrow> nat \<Rightarrow> nat" where
  "il_fast_rank1 m bitpos =
     il_rlev1 m (bitpos div 256) + il_rlev2 m (bitpos div 256) (bitpos mod 256 div 64)
     + fast_popcount_trail (il_bit64 m (bitpos div 256) (bitpos mod 256 div 64)) (bitpos mod 64)"

definition il_fast_rank0 :: "u64 list \<Rightarrow> nat \<Rightarrow> nat" where
  "il_fast_rank0 m bitpos = size_sub bitpos (il_fast_rank1 m bitpos)"

definition il_rank1 :: "rank_select_il \<Rightarrow> nat \<Rightarrow> nat" where
  "il_rank1 s bitpos =
     (let m = il_mem s in
      il_rlev1 m (bitpos div 256) + il_rlev2 m (bitpos div 256) (bitpos mod 256 div 64)
      + fast_popcount_trail (il_bit64 m (bitpos div 256) (bitpos mod 256 div 64)) (bitpos mod 64))"

definition il_rank0 :: "rank_select_il \<Rightarrow> nat \<Rightarrow> nat" where
  "il_rank0 s bitpos = size_sub bitpos (il_rank1 s bitpos)"

definition il_excess1 :: "rank_select_il \<Rightarrow> nat \<Rightarrow> nat" where
  "il_excess1 s bp = size_sub (2 * il_rank1 s bp) bp"

definition il_select0_q :: "nat \<Rightarrow> rank_select_il \<Rightarrow> nat \<Rightarrow> nat" where
  "il_select0_q Q s Rank0 =
     (let m = il_mem s;
          (lo, hi) = (case il_sel0 s of
                        Some sel0 \<Rightarrow> (unat (get32 m (sel0 + Rank0 div (256 div Q))), unat (get32 m (sel0 + (Rank0 div (256 div Q) + 1))))
                      | None \<Rightarrow> (0, vn (il_lines s)));
          lo = ub_loop (\<lambda>mid. 256 * mid - il_rlev1 m mid) Rank0 lo hi
      in line4_select0 (il_rlev2 m (lo - 1)) (il_bit64 m (lo - 1)) Rank0
           (256 * (lo - 1) - il_rlev1 m (lo - 1)) ((lo - 1) * 256))"

definition il_select1_q :: "nat \<Rightarrow> rank_select_il \<Rightarrow> nat \<Rightarrow> nat" where
  "il_select1_q Q s Rank1 =
     (let m = il_mem s;
          (lo, hi) = (case il_sel1 s of
                        Some sel1 \<Rightarrow> (unat (get32 m (sel1 + Rank1 div (256 div Q))), unat (get32 m (sel1 + (Rank1 div (256 div Q) + 1))))
                      | None \<Rightarrow> (0, vn (il_lines s)));
          lo = ub_loop (il_rlev1 m) Rank1 lo hi
      in line4_select1 (il_rlev2 m (lo - 1)) (il_bit64 m (lo - 1)) Rank1 (il_rlev1 m (lo - 1)) ((lo - 1) * 256))"

definition il_select0 :: "rank_select_il \<Rightarrow> nat \<Rightarrow> nat" where "il_select0 = il_select0_q 1"
definition il_select1 :: "rank_select_il \<Rightarrow> nat \<Rightarrow> nat" where "il_select1 = il_select1_q 1"
definition il41_select0 :: "rank_select_il \<Rightarrow> nat \<Rightarrow> nat" where "il41_select0 = il_select0_q 4"

definition il_fast_select0_q :: "nat \<Rightarrow> u64 list \<Rightarrow> nat \<Rightarrow> nat \<Rightarrow> nat option" where
  "il_fast_select0_q Q m sel0 Rank0 =
     (let lo = unat (get32 m (sel0 + Rank0 div (256 div Q)));
          hi = unat (get32 m (sel0 + (Rank0 div (256 div Q) + 1)));
          val = (\<lambda>k. 256 * k - il_rlev1 m k)
      in case (if size_sub hi lo < 32 div Q then scan_while (\<lambda>k. val k \<le> Rank0) lo (length m div 5)
               else Some (ub_loop val Rank0 lo hi)) of
           None \<Rightarrow> None
         | Some lo \<Rightarrow>
             Some (line4_select0 (il_rlev2 m (lo - 1)) (il_bit64 m (lo - 1)) Rank0
               (256 * (lo - 1) - il_rlev1 m (lo - 1)) ((lo - 1) * 256)))"

definition il_fast_select1_q :: "nat \<Rightarrow> u64 list \<Rightarrow> nat \<Rightarrow> nat \<Rightarrow> nat option" where
  "il_fast_select1_q Q m sel1 Rank1 =
     (let lo = unat (get32 m (sel1 + Rank1 div (256 div Q)));
          hi = unat (get32 m (sel1 + (Rank1 div (256 div Q) + 1)));
          val = il_rlev1 m
      in case (if size_sub hi lo < 32 div Q then scan_while (\<lambda>k. val k \<le> Rank1) lo (length m div 5)
               else Some (ub_loop val Rank1 lo hi)) of
           None \<Rightarrow> None
         | Some lo \<Rightarrow>
             Some (line4_select1 (il_rlev2 m (lo - 1)) (il_bit64 m (lo - 1)) Rank1 (il_rlev1 m (lo - 1)) ((lo - 1) * 256)))"

definition il_fast_select0 :: "u64 list \<Rightarrow> nat \<Rightarrow> nat \<Rightarrow> nat option" where "il_fast_select0 = il_fast_select0_q 1"
definition il_fast_select1 :: "u64 list \<Rightarrow> nat \<Rightarrow> nat \<Rightarrow> nat option" where "il_fast_select1 = il_fast_select1_q 1"
definition il41_fast_select0 :: "u64 list \<Rightarrow> nat \<Rightarrow> nat \<Rightarrow> nat option" where "il41_fast_select0 = il_fast_select0_q 4"

subsection \<open>Runs of equal bits\<close>

text \<open>The nested loops over the lines from \<open>j\<close> and the words from \<open>k\<close>; \<open>ones\<close> complements the words. Backwards,
  \<open>J\<close> and \<open>K\<close> are one more than the indices \<open>j\<close> and \<open>k\<close> of the source, which end at \<open>size_t(-1)\<close>.\<close>

definition il_run_word :: "bool \<Rightarrow> u64 list \<Rightarrow> nat \<Rightarrow> nat \<Rightarrow> u64" where
  "il_run_word ones m j k = (if ones then NOT (il_bit64 m j k) else il_bit64 m j k)"

function il_len_loop :: "bool \<Rightarrow> u64 list \<Rightarrow> nat \<Rightarrow> nat \<Rightarrow> nat \<Rightarrow> nat \<Rightarrow> nat" where
  "il_len_loop ones m len j k acc =
     (if j < len then
        if k < 4 then
          let y = il_run_word ones m j k in
          if y = 0 then il_len_loop ones m len j (Suc k) (acc + 64) else acc + fast_ctz y
        else il_len_loop ones m len (Suc j) 0 acc
      else acc)"
  by pat_completeness auto
termination
  by (relation "measures [\<lambda>(ones, m, len, j, k, acc). len - j, \<lambda>(ones, m, len, j, k, acc). 4 - k]") auto

declare il_len_loop.simps [simp del]

definition il_one_seq_len :: "rank_select_il \<Rightarrow> nat \<Rightarrow> nat" where
  "il_one_seq_len s bitpos =
     (let m = il_mem s; j = bitpos div 256; len = vn (il_lines s) in
      if bitpos mod 64 \<noteq> 0 then
        let x = il_bit64 m j (bitpos mod 256 div 64) in
        if x AND push_bit (bitpos mod 64) 1 = 0 then 0
        else
          let y = NOT (drop_bit (bitpos mod 64) x); ctz = fast_ctz y in
          if ctz < 64 - bitpos mod 64 then ctz
          else il_len_loop True m len j (bitpos mod 256 div 64 + 1) ctz
      else il_len_loop True m len j (bitpos mod 256 div 64) 0)"

definition il_zero_seq_len :: "rank_select_il \<Rightarrow> nat \<Rightarrow> nat" where
  "il_zero_seq_len s bitpos =
     (let m = il_mem s; j = bitpos div 256; len = vn (il_lines s) in
      if bitpos mod 64 \<noteq> 0 then
        let x = il_bit64 m j (bitpos mod 256 div 64) in
        if x AND push_bit (bitpos mod 64) 1 \<noteq> 0 then 0
        else
          let y = drop_bit (bitpos mod 64) x in
          if y \<noteq> 0 then fast_ctz y
          else il_len_loop False m len j (bitpos mod 256 div 64 + 1) (64 - bitpos mod 64)
      else il_len_loop False m len j (bitpos mod 256 div 64) 0)"

text \<open>\<open>fast_one_seq_len\<close> is told no number of lines; \<open>None\<close> is a scan that leaves the block.\<close>

function il_fast_len_loop :: "u64 list \<Rightarrow> nat \<Rightarrow> nat \<Rightarrow> nat \<Rightarrow> nat option" where
  "il_fast_len_loop m j k acc =
     (if j < length m div 5 then
        if k < 4 then
          let y = NOT (il_bit64 m j k) in
          if y = 0 then il_fast_len_loop m j (Suc k) (acc + 64) else Some (acc + fast_ctz y)
        else il_fast_len_loop m (Suc j) 0 acc
      else None)"
  by pat_completeness auto
termination
  by (relation "measures [\<lambda>(m, j, k, acc). length m div 5 - j, \<lambda>(m, j, k, acc). 4 - k]") auto

declare il_fast_len_loop.simps [simp del]

definition il_fast_one_seq_len :: "u64 list \<Rightarrow> nat \<Rightarrow> nat option" where
  "il_fast_one_seq_len m bitpos =
     (let j = bitpos div 256 in
      if bitpos mod 64 \<noteq> 0 then
        let x = il_bit64 m j (bitpos mod 256 div 64) in
        if x AND push_bit (bitpos mod 64) 1 = 0 then Some 0
        else
          let y = NOT (drop_bit (bitpos mod 64) x); ctz = fast_ctz y in
          if ctz < 64 - bitpos mod 64 then Some ctz
          else il_fast_len_loop m j (bitpos mod 256 div 64 + 1) ctz
      else il_fast_len_loop m j (bitpos mod 256 div 64) 0)"

function il_revlen_loop :: "bool \<Rightarrow> u64 list \<Rightarrow> nat \<Rightarrow> nat \<Rightarrow> nat \<Rightarrow> nat" where
  "il_revlen_loop ones m J K acc =
     (if J \<noteq> 0 then
        if K \<noteq> 0 then
          let y = il_run_word ones m (J - 1) (K - 1) in
          if y = 0 then il_revlen_loop ones m J (K - 1) (acc + 64) else acc + fast_clz y
        else il_revlen_loop ones m (J - 1) 4 acc
      else acc)"
  by pat_completeness auto
termination
  by (relation "measures [\<lambda>(ones, m, J, K, acc). J, \<lambda>(ones, m, J, K, acc). K]") auto

declare il_revlen_loop.simps [simp del]

definition il_one_seq_revlen :: "rank_select_il \<Rightarrow> nat \<Rightarrow> nat" where
  "il_one_seq_revlen s endpos =
     (let m = il_mem s in
      if endpos mod 64 \<noteq> 0 then
        let j = (endpos - 1) div 256; x = il_bit64 m j ((endpos - 1) mod 256 div 64) in
        if x AND push_bit ((endpos - 1) mod 64) 1 = 0 then 0
        else
          let y = NOT (push_bit (64 - endpos mod 64) x); clz = fast_clz y in
          if clz < endpos mod 64 then clz
          else il_revlen_loop True m (j + 1) ((endpos - 1) mod 256 div 64) clz
      else if endpos = 0 then 0
      else il_revlen_loop True m ((endpos - 1) div 256 + 1) ((endpos - 1) mod 256 div 64 + 1) 0)"

definition il_zero_seq_revlen :: "rank_select_il \<Rightarrow> nat \<Rightarrow> nat" where
  "il_zero_seq_revlen s endpos =
     (let m = il_mem s in
      if endpos mod 64 \<noteq> 0 then
        let j = (endpos - 1) div 256; x = il_bit64 m j ((endpos - 1) mod 256 div 64) in
        if x AND push_bit ((endpos - 1) mod 64) 1 \<noteq> 0 then 0
        else
          let y = push_bit (64 - endpos mod 64) x in
          if y \<noteq> 0 then fast_clz y
          else il_revlen_loop False m (j + 1) ((endpos - 1) mod 256 div 64) (endpos mod 64)
      else if endpos = 0 then 0
      else il_revlen_loop False m ((endpos - 1) div 256 + 1) ((endpos - 1) mod 256 div 64 + 1) 0)"

section \<open>Invariant\<close>

text \<open>While the structure is filled, the lines hold the bits and no cache is set; after \<open>pop_back\<close> there may be more
  lines than needed.\<close>

definition il_winv :: "rank_select_il \<Rightarrow> bool" where
  "il_winv s \<longleftrightarrow> vv_inv (il_lines s) \<and> il_size s \<le> 256 * vn (il_lines s) \<and> il_size s < 2 ^ 32
     \<and> il_sel0 s = None \<and> il_sel1 s = None \<and> il_max_rank0 s = 0 \<and> il_max_rank1 s = 0"

definition il_vec :: "rank_select_il \<Rightarrow> bool list" where
  "il_vec s = map (il_bit (il_mem s)) [0..<il_size s]"

definition il_cache_ok :: "u64 list \<Rightarrow> nat \<Rightarrow> bool" where
  "il_cache_ok m N \<longleftrightarrow>
     (\<forall>k \<le> N. il_rlev1 m k = cnt (il_bit m) (256 * k))
     \<and> (\<forall>k < N. \<forall>j < 4. il_rlev2 m k j = cnt (il_bit m) (256 * k + 64 * j) - cnt (il_bit m) (256 * k))
     \<and> (\<forall>j < 4. il_rlev2 m N j = 0)"

definition il_inv :: "rank_select_il \<Rightarrow> bool" where
  "il_inv s \<longleftrightarrow>
     (let ls = il_lines s; m = il_mem s; N = BitsToLines (il_size s) in
      vv_inv ls \<and> il_size s < 2 ^ 32 \<and> vn ls = N \<and> N < vc ls
      \<and> (\<forall>p. il_size s \<le> p \<and> p < 256 * N \<longrightarrow> \<not> il_bit m p)
      \<and> il_cache_ok m N
      \<and> il_max_rank1 s = cnt (il_bit m) (il_size s) \<and> il_max_rank0 s = il_size s - il_max_rank1 s
      \<and> (\<forall>c. il_sel0 s = Some c \<longrightarrow>
           sel_cache_ok (\<lambda>k. 256 * k - il_rlev1 m k) 256 N ((il_max_rank0 s + 256 - 1) div 256) (\<lambda>j. unat (get32 m (c + j))))
      \<and> (\<forall>c. il_sel1 s = Some c \<longrightarrow>
           sel_cache_ok (il_rlev1 m) 256 N ((il_max_rank1 s + 256 - 1) div 256) (\<lambda>j. unat (get32 m (c + j)))))"

text \<open>The rank words of the lines are those at multiples of five; \<open>bits_same\<close>: the others are unchanged.\<close>

definition bits_same :: "u64 list \<Rightarrow> u64 list \<Rightarrow> bool" where
  "bits_same m m' \<longleftrightarrow> length m' = length m \<and> (\<forall>w. w mod 5 \<noteq> 0 \<longrightarrow> m' ! w = m ! w)"

datatype il_op =
    IPush bool | IPop | ISet nat bool | ISet_range nat nat bool | IFill bool | IResize nat bool | IResize_no_init bool nat
  | IResize_fill nat bool | IShrink | IClear

text \<open>What the operations assert. \<open>resize\<close> sets only new lines and \<open>resize_no_init\<close> nothing: growing them is covered when
  the last line is full, respectively not at all.\<close>

fun il_pre :: "il_op \<Rightarrow> rank_select_il \<Rightarrow> bool" where
  "il_pre IPop s \<longleftrightarrow> 0 < il_size s"
| "il_pre (ISet i val) s \<longleftrightarrow> i < il_size s"
| "il_pre (ISet_range i n val) s \<longleftrightarrow> i + n \<le> il_size s"
| "il_pre (IResize n val) s \<longleftrightarrow> n \<le> il_size s \<or> il_size s = 256 * vn (il_lines s)"
| "il_pre (IResize_no_init hv n) s \<longleftrightarrow> n \<le> il_size s"
| "il_pre _ s \<longleftrightarrow> True"

fun il_exec :: "Line venv \<Rightarrow> il_op \<Rightarrow> rank_select_il \<Rightarrow> error + rank_select_il" where
  "il_exec e (IPush val) s = il_push_back e val s"
| "il_exec e IPop s = Inr (il_pop_back s)"
| "il_exec e (ISet i val) s = Inr (il_set i val s)"
| "il_exec e (ISet_range i n val) s = Inr (il_set_range i n val s)"
| "il_exec e (IFill val) s = Inr (il_fill val s)"
| "il_exec e (IResize n val) s = il_resize e n val s"
| "il_exec e (IResize_no_init hv n) s = il_resize_no_init e hv n s"
| "il_exec e (IResize_fill n val) s = il_resize_fill e n val s"
| "il_exec e IShrink s = Inr (il_shrink_to_fit e s)"
| "il_exec e IClear s = Inr (il_clear s)"

fun il_list :: "il_op \<Rightarrow> bool list \<Rightarrow> bool list" where
  "il_list (IPush val) xs = xs @ [val]"
| "il_list IPop xs = butlast xs"
| "il_list (ISet i val) xs = xs[i := val]"
| "il_list (ISet_range i n val) xs = take i xs @ replicate n val @ drop (i + n) xs"
| "il_list (IFill val) xs = replicate (length xs) val"
| "il_list (IResize n val) xs = list_resize val n xs"
| "il_list (IResize_no_init hv n) xs = take n xs"
| "il_list (IResize_fill n val) xs = replicate n val"
| "il_list IShrink xs = xs"
| "il_list IClear xs = []"

fun il_run :: "Line venv \<Rightarrow> il_op list \<Rightarrow> rank_select_il \<Rightarrow> error + rank_select_il" where
  "il_run e [] s = Inr s"
| "il_run e (a # ops) s = (case il_exec e a s of Inl err \<Rightarrow> Inl err | Inr s' \<Rightarrow> il_run e ops s')"

fun il_pre_run :: "Line venv \<Rightarrow> il_op list \<Rightarrow> rank_select_il \<Rightarrow> bool" where
  "il_pre_run e [] s \<longleftrightarrow> True"
| "il_pre_run e (a # ops) s \<longleftrightarrow> il_pre a s \<and> (case il_exec e a s of Inl err \<Rightarrow> True | Inr s' \<Rightarrow> il_pre_run e ops s')"

text \<open>One step: the invariant, the new size and the new bits.\<close>

definition il_step :: "rank_select_il \<Rightarrow> nat \<Rightarrow> (nat \<Rightarrow> bool) \<Rightarrow> bool" where
  "il_step s n f \<longleftrightarrow> il_winv s \<and> il_size s = n \<and> (\<forall>p < n. il_bit (il_mem s) p = f p)"

definition il_env0 :: "Line venv" where
  "il_env0 = \<lparr>v_ok = (\<lambda>_. True), v_junk = (\<lambda>_. Line 0 0 0 0 0)\<rparr>"

definition il_sample :: rank_select_il where
  "il_sample = il_with \<lparr>vp = Some [Line 0 (- 1) 5 0 0, Line 0 3 0 0 0], vn = 2, vc = 2\<rparr> 300"

definition il_one :: rank_select_il where
  "il_one = il_with \<lparr>vp = Some [Line 0 1 0 0 0], vn = 1, vc = 1\<rparr> 1"

section \<open>The block of lines as words\<close>

lemma length_lines_words [simp]: "length (lines_words ls) = 5 * length ls"
proof -
  have "length (line_words l) = 5" for l by (cases l) simp
  then show ?thesis by (induction ls) (simp_all add: lines_words_def)
qed

lemma words_lines_words [simp]: "words_lines (lines_words ls) = ls"
proof (induction ls)
  case (Cons l ls)
  then show ?case by (cases l) (simp add: lines_words_def)
qed (simp add: lines_words_def)

lemma lines_words_lines: "length m = 5 * k \<Longrightarrow> lines_words (words_lines m) = m"
proof (induction m arbitrary: k rule: words_lines.induct)
  case (1 h w0 w1 w2 w3 m)
  then have "length m = 5 * (k - 1)" by simp
  with 1 show ?case by (simp add: lines_words_def)
qed (auto simp: lines_words_def, presburger+)

lemma length_words_lines: "length m = 5 * k \<Longrightarrow> length (words_lines m) = k"
  using lines_words_lines [of m k] length_lines_words [of "words_lines m"] by simp

lemma lines_words_append [simp]: "lines_words (xs @ ys) = lines_words xs @ lines_words ys"
  by (simp add: lines_words_def)

lemma lines_words_Nil [simp]: "lines_words [] = []"
  by (simp add: lines_words_def)

lemma lines_words_take: "lines_words (take k ls) = take (5 * k) (lines_words ls)"
proof (cases "k \<le> length ls")
  case True
  have "lines_words ls = lines_words (take k ls) @ lines_words (drop k ls)"
    by (simp add: lines_words_append [symmetric] del: lines_words_append)
  moreover have "length (lines_words (take k ls)) = 5 * k" using True by simp
  ultimately show ?thesis by (metis append_eq_conv_conj)
qed simp

lemma length_il_mem: "vv_inv (il_lines s) \<Longrightarrow> length (il_mem s) = 5 * vc (il_lines s)"
  by (simp add: il_mem_def vv_inv_def)

lemma il_upd_ok:
  assumes "vv_inv (il_lines s)" and "length (f (il_mem s)) = length (il_mem s)"
  shows "il_mem (il_upd f s) = f (il_mem s)" and "vv_inv (il_lines (il_upd f s))"
    and "vn (il_lines (il_upd f s)) = vn (il_lines s)" and "vc (il_lines (il_upd f s)) = vc (il_lines s)"
proof -
  have l: "length (f (il_mem s)) = 5 * length (vdata (il_lines s))" using assms(2) by (simp add: il_mem_def)
  have d: "vdata (il_lines (il_upd f s)) = words_lines (f (il_mem s))"
  proof (cases "vp (il_lines s)")
    case None
    then have "il_mem s = []" "vdata (il_lines s) = []" by (simp_all add: il_mem_def vdata_def)
    with assms(2) None show ?thesis by (simp add: il_upd_def upd_slots_def vdata_def)
  next
    case (Some ls)
    then show ?thesis by (simp add: il_upd_def upd_slots_def vdata_def il_mem_def)
  qed
  show "il_mem (il_upd f s) = f (il_mem s)"
    unfolding il_mem_def [of "il_upd f s"] d by (rule lines_words_lines [OF l])
  show v: "vn (il_lines (il_upd f s)) = vn (il_lines s)" "vc (il_lines (il_upd f s)) = vc (il_lines s)" by (simp_all add: il_upd_def)
  show "vv_inv (il_lines (il_upd f s))"
    using assms(1) length_words_lines [OF l] unfolding vv_inv_def d v by simp
qed

lemma il_upd_simps [simp]: "il_size (il_upd f s) = il_size s" "il_sel0 (il_upd f s) = il_sel0 s" "il_sel1 (il_upd f s) = il_sel1 s"
    "il_max_rank0 (il_upd f s) = il_max_rank0 s" "il_max_rank1 (il_upd f s) = il_max_rank1 s"
  by (simp_all add: il_upd_def)

lemma mod_div_64: "p mod 256 div 64 = p div 64 mod (4::nat)"
proof -
  have "p mod (64 * 4) = 64 * (p div 64 mod 4) + p mod 64" by (rule mod_mult2_eq)
  then show ?thesis by simp
qed

lemma il_word_alt: "il_word p = 5 * (p div 64 div 4) + 1 + p div 64 mod 4"
  by (simp add: il_word_def mod_div_64 div_mult2_eq [symmetric])

text \<open>The bits of the lines in the words of the block.\<close>

interpretation ilb: word_bits "il_bit m" "\<lambda>w. m ! (5 * (w div 4) + 1 + w mod 4)" for m
  by unfold_locales (simp add: il_bit_def il_word_alt)

interpretation ilb0: word_bits "\<lambda>p. \<not> il_bit m p" "\<lambda>w. NOT (m ! (5 * (w div 4) + 1 + w mod 4))" for m
  by (rule ilb.compl_words)

lemma il_bit64_W: "j < 4 \<Longrightarrow> m ! (5 * ((4 * i + j) div 4) + 1 + (4 * i + j) mod 4) = il_bit64 m i j"
  by (simp add: il_bit64_def)

lemma il_word_less: "p < 256 * n \<Longrightarrow> il_word p < 5 * n"
proof -
  assume "p < 256 * n"
  then have "p div 256 < n" by (simp add: div_less_iff_less_mult mult.commute)
  moreover have "p mod 256 div 64 < 4" by (simp add: mod_div_64)
  ultimately show ?thesis unfolding il_word_def by linarith
qed

lemma il_word_eq: "il_word p = il_word q \<longleftrightarrow> p div 64 = q div 64"
proof
  assume "il_word p = il_word q"
  then have e: "5 * (p div 64 div 4) + p div 64 mod 4 = 5 * (q div 64 div 4) + q div 64 mod 4" by (simp add: il_word_alt)
  have gen: "a = c \<and> b = d" if "5 * a + b = 5 * c + d" "b < 4" "d < 4" for a b c d :: nat using that by presburger
  have "p div 64 div 4 = q div 64 div 4 \<and> p div 64 mod 4 = q div 64 mod 4" by (rule gen [OF e]) simp_all
  then show "p div 64 = q div 64" by (metis mult_div_mod_eq)
qed (simp add: il_word_alt)

lemma eq_word_bit: "il_word p = il_word q \<and> p mod 64 = q mod 64 \<longleftrightarrow> p = q"
  unfolding il_word_eq by (metis mult_div_mod_eq)

lemma il_bit_cong: "(\<And>w. w < 5 * n \<Longrightarrow> m' ! w = m ! w) \<Longrightarrow> p < 256 * n \<Longrightarrow> il_bit m' p = il_bit m p"
  by (simp add: il_bit_def il_word_less)

lemma il_bit_update:
  assumes "il_word i < length m"
  shows "il_bit (m[il_word i := m ! il_word i OR push_bit (i mod 64) 1]) p = (p = i \<or> il_bit m p)"
    and "il_bit (m[il_word i := m ! il_word i AND NOT (push_bit (i mod 64) 1)]) p = (p \<noteq> i \<and> il_bit m p)"
proof -
  have e: "p = i \<longleftrightarrow> il_word p = il_word i \<and> p mod 64 = i mod 64" by (rule eq_word_bit [symmetric])
  show "il_bit (m[il_word i := m ! il_word i OR push_bit (i mod 64) 1]) p = (p = i \<or> il_bit m p)"
    using assms unfolding e by (auto simp: il_bit_def nth_list_update bit_simps)
  show "il_bit (m[il_word i := m ! il_word i AND NOT (push_bit (i mod 64) 1)]) p = (p \<noteq> i \<and> il_bit m p)"
    using assms unfolding e by (auto simp: il_bit_def nth_list_update bit_simps)
qed

lemma il_is1_bit: "il_is1 s i = il_bit (il_mem s) i"
  by (simp only: il_is1_def il_bit_def and_push_bit_1)

text \<open>The elements of the vector of lines decide the bits.\<close>

lemma il_bit_vec:
  assumes "vv_inv (il_lines s)" and "p < 256 * vn (il_lines s)"
  shows "il_bit (il_mem s) p = il_bit (lines_words (vec (il_lines s))) p"
proof (rule il_bit_cong [OF _ assms(2)])
  fix w assume "w < 5 * vn (il_lines s)"
  then show "il_mem s ! w = lines_words (vec (il_lines s)) ! w"
    by (simp add: vec_def lines_words_take il_mem_def)
qed

lemma BitsToLines_bounds: "n \<le> 256 * BitsToLines n" "256 * BitsToLines n < n + 256" "BitsToLines n = align_up n 256 div 256"
  using lines256 [of n] by (simp_all add: BitsToLines_def)

section \<open>The ranks are built right\<close>

lemma bits_same_bit: "bits_same m m' \<Longrightarrow> il_bit m' p = il_bit m p"
proof -
  assume "bits_same m m'"
  moreover have "il_word p mod 5 \<noteq> 0"
  proof -
    have "(5 * a + 1 + b) mod 5 \<noteq> 0" if "b < 4" for a b :: nat using that by presburger
    then show ?thesis unfolding il_word_alt by simp
  qed
  ultimately show ?thesis by (simp add: bits_same_def il_bit_def)
qed

lemma bits_same_word: "bits_same m m' \<Longrightarrow> j < 4 \<Longrightarrow> il_bit64 m' i j = il_bit64 m i j"
proof -
  assume "bits_same m m'" "j < 4"
  moreover have "(5 * i + 1 + j) mod 5 \<noteq> 0" using \<open>j < 4\<close> by presburger
  ultimately show ?thesis by (simp add: bits_same_def il_bit64_def)
qed

lemma bits_same_trans: "bits_same m m' \<Longrightarrow> bits_same m' m'' \<Longrightarrow> bits_same m m''"
  by (simp add: bits_same_def)

lemma bits_same_refl: "bits_same m m"
  by (simp add: bits_same_def)

lemma same_except_bits_same: "same_except m m' (64 * (5 * i)) (64 * (5 * i) + 64) \<Longrightarrow> bits_same m m'"
proof -
  assume s: "same_except m m' (64 * (5 * i)) (64 * (5 * i) + 64)"
  have "m' ! w = m ! w" if "w mod 5 \<noteq> 0" for w
  proof -
    have "w \<noteq> 5 * i" using that by auto
    then have "w + 1 \<le> 5 * i \<or> 5 * i + 1 \<le> w" by linarith
    then have "64 * w + 64 \<le> 64 * (5 * i) \<or> 64 * (5 * i) + 64 \<le> 64 * w" by linarith
    then show ?thesis by (rule same_except_nth [OF s])
  qed
  with same_except_length [OF s] show ?thesis by (simp add: bits_same_def)
qed

lemma bits_same_cnt: "bits_same m m' \<Longrightarrow> cnt (il_bit m') n = cnt (il_bit m) n"
  by (rule cnt_cong) (rule bits_same_bit)

lemma il_cnt_next:
  assumes "j < 4"
  shows "cnt (il_bit m) (256 * i + 64 * j + 64) = cnt (il_bit m) (256 * i + 64 * j) + fast_popcount (il_bit64 m i j)"
proof -
  have e: "64 * (4 * i + j) = 256 * i + 64 * j" by simp
  show ?thesis using ilb.cnt_next [of m "4 * i + j"] unfolding e il_bit64_W [OF assms] .
qed

lemma il_lev_same:
  assumes "same_except m m' (64 * (5 * i)) (64 * (5 * i) + 64)" and "k \<noteq> i"
  shows "il_rlev1 m' k = il_rlev1 m k" and "j < 4 \<Longrightarrow> il_rlev2 m' k j = il_rlev2 m k j"
proof -
  have "k + 1 \<le> i \<or> i + 1 \<le> k" using assms(2) by linarith
  then have d: "64 * (5 * k) + 64 \<le> 64 * (5 * i) \<or> 64 * (5 * i) + 64 \<le> 64 * (5 * k)" by linarith
  show "il_rlev1 m' k = il_rlev1 m k"
    unfolding il_rlev1_def using d by (subst same_except_get32 [OF assms(1)]) auto
  show "il_rlev2 m' k j = il_rlev2 m k j" if "j < 4"
    unfolding il_rlev2_def using d that by (subst same_except_get8 [OF assms(1)]) auto
qed

lemma il_fill_lev2_ok:
  assumes i: "5 * i < length m0" and same: "bits_same m0 m" and j: "j \<le> 4"
    and filled: "\<And>k. k < j \<Longrightarrow> il_rlev2 m i k = cnt (il_bit m0) (256 * i + 64 * k) - cnt (il_bit m0) (256 * i)"
  shows "\<exists>m'. il_fill_lev2 i j (cnt (il_bit m0) (256 * i + 64 * j) - cnt (il_bit m0) (256 * i)) m
      = (m', cnt (il_bit m0) (256 * i + 256) - cnt (il_bit m0) (256 * i))
    \<and> same_except m m' (64 * (5 * i) + 32) (64 * (5 * i) + 64)
    \<and> (\<forall>k < 4. il_rlev2 m' i k = cnt (il_bit m0) (256 * i + 64 * k) - cnt (il_bit m0) (256 * i))"
  using same j filled
proof (induction "4 - j" arbitrary: j m)
  case 0
  then have "j = 4" by simp
  with 0 show ?case by (subst il_fill_lev2.simps) simp
next
  case (Suc d)
  then have j4: "j < 4" by simp
  define f where "f = il_bit m0"
  define r where "r = cnt f (256 * i + 64 * j) - cnt f (256 * i)"
  define b where "b = 40 * i + 4 + j"
  define m2 where "m2 = set8 m b (word_of_nat r)"
  have "b div 8 = 5 * i" unfolding b_def using j4 by (intro div_nat_eqI) simp_all
  then have len: "b div 8 < length m" using i Suc.prems(1) by (simp add: bits_same_def)
  have s: "same_except m m2 (64 * (5 * i) + 32) (64 * (5 * i) + 64)"
    unfolding m2_def using j4 by (intro same_except_set8_in [OF len]) (simp_all add: b_def)
  have s2: "same_except m m2 (64 * (5 * i)) (64 * (5 * i) + 64)" by (rule same_except_widen [OF s]) simp_all
  have s0: "bits_same m0 m2" by (rule bits_same_trans [OF Suc.prems(1) same_except_bits_same [OF s2]])
  have ur: "unat (word_of_nat r :: u8) = r"
    using cnt_sub_line [of j f i] j4 by (simp add: r_def unat_of_nat)
  have next': "r + fast_popcount (il_bit64 m2 i j) = cnt f (256 * i + 64 * Suc j) - cnt f (256 * i)"
  proof -
    have e2: "256 * i + 64 * Suc j = 256 * i + 64 * j + 64" by simp
    have "cnt f (256 * i) \<le> cnt f (256 * i + 64 * j)" by (rule cnt_mono) simp
    with il_cnt_next [OF j4, of m0 i] show ?thesis unfolding e2 bits_same_word [OF s0 j4] r_def f_def by simp
  qed
  have g2: "il_rlev2 m2 i k = (if k = j then r else il_rlev2 m i k)" for k
    unfolding il_rlev2_def m2_def get8_set8 [OF len] using ur by (simp add: b_def)
  have f2: "il_rlev2 m2 i k = cnt f (256 * i + 64 * k) - cnt f (256 * i)" if "k < Suc j" for k
    using that Suc.prems(3) [of k] by (simp add: g2 r_def f_def)
  have dd: "d = 4 - Suc j" using Suc.hyps(2) by simp
  obtain m' where m': "il_fill_lev2 i (Suc j) (cnt f (256 * i + 64 * Suc j) - cnt f (256 * i)) m2
      = (m', cnt f (256 * i + 256) - cnt f (256 * i))"
    "same_except m2 m' (64 * (5 * i) + 32) (64 * (5 * i) + 64)"
    "\<forall>k < 4. il_rlev2 m' i k = cnt f (256 * i + 64 * k) - cnt f (256 * i)"
    using Suc.hyps(1) [OF dd s0 Suc_leI [OF j4] f2 [unfolded f_def]] unfolding f_def by blast
  have "il_fill_lev2 i j r m = il_fill_lev2 i (Suc j) (r + fast_popcount (il_bit64 m2 i j)) m2"
    using j4 by (subst il_fill_lev2.simps) (simp add: Let_def m2_def b_def)
  then show ?case
    unfolding next' f_def [symmetric] r_def [symmetric] using m' same_except_trans [OF s m'(2)] by auto
qed

lemma il_fill_ranks_ok:
  assumes N: "5 * N \<le> length m0" and small: "\<And>k. k \<le> N \<Longrightarrow> cnt (il_bit m0) (256 * k) < 2 ^ 32"
    and same: "bits_same m0 m" and i: "i \<le> N"
    and filled: "\<And>k. k < i \<Longrightarrow> il_rlev1 m k = cnt (il_bit m0) (256 * k)"
      "\<And>k j. k < i \<Longrightarrow> j < 4 \<Longrightarrow> il_rlev2 m k j = cnt (il_bit m0) (256 * k + 64 * j) - cnt (il_bit m0) (256 * k)"
  shows "\<exists>m'. il_fill_ranks N i (cnt (il_bit m0) (256 * i)) m = (m', cnt (il_bit m0) (256 * N))
    \<and> bits_same m0 m'
    \<and> (\<forall>k < N. il_rlev1 m' k = cnt (il_bit m0) (256 * k))
    \<and> (\<forall>k < N. \<forall>j < 4. il_rlev2 m' k j = cnt (il_bit m0) (256 * k + 64 * j) - cnt (il_bit m0) (256 * k))"
  using same i filled
proof (induction "N - i" arbitrary: i m)
  case 0
  then have "i = N" by simp
  with 0 show ?case by (subst il_fill_ranks.simps) simp
next
  case (Suc d)
  then have iN: "i < N" by simp
  define f where "f = il_bit m0"
  define m1 where "m1 = set32 m (10 * i) (word_of_nat (cnt f (256 * i)))"
  have i5: "5 * i < length m0" using N iN by linarith
  have len: "10 * i div 2 < length m" using i5 Suc.prems(1) by (simp add: bits_same_def)
  have s1: "same_except m m1 (64 * (5 * i)) (64 * (5 * i) + 64)"
    unfolding m1_def by (rule same_except_set32_in [OF len]) simp_all
  have b1: "bits_same m0 m1" by (rule bits_same_trans [OF Suc.prems(1) same_except_bits_same [OF s1]])
  obtain m2 where m2: "il_fill_lev2 i 0 0 m1 = (m2, cnt f (256 * i + 256) - cnt f (256 * i))"
    "same_except m1 m2 (64 * (5 * i) + 32) (64 * (5 * i) + 64)"
    "\<forall>k < 4. il_rlev2 m2 i k = cnt f (256 * i + 64 * k) - cnt f (256 * i)"
    using il_fill_lev2_ok [OF i5 b1, of 0] by (auto simp: f_def)
  have s2: "same_except m m2 (64 * (5 * i)) (64 * (5 * i) + 64)"
    by (rule same_except_trans [OF s1 same_except_widen [OF m2(2)]]) simp_all
  have b2: "bits_same m0 m2" by (rule bits_same_trans [OF Suc.prems(1) same_except_bits_same [OF s2]])
  have ui: "unat (word_of_nat (cnt f (256 * i)) :: u32) = cnt f (256 * i)"
    using small [of i] iN by (simp add: unat_of_nat f_def)
  have l1: "il_rlev1 m2 i = cnt f (256 * i)"
  proof -
    have "get32 m1 (10 * i) = word_of_nat (cnt f (256 * i))" unfolding m1_def get32_set32 [OF len] by simp
    then show ?thesis unfolding il_rlev1_def using ui by (subst same_except_get32 [OF m2(2)]) simp_all
  qed
  have f1: "il_rlev1 m2 k = cnt f (256 * k)" if "k < Suc i" for k
    using that l1 Suc.prems(3) [of k] il_lev_same(1) [OF s2, of k] by (cases "k = i") (simp_all add: f_def)
  have f2: "il_rlev2 m2 k j = cnt f (256 * k + 64 * j) - cnt f (256 * k)" if "k < Suc i" "j < 4" for k j
    using that m2(3) Suc.prems(4) [of k j] il_lev_same(2) [OF s2, of k j] by (cases "k = i") (simp_all add: f_def)
  have R: "cnt f (256 * i) + (cnt f (256 * i + 256) - cnt f (256 * i)) = cnt f (256 * Suc i)"
    using cnt_mono [of "256 * i" "256 * i + 256" f] by (simp add: add.commute)
  have dd: "d = N - Suc i" using Suc.hyps(2) by simp
  obtain m' where "il_fill_ranks N (Suc i) (cnt f (256 * Suc i)) m2 = (m', cnt f (256 * N))"
    "bits_same m0 m'"
    "\<forall>k < N. il_rlev1 m' k = cnt f (256 * k)"
    "\<forall>k < N. \<forall>j < 4. il_rlev2 m' k j = cnt f (256 * k + 64 * j) - cnt f (256 * k)"
    using Suc.hyps(1) [OF dd b2 Suc_leI [OF iN] f1 [unfolded f_def] f2 [unfolded f_def]] unfolding f_def by blast
  moreover have "il_fill_ranks N i (cnt f (256 * i)) m = il_fill_ranks N (Suc i) (cnt f (256 * Suc i)) m2"
  proof -
    have "il_fill_ranks N i (cnt f (256 * i)) m = (case il_fill_lev2 i 0 0 m1 of
        (m, r) \<Rightarrow> il_fill_ranks N (Suc i) (cnt f (256 * i) + r) m)"
      using iN by (subst il_fill_ranks.simps) (simp only: Let_def m1_def if_True)
    then show ?thesis unfolding m2(1) prod.case R .
  qed
  ultimately show ?case unfolding f_def by auto
qed

section \<open>The whole build\<close>

lemma mod_256_split: "64 * (p mod 256 div 64) + p mod 64 = p mod (256::nat)"
proof -
  have "p mod 256 mod 64 = p mod 64" by (rule mod_mod_cancel) simp
  then show ?thesis by (metis mult_div_mod_eq)
qed

lemma il_bit_mbit: "il_bit m p = mbit m (64 * (5 * (p div 256) + 1) + p mod 256)"
proof -
  have e: "64 * (5 * (p div 256) + 1) + p mod 256 = 64 * il_word p + p mod 64"
    unfolding il_word_def using mod_256_split [of p] by simp
  show ?thesis unfolding e il_bit_def by (rule mem_bits.f_word [symmetric]) simp
qed

lemma line_pos: "p < 256 * N \<Longrightarrow> 64 * (5 * (p div 256) + 1) + p mod 256 < 320 * N" for p N :: nat
proof -
  assume "p < 256 * N"
  then have "p div 256 < N" by (simp add: div_less_iff_less_mult mult.commute)
  moreover have "64 * (5 * d + 1) + r < 320 * N" if "d < N" "r < 256" for d r :: nat using that by simp
  ultimately show ?thesis by simp
qed

lemma agree_il_bit: "agree m m' (320 * N) \<Longrightarrow> p < 256 * N \<Longrightarrow> il_bit m' p = il_bit m p"
  unfolding il_bit_mbit by (erule agree_mbit) (rule line_pos)

lemma il_cache_ok_agree:
  assumes "agree m m' (320 * (N + 1))" and "il_cache_ok m N"
  shows "il_cache_ok m' N"
proof -
  have l: "il_rlev1 m' k = il_rlev1 m k" "j < 4 \<Longrightarrow> il_rlev2 m' k j = il_rlev2 m k j" if "k \<le> N" for k j
    unfolding il_rlev1_def il_rlev2_def using that
    by (subst agree_get32 [OF assms(1)], simp_all, subst agree_get8 [OF assms(1)], simp_all)
  have "agree m m' (320 * N)" by (rule agree_mono [OF assms(1)]) simp
  then have c: "cnt (il_bit m') p = cnt (il_bit m) p" if "p \<le> 256 * N" for p
    using that by (intro cnt_cong) (simp add: agree_il_bit)
  show ?thesis using assms(2) unfolding il_cache_ok_def by (auto simp: l c)
qed

text \<open>The bits after the last one are cleared in the last line.\<close>

lemma il_tail_clear:
  assumes "length m = 5 * c" and "BitsToLines n \<le> c" and "n mod 256 \<noteq> 0"
  defines "B \<equiv> 64 * (5 * (BitsToLines n - 1) + 1)"
  defines "m' \<equiv> bits_range_set0 m (B + n mod 256) (B + 256)"
  shows "length m' = length m" and "p < 256 * BitsToLines n \<Longrightarrow> il_bit m' p = (il_bit m p \<and> p < n)"
proof -
  define N where "N = BitsToLines n"
  have n2: "256 * N < n + 256" using BitsToLines_bounds(2) [of n] by (simp add: N_def)
  have "n \<noteq> 256 * N" using assms(3) by auto
  then have n: "n < 256 * N" "256 * N < n + 256" using BitsToLines_bounds(1) [of n] n2 by (simp_all add: N_def)
  have N0: "0 < N" using n by simp
  have nd: "n div 256 = N - 1" using n by (intro div_nat_eqI) simp_all
  have ns: "n = 256 * (N - 1) + n mod 256" unfolding nd [symmetric] by simp
  have r: "n mod 256 < 256" by simp
  have b: "mbit m' q = (mbit m q \<and> \<not> (B + n mod 256 \<le> q \<and> q < B + 256))" for q
    unfolding m'_def
  proof (rule mbit_bits_range_set0)
    show "B + n mod 256 \<le> B + 256" using r by simp
    have "N - 1 + 1 \<le> c" using assms(2) N0 by (simp add: N_def)
    then show "B + 256 \<le> 64 * length m" unfolding assms(1) B_def N_def [symmetric] by simp
  qed
  show "length m' = length m" by (simp add: m'_def)
  show "il_bit m' p = (il_bit m p \<and> p < n)" if p: "p < 256 * BitsToLines n"
  proof -
    define d r where "d = p div 256" and "r = p mod 256"
    have pd: "p = 256 * d + r" and r': "r < 256" by (simp_all add: d_def r_def)
    have dN: "d \<le> N - 1" using p unfolding N_def [symmetric] pd by simp
    have "64 * (5 * d + 1) + r < B + n mod 256 \<longleftrightarrow> p < n"
    proof (cases "d = N - 1")
      case True
      obtain t where t: "n mod 256 = t" by simp
      have "p < n \<longleftrightarrow> r < t" using ns True unfolding pd t by linarith
      then show ?thesis using True unfolding B_def N_def [symmetric] t by simp
    next
      case False
      then have d: "d + 1 \<le> N - 1" using dN by simp
      have lin: "64 * (5 * d + 1) + r < 64 * (5 * M + 1) \<and> 256 * d + r < 256 * M" if "d + 1 \<le> M" for M using that r' by simp
      have "64 * (5 * d + 1) + r < B" unfolding B_def N_def [symmetric] using lin [OF d] by blast
      moreover have "p < 256 * (N - 1)" unfolding pd using lin [OF d] by blast
      then have "p < n" by (subst ns) simp
      ultimately show ?thesis by simp
    qed
    moreover have "64 * (5 * d + 1) + r < 64 * (5 * M + 1) + 256" if "d \<le> M" for M using that r' by simp
    then have "64 * (5 * d + 1) + r < B + 256" unfolding B_def N_def [symmetric] using dN by blast
    ultimately show ?thesis unfolding il_bit_mbit d_def [symmetric] r_def [symmetric] b by auto
  qed
qed

lemma regrown_il_bit:
  assumes "vec (il_lines s') = vec (il_lines s)" and "vn (il_lines s') = vn (il_lines s)"
    and "vv_inv (il_lines s)" and "vv_inv (il_lines s')" and "p < 256 * vn (il_lines s)"
  shows "il_bit (il_mem s') p = il_bit (il_mem s) p"
  using il_bit_vec [OF assms(3,5)] il_bit_vec [OF assms(4), of p] assms(1,2,5) by simp

lemma il_build_ranks_ok:
  assumes inv: "vv_inv (il_lines s)" and n: "vn (il_lines s) = BitsToLines (il_size s)" and small: "il_size s < 2 ^ 32"
    and b: "il_build_ranks e s = (s3, R)"
  defines "N \<equiv> BitsToLines (il_size s)"
  shows "vv_inv (il_lines s3)" and "vn (il_lines s3) = N" and "R = cnt (il_bit (il_mem s3)) (il_size s)"
    and "\<And>p. p < 256 * N \<Longrightarrow> il_bit (il_mem s3) p = (il_bit (il_mem s) p \<and> p < il_size s)"
    and "\<And>k. k < N \<Longrightarrow> il_rlev1 (il_mem s3) k = cnt (il_bit (il_mem s3)) (256 * k)"
    and "\<And>k j. k < N \<Longrightarrow> j < 4 \<Longrightarrow> il_rlev2 (il_mem s3) k j = cnt (il_bit (il_mem s3)) (256 * k + 64 * j) - cnt (il_bit (il_mem s3)) (256 * k)"
    and "il_size s3 = il_size s" and "il_sel0 s3 = il_sel0 s" and "il_sel1 s3 = il_sel1 s"
proof -
  define sz where "sz = il_size s"
  define s1 where "s1 = (if sz mod 256 \<noteq> 0 then
      il_upd (\<lambda>m. bits_range_set0 m (64 * (5 * (N - 1) + 1) + sz mod 256) (64 * (5 * (N - 1) + 1) + 256)) s else s)"
  define s2 where "s2 = il_shrink_to_fit e s1"
  have Nb: "sz \<le> 256 * N" "256 * N < sz + 256" using BitsToLines_bounds by (simp_all add: N_def sz_def)
  have Nc: "N \<le> vc (il_lines s)" using inv n by (simp add: vv_inv_def N_def)
  have len: "length (il_mem s) = 5 * vc (il_lines s)" by (rule length_il_mem [OF inv])
  have 1: "vv_inv (il_lines s1) \<and> vn (il_lines s1) = N \<and> il_size s1 = sz \<and> il_sel0 s1 = il_sel0 s \<and> il_sel1 s1 = il_sel1 s
    \<and> (\<forall>p < 256 * N. il_bit (il_mem s1) p = (il_bit (il_mem s) p \<and> p < sz))"
  proof (cases "sz mod 256 = 0")
    case True
    then obtain q where q: "sz = 256 * q" by auto
    with Nb have "256 * N = sz" by simp
    with True inv n show ?thesis by (simp add: s1_def N_def sz_def)
  next
    case False
    note t = il_tail_clear [OF len Nc [unfolded N_def] False [unfolded sz_def], folded N_def, folded sz_def]
    have s1: "s1 = il_upd (\<lambda>m. bits_range_set0 m (64 * (5 * (N - 1) + 1) + sz mod 256) (64 * (5 * (N - 1) + 1) + 256)) s"
      using False by (simp add: s1_def)
    have l: "length (bits_range_set0 (il_mem s) (64 * (5 * (N - 1) + 1) + sz mod 256) (64 * (5 * (N - 1) + 1) + 256)) = length (il_mem s)"
      by simp
    note u = il_upd_ok [OF inv, of "\<lambda>m. bits_range_set0 m (64 * (5 * (N - 1) + 1) + sz mod 256) (64 * (5 * (N - 1) + 1) + 256)", OF l, folded s1]
    show ?thesis using u t(2) n by (simp add: s1 N_def sz_def)
  qed
  have sh: "vv_inv (il_lines s2) \<and> vec (il_lines s2) = vec (il_lines s1)"
    using vv_shrink_ok [of "il_lines s1" e] 1 by (simp add: s2_def il_shrink_to_fit_def)
  then have n2: "vn (il_lines s2) = N" using 1 length_vec by metis
  have b2: "il_bit (il_mem s2) p = (il_bit (il_mem s) p \<and> p < sz)" if "p < 256 * N" for p
    using regrown_il_bit [of s2 s1 p] sh 1 n2 that by simp
  have s2f: "il_size s2 = sz" "il_sel0 s2 = il_sel0 s" "il_sel1 s2 = il_sel1 s" using 1 by (simp_all add: s2_def il_shrink_to_fit_def)
  define m0 where "m0 = il_mem s2"
  have l5: "5 * N \<le> length m0" using sh n2 length_il_mem [of s2] by (simp add: m0_def vv_inv_def)
  have c0: "cnt (il_bit m0) (256 * N) = cnt (il_bit m0) sz" by (rule cnt_pad [OF Nb(1)]) (simp add: m0_def b2)
  have sm: "cnt (il_bit m0) (256 * k) < 2 ^ 32" if "k \<le> N" for k
  proof -
    have "cnt (il_bit m0) (256 * k) \<le> cnt (il_bit m0) (256 * N)" using that by (intro cnt_mono) simp
    also have "\<dots> \<le> sz" unfolding c0 by (rule cnt_le)
    finally show ?thesis using small by (simp add: sz_def)
  qed
  obtain m' where m': "il_fill_ranks N 0 0 m0 = (m', cnt (il_bit m0) (256 * N))" "bits_same m0 m'"
    "\<forall>k < N. il_rlev1 m' k = cnt (il_bit m0) (256 * k)"
    "\<forall>k < N. \<forall>j < 4. il_rlev2 m' k j = cnt (il_bit m0) (256 * k + 64 * j) - cnt (il_bit m0) (256 * k)"
    using il_fill_ranks_ok [OF l5 sm bits_same_refl, of 0] by auto
  have e: "il_build_ranks e s = (il_upd (\<lambda>_. m') s2, cnt (il_bit m0) (256 * N))"
  proof -
    have "il_build_ranks e s = (let s = s1; s = il_shrink_to_fit e s; (m, Rank1) = il_fill_ranks (vn (il_lines s)) 0 0 (il_mem s)
        in (il_upd (\<lambda>_. m) s, Rank1))"
      unfolding il_build_ranks_def s1_def n N_def sz_def Let_def by simp
    then show ?thesis unfolding Let_def s2_def [symmetric] n2 m0_def [symmetric] m'(1) by simp
  qed
  then have s3: "s3 = il_upd (\<lambda>_. m') s2" and R: "R = cnt (il_bit m0) (256 * N)" using b by simp_all
  have lm: "length m' = length (il_mem s2)" using m'(2) by (simp add: bits_same_def m0_def)
  have sh1: "vv_inv (il_lines s2)" using sh by simp
  note u = il_upd_ok [OF sh1, of "\<lambda>_. m'", OF lm, folded s3]
  have c': "cnt (il_bit m') q = cnt (il_bit m0) q" for q by (rule bits_same_cnt [OF m'(2)])
  show "vv_inv (il_lines s3)" "vn (il_lines s3) = N" using u n2 by simp_all
  show "R = cnt (il_bit (il_mem s3)) (il_size s)" using R c0 c' u(1) by (simp add: sz_def)
  show "il_bit (il_mem s3) p = (il_bit (il_mem s) p \<and> p < il_size s)" if "p < 256 * N" for p
    using b2 [OF that] bits_same_bit [OF m'(2), of p] u(1) by (simp add: m0_def sz_def)
  show "il_rlev1 (il_mem s3) k = cnt (il_bit (il_mem s3)) (256 * k)" if "k < N" for k
    using m'(3) that u(1) c' by simp
  show "il_rlev2 (il_mem s3) k j = cnt (il_bit (il_mem s3)) (256 * k + 64 * j) - cnt (il_bit (il_mem s3)) (256 * k)" if "k < N" "j < 4" for k j
    using m'(4) that u(1) c' by simp
  show "il_size s3 = il_size s" "il_sel0 s3 = il_sel0 s" "il_sel1 s3 = il_sel1 s" using s2f by (simp_all add: s3 sz_def)
qed

text \<open>The line past the end holds the total.\<close>

lemma il_total_line:
  assumes "length m = 5 * c" and "N < c" and "R < 2 ^ 32"
  defines "m2 \<equiv> set32 (put_at (5 * N) [0, 0, 0, 0, 0] m) (10 * N) (word_of_nat R)"
  shows "length m2 = length m" and "agree m m2 (320 * N)" and "il_rlev1 m2 N = R" and "j < 4 \<Longrightarrow> il_rlev2 m2 N j = 0"
proof -
  define m1 where "m1 = put_at (5 * N) [0, 0, 0, 0, 0] m"
  have l1: "length m1 = length m" using assms(1,2) by (simp add: m1_def)
  have i: "10 * N div 2 < length m1" using assms(1,2) l1 by simp
  have s: "same_except m1 m2 (320 * N) (320 * N + 32)"
    unfolding m2_def m1_def [symmetric] using same_except_set32 [OF i, of "word_of_nat R"] by simp
  show "length m2 = length m" using l1 by (simp add: m2_def m1_def)
  have "agree m m1 (64 * (5 * N))" by (rule agree_nthI) (use assms(1,2) in \<open>simp add: m1_def put_at_def nth_append\<close>)
  then have "agree m m1 (320 * N)" by simp
  then show "agree m m2 (320 * N)" by (rule agree_trans [OF _ same_except_agree [OF s]])
  have "get32 m2 (10 * N) = word_of_nat R" unfolding m2_def m1_def [symmetric] by (simp add: get32_set32 [OF i])
  then show "il_rlev1 m2 N = R" using assms(3) by (simp add: il_rlev1_def unat_of_nat)
  show "il_rlev2 m2 N j = 0" if "j < 4"
  proof -
    have "m1 ! (5 * N) = 0" using assms(1,2) by (simp add: m1_def put_at_def nth_append)
    then have "get8 m1 (8 * (5 * N) + (4 + j)) = 0" by (rule get8_zero) (use that in simp)
    moreover have "get8 m2 (40 * N + 4 + j) = get8 m1 (40 * N + 4 + j)"
      by (rule same_except_get8 [OF s]) simp
    ultimately show ?thesis by (simp add: il_rlev2_def add.assoc)
  qed
qed

lemma il_slots_room: "2 + u \<le> 10 * ((u + 2 + 10 - 1) div 10)" for u :: nat
  by presburger

lemma il_build_index_eq:
  fixes s :: rank_select_il and s0 s1 :: bool
  defines "N \<equiv> vn (il_lines s)"
  assumes R: "R \<le> il_size s" and sl: "sl0 = (il_size s - R + 256 - 1) div 256" "sl1 = (R + 256 - 1) div 256"
    and ls: "vv_reserve e (N + 1 + ((if s0 then sl0 + 1 else 0) + (if s1 then sl1 + 1 else 0) + 2 + 10 - 1) div 10) (il_lines s) = Inr ls"
    and b: "build_selects 256 256 256 il_rlev1 (vc ls) N (10 * (N + 1)) sl0 sl1 s0 s1
      (set32 (put_at (5 * N) [0, 0, 0, 0, 0] (lines_words (vdata ls))) (10 * N) (word_of_nat R)) = Inr (m5, c0, c1)"
  shows "il_build_index e (of_bool s0) (of_bool s1) s R = Inr (il_upd (\<lambda>_. m5[5 * vc ls - 1 := rs_flags (il_size s) s0 s1])
      (s\<lparr>il_lines := ls, il_sel0 := (if s0 then c0 else il_sel0 s), il_sel1 := (if s1 then c1 else il_sel1 s),
         il_max_rank0 := il_size s - R, il_max_rank1 := R\<rparr>))"
proof -
  have q: "(of_bool b \<noteq> (0::nat)) = b" "256 div (if b then of_bool b else 1) = (256::nat)" for b by (cases b; simp)+
  have ss: "size_sub (il_size s) R = il_size s - R" using R by simp
  show ?thesis
    unfolding il_build_index_def Let_def q ss N_def [symmetric] sl [symmetric] ls sum.case b prod.case by (rule refl)
qed

lemma il_build_index_fail:
  fixes s :: rank_select_il and s0 s1 :: bool
  defines "N \<equiv> vn (il_lines s)"
  assumes R: "R \<le> il_size s"
    and ls: "vv_reserve e (N + 1 + ((if s0 then (il_size s - R + 256 - 1) div 256 + 1 else 0)
       + (if s1 then (R + 256 - 1) div 256 + 1 else 0) + 2 + 10 - 1) div 10) (il_lines s) = Inl err"
  shows "il_build_index e (of_bool s0) (of_bool s1) s R = Inl err"
proof -
  have q: "(of_bool b \<noteq> (0::nat)) = b" "256 div (if b then of_bool b else 1) = (256::nat)" for b by (cases b; simp)+
  have ss: "size_sub (il_size s) R = il_size s - R" using R by simp
  show ?thesis unfolding il_build_index_def Let_def q ss N_def [symmetric] ls sum.case by (rule refl)
qed

lemma il_build_index_ok:
  fixes s :: rank_select_il and s0 s1 :: bool
  defines "sz \<equiv> il_size s" and "N \<equiv> BitsToLines (il_size s)"
  assumes inv: "vv_inv (il_lines s)" and n: "vn (il_lines s) = N" and small: "sz < 2 ^ 32"
    and R: "R = cnt (il_bit (il_mem s)) sz" and pad: "\<And>p. sz \<le> p \<Longrightarrow> p < 256 * N \<Longrightarrow> \<not> il_bit (il_mem s) p"
    and l1: "\<And>k. k < N \<Longrightarrow> il_rlev1 (il_mem s) k = cnt (il_bit (il_mem s)) (256 * k)"
    and l2: "\<And>k j. k < N \<Longrightarrow> j < 4 \<Longrightarrow> il_rlev2 (il_mem s) k j = cnt (il_bit (il_mem s)) (256 * k + 64 * j) - cnt (il_bit (il_mem s)) (256 * k)"
    and none: "il_sel0 s = None" "il_sel1 s = None"
    and ls: "vv_reserve e (N + 1 + ((if s0 then (sz - R + 256 - 1) div 256 + 1 else 0)
       + (if s1 then (R + 256 - 1) div 256 + 1 else 0) + 2 + 10 - 1) div 10) (il_lines s) = Inr ls"
  defines "c1 \<equiv> 10 * (N + 1) + (if s0 then (sz - R + 256 - 1) div 256 + 1 else 0)"
  shows "\<exists>s'. il_build_index e (of_bool s0) (of_bool s1) s R = Inr s' \<and> il_inv s' \<and> il_size s' = sz
    \<and> (\<forall>p < sz. il_bit (il_mem s') p = il_bit (il_mem s) p)
    \<and> last (il_mem s') = rs_flags sz s0 s1
    \<and> il_sel0 s' = (if s0 then Some (10 * (N + 1)) else None) \<and> il_sel1 s' = (if s1 then Some c1 else None)"
proof -
  define u where "u = (if s0 then (sz - R + 256 - 1) div 256 + 1 else 0) + (if s1 then (R + 256 - 1) div 256 + 1 else 0)"
  define m0 where "m0 = il_mem s"
  define mL where "mL = lines_words (vdata ls)"
  define m2 where "m2 = set32 (put_at (5 * N) [0, 0, 0, 0, 0] mL) (10 * N) (word_of_nat R)"
  have Nb: "sz \<le> 256 * N" "256 * N < sz + 256" using BitsToLines_bounds by (simp_all add: N_def sz_def)
  have R1: "R \<le> sz" unfolding R by (rule cnt_le)
  have Rs: "R \<le> sz" "R < 2 ^ 32" by (rule R1, rule le_less_trans [OF R1 small])
  have rg: "regrown (il_lines s) ls (N + 1 + (u + 2 + 10 - 1) div 10)" using vv_reserve_ok [OF inv] ls by (simp add: u_def)
  have lL: "length mL = 5 * vc ls" using rg by (simp add: mL_def regrown_def vv_inv_def)
  have Nc: "N < vc ls" "10 * (N + 1) + u + 2 \<le> 10 * vc ls" using rg il_slots_room [of u] by (simp_all add: regrown_def)
  note t = il_total_line [OF lL Nc(1) Rs(2), folded m2_def]
  have aL: "agree m0 mL (320 * N)"
  proof -
    have "mL ! w = m0 ! w" if "w < 5 * N" for w
    proof -
      have "lines_words (vec ls) ! w = lines_words (vec (il_lines s)) ! w" using rg by (simp add: regrown_def)
      with that rg n show ?thesis by (simp add: mL_def m0_def il_mem_def vec_def lines_words_take regrown_def)
    qed
    then have "agree m0 mL (64 * (5 * N))" by (rule agree_nthI)
    then show ?thesis by simp
  qed
  have a2: "agree m0 m2 (320 * N)" by (rule agree_trans [OF aL t(2)])
  have bit2: "il_bit m2 p = il_bit m0 p" if "p < 256 * N" for p by (rule agree_il_bit [OF a2 that])
  have cnt2: "cnt (il_bit m2) q = cnt (il_bit m0) q" if "q \<le> 256 * N" for q using that by (intro cnt_cong) (simp add: bit2)
  have topN: "cnt (il_bit m0) (256 * N) = R" unfolding R m0_def by (rule cnt_pad [OF Nb(1)]) (use pad in blast)
  have lev: "il_rlev1 m2 k = il_rlev1 m0 k" "j < 4 \<Longrightarrow> il_rlev2 m2 k j = il_rlev2 m0 k j" if "k < N" for k j
    unfolding il_rlev1_def il_rlev2_def using that
    by (subst agree_get32 [OF a2], simp_all, subst agree_get8 [OF a2], simp_all)
  have ok2: "il_cache_ok m2 N"
    unfolding il_cache_ok_def
  proof (intro conjI allI impI)
    fix k assume "k \<le> N"
    then show "il_rlev1 m2 k = cnt (il_bit m2) (256 * k)"
      using t(3) topN l1 [of k] by (cases "k = N") (simp_all add: cnt2 lev m0_def)
  next
    fix k j :: nat assume "k < N" "j < 4"
    then show "il_rlev2 m2 k j = cnt (il_bit m2) (256 * k + 64 * j) - cnt (il_bit m2) (256 * k)"
      using l2 [of k j] by (simp add: cnt2 lev m0_def)
  qed (rule t(4))
  define sl0 sl1 where "sl0 = (sz - R + 256 - 1) div 256" and "sl1 = (R + 256 - 1) div 256"
  have "u = (if s0 then sl0 + 1 else 0) + (if s1 then sl1 + 1 else 0)" by (simp only: u_def sl0_def sl1_def)
  then have room: "10 * (N + 1) + (if s0 then sl0 + 1 else 0) + (if s1 then sl1 + 1 else 0) + 2 \<le> 2 * length m2"
    using Nc(2) t(1) lL by simp
  have frame: "il_rlev1 m' k = il_rlev1 m2 k" if "agree m2 m' (32 * (10 * (N + 1)))" "k \<le> N" for m' k
    unfolding il_rlev1_def using that(2) by (subst agree_get32 [OF that(1)]) simp_all
  have nl: "N < vc ls" "N < 2 ^ 32" using Nc Nb small by simp_all
  have top0: "256 * j \<le> 256 * N - il_rlev1 m2 N" if "j < sl0" for j
    using slots_top [OF that [unfolded sl0_def]] Nb(1) Rs(1) unfolding t(3) by simp
  have top1: "256 * j \<le> il_rlev1 m2 N" if "j < sl1" for j
    using slots_top [OF that [unfolded sl1_def]] unfolding t(3) by simp
  obtain m5 m6 where b: "build_selects 256 256 256 il_rlev1 (vc ls) N (10 * (N + 1)) sl0 sl1 s0 s1 m2
      = Inr (m5, if s0 then Some (10 * (N + 1)) else None, if s1 then Some c1 else None)"
    and m6: "m6 = m5[length m2 - 1 := rs_flags sz s0 s1]" "length m6 = length m2" "agree m2 m6 (32 * (10 * (N + 1)))"
      "m6 ! (length m2 - 1) = rs_flags sz s0 s1"
    and ok: "s0 \<longrightarrow> sel_cache_ok (\<lambda>k. 256 * k - il_rlev1 m6 k) 256 N sl0 (\<lambda>j. unat (get32 m6 (10 * (N + 1) + j)))"
      "s1 \<longrightarrow> sel_cache_ok (il_rlev1 m6) 256 N sl1 (\<lambda>j. unat (get32 m6 (c1 + j)))"
    using build_selects_flags [where v = il_rlev1 and m = m2 and fl = "rs_flags sz s0 s1", OF room frame nl top0 top1]
    unfolding c1_def sl0_def by blast
  define s4 where "s4 = s\<lparr>il_lines := ls, il_sel0 := (if s0 then Some (10 * (N + 1)) else None),
    il_sel1 := (if s1 then Some c1 else None), il_max_rank0 := sz - R, il_max_rank1 := R\<rparr>"
  define s' where "s' = il_upd (\<lambda>_. m6) s4"
  have e: "il_build_index e (of_bool s0) (of_bool s1) s R = Inr s'"
  proof -
    have ln: "5 * vc ls - 1 = length m2 - 1" using t(1) lL by simp
    have upd: "m5[5 * vc ls - 1 := rs_flags (il_size s) s0 s1] = m6" by (simp only: ln m6(1) sz_def)
    note eq = il_build_index_eq [of R s sl0 sl1 e s0 s1 ls m5, unfolded n, OF R1 [unfolded sz_def] sl0_def [unfolded sz_def] sl1_def
        ls [folded sl0_def sl1_def] b [unfolded m2_def mL_def], unfolded upd]
    show ?thesis unfolding eq s'_def s4_def sz_def using none by simp
  qed
  have i4: "vv_inv (il_lines s4)" using rg by (simp add: s4_def regrown_def)
  have lm: "length m6 = length (il_mem s4)" using m6(2) t(1) by (simp add: s4_def il_mem_def mL_def)
  note u = il_upd_ok [OF i4, of "\<lambda>_. m6", OF lm, folded s'_def]
  have a6: "agree m2 m6 (320 * (N + 1))" using m6(3) by simp
  have bits6: "il_bit m6 p = il_bit m0 p" if "p < 256 * N" for p
    using agree_il_bit [OF agree_mono [OF a6], of N p] bit2 that by simp
  have c6: "cnt (il_bit m6) sz = R" unfolding R using Nb(1) by (intro cnt_cong) (simp add: bits6 m0_def)
  have n': "vn (il_lines s') = N" "vc (il_lines s') = vc ls" using u rg n by (simp_all add: s4_def regrown_def)
  have f: "il_size s' = sz" "il_sel0 s' = (if s0 then Some (10 * (N + 1)) else None)" "il_sel1 s' = (if s1 then Some c1 else None)"
    "il_max_rank0 s' = sz - R" "il_max_rank1 s' = R" by (simp_all add: s'_def s4_def il_upd_def sz_def)
  have Ns: "BitsToLines sz = N" by (simp only: N_def sz_def)
  have pad6: "\<not> il_bit m6 p" if "sz \<le> p" "p < 256 * N" for p using pad [OF that] bits6 [OF that(2)] by (simp add: m0_def)
  have sel0: "sel_cache_ok (\<lambda>k. 256 * k - il_rlev1 m6 k) 256 N ((sz - R + 256 - 1) div 256) (\<lambda>j. unat (get32 m6 (c + j)))"
    if "il_sel0 s' = Some c" for c using that ok(1) unfolding f(2) sl0_def by (cases s0) simp_all
  have sel1: "sel_cache_ok (il_rlev1 m6) 256 N ((R + 256 - 1) div 256) (\<lambda>j. unat (get32 m6 (c + j)))"
    if "il_sel1 s' = Some c" for c using that ok(2) unfolding f(3) sl1_def by (cases s1) simp_all
  have "il_inv s'"
    unfolding il_inv_def Let_def u(1) f(1,4,5) Ns c6 n'(2)
    using u(2) n'(1) small Nc(1) pad6 il_cache_ok_agree [OF a6 ok2] sel0 sel1 by blast
  moreover have "last (il_mem s') = rs_flags sz s0 s1"
    unfolding u(1) using m6(2,4) room by (subst last_conv_nth) auto
  moreover have "il_bit (il_mem s') p = il_bit (il_mem s) p" if "p < sz" for p using bits6 [of p] that Nb(1) u(1) by (simp add: m0_def)
  ultimately show ?thesis using e f(1,2,3) by blast
qed

lemma il_build_cache_ok:
  assumes inv: "vv_inv (il_lines s)" and n: "vn (il_lines s) = BitsToLines (il_size s)"
    and none: "il_sel0 s = None" "il_sel1 s = None" and b: "il_build_cache e s0 s1 s = Inr s'"
  shows "il_inv s'" and "il_size s' = il_size s" and "\<And>p. p < il_size s \<Longrightarrow> il_bit (il_mem s') p = il_bit (il_mem s) p"
    and "last (il_mem s') = rs_flags (il_size s) s0 s1"
    and "il_sel0 s' = (if s0 then Some (10 * (BitsToLines (il_size s) + 1)) else None)"
    and "il_sel1 s' = (if s1 then Some (10 * (BitsToLines (il_size s) + 1)
      + (if s0 then (il_max_rank0 s' + 256 - 1) div 256 + 1 else 0)) else None)"
proof -
  have small: "il_size s < 2 ^ 32"
    using b by (auto simp: il_build_cache_def il_build_cache_q_def rank_select_check_overflow_def split: if_splits)
  obtain s3 R where r: "il_build_ranks e s = (s3, R)" by (cases "il_build_ranks e s")
  have x: "il_build_index e (of_bool s0) (of_bool s1) s3 R = Inr s'"
    using b small r by (simp add: il_build_cache_def il_build_cache_q_def rank_select_check_overflow_def)
  note k = il_build_ranks_ok [OF inv n small r]
  define N where "N = BitsToLines (il_size s)"
  have Nb: "il_size s \<le> 256 * N" using BitsToLines_bounds by (simp add: N_def)
  have Rs: "R \<le> il_size s" unfolding k(3) by (rule cnt_le)
  have n3: "vn (il_lines s3) = BitsToLines (il_size s3)" using k(2,7) by (simp add: N_def)
  obtain ls where ls: "vv_reserve e (BitsToLines (il_size s3) + 1 + ((if s0 then (il_size s3 - R + 256 - 1) div 256 + 1 else 0)
       + (if s1 then (R + 256 - 1) div 256 + 1 else 0) + 2 + 10 - 1) div 10) (il_lines s3) = Inr ls"
    (is "?r = _") proof (cases ?r)
    case (Inl err)
    have "il_build_index e (of_bool s0) (of_bool s1) s3 R = Inl err"
      by (rule il_build_index_fail) (use Rs k(7) Inl in \<open>simp_all only: n3\<close>)
    with x show ?thesis by simp
  qed
  note k' = k(3-6) [folded k(7)]
  have pad: "\<not> il_bit (il_mem s3) p" if "il_size s3 \<le> p" "p < 256 * BitsToLines (il_size s3)" for p
    using that k'(2) by simp
  note i = il_build_index_ok [OF k(1) n3 small [folded k(7)] k'(1) pad k'(3,4) none [folded k(8,9)] ls, unfolded k(7)]
  from i x have i': "il_inv s'" "il_size s' = il_size s" "\<forall>p < il_size s. il_bit (il_mem s') p = il_bit (il_mem s3) p"
      "last (il_mem s') = rs_flags (il_size s) s0 s1" "il_sel0 s' = (if s0 then Some (10 * (N + 1)) else None)"
      "il_sel1 s' = (if s1 then Some (10 * (N + 1) + (if s0 then (il_size s - R + 256 - 1) div 256 + 1 else 0)) else None)"
    by (auto simp: N_def)
  have bits: "il_bit (il_mem s') p = il_bit (il_mem s) p" if "p < il_size s" for p using i'(3) k(4) [of p] that Nb by (simp add: N_def)
  have "il_max_rank0 s' = il_size s - R"
  proof -
    have "il_max_rank1 s' = cnt (il_bit (il_mem s')) (il_size s)" using i'(1,2) by (simp add: il_inv_def Let_def)
    also have "\<dots> = R" unfolding k(3) using i'(3) by (intro cnt_cong) simp
    finally show ?thesis using i'(1,2) by (simp add: il_inv_def Let_def)
  qed
  with i' bits show "il_inv s'" "il_size s' = il_size s" "\<And>p. p < il_size s \<Longrightarrow> il_bit (il_mem s') p = il_bit (il_mem s) p"
    "last (il_mem s') = rs_flags (il_size s) s0 s1"
    "il_sel0 s' = (if s0 then Some (10 * (BitsToLines (il_size s) + 1)) else None)"
    "il_sel1 s' = (if s1 then Some (10 * (BitsToLines (il_size s) + 1)
      + (if s0 then (il_max_rank0 s' + 256 - 1) div 256 + 1 else 0)) else None)"
    by (simp_all add: N_def)
qed

section \<open>Rank and select\<close>

lemma il_invD:
  assumes "il_inv s"
  defines "N \<equiv> BitsToLines (il_size s)" and "m \<equiv> il_mem s"
  shows "vv_inv (il_lines s)" and "il_size s < 2 ^ 32" and "vn (il_lines s) = N" and "N < vc (il_lines s)"
    and "\<And>p. il_size s \<le> p \<Longrightarrow> p < 256 * N \<Longrightarrow> \<not> il_bit m p"
    and "il_cache_ok m N"
    and "il_max_rank1 s = cnt (il_bit m) (il_size s)" and "il_max_rank0 s = il_size s - il_max_rank1 s"
    and "\<And>c. il_sel0 s = Some c \<Longrightarrow>
      sel_cache_ok (\<lambda>k. 256 * k - il_rlev1 m k) 256 N ((il_max_rank0 s + 256 - 1) div 256) (\<lambda>j. unat (get32 m (c + j)))"
    and "\<And>c. il_sel1 s = Some c \<Longrightarrow>
      sel_cache_ok (il_rlev1 m) 256 N ((il_max_rank1 s + 256 - 1) div 256) (\<lambda>j. unat (get32 m (c + j)))"
  using assms(1) unfolding il_inv_def Let_def N_def m_def by blast+

lemmas il_size_lines = BitsToLines_bounds(1) [of "il_size s" for s]

lemma il_line_rank: "il_inv s \<Longrightarrow> k \<le> BitsToLines (il_size s) \<Longrightarrow> il_rlev1 (il_mem s) k = cnt (il_bit (il_mem s)) (256 * k)"
  using il_invD(6) [of s] by (simp add: il_cache_ok_def)

lemma il_lev2_cnt:
  assumes "il_inv s" and "k < BitsToLines (il_size s)" and "j < 4"
  shows "il_rlev2 (il_mem s) k j = cnt (il_bit (il_mem s)) (256 * k + 64 * j) - cnt (il_bit (il_mem s)) (256 * k)"
  using il_invD(6) [OF assms(1)] assms(2,3) by (simp add: il_cache_ok_def)

interpretation il1: rank_lines il_inv "\<lambda>s. il_bit (il_mem s)" 256 "\<lambda>s. BitsToLines (il_size s)" "\<lambda>s. il_rlev1 (il_mem s)"
  by unfold_locales (rule il_line_rank)

interpretation il0: rank_lines il_inv "\<lambda>s p. \<not> il_bit (il_mem s) p" 256 "\<lambda>s. BitsToLines (il_size s)"
  "\<lambda>s k. 256 * k - il_rlev1 (il_mem s) k"
  by (rule il1.compl_lines)

lemma il_rank1_cnt:
  assumes "il_inv s" and "p \<le> il_size s"
  shows "il_rank1 s p = cnt (il_bit (il_mem s)) p"
proof -
  define m where "m = il_mem s"
  define k where "k = p div 256"
  define j where "j = p div 64 mod 4"
  have j: "j < 4" by (simp add: j_def)
  define N where "N = BitsToLines (il_size s)"
  have pN: "p \<le> 256 * N" unfolding N_def by (rule le_trans [OF assms(2) il_size_lines])
  have kN: "k \<le> N" using div_le_mono [OF pN, of 256] by (simp add: k_def)
  have pos: "256 * k + 64 * j = 64 * (p div 64)" unfolding k_def j_def by (rule pos256)
  have rk: "il_rlev1 m k = cnt (il_bit m) (256 * k)" using il_line_rank [OF assms(1)] kN by (simp add: m_def N_def)
  have lev: "il_rlev1 m k + il_rlev2 m k j = cnt (il_bit m) (64 * (p div 64))"
  proof (cases "k < N")
    case True
    have "cnt (il_bit m) (256 * k) \<le> cnt (il_bit m) (256 * k + 64 * j)" by (rule cnt_mono) simp
    then show ?thesis using rk il_lev2_cnt [OF assms(1) True [unfolded N_def] j] by (simp add: m_def pos)
  next
    case False
    then have k: "k = N" using kN by simp
    then have p: "p = 256 * k" using pN mult_div_mod_eq [of 256 p] unfolding k_def by linarith
    then have "64 * (p div 64) = 256 * k" using pos j pN times_div_less_eq_dividend [of 64 p] by linarith
    moreover have "il_rlev2 m k j = 0" using il_invD(6) [OF assms(1)] j k by (simp add: il_cache_ok_def m_def N_def)
    ultimately show ?thesis using rk by simp
  qed
  have w: "il_bit64 m k j = m ! (5 * (p div 64 div 4) + 1 + p div 64 mod 4)"
    by (simp add: il_bit64_def k_def j_def div_mult2_eq [symmetric])
  have "il_rank1 s p = il_rlev1 m k + il_rlev2 m k j + fast_popcount_trail (il_bit64 m k j) (p mod 64)"
    by (simp add: il_rank1_def Let_def m_def k_def j_def mod_div_64)
  then show ?thesis unfolding lev w m_def [symmetric] by (simp only: ilb.cnt_pos [of m p])
qed

lemma il_fast_rank1_eq: "il_fast_rank1 (il_mem s) p = il_rank1 s p" "il_fast_rank0 (il_mem s) p = il_rank0 s p"
  by (simp_all add: il_fast_rank1_def il_rank1_def il_fast_rank0_def il_rank0_def Let_def)

lemma line4_select1_cong: "(\<And>j. j < 4 \<Longrightarrow> W j = W' j) \<Longrightarrow> line4_select1 lev2 W r hit index = line4_select1 lev2 W' r hit index"
  by (simp add: line4_select1_def)

lemma il_line_select1:
  assumes "il_inv s" and "0 < k" and "k \<le> BitsToLines (il_size s)" and "il_rlev1 (il_mem s) (k - 1) \<le> r" and "r < il_rlev1 (il_mem s) k"
    and "r < cnt (il_bit (il_mem s)) (il_size s)"
  shows "line4_select1 (il_rlev2 (il_mem s) (k - 1)) (il_bit64 (il_mem s) (k - 1)) r (il_rlev1 (il_mem s) (k - 1)) ((k - 1) * 256)
    = sel (il_bit (il_mem s)) (il_size s) r"
proof -
  note lf = il1.line_found [OF assms(1-5)]
  have e: "(k - 1) * 256 = 64 * (4 * (k - 1))" "\<And>j. 64 * (4 * (k - 1) + j) = 256 * (k - 1) + 64 * j" by simp_all
  have k: "k - 1 < BitsToLines (il_size s)" using assms(2,3) by simp
  have "line4_select1 (il_rlev2 (il_mem s) (k - 1)) (\<lambda>j. il_mem s ! (5 * ((4 * (k - 1) + j) div 4) + 1 + (4 * (k - 1) + j) mod 4)) r
      (il_rlev1 (il_mem s) (k - 1)) (64 * (4 * (k - 1))) = sel (il_bit (il_mem s)) (il_size s) r"
    using lf assms(6) il_lev2_cnt [OF assms(1) k] by (intro ilb.line4_select1_sel) (simp_all add: e(2))
  moreover have "il_bit64 (il_mem s) (k - 1) j = il_mem s ! (5 * ((4 * (k - 1) + j) div 4) + 1 + (4 * (k - 1) + j) mod 4)"
    if "j < 4" for j by (rule il_bit64_W [OF that, symmetric])
  ultimately show ?thesis unfolding e(1) by (subst line4_select1_cong)
qed

lemma il_line_select0:
  assumes "il_inv s" and "0 < k" and "k \<le> BitsToLines (il_size s)" and "256 * (k - 1) - il_rlev1 (il_mem s) (k - 1) \<le> r"
    and "r < 256 * k - il_rlev1 (il_mem s) k" and "r < cnt (\<lambda>p. \<not> il_bit (il_mem s) p) (il_size s)"
  shows "line4_select0 (il_rlev2 (il_mem s) (k - 1)) (il_bit64 (il_mem s) (k - 1)) r
    (256 * (k - 1) - il_rlev1 (il_mem s) (k - 1)) ((k - 1) * 256) = sel (\<lambda>p. \<not> il_bit (il_mem s) p) (il_size s) r"
proof -
  define m where "m = il_mem s"
  note lf = il0.line_found [OF assms(1-5), folded m_def]
  have e: "(k - 1) * 256 = 64 * (4 * (k - 1))" "\<And>j. 64 * (4 * (k - 1) + j) = 256 * (k - 1) + 64 * j" by simp_all
  have k: "k - 1 < BitsToLines (il_size s)" using assms(2,3) by simp
  note lev = il_lev2_cnt [OF assms(1) k, folded m_def]
  have le: "il_rlev2 m (k - 1) j \<le> 64 * j" if "j < 4" for j
    unfolding lev [OF that] using that by (intro cnt_sub_line) simp
  have zero: "64 * j - il_rlev2 m (k - 1) j
      = cnt (\<lambda>p. \<not> il_bit m p) (256 * (k - 1) + 64 * j) - cnt (\<lambda>p. \<not> il_bit m p) (256 * (k - 1))" if "j < 4" for j
    unfolding lev [OF that] cnt_Not using that by (intro sub_compl cnt_le cnt_mono cnt_sub_line) simp_all
  have "line4_select1 (\<lambda>j. 64 * j - il_rlev2 m (k - 1) j)
      (\<lambda>j. NOT (m ! (5 * ((4 * (k - 1) + j) div 4) + 1 + (4 * (k - 1) + j) mod 4))) r
      (256 * (k - 1) - il_rlev1 m (k - 1)) (64 * (4 * (k - 1))) = sel (\<lambda>p. \<not> il_bit m p) (il_size s) r"
    using lf assms(6) zero by (intro ilb0.line4_select1_sel) (simp_all add: m_def e(2))
  moreover have "NOT (il_bit64 m (k - 1) j) = NOT (m ! (5 * ((4 * (k - 1) + j) div 4) + 1 + (4 * (k - 1) + j) mod 4))"
    if "j < 4" for j by (simp only: il_bit64_W [OF that])
  ultimately have "line4_select1 (\<lambda>j. 64 * j - il_rlev2 m (k - 1) j) (\<lambda>j. NOT (il_bit64 m (k - 1) j)) r
      (256 * (k - 1) - il_rlev1 m (k - 1)) (64 * (4 * (k - 1))) = sel (\<lambda>p. \<not> il_bit m p) (il_size s) r"
    by (subst line4_select1_cong)
  with line4_select0_compl [where ?lev2.0 = "il_rlev2 m (k - 1)", OF le]
  show ?thesis unfolding e(1) m_def [symmetric] by (rule trans)
qed

lemma il_select1_sel:
  assumes "il_inv s" and "r < il_max_rank1 s"
  shows "il_select1 s r = sel (il_bit (il_mem s)) (il_size s) r"
proof -
  have r: "r < cnt (il_bit (il_mem s)) (il_size s)" using assms(2) by (simp add: il_invD(7) [OF assms(1)])
  note top = il1.top_rank [OF assms(1) r il_size_lines]
  have slots: "r < 256 * ((il_max_rank1 s + 256 - 1) div 256)" using assms(2) by (intro ceil_div_bound) simp_all
  show ?thesis
  proof (cases "il_sel1 s")
    case None
    then show ?thesis
      using il_line_select1 [OF assms(1) il1.global_ub [OF assms(1) top order_refl] r] il_invD(3) [OF assms(1)]
      by (simp add: il_select1_def il_select1_q_def Let_def)
  next
    case (Some c)
    note k = il1.cached_ub [OF assms(1) il_invD(10) [OF assms(1) Some] _ slots top]
    from Some show ?thesis
      using il_line_select1 [OF assms(1) k r] by (simp add: il_select1_def il_select1_q_def Let_def)
  qed
qed

lemma il_select0_sel:
  assumes "il_inv s" and "r < il_max_rank0 s"
  shows "il_select0 s r = sel (\<lambda>p. \<not> il_bit (il_mem s) p) (il_size s) r"
proof -
  have r: "r < cnt (\<lambda>p. \<not> il_bit (il_mem s) p) (il_size s)"
    using assms(2) unfolding il_invD(7,8) [OF assms(1)] by (simp add: cnt_Not)
  note top = il0.top_rank [OF assms(1) r il_size_lines]
  have slots: "r < 256 * ((il_max_rank0 s + 256 - 1) div 256)" using assms(2) by (intro ceil_div_bound) simp_all
  show ?thesis
  proof (cases "il_sel0 s")
    case None
    then show ?thesis
      using il_line_select0 [OF assms(1) il0.global_ub [OF assms(1) top order_refl] r] il_invD(3) [OF assms(1)]
      by (simp add: il_select0_def il_select0_q_def Let_def)
  next
    case (Some c)
    note k = il0.cached_ub [OF assms(1) il_invD(9) [OF assms(1) Some] _ slots top]
    from Some show ?thesis
      using il_line_select0 [OF assms(1) k r] by (simp add: il_select0_def il_select0_q_def Let_def)
  qed
qed

lemma il_is1_fun: "il_is1 s = il_bit (il_mem s)"
  by (rule ext) (rule il_is1_bit)

interpretation il: rank_select il_inv il_size il_is1 il_rank0 il_rank1 il_max_rank0 il_max_rank1 il_select0 il_select1
  by unfold_locales
    (simp_all add: il_is1_fun il_rank1_cnt il_rank0_def il_invD(7,8) cnt_Not il_select1_sel il_select0_sel)

lemma il_mem_lines: "vv_inv (il_lines s) \<Longrightarrow> length (il_mem s) div 5 = vc (il_lines s)"
  by (simp add: length_il_mem)

lemma il_fast_select1_sel:
  assumes "il_inv s" and "r < il_max_rank1 s" and "il_sel1 s = Some c"
  shows "il_fast_select1 (il_mem s) c r = Some (il_select1 s r)"
proof -
  define m where "m = il_mem s"
  have r: "r < cnt (il_bit (il_mem s)) (il_size s)" using assms(2) by (simp add: il_invD(7) [OF assms(1)])
  note top = il1.top_rank [OF assms(1) r il_size_lines]
  have slots: "r < 256 * ((il_max_rank1 s + 256 - 1) div 256)" using assms(2) by (intro ceil_div_bound) simp_all
  have lim: "BitsToLines (il_size s) < length m div 5" using il_invD(4) [OF assms(1)] il_mem_lines [OF il_invD(1) [OF assms(1)]] by (simp add: m_def)
  note sc = il_invD(10) [OF assms(1,3)]
  define lo hi where "lo = unat (get32 m (c + r div 256))" and "hi = unat (get32 m (c + (r div 256 + 1)))"
  have "\<exists>k. (if size_sub hi lo < 32 then scan_while (\<lambda>k. il_rlev1 m k \<le> r) lo (length m div 5)
      else Some (ub_loop (il_rlev1 m) r lo hi)) = Some k
    \<and> 0 < k \<and> k \<le> BitsToLines (il_size s) \<and> il_rlev1 m (k - 1) \<le> r \<and> r < il_rlev1 m k"
    using il1.cached_scan [OF assms(1) sc _ slots top lim] il1.cached_ub [OF assms(1) sc _ slots top]
    by (simp add: lo_def hi_def m_def)
  then obtain k where k: "(if size_sub hi lo < 32 then scan_while (\<lambda>k. il_rlev1 m k \<le> r) lo (length m div 5)
      else Some (ub_loop (il_rlev1 m) r lo hi)) = Some k"
    "0 < k" "k \<le> BitsToLines (il_size s)" "il_rlev1 m (k - 1) \<le> r" "r < il_rlev1 m k" by blast
  have d: "256 div 1 = (256::nat)" "32 div 1 = (32::nat)" by simp_all
  show ?thesis
    unfolding il_fast_select1_def il_fast_select1_q_def Let_def m_def [symmetric] d lo_def [symmetric] hi_def [symmetric] k(1)
    using il_line_select1 [OF assms(1) k(2-5) [unfolded m_def] r] il_select1_sel [OF assms(1,2)] by (simp add: m_def)
qed

lemma il_fast_select0_sel:
  assumes "il_inv s" and "r < il_max_rank0 s" and "il_sel0 s = Some c"
  shows "il_fast_select0 (il_mem s) c r = Some (il_select0 s r)"
proof -
  define m where "m = il_mem s"
  have r: "r < cnt (\<lambda>p. \<not> il_bit (il_mem s) p) (il_size s)"
    using assms(2) unfolding il_invD(7,8) [OF assms(1)] by (simp add: cnt_Not)
  note top = il0.top_rank [OF assms(1) r il_size_lines]
  have slots: "r < 256 * ((il_max_rank0 s + 256 - 1) div 256)" using assms(2) by (intro ceil_div_bound) simp_all
  have lim: "BitsToLines (il_size s) < length m div 5" using il_invD(4) [OF assms(1)] il_mem_lines [OF il_invD(1) [OF assms(1)]] by (simp add: m_def)
  note sc = il_invD(9) [OF assms(1,3)]
  define lo hi where "lo = unat (get32 m (c + r div 256))" and "hi = unat (get32 m (c + (r div 256 + 1)))"
  have "\<exists>k. (if size_sub hi lo < 32 then scan_while (\<lambda>k. 256 * k - il_rlev1 m k \<le> r) lo (length m div 5)
      else Some (ub_loop (\<lambda>k. 256 * k - il_rlev1 m k) r lo hi)) = Some k
    \<and> 0 < k \<and> k \<le> BitsToLines (il_size s) \<and> 256 * (k - 1) - il_rlev1 m (k - 1) \<le> r \<and> r < 256 * k - il_rlev1 m k"
    using il0.cached_scan [OF assms(1) sc _ slots top lim] il0.cached_ub [OF assms(1) sc _ slots top]
    by (simp add: lo_def hi_def m_def)
  then obtain k where k: "(if size_sub hi lo < 32 then scan_while (\<lambda>k. 256 * k - il_rlev1 m k \<le> r) lo (length m div 5)
      else Some (ub_loop (\<lambda>k. 256 * k - il_rlev1 m k) r lo hi)) = Some k"
    "0 < k" "k \<le> BitsToLines (il_size s)" "256 * (k - 1) - il_rlev1 m (k - 1) \<le> r" "r < 256 * k - il_rlev1 m k" by blast
  have d: "256 div 1 = (256::nat)" "32 div 1 = (32::nat)" by simp_all
  show ?thesis
    unfolding il_fast_select0_def il_fast_select0_q_def Let_def m_def [symmetric] d lo_def [symmetric] hi_def [symmetric] k(1)
    using il_line_select0 [OF assms(1) k(2-5) [unfolded m_def] r] il_select0_sel [OF assms(1,2)] by (simp add: m_def)
qed

lemma il_popcnt_cnt:
  assumes "il_inv s"
  shows "il_popcnt s = cnt (il_is1 s) (il_size s)"
    and "256 * (a + n) \<le> il_size s \<Longrightarrow> il_popcnt_lines s a n = il_rank1 s (256 * (a + n)) - il_rank1 s (256 * a)"
proof -
  have pad: "cnt (il_bit (il_mem s)) (256 * BitsToLines (il_size s)) = cnt (il_bit (il_mem s)) (il_size s)"
    by (rule cnt_pad [OF il_size_lines]) (use il_invD(5) [OF assms] in blast)
  show "il_popcnt s = cnt (il_is1 s) (il_size s)"
    using il_line_rank [OF assms, of 0] il_line_rank [OF assms order_refl] pad
    by (simp add: il_popcnt_def il_popcnt_lines_def il_invD(3) [OF assms] il_is1_fun)
  assume le: "256 * (a + n) \<le> il_size s"
  define b where "b = a + n"
  have b: "a \<le> b" "256 * b \<le> il_size s" using le by (simp_all add: b_def)
  have bN: "b \<le> BitsToLines (il_size s)" using le_trans [OF b(2) il_size_lines] by simp
  have "256 * a \<le> il_size s" using b by linarith
  then show "il_popcnt_lines s a n = il_rank1 s (256 * (a + n)) - il_rank1 s (256 * a)"
    unfolding il_popcnt_lines_def b_def [symmetric] using b bN by (simp add: il_line_rank [OF assms] il_rank1_cnt [OF assms])
qed

section \<open>Building returns\<close>

lemma il_build_total:
  assumes ok: "\<And>n. v_ok e n" and inv: "vv_inv (il_lines s)" and n: "vn (il_lines s) = BitsToLines (il_size s)"
    and none: "il_sel0 s = None" "il_sel1 s = None" and small: "il_size s < 2 ^ 32"
  shows "\<exists>s'. il_build_cache e s0 s1 s = Inr s'"
proof -
  obtain s3 R where r: "il_build_ranks e s = (s3, R)" by (cases "il_build_ranks e s")
  note k = il_build_ranks_ok [OF inv n small r]
  have n3: "vn (il_lines s3) = BitsToLines (il_size s3)" using k(2,7) by simp
  obtain ls where ls: "vv_reserve e (BitsToLines (il_size s3) + 1 + ((if s0 then (il_size s3 - R + 256 - 1) div 256 + 1 else 0)
       + (if s1 then (R + 256 - 1) div 256 + 1 else 0) + 2 + 10 - 1) div 10) (il_lines s3) = Inr ls"
    using vv_reserve_err ok by (metis sum.exhaust)
  note k' = k(3-6) [folded k(7)]
  have pad: "\<not> il_bit (il_mem s3) p" if "il_size s3 \<le> p" "p < 256 * BitsToLines (il_size s3)" for p
    using that k'(2) by simp
  from il_build_index_ok [OF k(1) n3 small [folded k(7)] k'(1) pad k'(3,4) none [folded k(8,9)] ls]
  obtain s' where "il_build_index e (of_bool s0) (of_bool s1) s3 R = Inr s'" by blast
  then show ?thesis using small r by (simp add: il_build_cache_def il_build_cache_q_def rank_select_check_overflow_def)
qed

section \<open>Memory map\<close>

lemma il_mmap_built:
  assumes inv: "il_inv s" and fl: "last (il_mem s) = rs_flags (il_size s) s0 s1"
    and sel0: "il_sel0 s = (if s0 then Some (10 * (BitsToLines (il_size s) + 1)) else None)"
    and sel1: "il_sel1 s = (if s1 then Some (10 * (BitsToLines (il_size s) + 1)
      + (if s0 then (il_max_rank0 s + 256 - 1) div 256 + 1 else 0)) else None)"
  shows "il_risk_mmap_from (il_mem s) (il_mem_size s) = s"
proof -
  define m where "m = il_mem s"
  define n where "n = il_size s"
  define N where "N = BitsToLines n"
  note D = il_invD [OF inv, folded m_def n_def, folded N_def]
  have len: "length m = 5 * vc (il_lines s)" unfolding m_def by (rule length_il_mem [OF D(1)])
  have ne: "m \<noteq> []" using len D(4) by auto
  have div8: "il_mem_size s div 8 - 1 = length m - 1" "il_mem_size s div 40 = vc (il_lines s)" by (simp_all add: il_mem_size_def len)
  have fl: "m ! (length m - 1) = rs_flags n s0 s1" using fl ne by (simp add: m_def n_def last_conv_nth)
  have sz: "unat (drop_bit 8 (rs_flags n s0 s1)) = n" using D(2) by (intro rs_flags_size) simp
  have bits: "rs_flags n s0 s1 AND push_bit 0 1 \<noteq> 0 \<longleftrightarrow> s0" "rs_flags n s0 s1 AND push_bit 1 1 \<noteq> 0 \<longleftrightarrow> s1"
    by (simp_all only: and_push_bit_1 rs_flags_bits)
  have r: "il_rlev1 m N = il_max_rank1 s"
  proof -
    have "il_rlev1 m N = cnt (il_bit m) (256 * N)" using il_line_rank [OF inv order_refl] by (simp add: m_def N_def n_def)
    also have "\<dots> = cnt (il_bit m) n"
      by (rule cnt_pad) (use D(5) BitsToLines_bounds(1) [of n] in \<open>auto simp: N_def\<close>)
    finally show ?thesis using D(7) by simp
  qed
  have r0: "size_sub n (il_max_rank1 s) = il_max_rank0 s" using D(7,8) by simp
  have Nn: "(n + 256 - 1) div 256 = N" by (simp add: N_def BitsToLines_def)
  have d: "vdata (il_lines s) = words_lines m" by (simp add: m_def il_mem_def)
  then have p: "vp (il_lines s) = Some (words_lines m)"
    using D(1,4) length_words_lines [OF len] by (cases "vp (il_lines s)") (auto simp: vdata_def vv_inv_def)
  show ?thesis
    unfolding il_risk_mmap_from_def m_def [symmetric] div8 Let_def fl sz Nn r r0 bits
    using p D(3) sel0 sel1 by (cases s; cases "il_lines s") (simp add: n_def [symmetric] N_def [symmetric])
qed

section \<open>Sequences of operations\<close>

lemma il_step_vec: "il_step s (length xs) (\<lambda>p. xs ! p) \<Longrightarrow> il_winv s \<and> il_vec s = xs"
  unfolding il_step_def il_vec_def by (auto intro: nth_equalityI)

lemma length_il_vec [simp]: "length (il_vec s) = il_size s"
  by (simp add: il_vec_def)

lemma nth_il_vec: "p < il_size s \<Longrightarrow> il_vec s ! p = il_bit (il_mem s) p"
  by (simp add: il_vec_def)

lemma il_set_ok:
  assumes inv: "vv_inv (il_lines s)" and i: "i < 256 * vn (il_lines s)"
  shows "vv_inv (il_lines (il_set i b s)) \<and> vn (il_lines (il_set i b s)) = vn (il_lines s)
    \<and> il_bit (il_mem (il_set i b s)) p = (if p = i then b else il_bit (il_mem s) p)"
proof -
  have "vn (il_lines s) \<le> vc (il_lines s)" using inv by (simp add: vv_inv_def)
  then have w: "il_word i < length (il_mem s)" using il_word_less [OF i] length_il_mem [OF inv] by simp
  show ?thesis
    using il_upd_ok [OF inv, of "\<lambda>m. m[il_word i := m ! il_word i OR push_bit (i mod 64) 1]"]
      il_upd_ok [OF inv, of "\<lambda>m. m[il_word i := m ! il_word i AND NOT (push_bit (i mod 64) 1)]"] il_bit_update [OF w]
    by (simp add: il_set_def il_set1_def il_set0_def)
qed

lemma il_set_simps [simp]: "il_size (il_set i b s) = il_size s" "il_sel0 (il_set i b s) = il_sel0 s" "il_sel1 (il_set i b s) = il_sel1 s"
    "il_max_rank0 (il_set i b s) = il_max_rank0 s" "il_max_rank1 (il_set i b s) = il_max_rank1 s"
  by (simp_all add: il_set_def il_set1_def il_set0_def)

lemma il_set_step: "il_winv s \<Longrightarrow> i < il_size s \<Longrightarrow> il_step (il_set i b s) (il_size s) (\<lambda>p. if p = i then b else il_bit (il_mem s) p)"
  using il_set_ok [of s i b] by (simp add: il_step_def il_winv_def)

lemma il_set_range_Suc: "il_set_range i (Suc n) b s = il_set_range (Suc i) n b (il_set i b s)"
  by (simp add: il_set_range_def il_set_def)

lemma il_set_range_step:
  "il_winv s \<Longrightarrow> i + n \<le> il_size s \<Longrightarrow>
    il_step (il_set_range i n b s) (il_size s) (\<lambda>p. if i \<le> p \<and> p < i + n then b else il_bit (il_mem s) p)"
proof (induction n arbitrary: i s)
  case 0
  then show ?case by (auto simp: il_step_def il_set_range_def)
next
  case (Suc n)
  have s: "il_step (il_set i b s) (il_size s) (\<lambda>p. if p = i then b else il_bit (il_mem s) p)"
    using Suc.prems by (intro il_set_step) simp_all
  then have "il_step (il_set_range (Suc i) n b (il_set i b s)) (il_size s)
      (\<lambda>p. if Suc i \<le> p \<and> p < Suc i + n then b else il_bit (il_mem (il_set i b s)) p)"
    using Suc.IH [of "il_set i b s" "Suc i"] Suc.prems by (simp add: il_step_def)
  with s show ?case unfolding il_set_range_Suc by (auto simp: il_step_def)
qed

text \<open>Bits of a vector of lines after the lines change as \<open>valvec\<close> promises.\<close>

lemma lines_words_nth:
  "p < 256 * length ls \<Longrightarrow> il_bit (lines_words ls) p = il_bit (line_words (ls ! (p div 256))) (p mod 256)"
proof (induction ls arbitrary: p)
  case (Cons l ls)
  have l: "length (line_words l) = 5" by (cases l) simp
  show ?case
  proof (cases "p < 256")
    case True
    have "il_word p < 5 * 1" by (rule il_word_less) (use True in simp)
    with True l show ?thesis by (simp add: lines_words_def il_bit_def nth_append)
  next
    case False
    then obtain q where q: "p = q + 256" using le_add_diff_inverse2 [of 256 p] by (metis leI)
    have d: "(q + 256) div 256 = Suc (q div 256)" "(q + 256) mod 256 = q mod 256" "(q + 256) mod 64 = q mod 64"
      using mod_mult_self1 [of q 4 64] by simp_all
    have w: "il_word (q + 256) = 5 + il_word q" by (simp add: il_word_def d)
    have "q < 256 * length ls" using Cons.prems q by simp
    from Cons.IH [OF this] show ?thesis
      using l unfolding q d(1,2) by (simp add: lines_words_def il_bit_def nth_append w d(3))
  qed
qed simp

lemma il_bit_Line: "q < 256 \<Longrightarrow> il_bit (line_words (il_Line b)) q = b"
proof -
  assume "q < 256"
  then have k: "q mod 256 div 64 < 4" "q div 256 = 0" by (simp_all add: mod_div_64)
  define k where "k = q mod 256 div 64"
  have "(line_words (il_Line b)) ! (1 + k) = (if b then - 1 else 0)" if "k < 4" for k
  proof -
    have "k = 0 \<or> k = 1 \<or> k = 2 \<or> k = 3" using that by auto
    then show ?thesis by (auto simp: il_Line_def Let_def numeral_2_eq_2 numeral_3_eq_3)
  qed
  then show ?thesis using k by (simp add: il_bit_def il_word_def)
qed

lemma il_bit_replicate: "p < 256 * n \<Longrightarrow> il_bit (lines_words (replicate n (il_Line b))) p = b"
  using lines_words_nth [of p "replicate n (il_Line b)"] by (simp add: il_bit_Line div_less_iff_less_mult mult.commute)

lemma il_bit_append: "p < 256 * length ls \<Longrightarrow> il_bit (lines_words (ls @ ls')) p = il_bit (lines_words ls) p"
  by (rule il_bit_cong [of "length ls"]) (simp_all add: nth_append)

lemma il_bit_take: "p < 256 * min n (length ls) \<Longrightarrow> il_bit (lines_words (take n ls)) p = il_bit (lines_words ls) p"
  using il_bit_append [of p "take n ls" "drop n ls"] by (simp add: min.commute)

lemma il_bit_append2:
  "256 * length ls \<le> p \<Longrightarrow> p < 256 * (length ls + n) \<Longrightarrow> il_bit (lines_words (ls @ replicate n (il_Line b))) p = b"
proof -
  assume p: "256 * length ls \<le> p" "p < 256 * (length ls + n)"
  have k: "length ls \<le> p div 256" "p div 256 < length ls + n"
    using p by (simp_all add: less_eq_div_iff_mult_less_eq div_less_iff_less_mult mult.commute)
  have "il_bit (lines_words (ls @ replicate n (il_Line b))) p = il_bit (line_words ((ls @ replicate n (il_Line b)) ! (p div 256))) (p mod 256)"
    by (rule lines_words_nth) (use p in simp)
  also have "(ls @ replicate n (il_Line b)) ! (p div 256) = il_Line b" using k by (simp add: nth_append)
  finally show ?thesis by (simp add: il_bit_Line)
qed

lemma il_lines_step:
  assumes "il_winv s" and "vv_inv ls" and "n \<le> 256 * vn ls" and "n < 2 ^ 32"
  shows "il_step (s\<lparr>il_lines := ls, il_size := n\<rparr>) n (il_bit (lines_words (vec ls)))"
  using assms il_bit_vec [of "s\<lparr>il_lines := ls, il_size := n\<rparr>"] by (simp add: il_step_def il_winv_def)

lemma il_winvD: "il_winv s \<Longrightarrow> vv_inv (il_lines s)" "il_winv s \<Longrightarrow> il_size s \<le> 256 * vn (il_lines s)" "il_winv s \<Longrightarrow> il_size s < 2 ^ 32"
  by (simp_all add: il_winv_def)

lemma il_vec_bit: "il_winv s \<Longrightarrow> p < il_size s \<Longrightarrow> il_bit (lines_words (vec (il_lines s))) p = il_bit (il_mem s) p"
  using il_bit_vec [of s p] by (simp add: il_winv_def)

lemma il_push_back_step:
  assumes s: "il_winv s" and x: "il_push_back e b s = Inr s'"
  shows "il_step s' (il_size s + 1) (\<lambda>p. if p = il_size s then b else il_bit (il_mem s) p)"
proof (cases "il_size s < vn (il_lines s) * 256")
  case True
  have nf: "il_size s + 1 < 2 ^ 32" using x by (auto simp: il_push_back_def il_full_def split: if_splits)
  have w: "il_winv (s\<lparr>il_size := il_size s + 1\<rparr>)" using s True nf by (simp add: il_winv_def)
  have m: "il_mem (s\<lparr>il_size := il_size s + 1\<rparr>) = il_mem s" "il_size (s\<lparr>il_size := il_size s + 1\<rparr>) = il_size s + 1"
    by (simp_all add: il_mem_def)
  from il_set_step [OF w, of "il_size s" b, unfolded m] have "il_step (il_set (il_size s) b (s\<lparr>il_size := il_size s + 1\<rparr>)) (il_size s + 1)
      (\<lambda>p. if p = il_size s then b else il_bit (il_mem s) p)" by simp
  moreover have "s' = il_set (il_size s) b (s\<lparr>il_size := il_size s + 1\<rparr>)" using x True by (auto simp: il_push_back_def split: if_splits)
  ultimately show ?thesis by simp
next
  case False
  then have sz: "il_size s = 256 * vn (il_lines s)" using il_winvD(2) [OF s] by simp
  have nf: "il_size s + 1 < 2 ^ 32" using x by (auto simp: il_push_back_def il_full_def split: if_splits)
  obtain ls where ls: "vv_emplace_back e (il_Line False) (il_lines s) = Inr ls"
    and s': "s' = il_set (il_size s) b (s\<lparr>il_lines := ls, il_size := il_size s + 1\<rparr>)"
    using x False by (auto simp: il_push_back_def il_push_back_slow_path_def split: if_splits sum.splits)
  from vv_emplace_back_ok [OF il_winvD(1) [OF s]] ls
  have l: "vv_inv ls" "vec ls = vec (il_lines s) @ [il_Line False]" by (auto simp: step_ok_def)
  have n: "vn ls = vn (il_lines s) + 1" using length_vec [OF l(1)] length_vec [OF il_winvD(1) [OF s]] l(2) by simp
  have st: "il_step (s\<lparr>il_lines := ls, il_size := il_size s + 1\<rparr>) (il_size s + 1) (il_bit (lines_words (vec ls)))"
    using sz n nf by (intro il_lines_step [OF s l(1)]) simp_all
  have old: "il_bit (lines_words (vec ls)) p = il_bit (il_mem s) p" if "p < il_size s" for p
    unfolding l(2) using that sz length_vec [OF il_winvD(1) [OF s]] il_vec_bit [OF s that]
    by (subst il_bit_append) simp_all
  from st have "il_winv (s\<lparr>il_lines := ls, il_size := il_size s + 1\<rparr>)" by (simp add: il_step_def)
  from il_set_step [OF this, of "il_size s" b] st old show ?thesis unfolding s' by (auto simp: il_step_def)
qed

lemma il_resize_step:
  assumes s: "il_winv s" and p: "il_pre (IResize n b) s" and x: "il_resize e n b s = Inr s'"
  shows "il_step s' n (\<lambda>p. if p < il_size s then il_bit (il_mem s) p else b)"
proof -
  have small: "n < 2 ^ 32" using x by (auto simp: il_resize_def rank_select_check_overflow_def split: if_splits)
  obtain ls where ls: "vv_resize_val e (BitsToLines n) (il_Line b) (il_lines s) = Inr ls" and s': "s' = s\<lparr>il_lines := ls, il_size := n\<rparr>"
    using x by (auto simp: il_resize_def split: if_splits sum.splits)
  define N where "N = BitsToLines n"
  define k where "k = vn (il_lines s)"
  have lv: "length (vec (il_lines s)) = k" unfolding k_def by (rule length_vec [OF il_winvD(1) [OF s]])
  from vv_resize_val_ok [OF il_winvD(1) [OF s]] ls
  have l: "vv_inv ls" "vec ls = take N (vec (il_lines s)) @ replicate (N - k) (il_Line b)"
    by (auto simp: step_ok_def list_resize_def N_def lv)
  have n: "vn ls = N" using length_vec [OF l(1)] lv unfolding l(2) by simp
  have nN: "n \<le> 256 * N" unfolding N_def by (rule BitsToLines_bounds(1))
  have "il_bit (lines_words (vec ls)) p = (if p < il_size s then il_bit (il_mem s) p else b)" if pn: "p < n" for p
  proof (cases "p < il_size s")
    case True
    then have q: "p < 256 * min N k" using pn nN il_winvD(2) [OF s] by (simp add: k_def min_def)
    then have "il_bit (lines_words (vec ls)) p = il_bit (lines_words (take N (vec (il_lines s)))) p"
      unfolding l(2) by (intro il_bit_append) (simp add: lv min.commute)
    also have "\<dots> = il_bit (lines_words (vec (il_lines s))) p" by (rule il_bit_take) (use q lv in simp)
    finally show ?thesis using True il_vec_bit [OF s True] by simp
  next
    case False
    then have sz: "il_size s = 256 * k" "k < N" using p pn nN by (auto simp: k_def)
    then have "take N (vec (il_lines s)) = vec (il_lines s)" using lv by simp
    then show ?thesis
      unfolding l(2) using il_bit_append2 [of "vec (il_lines s)" p "N - k" b] False sz pn nN lv by simp
  qed
  with il_lines_step [OF s l(1), of n] nN n small show ?thesis unfolding s' by (simp add: il_step_def)
qed

lemma il_resize_no_init_step:
  assumes s: "il_winv s" and n: "n \<le> il_size s" and x: "il_resize_no_init e hv n s = Inr s'"
  shows "il_step s' n (il_bit (il_mem s))"
proof -
  define N where "N = BitsToLines n"
  have small: "n < 2 ^ 32" using n il_winvD(3) [OF s] by simp
  have nN: "n \<le> 256 * N" unfolding N_def by (rule BitsToLines_bounds(1))
  have Nk: "N \<le> vn (il_lines s)" using BitsToLines_bounds(2) [of n] n il_winvD(2) [OF s] unfolding N_def by linarith
  obtain lg where lg: "vv_ensure_capacity e N (il_lines s) = Inr lg"
    and s': "s' = s\<lparr>il_lines := lg\<lparr>vn := N\<rparr>, il_size := n\<rparr>"
    using x Nk by (auto simp: il_resize_no_init_def vv_resize_no_init_def N_def split: if_splits sum.splits)
  note g = regrownD [OF vv_ensure_capacity_ok [OF il_winvD(1) [OF s] lg]]
  have l: "vv_inv (lg\<lparr>vn := N\<rparr>)" "vec (lg\<lparr>vn := N\<rparr>) = take N (vec (il_lines s))"
    using shrink_size [OF g(1), of N] Nk g(2,3) by (simp_all add: step_ok_def)
  have "il_bit (lines_words (take N (vec (il_lines s)))) p = il_bit (il_mem s) p" if "p < n" for p
    using il_bit_take [of p N "vec (il_lines s)"] il_vec_bit [OF s, of p] that n nN Nk length_vec [OF il_winvD(1) [OF s]] by simp
  with il_lines_step [OF s l(1), of n] nN small show ?thesis unfolding s' l(2) by (simp add: il_step_def)
qed

lemma il_resize_fill_step:
  assumes s: "il_winv s" and x: "il_resize_fill e n b s = Inr s'"
  shows "il_step s' n (\<lambda>p. b)"
proof -
  have small: "n < 2 ^ 32" using x by (auto simp: il_resize_fill_def rank_select_check_overflow_def split: if_splits)
  obtain ls where ls: "vv_resize_fill_val e (BitsToLines n) (il_Line b) (il_lines s) = Inr ls" and s': "s' = s\<lparr>il_lines := ls, il_size := n\<rparr>"
    using x by (auto simp: il_resize_fill_def split: if_splits sum.splits)
  from vv_resize_fill_val_ok [OF il_winvD(1) [OF s]] ls
  have l: "vv_inv ls" "vec ls = replicate (BitsToLines n) (il_Line b)" by (auto simp: step_ok_def)
  have n: "vn ls = BitsToLines n" using length_vec [OF l(1)] unfolding l(2) by simp
  have "n \<le> 256 * BitsToLines n" by (rule BitsToLines_bounds(1))
  with il_lines_step [OF s l(1), of n] n small show ?thesis unfolding s' by (simp add: il_step_def l(2) il_bit_replicate)
qed

lemma il_fill_step: "il_winv s \<Longrightarrow> il_step (il_fill b s) (il_size s) (\<lambda>p. b)"
proof -
  assume s: "il_winv s"
  note l = vv_fill_ok [OF il_winvD(1) [OF s], of "il_Line b"]
  have "vn (vv_fill (il_Line b) (il_lines s)) = vn (il_lines s)" by (simp add: vv_fill_def)
  with il_lines_step [OF s conjunct1 [OF l], of "il_size s"] il_winvD [OF s] l show ?thesis
    by (simp add: il_step_def il_fill_def il_bit_replicate)
qed

lemma il_shrink_step: "il_winv s \<Longrightarrow> il_step (il_shrink_to_fit e s) (il_size s) (il_bit (il_mem s))"
proof -
  assume s: "il_winv s"
  note l = vv_shrink_ok [OF il_winvD(1) [OF s], of e]
  have n: "vn (vv_shrink_to_fit e (il_lines s)) = vn (il_lines s)"
    using l length_vec [OF il_winvD(1) [OF s]] length_vec [of "vv_shrink_to_fit e (il_lines s)"] by simp
  from il_lines_step [OF s conjunct1 [OF l], of "il_size s"] il_winvD [OF s] n l il_vec_bit [OF s] show ?thesis
    by (simp add: il_step_def il_shrink_to_fit_def)
qed

lemma il_exec_step:
  assumes s: "il_winv s" and p: "il_pre a s" and x: "il_exec e a s = Inr s'"
  shows "il_winv s' \<and> il_vec s' = il_list a (il_vec s)"
proof -
  have "il_step s' (length (il_list a (il_vec s))) (\<lambda>p. il_list a (il_vec s) ! p)"
  proof (cases a)
    case (IPush b)
    with il_push_back_step [OF s, of e b s'] x show ?thesis by (auto simp: il_step_def nth_append nth_il_vec)
  next
    case IPop
    with s x p show ?thesis by (auto simp: il_step_def il_winv_def il_pop_back_def il_mem_def nth_butlast nth_il_vec)
  next
    case (ISet i b)
    with il_set_step [OF s, of i b] x p show ?thesis by (auto simp: il_step_def nth_list_update nth_il_vec)
  next
    case (ISet_range i n b)
    then have le: "i + n \<le> il_size s" and s': "s' = il_set_range i n b s" using p x by simp_all
    have "il_list a (il_vec s) ! q = (if i \<le> q \<and> q < i + n then b else il_bit (il_mem s) q)" if "q < il_size s" for q
      using that le ISet_range by (auto simp: nth_append nth_il_vec)
    with il_set_range_step [OF s le, of b] le ISet_range s' show ?thesis by (simp add: il_step_def)
  next
    case (IFill b)
    with il_fill_step [OF s, of b] x show ?thesis by (auto simp: il_step_def)
  next
    case (IResize n b)
    with il_resize_step [OF s p [unfolded IResize]] x show ?thesis
      by (auto simp: il_step_def list_resize_def nth_append nth_il_vec)
  next
    case (IResize_no_init hv n)
    with il_resize_no_init_step [OF s, of n e hv s'] p x show ?thesis by (auto simp: il_step_def nth_il_vec)
  next
    case (IResize_fill n b)
    with il_resize_fill_step [OF s] x show ?thesis by (auto simp: il_step_def)
  next
    case IShrink
    with il_shrink_step [OF s, of e] x show ?thesis by (auto simp: il_step_def nth_il_vec)
  next
    case IClear
    with s x vv_clear_ok [of "il_lines s"] show ?thesis by (auto simp: il_step_def il_winv_def il_clear_def)
  qed
  then show ?thesis by (rule il_step_vec)
qed

lemma vv_emplace_back_err: "vv_emplace_back e x v = Inl err \<Longrightarrow> err = Bad_alloc \<and> (\<exists>c. \<not> v_ok e c)"
  using vv_exec_err [of e x "VEmplace x" v err] by simp

lemma il_exec_err:
  assumes "il_exec e a s = Inl err"
  shows "err = Length_error \<or> err = Bad_alloc \<and> (\<exists>c. \<not> v_ok e c)"
  using assms
  by (cases a)
    (auto simp: il_push_back_def il_push_back_slow_path_def il_resize_def il_resize_no_init_def il_resize_fill_def vv_resize_val_def vv_resize_no_init_def vv_resize_fill_val_def Let_def split: if_splits sum.splits
      dest: vv_emplace_back_err vv_ensure_capacity_err resize_slow_fill_err)

interpretation ilm: op_machine il_winv "il_exec e" "il_run e" il_pre "il_pre_run e" il_vec il_list
  "\<lambda>err. err = Length_error \<or> err = Bad_alloc" for e
proof unfold_locales
  fix s s' a assume "il_winv s" "il_pre a s" "il_exec e a s = Inr s'"
  then show "il_winv s' \<and> il_vec s' = il_list a (il_vec s)" by (rule il_exec_step)
next
  fix s a err assume "il_exec e a s = Inl err"
  from il_exec_err [OF this] show "err = Length_error \<or> err = Bad_alloc" by blast
qed auto

section \<open>Runs of equal bits\<close>

text \<open>The nested loops over lines and words are the flat loops over the words that hold bits.\<close>

lemma il_len_loop_flat:
  "k \<le> 4 \<Longrightarrow> il_len_loop ones m len j k acc = seq_len_loop (\<lambda>w. il_run_word ones m (w div 4) (w mod 4)) (4 * j + k) (4 * len) acc"
proof (induction ones m len j k acc rule: il_len_loop.induct)
  case (1 ones m len j k acc)
  show ?case
  proof (cases "j < len")
    case False
    then have "\<not> 4 * j + k < 4 * len" by simp
    with False show ?thesis by (subst il_len_loop.simps, subst seq_len_loop.simps) simp
  next
    case j: True
    show ?thesis
    proof (cases "k < 4")
      case True
      then have i: "4 * j + k < 4 * len" "(4 * j + k) div 4 = j" "(4 * j + k) mod 4 = k" using j by simp_all
      show ?thesis
      proof (cases "il_run_word ones m j k = 0")
        case z: True
        have "il_len_loop ones m len j (Suc k) (acc + 64)
            = seq_len_loop (\<lambda>w. il_run_word ones m (w div 4) (w mod 4)) (4 * j + Suc k) (4 * len) (acc + 64)"
          using 1(1) [OF j True refl z] True by simp
        with i j True z show ?thesis by (subst il_len_loop.simps, subst seq_len_loop.simps) (simp add: Let_def)
      next
        case nz: False
        with i j True show ?thesis by (subst il_len_loop.simps, subst seq_len_loop.simps) (simp add: Let_def)
      qed
    next
      case False
      then have "k = 4" using 1(3) by simp
      with 1(2) [OF j False] j show ?thesis by (subst il_len_loop.simps) (simp add: add.commute)
    qed
  qed
qed

lemma il_revlen_loop_flat:
  "K \<le> 4 \<Longrightarrow> J \<noteq> 0 \<Longrightarrow> il_revlen_loop ones m J K acc = seq_revlen_loop (\<lambda>w. il_run_word ones m (w div 4) (w mod 4)) (4 * (J - 1) + K) acc"
proof (induction ones m J K acc rule: il_revlen_loop.induct)
  case (1 ones m J K acc)
  show ?case
  proof (cases K)
    case (Suc k)
    then have i: "4 * (J - 1) + K = Suc (4 * (J - 1) + k)" "(4 * (J - 1) + k) div 4 = J - 1" "(4 * (J - 1) + k) mod 4 = k"
      using 1(3) by simp_all
    show ?thesis
    proof (cases "il_run_word ones m (J - 1) k = 0")
      case z: True
      have "il_revlen_loop ones m J k (acc + 64)
          = seq_revlen_loop (\<lambda>w. il_run_word ones m (w div 4) (w mod 4)) (4 * (J - 1) + k) (acc + 64)"
        using 1(1) [OF 1(4) _ refl] Suc z 1(3,4) by simp
      with i z Suc 1(4) show ?thesis by (subst il_revlen_loop.simps) (simp add: Let_def)
    next
      case nz: False
      with i Suc 1(4) show ?thesis by (subst il_revlen_loop.simps) (simp add: Let_def)
    qed
  next
    case 0
    show ?thesis
    proof (cases "J - 1 = 0")
      case True
      then have "J = 1" using 1(4) by simp
      then show ?thesis using 0 by (subst il_revlen_loop.simps, subst il_revlen_loop.simps) simp
    next
      case False
      then have "4 * (J - 1) = 4 * (J - 1 - 1) + 4" by simp
      with 1(2) [OF 1(4)] 0 False 1(4) show ?thesis by (subst il_revlen_loop.simps) simp
    qed
  qed
qed

lemma il_run_word_W:
  "il_run_word False m (w div 4) (w mod 4) = m ! (5 * (w div 4) + 1 + w mod 4)"
  "il_run_word True m (w div 4) (w mod 4) = NOT (m ! (5 * (w div 4) + 1 + w mod 4))"
  by (simp_all add: il_run_word_def il_bit64_def)

lemma il_pos_word: "4 * (p div 256) + p mod 256 div 64 = p div 64" for p :: nat
proof -
  have "p div 256 = p div 64 div 4" by (simp add: div_mult2_eq [symmetric])
  then show ?thesis unfolding mod_div_64 by simp
qed

lemma il_pos_less: "p mod 256 div 64 < (4::nat)"
  by (simp add: mod_div_64)

lemma il_word_at: "il_bit64 m (p div 256) (p mod 256 div 64) = m ! (5 * (p div 64 div 4) + 1 + p div 64 mod 4)"
  by (simp add: il_bit64_def mod_div_64 div_mult2_eq [symmetric])

lemmas il_len_loops = il_len_loop_flat [where ones = False, unfolded il_run_word_W] il_len_loop_flat [where ones = True, unfolded il_run_word_W]
lemmas il_revlen_loops = il_revlen_loop_flat [where ones = False, unfolded il_run_word_W] il_revlen_loop_flat [where ones = True, unfolded il_run_word_W]

lemma il_pos_next: "4 * (p div 256) + (p mod 256 div 64 + 1) = p div 64 + 1" for p :: nat
  using il_pos_word [of p] by simp

lemma il_zero_seq_len_run:
  assumes "p < 256 * vn (il_lines s)"
  shows "il_zero_seq_len s p = run_len (\<lambda>i. \<not> il_bit (il_mem s) i) p (256 * vn (il_lines s))"
proof -
  define n where "n = 4 * vn (il_lines s)"
  have p: "p < 64 * n" "256 * vn (il_lines s) = 64 * n" using assms by (simp_all add: n_def)
  have k: "p mod 256 div 64 + 1 \<le> 4" "p mod 256 div 64 \<le> 4" using il_pos_less [of p] by simp_all
  show ?thesis
  proof (cases "p mod 64 = 0")
    case True
    then have e: "64 * (p div 64) = p" by (rule word_start)
    from ilb.seq_len_loop_run [OF wi_le_words [OF p(1)], of "il_mem s" 0] True show ?thesis
      unfolding e p(2) by (simp add: il_zero_seq_len_def Let_def il_len_loops(1) [OF k(2)] il_pos_word n_def)
  next
    case False
    define x where "x = il_bit64 (il_mem s) (p div 256) (p mod 256 div 64)"
    have b: "il_bit (il_mem s) p = bit x (p mod 64)" by (simp add: il_bit_def il_word_def il_bit64_def x_def)
    have w: "il_mem s ! (5 * (p div 64 div 4) + 1 + p div 64 mod 4) = x" by (simp only: x_def il_word_at)
    show ?thesis
    proof (cases "il_bit (il_mem s) p")
      case True
      with False p show ?thesis unfolding il_zero_seq_len_def Let_def and_push_bit_0 x_def [symmetric] b [symmetric] by (simp add: run_len_here)
    next
      case nb: False
      with False show ?thesis
        unfolding il_zero_seq_len_def Let_def and_push_bit_0 x_def [symmetric] b [symmetric] p(2) ilb.zero_run [OF p(1)] w
          il_len_loops(1) [OF k(1)] il_pos_next n_def [symmetric] by simp
    qed
  qed
qed

lemma il_one_seq_len_run:
  assumes "p < 256 * vn (il_lines s)"
  shows "il_one_seq_len s p = run_len (il_bit (il_mem s)) p (256 * vn (il_lines s))"
proof -
  define n where "n = 4 * vn (il_lines s)"
  have p: "p < 64 * n" "256 * vn (il_lines s) = 64 * n" using assms by (simp_all add: n_def)
  have k: "p mod 256 div 64 + 1 \<le> 4" "p mod 256 div 64 \<le> 4" using il_pos_less [of p] by simp_all
  have run: "run_len (il_bit (il_mem s)) p (64 * n) = run_len (\<lambda>i. \<not> \<not> il_bit (il_mem s) i) p (64 * n)" by simp
  show ?thesis
  proof (cases "p mod 64 = 0")
    case True
    then have e: "64 * (p div 64) = p" by (rule word_start)
    from ilb0.seq_len_loop_run [OF wi_le_words [OF p(1)], of "il_mem s" 0] True show ?thesis
      unfolding e p(2) run by (simp add: il_one_seq_len_def Let_def il_len_loops(2) [OF k(2)] il_pos_word n_def)
  next
    case False
    then have off: "0 < p mod 64" "p mod 64 < 64" by simp_all
    define x where "x = il_bit64 (il_mem s) (p div 256) (p mod 256 div 64)"
    have b: "il_bit (il_mem s) p = bit x (p mod 64)" by (simp add: il_bit_def il_word_def il_bit64_def x_def)
    have w: "il_mem s ! (5 * (p div 64 div 4) + 1 + p div 64 mod 4) = x" by (simp only: x_def il_word_at)
    show ?thesis
    proof (cases "il_bit (il_mem s) p")
      case nb: False
      with False p show ?thesis unfolding il_one_seq_len_def Let_def and_push_bit_0 x_def [symmetric] b [symmetric] by (simp add: run_len_here)
    next
      case True
      with False ctz_not_shift [OF off, of x] show ?thesis
        unfolding il_one_seq_len_def Let_def and_push_bit_0 x_def [symmetric] b [symmetric] p(2) run ilb0.zero_run [OF p(1)] w
          il_len_loops(2) [OF k(1)] il_pos_next n_def [symmetric] by auto
    qed
  qed
qed

lemma word_end_pred: "p mod 64 = 0 \<Longrightarrow> 0 < p \<Longrightarrow> (p - 1) div 64 + 1 = p div (64::nat)"
proof -
  assume "p mod 64 = 0" "0 < p"
  then obtain q where q: "p = 64 * Suc q" by (metis mult_0_right mod_0_imp_dvd dvd_def not0_implies_Suc less_irrefl)
  then have "p - 1 = 63 + 64 * q" by simp
  then have "(p - 1) div 64 = q" by simp
  with q show ?thesis by simp
qed

lemma il_zero_seq_revlen_run: "il_zero_seq_revlen s p = run_revlen (\<lambda>i. \<not> il_bit (il_mem s) i) p"
proof (cases "p mod 64 = 0")
  case True
  then have e: "64 * (p div 64) = p" by (rule word_start)
  have k: "(p - 1) mod 256 div 64 + 1 \<le> 4" using il_pos_less [of "p - 1"] by simp
  show ?thesis
  proof (cases "p = 0")
    case False
    have "il_revlen_loop False (il_mem s) ((p - 1) div 256 + 1) ((p - 1) mod 256 div 64 + 1) 0
        = seq_revlen_loop (\<lambda>w. il_mem s ! (5 * (w div 4) + 1 + w mod 4)) (4 * ((p - 1) div 256 + 1 - 1) + ((p - 1) mod 256 div 64 + 1)) 0"
      by (rule il_revlen_loops(1) [OF k]) simp
    also have "4 * ((p - 1) div 256 + 1 - 1) + ((p - 1) mod 256 div 64 + 1) = p div 64"
      unfolding add_diff_cancel_right' il_pos_next using word_end_pred [OF True] False by simp
    finally show ?thesis
      using ilb.seq_revlen_loop_run [of "il_mem s" "p div 64" 0] True False unfolding e by (simp add: il_zero_seq_revlen_def Let_def)
  qed (simp add: il_zero_seq_revlen_def run_revlen_def)
next
  case False
  then have p: "0 < p" by (cases p) simp_all
  note last = word_pred [OF False]
  have k: "(p - 1) mod 256 div 64 \<le> 4" using il_pos_less [of "p - 1"] by simp
  have e: "4 * ((p - 1) div 256 + 1 - 1) + (p - 1) mod 256 div 64 = p div 64" using il_pos_word [of "p - 1"] last(1) by simp
  have L: "il_revlen_loop False (il_mem s) ((p - 1) div 256 + 1) ((p - 1) mod 256 div 64) (p mod 64)
      = seq_revlen_loop (\<lambda>w. il_mem s ! (5 * (w div 4) + 1 + w mod 4)) (p div 64) (p mod 64)"
    unfolding e [symmetric] by (rule il_revlen_loops(1) [OF k]) simp
  define x where "x = il_bit64 (il_mem s) ((p - 1) div 256) ((p - 1) mod 256 div 64)"
  have b: "il_bit (il_mem s) (p - 1) = bit x ((p - 1) mod 64)" by (simp add: il_bit_def il_word_def il_bit64_def x_def)
  have w: "il_mem s ! (5 * (p div 64 div 4) + 1 + p div 64 mod 4) = x" unfolding x_def il_word_at last(1) ..
  show ?thesis
  proof (cases "il_bit (il_mem s) (p - 1)")
    case True
    with False p show ?thesis
      unfolding il_zero_seq_revlen_def Let_def and_push_bit_0 x_def [symmetric] b [symmetric] by (simp add: run_revlen_here)
  next
    case nb: False
    with False show ?thesis
      unfolding il_zero_seq_revlen_def Let_def and_push_bit_0 x_def [symmetric] b [symmetric] ilb.zero_revrun [OF False] w
      using L by simp
  qed
qed

lemma il_one_seq_revlen_run: "il_one_seq_revlen s p = run_revlen (il_bit (il_mem s)) p"
proof (cases "p mod 64 = 0")
  case True
  then have e: "64 * (p div 64) = p" by (rule word_start)
  have k: "(p - 1) mod 256 div 64 + 1 \<le> 4" using il_pos_less [of "p - 1"] by simp
  show ?thesis
  proof (cases "p = 0")
    case False
    have "il_revlen_loop True (il_mem s) ((p - 1) div 256 + 1) ((p - 1) mod 256 div 64 + 1) 0
        = seq_revlen_loop (\<lambda>w. NOT (il_mem s ! (5 * (w div 4) + 1 + w mod 4))) (4 * ((p - 1) div 256 + 1 - 1) + ((p - 1) mod 256 div 64 + 1)) 0"
      by (rule il_revlen_loops(2) [OF k]) simp
    also have "4 * ((p - 1) div 256 + 1 - 1) + ((p - 1) mod 256 div 64 + 1) = p div 64"
      unfolding add_diff_cancel_right' il_pos_next using word_end_pred [OF True] False by simp
    finally show ?thesis
      using ilb0.seq_revlen_loop_run [of "il_mem s" "p div 64" 0] True False unfolding e by (simp add: il_one_seq_revlen_def Let_def)
  qed (simp add: il_one_seq_revlen_def run_revlen_def)
next
  case False
  then have p: "0 < p" and off: "0 < p mod 64" "p mod 64 < 64" by (cases p, simp_all)
  note last = word_pred [OF False]
  have k: "(p - 1) mod 256 div 64 \<le> 4" using il_pos_less [of "p - 1"] by simp
  have e: "4 * ((p - 1) div 256 + 1 - 1) + (p - 1) mod 256 div 64 = p div 64" using il_pos_word [of "p - 1"] last(1) by simp
  have L: "il_revlen_loop True (il_mem s) ((p - 1) div 256 + 1) ((p - 1) mod 256 div 64) (p mod 64)
      = seq_revlen_loop (\<lambda>w. NOT (il_mem s ! (5 * (w div 4) + 1 + w mod 4))) (p div 64) (p mod 64)"
    unfolding e [symmetric] by (rule il_revlen_loops(2) [OF k]) simp
  define x where "x = il_bit64 (il_mem s) ((p - 1) div 256) ((p - 1) mod 256 div 64)"
  have b: "il_bit (il_mem s) (p - 1) = bit x ((p - 1) mod 64)" by (simp add: il_bit_def il_word_def il_bit64_def x_def)
  have w: "il_mem s ! (5 * (p div 64 div 4) + 1 + p div 64 mod 4) = x" unfolding x_def il_word_at last(1) ..
  have run: "run_revlen (il_bit (il_mem s)) p = run_revlen (\<lambda>i. \<not> \<not> il_bit (il_mem s) i) p" by simp
  show ?thesis
  proof (cases "il_bit (il_mem s) (p - 1)")
    case nb: False
    with False p show ?thesis
      unfolding il_one_seq_revlen_def Let_def and_push_bit_0 x_def [symmetric] b [symmetric] by (simp add: run_revlen_here)
  next
    case True
    with False clz_not_shift [OF off, of x] show ?thesis
      unfolding il_one_seq_revlen_def Let_def and_push_bit_0 x_def [symmetric] b [symmetric] run ilb0.zero_revrun [OF False] w
      using L by simp
  qed
qed

text \<open>\<open>fast_one_seq_len\<close> agrees when the line that ends the run is inside the lines.\<close>

lemma il_fast_len_loop_eq:
  "\<exists>j' k'. (j < j' \<or> j = j' \<and> k \<le> k') \<and> j' < len \<and> k' < 4 \<and> il_bit64 m j' k' \<noteq> - 1 \<Longrightarrow> len \<le> length m div 5 \<Longrightarrow>
    il_fast_len_loop m j k acc = Some (il_len_loop True m len j k acc)"
proof (induction m j k acc rule: il_fast_len_loop.induct)
  case (1 m j k acc)
  then have j: "j < len" "j < length m div 5" by auto
  show ?case
  proof (cases "k < 4")
    case True
    show ?thesis
    proof (cases "NOT (il_bit64 m j k) = 0")
      case z: True
      then have "il_bit64 m j k = - 1" by (metis bit.double_compl bit.compl_zero)
      then have "\<exists>j' k'. (j < j' \<or> j = j' \<and> Suc k \<le> k') \<and> j' < len \<and> k' < 4 \<and> il_bit64 m j' k' \<noteq> - 1"
        using 1(3) by (metis Suc_leI le_neq_implies_less)
      with 1(1) [OF j(2) True refl z] 1(4) z j True show ?thesis
        by (subst il_fast_len_loop.simps, subst il_len_loop.simps) (simp add: Let_def il_run_word_def)
    next
      case False
      with j True show ?thesis by (subst il_fast_len_loop.simps, subst il_len_loop.simps) (simp add: Let_def il_run_word_def)
    qed
  next
    case False
    then have "\<exists>j' k'. (Suc j < j' \<or> Suc j = j' \<and> 0 \<le> k') \<and> j' < len \<and> k' < 4 \<and> il_bit64 m j' k' \<noteq> - 1"
      using 1(3) by (metis Suc_lessI le_less_trans zero_le)
    with 1(2) [OF j(2) False] 1(4) j False show ?thesis
      by (subst il_fast_len_loop.simps, subst il_len_loop.simps) simp
  qed
qed

section \<open>Building after \<open>pop_back\<close>\<close>

text \<open>\<open>build_cache\<close> counts the bits of all lines and clears bits only in the last one, and only when the size is no
  multiple of the line: a line emptied by \<open>pop_back\<close> is still counted.\<close>

lemma il_build_ranks_full:
  assumes s: "vv_inv (il_lines s)" and m: "il_size s mod 256 = 0" and small: "256 * vn (il_lines s) < 2 ^ 32"
    and b: "il_build_ranks e s = (s3, R)"
  shows "R = cnt (il_bit (il_mem s)) (256 * vn (il_lines s))"
proof -
  define s2 where "s2 = il_shrink_to_fit e s"
  define N where "N = vn (il_lines s)"
  note l = vv_shrink_ok [OF s, of e]
  have i2: "vv_inv (il_lines s2)" "vec (il_lines s2) = vec (il_lines s)" using l by (simp_all add: s2_def il_shrink_to_fit_def)
  have n2: "vn (il_lines s2) = N" using length_vec [OF i2(1)] length_vec [OF s] i2(2) by (simp add: N_def)
  have len: "5 * N \<le> length (il_mem s2)" using i2(1) n2 length_il_mem [OF i2(1)] by (simp add: vv_inv_def)
  have sm: "cnt (il_bit (il_mem s2)) (256 * k) < 2 ^ 32" if "k \<le> N" for k
  proof -
    have "cnt (il_bit (il_mem s2)) (256 * k) \<le> 256 * k" by (rule cnt_le)
    also have "\<dots> \<le> 256 * N" using that by simp
    also have "\<dots> < 2 ^ 32" using small by (simp add: N_def)
    finally show ?thesis .
  qed
  from il_fill_ranks_ok [of N "il_mem s2" "il_mem s2" 0, OF len sm bits_same_refl]
  obtain m' where "il_fill_ranks N 0 0 (il_mem s2) = (m', cnt (il_bit (il_mem s2)) (256 * N))" by auto
  then have "R = cnt (il_bit (il_mem s2)) (256 * N)"
    using b m n2 by (simp add: il_build_ranks_def s2_def [symmetric] Let_def)
  also have "\<dots> = cnt (il_bit (il_mem s)) (256 * N)"
    by (rule cnt_cong, rule regrown_il_bit) (use s i2 n2 in \<open>simp_all add: N_def\<close>)
  finally show ?thesis by (simp add: N_def)
qed

lemma il_build_index_rank: "il_build_index e 0 0 s R = Inr s' \<Longrightarrow> il_max_rank1 s' = R"
  unfolding il_build_index_def build_selects_def Let_def by (auto split: sum.splits)

section \<open>Properties\<close>


lemma il_sample_ok: "il_winv il_sample" "vn (il_lines il_sample) = BitsToLines (il_size il_sample)" "il_size il_sample = 300"
  by (simp_all add: il_sample_def il_with_def il_winv_def vv_inv_def vdata_def BitsToLines_def)






text \<open>C37. \<open>pop_back\<close> leaves the line it empties in \<open>m_lines\<close>, and \<open>build_cache\<close> counts its bits: when the removed bit was
  a one that began a line, the built structure has more ones than the bits of the vector.\<close>

theorem il_build_after_pop_counts_removed:
  assumes "il_winv s" and "il_size s = 256 * k + 1" and "vn (il_lines s) = k + 1" and "256 * k + 256 < 2 ^ 32"
    and "il_bit (il_mem s) (256 * k)" and "il_build_cache e False False (il_pop_back s) = Inr s'"
  shows "count_list (il_vec (il_pop_back s)) True < il_max_rank1 s'"
proof -
  obtain s3 R where r: "il_build_ranks e (il_pop_back s) = (s3, R)" by (cases "il_build_ranks e (il_pop_back s)")
  have x: "il_build_index e 0 0 s3 R = Inr s'"
    using assms(6) r by (auto simp: il_build_cache_def il_build_cache_q_def split: if_splits)
  have pop: "il_lines (il_pop_back s) = il_lines s" "il_mem (il_pop_back s) = il_mem s" "il_size (il_pop_back s) = 256 * k"
    using assms(2) by (simp_all add: il_pop_back_def il_mem_def)
  have "R = cnt (il_bit (il_mem s)) (256 * (k + 1))"
    using il_build_ranks_full [OF _ _ _ r] assms(1,3,4) by (simp add: pop il_winv_def)
  moreover have "cnt (il_bit (il_mem s)) (256 * k) < cnt (il_bit (il_mem s)) (256 * (k + 1))"
    using assms(5) by (intro cnt_strict) simp_all
  moreover have "count_list (il_vec (il_pop_back s)) True = cnt (il_bit (il_mem s)) (256 * k)"
    using count_list_cnt [of "256 * k" "il_vec (il_pop_back s)" True] pop
    by (simp add: nth_il_vec cong: cnt_cong)
  ultimately show ?thesis using il_build_index_rank [OF x] by simp
qed

theorem il_build_after_pop_counts_removed_witness:
  "\<exists>s'. il_push_back il_env0 True il_empty = Inr il_one \<and> il_build_cache il_env0 False False (il_pop_back il_one) = Inr s'
    \<and> count_list (il_vec (il_pop_back il_one)) True < il_max_rank1 s'"
proof -
  have push: "il_push_back il_env0 True il_empty = Inr il_one"
    by (simp add: il_push_back_def il_full_def il_push_back_slow_path_def il_empty_def il_with_def vv_emplace_back_def vv_emplace_back_slow_def
      il_env0_def vv_empty_def vdata_def v_realloc_def put_at_def upd_slots_def vv_ensure_capacity_slow_def larger_capacity_def
      il_Line_def il_set_def il_set1_def il_upd_def lines_words_def il_word_def il_one_def Let_def)
  obtain s3 R where r: "il_build_ranks il_env0 (il_pop_back il_one) = (s3, R)" by (cases "il_build_ranks il_env0 (il_pop_back il_one)")
  have "v_ok il_env0 n" for n by (simp add: il_env0_def)
  then have "\<exists>ls. vv_reserve il_env0 k v = Inr ls" for k v using vv_reserve_err by (metis sum.exhaust)
  then have "\<exists>s'. il_build_index il_env0 0 0 s3 R = Inr s'"
    unfolding il_build_index_def build_selects_def Let_def by (auto split: sum.splits) (metis sum.distinct(1))
  then obtain s' where s': "il_build_cache il_env0 False False (il_pop_back il_one) = Inr s'"
    using r by (auto simp: il_build_cache_def il_build_cache_q_def rank_select_check_overflow_def il_pop_back_def il_one_def il_with_def)
  have "il_winv il_one" "il_size il_one = 256 * 0 + 1" "vn (il_lines il_one) = 0 + 1" "il_bit (il_mem il_one) (256 * 0)"
    by (simp_all add: il_one_def il_with_def il_winv_def vv_inv_def vdata_def il_bit_def il_mem_def lines_words_def il_word_def)
  from il_build_after_pop_counts_removed [OF this(1-3) _ this(4) s'] push s' show ?thesis by auto
qed

end
