(* ===== verification/SearchAlgo.thy ===== *)
theory SearchAlgo
  imports Valvec
begin

text \<open>
  The binary searches of \<open>src/src/terark/valvec.hpp\<close> over an array and a range of its indices:
  \<open>lower_bound_n\<close>, \<open>upper_bound_n\<close>, \<open>equal_range_n\<close> and \<open>binary_search_n\<close>, with \<open>operator<\<close>, with a comparator, and
  with a key extractor, and the entry points for whole arrays, containers and iterator ranges. A comparator is called on
  (element, key) and on (key, element); as these may be two overloads the model has one
  argument for each, \<open>ek\<close> and \<open>ke\<close>. The sums \<open>i + j\<close> do not overflow for indices of an object in memory.
\<close>

section \<open>Searches with \<open>operator<\<close>\<close>

text \<open>The loop variables \<open>i\<close> and \<open>j\<close> start at \<open>low\<close> and \<open>upp\<close>.\<close>

function lower_bound_n :: "'a::linorder list \<Rightarrow> 'a \<Rightarrow> nat \<Rightarrow> nat \<Rightarrow> nat" where
  "lower_bound_n a key i j =
     (if i < j then
        let mid = (i + j) div 2 in
        if a ! mid < key then lower_bound_n a key (mid + 1) j else lower_bound_n a key i mid
      else i)"
  by pat_completeness auto
termination
  by (relation "measure (\<lambda>(a, key, i, j). j - i)") auto

declare lower_bound_n.simps [simp del]

function upper_bound_n :: "'a::linorder list \<Rightarrow> 'a \<Rightarrow> nat \<Rightarrow> nat \<Rightarrow> nat" where
  "upper_bound_n a key i j =
     (if i < j then
        let mid = (i + j) div 2 in
        if key < a ! mid then upper_bound_n a key i mid else upper_bound_n a key (mid + 1) j
      else i)"
  by pat_completeness auto
termination
  by (relation "measure (\<lambda>(a, key, i, j). j - i)") auto

declare upper_bound_n.simps [simp del]

text \<open>The upper bound after a hit is searched up to \<open>upp\<close> here, and up to \<open>j\<close> in the comparator version.\<close>

function equal_range_loop :: "'a::linorder list \<Rightarrow> 'a \<Rightarrow> nat \<Rightarrow> nat \<Rightarrow> nat \<Rightarrow> nat \<times> nat" where
  "equal_range_loop a key upp i j =
     (if i < j then
        let mid = (i + j) div 2 in
        if a ! mid < key then equal_range_loop a key upp (mid + 1) j
        else if key < a ! mid then equal_range_loop a key upp i mid
        else (lower_bound_n a key i mid, upper_bound_n a key (mid + 1) upp)
      else (i, i))"
  by pat_completeness auto
termination
  by (relation "measure (\<lambda>(a, key, upp, i, j). j - i)") auto

declare equal_range_loop.simps [simp del]

definition equal_range_n :: "'a::linorder list \<Rightarrow> 'a \<Rightarrow> nat \<Rightarrow> nat \<Rightarrow> nat \<times> nat" where
  "equal_range_n a key low upp = equal_range_loop a key upp low upp"

definition binary_search_n :: "'a::linorder list \<Rightarrow> 'a \<Rightarrow> nat \<Rightarrow> nat \<Rightarrow> bool" where
  "binary_search_n a key low upp =
     (let f = lower_bound_n a key low upp in f < upp \<and> \<not> (key < a ! f))"

definition lower_bound_0 :: "'a::linorder list \<Rightarrow> nat \<Rightarrow> 'a \<Rightarrow> nat" where
  "lower_bound_0 a n key = lower_bound_n a key 0 n"
definition lower_bound_a :: "'a::linorder list \<Rightarrow> 'a \<Rightarrow> nat" where
  "lower_bound_a a key = lower_bound_n a key 0 (length a)"
definition upper_bound_0 :: "'a::linorder list \<Rightarrow> nat \<Rightarrow> 'a \<Rightarrow> nat" where
  "upper_bound_0 a n key = upper_bound_n a key 0 n"
definition upper_bound_a :: "'a::linorder list \<Rightarrow> 'a \<Rightarrow> nat" where
  "upper_bound_a a key = upper_bound_n a key 0 (length a)"
definition equal_range_0 :: "'a::linorder list \<Rightarrow> nat \<Rightarrow> 'a \<Rightarrow> nat \<times> nat" where
  "equal_range_0 a n key = equal_range_n a key 0 n"
definition equal_range_a :: "'a::linorder list \<Rightarrow> 'a \<Rightarrow> nat \<times> nat" where
  "equal_range_a a key = equal_range_n a key 0 (length a)"
definition binary_search_0 :: "'a::linorder list \<Rightarrow> nat \<Rightarrow> 'a \<Rightarrow> bool" where
  "binary_search_0 a n key = binary_search_n a key 0 n"
definition binary_search_a :: "'a::linorder list \<Rightarrow> 'a \<Rightarrow> bool" where
  "binary_search_a a key = binary_search_n a key 0 (length a)"

section \<open>Searches with a comparator\<close>

function lower_bound_c :: "('a \<Rightarrow> 'k \<Rightarrow> bool) \<Rightarrow> 'a list \<Rightarrow> 'k \<Rightarrow> nat \<Rightarrow> nat \<Rightarrow> nat" where
  "lower_bound_c ek a key i j =
     (if i < j then
        let mid = (i + j) div 2 in
        if ek (a ! mid) key then lower_bound_c ek a key (mid + 1) j else lower_bound_c ek a key i mid
      else i)"
  by pat_completeness auto
termination
  by (relation "measure (\<lambda>(ek, a, key, i, j). j - i)") auto

declare lower_bound_c.simps [simp del]

function upper_bound_c :: "('k \<Rightarrow> 'a \<Rightarrow> bool) \<Rightarrow> 'a list \<Rightarrow> 'k \<Rightarrow> nat \<Rightarrow> nat \<Rightarrow> nat" where
  "upper_bound_c ke a key i j =
     (if i < j then
        let mid = (i + j) div 2 in
        if ke key (a ! mid) then upper_bound_c ke a key i mid else upper_bound_c ke a key (mid + 1) j
      else i)"
  by pat_completeness auto
termination
  by (relation "measure (\<lambda>(ke, a, key, i, j). j - i)") auto

declare upper_bound_c.simps [simp del]

function equal_range_c :: "('a \<Rightarrow> 'k \<Rightarrow> bool) \<Rightarrow> ('k \<Rightarrow> 'a \<Rightarrow> bool) \<Rightarrow> 'a list \<Rightarrow> 'k \<Rightarrow> nat \<Rightarrow> nat \<Rightarrow> nat \<times> nat" where
  "equal_range_c ek ke a key i j =
     (if i < j then
        let mid = (i + j) div 2 in
        if ek (a ! mid) key then equal_range_c ek ke a key (mid + 1) j
        else if ke key (a ! mid) then equal_range_c ek ke a key i mid
        else (lower_bound_c ek a key i mid, upper_bound_c ke a key (mid + 1) j)
      else (i, i))"
  by pat_completeness auto
termination
  by (relation "measure (\<lambda>(ek, ke, a, key, i, j). j - i)") auto

declare equal_range_c.simps [simp del]

definition binary_search_c :: "('a \<Rightarrow> 'k \<Rightarrow> bool) \<Rightarrow> ('k \<Rightarrow> 'a \<Rightarrow> bool) \<Rightarrow> 'a list \<Rightarrow> 'k \<Rightarrow> nat \<Rightarrow> nat \<Rightarrow> bool" where
  "binary_search_c ek ke a key low upp =
     (let f = lower_bound_c ek a key low upp in f < upp \<and> \<not> ke key (a ! f))"

definition lower_bound_0_c :: "('a \<Rightarrow> 'k \<Rightarrow> bool) \<Rightarrow> 'a list \<Rightarrow> nat \<Rightarrow> 'k \<Rightarrow> nat" where
  "lower_bound_0_c ek a n key = lower_bound_c ek a key 0 n"
definition lower_bound_a_c :: "('a \<Rightarrow> 'k \<Rightarrow> bool) \<Rightarrow> 'a list \<Rightarrow> 'k \<Rightarrow> nat" where
  "lower_bound_a_c ek a key = lower_bound_c ek a key 0 (length a)"
definition upper_bound_0_c :: "('k \<Rightarrow> 'a \<Rightarrow> bool) \<Rightarrow> 'a list \<Rightarrow> nat \<Rightarrow> 'k \<Rightarrow> nat" where
  "upper_bound_0_c ke a n key = upper_bound_c ke a key 0 n"
definition upper_bound_a_c :: "('k \<Rightarrow> 'a \<Rightarrow> bool) \<Rightarrow> 'a list \<Rightarrow> 'k \<Rightarrow> nat" where
  "upper_bound_a_c ke a key = upper_bound_c ke a key 0 (length a)"
definition equal_range_0_c :: "('a \<Rightarrow> 'k \<Rightarrow> bool) \<Rightarrow> ('k \<Rightarrow> 'a \<Rightarrow> bool) \<Rightarrow> 'a list \<Rightarrow> nat \<Rightarrow> 'k \<Rightarrow> nat \<times> nat" where
  "equal_range_0_c ek ke a n key = equal_range_c ek ke a key 0 n"
definition equal_range_a_c :: "('a \<Rightarrow> 'k \<Rightarrow> bool) \<Rightarrow> ('k \<Rightarrow> 'a \<Rightarrow> bool) \<Rightarrow> 'a list \<Rightarrow> 'k \<Rightarrow> nat \<times> nat" where
  "equal_range_a_c ek ke a key = equal_range_c ek ke a key 0 (length a)"
definition binary_search_0_c :: "('a \<Rightarrow> 'k \<Rightarrow> bool) \<Rightarrow> ('k \<Rightarrow> 'a \<Rightarrow> bool) \<Rightarrow> 'a list \<Rightarrow> nat \<Rightarrow> 'k \<Rightarrow> bool" where
  "binary_search_0_c ek ke a n key = binary_search_c ek ke a key 0 n"
definition binary_search_a_c :: "('a \<Rightarrow> 'k \<Rightarrow> bool) \<Rightarrow> ('k \<Rightarrow> 'a \<Rightarrow> bool) \<Rightarrow> 'a list \<Rightarrow> 'k \<Rightarrow> bool" where
  "binary_search_a_c ek ke a key = binary_search_c ek ke a key 0 (length a)"

section \<open>Searches with a key extractor\<close>

function lower_bound_ex_n :: "('b \<Rightarrow> 'a::linorder) \<Rightarrow> 'b list \<Rightarrow> 'a \<Rightarrow> nat \<Rightarrow> nat \<Rightarrow> nat" where
  "lower_bound_ex_n keyEx a key i j =
     (if i < j then
        let mid = (i + j) div 2 in
        if keyEx (a ! mid) < key then lower_bound_ex_n keyEx a key (mid + 1) j else lower_bound_ex_n keyEx a key i mid
      else i)"
  by pat_completeness auto
termination
  by (relation "measure (\<lambda>(keyEx, a, key, i, j). j - i)") auto

declare lower_bound_ex_n.simps [simp del]

function upper_bound_ex_n :: "('b \<Rightarrow> 'a::linorder) \<Rightarrow> 'b list \<Rightarrow> 'a \<Rightarrow> nat \<Rightarrow> nat \<Rightarrow> nat" where
  "upper_bound_ex_n keyEx a key i j =
     (if i < j then
        let mid = (i + j) div 2 in
        if key < keyEx (a ! mid) then upper_bound_ex_n keyEx a key i mid else upper_bound_ex_n keyEx a key (mid + 1) j
      else i)"
  by pat_completeness auto
termination
  by (relation "measure (\<lambda>(keyEx, a, key, i, j). j - i)") auto

declare upper_bound_ex_n.simps [simp del]

function equal_range_ex_loop :: "('b \<Rightarrow> 'a::linorder) \<Rightarrow> 'b list \<Rightarrow> 'a \<Rightarrow> nat \<Rightarrow> nat \<Rightarrow> nat \<Rightarrow> nat \<times> nat" where
  "equal_range_ex_loop keyEx a key upp i j =
     (if i < j then
        let mid = (i + j) div 2 in
        if keyEx (a ! mid) < key then equal_range_ex_loop keyEx a key upp (mid + 1) j
        else if key < keyEx (a ! mid) then equal_range_ex_loop keyEx a key upp i mid
        else (lower_bound_ex_n keyEx a key i mid, upper_bound_ex_n keyEx a key (mid + 1) upp)
      else (i, i))"
  by pat_completeness auto
termination
  by (relation "measure (\<lambda>(keyEx, a, key, upp, i, j). j - i)") auto

declare equal_range_ex_loop.simps [simp del]

definition equal_range_ex_n :: "('b \<Rightarrow> 'a::linorder) \<Rightarrow> 'b list \<Rightarrow> 'a \<Rightarrow> nat \<Rightarrow> nat \<Rightarrow> nat \<times> nat" where
  "equal_range_ex_n keyEx a key low upp = equal_range_ex_loop keyEx a key upp low upp"

definition binary_search_ex_n :: "('b \<Rightarrow> 'a::linorder) \<Rightarrow> 'b list \<Rightarrow> 'a \<Rightarrow> nat \<Rightarrow> nat \<Rightarrow> bool" where
  "binary_search_ex_n keyEx a key low upp =
     (let f = lower_bound_ex_n keyEx a key low upp in f < upp \<and> \<not> (key < keyEx (a ! f)))"

function lower_bound_ex_c :: "('a \<Rightarrow> 'k \<Rightarrow> bool) \<Rightarrow> ('b \<Rightarrow> 'a) \<Rightarrow> 'b list \<Rightarrow> 'k \<Rightarrow> nat \<Rightarrow> nat \<Rightarrow> nat" where
  "lower_bound_ex_c ek keyEx a key i j =
     (if i < j then
        let mid = (i + j) div 2 in
        if ek (keyEx (a ! mid)) key then lower_bound_ex_c ek keyEx a key (mid + 1) j else lower_bound_ex_c ek keyEx a key i mid
      else i)"
  by pat_completeness auto
termination
  by (relation "measure (\<lambda>(ek, keyEx, a, key, i, j). j - i)") auto

declare lower_bound_ex_c.simps [simp del]

function upper_bound_ex_c :: "('k \<Rightarrow> 'a \<Rightarrow> bool) \<Rightarrow> ('b \<Rightarrow> 'a) \<Rightarrow> 'b list \<Rightarrow> 'k \<Rightarrow> nat \<Rightarrow> nat \<Rightarrow> nat" where
  "upper_bound_ex_c ke keyEx a key i j =
     (if i < j then
        let mid = (i + j) div 2 in
        if ke key (keyEx (a ! mid)) then upper_bound_ex_c ke keyEx a key i mid else upper_bound_ex_c ke keyEx a key (mid + 1) j
      else i)"
  by pat_completeness auto
termination
  by (relation "measure (\<lambda>(ke, keyEx, a, key, i, j). j - i)") auto

declare upper_bound_ex_c.simps [simp del]

function equal_range_ex_c :: "('a \<Rightarrow> 'k \<Rightarrow> bool) \<Rightarrow> ('k \<Rightarrow> 'a \<Rightarrow> bool) \<Rightarrow> ('b \<Rightarrow> 'a) \<Rightarrow> 'b list \<Rightarrow> 'k \<Rightarrow> nat \<Rightarrow> nat \<Rightarrow> nat \<times> nat" where
  "equal_range_ex_c ek ke keyEx a key i j =
     (if i < j then
        let mid = (i + j) div 2 in
        if ek (keyEx (a ! mid)) key then equal_range_ex_c ek ke keyEx a key (mid + 1) j
        else if ke key (keyEx (a ! mid)) then equal_range_ex_c ek ke keyEx a key i mid
        else (lower_bound_ex_c ek keyEx a key i mid, upper_bound_ex_c ke keyEx a key (mid + 1) j)
      else (i, i))"
  by pat_completeness auto
termination
  by (relation "measure (\<lambda>(ek, ke, keyEx, a, key, i, j). j - i)") auto

declare equal_range_ex_c.simps [simp del]

definition binary_search_ex_c :: "('a \<Rightarrow> 'k \<Rightarrow> bool) \<Rightarrow> ('k \<Rightarrow> 'a \<Rightarrow> bool) \<Rightarrow> ('b \<Rightarrow> 'a) \<Rightarrow> 'b list \<Rightarrow> 'k \<Rightarrow> nat \<Rightarrow> nat \<Rightarrow> bool" where
  "binary_search_ex_c ek ke keyEx a key low upp =
     (let f = lower_bound_ex_c ek keyEx a key low upp in f < upp \<and> \<not> ke key (keyEx (a ! f)))"

text \<open>The entry points on an iterator range search \<open>beg\<close> from 0 to \<open>end - beg\<close> and give iterators: in the model
  \<open>beg\<close> and \<open>en\<close> are indices of an array.\<close>

definition lower_bound_ex :: "('a \<Rightarrow> 'k \<Rightarrow> bool) \<Rightarrow> ('b \<Rightarrow> 'a) \<Rightarrow> 'b list \<Rightarrow> nat \<Rightarrow> nat \<Rightarrow> 'k \<Rightarrow> nat" where
  "lower_bound_ex ek keyEx a beg en key = beg + lower_bound_ex_c ek keyEx (drop beg a) key 0 (en - beg)"
definition upper_bound_ex :: "('k \<Rightarrow> 'a \<Rightarrow> bool) \<Rightarrow> ('b \<Rightarrow> 'a) \<Rightarrow> 'b list \<Rightarrow> nat \<Rightarrow> nat \<Rightarrow> 'k \<Rightarrow> nat" where
  "upper_bound_ex ke keyEx a beg en key = beg + upper_bound_ex_c ke keyEx (drop beg a) key 0 (en - beg)"
definition equal_range_ex :: "('a \<Rightarrow> 'k \<Rightarrow> bool) \<Rightarrow> ('k \<Rightarrow> 'a \<Rightarrow> bool) \<Rightarrow> ('b \<Rightarrow> 'a) \<Rightarrow> 'b list \<Rightarrow> nat \<Rightarrow> nat \<Rightarrow> 'k \<Rightarrow> nat \<times> nat" where
  "equal_range_ex ek ke keyEx a beg en key =
     (let r = equal_range_ex_c ek ke keyEx (drop beg a) key 0 (en - beg) in (beg + fst r, beg + snd r))"
definition binary_search_ex :: "('a \<Rightarrow> 'k \<Rightarrow> bool) \<Rightarrow> ('k \<Rightarrow> 'a \<Rightarrow> bool) \<Rightarrow> ('b \<Rightarrow> 'a) \<Rightarrow> 'b list \<Rightarrow> nat \<Rightarrow> nat \<Rightarrow> 'k \<Rightarrow> bool" where
  "binary_search_ex ek ke keyEx a beg en key = binary_search_ex_c ek ke keyEx (drop beg a) key 0 (en - beg)"

section \<open>Specification\<close>

text \<open>\<open>is_split P low upp r\<close>: in the range \<open>[low, upp)\<close>, \<open>P\<close> holds exactly before \<open>r\<close>.
  \<open>partitioned ek ke a key low upp\<close>: what a search asks of the range, in the
  words of the C++ standard that it is partitioned with respect to the key: the elements before the key come
  first, then those that are neither, then those after it.\<close>

definition is_split :: "(nat \<Rightarrow> bool) \<Rightarrow> nat \<Rightarrow> nat \<Rightarrow> nat \<Rightarrow> bool" where
  "is_split P low upp r \<longleftrightarrow> low \<le> r \<and> r \<le> upp \<and> (\<forall>k. low \<le> k \<and> k < upp \<longrightarrow> (P k \<longleftrightarrow> k < r))"

definition partitioned :: "('a \<Rightarrow> 'k \<Rightarrow> bool) \<Rightarrow> ('k \<Rightarrow> 'a \<Rightarrow> bool) \<Rightarrow> 'a list \<Rightarrow> 'k \<Rightarrow> nat \<Rightarrow> nat \<Rightarrow> bool" where
  "partitioned ek ke a key low upp \<longleftrightarrow> low \<le> upp \<and> upp \<le> length a
     \<and> (\<forall>i j. low \<le> i \<and> i \<le> j \<and> j < upp \<longrightarrow> (ek (a ! j) key \<longrightarrow> ek (a ! i) key) \<and> (ke key (a ! i) \<longrightarrow> ke key (a ! j)))
     \<and> (\<forall>i. low \<le> i \<and> i < upp \<longrightarrow> \<not> (ek (a ! i) key \<and> ke key (a ! i)))"

text \<open>The common shape of the lower and upper bound loops.\<close>

function bisect :: "(nat \<Rightarrow> bool) \<Rightarrow> nat \<Rightarrow> nat \<Rightarrow> nat" where
  "bisect P i j = (if i < j then let mid = (i + j) div 2 in if P mid then bisect P (mid + 1) j else bisect P i mid else i)"
  by pat_completeness auto
termination
  by (relation "measure (\<lambda>(P, i, j). j - i)") auto

declare bisect.simps [simp del]

text \<open>The search for both bounds that looks for the upper one up to the end of the whole range.\<close>

function equal_range_u :: "('a \<Rightarrow> 'k \<Rightarrow> bool) \<Rightarrow> ('k \<Rightarrow> 'a \<Rightarrow> bool) \<Rightarrow> 'a list \<Rightarrow> 'k \<Rightarrow> nat \<Rightarrow> nat \<Rightarrow> nat \<Rightarrow> nat \<times> nat" where
  "equal_range_u ek ke a key upp i j =
     (if i < j then
        let mid = (i + j) div 2 in
        if ek (a ! mid) key then equal_range_u ek ke a key upp (mid + 1) j
        else if ke key (a ! mid) then equal_range_u ek ke a key upp i mid
        else (lower_bound_c ek a key i mid, upper_bound_c ke a key (mid + 1) upp)
      else (i, i))"
  by pat_completeness auto
termination
  by (relation "measure (\<lambda>(ek, ke, a, key, upp, i, j). j - i)") auto

declare equal_range_u.simps [simp del]

text \<open>What a loop that looks for both bounds has excluded so far, and what a hit then gives.\<close>

definition bracket :: "('a \<Rightarrow> 'k \<Rightarrow> bool) \<Rightarrow> ('k \<Rightarrow> 'a \<Rightarrow> bool) \<Rightarrow> 'a list \<Rightarrow> 'k \<Rightarrow> nat \<Rightarrow> nat \<Rightarrow> nat \<Rightarrow> nat \<Rightarrow> bool" where
  "bracket ek ke a key low upp i j \<longleftrightarrow> low \<le> i \<and> i \<le> j \<and> j \<le> upp
     \<and> (\<forall>k. low \<le> k \<and> k < i \<longrightarrow> ek (a ! k) key) \<and> (\<forall>k. j \<le> k \<and> k < upp \<longrightarrow> ke key (a ! k))"

definition both_bounds :: "('a \<Rightarrow> 'k \<Rightarrow> bool) \<Rightarrow> ('k \<Rightarrow> 'a \<Rightarrow> bool) \<Rightarrow> 'a list \<Rightarrow> 'k \<Rightarrow> nat \<Rightarrow> nat \<Rightarrow> nat \<times> nat" where
  "both_bounds ek ke a key low upp = (lower_bound_c ek a key low upp, upper_bound_c ke a key low upp)"

definition search_sample :: "(nat \<times> nat) list" where
  "search_sample = [(1, 7), (3, 5), (3, 6), (4, 0)]"

section \<open>The loops\<close>

lemma is_split_unique: "is_split P low upp r \<Longrightarrow> is_split P low upp r' \<Longrightarrow> r = r'"
  unfolding is_split_def by (metis le_less_trans less_le_not_le linorder_neqE_nat order_less_le_trans)

lemma is_split_extend:
  "is_split P i j r \<Longrightarrow> low \<le> i \<Longrightarrow> j \<le> upp \<Longrightarrow> (\<And>k. low \<le> k \<Longrightarrow> k < i \<Longrightarrow> P k) \<Longrightarrow>
    (\<And>k. j \<le> k \<Longrightarrow> k < upp \<Longrightarrow> \<not> P k) \<Longrightarrow> is_split P low upp r"
  unfolding is_split_def by (metis le_less_linear le_trans order_less_le_trans)

lemma mid_bounds: "i < j \<Longrightarrow> i \<le> (i + j) div 2 \<and> (i + j) div 2 < (j::nat)"
  by auto

lemma bisect_split:
  assumes "i \<le> j" and "\<And>k l. i \<le> k \<Longrightarrow> k \<le> l \<Longrightarrow> l < j \<Longrightarrow> P l \<Longrightarrow> P k"
  shows "is_split P i j (bisect P i j)"
  using assms
proof (induction P i j rule: bisect.induct)
  case (1 P i j)
  show ?case
  proof (cases "i < j")
    case True
    define mid where "mid = (i + j) div 2"
    have mid: "i \<le> mid" "mid < j" using mid_bounds [OF True] by (simp_all add: mid_def)
    show ?thesis
    proof (cases "P mid")
      case hit: True
      have "is_split P (mid + 1) j (bisect P (mid + 1) j)"
        using "1.IH"(1) [OF True refl] hit mid "1.prems"(2) by (simp add: mid_def [symmetric])
      then have "is_split P i j (bisect P (mid + 1) j)"
      proof (rule is_split_extend)
        show "P k" if "i \<le> k" "k < mid + 1" for k using "1.prems"(2) [of k mid] that hit mid by simp
      qed (use mid in auto)
      then show ?thesis using True hit by (subst bisect.simps) (simp add: mid_def [symmetric] Let_def)
    next
      case miss: False
      have "is_split P i mid (bisect P i mid)"
        using "1.IH"(2) [OF True refl] miss mid "1.prems"(2) by (simp add: mid_def [symmetric])
      then have "is_split P i j (bisect P i mid)"
      proof (rule is_split_extend)
        show "\<not> P k" if "mid \<le> k" "k < j" for k using "1.prems"(2) [of mid k] that miss mid by blast
      qed (use mid in auto)
      then show ?thesis using True miss by (subst bisect.simps) (simp add: mid_def [symmetric] Let_def)
    qed
  next
    case False
    with "1.prems"(1) show ?thesis by (subst bisect.simps) (auto simp: is_split_def)
  qed
qed

text \<open>Every loop is an instance of the common shape.\<close>

lemma lower_bound_c_bisect: "lower_bound_c ek a key i j = bisect (\<lambda>m. ek (a ! m) key) i j"
  by (induction ek a key i j rule: lower_bound_c.induct) (simp add: lower_bound_c.simps bisect.simps Let_def)

lemma upper_bound_c_bisect: "upper_bound_c ke a key i j = bisect (\<lambda>m. \<not> ke key (a ! m)) i j"
  by (induction ke a key i j rule: upper_bound_c.induct) (simp add: upper_bound_c.simps bisect.simps Let_def)

lemma lower_bound_n_c: "lower_bound_n a key i j = lower_bound_c (<) a key i j"
  by (induction a key i j rule: lower_bound_n.induct) (simp add: lower_bound_n.simps lower_bound_c.simps Let_def)

lemma upper_bound_n_c: "upper_bound_n a key i j = upper_bound_c (<) a key i j"
  by (induction a key i j rule: upper_bound_n.induct) (simp add: upper_bound_n.simps upper_bound_c.simps Let_def)

lemma lower_bound_ex_c_c: "lower_bound_ex_c ek keyEx a key i j = lower_bound_c (\<lambda>x. ek (keyEx x)) a key i j"
  by (induction ek keyEx a key i j rule: lower_bound_ex_c.induct)
    (simp add: lower_bound_ex_c.simps lower_bound_c.simps Let_def)

lemma upper_bound_ex_c_c: "upper_bound_ex_c ke keyEx a key i j = upper_bound_c (\<lambda>k x. ke k (keyEx x)) a key i j"
  by (induction ke keyEx a key i j rule: upper_bound_ex_c.induct)
    (simp add: upper_bound_ex_c.simps upper_bound_c.simps Let_def)

lemma lower_bound_ex_n_c: "lower_bound_ex_n keyEx a key i j = lower_bound_c (\<lambda>x. (<) (keyEx x)) a key i j"
  by (induction keyEx a key i j rule: lower_bound_ex_n.induct)
    (simp add: lower_bound_ex_n.simps lower_bound_c.simps Let_def)

lemma upper_bound_ex_n_c: "upper_bound_ex_n keyEx a key i j = upper_bound_c (\<lambda>k x. k < keyEx x) a key i j"
  by (induction keyEx a key i j rule: upper_bound_ex_n.induct)
    (simp add: upper_bound_ex_n.simps upper_bound_c.simps Let_def)

lemma equal_range_loop_u: "equal_range_loop a key upp i j = equal_range_u (<) (<) a key upp i j"
  by (induction a key upp i j rule: equal_range_loop.induct)
    (simp add: equal_range_loop.simps equal_range_u.simps lower_bound_n_c upper_bound_n_c Let_def)

lemma equal_range_ex_loop_u:
  "equal_range_ex_loop keyEx a key upp i j = equal_range_u (\<lambda>x. (<) (keyEx x)) (\<lambda>k x. k < keyEx x) a key upp i j"
  by (induction keyEx a key upp i j rule: equal_range_ex_loop.induct)
    (simp add: equal_range_ex_loop.simps equal_range_u.simps lower_bound_ex_n_c upper_bound_ex_n_c Let_def)

lemma equal_range_ex_c_c:
  "equal_range_ex_c ek ke keyEx a key i j = equal_range_c (\<lambda>x. ek (keyEx x)) (\<lambda>k x. ke k (keyEx x)) a key i j"
  by (induction ek ke keyEx a key i j rule: equal_range_ex_c.induct)
    (simp add: equal_range_ex_c.simps equal_range_c.simps lower_bound_ex_c_c upper_bound_ex_c_c Let_def)

lemma binary_search_c_forms:
  "binary_search_n a' key' i j = binary_search_c (<) (<) a' key' i j"
  "binary_search_ex_n ex b key' i j = binary_search_c (\<lambda>x. (<) (ex x)) (\<lambda>k x. k < ex x) b key' i j"
  "binary_search_ex_c ek ke ex' b key i j = binary_search_c (\<lambda>x. ek (ex' x)) (\<lambda>k x. ke k (ex' x)) b key i j"
  by (simp_all add: binary_search_n_def binary_search_c_def binary_search_ex_n_def binary_search_ex_c_def lower_bound_n_c
    lower_bound_ex_n_c lower_bound_ex_c_c)

lemmas search_forms = lower_bound_n_c upper_bound_n_c lower_bound_ex_c_c upper_bound_ex_c_c lower_bound_ex_n_c
  upper_bound_ex_n_c equal_range_loop_u equal_range_ex_loop_u equal_range_ex_c_c binary_search_c_forms
  equal_range_n_def equal_range_ex_n_def

section \<open>Partitioned ranges\<close>

lemma lower_bound_c_split:
  assumes "partitioned ek ke a key low upp" and "low \<le> i" and "i \<le> j" and "j \<le> upp"
  shows "is_split (\<lambda>m. ek (a ! m) key) i j (lower_bound_c ek a key i j)"
  unfolding lower_bound_c_bisect
proof (rule bisect_split [OF assms(3)])
  fix k l assume "i \<le> k" "k \<le> l" "l < j" "ek (a ! l) key"
  with assms show "ek (a ! k) key" unfolding partitioned_def by (meson le_trans order_less_le_trans)
qed

lemma upper_bound_c_split:
  assumes "partitioned ek ke a key low upp" and "low \<le> i" and "i \<le> j" and "j \<le> upp"
  shows "is_split (\<lambda>m. \<not> ke key (a ! m)) i j (upper_bound_c ke a key i j)"
  unfolding upper_bound_c_bisect
proof (rule bisect_split [OF assms(3)])
  fix k l assume "i \<le> k" "k \<le> l" "l < j" "\<not> ke key (a ! l)"
  with assms show "\<not> ke key (a ! k)" unfolding partitioned_def by (meson le_trans order_less_le_trans)
qed

lemma bracket_empty:
  assumes p: "partitioned ek ke a key low upp" and b: "bracket ek ke a key low upp i i"
  shows "(i, i) = both_bounds ek ke a key low upp"
proof -
  have "is_split (\<lambda>m. ek (a ! m) key) low upp i" "is_split (\<lambda>m. \<not> ke key (a ! m)) low upp i"
    using p b unfolding partitioned_def bracket_def is_split_def by (meson le_trans not_le less_le_trans)+
  moreover have "low \<le> upp" using p by (simp add: partitioned_def)
  ultimately show ?thesis
    using lower_bound_c_split [OF p, of low upp] upper_bound_c_split [OF p, of low upp] is_split_unique
    by (auto simp: both_bounds_def)
qed

lemma bracket_hit:
  assumes p: "partitioned ek ke a key low upp" and b: "bracket ek ke a key low upp i j" and m: "i \<le> mid" "mid < j"
    and hit: "\<not> ek (a ! mid) key" "\<not> ke key (a ! mid)" and j': "j' = j \<or> j' = upp"
  shows "(lower_bound_c ek a key i mid, upper_bound_c ke a key (mid + 1) j') = both_bounds ek ke a key low upp"
proof -
  have r: "low \<le> i" "j \<le> upp" "low \<le> mid" "mid < upp" "low \<le> upp" "mid + 1 \<le> j'" "j' \<le> upp"
    using b m j' unfolding bracket_def by auto
  have mono: "ek (a ! l) key \<Longrightarrow> ek (a ! k) key" "ke key (a ! k) \<Longrightarrow> ke key (a ! l)" if "low \<le> k" "k \<le> l" "l < upp" for k l
    using p that unfolding partitioned_def by blast+
  have "is_split (\<lambda>m. ek (a ! m) key) low upp (lower_bound_c ek a key i mid)"
  proof (rule is_split_extend [OF lower_bound_c_split [OF p]])
    show "ek (a ! k) key" if "low \<le> k" "k < i" for k using b that unfolding bracket_def by blast
    show "\<not> ek (a ! k) key" if "mid \<le> k" "k < upp" for k using mono(1) [of mid k] r that hit by blast
  qed (use r m in auto)
  moreover have "is_split (\<lambda>m. \<not> ke key (a ! m)) low upp (upper_bound_c ke a key (mid + 1) j')"
  proof (rule is_split_extend [OF upper_bound_c_split [OF p]])
    show "\<not> ke key (a ! k)" if "low \<le> k" "k < mid + 1" for k using mono(2) [of k mid] r that hit by auto
    show "\<not> \<not> ke key (a ! k)" if "j' \<le> k" "k < upp" for k using b j' that unfolding bracket_def by auto
  qed (use r m in auto)
  ultimately show ?thesis
    using lower_bound_c_split [OF p, of low upp] upper_bound_c_split [OF p, of low upp] r is_split_unique
    by (auto simp: both_bounds_def)
qed

lemma bracket_left:
  "partitioned ek ke a key low upp \<Longrightarrow> bracket ek ke a key low upp i j \<Longrightarrow> i \<le> mid \<Longrightarrow> mid < j \<Longrightarrow> ek (a ! mid) key
    \<Longrightarrow> bracket ek ke a key low upp (mid + 1) j"
  unfolding partitioned_def bracket_def
  by (intro conjI allI impI; elim conjE) (simp_all, meson less_Suc_eq_le less_le_trans)

lemma bracket_right:
  "partitioned ek ke a key low upp \<Longrightarrow> bracket ek ke a key low upp i j \<Longrightarrow> i \<le> mid \<Longrightarrow> mid < j \<Longrightarrow> ke key (a ! mid)
    \<Longrightarrow> bracket ek ke a key low upp i mid"
  unfolding partitioned_def bracket_def by (meson le_trans less_imp_le_nat)

lemma equal_range_c_both:
  assumes p: "partitioned ek ke a key low upp"
  shows "bracket ek ke a key low upp i j \<Longrightarrow> equal_range_c ek ke a key i j = both_bounds ek ke a key low upp"
  using p
proof (induction ek ke a key i j rule: equal_range_c.induct)
  case (1 ek ke a key i j)
  note b = "1.prems"(1) and p = "1.prems"(2)
  show ?case
  proof (cases "i < j")
    case True
    note m = mid_bounds [OF True]
    show ?thesis
      using "1.IH" [OF True refl] bracket_left [OF p b] bracket_right [OF p b] bracket_hit [OF p b, of "(i + j) div 2" j] m p True
      by (subst equal_range_c.simps) (auto simp: Let_def)
  next
    case False
    with b have "j = i" by (simp add: bracket_def)
    with b bracket_empty [OF p, of i] False show ?thesis by (simp add: equal_range_c.simps)
  qed
qed

lemma equal_range_u_both:
  assumes p: "partitioned ek ke a key low upp"
  shows "bracket ek ke a key low upp i j \<Longrightarrow> equal_range_u ek ke a key upp i j = both_bounds ek ke a key low upp"
  using p
proof (induction ek ke a key upp i j rule: equal_range_u.induct)
  case (1 ek ke a key upp i j)
  note b = "1.prems"(1) and p = "1.prems"(2)
  show ?case
  proof (cases "i < j")
    case True
    note m = mid_bounds [OF True]
    show ?thesis
      using "1.IH" [OF True refl] bracket_left [OF p b] bracket_right [OF p b] bracket_hit [OF p b, of "(i + j) div 2" upp] m p True
      by (subst equal_range_u.simps) (auto simp: Let_def)
  next
    case False
    with b have "j = i" by (simp add: bracket_def)
    with b bracket_empty [OF p, of i] False show ?thesis by (simp add: equal_range_u.simps)
  qed
qed

text \<open>The whole range is bracketed before the loop starts.\<close>

lemma bracket_start: "partitioned ek ke a key low upp \<Longrightarrow> bracket ek ke a key low upp low upp"
  by (auto simp: partitioned_def bracket_def)

lemma binary_search_c_iff:
  assumes p: "partitioned ek ke a key low upp"
  shows "binary_search_c ek ke a key low upp \<longleftrightarrow> (\<exists>i. low \<le> i \<and> i < upp \<and> \<not> ek (a ! i) key \<and> \<not> ke key (a ! i))"
proof -
  define f where "f = lower_bound_c ek a key low upp"
  have "low \<le> upp" using p by (simp add: partitioned_def)
  then have f: "is_split (\<lambda>m. ek (a ! m) key) low upp f" using lower_bound_c_split [OF p, of low upp] by (simp add: f_def)
  have ke: "ke key (a ! f) \<Longrightarrow> ke key (a ! i)" if "f \<le> i" "i < upp" for i
    using f p that unfolding is_split_def partitioned_def by blast
  have "f < upp \<and> \<not> ke key (a ! f) \<longleftrightarrow> (\<exists>i. low \<le> i \<and> i < upp \<and> \<not> ek (a ! i) key \<and> \<not> ke key (a ! i))"
  proof
    assume "f < upp \<and> \<not> ke key (a ! f)"
    with f show "\<exists>i. low \<le> i \<and> i < upp \<and> \<not> ek (a ! i) key \<and> \<not> ke key (a ! i)" unfolding is_split_def by blast
  next
    assume "\<exists>i. low \<le> i \<and> i < upp \<and> \<not> ek (a ! i) key \<and> \<not> ke key (a ! i)"
    then obtain i where i: "low \<le> i" "i < upp" "\<not> ek (a ! i) key" "\<not> ke key (a ! i)" by blast
    with f have "f \<le> i" unfolding is_split_def by auto
    with ke [of i] i show "f < upp \<and> \<not> ke key (a ! f)" by auto
  qed
  then show ?thesis by (simp add: binary_search_c_def f_def [symmetric])
qed

section \<open>Comparators\<close>

text \<open>What the C++ standard asks of a comparator: a strict weak order. A range that is sorted by it is
  partitioned with respect to every key.\<close>

locale strict_weak_order =
  fixes lt :: "'a \<Rightarrow> 'a \<Rightarrow> bool"
  assumes irrefl: "\<not> lt x x"
    and trans: "lt x y \<Longrightarrow> lt y z \<Longrightarrow> lt x z"
    and comparable: "lt x y \<Longrightarrow> lt x z \<or> lt z y"
begin

lemma sorted_partitioned:
  assumes "sorted_wrt (\<lambda>x y. \<not> lt y x) a" and "low \<le> upp" and "upp \<le> length a"
  shows "partitioned lt lt a key low upp"
proof -
  have s: "\<not> lt (a ! j) (a ! i)" if "i \<le> j" "j < upp" for i j
    using assms(1,3) that irrefl by (cases "i = j") (auto simp: sorted_wrt_iff_nth_less)
  have "(lt (a ! j) key \<longrightarrow> lt (a ! i) key) \<and> (lt key (a ! i) \<longrightarrow> lt key (a ! j))" if "i \<le> j" "j < upp" for i j
    using s [OF that] comparable by blast
  moreover have "\<not> (lt x key \<and> lt key x)" for x using trans irrefl by blast
  ultimately show ?thesis unfolding partitioned_def using assms(2,3) by blast
qed

lemma lower_bound_sorted:
  assumes "sorted_wrt (\<lambda>x y. \<not> lt y x) a" and "low \<le> upp" and "upp \<le> length a"
  shows "is_split (\<lambda>m. lt (a ! m) key) low upp (lower_bound_c lt a key low upp)"
  using lower_bound_c_split [OF sorted_partitioned [OF assms, of key], of low upp] assms by simp

lemma upper_bound_sorted:
  assumes "sorted_wrt (\<lambda>x y. \<not> lt y x) a" and "low \<le> upp" and "upp \<le> length a"
  shows "is_split (\<lambda>m. \<not> lt key (a ! m)) low upp (upper_bound_c lt a key low upp)"
  using upper_bound_c_split [OF sorted_partitioned [OF assms, of key], of low upp] assms by simp

end

text \<open>\<open>operator<\<close> of a totally ordered type, and the order by an extracted key.\<close>

interpretation less: strict_weak_order "(<) :: 'a::linorder \<Rightarrow> 'a \<Rightarrow> bool"
  by unfold_locales auto

interpretation by_key: strict_weak_order "\<lambda>x y. keyEx x < (keyEx y :: 'a::linorder)" for keyEx
  by unfold_locales auto

interpretation vv_order: strict_weak_order "\<lambda>x y. ord_class.lexordp (vec x) (vec (y :: 'a::linorder valvec))"
  by unfold_locales (auto simp: lexordp_conv_lexordp_eq intro: lexordp_eq_trans, metis lexordp_eq_linear lexordp_eq_trans)

lemma split_filter:
  assumes "is_split P 0 n r"
  shows "r = length (filter P [0..<n])"
proof -
  have n: "[0..<n] = [0..<r] @ [r..<n]" using assms by (metis is_split_def le0 le_add_diff_inverse upt_add_eq_append)
  have "filter P [0..<n] = filter (\<lambda>k. k < r) [0..<n]" by (rule filter_cong) (use assms in \<open>auto simp: is_split_def\<close>)
  also have "\<dots> = [0..<r]" unfolding n by (simp add: filter_empty_conv)
  finally show ?thesis by simp
qed

lemma filter_nth: "length (filter (\<lambda>k. P (a ! k)) [0..<length a]) = length (filter P a)"
proof -
  have "filter P a = filter P (map ((!) a) [0..<length a])" by (simp add: map_nth)
  then show ?thesis by (simp add: filter_map comp_def)
qed

lemma vv_lt_partitioned:
  fixes a :: "'a::linorder valvec list"
  assumes "\<forall>x \<in> set a. vv_inv x" and "vv_inv key" and "sorted_wrt (\<lambda>x y. \<not> vv_lt y x) a"
  shows "partitioned vv_lt vv_lt a key 0 (length a)"
proof -
  have l: "vv_lt x y \<longleftrightarrow> ord_class.lexordp (vec x) (vec y)" if "vv_inv x" "vv_inv y" for x y :: "'a valvec"
    using that by (simp add: vv_lt_def vv_lessThan_lex)
  have "sorted_wrt (\<lambda>x y. \<not> ord_class.lexordp (vec y) (vec x)) a"
    by (rule sorted_wrt_mono_rel [OF _ assms(3)]) (use assms(1) l in auto)
  from vv_order.sorted_partitioned [OF this, of 0 "length a" key] show ?thesis
    using assms(1,2) l unfolding partitioned_def by (auto simp: order_le_less_trans)
qed

section \<open>Properties\<close>

text \<open>On a partitioned range the comparator and the extractor versions find the two bounds: everything before the lower bound
  orders before the key and nothing after it does, everything from the upper bound on orders after the key and nothing
  before it does; \<open>equal_range\<close> returns both and \<open>binary_search\<close> tells whether an element is equivalent to the key.
  The versions with an extractor do the same for the extracted keys.\<close>

theorem search_partitioned_correct:
  assumes "partitioned (\<lambda>x. ek (keyEx x)) (\<lambda>k x. ke k (keyEx x)) a key low upp"
  shows "is_split (\<lambda>m. ek (keyEx (a ! m)) key) low upp (lower_bound_ex_c ek keyEx a key low upp)
    \<and> is_split (\<lambda>m. \<not> ke key (keyEx (a ! m))) low upp (upper_bound_ex_c ke keyEx a key low upp)
    \<and> equal_range_ex_c ek ke keyEx a key low upp = (lower_bound_ex_c ek keyEx a key low upp, upper_bound_ex_c ke keyEx a key low upp)
    \<and> (binary_search_ex_c ek ke keyEx a key low upp \<longleftrightarrow>
        (\<exists>i. low \<le> i \<and> i < upp \<and> \<not> ek (keyEx (a ! i)) key \<and> \<not> ke key (keyEx (a ! i))))"
proof -
  have "low \<le> upp" using assms by (simp add: partitioned_def)
  with lower_bound_c_split [OF assms, of low upp] upper_bound_c_split [OF assms, of low upp]
    equal_range_c_both [OF assms bracket_start [OF assms]] binary_search_c_iff [OF assms] show ?thesis
    by (simp add: search_forms both_bounds_def)
qed

theorem search_partitioned_correct_witness:
  "is_split (\<lambda>m. fst (search_sample ! m) < 3) 0 4 (lower_bound_ex_c (<) fst search_sample 3 0 4)
    \<and> is_split (\<lambda>m. \<not> 3 < fst (search_sample ! m)) 0 4 (upper_bound_ex_c (<) fst search_sample 3 0 4)
    \<and> equal_range_ex_c (<) (<) fst search_sample 3 0 4
        = (lower_bound_ex_c (<) fst search_sample 3 0 4, upper_bound_ex_c (<) fst search_sample 3 0 4)
    \<and> (binary_search_ex_c (<) (<) fst search_sample 3 0 4 \<longleftrightarrow>
        (\<exists>i. 0 \<le> i \<and> i < 4 \<and> \<not> fst (search_sample ! i) < 3 \<and> \<not> 3 < fst (search_sample ! i)))"
proof (rule search_partitioned_correct)
  have "partitioned (<) (<) (map fst search_sample) 3 0 4" by (rule less.sorted_partitioned) (simp_all add: search_sample_def)
  then show "partitioned (\<lambda>x. (<) (fst x)) (\<lambda>k x. k < fst x) search_sample 3 0 4"
    by (auto simp: partitioned_def)
qed

text \<open>C18. On a sorted array \<open>lower_bound_a\<close> is the number of smaller elements, \<open>upper_bound_a\<close> that of the elements
  up to the key, \<open>equal_range_a\<close> both, and \<open>binary_search_a\<close> decides membership.\<close>

theorem search_sorted_correct:
  fixes a :: "'a::linorder list"
  assumes "sorted a"
  shows "lower_bound_a a key = length (filter (\<lambda>x. x < key) a) \<and> upper_bound_a a key = length (filter (\<lambda>x. x \<le> key) a)
    \<and> equal_range_a a key = (lower_bound_a a key, upper_bound_a a key) \<and> (binary_search_a a key \<longleftrightarrow> key \<in> set a)"
proof -
  have s: "sorted_wrt (\<lambda>x y. \<not> y < x) a" using assms by (simp add: not_less)
  have p: "partitioned (<) (<) a key 0 (length a)" by (rule less.sorted_partitioned [OF s]) simp_all
  have l: "is_split (\<lambda>m. a ! m < key) 0 (length a) (lower_bound_a a key)"
    using less.lower_bound_sorted [OF s, of 0 "length a" key] by (simp add: lower_bound_a_def search_forms)
  have u: "is_split (\<lambda>m. a ! m \<le> key) 0 (length a) (upper_bound_a a key)"
    using less.upper_bound_sorted [OF s, of 0 "length a" key] by (simp add: upper_bound_a_def search_forms not_less)
  have "equal_range_a a key = (lower_bound_a a key, upper_bound_a a key)"
    using equal_range_u_both [OF p bracket_start [OF p]]
    by (simp add: equal_range_a_def lower_bound_a_def upper_bound_a_def search_forms both_bounds_def)
  moreover have "binary_search_a a key \<longleftrightarrow> key \<in> set a"
    using binary_search_c_iff [OF p] by (auto simp: binary_search_a_def search_forms in_set_conv_nth)
  ultimately show ?thesis
    using split_filter [OF l] split_filter [OF u] filter_nth [of "\<lambda>x. x < key" a] filter_nth [of "\<lambda>x. x \<le> key" a] by simp
qed

theorem search_sorted_correct_witness:
  "lower_bound_a [1, 3, 3, 8 :: nat] 3 = length (filter (\<lambda>x. x < 3) [1, 3, 3, 8 :: nat])
    \<and> upper_bound_a [1, 3, 3, 8 :: nat] 3 = length (filter (\<lambda>x. x \<le> 3) [1, 3, 3, 8 :: nat])
    \<and> equal_range_a [1, 3, 3, 8 :: nat] 3 = (lower_bound_a [1, 3, 3, 8 :: nat] 3, upper_bound_a [1, 3, 3, 8 :: nat] 3)
    \<and> (binary_search_a [1, 3, 3, 8 :: nat] 3 \<longleftrightarrow> 3 \<in> set [1, 3, 3, 8 :: nat])"
  by (rule search_sorted_correct) simp

text \<open>\<open>equal_range_n\<close> with \<open>operator<\<close> searches the upper bound in a larger range than the comparator
  version does; on a sorted range both, and the extractor versions, return the same pair.\<close>

theorem equal_range_versions_agree:
  fixes a :: "'b list" and keyEx :: "'b \<Rightarrow> 'a::linorder"
  assumes "sorted (map keyEx a)" and "low \<le> upp" and "upp \<le> length a"
  shows "equal_range_ex_n keyEx a key low upp = equal_range_ex_c (<) (<) keyEx a key low upp
    \<and> equal_range_n (map keyEx a) key low upp = equal_range_c (<) (<) (map keyEx a) key low upp"
proof -
  have s: "sorted_wrt (\<lambda>x y. \<not> y < x) (map keyEx a)" using assms(1) by (simp add: not_less)
  have p: "partitioned (<) (<) (map keyEx a) key low upp" by (rule less.sorted_partitioned [OF s]) (use assms in simp_all)
  then have p': "partitioned (\<lambda>x. (<) (keyEx x)) (\<lambda>k x. k < keyEx x) a key low upp"
    using assms(3) by (auto simp: partitioned_def)
  show ?thesis
    using equal_range_u_both [OF p bracket_start [OF p]] equal_range_c_both [OF p bracket_start [OF p]]
      equal_range_u_both [OF p' bracket_start [OF p']] equal_range_c_both [OF p' bracket_start [OF p']]
    by (simp add: search_forms)
qed

theorem equal_range_versions_agree_witness:
  "equal_range_ex_n fst search_sample 3 1 4 = equal_range_ex_c (<) (<) fst search_sample 3 1 4
    \<and> equal_range_n (map fst search_sample) 3 1 4 = equal_range_c (<) (<) (map fst search_sample) 3 1 4"
  by (rule equal_range_versions_agree) (simp_all add: search_sample_def)

text \<open>Searching vectors of vectors: on an array of \<open>valvec\<close> that is sorted by their \<open>operator<\<close>, the comparator
  version of \<open>binary_search_a\<close> finds exactly the vectors with the elements of the key.\<close>

theorem vv_binary_search:
  fixes a :: "'a::linorder valvec list"
  assumes "\<forall>x \<in> set a. vv_inv x" and "vv_inv key" and "sorted_wrt (\<lambda>x y. \<not> vv_lt y x) a"
  shows "binary_search_a_c vv_lt vv_lt a key \<longleftrightarrow> vec key \<in> vec ` set a"
proof -
  have eq: "\<not> vv_lt x key \<and> \<not> vv_lt key x \<longleftrightarrow> vec x = vec key" if "x \<in> set a" for x
    using assms(1,2) that lexordp_eq_linear [of "vec x" "vec key"] lexordp_eq_antisym [of "vec x" "vec key"]
    by (auto simp: vv_lt_def vv_lessThan_lex lexordp_conv_lexordp_eq)
  show ?thesis
    using binary_search_c_iff [OF vv_lt_partitioned [OF assms]] eq
    by (auto simp: binary_search_a_c_def in_set_conv_nth image_iff) (metis nth_mem)+
qed

theorem vv_binary_search_witness:
  "binary_search_a_c vv_lt vv_lt [vv_empty, vv_sample] vv_sample \<longleftrightarrow> vec vv_sample \<in> vec ` set [vv_empty, vv_sample]"
proof (rule vv_binary_search)
  show "\<forall>x \<in> set [vv_empty, vv_sample]. vv_inv x" "vv_inv vv_sample"
    by (simp_all add: vv_empty_def vv_sample_def vv_inv_def)
  show "sorted_wrt (\<lambda>x y. \<not> vv_lt y x) [vv_empty, vv_sample]"
    by (simp add: vv_lt_def vv_lessThan_def vv_less_loop.simps vv_empty_def vv_sample_def)
qed

end
