(* ===== verification/VarInt.thy ===== *)
theory VarInt
  imports Valvec
begin

text \<open>
  The variable length integers of \<open>src/src/terark/io/var_int.hpp\<close>, \<open>var_int_inline.hpp\<close> and \<open>var_int.cpp\<close>. Memory is a list of
  bytes and a pointer an index into it; a read or write outside the list is \<open>Inl Out_of_bounds\<close>. The templates over the
  unsigned type are polymorphic in the word length, with \<open>maxshift\<close> (28 for 32 bits, 63 for 64) as an argument.
  Signed values are words read with their sign.

  Two codes: seven bits per byte with a continuation bit (32 and 64 bits), and a length prefix of two or three
  bits in the first byte (30 and 61 bits). The second part gives the specification of both codes
  as functions from numbers to bytes; the lemmas show that every way of writing produces it and that reading inverts it,
  and where reading does not.
\<close>

section \<open>Bytes in memory\<close>

definition rd8 :: "u8 list \<Rightarrow> nat \<Rightarrow> error + u8" where
  "rd8 buf p = (if p < length buf then Inr (buf ! p) else Inl Out_of_bounds)"

definition wr8s :: "u8 list \<Rightarrow> nat \<Rightarrow> u8 list \<Rightarrow> error + u8 list" where
  "wr8s buf p bs = (if p + length bs \<le> length buf then Inr (put_at p bs buf) else Inl Out_of_bounds)"

text \<open>The little-endian number of some bytes, and a wider load through a cast.\<close>

fun le_word :: "u8 list \<Rightarrow> 'a::len word" where
  "le_word [] = 0"
| "le_word (b # bs) = ucast b OR push_bit 8 (le_word bs)"

definition ld_le :: "nat \<Rightarrow> u8 list \<Rightarrow> nat \<Rightarrow> error + 'a::len word" where
  "ld_le n buf p = (if p + n \<le> length buf then Inr (le_word (take n (drop p buf))) else Inl Out_of_bounds)"

section \<open>Signs in the lowest bit\<close>

text \<open>\<open>-x << 1\<close> and \<open>x << 1\<close> are computed at the width of the type, with wrap-around.\<close>

definition int_min :: "'a::len word" where
  "int_min = push_bit (LENGTH('a) - 1) 1"

definition var_int_s2u :: "'a::len word \<Rightarrow> 'a word" where
  "var_int_s2u x =
     (if sint x < 0 then
        if x = int_min then 1
        else push_bit 1 (- x) OR 1
      else push_bit 1 x)"

definition var_int_u2s :: "'a::len word \<Rightarrow> 'a word" where
  "var_int_u2s u =
     (if u AND 1 \<noteq> 0 then
        if drop_bit 1 u = 0 then int_min
        else - drop_bit 1 u
      else drop_bit 1 u)"

section \<open>Seven bits per byte\<close>

function load_var_loop :: "nat \<Rightarrow> u8 list \<Rightarrow> nat \<Rightarrow> nat \<Rightarrow> 'a::len word \<Rightarrow> error + 'a word \<times> nat" where
  "load_var_loop maxshift buf p shift x =
     (if shift \<le> maxshift then
        case rd8 buf p of
          Inl err \<Rightarrow> Inl err
        | Inr byte \<Rightarrow>
            let b = ucast byte :: 'a word;
                x = x OR push_bit shift (b AND 0x7F)
            in if b AND 0x80 = 0 then Inr (x, p + 1) else load_var_loop maxshift buf (p + 1) (shift + 7) x
      else Inl Runtime_error)"
  by pat_completeness auto
termination
  by (relation "measure (\<lambda>(maxshift, buf, p, shift, x). maxshift + 7 - shift)") auto

declare load_var_loop.simps [simp del]

definition gg_load_var_uint :: "nat \<Rightarrow> u8 list \<Rightarrow> nat \<Rightarrow> error + 'a::len word \<times> nat" where
  "gg_load_var_uint maxshift buf p = load_var_loop maxshift buf p 0 0"

text \<open>The same from a stream, whose \<open>readByte\<close> is the argument \<open>rb\<close>.\<close>

function load_var_slow_loop :: "('s \<Rightarrow> error + u8 \<times> 's) \<Rightarrow> nat \<Rightarrow> 's \<Rightarrow> nat \<Rightarrow> 'a::len word \<Rightarrow> error + 'a word \<times> 's" where
  "load_var_slow_loop rb maxshift s shift x =
     (if shift \<le> maxshift then
        case rb s of
          Inl err \<Rightarrow> Inl err
        | Inr (byte, s) \<Rightarrow>
            let b = ucast byte :: 'a word;
                x = x OR push_bit shift (b AND 0x7F)
            in if b AND 0x80 = 0 then Inr (x, s) else load_var_slow_loop rb maxshift s (shift + 7) x
      else Inl Runtime_error)"
  by pat_completeness auto
termination
  by (relation "measure (\<lambda>(rb, maxshift, s, shift, x). maxshift + 7 - shift)") auto

declare load_var_slow_loop.simps [simp del]

definition gg_load_var_uint_slow :: "('s \<Rightarrow> error + u8 \<times> 's) \<Rightarrow> nat \<Rightarrow> 's \<Rightarrow> error + 'a::len word \<times> 's" where
  "gg_load_var_uint_slow rb maxshift s = load_var_slow_loop rb maxshift s 0 0"

function gg_save_var_uint :: "u8 list \<Rightarrow> nat \<Rightarrow> 'a::len word \<Rightarrow> error + u8 list \<times> nat" where
  "gg_save_var_uint buf p x =
     (let b = ucast (x AND 0x7F) :: u8;
          x = drop_bit 7 x
      in if x \<noteq> 0 then
           case wr8s buf p [b OR 0x80] of Inl err \<Rightarrow> Inl err | Inr buf \<Rightarrow> gg_save_var_uint buf (p + 1) x
         else
           case wr8s buf p [b] of Inl err \<Rightarrow> Inl err | Inr buf \<Rightarrow> Inr (buf, p + 1))"
  by pat_completeness auto
termination
proof (relation "measure (\<lambda>(buf, p, x). unat x)")
  fix buf buf' b p and x xa :: "'a word" assume x: "xa = drop_bit 7 x" "xa \<noteq> 0"
  have "unat xa = drop_bit 7 (unat x)" unfolding x(1) by (rule unat_drop_bit_eq)
  moreover have "0 < unat xa" using x(2) by (simp add: unat_gt_0)
  ultimately show "((buf', p + 1, xa), buf, p, x) \<in> measure (\<lambda>(buf, p, x). unat x)" by (simp add: drop_bit_eq_div)
qed simp

declare gg_save_var_uint.simps [simp del]

section \<open>A length prefix\<close>

definition gg_load_var_uint30 :: "u8 list \<Rightarrow> nat \<Rightarrow> error + u32 \<times> nat" where
  "gg_load_var_uint30 buf p =
     (case ld_le 4 buf p of
        Inl err \<Rightarrow> Inl err
      | Inr x \<Rightarrow>
          let n = unat (x AND 3);
              x = x AND drop_bit (24 - n * 8) 0xFFFFFFFF
          in Inr (drop_bit 2 x, p + n + 1))"

definition gg_load_var_uint61 :: "u8 list \<Rightarrow> nat \<Rightarrow> error + u64 \<times> nat" where
  "gg_load_var_uint61 buf p =
     (case ld_le 8 buf p of
        Inl err \<Rightarrow> Inl err
      | Inr x \<Rightarrow>
          let n = unat (x AND 7);
              x = x AND drop_bit (56 - n * 8) 0xFFFFFFFFFFFFFFFF
          in Inr (drop_bit 3 x, p + n + 1))"

text \<open>The fall-through cases of the slow versions: \<open>k\<close> more bytes, each shifted in below the earlier ones.\<close>

fun read_more :: "('s \<Rightarrow> error + u8 \<times> 's) \<Rightarrow> nat \<Rightarrow> 's \<Rightarrow> 'a::len word \<Rightarrow> error + 'a word \<times> 's" where
  "read_more rb 0 s y = Inr (y, s)"
| "read_more rb (Suc k) s y = (case rb s of Inl err \<Rightarrow> Inl err | Inr (b, s) \<Rightarrow> read_more rb k s (push_bit 8 y OR ucast b))"

definition gg_load_var_uint30_slow :: "('s \<Rightarrow> error + u8 \<times> 's) \<Rightarrow> 's \<Rightarrow> error + u32 \<times> 's" where
  "gg_load_var_uint30_slow rb s =
     (case rb s of
        Inl err \<Rightarrow> Inl err
      | Inr (byte, s) \<Rightarrow>
          let x = ucast byte :: u32 in
          (case read_more rb (unat (x AND 3)) s 0 of
             Inl err \<Rightarrow> Inl err
           | Inr (y, s) \<Rightarrow> Inr (drop_bit 2 (x OR push_bit 8 y), s)))"

definition gg_load_var_uint61_slow :: "('s \<Rightarrow> error + u8 \<times> 's) \<Rightarrow> 's \<Rightarrow> error + u64 \<times> 's" where
  "gg_load_var_uint61_slow rb s =
     (case rb s of
        Inl err \<Rightarrow> Inl err
      | Inr (byte, s) \<Rightarrow>
          let x = ucast byte :: u64 in
          (case read_more rb (unat (x AND 7)) s 0 of
             Inl err \<Rightarrow> Inl err
           | Inr (y, s) \<Rightarrow> Inr (drop_bit 3 (x OR push_bit 8 y), s)))"

definition gg_save_var_uint30 :: "u8 list \<Rightarrow> nat \<Rightarrow> u32 \<Rightarrow> error + u8 list \<times> nat" where
  "gg_save_var_uint30 buf p x =
     (let x = push_bit 2 x;
          at = (\<lambda>k. ucast (drop_bit k x) :: u8);
          bs = (if x AND 0xFFFF0000 = 0 then
                  if x AND 0xFF00 = 0 then [ucast x]
                  else [ucast (x OR 1), at 8]
                else
                  if x AND 0xFF000000 = 0 then [ucast (x OR 2), at 8, at 16]
                  else [ucast (x OR 3), at 8, at 16, at 24])
      in case wr8s buf p bs of Inl err \<Rightarrow> Inl err | Inr buf \<Rightarrow> Inr (buf, p + length bs))"

definition gg_save_var_uint61 :: "u8 list \<Rightarrow> nat \<Rightarrow> u64 \<Rightarrow> error + u8 list \<times> nat" where
  "gg_save_var_uint61 buf p x =
     (let x = push_bit 3 x;
          at = (\<lambda>k. ucast (drop_bit k x) :: u8);
          bs = (if x AND 0xFFFFFFFF00000000 = 0 then
                  if x AND 0xFFFF0000 = 0 then
                    if x AND 0xFF00 = 0 then [ucast x]
                    else [ucast (x OR 1), at 8]
                  else
                    if x AND 0xFF000000 = 0 then [ucast (x OR 2), at 8, at 16]
                    else [ucast (x OR 3), at 8, at 16, at 24]
                else
                  if x AND 0xFFFF000000000000 = 0 then
                    if x AND 0x0000FF0000000000 = 0 then [ucast (x OR 4), at 8, at 16, at 24, at 32]
                    else [ucast (x OR 5), at 8, at 16, at 24, at 32, at 40]
                  else
                    if x AND 0xFF00000000000000 = 0 then [ucast (x OR 6), at 8, at 16, at 24, at 32, at 40, at 48]
                    else [ucast (x OR 7), at 8, at 16, at 24, at 32, at 40, at 48, at 56])
      in case wr8s buf p bs of Inl err \<Rightarrow> Inl err | Inr buf \<Rightarrow> Inr (buf, p + length bs))"

section \<open>The exported functions\<close>

definition map_val :: "('a \<Rightarrow> 'b) \<Rightarrow> error + 'a \<times> 's \<Rightarrow> error + 'b \<times> 's" where
  "map_val f r = (case r of Inl err \<Rightarrow> Inl err | Inr (x, s) \<Rightarrow> Inr (f x, s))"

definition load_var_uint32 :: "u8 list \<Rightarrow> nat \<Rightarrow> error + u32 \<times> nat" where "load_var_uint32 = gg_load_var_uint 28"
definition load_var_uint64 :: "u8 list \<Rightarrow> nat \<Rightarrow> error + u64 \<times> nat" where "load_var_uint64 = gg_load_var_uint 63"
definition load_var_int32 :: "u8 list \<Rightarrow> nat \<Rightarrow> error + u32 \<times> nat" where
  "load_var_int32 buf p = map_val var_int_u2s (load_var_uint32 buf p)"
definition load_var_int64 :: "u8 list \<Rightarrow> nat \<Rightarrow> error + u64 \<times> nat" where
  "load_var_int64 buf p = map_val var_int_u2s (load_var_uint64 buf p)"

definition save_var_uint32 :: "u8 list \<Rightarrow> nat \<Rightarrow> u32 \<Rightarrow> error + u8 list \<times> nat" where "save_var_uint32 = gg_save_var_uint"
definition save_var_uint64 :: "u8 list \<Rightarrow> nat \<Rightarrow> u64 \<Rightarrow> error + u8 list \<times> nat" where "save_var_uint64 = gg_save_var_uint"
definition save_var_int32 :: "u8 list \<Rightarrow> nat \<Rightarrow> u32 \<Rightarrow> error + u8 list \<times> nat" where
  "save_var_int32 buf p x = save_var_uint32 buf p (var_int_s2u x)"
definition save_var_int64 :: "u8 list \<Rightarrow> nat \<Rightarrow> u64 \<Rightarrow> error + u8 list \<times> nat" where
  "save_var_int64 buf p x = save_var_uint64 buf p (var_int_s2u x)"

definition load_var_uint30 :: "u8 list \<Rightarrow> nat \<Rightarrow> error + u32 \<times> nat" where "load_var_uint30 = gg_load_var_uint30"
definition load_var_uint61 :: "u8 list \<Rightarrow> nat \<Rightarrow> error + u64 \<times> nat" where "load_var_uint61 = gg_load_var_uint61"
definition load_var_int30 :: "u8 list \<Rightarrow> nat \<Rightarrow> error + u32 \<times> nat" where
  "load_var_int30 buf p = map_val var_int_u2s (load_var_uint30 buf p)"
definition load_var_int61 :: "u8 list \<Rightarrow> nat \<Rightarrow> error + u64 \<times> nat" where
  "load_var_int61 buf p = map_val var_int_u2s (load_var_uint61 buf p)"

definition save_var_uint30 :: "u8 list \<Rightarrow> nat \<Rightarrow> u32 \<Rightarrow> error + u8 list \<times> nat" where "save_var_uint30 = gg_save_var_uint30"
definition save_var_uint61 :: "u8 list \<Rightarrow> nat \<Rightarrow> u64 \<Rightarrow> error + u8 list \<times> nat" where "save_var_uint61 = gg_save_var_uint61"
definition save_var_int30 :: "u8 list \<Rightarrow> nat \<Rightarrow> u32 \<Rightarrow> error + u8 list \<times> nat" where
  "save_var_int30 buf p x = save_var_uint30 buf p (var_int_s2u x)"
definition save_var_int61 :: "u8 list \<Rightarrow> nat \<Rightarrow> u64 \<Rightarrow> error + u8 list \<times> nat" where
  "save_var_int61 buf p x = save_var_uint61 buf p (var_int_s2u x)"

text \<open>Backwards from the last byte of a number. \<open>P\<close> is one more than the index \<open>p\<close>, which ends at \<open>buf - 1\<close>; \<open>lim\<close> is the bound
  on \<open>shift\<close> that only the 64-bit version has.\<close>

fun reverse_loop :: "nat option \<Rightarrow> u8 list \<Rightarrow> nat \<Rightarrow> 'a::len word \<Rightarrow> nat \<Rightarrow> 'a word \<times> nat \<times> nat" where
  "reverse_loop lim buf 0 x shift = (x, shift, 0)"
| "reverse_loop lim buf (Suc p) x shift =
     (if (case lim of None \<Rightarrow> True | Some l \<Rightarrow> shift < l) \<and> buf ! p AND 0x80 \<noteq> 0
      then reverse_loop lim buf p (push_bit 7 x OR ucast (buf ! p AND 0x7F)) (shift + 7)
      else (x, shift, Suc p))"

definition reverse_get :: "nat option \<Rightarrow> u8 list \<Rightarrow> nat \<Rightarrow> 'a::len word \<times> nat" where
  "reverse_get lim buf cur =
     (let w = ucast (buf ! cur) :: 'a word;
          (x, shift, P) = reverse_loop lim buf cur 0 0
      in (x OR push_bit shift w, P))"

definition reverse_get_var_uint32 :: "u8 list \<Rightarrow> nat \<Rightarrow> u32 \<times> nat" where "reverse_get_var_uint32 = reverse_get None"
definition reverse_get_var_uint64 :: "u8 list \<Rightarrow> nat \<Rightarrow> u64 \<times> nat" where "reverse_get_var_uint64 = reverse_get (Some 56)"
definition reverse_get_var_int32 :: "u8 list \<Rightarrow> nat \<Rightarrow> u32 \<times> nat" where
  "reverse_get_var_int32 buf cur = (let (x, P) = reverse_get_var_uint32 buf cur in (var_int_u2s x, P))"
definition reverse_get_var_int64 :: "u8 list \<Rightarrow> nat \<Rightarrow> u64 \<times> nat" where
  "reverse_get_var_int64 buf cur = (let (x, P) = reverse_get_var_uint64 buf cur in (var_int_u2s x, P))"

text \<open>The macro \<open>FAST_READ_VAR_UINT32\<close>: the loop unrolled, into a \<open>size_t\<close>.\<close>

fun fast_read_bytes :: "nat \<Rightarrow> nat \<Rightarrow> u8 list \<Rightarrow> nat \<Rightarrow> u64 \<Rightarrow> error + u64 \<times> nat" where
  "fast_read_bytes 0 shift buf p result = Inr (result, p)"
| "fast_read_bytes (Suc k) shift buf p result =
     (case rd8 buf p of
        Inl err \<Rightarrow> Inl err
      | Inr byte \<Rightarrow>
          let tmp = ucast byte :: u64; result = result OR push_bit shift (tmp AND 0x7F) in
          if tmp AND 0x80 \<noteq> 0 then fast_read_bytes k (shift + 7) buf (p + 1) result else Inr (result, p + 1))"

definition FAST_READ_VAR_UINT32 :: "u8 list \<Rightarrow> nat \<Rightarrow> error + u64 \<times> nat" where
  "FAST_READ_VAR_UINT32 buf p = fast_read_bytes 5 0 buf p 0"

section \<open>The codes as functions of numbers\<close>

fun varint :: "nat \<Rightarrow> u8 list" where
  "varint n = (if n < 128 then [word_of_nat n] else word_of_nat (n mod 128 + 128) # varint (n div 128))"

declare varint.simps [simp del]

text \<open>\<open>t\<close> tag bits hold the number \<open>k\<close> of further bytes: the first \<open>k + 1\<close> bytes of \<open>2^t n + k\<close>, little-endian.\<close>

definition prefix_len :: "nat \<Rightarrow> nat" where
  "prefix_len y = (if y < 256 then 0 else if y < 256 ^ 2 then 1 else if y < 256 ^ 3 then 2 else if y < 256 ^ 4 then 3
     else if y < 256 ^ 5 then 4 else if y < 256 ^ 6 then 5 else if y < 256 ^ 7 then 6 else 7)"

definition prefix_code :: "nat \<Rightarrow> nat \<Rightarrow> u8 list" where
  "prefix_code t n = (let y = 2 ^ t * n; k = prefix_len y in map (\<lambda>j. word_of_nat ((y + k) div 256 ^ j)) [0..<Suc k])"

text \<open>\<open>wrote_at bs buf p r\<close>: the result \<open>r\<close> of a save holds the bytes \<open>bs\<close> at \<open>p\<close>, the old bytes elsewhere, and the position after them.\<close>

definition wrote_at :: "u8 list \<Rightarrow> u8 list \<Rightarrow> nat \<Rightarrow> error + u8 list \<times> nat \<Rightarrow> bool" where
  "wrote_at bs buf p r = (r = Inr (put_at p bs buf, p + length bs) \<and> p + length bs \<le> length buf)"

text \<open>\<open>stored n buf p x sv lv\<close>: saving \<open>x\<close> takes at most \<open>n\<close> bytes, changes no other byte, and loading at the same place returns \<open>x\<close> and the same end.\<close>

definition stored :: "nat \<Rightarrow> u8 list \<Rightarrow> nat \<Rightarrow> 'a \<Rightarrow> (u8 list \<Rightarrow> nat \<Rightarrow> 'a \<Rightarrow> error + u8 list \<times> nat) \<Rightarrow> (u8 list \<Rightarrow> nat \<Rightarrow> error + 'a \<times> nat) \<Rightarrow> bool" where
  "stored n buf p x sv lv = (case sv buf p x of
     Inl _ \<Rightarrow> False
   | Inr (buf', q) \<Rightarrow> p < q \<and> q \<le> p + n \<and> length buf' = length buf \<and> take p buf' = take p buf \<and> drop q buf' = drop q buf
       \<and> lv buf' p = Inr (x, q))"

section \<open>Seven bits per byte: writing\<close>

lemma ucast_nat: "ucast x = (word_of_nat (unat x) :: 'b::len word)" for x :: "'a::len word"
  by (rule of_nat_unat [symmetric])

lemma byte_or_cont: "m < 128 \<Longrightarrow> (word_of_nat m :: u8) OR 0x80 = word_of_nat (m + 128)"
proof -
  assume m: "m < 128"
  have e: "(0x80 :: u8) = 2 ^ 7" by simp
  have "\<not> bit (word_of_nat m :: u8) 7" using m by (simp add: bit_of_nat_iff, simp add: bit_iff_odd)
  then have "(word_of_nat m :: u8) AND 0x80 = 0" unfolding e and_exp_eq_0_iff_not_bit .
  then show ?thesis by (simp add: disjunctive_add_eq_or [symmetric])
qed

lemma low7: "ucast (x AND 0x7F) = (word_of_nat (unat x mod 128) :: u8)" for x :: "'a::len word"
proof -
  have e: "(0x7F :: 'a word) = mask 7" by (simp add: mask_eq_exp_minus_1)
  have "unat (x AND 0x7F) = unat x mod 128"
    unfolding e take_bit_eq_mask [symmetric] unsigned_take_bit_eq by (simp add: take_bit_eq_mod)
  then show ?thesis by (simp only: ucast_nat)
qed

lemma unat_drop_7: "unat (drop_bit 7 x) = unat x div 128" for x :: "'a::len word"
  unfolding unat_drop_bit_eq by (simp add: drop_bit_eq_div)

lemma drop_7_zero: "drop_bit 7 x = 0 \<longleftrightarrow> unat x < 128" for x :: "'a::len word"
  using unat_drop_7 [of x] by (metis div_eq_0_iff unat_eq_zero zero_neq_numeral)

lemma put_at_Cons: "p + length bs < length buf \<Longrightarrow> put_at (Suc p) bs (put_at p [b] buf) = put_at p (b # bs) buf"
  by (simp add: put_at_def take_Cons' drop_Cons' min_def add.commute)

lemma length_varint_pos: "0 < length (varint n)"
  by (subst varint.simps) simp

lemma save_varint:
  "gg_save_var_uint buf p x =
    (let bs = varint (unat x) in if p + length bs \<le> length buf then Inr (put_at p bs buf, p + length bs) else Inl Out_of_bounds)"
proof (induction buf p x rule: gg_save_var_uint.induct)
  case (1 buf p x)
  show ?case
  proof (cases "unat x < 128")
    case True
    then have "drop_bit 7 x = 0" by (simp add: drop_7_zero)
    with True show ?thesis
      by (subst gg_save_var_uint.simps, subst varint.simps) (simp add: Let_def wr8s_def low7)
  next
    case False
    then have nz: "drop_bit 7 x \<noteq> 0" by (simp add: drop_7_zero)
    define b where "b = (word_of_nat (unat x mod 128 + 128) :: u8)"
    define bs where "bs = varint (unat x div 128)"
    have v: "varint (unat x) = b # bs" using False by (subst varint.simps) (simp add: b_def bs_def)
    have b: "ucast (x AND 0x7F) OR 0x80 = b" unfolding low7 b_def by (rule byte_or_cont) simp
    have l: "0 < length bs" unfolding bs_def by (rule length_varint_pos)
    show ?thesis
    proof (cases "p < length buf")
      case True
      then have len: "length (put_at p [b] buf) = length buf" by (simp add: put_at_def)
      have "gg_save_var_uint (put_at p [b] buf) (p + 1) (drop_bit 7 x) =
          (if p + 1 + length bs \<le> length buf then Inr (put_at (p + 1) bs (put_at p [b] buf), p + 1 + length bs) else Inl Out_of_bounds)"
        using 1 [OF refl refl nz, of "put_at p [b] buf"] True b len
        by (simp add: unat_drop_7 bs_def [symmetric] Let_def wr8s_def)
      then show ?thesis
        using True nz b by (subst gg_save_var_uint.simps) (simp add: Let_def wr8s_def v put_at_Cons)
    next
      case np: False
      with nz show ?thesis by (subst gg_save_var_uint.simps) (simp add: Let_def wr8s_def v)
    qed
  qed
qed

lemma length_varint: "n < 2 ^ (7 * k) \<Longrightarrow> 0 < k \<Longrightarrow> length (varint n) \<le> k"
proof (induction k arbitrary: n)
  case (Suc k)
  show ?case
  proof (cases "n < 128")
    case True
    then show ?thesis by (subst varint.simps) simp
  next
    case False
    then have k: "0 < k" using Suc.prems(1) by (cases k) simp_all
    have "n div 128 < 2 ^ (7 * k)" using Suc.prems(1) by (simp add: div_less_iff_less_mult power_add mult.commute)
    from Suc.IH [OF this k] False show ?thesis by (subst varint.simps) simp
  qed
qed simp

lemma length_varint32: "length (varint (unat (x :: u32))) \<le> 5"
proof -
  have "unat x < 2 ^ LENGTH(32)" by (rule unsigned_less)
  then have "unat x < 2 ^ (7 * 5)" by simp
  then show ?thesis by (rule length_varint) simp
qed

lemma length_varint64: "length (varint (unat (x :: u64))) \<le> 10"
proof -
  have "unat x < 2 ^ LENGTH(64)" by (rule unsigned_less)
  then have "unat x < 2 ^ (7 * 10)" by simp
  then show ?thesis by (rule length_varint) simp
qed

section \<open>Seven bits per byte: reading\<close>

lemma byte_cast: "k < 256 \<Longrightarrow> ucast (word_of_nat k :: u8) = (word_of_nat k :: 'a::len word)"
  unfolding ucast_nat by (simp add: unat_of_nat)

lemma and_7f: "(word_of_nat k :: 'a::len word) AND 0x7F = word_of_nat (k mod 128)"
proof -
  have e: "(0x7F :: 'a word) = mask 7" by (simp add: mask_eq_exp_minus_1)
  have "take_bit 7 k = k mod 128" by (simp add: take_bit_eq_mod)
  then show ?thesis unfolding e take_bit_eq_mask [symmetric] take_bit_of_nat by simp
qed

lemma and_80: "8 \<le> LENGTH('a) \<Longrightarrow> k < 256 \<Longrightarrow> (word_of_nat k :: 'a::len word) AND 0x80 = 0 \<longleftrightarrow> k < 128"
proof -
  assume a: "8 \<le> LENGTH('a)" "k < 256"
  have e: "(0x80 :: 'a word) = 2 ^ 7" by simp
  have "bit k 7 \<longleftrightarrow> \<not> k < 128"
  proof -
    have "k div 128 < 2" using a(2) by (simp add: div_less_iff_less_mult)
    then have "odd (k div 128) \<longleftrightarrow> k div 128 \<noteq> 0" by (cases "k div 128") auto
    then show ?thesis by (simp add: bit_iff_odd div_eq_0_iff del: div_greater_zero_iff)
  qed
  with a(1) show ?thesis unfolding e and_exp_eq_0_iff_not_bit by (simp add: bit_of_nat_iff)
qed

lemma or_push_add: "take_bit s acc = acc \<Longrightarrow> acc OR push_bit s c = acc + c * 2 ^ s" for acc c :: "'a::len word"
proof -
  assume "take_bit s acc = acc"
  then have "\<not> bit acc i" if "s \<le> i" for i using that by (metis bit_take_bit_iff leD)
  then have "acc AND push_bit s c = 0" by (intro bit_word_eqI) (auto simp: bit_simps)
  then have "acc OR push_bit s c = acc + push_bit s c" by (rule disjunctive_add_eq_or [symmetric])
  then show ?thesis by (simp add: push_bit_eq_mult)
qed

text \<open>One step of every reading loop.\<close>

lemma acc_step:
  fixes acc :: "'a::len word"
  assumes "take_bit s acc = acc"
  shows "acc OR push_bit s (word_of_nat (k mod 128)) = acc + word_of_nat (k mod 128) * 2 ^ s"
    and "take_bit (s + 7) (acc OR push_bit s (word_of_nat (k mod 128))) = acc OR push_bit s (word_of_nat (k mod 128))"
proof -
  define c where "c = (word_of_nat (k mod 128) :: 'a word)"
  have hi: "\<not> bit acc i" if "s \<le> i" for i using that assms by (metis bit_take_bit_iff leD)
  have c: "\<not> bit c i" if "7 \<le> i" for i
  proof -
    have "take_bit 7 (k mod 128) = k mod 128" by (simp add: take_bit_eq_mod)
    then have "take_bit 7 c = c" unfolding c_def take_bit_of_nat by simp
    then show ?thesis using that by (metis bit_take_bit_iff leD)
  qed
  show "acc OR push_bit s (word_of_nat (k mod 128)) = acc + word_of_nat (k mod 128) * 2 ^ s" by (rule or_push_add [OF assms])
  have "take_bit (s + 7) (acc OR push_bit s c) = acc OR push_bit s c"
  proof (rule bit_word_eqI)
    fix i assume "i < LENGTH('a)"
    have "\<not> bit acc i \<and> \<not> bit (push_bit s c) i" if "s + 7 \<le> i" using that hi c by (auto simp: bit_simps)
    then show "bit (take_bit (s + 7) (acc OR push_bit s c)) i = bit (acc OR push_bit s c) i"
      by (auto simp: bit_simps not_less)
  qed
  then show "take_bit (s + 7) (acc OR push_bit s (word_of_nat (k mod 128))) = acc OR push_bit s (word_of_nat (k mod 128))"
    by (simp add: c_def)
qed

lemma weigh_128: "word_of_nat (n mod 128) * 2 ^ s + word_of_nat (n div 128) * 2 ^ (s + 7) = word_of_nat n * (2 ^ s :: 'a::len word)"
proof -
  have "(word_of_nat n :: 'a word) = word_of_nat (n mod 128 + n div 128 * 128)" by simp
  also have "\<dots> = word_of_nat (n mod 128) + word_of_nat (n div 128) * 128" by (simp only: of_nat_add of_nat_mult of_nat_numeral)
  finally show ?thesis by (simp add: power_add algebra_simps)
qed

lemma drop_ConsD: "drop p buf = y # ys \<Longrightarrow> p < length buf \<and> buf ! p = y \<and> drop (Suc p) buf = ys"
  by (metis Cons_nth_drop_Suc drop_all list.distinct(1) list.inject not_le_imp_less)

lemma load_loop_varint:
  assumes "8 \<le> LENGTH('a::len)"
  shows "drop p buf = varint n @ rest \<Longrightarrow> take_bit s acc = acc \<Longrightarrow> s + 7 * (length (varint n) - 1) \<le> M \<Longrightarrow>
    load_var_loop M buf p s acc = Inr (acc + word_of_nat n * 2 ^ s :: 'a word, p + length (varint n))"
proof (induction n arbitrary: p s acc rule: varint.induct)
  case (1 n)
  define k where "k = (if n < 128 then n else n mod 128 + 128)"
  define bs where "bs = (if n < 128 then [] else varint (n div 128))"
  have v: "varint n = word_of_nat k # bs" by (subst varint.simps) (simp add: k_def bs_def)
  have k: "k < 256" "k < 128 \<longleftrightarrow> n < 128" "k mod 128 = n mod 128" by (simp_all add: k_def)
  from 1(2) have pb: "p < length buf" "buf ! p = word_of_nat k" "drop (Suc p) buf = bs @ rest"
    unfolding v by (simp_all add: drop_ConsD)
  have st: "load_var_loop M buf p s acc = (if n < 128 then Inr (acc + word_of_nat (n mod 128) * 2 ^ s, p + 1)
      else load_var_loop M buf (p + 1) (s + 7) (acc OR push_bit s (word_of_nat (n mod 128))))"
    using 1(4) pb(1) by (subst load_var_loop.simps)
      (simp add: rd8_def pb(2) Let_def byte_cast [OF k(1)] and_7f and_80 [OF assms k(1)] k(2,3) or_push_add [OF 1(3)] del: push_bit_and)
  show ?case
  proof (cases "n < 128")
    case True
    then show ?thesis unfolding st by (simp add: v bs_def)
  next
    case False
    have l: "length (varint n) = length (varint (n div 128)) + 1" using False by (simp add: v bs_def)
    have "load_var_loop M buf (p + 1) (s + 7) (acc OR push_bit s (word_of_nat (n mod 128)))
        = Inr ((acc OR push_bit s (word_of_nat (n mod 128))) + word_of_nat (n div 128) * 2 ^ (s + 7), p + 1 + length (varint (n div 128)))"
      using False pb(3) 1(4) length_varint_pos [of "n div 128"]
      by (intro 1(1) acc_step(2) [OF 1(3)]) (simp_all add: bs_def l Suc_le_eq [symmetric] diff_mult_distrib2)
    also have "(acc OR push_bit s (word_of_nat (n mod 128))) + word_of_nat (n div 128) * 2 ^ (s + 7) = acc + word_of_nat n * 2 ^ s"
      unfolding acc_step(1) [OF 1(3)] by (simp only: add.assoc weigh_128)
    finally show ?thesis unfolding st using False by (simp add: l)
  qed
qed

section \<open>Reading from a stream\<close>

text \<open>What the slow versions rely on: \<open>readByte\<close> returns the bytes of the stream in order.\<close>

locale byte_source =
  fixes ok :: "'s \<Rightarrow> bool" and rb :: "'s \<Rightarrow> error + u8 \<times> 's" and bytes :: "'s \<Rightarrow> u8 list"
  assumes rb_Cons: "ok s \<Longrightarrow> bytes s = b # bs \<Longrightarrow> \<exists>s'. rb s = Inr (b, s') \<and> ok s' \<and> bytes s' = bs"
    and rb_Nil: "ok s \<Longrightarrow> bytes s = [] \<Longrightarrow> rb s = Inl End_of_file"
begin

lemma slow_varint:
  assumes "8 \<le> LENGTH('a::len)"
  shows "ok s \<Longrightarrow> bytes s = varint n @ rest \<Longrightarrow> take_bit sh acc = acc \<Longrightarrow> sh + 7 * (length (varint n) - 1) \<le> M \<Longrightarrow>
    \<exists>s'. load_var_slow_loop rb M s sh acc = Inr (acc + word_of_nat n * 2 ^ sh :: 'a word, s') \<and> ok s' \<and> bytes s' = rest"
proof (induction n arbitrary: s sh acc rule: varint.induct)
  case (1 n)
  define k where "k = (if n < 128 then n else n mod 128 + 128)"
  define bs where "bs = (if n < 128 then [] else varint (n div 128))"
  have v: "varint n = word_of_nat k # bs" by (subst varint.simps) (simp add: k_def bs_def)
  have k: "k < 256" "k < 128 \<longleftrightarrow> n < 128" "k mod 128 = n mod 128" by (simp_all add: k_def)
  obtain s1 where s1: "rb s = Inr (word_of_nat k, s1)" "ok s1" "bytes s1 = bs @ rest"
    using rb_Cons [OF 1(2)] 1(3) unfolding v by auto
  have st: "load_var_slow_loop rb M s sh acc = (if n < 128 then Inr (acc + word_of_nat (n mod 128) * 2 ^ sh, s1)
      else load_var_slow_loop rb M s1 (sh + 7) (acc OR push_bit sh (word_of_nat (n mod 128))))"
    using 1(5) by (subst load_var_slow_loop.simps)
      (simp add: s1(1) Let_def byte_cast [OF k(1)] and_7f and_80 [OF assms k(1)] k(2,3) or_push_add [OF 1(4)] del: push_bit_and)
  show ?case
  proof (cases "n < 128")
    case True
    then show ?thesis using s1 unfolding st by (simp add: v bs_def)
  next
    case False
    have l: "length (varint n) = length (varint (n div 128)) + 1" using False by (simp add: v bs_def)
    have "\<exists>s'. load_var_slow_loop rb M s1 (sh + 7) (acc OR push_bit sh (word_of_nat (n mod 128)))
        = Inr ((acc OR push_bit sh (word_of_nat (n mod 128))) + word_of_nat (n div 128) * 2 ^ (sh + 7), s') \<and> ok s' \<and> bytes s' = rest"
      using False s1(2,3) 1(5) length_varint_pos [of "n div 128"]
      by (intro 1(1) acc_step(2) [OF 1(4)]) (simp_all add: bs_def l Suc_le_eq [symmetric] diff_mult_distrib2)
    moreover have "(acc OR push_bit sh (word_of_nat (n mod 128))) + word_of_nat (n div 128) * 2 ^ (sh + 7) = acc + word_of_nat n * 2 ^ sh"
      unfolding acc_step(1) [OF 1(4)] by (simp only: add.assoc weigh_128)
    ultimately show ?thesis unfolding st using False by simp
  qed
qed

text \<open>The further bytes are collected with the first one highest.\<close>

lemma read_more_bytes:
  "ok s \<Longrightarrow> bytes s = bs @ rest \<Longrightarrow>
    \<exists>s'. read_more rb (length bs) s y = Inr (foldl (\<lambda>y b. push_bit 8 y OR ucast b) y bs, s') \<and> ok s' \<and> bytes s' = rest"
proof (induction bs arbitrary: s y)
  case (Cons b bs)
  obtain s1 where "rb s = Inr (b, s1)" "ok s1" "bytes s1 = bs @ rest" using rb_Cons [OF Cons.prems(1)] Cons.prems(2) by auto
  with Cons.IH [of s1 "push_bit 8 y OR ucast b"] show ?case by simp
qed simp

end

section \<open>The unrolled macro\<close>

lemma fast_read_bytes_loop:
  "drop p buf = varint n @ rest \<Longrightarrow> take_bit s acc = acc \<Longrightarrow> length (varint n) \<le> k \<Longrightarrow>
    fast_read_bytes k s buf p acc = Inr (acc + word_of_nat n * 2 ^ s, p + length (varint n))"
proof (induction n arbitrary: p s acc k rule: varint.induct)
  case (1 n)
  define c where "c = (if n < 128 then n else n mod 128 + 128)"
  define bs where "bs = (if n < 128 then [] else varint (n div 128))"
  have v: "varint n = word_of_nat c # bs" by (subst varint.simps) (simp add: c_def bs_def)
  have c: "c < 256" "c < 128 \<longleftrightarrow> n < 128" "c mod 128 = n mod 128" by (simp_all add: c_def)
  from 1(2) have pb: "p < length buf" "buf ! p = word_of_nat c" "drop (Suc p) buf = bs @ rest"
    unfolding v by (simp_all add: drop_ConsD)
  obtain k' where k': "k = Suc k'" using 1(4) by (cases k) (simp_all add: v)
  have l64: "8 \<le> LENGTH(64)" by simp
  have st: "fast_read_bytes k s buf p acc = (if n < 128 then Inr (acc + word_of_nat (n mod 128) * 2 ^ s, p + 1)
      else fast_read_bytes k' (s + 7) buf (p + 1) (acc OR push_bit s (word_of_nat (n mod 128))))"
    using pb(1) by (simp add: k' rd8_def pb(2) Let_def byte_cast [OF c(1)] and_7f and_80 [OF l64 c(1)] c(2,3) or_push_add [OF 1(3)] del: push_bit_and)
  show ?case
  proof (cases "n < 128")
    case True
    then show ?thesis unfolding st by (simp add: v bs_def)
  next
    case False
    have l: "length (varint n) = length (varint (n div 128)) + 1" using False by (simp add: v bs_def)
    have "fast_read_bytes k' (s + 7) buf (p + 1) (acc OR push_bit s (word_of_nat (n mod 128)))
        = Inr ((acc OR push_bit s (word_of_nat (n mod 128))) + word_of_nat (n div 128) * 2 ^ (s + 7), p + 1 + length (varint (n div 128)))"
      using False pb(3) 1(4) by (intro 1(1) acc_step(2) [OF 1(3)]) (simp_all add: bs_def l k')
    also have "(acc OR push_bit s (word_of_nat (n mod 128))) + word_of_nat (n div 128) * 2 ^ (s + 7) = acc + word_of_nat n * 2 ^ s"
      unfolding acc_step(1) [OF 1(3)] by (simp only: add.assoc weigh_128)
    finally show ?thesis unfolding st using False by (simp add: l)
  qed
qed

section \<open>Backwards\<close>

text \<open>The bytes with a continuation bit, and the last one.\<close>

lemma varint_split:
  "\<exists>cs l. varint n = map (\<lambda>c. word_of_nat (c + 128)) cs @ [word_of_nat l] \<and> l < 128 \<and> (\<forall>c \<in> set cs. c < 128)
    \<and> n = foldr (\<lambda>c m. c + 128 * m) cs l"
proof (induction n rule: varint.induct)
  case (1 n)
  show ?case
  proof (cases "n < 128")
    case True
    then have "varint n = map (\<lambda>c. word_of_nat (c + 128)) [] @ [word_of_nat n]" by (subst varint.simps) simp
    with True show ?thesis by (intro exI [of _ "[]"] exI [of _ n] conjI) simp_all
  next
    case False
    from 1 [OF False] obtain cs l where c: "varint (n div 128) = map (\<lambda>c. word_of_nat (c + 128)) cs @ [word_of_nat l]"
      "l < 128" "\<forall>c \<in> set cs. c < 128" "n div 128 = foldr (\<lambda>c m. c + 128 * m) cs l" by blast
    have "varint n = map (\<lambda>c. word_of_nat (c + 128)) (n mod 128 # cs) @ [word_of_nat l]"
      using False c(1) by (subst varint.simps) simp
    moreover have "foldr (\<lambda>c m. c + 128 * m) (n mod 128 # cs) l = n" unfolding foldr.simps o_apply c(4) [symmetric] by simp
    moreover have "\<forall>c \<in> set (n mod 128 # cs). c < 128" using c(3) by simp
    ultimately show ?thesis using c(2) by (intro exI [of _ "n mod 128 # cs"] exI [of _ l] conjI) simp_all
  qed
qed

lemma reverse_step: "c < 128 \<Longrightarrow> push_bit 7 x OR ucast ((word_of_nat (c + 128) :: u8) AND 0x7F) = word_of_nat c + 128 * (x :: 'a::len word)"
proof -
  assume c: "c < 128"
  have u: "ucast ((word_of_nat (c + 128) :: u8) AND 0x7F) = (word_of_nat c :: 'a word)"
    unfolding and_7f using c byte_cast [of "(c + 128) mod 128"] by simp
  have "take_bit 7 (word_of_nat c :: 'a word) = word_of_nat c" using c unfolding take_bit_of_nat by (simp add: take_bit_nat_eq_self)
  from or_push_add [OF this, of x] show ?thesis unfolding u by (simp add: or.commute mult.commute)
qed

lemma cont_bit: "c < 128 \<Longrightarrow> (word_of_nat (c + 128) :: u8) AND 0x80 \<noteq> 0"
  using and_80 [where 'a = 8, of "c + 128"] by simp

lemma reverse_loop_bytes:
  fixes x :: "'a::len word"
  assumes buf: "buf = pre @ map (\<lambda>c. word_of_nat (c + 128)) cs @ rest" and cs: "\<forall>c \<in> set cs. c < 128"
    and lim: "\<And>l. lim = Some l \<Longrightarrow> cs \<noteq> [] \<Longrightarrow> s + 7 * (length cs - 1) < l" and pre: "pre = [] \<or> last pre AND 0x80 = 0"
  shows "reverse_loop lim buf (length pre + length cs) x s
    = (foldr (\<lambda>c m. word_of_nat c + 128 * m) cs x, s + 7 * length cs, length pre)"
  using buf cs lim
proof (induction cs arbitrary: x s rest rule: rev_induct)
  case Nil
  show ?case
  proof (cases "length pre")
    case (Suc p)
    then have "pre \<noteq> []" "p = length pre - 1" by auto
    then have "buf ! p = last pre" using Nil(1) by (simp add: nth_append last_conv_nth)
    with Suc pre show ?thesis by auto
  qed simp
next
  case (snoc c cs)
  have b: "buf ! (length pre + length cs) = word_of_nat (c + 128)" by (simp add: snoc.prems(1) nth_append)
  have c: "c < 128" using snoc.prems(2) by simp
  have lm: "case lim of None \<Rightarrow> True | Some l \<Rightarrow> s < l" using snoc.prems(3) by (auto split: option.splits)
  have "reverse_loop lim buf (length pre + length cs) (word_of_nat c + 128 * x) (s + 7)
      = (foldr (\<lambda>c m. word_of_nat c + 128 * m) cs (word_of_nat c + 128 * x), s + 7 + 7 * length cs, length pre)"
  proof (rule snoc.IH [of "word_of_nat (c + 128) # rest"])
    show "s + 7 + 7 * (length cs - 1) < l" if "lim = Some l" "cs \<noteq> []" for l
      using snoc.prems(3) [OF that(1)] that(2) by (cases cs) simp_all
  qed (use snoc.prems(1,2) in simp_all)
  with lm show ?case by (simp add: b cont_bit [OF c] reverse_step [OF c] del: of_nat_add)
qed

lemma foldr_horner:
  fixes cs :: "nat list"
  assumes "\<forall>c \<in> set cs. c < 128"
  shows "foldr (\<lambda>c m. c + 128 * m) cs l = foldr (\<lambda>c m. c + 128 * m) cs 0 + 128 ^ length cs * l"
    and "foldr (\<lambda>c m. c + 128 * m) cs 0 < 128 ^ length cs"
    and "foldr (\<lambda>c m. word_of_nat c + 128 * m) cs 0 = (word_of_nat (foldr (\<lambda>c m. c + 128 * m) cs 0) :: 'a::len word)"
  using assms by (induction cs) (simp_all add: algebra_simps)

lemma reverse_get_varint:
  assumes buf: "buf = pre @ varint n @ rest" and pre: "pre = [] \<or> last pre AND 0x80 = 0"
    and lim: "\<And>l. lim = Some l \<Longrightarrow> 7 * length (varint n) < l + 14"
  shows "reverse_get lim buf (length pre + length (varint n) - 1) = (word_of_nat n :: 'a::len word, length pre)"
proof -
  obtain cs l where c: "varint n = map (\<lambda>c. word_of_nat (c + 128)) cs @ [word_of_nat l]" "l < 128" "\<forall>c \<in> set cs. c < 128"
    and n: "n = foldr (\<lambda>c m. c + 128 * m) cs l" using varint_split [of n] by blast
  have len: "length (varint n) = length cs + 1" by (simp add: c(1))
  have b: "buf = pre @ map (\<lambda>c. word_of_nat (c + 128)) cs @ word_of_nat l # rest" by (simp add: buf c(1))
  have w: "ucast (buf ! (length pre + length cs)) = (word_of_nat l :: 'a word)" using c(2) byte_cast [of l] by (simp add: b nth_append)
  define X where "X = foldr (\<lambda>c m. c + 128 * m) cs 0"
  have p: "(128::nat) ^ length cs = 2 ^ (7 * length cs)" by (simp add: power_mult)
  note h = foldr_horner [OF c(3)]
  have "reverse_loop lim buf (length pre + length cs) 0 0 = (foldr (\<lambda>c m. word_of_nat c + 128 * m) cs (0 :: 'a word), 0 + 7 * length cs, length pre)"
    using lim by (intro reverse_loop_bytes [OF b c(3) _ pre]) (auto simp: len neq_Nil_conv)
  then have L: "reverse_loop lim buf (length pre + length cs) 0 0 = (word_of_nat X :: 'a word, 7 * length cs, length pre)"
    by (simp add: h(3) X_def)
  have "take_bit (7 * length cs) (word_of_nat X :: 'a word) = word_of_nat X"
    using h(2) unfolding take_bit_of_nat X_def [symmetric] p by (simp add: take_bit_nat_eq_self)
  from or_push_add [OF this, of "word_of_nat l"]
  have "word_of_nat X OR push_bit (7 * length cs) (word_of_nat l) = (word_of_nat X + word_of_nat l * 2 ^ (7 * length cs) :: 'a word)" .
  also have "\<dots> = word_of_nat (X + 2 ^ (7 * length cs) * l)" by simp
  also have "X + 2 ^ (7 * length cs) * l = n" unfolding n h(1) [of l] X_def p ..
  finally show ?thesis by (simp add: reverse_get_def len w L)
qed

section \<open>Signs\<close>

lemma unat_less_bits: "unat y < 2 ^ a \<longleftrightarrow> (\<forall>i \<ge> a. \<not> bit y i)" for y :: "'a::len word"
proof -
  have "unat y < 2 ^ a \<longleftrightarrow> unat (take_bit a y) = unat y"
    unfolding unsigned_take_bit_eq by (rule take_bit_nat_eq_self_iff [symmetric])
  also have "\<dots> \<longleftrightarrow> take_bit a y = y" by (metis word_unat_eq_iff)
  also have "\<dots> \<longleftrightarrow> (\<forall>i \<ge> a. \<not> bit y i)"
    by (metis bit_take_bit_iff bit_word_eqI not_le)
  finally show ?thesis .
qed

lemma bit_top: "bit x (LENGTH('a) - 1) \<longleftrightarrow> 2 ^ (LENGTH('a) - 1) \<le> unat x" for x :: "'a::len word"
proof -
  have "(\<forall>i \<ge> LENGTH('a) - 1. \<not> bit x i) \<longleftrightarrow> \<not> bit x (LENGTH('a) - 1)"
    by (metis One_nat_def Suc_pred bit_imp_le_length le_less_Suc_eq len_gt_0 order_refl)
  then show ?thesis using unat_less_bits [of x "LENGTH('a) - 1"] by (metis not_le)
qed

lemma sint_neg_top: "sint x < 0 \<longleftrightarrow> bit x (LENGTH('a) - 1)" for x :: "'a::len word"
  using bit_last_iff [of x] by simp

lemma neg_top:
  assumes "sint x < 0" and "x \<noteq> int_min"
  shows "\<not> bit (- x :: 'a::len word) (LENGTH('a) - 1)" and "- x \<noteq> 0"
proof -
  have half: "2 * 2 ^ (LENGTH('a) - 1) = (2 ^ LENGTH('a) :: nat)" by (metis One_nat_def Suc_pred len_gt_0 power_Suc)
  have x: "2 ^ (LENGTH('a) - 1) \<le> unat x" using assms(1) unfolding sint_neg_top bit_top .
  have ne: "x \<noteq> 0" using x by auto
  then show "- x \<noteq> 0" by simp
  have "unat (- x) = 2 ^ LENGTH('a) - unat x" using ne unat_sub_if_size [of 0 x] by (simp add: word_size unat_gt_0)
  moreover have "unat x \<noteq> 2 ^ (LENGTH('a) - 1)"
  proof
    assume "unat x = 2 ^ (LENGTH('a) - 1)"
    then have "x = word_of_nat (2 ^ (LENGTH('a) - 1))" by (metis of_nat_unat ucast_id)
    with assms(2) show False by (simp add: int_min_def push_bit_eq_mult)
  qed
  moreover have "unat x < 2 ^ LENGTH('a)" by (rule unsigned_less)
  ultimately have "unat (- x) < 2 ^ (LENGTH('a) - 1)" using x half by linarith
  then show "\<not> bit (- x) (LENGTH('a) - 1)" unfolding bit_top by simp
qed

lemma drop_push_1: "\<not> bit n (LENGTH('a) - 1) \<Longrightarrow> drop_bit 1 (push_bit 1 n OR 1) = n \<and> drop_bit 1 (push_bit 1 n) = n" for n :: "'a::len word"
proof -
  assume a: "\<not> bit n (LENGTH('a) - 1)"
  have "bit (drop_bit 1 (push_bit 1 n OR 1)) i = bit n i \<and> bit (drop_bit 1 (push_bit 1 n)) i = bit n i" if "i < LENGTH('a)" for i
    using a that by (cases "i = LENGTH('a) - 1") (auto simp only: bit_drop_bit_eq bit_or_iff bit_push_bit_iff o_apply bit_1_iff possible_bit_word add_diff_cancel_left' le_add1)
  then show ?thesis by (auto intro: bit_word_eqI)
qed

lemma var_int_inverse: "var_int_u2s (var_int_s2u x) = x" for x :: "'a::len word"
proof (cases "sint x < 0")
  case True
  show ?thesis
  proof (cases "x = int_min")
    case m: True
    show ?thesis
    proof (cases "LENGTH('a) = 1")
      case False
      then have "drop_bit 1 (1 :: 'a word) = 0" by (simp add: drop_bit_eq_div)
      with True m show ?thesis by (simp add: var_int_s2u_def var_int_u2s_def)
    qed (use True m in \<open>simp add: var_int_s2u_def var_int_u2s_def\<close>)
  next
    case False
    note t = neg_top [OF True False]
    have "(push_bit 1 (- x) OR 1) AND 1 = (1 :: 'a word)" by (rule bit_word_eqI) (auto simp only: bit_and_iff bit_or_iff bit_1_iff)
    with True False t drop_push_1 [OF t(1)] show ?thesis by (simp add: var_int_s2u_def var_int_u2s_def)
  qed
next
  case False
  then have "\<not> bit x (LENGTH('a) - 1)" unfolding sint_neg_top .
  moreover have "push_bit 1 x AND 1 = (0 :: 'a word)"
    by (rule bit_word_eqI) (auto simp only: bit_and_iff bit_push_bit_iff bit_1_iff bit_0_eq bot_apply bot_bool_def)
  ultimately show ?thesis using False drop_push_1 [of x] by (simp add: var_int_s2u_def var_int_u2s_def)
qed

section \<open>The prefix code\<close>

lemma prefix_code_Suc: "map (\<lambda>j. word_of_nat (z div 256 ^ j)) [0..<Suc m]
    = (word_of_nat z :: u8) # map (\<lambda>j. word_of_nat (z div 256 div 256 ^ j)) [0..<m]"
  by (simp add: upt_conv_Cons map_Suc_upt [symmetric] div_mult2_eq [symmetric] del: upt_Suc)

lemma le_word_code: "z < 256 ^ m \<Longrightarrow> le_word (map (\<lambda>j. word_of_nat (z div 256 ^ j)) [0..<m]) = (word_of_nat z :: 'a::len word)"
proof (induction m arbitrary: z)
  case (Suc m)
  have "z div 256 < 256 ^ m" using Suc.prems by (simp add: div_less_iff_less_mult mult.commute)
  note IH = Suc.IH [OF this]
  have b: "ucast (word_of_nat z :: u8) = (word_of_nat (z mod 256) :: 'a word)"
    unfolding ucast_nat by (simp add: unat_of_nat)
  have "take_bit 8 (word_of_nat (z mod 256) :: 'a word) = word_of_nat (z mod 256)"
    unfolding take_bit_of_nat by (simp add: take_bit_nat_eq_self)
  from or_push_add [OF this, of "word_of_nat (z div 256)"]
  have "word_of_nat (z mod 256) OR push_bit 8 (word_of_nat (z div 256)) = (word_of_nat (z mod 256) + word_of_nat (z div 256) * 256 :: 'a word)"
    by simp
  also have "\<dots> = word_of_nat (z mod 256 + z div 256 * 256)" by (simp only: of_nat_add of_nat_mult of_nat_numeral)
  finally show ?case unfolding prefix_code_Suc le_word.simps IH b by simp
qed simp

lemma take_bit_le_word: "take_bit (8 * m) (le_word bs :: 'a::len word) = le_word (take m bs)"
proof (induction bs arbitrary: m)
  case (Cons b bs)
  show ?case
  proof (cases m)
    case (Suc k)
    have "take_bit (8 * Suc k) (ucast b :: 'a word) = ucast b"
      by (rule bit_word_eqI) (auto simp: bit_simps dest: bit_imp_le_length)
    moreover have "take_bit (8 * Suc k) (push_bit 8 (le_word bs :: 'a word)) = push_bit 8 (take_bit (8 * k) (le_word bs))"
      by (rule bit_word_eqI) (auto simp: bit_simps)
    ultimately show ?thesis using Cons.IH [of k] by (simp add: Suc take_bit_or)
  qed simp
qed simp

text \<open>What both loads do with the bytes at hand.\<close>

lemma prefix_load:
  fixes w :: "'a::len word"
  assumes z: "z < 256 ^ Suc k" "z mod 2 ^ t = k" "t \<le> 8" "t \<le> LENGTH('a)" "z < 2 ^ LENGTH('a)"
    and bs: "bs = map (\<lambda>j. word_of_nat (z div 256 ^ j)) [0..<Suc k] @ rest" and w: "w = le_word bs"
  shows "unat (w AND mask t) = k" and "w AND mask (8 * Suc k) = word_of_nat z" and "drop_bit t (word_of_nat z :: 'a word) = word_of_nat (z div 2 ^ t)"
proof -
  have tk: "take_bit (8 * Suc k) w = word_of_nat z"
    unfolding w take_bit_le_word bs using le_word_code [OF z(1)] by simp
  then show "w AND mask (8 * Suc k) = word_of_nat z" by (simp add: take_bit_eq_mask)
  have "w AND mask t = take_bit t (take_bit (8 * Suc k) w)" using z(3) by (simp add: take_bit_eq_mask [symmetric] min_def)
  also have "\<dots> = word_of_nat (z mod 2 ^ t)" unfolding tk take_bit_of_nat by (simp add: take_bit_eq_mod)
  also have "unat \<dots> = k"
  proof -
    have "k < 2 ^ t" using z(2) by auto
    also have "\<dots> \<le> 2 ^ LENGTH('a)" using z(4) by (rule power_increasing) simp
    finally show ?thesis using z(2) by (simp add: unat_of_nat)
  qed
  finally show "unat (w AND mask t) = k" .
  have "unat (drop_bit t (word_of_nat z :: 'a word)) = z div 2 ^ t"
    unfolding unat_drop_bit_eq using z(5) by (simp add: unat_of_nat drop_bit_eq_div)
  then show "drop_bit t (word_of_nat z :: 'a word) = word_of_nat (z div 2 ^ t)" by (metis of_nat_unat ucast_id)
qed

lemma prefix_len_bound: "y < 256 ^ 8 \<Longrightarrow> y < 256 ^ Suc (prefix_len y)" "prefix_len y < 8"
  "y < 256 ^ 4 \<Longrightarrow> prefix_len y < 4" "0 < prefix_len y \<Longrightarrow> 256 ^ prefix_len y \<le> y"
  by (auto simp: prefix_len_def split: if_splits)

text \<open>The tag does not spill: it stays inside the lowest byte.\<close>

lemma tag_div: "k < 2 ^ t \<Longrightarrow> t \<le> 8 \<Longrightarrow> 0 < j \<Longrightarrow> (2 ^ t * n + k) div 256 ^ j = (2 ^ t * n) div (256 ^ j :: nat)"
proof -
  assume k: "k < 2 ^ t" and t: "t \<le> 8" and j: "0 < j"
  have e: "(256 :: nat) ^ j = 2 ^ t * (2 ^ (8 - t) * 256 ^ (j - 1))"
  proof -
    have "(256 :: nat) = 2 ^ t * 2 ^ (8 - t)" using t by (simp add: power_add [symmetric])
    moreover have "(256 :: nat) ^ j = 256 * 256 ^ (j - 1)" using j by (cases j) simp_all
    ultimately show ?thesis by (simp add: mult.assoc)
  qed
  show ?thesis unfolding e div_mult2_eq using k by simp
qed

lemma tag_less: "2 ^ t * n < 256 ^ Suc m \<Longrightarrow> k < 2 ^ t \<Longrightarrow> t \<le> 8 \<Longrightarrow> 2 ^ t * n + k < (256 ^ Suc m :: nat)"
proof -
  assume a: "2 ^ t * n < 256 ^ Suc m" "k < 2 ^ t" "t \<le> 8"
  have "(2 ^ t * n + k) div 256 ^ Suc m = 0" using tag_div [OF a(2,3), of "Suc m" n] a(1) by simp
  then show ?thesis by (simp add: div_eq_0_iff)
qed

lemma and_field_zero:
  fixes y :: "'a::len word"
  assumes "unat y < 2 ^ (a + c)" and "a + c \<le> LENGTH('a)"
  shows "y AND push_bit a (mask c) = 0 \<longleftrightarrow> unat y < 2 ^ a"
proof -
  have hi: "\<not> bit y i" if "a + c \<le> i" for i using assms(1) that unfolding unat_less_bits by simp
  have "y AND push_bit a (mask c) = 0 \<longleftrightarrow> (\<forall>i. \<not> (bit y i \<and> a \<le> i \<and> i < LENGTH('a) \<and> i - a < c))"
    by (auto simp: bit_eq_iff bit_simps)
  also have "\<dots> \<longleftrightarrow> (\<forall>i \<ge> a. \<not> bit y i)"
  proof
    assume L: "\<forall>i. \<not> (bit y i \<and> a \<le> i \<and> i < LENGTH('a) \<and> i - a < c)"
    show "\<forall>i \<ge> a. \<not> bit y i"
    proof (intro allI impI)
      fix i assume i: "a \<le> i"
      show "\<not> bit y i"
      proof (cases "a + c \<le> i")
        case False
        then have "i < LENGTH('a)" "i - a < c" using i assms(2) by simp_all
        with L i show ?thesis by blast
      qed (rule hi)
    qed
  qed blast
  finally show ?thesis unfolding unat_less_bits .
qed

lemma unat_push: "2 ^ t * unat x < 2 ^ LENGTH('a) \<Longrightarrow> unat (push_bit t x) = 2 ^ t * unat x" for x :: "'a::len word"
proof -
  assume "2 ^ t * unat x < 2 ^ LENGTH('a)"
  moreover have "push_bit t (unat x) = 2 ^ t * unat x" by (simp add: push_bit_eq_mult)
  ultimately show ?thesis unfolding unsigned_push_bit_eq by (simp only: take_bit_nat_eq_self)
qed

lemma prefix_first:
  fixes x :: "'a::len word"
  assumes "k < 2 ^ t" and "2 ^ t * unat x + k < 2 ^ LENGTH('a)"
  shows "ucast (push_bit t x OR word_of_nat k) = (word_of_nat (2 ^ t * unat x + k) :: u8)"
proof -
  have "take_bit t (word_of_nat k :: 'a word) = word_of_nat k" using assms(1) unfolding take_bit_of_nat by (simp add: take_bit_nat_eq_self)
  from or_push_add [OF this, of x] have "push_bit t x OR word_of_nat k = word_of_nat k + x * 2 ^ t" by (simp add: or.commute)
  also have "\<dots> = word_of_nat (2 ^ t * unat x + k)" by (simp add: mult.commute)
  finally show ?thesis using assms(2) by (simp only: ucast_nat unat_of_nat mod_less)
qed

lemma prefix_next: "ucast (drop_bit (8 * j) y) = (word_of_nat (unat y div 256 ^ j) :: u8)" for y :: "'a::len word"
  unfolding ucast_nat unat_drop_bit_eq unfolding drop_bit_eq_div by (simp only: power_mult) simp

lemma prefix_code_words:
  fixes x :: "'a::len word" and t :: nat
  defines "y \<equiv> push_bit t x" and "k \<equiv> prefix_len (2 ^ t * unat x)"
  assumes "t \<le> 8" and "k < 2 ^ t" and "2 ^ t * unat x + k < 2 ^ LENGTH('a)"
  shows "prefix_code t (unat x) = ucast (y OR word_of_nat k) # map (\<lambda>j. ucast (drop_bit (8 * j) y)) [1..<Suc k]"
proof -
  have u: "unat y = 2 ^ t * unat x" unfolding y_def by (rule unat_push) (use assms(5) in simp)
  have td: "(2 ^ t * unat x + k) div 256 ^ j = 2 ^ t * unat x div 256 ^ j" if "j \<in> set [1..<Suc k]" for j
    using tag_div [OF assms(4,3), of j "unat x"] that by auto
  have "map (\<lambda>j. word_of_nat ((2 ^ t * unat x + k) div 256 ^ j)) [1..<Suc k] = map (\<lambda>j. ucast (drop_bit (8 * j) y) :: u8) [1..<Suc k]"
    by (rule map_cong [OF refl]) (simp only: prefix_next u td)
  moreover have "[0..<Suc k] = 0 # [1..<Suc k]" by (simp add: upt_conv_Cons del: upt_Suc)
  moreover have "ucast (y OR word_of_nat k) = (word_of_nat (2 ^ t * unat x + k) :: u8)"
    unfolding y_def by (rule prefix_first [OF assms(4,5)])
  ultimately show ?thesis by (simp add: prefix_code_def Let_def k_def [symmetric] del: upt_Suc of_nat_add)
qed

lemma masks32: "(0xFFFF0000 :: u32) = push_bit 16 (mask 16)" "(0xFF00 :: u32) = push_bit 8 (mask 8)" "(0xFF000000 :: u32) = push_bit 24 (mask 8)"
  by (simp_all add: mask_eq_exp_minus_1 push_bit_eq_mult)

lemma masks64: "(0xFFFFFFFF00000000 :: u64) = push_bit 32 (mask 32)" "(0xFFFF0000 :: u64) = push_bit 16 (mask 16)"
    "(0xFF00 :: u64) = push_bit 8 (mask 8)" "(0xFF000000 :: u64) = push_bit 24 (mask 8)" "(0xFFFF000000000000 :: u64) = push_bit 48 (mask 16)"
    "(0x0000FF0000000000 :: u64) = push_bit 40 (mask 8)" "(0xFF00000000000000 :: u64) = push_bit 56 (mask 8)"
  by (simp_all add: mask_eq_exp_minus_1 push_bit_eq_mult)

lemma save30_code:
  assumes "unat x < 2 ^ 30"
  shows "gg_save_var_uint30 buf p x =
    (let bs = prefix_code 2 (unat x) in if p + length bs \<le> length buf then Inr (put_at p bs buf, p + length bs) else Inl Out_of_bounds)"
proof -
  define y where "y = push_bit 2 x"
  define Y where "Y = 2 ^ 2 * unat x"
  have Y: "unat y = Y" "Y < 2 ^ 32" using unat_push [of 2 x] assms by (simp_all add: y_def Y_def)
  have c: "y AND 0xFFFF0000 = 0 \<longleftrightarrow> Y < 2 ^ 16" "y AND 0xFF000000 = 0 \<longleftrightarrow> Y < 2 ^ 24" "Y < 2 ^ 16 \<Longrightarrow> y AND 0xFF00 = 0 \<longleftrightarrow> Y < 2 ^ 8"
    using and_field_zero [of y 16 16] and_field_zero [of y 24 8] and_field_zero [of y 8 8] Y by (simp_all add: masks32)
  have k: "prefix_len Y < 4" using prefix_len_bound(3) [of Y] Y(2) by simp
  have "Y + prefix_len Y < 256 ^ Suc 3" unfolding Y_def by (rule tag_less) (use Y(2) k in \<open>simp_all add: Y_def\<close>)
  then have code: "prefix_code 2 (unat x) = ucast (y OR word_of_nat (prefix_len Y)) # map (\<lambda>j. ucast (drop_bit (8 * j) y)) [1..<Suc (prefix_len Y)]"
    using prefix_code_words [of 2 x] k by (simp add: y_def Y_def)
  show ?thesis
    unfolding code gg_save_var_uint30_def y_def [symmetric] Let_def
    using c Y(2) by (simp add: prefix_len_def wr8s_def upt_rec)
qed

lemma save61_code:
  assumes "unat x < 2 ^ 61"
  shows "gg_save_var_uint61 buf p x =
    (let bs = prefix_code 3 (unat x) in if p + length bs \<le> length buf then Inr (put_at p bs buf, p + length bs) else Inl Out_of_bounds)"
proof -
  define y where "y = push_bit 3 x"
  define Y where "Y = 2 ^ 3 * unat x"
  have Y: "unat y = Y" "Y < 2 ^ 64" using unat_push [of 3 x] assms by (simp_all add: y_def Y_def)
  have c: "y AND 0xFFFFFFFF00000000 = 0 \<longleftrightarrow> Y < 2 ^ 32" "y AND 0xFFFF000000000000 = 0 \<longleftrightarrow> Y < 2 ^ 48"
    "y AND 0xFF00000000000000 = 0 \<longleftrightarrow> Y < 2 ^ 56" "Y < 2 ^ 32 \<Longrightarrow> y AND 0xFFFF0000 = 0 \<longleftrightarrow> Y < 2 ^ 16"
    "Y < 2 ^ 32 \<Longrightarrow> y AND 0xFF000000 = 0 \<longleftrightarrow> Y < 2 ^ 24" "Y < 2 ^ 16 \<Longrightarrow> y AND 0xFF00 = 0 \<longleftrightarrow> Y < 2 ^ 8"
    "Y < 2 ^ 48 \<Longrightarrow> y AND 0x0000FF0000000000 = 0 \<longleftrightarrow> Y < 2 ^ 40"
    using and_field_zero [of y 32 32] and_field_zero [of y 48 16] and_field_zero [of y 56 8] and_field_zero [of y 16 16]
      and_field_zero [of y 24 8] and_field_zero [of y 8 8] and_field_zero [of y 40 8] Y by (simp_all add: masks64)
  have k: "prefix_len Y < 8" by (rule prefix_len_bound(2))
  have "Y + prefix_len Y < 256 ^ Suc 7" unfolding Y_def by (rule tag_less) (use Y(2) k in \<open>simp_all add: Y_def\<close>)
  then have code: "prefix_code 3 (unat x) = ucast (y OR word_of_nat (prefix_len Y)) # map (\<lambda>j. ucast (drop_bit (8 * j) y)) [1..<Suc (prefix_len Y)]"
    using prefix_code_words [of 3 x] k by (simp add: y_def Y_def)
  show ?thesis
    unfolding code gg_save_var_uint61_def y_def [symmetric] Let_def
    using c Y(2) by (simp add: prefix_len_def wr8s_def upt_rec)
qed

section \<open>Reading the prefix code\<close>

lemma length_prefix_code: "length (prefix_code t n) = Suc (prefix_len (2 ^ t * n))"
  by (simp add: prefix_code_def Let_def)

lemma drop_mask_all: "s \<le> LENGTH('a) \<Longrightarrow> drop_bit s (mask LENGTH('a) :: 'a::len word) = mask (LENGTH('a) - s)"
  by (rule bit_word_eqI) (auto simp: bit_simps)

lemma mask_shift:
  "k < 4 \<Longrightarrow> drop_bit (24 - k * 8) 0xFFFFFFFF = (mask (8 * Suc k) :: u32)"
  "j < 8 \<Longrightarrow> drop_bit (56 - j * 8) 0xFFFFFFFFFFFFFFFF = (mask (8 * Suc j) :: u64)"
proof -
  have f: "(0xFFFFFFFF :: u32) = mask LENGTH(32)" "(0xFFFFFFFFFFFFFFFF :: u64) = mask LENGTH(64)"
    by (simp_all add: mask_eq_exp_minus_1)
  show "k < 4 \<Longrightarrow> drop_bit (24 - k * 8) 0xFFFFFFFF = (mask (8 * Suc k) :: u32)"
    unfolding f by (subst drop_mask_all) (simp, rule arg_cong [where f = mask], simp)
  show "j < 8 \<Longrightarrow> drop_bit (56 - j * 8) 0xFFFFFFFFFFFFFFFF = (mask (8 * Suc j) :: u64)"
    unfolding f by (subst drop_mask_all) (simp, rule arg_cong [where f = mask], simp)
qed

lemma load30_code:
  assumes n: "n < 2 ^ 30" and d: "drop p buf = prefix_code 2 n @ rest" and l: "4 \<le> length (drop p buf)"
  shows "gg_load_var_uint30 buf p = Inr (word_of_nat n, p + length (prefix_code 2 n))"
proof -
  define k where "k = prefix_len (2 ^ 2 * n)"
  define z where "z = 2 ^ 2 * n + k"
  have k: "k < 4" using prefix_len_bound(3) [of "2 ^ 2 * n"] n by (simp add: k_def)
  have z1: "z < 256 ^ Suc k" unfolding z_def
    by (rule tag_less) (use k prefix_len_bound(1) [of "2 ^ 2 * n"] n in \<open>simp_all add: k_def\<close>)
  have "(256::nat) ^ Suc k \<le> 256 ^ 4" using k by (intro power_increasing) simp_all
  then have z2: "z < 2 ^ LENGTH(32)" using z1 by simp
  have zm: "z mod 2 ^ 2 = k" "z div 2 ^ 2 = n" using k by (simp_all add: z_def)
  define w where "w = (le_word (take 4 (drop p buf)) :: u32)"
  have pc: "prefix_code 2 n = map (\<lambda>j. word_of_nat (z div 256 ^ j)) [0..<Suc k]" by (simp only: prefix_code_def Let_def k_def z_def)
  have "take 4 (drop p buf) = map (\<lambda>j. word_of_nat (z div 256 ^ j)) [0..<Suc k] @ take (4 - Suc k) rest"
    unfolding d pc take_append using k by (simp del: upt_Suc)
  note L = prefix_load [OF z1 zm(1) _ _ z2 this w_def, unfolded zm(2)]
  have m: "(3 :: u32) = mask 2" by (simp add: mask_eq_exp_minus_1)
  have "p + 4 \<le> length buf" using l by simp
  moreover have "length (prefix_code 2 n) = Suc k" by (simp only: length_prefix_code k_def)
  ultimately show ?thesis
    using L by (simp add: gg_load_var_uint30_def ld_le_def w_def [symmetric] Let_def m mask_shift(1) [OF k] del: drop_bit_and mult_Suc_right)
qed

lemma load61_code:
  assumes n: "n < 2 ^ 61" and d: "drop p buf = prefix_code 3 n @ rest" and l: "8 \<le> length (drop p buf)"
  shows "gg_load_var_uint61 buf p = Inr (word_of_nat n, p + length (prefix_code 3 n))"
proof -
  define k where "k = prefix_len (2 ^ 3 * n)"
  define z where "z = 2 ^ 3 * n + k"
  have k: "k < 8" using prefix_len_bound(2) by (simp add: k_def)
  have z1: "z < 256 ^ Suc k" unfolding z_def
    by (rule tag_less) (use k prefix_len_bound(1) [of "2 ^ 3 * n"] n in \<open>simp_all add: k_def\<close>)
  have "(256::nat) ^ Suc k \<le> 256 ^ 8" using k by (intro power_increasing) simp_all
  then have z2: "z < 2 ^ LENGTH(64)" using z1 by simp
  have zm: "z mod 2 ^ 3 = k" "z div 2 ^ 3 = n" using k by (simp_all add: z_def)
  define w where "w = (le_word (take 8 (drop p buf)) :: u64)"
  have pc: "prefix_code 3 n = map (\<lambda>j. word_of_nat (z div 256 ^ j)) [0..<Suc k]" by (simp only: prefix_code_def Let_def k_def z_def)
  have "take 8 (drop p buf) = map (\<lambda>j. word_of_nat (z div 256 ^ j)) [0..<Suc k] @ take (8 - Suc k) rest"
    unfolding d pc take_append using k by (simp del: upt_Suc)
  note L = prefix_load [OF z1 zm(1) _ _ z2 this w_def, unfolded zm(2)]
  have m: "(7 :: u64) = mask 3" by (simp add: mask_eq_exp_minus_1)
  have "p + 8 \<le> length buf" using l by simp
  moreover have "length (prefix_code 3 n) = Suc k" by (simp only: length_prefix_code k_def)
  ultimately show ?thesis
    using L by (simp add: gg_load_var_uint61_def ld_le_def w_def [symmetric] Let_def m mask_shift(2) [OF k] del: drop_bit_and mult_Suc_right)
qed

section \<open>The length prefix from a stream\<close>

lemma foldl_bytes: "foldl (\<lambda>y b. push_bit 8 y OR ucast b) 0 bs = (le_word (rev bs) :: 'a::len word)"
  by (induction bs rule: rev_induct) (simp_all add: or.commute)

lemma le_word_tag:
  assumes "t \<le> 8" and "8 \<le> LENGTH('a)" and "b AND mask t = (word_of_nat k :: u8)" and "k < 2 ^ t"
  shows "unat (ucast b AND mask t :: 'a::len word) = k"
proof -
  have "(ucast b AND mask t :: 'a word) = ucast (b AND mask t)" using assms(1,2) by (intro bit_word_eqI) (auto simp: bit_simps)
  moreover have "(2 :: nat) ^ t \<le> 2 ^ 8" using assms(1) by (intro power_increasing) simp_all
  ultimately have "(ucast b AND mask t :: 'a word) = word_of_nat k" using assms(3,4) byte_cast [of k] by simp
  moreover have "k < 2 ^ LENGTH('a)" by (rule less_le_trans [OF assms(4)]) (use assms(1,2) in \<open>auto intro: power_increasing\<close>)
  ultimately show ?thesis by (simp add: unat_of_nat)
qed

lemma prefix_tag: "t \<le> 8 \<Longrightarrow> prefix_len (2 ^ t * n) < 2 ^ t \<Longrightarrow> hd (prefix_code t n) AND mask t = word_of_nat (prefix_len (2 ^ t * n))"
proof -
  assume a: "t \<le> 8" "prefix_len (2 ^ t * n) < 2 ^ t"
  have "hd (prefix_code t n) = word_of_nat (2 ^ t * n + prefix_len (2 ^ t * n))"
    by (simp add: prefix_code_def Let_def upt_conv_Cons del: upt_Suc of_nat_add)
  moreover have "take_bit t (2 ^ t * n + prefix_len (2 ^ t * n)) = prefix_len (2 ^ t * n)" using a(2) by (simp add: take_bit_eq_mod)
  ultimately show ?thesis unfolding take_bit_eq_mask [symmetric] by (simp only: take_bit_of_nat)
qed

lemma prefix_code_Cons: "prefix_code t n = hd (prefix_code t n) # tl (prefix_code t n)" "length (tl (prefix_code t n)) = prefix_len (2 ^ t * n)"
  using length_prefix_code [of t n] by (cases "prefix_code t n"; simp)+

lemma prefix_value:
  assumes "2 ^ t * n < 256 ^ 8" and "prefix_len (2 ^ t * n) < 2 ^ t" and "t \<le> 8" and "2 ^ t * n + prefix_len (2 ^ t * n) < 2 ^ LENGTH('a)"
  shows "drop_bit t (le_word (prefix_code t n) :: 'a::len word) = word_of_nat n"
proof -
  define k where "k = prefix_len (2 ^ t * n)"
  have z: "2 ^ t * n + k < 256 ^ Suc k" unfolding k_def by (rule tag_less) (use assms prefix_len_bound(1) in simp_all)
  have "le_word (prefix_code t n) = (word_of_nat (2 ^ t * n + k) :: 'a word)"
    unfolding prefix_code_def Let_def k_def [symmetric] by (rule le_word_code [OF z])
  moreover have "unat (drop_bit t (word_of_nat (2 ^ t * n + k) :: 'a word)) = n"
    unfolding unat_drop_bit_eq using assms(2,4) by (simp add: unat_of_nat drop_bit_eq_div k_def del: of_nat_add)
  ultimately show ?thesis by (metis of_nat_unat ucast_id)
qed

context byte_source
begin

text \<open>The first byte and the further ones in the reverse order.\<close>

lemma slow30_code:
  assumes "ok s" and n: "n < 2 ^ 30" and b: "bytes s = prefix_code 2 n @ rest"
  shows "\<exists>s'. gg_load_var_uint30_slow rb s = Inr (drop_bit 2 (le_word (hd (prefix_code 2 n) # rev (tl (prefix_code 2 n)))), s')
    \<and> ok s' \<and> bytes s' = rest"
proof -
  define c cs where "c = hd (prefix_code 2 n)" and "cs = tl (prefix_code 2 n)"
  have k: "length cs = prefix_len (2 ^ 2 * n)" "length cs < 4"
    using prefix_len_bound(3) [of "2 ^ 2 * n"] n prefix_code_Cons(2) [of 2 n] by (simp_all add: cs_def)
  have "bytes s = c # cs @ rest" using b prefix_code_Cons(1) [of 2 n] unfolding c_def cs_def by (metis append_Cons)
  from rb_Cons [OF assms(1) this] obtain s1 where s1: "rb s = Inr (c, s1)" "ok s1" "bytes s1 = cs @ rest" by blast
  have m: "(3 :: u32) = mask 2" by (simp add: mask_eq_exp_minus_1)
  have t: "unat (ucast c AND mask 2 :: u32) = length cs"
    by (rule le_word_tag) (use prefix_tag [of 2 n] k in \<open>simp_all add: c_def\<close>)
  from read_more_bytes [OF s1(2,3), of "0 :: u32"] show ?thesis
    by (auto simp: gg_load_var_uint30_slow_def s1(1) Let_def m t foldl_bytes c_def [symmetric] cs_def [symmetric] simp del: drop_bit_or)
qed

lemma slow61_code:
  assumes "ok s" and n: "n < 2 ^ 61" and b: "bytes s = prefix_code 3 n @ rest"
  shows "\<exists>s'. gg_load_var_uint61_slow rb s = Inr (drop_bit 3 (le_word (hd (prefix_code 3 n) # rev (tl (prefix_code 3 n)))), s')
    \<and> ok s' \<and> bytes s' = rest"
proof -
  define c cs where "c = hd (prefix_code 3 n)" and "cs = tl (prefix_code 3 n)"
  have k: "length cs = prefix_len (2 ^ 3 * n)" "length cs < 8"
    using prefix_len_bound(2) [of "2 ^ 3 * n"] prefix_code_Cons(2) [of 3 n] by (simp_all add: cs_def)
  have "bytes s = c # cs @ rest" using b prefix_code_Cons(1) [of 3 n] unfolding c_def cs_def by (metis append_Cons)
  from rb_Cons [OF assms(1) this] obtain s1 where s1: "rb s = Inr (c, s1)" "ok s1" "bytes s1 = cs @ rest" by blast
  have m: "(7 :: u64) = mask 3" by (simp add: mask_eq_exp_minus_1)
  have t: "unat (ucast c AND mask 3 :: u64) = length cs"
    by (rule le_word_tag) (use prefix_tag [of 3 n] k in \<open>simp_all add: c_def\<close>)
  from read_more_bytes [OF s1(2,3), of "0 :: u64"] show ?thesis
    by (auto simp: gg_load_var_uint61_slow_def s1(1) Let_def m t foldl_bytes c_def [symmetric] cs_def [symmetric] simp del: drop_bit_or)
qed

end

section \<open>What is written is read back\<close>

lemma drop_put_at: "p + length bs \<le> length buf \<Longrightarrow> drop p (put_at p bs buf) = bs @ drop (p + length bs) buf"
  by (simp add: put_at_def)

lemma put_at_frame:
  "p + length bs \<le> length buf \<Longrightarrow> take p (put_at p bs buf) = take p buf \<and> drop (p + length bs) (put_at p bs buf) = drop (p + length bs) buf"
  by (simp add: put_at_def)

lemma save_wrote: "p + length (varint (unat x)) \<le> length buf \<Longrightarrow> wrote_at (varint (unat x)) buf p (gg_save_var_uint buf p x)"
  by (simp add: wrote_at_def save_varint Let_def)

lemma load32_varint: "drop p buf = varint (unat x) @ rest \<Longrightarrow> load_var_uint32 buf p = Inr (x, p + length (varint (unat x)))"
  using load_loop_varint [where 'a = 32, of p buf "unat x" rest 0 0 28] length_varint32 [of x]
  by (simp add: load_var_uint32_def gg_load_var_uint_def)

lemma load64_varint: "drop p buf = varint (unat x) @ rest \<Longrightarrow> load_var_uint64 buf p = Inr (x, p + length (varint (unat x)))"
  using load_loop_varint [where 'a = 64, of p buf "unat x" rest 0 0 63] length_varint64 [of x]
  by (simp add: load_var_uint64_def gg_load_var_uint_def)

lemma storedI:
  assumes "wrote_at bs buf p (sv buf p x)" and "0 < length bs" and "length bs \<le> n"
    and "drop p (put_at p bs buf) = bs @ drop (p + length bs) buf \<Longrightarrow> lv (put_at p bs buf) p = Inr (x, p + length bs)"
  shows "stored n buf p x sv lv"
  using assms drop_put_at [of p bs buf] put_at_frame [of p bs buf]
  by (simp add: stored_def wrote_at_def)

lemma stored_uint:
  "p + 5 \<le> length buf \<Longrightarrow> stored 5 buf p x save_var_uint32 load_var_uint32"
  "p + 10 \<le> length buf \<Longrightarrow> stored 10 buf p y save_var_uint64 load_var_uint64"
proof -
  show "stored 5 buf p x save_var_uint32 load_var_uint32" if "p + 5 \<le> length buf"
    using that length_varint32 [of x] length_varint_pos
    by (intro storedI [where bs = "varint (unat x)"] load32_varint) (simp_all add: save_var_uint32_def save_wrote)
  show "stored 10 buf p y save_var_uint64 load_var_uint64" if "p + 10 \<le> length buf"
    using that length_varint64 [of y] length_varint_pos
    by (intro storedI [where bs = "varint (unat y)"] load64_varint) (simp_all add: save_var_uint64_def save_wrote)
qed

lemma stored_signed:
  assumes "stored n buf p (var_int_s2u x) sv lv"
  shows "stored n buf p x (\<lambda>buf p x. sv buf p (var_int_s2u x)) (\<lambda>buf p. map_val var_int_u2s (lv buf p))"
  using assms by (auto simp: stored_def map_val_def var_int_inverse split: sum.splits)

lemma s2u_bound:
  fixes x :: "'a::len word"
  assumes b: "\<bar>sint x\<bar> < 2 ^ m" and m: "m < LENGTH('a)"
  shows "unat (var_int_s2u x) < 2 ^ Suc m"
proof -
  define w where "w = (if sint x < 0 then - x else x)"
  have "w = word_of_int \<bar>sint x\<bar>" by (simp add: w_def)
  moreover have "\<bar>sint x\<bar> < 2 ^ LENGTH('a)" by (rule less_trans [OF b]) (use m in simp)
  ultimately have "uint w = \<bar>sint x\<bar>" by (simp add: uint_word_of_int)
  then have w: "unat w < 2 ^ m" using b by (simp add: unat_eq_nat_uint nat_less_iff)
  have "(2 :: nat) ^ Suc m \<le> 2 ^ LENGTH('a)" using m by (intro power_increasing) simp_all
  with w have p: "unat (push_bit 1 w) = 2 * unat w" using unat_push [of 1 w] by simp
  have "take_bit 1 (1 :: 'a word) = 1" by simp
  from or_push_add [OF this, of w] have o: "push_bit 1 w OR 1 = push_bit 1 w + 1" by (simp add: or.commute push_bit_eq_mult)
  have "unat (push_bit 1 w OR 1) \<le> 2 * unat w + 1" unfolding o unat_word_ariths p by simp
  moreover have "unat (1 :: 'a word) < 2 ^ Suc m" unfolding unat_1 by (rule one_less_power) simp_all
  moreover have "2 * unat w + 1 < 2 ^ Suc m" using w by simp
  ultimately show ?thesis using p by (auto simp: var_int_s2u_def w_def split: if_splits)
qed

lemma stored_prefix:
  "p + 4 \<le> length buf \<Longrightarrow> unat x < 2 ^ 30 \<Longrightarrow> stored 4 buf p x save_var_uint30 load_var_uint30"
  "p + 8 \<le> length buf \<Longrightarrow> unat y < 2 ^ 61 \<Longrightarrow> stored 8 buf p y save_var_uint61 load_var_uint61"
proof -
  show "stored 4 buf p x save_var_uint30 load_var_uint30" if a: "p + 4 \<le> length buf" "unat x < 2 ^ 30"
  proof -
    have l: "length (prefix_code 2 (unat x)) \<le> 4" using prefix_len_bound(3) [of "2 ^ 2 * unat x"] a(2) by (simp add: length_prefix_code)
    then show ?thesis
      using a load30_code [of "unat x" p "put_at p (prefix_code 2 (unat x)) buf" "drop (p + length (prefix_code 2 (unat x))) buf"]
      by (intro storedI [where bs = "prefix_code 2 (unat x)"])
        (simp_all add: wrote_at_def save_var_uint30_def load_var_uint30_def save30_code Let_def length_prefix_code)
  qed
  show "stored 8 buf p y save_var_uint61 load_var_uint61" if a: "p + 8 \<le> length buf" "unat y < 2 ^ 61"
  proof -
    have l: "length (prefix_code 3 (unat y)) \<le> 8" using prefix_len_bound(2) [of "2 ^ 3 * unat y"] by (simp add: length_prefix_code)
    then show ?thesis
      using a load61_code [of "unat y" p "put_at p (prefix_code 3 (unat y)) buf" "drop (p + length (prefix_code 3 (unat y))) buf"]
      by (intro storedI [where bs = "prefix_code 3 (unat y)"])
        (simp_all add: wrote_at_def save_var_uint61_def load_var_uint61_def save61_code Let_def length_prefix_code)
  qed
qed

lemma fast_read_varint: "drop p buf = varint (unat x) @ rest \<Longrightarrow> FAST_READ_VAR_UINT32 buf p = Inr (ucast x, p + length (varint (unat x)))" for x :: u32
  using fast_read_bytes_loop [of p buf "unat x" rest 0 0 5] length_varint32 [of x] by (simp add: FAST_READ_VAR_UINT32_def)

lemma ucast_32_64: "ucast (ucast x :: u64) = x" for x :: u32
  by (rule bit_word_eqI) (simp add: bit_simps)

lemma stored_macro: "p + 5 \<le> length buf \<Longrightarrow> stored 5 buf p x save_var_uint32 (\<lambda>buf p. map_val ucast (FAST_READ_VAR_UINT32 buf p))"
  using length_varint32 [of x] length_varint_pos
  by (intro storedI [where bs = "varint (unat x)"]) (simp_all add: save_var_uint32_def save_wrote fast_read_varint map_val_def ucast_32_64)

text \<open>C10. Numbers of 32 and 64 bits, signed and unsigned, of every value: where the buffer has room for the longest code (5 and 10 bytes)
  saving a number writes at most that many bytes, leaves every other byte of the buffer alone, and loading at the same
  position returns the number and the position just after its last byte. The unrolled macro reads the same 32-bit numbers.\<close>

theorem var_int_save_load:
  assumes "p + 10 \<le> length buf"
  shows "stored 5 buf p x save_var_uint32 load_var_uint32 \<and> stored 5 buf p i save_var_int32 load_var_int32
    \<and> stored 10 buf p y save_var_uint64 load_var_uint64 \<and> stored 10 buf p j save_var_int64 load_var_int64
    \<and> stored 5 buf p x save_var_uint32 (\<lambda>buf p. map_val ucast (FAST_READ_VAR_UINT32 buf p))"
  using assms stored_macro [of p buf x] stored_uint(1) [of p buf x] stored_uint(2) [of p buf y]
    stored_signed [OF stored_uint(1), of p buf i] stored_signed [OF stored_uint(2), of p buf j]
  by (simp add: save_var_int32_def [abs_def] save_var_int64_def [abs_def] load_var_int32_def [abs_def] load_var_int64_def [abs_def])

theorem var_int_save_load_witness:
  "stored 5 (replicate 12 0) 1 300 save_var_uint32 load_var_uint32 \<and> stored 10 (replicate 12 0) 1 (- 1) save_var_int64 load_var_int64"
  using var_int_save_load [of 1 "replicate 12 0" 300 0 0 "- 1"] by simp



lemma reverse_loop_numeral:
  "reverse_loop lim buf (numeral k) x s =
    (if (case lim of None \<Rightarrow> True | Some l \<Rightarrow> s < l) \<and> buf ! pred_numeral k AND 0x80 \<noteq> 0
     then reverse_loop lim buf (pred_numeral k) (push_bit 7 x OR ucast (buf ! pred_numeral k AND 0x7F)) (s + 7)
     else (x, s, numeral k))"
  by (simp only: numeral_eq_Suc reverse_loop.simps)

text \<open>Read backwards: when the byte before a number is absent or has its highest bit clear (as the last byte of every number does),
  \<open>reverse_get_var_uint32\<close> started on the last byte of a number returns it and stops just before its first byte, for every number, and
  so does \<open>reverse_get_var_uint64\<close> for the numbers of at most nine bytes, those below \<open>2^63\<close>. The ten bytes of a larger number are not
  read back: the bound on the shift stops the loop one byte early.\<close>

theorem reverse_get_inverts_save:
  assumes "pre = [] \<or> last pre AND 0x80 = 0"
  shows "reverse_get_var_uint32 (pre @ varint (unat x) @ rest) (length pre + length (varint (unat x)) - 1) = (x, length pre)
    \<and> reverse_get_var_int32 (pre @ varint (unat (var_int_s2u i)) @ rest) (length pre + length (varint (unat (var_int_s2u i))) - 1) = (i, length pre)
    \<and> (unat y < 2 ^ 63 \<longrightarrow> reverse_get_var_uint64 (pre @ varint (unat y) @ rest) (length pre + length (varint (unat y)) - 1) = (y, length pre))
    \<and> reverse_get_var_uint64 (varint (2 ^ 63)) 9 = (2 ^ 56, 1)"
proof (intro conjI impI)
  show x: "reverse_get_var_uint32 (pre @ varint (unat x) @ rest) (length pre + length (varint (unat x)) - 1) = (x, length pre)" for x
    using reverse_get_varint [where 'a = 32, OF refl assms, of None "unat x"] by (simp add: reverse_get_var_uint32_def)
  show "reverse_get_var_int32 (pre @ varint (unat (var_int_s2u i)) @ rest) (length pre + length (varint (unat (var_int_s2u i))) - 1) = (i, length pre)"
    unfolding reverse_get_var_int32_def x by (simp add: var_int_inverse)
  show "reverse_get_var_uint64 (pre @ varint (unat y) @ rest) (length pre + length (varint (unat y)) - 1) = (y, length pre)" if "unat y < 2 ^ 63"
  proof -
    have "length (varint (unat y)) \<le> 9" using that by (intro length_varint) simp_all
    then show ?thesis using reverse_get_varint [where 'a = 64, OF refl assms, of "Some 56" "unat y"] by (simp add: reverse_get_var_uint64_def)
  qed
  show "reverse_get_var_uint64 (varint (2 ^ 63)) 9 = (2 ^ 56, 1)"
    by (simp add: reverse_get_var_uint64_def reverse_get_def varint.simps reverse_loop_numeral)
qed

theorem reverse_get_inverts_save_witness:
  "reverse_get_var_uint64 ([5] @ varint 300 @ [9, 9]) 2 = (300, 1)"
proof -
  have "unat (300 :: u64) = 300" "length (varint 300) = 2" by (simp, simp add: varint.simps)
  then show ?thesis using reverse_get_inverts_save [of "[5]" 0 "[9, 9]" 0 300] by (simp flip: numeral_2_eq_2)
qed

end
