(* ===== verification/MemStream.thy ===== *)
theory MemStream
  imports VarInt
begin

text \<open>
  The memory streams of \<open>src/src/terark/io/MemStream.hpp\<close> and \<open>MemStream.cpp\<close>, with the readers and writers of variable length integers
  that \<open>var_int_io.hpp\<close> adds to each of them. The classes extend each other, and so do the records: \<open>MinMemIO\<close> is a position in
  a block of memory, \<open>MemIO\<close> adds the end, \<open>SeekableMemIO\<close> the begin, and \<open>AutoGrownMemIO\<close> owns the block (\<open>m_owned\<close>: the pointer is
  not \<open>NULL\<close>). Pointers are indices into \<open>mem\<close>; an access outside \<open>mem\<close> is \<open>Inl Out_of_bounds\<close>, a pointer moved outside of it
  \<open>Inl Undefined\<close>. The sums of a pointer and a length that the code compares with the end are taken not to wrap. A read returns the bytes
  it copies to the caller. The allocator is the \<open>venv\<close> of \<open>Valvec\<close>.
\<close>

section \<open>MinMemIO\<close>

record MinMemIO =
  mem :: "u8 list"
  m_pos :: nat

record MemIO = MinMemIO +
  m_end :: nat

record SeekableMemIO = MemIO +
  m_beg :: nat

record AutoGrownMemIO = SeekableMemIO +
  m_owned :: bool

text \<open>\<open>*m_pos++\<close>, \<open>memcpy\<close> from and to \<open>m_pos\<close> with the step that follows it.\<close>

definition min_ensureRead :: "nat \<Rightarrow> 'a MinMemIO_scheme \<Rightarrow> error + u8 list \<times> 'a MinMemIO_scheme" where
  "min_ensureRead n s =
     (if m_pos s + n \<le> length (mem s) then Inr (take n (drop (m_pos s) (mem s)), s\<lparr>m_pos := m_pos s + n\<rparr>) else Inl Out_of_bounds)"

definition min_ensureWrite :: "u8 list \<Rightarrow> 'a MinMemIO_scheme \<Rightarrow> error + 'a MinMemIO_scheme" where
  "min_ensureWrite data s =
     (case wr8s (mem s) (m_pos s) data of Inl err \<Rightarrow> Inl err | Inr m \<Rightarrow> Inr (s\<lparr>mem := m, m_pos := m_pos s + length data\<rparr>))"

definition min_readByte :: "'a MinMemIO_scheme \<Rightarrow> error + u8 \<times> 'a MinMemIO_scheme" where
  "min_readByte s = (case rd8 (mem s) (m_pos s) of Inl err \<Rightarrow> Inl err | Inr b \<Rightarrow> Inr (b, s\<lparr>m_pos := m_pos s + 1\<rparr>))"

definition min_getByte :: "'a MinMemIO_scheme \<Rightarrow> error + int \<times> 'a MinMemIO_scheme" where
  "min_getByte s = map_val uint (min_readByte s)"

definition min_writeByte :: "u8 \<Rightarrow> 'a MinMemIO_scheme \<Rightarrow> error + 'a MinMemIO_scheme" where
  "min_writeByte b s = min_ensureWrite [b] s"

definition min_read :: "nat \<Rightarrow> 'a MinMemIO_scheme \<Rightarrow> error + (u8 list \<times> nat) \<times> 'a MinMemIO_scheme" where
  "min_read n s = map_val (\<lambda>bs. (bs, n)) (min_ensureRead n s)"

definition min_write :: "u8 list \<Rightarrow> 'a MinMemIO_scheme \<Rightarrow> error + nat \<times> 'a MinMemIO_scheme" where
  "min_write data s = (case min_ensureWrite data s of Inl err \<Rightarrow> Inl err | Inr s \<Rightarrow> Inr (length data, s))"

definition move_pos :: "int \<Rightarrow> 'a MinMemIO_scheme \<Rightarrow> error + nat \<times> 'a MinMemIO_scheme" where
  "move_pos d s =
     (let q = int (m_pos s) + d in
      if 0 \<le> q \<and> q \<le> int (length (mem s)) then Inr (m_pos s, s\<lparr>m_pos := nat q\<rparr>) else Inl Undefined)"

definition min_skip :: "int \<Rightarrow> 'a MinMemIO_scheme \<Rightarrow> error + nat \<times> 'a MinMemIO_scheme" where
  "min_skip d s = move_pos d s"

definition min_buf_remain_bytes :: "'a MinMemIO_scheme \<Rightarrow> int" where
  "min_buf_remain_bytes s = 0x7FFFFFFF"

text \<open>\<open>from_input\<close> and \<open>to_output\<close>: the \<open>ensureRead\<close> and \<open>ensureWrite\<close> of the other stream are arguments.\<close>

definition min_from_input :: "(nat \<Rightarrow> 'i \<Rightarrow> error + u8 list \<times> 'i) \<Rightarrow> 'i \<Rightarrow> nat \<Rightarrow> 'a MinMemIO_scheme \<Rightarrow> error + 'i \<times> 'a MinMemIO_scheme" where
  "min_from_input er inp n s =
     (case er n inp of
        Inl err \<Rightarrow> Inl err
      | Inr (bs, inp) \<Rightarrow> (case min_ensureWrite bs s of Inl err \<Rightarrow> Inl err | Inr s \<Rightarrow> Inr (inp, s)))"

definition min_to_output :: "(u8 list \<Rightarrow> 'o \<Rightarrow> error + 'o) \<Rightarrow> 'o \<Rightarrow> nat \<Rightarrow> 'a MinMemIO_scheme \<Rightarrow> error + 'o \<times> 'a MinMemIO_scheme" where
  "min_to_output ew out n s =
     (case min_ensureRead n s of
        Inl err \<Rightarrow> Inl err
      | Inr (bs, s) \<Rightarrow> (case ew bs out of Inl err \<Rightarrow> Inl err | Inr out \<Rightarrow> Inr (out, s)))"

section \<open>MemIO\<close>

text \<open>The conversion of a \<open>size_t\<close> to \<open>ptrdiff_t\<close>.\<close>

definition ptrdiff :: "nat \<Rightarrow> int" where
  "ptrdiff n = sint (word_of_nat n :: u64)"

definition mem_set :: "u8 list \<Rightarrow> nat \<Rightarrow> nat \<Rightarrow> MemIO" where
  "mem_set m beg fin = \<lparr>mem = m, m_pos = beg, m_end = fin\<rparr>"

definition mem_eof :: "'a MemIO_scheme \<Rightarrow> bool" where
  "mem_eof s = (m_pos s = m_end s)"

definition mem_buf_remain_bytes :: "'a MemIO_scheme \<Rightarrow> int" where
  "mem_buf_remain_bytes s = int (m_end s) - int (m_pos s)"

definition mem_remain :: "'a MemIO_scheme \<Rightarrow> nat" where
  "mem_remain s = size_sub (m_end s) (m_pos s)"

definition mem_readByte :: "'a MemIO_scheme \<Rightarrow> error + u8 \<times> 'a MemIO_scheme" where
  "mem_readByte s = (if m_pos s < m_end s then min_readByte s else Inl End_of_file)"

definition mem_getByte :: "'a MemIO_scheme \<Rightarrow> error + int \<times> 'a MemIO_scheme" where
  "mem_getByte s = (if m_pos s < m_end s then min_getByte s else Inr (- 1, s))"

definition mem_writeByte :: "u8 \<Rightarrow> 'a MemIO_scheme \<Rightarrow> error + 'a MemIO_scheme" where
  "mem_writeByte b s = (if m_pos s < m_end s then min_writeByte b s else Inl Out_of_space)"

definition mem_readAll :: "'a MemIO_scheme \<Rightarrow> error + u8 list \<times> 'a MemIO_scheme" where
  "mem_readAll s =
     (let len = m_end s - m_pos s in
      if len \<noteq> 0 then min_ensureRead len s else Inr ([], s))"

definition mem_ensureRead :: "nat \<Rightarrow> 'a MemIO_scheme \<Rightarrow> error + u8 list \<times> 'a MemIO_scheme" where
  "mem_ensureRead n s = (if m_pos s + n \<le> m_end s then min_ensureRead n s else Inl End_of_file)"

definition mem_ensureWrite :: "u8 list \<Rightarrow> 'a MemIO_scheme \<Rightarrow> error + 'a MemIO_scheme" where
  "mem_ensureWrite data s = (if m_pos s + length data \<le> m_end s then min_ensureWrite data s else Inl Out_of_space)"

definition mem_read :: "nat \<Rightarrow> 'a MemIO_scheme \<Rightarrow> error + (u8 list \<times> nat) \<times> 'a MemIO_scheme" where
  "mem_read len s =
     (let n = mem_buf_remain_bytes s in
      if n < ptrdiff len then min_read (nat n) s else min_read len s)"

definition mem_write :: "u8 list \<Rightarrow> 'a MemIO_scheme \<Rightarrow> error + nat \<times> 'a MemIO_scheme" where
  "mem_write data s =
     (let n = mem_buf_remain_bytes s in
      if n < ptrdiff (length data) then min_write (take (nat n) data) s else min_write data s)"

definition mem_skip :: "int \<Rightarrow> 'a MemIO_scheme \<Rightarrow> error + nat \<times> 'a MemIO_scheme" where
  "mem_skip d s = (if int (m_pos s) + d \<le> int (m_end s) then move_pos d s else Inl Out_of_range)"

definition mem_from_input :: "(nat \<Rightarrow> 'i \<Rightarrow> error + u8 list \<times> 'i) \<Rightarrow> 'i \<Rightarrow> nat \<Rightarrow> 'a MemIO_scheme \<Rightarrow> error + 'i \<times> 'a MemIO_scheme" where
  "mem_from_input er inp n s = (if m_end s < m_pos s + n then Inl Out_of_space else min_from_input er inp n s)"

definition mem_to_output :: "(u8 list \<Rightarrow> 'o \<Rightarrow> error + 'o) \<Rightarrow> 'o \<Rightarrow> nat \<Rightarrow> 'a MemIO_scheme \<Rightarrow> error + 'o \<times> 'a MemIO_scheme" where
  "mem_to_output ew out n s = (if m_end s < m_pos s + n then Inl End_of_file else min_to_output ew out n s)"

section \<open>SeekableMemIO\<close>

definition sk_set :: "u8 list \<Rightarrow> nat \<Rightarrow> nat \<Rightarrow> SeekableMemIO" where
  "sk_set m beg fin = \<lparr>mem = m, m_pos = beg, m_end = fin, m_beg = beg\<rparr>"

definition sk_size :: "'a SeekableMemIO_scheme \<Rightarrow> nat" where
  "sk_size s = m_end s - m_beg s"

definition sk_tell :: "'a SeekableMemIO_scheme \<Rightarrow> nat" where
  "sk_tell s = m_pos s - m_beg s"

definition sk_skip :: "int \<Rightarrow> 'a SeekableMemIO_scheme \<Rightarrow> error + nat \<times> 'a SeekableMemIO_scheme" where
  "sk_skip d s =
     (if int (m_pos s) + d \<le> int (m_end s) \<and> int (m_beg s) \<le> int (m_pos s) + d then move_pos d s else Inl Out_of_range)"

definition sk_rewind :: "'a SeekableMemIO_scheme \<Rightarrow> 'a SeekableMemIO_scheme" where
  "sk_rewind s = s\<lparr>m_pos := m_beg s\<rparr>"

definition sk_seek :: "int \<Rightarrow> 'a SeekableMemIO_scheme \<Rightarrow> error + 'a SeekableMemIO_scheme" where
  "sk_seek newPos s =
     (if newPos < 0 \<or> int (m_end s) - int (m_beg s) < newPos then Inl Invalid_argument
      else Inr (s\<lparr>m_pos := m_beg s + nat newPos\<rparr>))"

text \<open>The sum is a \<open>size_t\<close>, converted back to \<open>ptrdiff_t\<close> for \<open>seek\<close>.\<close>

definition sk_seek_origin :: "int \<Rightarrow> int \<Rightarrow> 'a SeekableMemIO_scheme \<Rightarrow> error + 'a SeekableMemIO_scheme" where
  "sk_seek_origin offset origin s =
     (let go = (\<lambda>base. sk_seek (sint (word_of_int (int base + offset) :: u64)) s) in
      if origin = 0 then go 0
      else if origin = 1 then go (sk_tell s)
      else if origin = 2 then go (sk_size s)
      else Inl Invalid_argument)"

definition sk_range :: "nat \<Rightarrow> nat \<Rightarrow> 'a SeekableMemIO_scheme \<Rightarrow> error + nat \<times> nat" where
  "sk_range ibeg iend s =
     (if ibeg \<le> iend \<and> ibeg \<le> sk_size s \<and> iend \<le> sk_size s then Inr (m_beg s + ibeg, m_beg s + iend) else Inl Invalid_argument)"

definition sk_written :: "'a SeekableMemIO_scheme \<Rightarrow> nat \<times> nat" where "sk_written s = (m_beg s, m_pos s)"
definition sk_head :: "'a SeekableMemIO_scheme \<Rightarrow> nat \<times> nat" where "sk_head s = sk_written s"
definition sk_tail :: "'a SeekableMemIO_scheme \<Rightarrow> nat \<times> nat" where "sk_tail s = (m_pos s, m_end s)"
definition sk_whole :: "'a SeekableMemIO_scheme \<Rightarrow> nat \<times> nat" where "sk_whole s = (m_beg s, m_end s)"

text \<open>A \<open>MemIO\<close> on such a range of the same memory.\<close>

definition mem_of_range :: "'a MinMemIO_scheme \<Rightarrow> nat \<times> nat \<Rightarrow> MemIO" where
  "mem_of_range s r = \<lparr>mem = mem s, m_pos = fst r, m_end = snd r\<rparr>"

section \<open>AutoGrownMemIO\<close>

definition ag_null :: AutoGrownMemIO where
  "ag_null = \<lparr>mem = [], m_pos = 0, m_end = 0, m_beg = 0, m_owned = False\<rparr>"

definition ag_make :: "u8 venv \<Rightarrow> nat \<Rightarrow> error + AutoGrownMemIO" where
  "ag_make e sz =
     (if sz \<noteq> 0 then
        case v_realloc e [] sz of
          None \<Rightarrow> Inl Bad_alloc
        | Some m \<Rightarrow> Inr \<lparr>mem = m, m_pos = 0, m_end = sz, m_beg = 0, m_owned = True\<rparr>
      else Inr ag_null)"

definition ag_clone :: "u8 venv \<Rightarrow> AutoGrownMemIO \<Rightarrow> error + AutoGrownMemIO" where
  "ag_clone e src =
     (case ag_make e (sk_size src) of
        Inl err \<Rightarrow> Inl err
      | Inr t \<Rightarrow> (case wr8s (mem t) (m_beg t) (take (sk_size src) (drop (m_beg src) (mem src))) of
                   Inl err \<Rightarrow> Inl err
                 | Inr m \<Rightarrow> Inr (t\<lparr>mem := m\<rparr>)))"

definition ag_resize :: "u8 venv \<Rightarrow> nat \<Rightarrow> AutoGrownMemIO \<Rightarrow> error + AutoGrownMemIO" where
  "ag_resize e newsize s =
     (if newsize < sk_tell s then Inl Length_error
      else case v_realloc e (mem s) newsize of
             None \<Rightarrow> Inl Bad_alloc
           | Some newbeg \<Rightarrow> Inr (s\<lparr>mem := newbeg, m_pos := m_pos s - m_beg s, m_end := newsize, m_beg := 0, m_owned := True\<rparr>))"

text \<open>\<open>newcap *= 2\<close> wraps, and then the loop need not end.\<close>

partial_function (option) grow_loop :: "nat \<Rightarrow> nat \<Rightarrow> nat option" where
  "grow_loop newsize newcap = (if newcap < newsize then grow_loop newsize (newcap * 2 mod 2 ^ 64) else Some newcap)"

declare grow_loop.simps [code]

definition ag_grow :: "u8 venv \<Rightarrow> nat \<Rightarrow> AutoGrownMemIO \<Rightarrow> (error + AutoGrownMemIO) option" where
  "ag_grow e nGrow s =
     (let oldsize = m_end s - m_beg s;
          newsize = (oldsize + nGrow) mod 2 ^ 64
      in map_option (\<lambda>newcap. ag_resize e newcap s) (grow_loop newsize (max 32 oldsize)))"

definition ag_init :: "u8 venv \<Rightarrow> nat \<Rightarrow> AutoGrownMemIO \<Rightarrow> error + AutoGrownMemIO" where
  "ag_init e newsize s =
     (if newsize \<noteq> 0 then
        case v_realloc e [] newsize of
          None \<Rightarrow> Inl Bad_alloc
        | Some m \<Rightarrow> Inr (s\<lparr>mem := m, m_pos := 0, m_end := newsize, m_beg := 0, m_owned := True\<rparr>)
      else Inr ag_null)"

definition ag_growAndWrite :: "u8 venv \<Rightarrow> u8 list \<Rightarrow> AutoGrownMemIO \<Rightarrow> error + AutoGrownMemIO" where
  "ag_growAndWrite e data s =
     (let nSize = sk_size s;
          nGrow = max (length data) nSize
      in case ag_resize e (max (nSize + nGrow) 64) s of Inl err \<Rightarrow> Inl err | Inr s \<Rightarrow> min_ensureWrite data s)"

definition ag_growAndWriteByte :: "u8 venv \<Rightarrow> u8 \<Rightarrow> AutoGrownMemIO \<Rightarrow> error + AutoGrownMemIO" where
  "ag_growAndWriteByte e b s =
     (case ag_resize e (max (2 * sk_size s) 64) s of Inl err \<Rightarrow> Inl err | Inr s \<Rightarrow> min_writeByte b s)"

definition ag_writeByte :: "u8 venv \<Rightarrow> u8 \<Rightarrow> AutoGrownMemIO \<Rightarrow> error + AutoGrownMemIO" where
  "ag_writeByte e b s = (if m_pos s < m_end s then min_writeByte b s else ag_growAndWriteByte e b s)"

definition ag_ensureWrite :: "u8 venv \<Rightarrow> u8 list \<Rightarrow> AutoGrownMemIO \<Rightarrow> error + AutoGrownMemIO" where
  "ag_ensureWrite e data s = (if m_pos s + length data \<le> m_end s then min_ensureWrite data s else ag_growAndWrite e data s)"

definition ag_write :: "u8 venv \<Rightarrow> u8 list \<Rightarrow> AutoGrownMemIO \<Rightarrow> error + nat \<times> AutoGrownMemIO" where
  "ag_write e data s = (case ag_ensureWrite e data s of Inl err \<Rightarrow> Inl err | Inr s \<Rightarrow> Inr (length data, s))"

definition ag_from_input :: "u8 venv \<Rightarrow> (nat \<Rightarrow> 'i \<Rightarrow> error + u8 list \<times> 'i) \<Rightarrow> 'i \<Rightarrow> nat \<Rightarrow> AutoGrownMemIO \<Rightarrow> error + 'i \<times> AutoGrownMemIO" where
  "ag_from_input e er inp n s =
     (case (if m_end s < m_pos s + n then ag_resize e (sk_tell s + n) s else Inr s) of
        Inl err \<Rightarrow> Inl err
      | Inr s \<Rightarrow> min_from_input er inp n s)"

definition ag_clear :: "AutoGrownMemIO \<Rightarrow> AutoGrownMemIO" where
  "ag_clear s = (if m_owned s then ag_null else s)"

definition ag_shrink_to_fit :: "u8 venv \<Rightarrow> AutoGrownMemIO \<Rightarrow> error + AutoGrownMemIO" where
  "ag_shrink_to_fit e s =
     (if \<not> m_owned s then Inr s
      else
        let realsize = m_pos s - m_beg s in
        if realsize = 0 then Inr ag_null
        else case v_realloc e (mem s) realsize of
               None \<Rightarrow> Inl Abort
             | Some newbeg \<Rightarrow> Inr (s\<lparr>mem := newbeg, m_pos := realsize, m_end := realsize, m_beg := 0\<rparr>))"

definition ag_risk_take_ownership :: "u8 list \<Rightarrow> AutoGrownMemIO \<Rightarrow> AutoGrownMemIO" where
  "ag_risk_take_ownership m s = s\<lparr>mem := m, m_pos := 0, m_end := length m, m_beg := 0, m_owned := True\<rparr>"

definition ag_release :: "AutoGrownMemIO \<Rightarrow> u8 list \<times> AutoGrownMemIO" where
  "ag_release s = (mem s, ag_null)"

text \<open>\<open>vsnprintf\<close>: the number it returns and the bytes it stores in a buffer of the given size. The first is the one of C99, for the formatted text.\<close>

definition vsnprintf :: "u8 list \<Rightarrow> nat \<Rightarrow> int \<times> u8 list" where
  "vsnprintf tx sz = (int (length tx), if sz = 0 then [] else take (sz - 1) tx @ [0])"

partial_function (option) ag_vprintf_loop :: "u8 venv \<Rightarrow> (nat \<Rightarrow> int \<times> u8 list) \<Rightarrow> AutoGrownMemIO \<Rightarrow> (error + nat \<times> AutoGrownMemIO) option" where
  "ag_vprintf_loop e vsn s =
     (let sz = m_end s - m_pos s;
          n = fst (vsn sz);
          s = s\<lparr>mem := put_at (m_pos s) (snd (vsn sz)) (mem s)\<rparr>
      in if - 1 < n \<and> n < int sz then Some (Inr (nat n, s\<lparr>m_pos := m_pos s + nat n\<rparr>))
         else
           let sz = (if - 1 < n then nat n + 1 else sz * 2) in
           (case ag_resize e ((m_pos s - m_beg s + sz) * 2) s of
              Inl err \<Rightarrow> Some (Inl err)
            | Inr s \<Rightarrow> ag_vprintf_loop e vsn s))"

declare ag_vprintf_loop.simps [code]

definition ag_vprintf :: "u8 venv \<Rightarrow> (nat \<Rightarrow> int \<times> u8 list) \<Rightarrow> AutoGrownMemIO \<Rightarrow> (error + nat \<times> AutoGrownMemIO) option" where
  "ag_vprintf e vsn s =
     (case (if m_end s - m_pos s < 64 then ag_resize e (max 64 ((m_end s - m_beg s) * 2)) s else Inr s) of
        Inl err \<Rightarrow> Some (Inl err)
      | Inr s \<Rightarrow> ag_vprintf_loop e vsn s)"

section \<open>Variable length integers in a stream\<close>

text \<open>\<open>var_int_io.hpp\<close> is included once for every class; here the functions of the class that it uses are arguments: \<open>remain\<close> is
  \<open>buf_remain_bytes\<close>, \<open>rb\<close> is \<open>readByte\<close>, \<open>er\<close> is \<open>ensureRead\<close> and \<open>ew\<close> is \<open>ensureWrite\<close>. The bytes of \<open>tmpbuf\<close> beyond the number are
  not used.\<close>

definition read_var_uint32 :: "('a MinMemIO_scheme \<Rightarrow> int) \<Rightarrow> ('a MinMemIO_scheme \<Rightarrow> error + u8 \<times> 'a MinMemIO_scheme)
    \<Rightarrow> 'a MinMemIO_scheme \<Rightarrow> error + u32 \<times> 'a MinMemIO_scheme" where
  "read_var_uint32 remain rb s =
     (if 5 \<le> remain s
      then case gg_load_var_uint 28 (mem s) (m_pos s) of Inl err \<Rightarrow> Inl err | Inr (x, p) \<Rightarrow> Inr (x, s\<lparr>m_pos := p\<rparr>)
      else gg_load_var_uint_slow rb 28 s)"

definition read_var_uint64 :: "('a MinMemIO_scheme \<Rightarrow> int) \<Rightarrow> ('a MinMemIO_scheme \<Rightarrow> error + u8 \<times> 'a MinMemIO_scheme)
    \<Rightarrow> 'a MinMemIO_scheme \<Rightarrow> error + u64 \<times> 'a MinMemIO_scheme" where
  "read_var_uint64 remain rb s =
     (if 10 \<le> remain s
      then case gg_load_var_uint 63 (mem s) (m_pos s) of Inl err \<Rightarrow> Inl err | Inr (x, p) \<Rightarrow> Inr (x, s\<lparr>m_pos := p\<rparr>)
      else gg_load_var_uint_slow rb 63 s)"

definition read_var_int32 :: "('a MinMemIO_scheme \<Rightarrow> int) \<Rightarrow> ('a MinMemIO_scheme \<Rightarrow> error + u8 \<times> 'a MinMemIO_scheme)
    \<Rightarrow> 'a MinMemIO_scheme \<Rightarrow> error + u32 \<times> 'a MinMemIO_scheme" where
  "read_var_int32 remain rb s = map_val var_int_u2s (read_var_uint32 remain rb s)"

definition read_var_int64 :: "('a MinMemIO_scheme \<Rightarrow> int) \<Rightarrow> ('a MinMemIO_scheme \<Rightarrow> error + u8 \<times> 'a MinMemIO_scheme)
    \<Rightarrow> 'a MinMemIO_scheme \<Rightarrow> error + u64 \<times> 'a MinMemIO_scheme" where
  "read_var_int64 remain rb s = map_val var_int_u2s (read_var_uint64 remain rb s)"

definition read_var_uint30 :: "('a MinMemIO_scheme \<Rightarrow> int) \<Rightarrow> ('a MinMemIO_scheme \<Rightarrow> error + u8 \<times> 'a MinMemIO_scheme)
    \<Rightarrow> 'a MinMemIO_scheme \<Rightarrow> error + u32 \<times> 'a MinMemIO_scheme" where
  "read_var_uint30 remain rb s =
     (if 4 \<le> remain s
      then case gg_load_var_uint30 (mem s) (m_pos s) of Inl err \<Rightarrow> Inl err | Inr (x, p) \<Rightarrow> Inr (x, s\<lparr>m_pos := p\<rparr>)
      else gg_load_var_uint30_slow rb s)"

definition read_var_uint61 :: "('a MinMemIO_scheme \<Rightarrow> int) \<Rightarrow> ('a MinMemIO_scheme \<Rightarrow> error + u8 \<times> 'a MinMemIO_scheme)
    \<Rightarrow> 'a MinMemIO_scheme \<Rightarrow> error + u64 \<times> 'a MinMemIO_scheme" where
  "read_var_uint61 remain rb s =
     (if 8 \<le> remain s
      then case gg_load_var_uint61 (mem s) (m_pos s) of Inl err \<Rightarrow> Inl err | Inr (x, p) \<Rightarrow> Inr (x, s\<lparr>m_pos := p\<rparr>)
      else gg_load_var_uint61_slow rb s)"

definition read_var_int30 :: "('a MinMemIO_scheme \<Rightarrow> int) \<Rightarrow> ('a MinMemIO_scheme \<Rightarrow> error + u8 \<times> 'a MinMemIO_scheme)
    \<Rightarrow> 'a MinMemIO_scheme \<Rightarrow> error + u32 \<times> 'a MinMemIO_scheme" where
  "read_var_int30 remain rb s = map_val var_int_u2s (read_var_uint30 remain rb s)"

definition read_var_int61 :: "('a MinMemIO_scheme \<Rightarrow> int) \<Rightarrow> ('a MinMemIO_scheme \<Rightarrow> error + u8 \<times> 'a MinMemIO_scheme)
    \<Rightarrow> 'a MinMemIO_scheme \<Rightarrow> error + u64 \<times> 'a MinMemIO_scheme" where
  "read_var_int61 remain rb s = map_val var_int_u2s (read_var_uint61 remain rb s)"

definition read_string :: "('a MinMemIO_scheme \<Rightarrow> int) \<Rightarrow> ('a MinMemIO_scheme \<Rightarrow> error + u8 \<times> 'a MinMemIO_scheme)
    \<Rightarrow> (nat \<Rightarrow> 'a MinMemIO_scheme \<Rightarrow> error + u8 list \<times> 'a MinMemIO_scheme) \<Rightarrow> 'a MinMemIO_scheme \<Rightarrow> error + u8 list \<times> 'a MinMemIO_scheme" where
  "read_string remain rb er s =
     (case read_var_uint32 remain rb s of
        Inl err \<Rightarrow> Inl err
      | Inr (x, s) \<Rightarrow> let len = unat x in if len \<noteq> 0 then er len s else Inr ([], s))"

definition write_var_uint32 :: "('a MinMemIO_scheme \<Rightarrow> int) \<Rightarrow> (u8 list \<Rightarrow> 'a MinMemIO_scheme \<Rightarrow> error + 'a MinMemIO_scheme)
    \<Rightarrow> u32 \<Rightarrow> 'a MinMemIO_scheme \<Rightarrow> error + 'a MinMemIO_scheme" where
  "write_var_uint32 remain ew x s =
     (if 5 \<le> remain s
      then case gg_save_var_uint (mem s) (m_pos s) x of Inl err \<Rightarrow> Inl err | Inr (m, p) \<Rightarrow> Inr (s\<lparr>mem := m, m_pos := p\<rparr>)
      else case gg_save_var_uint (replicate 5 0) 0 x of Inl err \<Rightarrow> Inl err | Inr (tmpbuf, len) \<Rightarrow> ew (take len tmpbuf) s)"

definition write_var_uint64 :: "('a MinMemIO_scheme \<Rightarrow> int) \<Rightarrow> (u8 list \<Rightarrow> 'a MinMemIO_scheme \<Rightarrow> error + 'a MinMemIO_scheme)
    \<Rightarrow> u64 \<Rightarrow> 'a MinMemIO_scheme \<Rightarrow> error + 'a MinMemIO_scheme" where
  "write_var_uint64 remain ew x s =
     (if 10 \<le> remain s
      then case gg_save_var_uint (mem s) (m_pos s) x of Inl err \<Rightarrow> Inl err | Inr (m, p) \<Rightarrow> Inr (s\<lparr>mem := m, m_pos := p\<rparr>)
      else case gg_save_var_uint (replicate 10 0) 0 x of Inl err \<Rightarrow> Inl err | Inr (tmpbuf, len) \<Rightarrow> ew (take len tmpbuf) s)"

definition write_var_int32 :: "('a MinMemIO_scheme \<Rightarrow> int) \<Rightarrow> (u8 list \<Rightarrow> 'a MinMemIO_scheme \<Rightarrow> error + 'a MinMemIO_scheme)
    \<Rightarrow> u32 \<Rightarrow> 'a MinMemIO_scheme \<Rightarrow> error + 'a MinMemIO_scheme" where
  "write_var_int32 remain ew x s = write_var_uint32 remain ew (var_int_s2u x) s"

definition write_var_int64 :: "('a MinMemIO_scheme \<Rightarrow> int) \<Rightarrow> (u8 list \<Rightarrow> 'a MinMemIO_scheme \<Rightarrow> error + 'a MinMemIO_scheme)
    \<Rightarrow> u64 \<Rightarrow> 'a MinMemIO_scheme \<Rightarrow> error + 'a MinMemIO_scheme" where
  "write_var_int64 remain ew x s = write_var_uint64 remain ew (var_int_s2u x) s"

definition write_var_uint30 :: "('a MinMemIO_scheme \<Rightarrow> int) \<Rightarrow> (u8 list \<Rightarrow> 'a MinMemIO_scheme \<Rightarrow> error + 'a MinMemIO_scheme)
    \<Rightarrow> u32 \<Rightarrow> 'a MinMemIO_scheme \<Rightarrow> error + 'a MinMemIO_scheme" where
  "write_var_uint30 remain ew x s =
     (if 4 \<le> remain s
      then case gg_save_var_uint30 (mem s) (m_pos s) x of Inl err \<Rightarrow> Inl err | Inr (m, p) \<Rightarrow> Inr (s\<lparr>mem := m, m_pos := p\<rparr>)
      else case gg_save_var_uint30 (replicate 4 0) 0 x of Inl err \<Rightarrow> Inl err | Inr (tmpbuf, len) \<Rightarrow> ew (take len tmpbuf) s)"

definition write_var_uint61 :: "('a MinMemIO_scheme \<Rightarrow> int) \<Rightarrow> (u8 list \<Rightarrow> 'a MinMemIO_scheme \<Rightarrow> error + 'a MinMemIO_scheme)
    \<Rightarrow> u64 \<Rightarrow> 'a MinMemIO_scheme \<Rightarrow> error + 'a MinMemIO_scheme" where
  "write_var_uint61 remain ew x s =
     (if 8 \<le> remain s
      then case gg_save_var_uint61 (mem s) (m_pos s) x of Inl err \<Rightarrow> Inl err | Inr (m, p) \<Rightarrow> Inr (s\<lparr>mem := m, m_pos := p\<rparr>)
      else case gg_save_var_uint61 (replicate 8 0) 0 x of Inl err \<Rightarrow> Inl err | Inr (tmpbuf, len) \<Rightarrow> ew (take len tmpbuf) s)"

definition write_var_int30 :: "('a MinMemIO_scheme \<Rightarrow> int) \<Rightarrow> (u8 list \<Rightarrow> 'a MinMemIO_scheme \<Rightarrow> error + 'a MinMemIO_scheme)
    \<Rightarrow> u32 \<Rightarrow> 'a MinMemIO_scheme \<Rightarrow> error + 'a MinMemIO_scheme" where
  "write_var_int30 remain ew x s = write_var_uint30 remain ew (var_int_s2u x) s"

definition write_var_int61 :: "('a MinMemIO_scheme \<Rightarrow> int) \<Rightarrow> (u8 list \<Rightarrow> 'a MinMemIO_scheme \<Rightarrow> error + 'a MinMemIO_scheme)
    \<Rightarrow> u64 \<Rightarrow> 'a MinMemIO_scheme \<Rightarrow> error + 'a MinMemIO_scheme" where
  "write_var_int61 remain ew x s = write_var_uint61 remain ew (var_int_s2u x) s"

definition write_string :: "('a MinMemIO_scheme \<Rightarrow> int) \<Rightarrow> (u8 list \<Rightarrow> 'a MinMemIO_scheme \<Rightarrow> error + 'a MinMemIO_scheme)
    \<Rightarrow> u8 list \<Rightarrow> 'a MinMemIO_scheme \<Rightarrow> error + 'a MinMemIO_scheme" where
  "write_string remain ew str s =
     (case write_var_uint32 remain ew (word_of_nat (length str)) s of Inl err \<Rightarrow> Inl err | Inr s \<Rightarrow> ew str s)"

text \<open>The values that a client writes and reads back one after the other.\<close>

datatype var_item = V_uint32 u32 | V_int32 u32 | V_uint64 u64 | V_int64 u64 | V_string "u8 list"

fun write_item :: "u8 venv \<Rightarrow> var_item \<Rightarrow> AutoGrownMemIO \<Rightarrow> error + AutoGrownMemIO" where
  "write_item e (V_uint32 x) s = write_var_uint32 mem_buf_remain_bytes (ag_ensureWrite e) x s"
| "write_item e (V_int32 x) s = write_var_int32 mem_buf_remain_bytes (ag_ensureWrite e) x s"
| "write_item e (V_uint64 x) s = write_var_uint64 mem_buf_remain_bytes (ag_ensureWrite e) x s"
| "write_item e (V_int64 x) s = write_var_int64 mem_buf_remain_bytes (ag_ensureWrite e) x s"
| "write_item e (V_string x) s = write_string mem_buf_remain_bytes (ag_ensureWrite e) x s"

text \<open>Reading a value of the same type as a given one.\<close>

fun read_like :: "var_item \<Rightarrow> MemIO \<Rightarrow> error + var_item \<times> MemIO" where
  "read_like (V_uint32 _) s = map_val V_uint32 (read_var_uint32 mem_buf_remain_bytes mem_readByte s)"
| "read_like (V_int32 _) s = map_val V_int32 (read_var_int32 mem_buf_remain_bytes mem_readByte s)"
| "read_like (V_uint64 _) s = map_val V_uint64 (read_var_uint64 mem_buf_remain_bytes mem_readByte s)"
| "read_like (V_int64 _) s = map_val V_int64 (read_var_int64 mem_buf_remain_bytes mem_readByte s)"
| "read_like (V_string _) s = map_val V_string (read_string mem_buf_remain_bytes mem_readByte mem_ensureRead s)"

fun write_items :: "u8 venv \<Rightarrow> var_item list \<Rightarrow> AutoGrownMemIO \<Rightarrow> error + AutoGrownMemIO" where
  "write_items e [] s = Inr s"
| "write_items e (x # xs) s = (case write_item e x s of Inl err \<Rightarrow> Inl err | Inr s \<Rightarrow> write_items e xs s)"

fun read_likes :: "var_item list \<Rightarrow> MemIO \<Rightarrow> error + var_item list \<times> MemIO" where
  "read_likes [] s = Inr ([], s)"
| "read_likes (x # xs) s =
     (case read_like x s of
        Inl err \<Rightarrow> Inl err
      | Inr (y, s) \<Rightarrow> map_val (\<lambda>ys. y # ys) (read_likes xs s))"

fun item_bytes :: "var_item \<Rightarrow> u8 list" where
  "item_bytes (V_uint32 x) = varint (unat x)"
| "item_bytes (V_int32 x) = varint (unat (var_int_s2u x))"
| "item_bytes (V_uint64 x) = varint (unat x)"
| "item_bytes (V_int64 x) = varint (unat (var_int_s2u x))"
| "item_bytes (V_string x) = varint (length x) @ x"

fun item_ok :: "var_item \<Rightarrow> bool" where
  "item_ok (V_string x) = (length x < 2 ^ 32)"
| "item_ok _ = True"

section \<open>Well-formed streams and what they hold\<close>

definition mem_ok :: "'a MemIO_scheme \<Rightarrow> bool" where
  "mem_ok s = (m_pos s \<le> m_end s \<and> m_end s \<le> length (mem s))"

text \<open>The bytes to be read, and those before the position.\<close>

definition mem_bytes :: "'a MemIO_scheme \<Rightarrow> u8 list" where
  "mem_bytes s = take (m_end s - m_pos s) (drop (m_pos s) (mem s))"

definition out_bytes :: "'a MinMemIO_scheme \<Rightarrow> u8 list" where
  "out_bytes s = take (m_pos s) (mem s)"

definition ag_ok :: "AutoGrownMemIO \<Rightarrow> bool" where
  "ag_ok s = (m_beg s = 0 \<and> m_pos s \<le> m_end s \<and> m_end s = length (mem s) \<and> (m_owned s \<or> mem s = []))"

text \<open>A write of \<open>bs\<close> either fails as allowed or leaves a well-formed stream that holds \<open>bs\<close> as well.\<close>

definition appends :: "('s \<Rightarrow> bool) \<Rightarrow> ('s \<Rightarrow> u8 list) \<Rightarrow> (error \<Rightarrow> bool) \<Rightarrow> u8 list \<Rightarrow> 's \<Rightarrow> error + 's \<Rightarrow> bool" where
  "appends ok out fails bs s r = (case r of Inl err \<Rightarrow> fails err | Inr s' \<Rightarrow> ok s' \<and> out s' = out s @ bs)"

section \<open>Sequences of operations on an \<open>AutoGrownMemIO\<close>\<close>

datatype ag_op = AG_writeByte u8 | AG_ensureWrite "u8 list" | AG_write "u8 list" | AG_item var_item
  | AG_uint30 u32 | AG_int30 u32 | AG_uint61 u64 | AG_int61 u64 | AG_printf "u8 list"
  | AG_resize nat | AG_grow nat | AG_init nat | AG_shrink_to_fit | AG_clear | AG_rewind | AG_seek int | AG_skip int

definition run_opt :: "(error + 's) option \<Rightarrow> error + 's" where
  "run_opt r = (case r of None \<Rightarrow> Inl Undefined | Some x \<Rightarrow> x)"

definition drop_val :: "error + 'b \<times> 's \<Rightarrow> error + 's" where
  "drop_val r = (case r of Inl err \<Rightarrow> Inl err | Inr (_, s) \<Rightarrow> Inr s)"

fun ag_exec :: "u8 venv \<Rightarrow> ag_op \<Rightarrow> AutoGrownMemIO \<Rightarrow> error + AutoGrownMemIO" where
  "ag_exec e (AG_writeByte b) s = ag_writeByte e b s"
| "ag_exec e (AG_ensureWrite bs) s = ag_ensureWrite e bs s"
| "ag_exec e (AG_write bs) s = drop_val (ag_write e bs s)"
| "ag_exec e (AG_item x) s = write_item e x s"
| "ag_exec e (AG_uint30 x) s = write_var_uint30 mem_buf_remain_bytes (ag_ensureWrite e) x s"
| "ag_exec e (AG_int30 x) s = write_var_int30 mem_buf_remain_bytes (ag_ensureWrite e) x s"
| "ag_exec e (AG_uint61 x) s = write_var_uint61 mem_buf_remain_bytes (ag_ensureWrite e) x s"
| "ag_exec e (AG_int61 x) s = write_var_int61 mem_buf_remain_bytes (ag_ensureWrite e) x s"
| "ag_exec e (AG_printf tx) s = drop_val (run_opt (ag_vprintf e (vsnprintf tx) s))"
| "ag_exec e (AG_resize n) s = ag_resize e n s"
| "ag_exec e (AG_grow n) s = run_opt (ag_grow e n s)"
| "ag_exec e (AG_init n) s = ag_init e n s"
| "ag_exec e AG_shrink_to_fit s = ag_shrink_to_fit e s"
| "ag_exec e AG_clear s = Inr (ag_clear s)"
| "ag_exec e AG_rewind s = Inr (sk_rewind s)"
| "ag_exec e (AG_seek p) s = sk_seek p s"
| "ag_exec e (AG_skip d) s = drop_val (sk_skip d s)"

fun ag_pre :: "ag_op \<Rightarrow> AutoGrownMemIO \<Rightarrow> bool" where
  "ag_pre (AG_item x) s = item_ok x"
| "ag_pre (AG_uint30 x) s = (unat x < 2 ^ 30)"
| "ag_pre (AG_int30 x) s = (\<bar>sint x\<bar> < 2 ^ 29)"
| "ag_pre (AG_uint61 x) s = (unat x < 2 ^ 61)"
| "ag_pre (AG_int61 x) s = (\<bar>sint x\<bar> < 2 ^ 60)"
| "ag_pre (AG_resize n) s = (sk_tell s \<le> n)"
| "ag_pre (AG_grow n) s = (sk_size s + n \<le> 2 ^ 63)"
| "ag_pre (AG_seek p) s = (0 \<le> p \<and> p \<le> int (sk_tell s))"
| "ag_pre (AG_skip d) s = (d \<le> 0 \<and> 0 \<le> int (sk_tell s) + d)"
| "ag_pre _ s = True"

fun ag_spec :: "ag_op \<Rightarrow> u8 list \<Rightarrow> u8 list" where
  "ag_spec (AG_writeByte b) w = w @ [b]"
| "ag_spec (AG_ensureWrite bs) w = w @ bs"
| "ag_spec (AG_write bs) w = w @ bs"
| "ag_spec (AG_item x) w = w @ item_bytes x"
| "ag_spec (AG_uint30 x) w = w @ prefix_code 2 (unat x)"
| "ag_spec (AG_int30 x) w = w @ prefix_code 2 (unat (var_int_s2u x))"
| "ag_spec (AG_uint61 x) w = w @ prefix_code 3 (unat x)"
| "ag_spec (AG_int61 x) w = w @ prefix_code 3 (unat (var_int_s2u x))"
| "ag_spec (AG_printf tx) w = w @ tx"
| "ag_spec (AG_resize n) w = w"
| "ag_spec (AG_grow n) w = w"
| "ag_spec (AG_init n) w = []"
| "ag_spec AG_shrink_to_fit w = w"
| "ag_spec AG_clear w = []"
| "ag_spec AG_rewind w = []"
| "ag_spec (AG_seek p) w = take (nat p) w"
| "ag_spec (AG_skip d) w = take (nat (int (length w) + d)) w"

fun ag_run :: "u8 venv \<Rightarrow> ag_op list \<Rightarrow> AutoGrownMemIO \<Rightarrow> error + AutoGrownMemIO" where
  "ag_run e [] s = Inr s"
| "ag_run e (a # ops) s = (case ag_exec e a s of Inl err \<Rightarrow> Inl err | Inr s \<Rightarrow> ag_run e ops s)"

fun ag_pre_run :: "u8 venv \<Rightarrow> ag_op list \<Rightarrow> AutoGrownMemIO \<Rightarrow> bool" where
  "ag_pre_run e [] s = True"
| "ag_pre_run e (a # ops) s = (ag_pre a s \<and> (case ag_exec e a s of Inl _ \<Rightarrow> True | Inr s \<Rightarrow> ag_pre_run e ops s))"

definition ag_fails :: "u8 venv \<Rightarrow> error \<Rightarrow> bool" where
  "ag_fails e err = ((err = Bad_alloc \<or> err = Abort) \<and> (\<exists>k. \<not> v_ok e k))"

section \<open>Sequences of operations on a \<open>MemIO\<close>\<close>

text \<open>A well-formed stream with a given end and given bytes behind the end.\<close>

definition mem_within :: "nat \<Rightarrow> u8 list \<Rightarrow> 'a MemIO_scheme \<Rightarrow> bool" where
  "mem_within k behind s = (mem_ok s \<and> m_end s = k \<and> drop k (mem s) = behind)"

definition mem_outside :: "'a MemIO_scheme \<Rightarrow> nat \<times> u8 list" where
  "mem_outside s = (m_end s, drop (m_end s) (mem s))"

datatype mem_op = MO_readByte | MO_getByte | MO_ensureRead nat | MO_read nat | MO_readAll | MO_writeByte u8 | MO_ensureWrite "u8 list" | MO_write "u8 list"
  | MO_skip int | MO_read_uint32 | MO_read_int32 | MO_read_uint64 | MO_read_int64 | MO_read_uint30 | MO_read_int30 | MO_read_uint61 | MO_read_int61
  | MO_read_string | MO_write_uint32 u32 | MO_write_int32 u32 | MO_write_uint64 u64 | MO_write_int64 u64 | MO_write_string "u8 list"
  | MO_write_uint30 u32 | MO_write_uint61 u64

fun mo_exec :: "mem_op \<Rightarrow> MemIO \<Rightarrow> error + MemIO" where
  "mo_exec MO_readByte s = drop_val (mem_readByte s)"
| "mo_exec MO_getByte s = drop_val (mem_getByte s)"
| "mo_exec (MO_ensureRead n) s = drop_val (mem_ensureRead n s)"
| "mo_exec (MO_read n) s = drop_val (mem_read n s)"
| "mo_exec MO_readAll s = drop_val (mem_readAll s)"
| "mo_exec (MO_writeByte b) s = mem_writeByte b s"
| "mo_exec (MO_ensureWrite bs) s = mem_ensureWrite bs s"
| "mo_exec (MO_write bs) s = drop_val (mem_write bs s)"
| "mo_exec (MO_skip d) s = drop_val (mem_skip d s)"
| "mo_exec MO_read_uint32 s = drop_val (read_var_uint32 mem_buf_remain_bytes mem_readByte s)"
| "mo_exec MO_read_int32 s = drop_val (read_var_int32 mem_buf_remain_bytes mem_readByte s)"
| "mo_exec MO_read_uint64 s = drop_val (read_var_uint64 mem_buf_remain_bytes mem_readByte s)"
| "mo_exec MO_read_int64 s = drop_val (read_var_int64 mem_buf_remain_bytes mem_readByte s)"
| "mo_exec MO_read_uint30 s = drop_val (read_var_uint30 mem_buf_remain_bytes mem_readByte s)"
| "mo_exec MO_read_int30 s = drop_val (read_var_int30 mem_buf_remain_bytes mem_readByte s)"
| "mo_exec MO_read_uint61 s = drop_val (read_var_uint61 mem_buf_remain_bytes mem_readByte s)"
| "mo_exec MO_read_int61 s = drop_val (read_var_int61 mem_buf_remain_bytes mem_readByte s)"
| "mo_exec MO_read_string s = drop_val (read_string mem_buf_remain_bytes mem_readByte mem_ensureRead s)"
| "mo_exec (MO_write_uint32 x) s = write_var_uint32 mem_buf_remain_bytes mem_ensureWrite x s"
| "mo_exec (MO_write_int32 x) s = write_var_int32 mem_buf_remain_bytes mem_ensureWrite x s"
| "mo_exec (MO_write_uint64 x) s = write_var_uint64 mem_buf_remain_bytes mem_ensureWrite x s"
| "mo_exec (MO_write_int64 x) s = write_var_int64 mem_buf_remain_bytes mem_ensureWrite x s"
| "mo_exec (MO_write_string str) s = write_string mem_buf_remain_bytes mem_ensureWrite str s"
| "mo_exec (MO_write_uint30 x) s = write_var_uint30 mem_buf_remain_bytes mem_ensureWrite x s"
| "mo_exec (MO_write_uint61 x) s = write_var_uint61 mem_buf_remain_bytes mem_ensureWrite x s"

text \<open>What the code takes for granted: lengths that a \<open>ptrdiff_t\<close> holds, a skip that does not leave the block at its begin, and
  numbers of the right size.\<close>

fun mo_pre :: "mem_op \<Rightarrow> MemIO \<Rightarrow> bool" where
  "mo_pre (MO_read n) s = (n < 2 ^ 63)"
| "mo_pre (MO_write bs) s = (length bs < 2 ^ 63)"
| "mo_pre (MO_skip d) s = (0 \<le> int (m_pos s) + d)"
| "mo_pre (MO_write_uint30 x) s = (unat x < 2 ^ 30)"
| "mo_pre (MO_write_uint61 x) s = (unat x < 2 ^ 61)"
| "mo_pre _ s = True"

fun mo_run :: "mem_op list \<Rightarrow> MemIO \<Rightarrow> error + MemIO" where
  "mo_run [] s = Inr s"
| "mo_run (a # ops) s = (case mo_exec a s of Inl err \<Rightarrow> Inl err | Inr s \<Rightarrow> mo_run ops s)"

fun mo_pre_run :: "mem_op list \<Rightarrow> MemIO \<Rightarrow> bool" where
  "mo_pre_run [] s = True"
| "mo_pre_run (a # ops) s = (mo_pre a s \<and> (case mo_exec a s of Inl _ \<Rightarrow> True | Inr s \<Rightarrow> mo_pre_run ops s))"

definition mo_fails :: "error \<Rightarrow> bool" where
  "mo_fails err = (err \<in> {End_of_file, Out_of_space, Out_of_range, Runtime_error})"

text \<open>A result whose state satisfies \<open>P\<close>, or an error that is allowed.\<close>

definition keeps :: "('s \<Rightarrow> bool) \<Rightarrow> (error \<Rightarrow> bool) \<Rightarrow> error + 'b \<times> 's \<Rightarrow> bool" where
  "keeps P fails r = (case r of Inl err \<Rightarrow> fails err | Inr (_, s) \<Rightarrow> P s)"

section \<open>Writing\<close>

lemma appends_Inr: "appends ok out fails bs s (Inr s') \<longleftrightarrow> ok s' \<and> out s' = out s @ bs"
  by (simp add: appends_def)

lemma appends_bind:
  assumes "appends ok out fails bs s r" and "\<And>s'. ok s' \<Longrightarrow> appends ok out fails cs s' (f s')"
  shows "appends ok out fails (bs @ cs) s (case r of Inl err \<Rightarrow> Inl err | Inr s' \<Rightarrow> f s')"
proof (cases r)
  case (Inr s')
  with assms(1) have "ok s'" by (simp add: appends_def)
  from assms(2) [OF this] Inr assms(1) show ?thesis by (simp add: appends_def split: sum.splits)
qed (use assms(1) in \<open>simp add: appends_def\<close>)

text \<open>What \<open>var_int_io.hpp\<close> relies on in a class that is written to: \<open>ensureWrite\<close> appends, and so does storing to the
  position directly as long as \<open>buf_remain_bytes\<close> has room.\<close>

locale var_writer =
  fixes ok :: "'a MinMemIO_scheme \<Rightarrow> bool" and ew :: "u8 list \<Rightarrow> 'a MinMemIO_scheme \<Rightarrow> error + 'a MinMemIO_scheme"
    and remain :: "'a MinMemIO_scheme \<Rightarrow> int" and out :: "'a MinMemIO_scheme \<Rightarrow> u8 list" and fails :: "error \<Rightarrow> bool"
  assumes ew_appends: "ok s \<Longrightarrow> appends ok out fails bs s (ew bs s)"
    and store_appends: "ok s \<Longrightarrow> int (length bs) \<le> remain s \<Longrightarrow>
      m_pos s + length bs \<le> length (mem s) \<and> appends ok out fails bs s (Inr (s\<lparr>mem := put_at (m_pos s) bs (mem s), m_pos := m_pos s + length bs\<rparr>))"
begin

lemma save_appends:
  assumes "ok s" and sv: "\<And>buf p. sv buf p x = (if p + length bs \<le> length buf then Inr (put_at p bs buf, p + length bs) else Inl Out_of_bounds)"
    and "length bs \<le> n"
  shows "appends ok out fails bs s
    (if int n \<le> remain s then case sv (mem s) (m_pos s) x of Inl err \<Rightarrow> Inl err | Inr (m, p) \<Rightarrow> Inr (s\<lparr>mem := m, m_pos := p\<rparr>)
     else case sv (replicate n 0) 0 x of Inl err \<Rightarrow> Inl err | Inr (tmpbuf, len) \<Rightarrow> ew (take len tmpbuf) s)"
proof (cases "int n \<le> remain s")
  case True
  with store_appends [OF assms(1), of bs] assms(3) show ?thesis by (simp add: sv)
next
  case False
  have "take (length bs) (put_at 0 bs (replicate n 0)) = bs" by (simp add: put_at_def)
  with False ew_appends [OF assms(1), of bs] assms(3) show ?thesis by (simp add: sv)
qed

lemma write_var_uint_appends:
  assumes "ok s"
  shows "appends ok out fails (varint (unat x)) s (write_var_uint32 remain ew x s)"
    and "appends ok out fails (varint (unat y)) s (write_var_uint64 remain ew y s)"
  using save_appends [OF assms, of gg_save_var_uint x "varint (unat x)" 5] save_appends [OF assms, of gg_save_var_uint y "varint (unat y)" 10]
    length_varint32 [of x] length_varint64 [of y]
  by (simp_all add: write_var_uint32_def write_var_uint64_def save_varint Let_def)

lemma write_prefix_appends:
  assumes "ok s"
  shows "unat x < 2 ^ 30 \<Longrightarrow> appends ok out fails (prefix_code 2 (unat x)) s (write_var_uint30 remain ew x s)"
    and "unat y < 2 ^ 61 \<Longrightarrow> appends ok out fails (prefix_code 3 (unat y)) s (write_var_uint61 remain ew y s)"
  using save_appends [OF assms, of gg_save_var_uint30 x "prefix_code 2 (unat x)" 4] save_appends [OF assms, of gg_save_var_uint61 y "prefix_code 3 (unat y)" 8]
    prefix_len_bound(3) [of "2 ^ 2 * unat x"] prefix_len_bound(2) [of "2 ^ 3 * unat y"]
  by (simp_all add: write_var_uint30_def write_var_uint61_def save30_code save61_code length_prefix_code Let_def)

lemma write_string_appends:
  assumes "ok s" and "length str < 2 ^ 32"
  shows "appends ok out fails (varint (length str) @ str) s (write_string remain ew str s)"
proof -
  have "unat (word_of_nat (length str) :: u32) = length str" using assms(2) by (simp add: unat_of_nat)
  then show ?thesis
    using appends_bind [OF write_var_uint_appends(1) [OF assms(1), of "word_of_nat (length str)"] ew_appends, of str]
    by (simp add: write_string_def)
qed

lemmas write_int_appends =
  write_var_uint_appends(1) [of _ "var_int_s2u x" for x, folded write_var_int32_def]
  write_var_uint_appends(2) [of _ "var_int_s2u x" for x, folded write_var_int64_def]
  write_prefix_appends(1) [of _ "var_int_s2u x" for x, folded write_var_int30_def]
  write_prefix_appends(2) [of _ "var_int_s2u x" for x, folded write_var_int61_def]

end

lemma min_ensureWrite_eq:
  "m_pos s + length bs \<le> length (mem s) \<Longrightarrow>
    min_ensureWrite bs s = Inr (s\<lparr>mem := put_at (m_pos s) bs (mem s), m_pos := m_pos s + length bs\<rparr>)"
  by (simp add: min_ensureWrite_def wr8s_def)

lemma out_put_at: "p + length bs \<le> length m \<Longrightarrow> take (p + length bs) (put_at p bs m) = take p m @ bs"
  by (simp add: put_at_def)

lemma ag_store: "ag_ok s \<Longrightarrow> m_pos s + length bs \<le> length (mem s) \<Longrightarrow>
    appends ag_ok out_bytes fails bs s (Inr (s\<lparr>mem := put_at (m_pos s) bs (mem s), m_pos := m_pos s + length bs\<rparr>))"
  by (auto simp: appends_Inr ag_ok_def out_bytes_def out_put_at put_at_def)

lemma ag_resize_eq:
  assumes "ag_ok s" and "m_pos s \<le> n"
  shows "ag_resize e n s = (if v_ok e n then Inr (s\<lparr>mem := take n (mem s) @ map (v_junk e) [length (mem s)..<n], m_end := n, m_owned := True\<rparr>) else Inl Bad_alloc)"
  using assms by (simp add: ag_resize_def ag_ok_def sk_tell_def v_realloc_def)

lemma ag_resize_ok:
  assumes "ag_ok s" and "m_pos s \<le> n"
  shows "appends ag_ok out_bytes (ag_fails e) [] s (ag_resize e n s)"
    and "ag_resize e n s = Inr s' \<Longrightarrow> length (mem s') = n \<and> m_pos s' = m_pos s"
  using assms by (auto simp: ag_resize_eq appends_def ag_fails_def ag_ok_def out_bytes_def min_def split: if_splits)

lemma resize_then_write:
  assumes ok: "ag_ok s" and n: "m_pos s + length bs \<le> n"
  shows "appends ag_ok out_bytes (ag_fails e) bs s (case ag_resize e n s of Inl err \<Rightarrow> Inl err | Inr s \<Rightarrow> min_ensureWrite bs s)"
proof (cases "ag_resize e n s")
  case (Inl err)
  with ag_resize_ok(1) [OF ok, of n e] n show ?thesis by (simp add: appends_def)
next
  case (Inr s')
  have s': "ag_ok s'" "out_bytes s' = out_bytes s" "length (mem s') = n" "m_pos s' = m_pos s"
    using ag_resize_ok [OF ok, of n e] n Inr by (auto simp: appends_def)
  have "m_pos s' + length bs \<le> length (mem s')" using s' n by simp
  from ag_store [OF s'(1) this] min_ensureWrite_eq [OF this] show ?thesis by (simp add: Inr appends_def s'(2))
qed

lemma ag_writes:
  assumes "ag_ok s"
  shows "appends ag_ok out_bytes (ag_fails e) bs s (ag_ensureWrite e bs s)" and "appends ag_ok out_bytes (ag_fails e) [b] s (ag_writeByte e b s)"
proof -
  have le: "m_pos s \<le> length (mem s)" "sk_size s = length (mem s)" "m_end s = length (mem s)" using assms by (auto simp: ag_ok_def sk_size_def)
  show "appends ag_ok out_bytes (ag_fails e) bs s (ag_ensureWrite e bs s)"
  proof (cases "m_pos s + length bs \<le> m_end s")
    case True
    with ag_store [OF assms] le show ?thesis by (simp add: ag_ensureWrite_def min_ensureWrite_eq)
  next
    case False
    with resize_then_write [OF assms, of bs] le show ?thesis by (simp add: ag_ensureWrite_def ag_growAndWrite_def Let_def)
  qed
  show "appends ag_ok out_bytes (ag_fails e) [b] s (ag_writeByte e b s)"
  proof (cases "m_pos s < m_end s")
    case True
    with ag_store [OF assms, of "[b]"] le show ?thesis by (simp add: ag_writeByte_def min_writeByte_def min_ensureWrite_eq)
  next
    case False
    then have "m_pos s + length [b] \<le> max (2 * sk_size s) 64" using le by simp
    from resize_then_write [OF assms this] False show ?thesis unfolding ag_writeByte_def ag_growAndWriteByte_def min_writeByte_def by simp
  qed
qed

interpretation agw: var_writer ag_ok "ag_ensureWrite e" mem_buf_remain_bytes out_bytes "ag_fails e" for e
proof
  fix s :: AutoGrownMemIO and bs assume s: "ag_ok s"
  show "appends ag_ok out_bytes (ag_fails e) bs s (ag_ensureWrite e bs s)" by (rule ag_writes(1) [OF s])
  assume "int (length bs) \<le> mem_buf_remain_bytes s"
  then have "m_pos s + length bs \<le> length (mem s)" using s by (simp add: mem_buf_remain_bytes_def ag_ok_def)
  with ag_store [OF s this] show "m_pos s + length bs \<le> length (mem s) \<and>
      appends ag_ok out_bytes (ag_fails e) bs s (Inr (s\<lparr>mem := put_at (m_pos s) bs (mem s), m_pos := m_pos s + length bs\<rparr>))" by blast
qed

lemma mem_store:
  assumes s: "mem_within k behind s" and n: "m_pos s + length bs \<le> m_end s"
  shows "m_pos s + length bs \<le> length (mem s)"
    and "mem_within k behind (s\<lparr>mem := put_at (m_pos s) bs (mem s), m_pos := m_pos s + length bs\<rparr>)"
    and "out_bytes (s\<lparr>mem := put_at (m_pos s) bs (mem s), m_pos := m_pos s + length bs\<rparr>) = out_bytes s @ bs"
proof -
  show b: "m_pos s + length bs \<le> length (mem s)" using assms by (simp add: mem_within_def mem_ok_def)
  have "drop (m_end s) (put_at (m_pos s) bs (mem s)) = drop (m_end s) (mem s)" using n b by (simp add: put_at_def)
  with s n b show "mem_within k behind (s\<lparr>mem := put_at (m_pos s) bs (mem s), m_pos := m_pos s + length bs\<rparr>)"
    by (auto simp: mem_within_def mem_ok_def)
  show "out_bytes (s\<lparr>mem := put_at (m_pos s) bs (mem s), m_pos := m_pos s + length bs\<rparr>) = out_bytes s @ bs"
    using b by (simp add: out_bytes_def out_put_at)
qed

interpretation mmw: var_writer "mem_within k behind" mem_ensureWrite mem_buf_remain_bytes out_bytes "\<lambda>err. err = Out_of_space" for k behind
proof
  fix s :: "'a MemIO_scheme" and bs assume s: "mem_within k behind s"
  show "appends (mem_within k behind) out_bytes (\<lambda>err. err = Out_of_space) bs s (mem_ensureWrite bs s)"
    using mem_store [OF s, of bs] by (auto simp: mem_ensureWrite_def min_ensureWrite_eq appends_def)
  assume "int (length bs) \<le> mem_buf_remain_bytes s"
  then have "m_pos s + length bs \<le> m_end s" by (simp add: mem_buf_remain_bytes_def)
  from mem_store [OF s this] show "m_pos s + length bs \<le> length (mem s) \<and> appends (mem_within k behind) out_bytes (\<lambda>err. err = Out_of_space) bs s
      (Inr (s\<lparr>mem := put_at (m_pos s) bs (mem s), m_pos := m_pos s + length bs\<rparr>))" by (simp add: appends_Inr)
qed

section \<open>Growing\<close>

lemma grow_loop_returns:
  assumes "n \<le> 2 ^ 63"
  shows "0 < c \<Longrightarrow> \<exists>r. grow_loop n c = Some r \<and> n \<le> r \<and> c \<le> r \<and> (r = c \<or> r < 2 * n)"
proof (induction "n - c" arbitrary: c rule: less_induct)
  case less
  show ?case
  proof (cases "c < n")
    case True
    then have e: "c * 2 mod 2 ^ 64 = c * 2" using assms by simp
    have g: "grow_loop n c = grow_loop n (c * 2)" using True by (subst grow_loop.simps) (simp only: e if_True)
    have "n - c * 2 < n - c" "0 < c * 2" using True less.prems by simp_all
    from less.hyps [OF this] obtain r where "grow_loop n (c * 2) = Some r" "n \<le> r" "c * 2 \<le> r" "r = c * 2 \<or> r < 2 * n" by blast
    then show ?thesis using True unfolding g by (intro exI [of _ r]) auto
  qed (subst grow_loop.simps, simp)
qed

text \<open>A capacity that is a power of two reaches zero by doubling, and zero stays zero.\<close>

lemma grow_loop_Some:
  assumes "grow_loop n c = Some r"
  shows "c = 0 \<or> (\<exists>k \<le> 63. c = 2 ^ k) \<longrightarrow> n \<le> 2 ^ 63"
proof (rule grow_loop.raw_induct [where P = "\<lambda>n c r. c = 0 \<or> (\<exists>k \<le> 63. c = 2 ^ k) \<longrightarrow> n \<le> 2 ^ 63", OF _ assms], intro impI)
  fix f and n c r :: nat
  assume IH: "\<And>n c r. f n c = Some r \<Longrightarrow> c = 0 \<or> (\<exists>k \<le> 63. c = 2 ^ k) \<longrightarrow> n \<le> 2 ^ 63"
    and eq: "(if c < n then f n (c * 2 mod 2 ^ 64) else Some c) = Some r" and c: "c = 0 \<or> (\<exists>k \<le> 63. c = 2 ^ k)"
  show "n \<le> 2 ^ 63"
  proof (cases "c < n")
    case True
    have "c * 2 mod 2 ^ 64 = 0 \<or> (\<exists>k \<le> 63. c * 2 mod 2 ^ 64 = 2 ^ k)" using c
    proof
      assume "\<exists>k \<le> 63. c = 2 ^ k"
      then obtain k where k: "k \<le> 63" "c = 2 ^ k" by blast
      show ?thesis
      proof (cases "k = 63")
        case False
        with k have "(2::nat) ^ Suc k < 2 ^ 64" by (intro power_strict_increasing) simp_all
        then have "c * 2 mod 2 ^ 64 = 2 ^ Suc k" by (simp add: k(2) mult.commute)
        with False k show ?thesis by (intro disjI2 exI [of _ "Suc k"]) auto
      qed (simp add: k(2))
    qed simp
    with IH eq True show ?thesis by (simp only: if_True)
  next
    case False
    have "c \<le> 2 ^ 63" using c power_increasing [of _ 63 "2 :: nat"] by auto
    with False show ?thesis by simp
  qed
qed

lemma ag_grow_ok:
  assumes ok: "ag_ok s" and n: "sk_size s + k \<le> 2 ^ 63"
  shows "\<exists>r. ag_grow e k s = Some r \<and> appends ag_ok out_bytes (ag_fails e) [] s r \<and> (\<forall>s'. r = Inr s' \<longrightarrow> sk_size s + k \<le> sk_size s')"
proof -
  have sz: "m_end s - m_beg s = sk_size s" "m_pos s \<le> sk_size s" using ok by (auto simp: sk_size_def ag_ok_def)
  have m: "(sk_size s + k) mod 2 ^ 64 = sk_size s + k" using n by simp
  have c: "0 < max 32 (sk_size s)" by (simp add: max_def)
  obtain r where r: "grow_loop (sk_size s + k) (max 32 (sk_size s)) = Some r" "sk_size s + k \<le> r" "max 32 (sk_size s) \<le> r"
    using grow_loop_returns [OF n c] by blast
  have p: "m_pos s \<le> r" using r(3) sz(2) by simp
  have "sk_size s' = r" if "ag_resize e r s = Inr s'" for s'
    using ag_resize_ok(2) [OF ok p, of e s'] ag_resize_ok(1) [OF ok p, of e] that by (auto simp: appends_def ag_ok_def sk_size_def)
  moreover have "ag_grow e k s = Some (ag_resize e r s)" unfolding ag_grow_def Let_def sz(1) m r(1) by simp
  ultimately show ?thesis using r(2) ag_resize_ok(1) [OF ok p, of e] by auto
qed

section \<open>Formatted text\<close>

lemma vprintf_loop_fits:
  assumes ok: "ag_ok s" and fit: "length tx < m_end s - m_pos s"
  shows "ag_vprintf_loop e (vsnprintf tx) s
      = Some (Inr (length tx, s\<lparr>mem := put_at (m_pos s) (tx @ [0]) (mem s), m_pos := m_pos s + length tx\<rparr>))"
    and "appends ag_ok out_bytes fails tx s (Inr (s\<lparr>mem := put_at (m_pos s) (tx @ [0]) (mem s), m_pos := m_pos s + length tx\<rparr>))"
proof -
  show "ag_vprintf_loop e (vsnprintf tx) s
      = Some (Inr (length tx, s\<lparr>mem := put_at (m_pos s) (tx @ [0]) (mem s), m_pos := m_pos s + length tx\<rparr>))"
    using fit by (subst ag_vprintf_loop.simps) (simp add: vsnprintf_def Let_def)
  show "appends ag_ok out_bytes fails tx s (Inr (s\<lparr>mem := put_at (m_pos s) (tx @ [0]) (mem s), m_pos := m_pos s + length tx\<rparr>))"
    using assms by (auto simp: appends_Inr ag_ok_def out_bytes_def put_at_def)
qed

lemma vprintf_loop_returns:
  assumes ok: "ag_ok s"
  shows "\<exists>r. ag_vprintf_loop e (vsnprintf tx) s = Some r \<and> appends ag_ok out_bytes (ag_fails e) tx s (drop_val r)
    \<and> (\<forall>n s'. r = Inr (n, s') \<longrightarrow> n = length tx)"
proof (cases "length tx < m_end s - m_pos s")
  case True
  note v = vprintf_loop_fits [OF ok True]
  from v(1) [of e] v(2) [of "ag_fails e"] show ?thesis by (simp add: drop_val_def)
next
  case False
  define z where "z = m_end s - m_pos s"
  define t where "t = s\<lparr>mem := put_at (m_pos s) (snd (vsnprintf tx z)) (mem s)\<rparr>"
  define N where "N = (m_pos s + (length tx + 1)) * 2"
  have l: "length (snd (vsnprintf tx z)) \<le> z" by (auto simp: vsnprintf_def)
  then have t: "ag_ok t" "out_bytes t = out_bytes s" "m_pos t = m_pos s"
    using ok by (auto simp: t_def z_def ag_ok_def out_bytes_def put_at_def)
  have f: "fst (vsnprintf tx z) = int (length tx)" by (simp add: vsnprintf_def)
  have nz: "\<not> length tx < z" and b: "m_beg t = 0" using False ok by (simp_all add: z_def t_def ag_ok_def)
  have p: "m_pos t \<le> N" by (simp add: t(3) N_def)
  have st: "ag_vprintf_loop e (vsnprintf tx) s = (case ag_resize e N t of Inl err \<Rightarrow> Some (Inl err) | Inr s \<Rightarrow> ag_vprintf_loop e (vsnprintf tx) s)"
    using nz b by (subst ag_vprintf_loop.simps) (simp add: Let_def z_def [symmetric] f t_def [symmetric] N_def t(3))
  show ?thesis
  proof (cases "ag_resize e N t")
    case (Inl err)
    with ag_resize_ok(1) [OF t(1) p, of e] show ?thesis by (simp add: st appends_def drop_val_def)
  next
    case (Inr u)
    then have u: "ag_ok u" "out_bytes u = out_bytes s" "length (mem u) = N" "m_pos u = m_pos s"
      using ag_resize_ok(1) [OF t(1) p, of e] ag_resize_ok(2) [OF t(1) p, of e u] t by (simp_all add: appends_def)
    then have fit: "length tx < m_end u - m_pos u" by (simp add: ag_ok_def N_def)
    from vprintf_loop_fits [OF u(1) fit] show ?thesis by (simp add: st Inr drop_val_def appends_def u(2))
  qed
qed

lemma ag_vprintf_ok:
  assumes ok: "ag_ok s"
  shows "\<exists>r. ag_vprintf e (vsnprintf tx) s = Some r \<and> appends ag_ok out_bytes (ag_fails e) tx s (drop_val r)
    \<and> (\<forall>n s'. r = Inr (n, s') \<longrightarrow> n = length tx)"
proof (cases "m_end s - m_pos s < 64")
  case True
  have le: "m_pos s \<le> max 64 ((m_end s - m_beg s) * 2)" using ok by (auto simp: ag_ok_def)
  show ?thesis
  proof (cases "ag_resize e (max 64 ((m_end s - m_beg s) * 2)) s")
    case (Inl err)
    with ag_resize_ok(1) [OF ok le, of e] True show ?thesis by (simp add: ag_vprintf_def appends_def drop_val_def)
  next
    case (Inr u)
    then have u: "ag_ok u" "out_bytes u = out_bytes s" using ag_resize_ok(1) [OF ok le, of e] by (simp_all add: appends_def)
    from vprintf_loop_returns [OF u(1), of e tx] True Inr show ?thesis by (auto simp: ag_vprintf_def appends_def u(2) split: sum.splits)
  qed
qed (use vprintf_loop_returns [OF ok, of e tx] in \<open>simp add: ag_vprintf_def\<close>)

section \<open>Sequences of operations\<close>

lemma write_item_ok: "ag_ok s \<Longrightarrow> item_ok x \<Longrightarrow> appends ag_ok out_bytes (ag_fails e) (item_bytes x) s (write_item e x s)"
  by (cases x) (simp_all add: agw.write_var_uint_appends agw.write_int_appends agw.write_string_appends)

lemma ag_moves:
  assumes ok: "ag_ok s"
  shows "ag_shrink_to_fit e s = r \<Longrightarrow> appends ag_ok out_bytes (ag_fails e) [] s r"
    and "ag_init e n s = Inr s' \<Longrightarrow> ag_ok s' \<and> out_bytes s' = []" and "ag_init e n s = Inl err \<Longrightarrow> ag_fails e err"
    and "0 \<le> p \<Longrightarrow> p \<le> int (sk_tell s) \<Longrightarrow> \<exists>s'. sk_seek p s = Inr s' \<and> ag_ok s' \<and> out_bytes s' = take (nat p) (out_bytes s)"
    and "d \<le> 0 \<Longrightarrow> 0 \<le> int (sk_tell s) + d \<Longrightarrow>
      \<exists>o' s'. sk_skip d s = Inr (o', s') \<and> ag_ok s' \<and> out_bytes s' = take (nat (int (length (out_bytes s)) + d)) (out_bytes s)"
proof -
  show "ag_shrink_to_fit e s = r \<Longrightarrow> appends ag_ok out_bytes (ag_fails e) [] s r"
    using ok by (auto simp: ag_shrink_to_fit_def v_realloc_def Let_def appends_def ag_ok_def ag_fails_def out_bytes_def ag_null_def)
  show "ag_init e n s = Inr s' \<Longrightarrow> ag_ok s' \<and> out_bytes s' = []" "ag_init e n s = Inl err \<Longrightarrow> ag_fails e err"
    by (auto simp: ag_init_def v_realloc_def ag_ok_def ag_fails_def out_bytes_def ag_null_def split: if_splits)
  show "\<exists>s'. sk_seek p s = Inr s' \<and> ag_ok s' \<and> out_bytes s' = take (nat p) (out_bytes s)" if "0 \<le> p" "p \<le> int (sk_tell s)"
    using that ok by (auto simp: sk_seek_def ag_ok_def out_bytes_def sk_tell_def min_def nat_le_iff)
  show "\<exists>o' s'. sk_skip d s = Inr (o', s') \<and> ag_ok s' \<and> out_bytes s' = take (nat (int (length (out_bytes s)) + d)) (out_bytes s)"
    if "d \<le> 0" "0 \<le> int (sk_tell s) + d"
    using that ok by (auto simp: sk_skip_def move_pos_def Let_def ag_ok_def out_bytes_def sk_tell_def min_def nat_le_iff)
qed

lemma ag_exec_ok:
  assumes ok: "ag_ok s" and pre: "ag_pre a s"
  shows "case ag_exec e a s of Inl err \<Rightarrow> ag_fails e err | Inr s' \<Rightarrow> ag_ok s' \<and> out_bytes s' = ag_spec a (out_bytes s)"
proof -
  have A: "appends ag_ok out_bytes (ag_fails e) bs s (ag_exec e a s) \<Longrightarrow> ag_spec a (out_bytes s) = out_bytes s @ bs \<Longrightarrow> ?thesis" for bs
    by (simp add: appends_def split: sum.splits)
  show ?thesis
  proof (cases a)
    case (AG_write bs)
    with ag_writes(1) [OF ok, of e bs] show ?thesis by (auto simp: ag_write_def drop_val_def appends_def split: sum.splits)
  next
    case (AG_item x)
    with pre write_item_ok [OF ok, of x e] show ?thesis by (intro A [of "item_bytes x"]) simp_all
  next
    case (AG_printf tx)
    with ag_vprintf_ok [OF ok, of e tx] show ?thesis by (intro A [of tx]) (auto simp: run_opt_def)
  next
    case (AG_grow n)
    with pre ag_grow_ok [OF ok, of n e] show ?thesis by (intro A [of "[]"]) (auto simp: run_opt_def)
  next
    case (AG_seek p)
    with pre ag_moves(4) [OF ok, of p] show ?thesis by auto
  next
    case (AG_skip d)
    with pre ag_moves(5) [OF ok, of d] show ?thesis by (auto simp: drop_val_def)
  next
    case (AG_init n)
    with ag_moves(2,3) [OF ok, of e n] show ?thesis by (auto split: sum.splits)
  next
    case (AG_resize n)
    then have "m_pos s \<le> n" using pre ok by (simp add: sk_tell_def ag_ok_def)
    from ag_resize_ok(1) [OF ok this, of e] AG_resize show ?thesis by (intro A [of "[]"]) simp_all
  next
    case AG_shrink_to_fit
    with ag_moves(1) [OF ok refl, of e] show ?thesis by (intro A [of "[]"]) simp_all
  next
    case (AG_uint30 x)
    with pre agw.write_prefix_appends(1) [OF ok, of x e] show ?thesis by (intro A) simp_all
  next
    case (AG_uint61 x)
    with pre agw.write_prefix_appends(2) [OF ok, of x e] show ?thesis by (intro A) simp_all
  next
    case (AG_int30 x)
    with pre agw.write_int_appends(3) [OF ok, of x e] s2u_bound [of x 29] show ?thesis by (intro A) simp_all
  next
    case (AG_int61 x)
    with pre agw.write_int_appends(4) [OF ok, of x e] s2u_bound [of x 60] show ?thesis by (intro A) simp_all
  next
    case (AG_writeByte b)
    with ag_writes(2) [OF ok, of e b] show ?thesis by (intro A) simp_all
  next
    case (AG_ensureWrite bs)
    with ag_writes(1) [OF ok, of e bs] show ?thesis by (intro A) simp_all
  next
    case AG_clear
    then show ?thesis using ok by (auto simp: ag_clear_def ag_null_def ag_ok_def out_bytes_def)
  next
    case AG_rewind
    then show ?thesis using ok by (auto simp: sk_rewind_def ag_ok_def out_bytes_def)
  qed
qed

interpretation agm: op_machine ag_ok "ag_exec e" "ag_run e" ag_pre "ag_pre_run e" out_bytes ag_spec "ag_fails e" for e
proof
  fix s s' :: AutoGrownMemIO and a err assume "ag_ok s" "ag_pre a s"
  from ag_exec_ok [OF this, of e]
  show "ag_exec e a s = Inr s' \<Longrightarrow> ag_ok s' \<and> out_bytes s' = ag_spec a (out_bytes s)" "ag_exec e a s = Inl err \<Longrightarrow> ag_fails e err"
    by simp_all
qed (auto split: sum.splits)

section \<open>Reading\<close>

lemma length_prefix30: "n < 2 ^ 30 \<Longrightarrow> length (prefix_code 2 n) \<le> 4"
  using prefix_len_bound(3) [of "2 ^ 2 * n"] length_prefix_code [of 2 n] by simp

lemma length_prefix61: "n < 2 ^ 61 \<Longrightarrow> length (prefix_code 3 n) \<le> 8"
  using prefix_len_bound(2) [of "2 ^ 3 * n"] length_prefix_code [of 3 n] by simp

text \<open>What \<open>var_int_io.hpp\<close> relies on in a class that is read from: the next \<open>buf_remain_bytes\<close> bytes, all the bytes there are or those
  a buffer holds of them, are at the position, and the position may be moved over them.\<close>

locale var_reader = byte_source ok rb bytes
  for ok :: "'a MinMemIO_scheme \<Rightarrow> bool" and rb :: "'a MinMemIO_scheme \<Rightarrow> error + u8 \<times> 'a MinMemIO_scheme" and bytes :: "'a MinMemIO_scheme \<Rightarrow> u8 list" +
  fixes remain :: "'a MinMemIO_scheme \<Rightarrow> int"
  assumes remain: "ok s \<Longrightarrow> remain s \<le> int (length (bytes s))"
    and at_pos: "ok s \<Longrightarrow> \<exists>rest. drop (m_pos s) (mem s) = take (nat (remain s)) (bytes s) @ rest"
    and advance: "ok s \<Longrightarrow> int n \<le> remain s \<Longrightarrow> ok (s\<lparr>m_pos := m_pos s + n\<rparr>) \<and> bytes (s\<lparr>m_pos := m_pos s + n\<rparr>) = drop n (bytes s)"
begin

lemma next_bytes:
  assumes "ok s" and "bytes s = xs @ rest" and "int (length xs) \<le> remain s"
  shows "\<exists>r. drop (m_pos s) (mem s) = xs @ r"
    and "ok (s\<lparr>m_pos := m_pos s + length xs\<rparr>)" and "bytes (s\<lparr>m_pos := m_pos s + length xs\<rparr>) = rest"
proof -
  have "take (nat (remain s)) (bytes s) = xs @ take (nat (remain s) - length xs) rest" using assms(2,3) by simp
  then show "\<exists>r. drop (m_pos s) (mem s) = xs @ r" using at_pos [OF assms(1)] by auto
qed (use advance [OF assms(1,3)] assms(2) in simp_all)

lemma read_var_uint:
  assumes "ok s"
  shows "bytes s = varint (unat x) @ rest \<Longrightarrow> \<exists>s'. read_var_uint32 remain rb s = Inr (x, s') \<and> ok s' \<and> bytes s' = rest"
    and "bytes s = varint (unat y) @ rest \<Longrightarrow> \<exists>s'. read_var_uint64 remain rb s = Inr (y, s') \<and> ok s' \<and> bytes s' = rest"
proof -
  show "\<exists>s'. read_var_uint32 remain rb s = Inr (x, s') \<and> ok s' \<and> bytes s' = rest" if b: "bytes s = varint (unat x) @ rest"
  proof (cases "5 \<le> remain s")
    case True
    then have "int (length (varint (unat x))) \<le> remain s" using length_varint32 [of x] by linarith
    note n = next_bytes [OF assms b this]
    then obtain r where "drop (m_pos s) (mem s) = varint (unat x) @ r" by blast
    from load32_varint [OF this] True n(2,3) show ?thesis by (simp add: read_var_uint32_def load_var_uint32_def)
  next
    case False
    with slow_varint [where 'a = 32, OF _ assms b, of 0 0 28] length_varint32 [of x]
    show ?thesis by (simp add: read_var_uint32_def gg_load_var_uint_slow_def)
  qed
  show "\<exists>s'. read_var_uint64 remain rb s = Inr (y, s') \<and> ok s' \<and> bytes s' = rest" if b: "bytes s = varint (unat y) @ rest"
  proof (cases "10 \<le> remain s")
    case True
    then have "int (length (varint (unat y))) \<le> remain s" using length_varint64 [of y] by linarith
    note n = next_bytes [OF assms b this]
    then obtain r where "drop (m_pos s) (mem s) = varint (unat y) @ r" by blast
    from load64_varint [OF this] True n(2,3) show ?thesis by (simp add: read_var_uint64_def load_var_uint64_def)
  next
    case False
    with slow_varint [where 'a = 64, OF _ assms b, of 0 0 63] length_varint64 [of y]
    show ?thesis by (simp add: read_var_uint64_def gg_load_var_uint_slow_def)
  qed
qed

lemma read_var_int:
  assumes "ok s"
  shows "bytes s = varint (unat (var_int_s2u x)) @ rest \<Longrightarrow> \<exists>s'. read_var_int32 remain rb s = Inr (x, s') \<and> ok s' \<and> bytes s' = rest"
    and "bytes s = varint (unat (var_int_s2u y)) @ rest \<Longrightarrow> \<exists>s'. read_var_int64 remain rb s = Inr (y, s') \<and> ok s' \<and> bytes s' = rest"
  using read_var_uint(1) [OF assms, of "var_int_s2u x" rest] read_var_uint(2) [OF assms, of "var_int_s2u y" rest]
  by (auto simp: read_var_int32_def read_var_int64_def map_val_def var_int_inverse)

text \<open>The length prefixed numbers: right with enough bytes left, and otherwise with the further bytes in the reverse order.\<close>

lemma read_prefix30:
  assumes ok: "ok s" and n: "unat x < 2 ^ 30" and b: "bytes s = prefix_code 2 (unat x) @ rest"
  shows "\<exists>s'. read_var_uint30 remain rb s = Inr (if 4 \<le> remain s then x
      else drop_bit 2 (le_word (hd (prefix_code 2 (unat x)) # rev (tl (prefix_code 2 (unat x))))), s') \<and> ok s' \<and> bytes s' = rest"
proof (cases "4 \<le> remain s")
  case True
  then have "int (length (prefix_code 2 (unat x))) \<le> remain s" using length_prefix30 [OF n] by linarith
  note n' = next_bytes [OF ok b this]
  obtain r where r: "drop (m_pos s) (mem s) = take (nat (remain s)) (bytes s) @ r" using at_pos [OF ok] by blast
  from n'(1) obtain r' where "drop (m_pos s) (mem s) = prefix_code 2 (unat x) @ r'" by blast
  moreover have "4 \<le> length (drop (m_pos s) (mem s))" using r True remain [OF ok] by simp
  ultimately show ?thesis using load30_code [OF n] True n'(2,3) by (simp add: read_var_uint30_def)
next
  case False
  with slow30_code [OF ok n b] show ?thesis by (simp add: read_var_uint30_def)
qed

lemma read_prefix61:
  assumes ok: "ok s" and n: "unat x < 2 ^ 61" and b: "bytes s = prefix_code 3 (unat x) @ rest"
  shows "\<exists>s'. read_var_uint61 remain rb s = Inr (if 8 \<le> remain s then x
      else drop_bit 3 (le_word (hd (prefix_code 3 (unat x)) # rev (tl (prefix_code 3 (unat x))))), s') \<and> ok s' \<and> bytes s' = rest"
proof (cases "8 \<le> remain s")
  case True
  then have "int (length (prefix_code 3 (unat x))) \<le> remain s" using length_prefix61 [OF n] by linarith
  note n' = next_bytes [OF ok b this]
  obtain r where r: "drop (m_pos s) (mem s) = take (nat (remain s)) (bytes s) @ r" using at_pos [OF ok] by blast
  from n'(1) obtain r' where "drop (m_pos s) (mem s) = prefix_code 3 (unat x) @ r'" by blast
  moreover have "8 \<le> length (drop (m_pos s) (mem s))" using r True remain [OF ok] by simp
  ultimately show ?thesis using load61_code [OF n] True n'(2,3) by (simp add: read_var_uint61_def)
next
  case False
  with slow61_code [OF ok n b] show ?thesis by (simp add: read_var_uint61_def)
qed

end

lemma mem_within_self: "mem_ok s \<Longrightarrow> mem_within (m_end s) (drop (m_end s) (mem s)) s"
  by (simp add: mem_within_def)

lemma mem_bytes_Cons:
  assumes "mem_ok s" and "mem_bytes s = b # bs"
  shows "m_pos s < m_end s" and "mem s ! m_pos s = b" and "m_pos s < length (mem s)" and "mem_bytes (s\<lparr>m_pos := m_pos s + 1\<rparr>) = bs"
proof -
  show p: "m_pos s < m_end s" using assms(2) by (cases "m_end s - m_pos s") (simp_all add: mem_bytes_def)
  show l: "m_pos s < length (mem s)" using p assms(1) by (simp add: mem_ok_def)
  have "mem_bytes s = mem s ! m_pos s # mem_bytes (s\<lparr>m_pos := m_pos s + 1\<rparr>)"
    using p l by (simp add: mem_bytes_def Cons_nth_drop_Suc [symmetric] take_Cons' )
  with assms(2) show "mem s ! m_pos s = b" "mem_bytes (s\<lparr>m_pos := m_pos s + 1\<rparr>) = bs" by simp_all
qed

lemma mem_bytes_Nil: "mem_ok s \<Longrightarrow> mem_bytes s = [] \<longleftrightarrow> m_pos s = m_end s"
  by (auto simp: mem_bytes_def mem_ok_def)

lemma length_mem_bytes: "mem_ok s \<Longrightarrow> length (mem_bytes s) = m_end s - m_pos s"
  by (auto simp: mem_bytes_def mem_ok_def min_def)

lemma mem_remain_bytes: "mem_ok s \<Longrightarrow> mem_buf_remain_bytes s = int (length (mem_bytes s))"
  using length_mem_bytes [of s] by (simp add: mem_buf_remain_bytes_def mem_ok_def of_nat_diff)

interpretation mmr: var_reader "mem_within k behind" mem_readByte mem_bytes mem_buf_remain_bytes for k behind
proof
  fix s :: "'a MemIO_scheme" and b bs n assume w: "mem_within k behind s"
  then have s: "mem_ok s" by (simp add: mem_within_def)
  show "\<exists>s'. mem_readByte s = Inr (b, s') \<and> mem_within k behind s' \<and> mem_bytes s' = bs" if "mem_bytes s = b # bs"
    using mem_bytes_Cons [OF s that] w by (simp add: mem_readByte_def min_readByte_def rd8_def mem_within_def mem_ok_def)
  show "mem_readByte s = Inl End_of_file" if "mem_bytes s = []" using that s by (simp add: mem_bytes_Nil mem_readByte_def)
  have m: "mem_buf_remain_bytes s = int (length (mem_bytes s))" by (rule mem_remain_bytes [OF s])
  then show "mem_buf_remain_bytes s \<le> int (length (mem_bytes s))" by simp
  show "\<exists>rest. drop (m_pos s) (mem s) = take (nat (mem_buf_remain_bytes s)) (mem_bytes s) @ rest"
    unfolding m by (simp add: mem_bytes_def) (metis append_take_drop_id)
  assume "int n \<le> mem_buf_remain_bytes s"
  then have "n \<le> length (mem_bytes s)" using m by simp
  then show "mem_within k behind (s\<lparr>m_pos := m_pos s + n\<rparr>) \<and> mem_bytes (s\<lparr>m_pos := m_pos s + n\<rparr>) = drop n (mem_bytes s)"
    using s w by (auto simp: mem_within_def mem_ok_def mem_bytes_def drop_take add.commute)
qed

lemma mem_ensureRead_bytes:
  assumes "mem_within k behind s" and "mem_bytes s = bs @ rest"
  shows "\<exists>s'. mem_ensureRead (length bs) s = Inr (bs, s') \<and> mem_within k behind s' \<and> mem_bytes s' = rest"
proof -
  have s: "mem_ok s" using assms(1) by (simp add: mem_within_def)
  have n: "m_pos s + length bs \<le> m_end s" using length_mem_bytes [OF s] assms(2) s unfolding mem_ok_def by simp linarith
  have "take (length bs) (drop (m_pos s) (mem s)) = take (length bs) (mem_bytes s)" using n by (simp add: mem_bytes_def min_def)
  then have "take (length bs) (drop (m_pos s) (mem s)) = bs" using assms(2) by simp
  moreover have "m_pos s + length bs \<le> length (mem s)" using n s by (simp add: mem_ok_def)
  ultimately show ?thesis using n mmr.advance [OF assms(1), of "length bs"] assms(2)
    by (simp add: mem_ensureRead_def min_ensureRead_def mem_buf_remain_bytes_def)
qed

lemma read_like_item:
  assumes w: "mem_within k behind s" and b: "mem_bytes s = item_bytes x @ rest" and x: "item_ok x"
  shows "\<exists>s'. read_like x s = Inr (x, s') \<and> mem_within k behind s' \<and> mem_bytes s' = rest"
proof (cases x)
  case (V_string str)
  have u: "unat (word_of_nat (length str) :: u32) = length str" using x V_string by (simp add: unat_of_nat)
  have "mem_bytes s = varint (unat (word_of_nat (length str) :: u32)) @ str @ rest" using b V_string u by simp
  from mmr.read_var_uint(1) [OF w this] obtain s1 where
    s1: "read_var_uint32 mem_buf_remain_bytes mem_readByte s = Inr (word_of_nat (length str), s1)" "mem_within k behind s1" "mem_bytes s1 = str @ rest" by blast
  from mem_ensureRead_bytes [OF s1(2,3)] s1 show ?thesis
    by (cases "str = []") (auto simp: V_string read_string_def u map_val_def Let_def)
qed (use b mmr.read_var_uint [OF w] mmr.read_var_int [OF w] in \<open>force simp: map_val_def\<close>)+

lemma read_likes_items:
  "mem_within k behind s \<Longrightarrow> mem_bytes s = concat (map item_bytes xs) @ rest \<Longrightarrow> list_all item_ok xs \<Longrightarrow>
    \<exists>s'. read_likes xs s = Inr (xs, s') \<and> mem_within k behind s' \<and> mem_bytes s' = rest"
proof (induction xs arbitrary: s)
  case (Cons x xs)
  from Cons.prems(2,3) read_like_item [OF Cons.prems(1), of x "concat (map item_bytes xs) @ rest"]
  obtain s1 where s1: "read_like x s = Inr (x, s1)" "mem_within k behind s1" "mem_bytes s1 = concat (map item_bytes xs) @ rest" by auto
  from Cons.IH [OF s1(2,3)] Cons.prems(3) s1(1) show ?case by (auto simp: map_val_def)
qed simp

lemma write_items_ok:
  "ag_ok s \<Longrightarrow> list_all item_ok xs \<Longrightarrow> appends ag_ok out_bytes (ag_fails e) (concat (map item_bytes xs)) s (write_items e xs s)"
proof (induction xs arbitrary: s)
  case (Cons x xs)
  then show ?case using appends_bind [OF write_item_ok [of s x e], where f = "write_items e xs"] by simp
qed (simp add: appends_Inr)

section \<open>Reading arbitrary bytes\<close>

text \<open>The loads never leave the bytes that the callers have checked, whatever these hold.\<close>

lemma load_var_loop_bounds:
  "k = (M + 7 - s) div 7 \<Longrightarrow> p + k \<le> length buf \<Longrightarrow>
    (case load_var_loop M buf p s acc of Inl err \<Rightarrow> err = Runtime_error | Inr (x, q) \<Rightarrow> p \<le> q \<and> q \<le> p + k)"
proof (induction M buf p s acc arbitrary: k rule: load_var_loop.induct)
  case (1 M buf p s acc)
  show ?case
  proof (cases "s \<le> M")
    case True
    then have d: "k = Suc ((M + 7 - (s + 7)) div 7)" using 1(2) by (simp add: le_div_geq)
    then have p: "p < length buf" using 1(3) by simp
    define acc' where "acc' = acc OR push_bit s (ucast (buf ! p) AND 0x7F)"
    have st: "load_var_loop M buf p s acc = (if (ucast (buf ! p) :: 'a word) AND 0x80 = 0 then Inr (acc', p + 1) else load_var_loop M buf (p + 1) (s + 7) acc')"
      using True p by (subst load_var_loop.simps) (simp add: rd8_def Let_def acc'_def del: push_bit_and)
    have r: "rd8 buf p = Inr (buf ! p)" using p by (simp add: rd8_def)
    show ?thesis
    proof (cases "(ucast (buf ! p) :: 'a word) AND 0x80 = 0")
      case False
      from 1(1) [OF True r refl acc'_def False refl] 1(3) d False show ?thesis unfolding st
        by (auto split: sum.splits)
    qed (simp add: st d)
  qed (subst load_var_loop.simps, simp)
qed

lemma keeps_bind:
  assumes "keeps P fails r" and "\<And>b s. P s \<Longrightarrow> keeps Q fails (f b s)"
  shows "keeps Q fails (case r of Inl err \<Rightarrow> Inl err | Inr (b, s) \<Rightarrow> f b s)"
proof (cases r)
  case (Inr x)
  obtain b s where "x = (b, s)" by (cases x)
  with Inr assms(1) assms(2) [of s b] show ?thesis by (simp add: keeps_def)
qed (use assms(1) in \<open>simp add: keeps_def\<close>)

lemma keeps_Inr: "keeps P fails (Inr (b, s)) \<longleftrightarrow> P s"
  by (simp add: keeps_def)

lemma keeps_map: "keeps P fails (map_val f r) \<longleftrightarrow> keeps P fails r"
  by (auto simp: keeps_def map_val_def split: sum.splits)

lemma slow_keeps:
  fixes acc :: "'b::len word"
  assumes "fails Runtime_error"
  shows "(\<And>s. P s \<Longrightarrow> keeps P fails (rb s)) \<Longrightarrow> P s \<Longrightarrow> keeps P fails (load_var_slow_loop rb M s sh acc)"
proof (induction rb M s sh acc rule: load_var_slow_loop.induct)
  case (1 rb M s sh acc)
  show ?case
  proof (cases "sh \<le> M")
    case True
    show ?thesis
    proof (cases "rb s")
      case (Inr x)
      obtain b t where x: "x = (b, t)" by (cases x)
      with 1(2) [OF 1(3)] Inr have t: "P t" by (simp add: keeps_def)
      have "ucast b AND 0x80 \<noteq> (0 :: 'b word) \<Longrightarrow>
          keeps P fails (load_var_slow_loop rb M t (sh + 7) (acc OR push_bit sh (ucast b AND 0x7F)))"
        using 1(1) [OF True, of x b t] Inr x 1(2) t by blast
      then show ?thesis
        using True t by (subst load_var_slow_loop.simps) (simp add: Inr x Let_def keeps_Inr del: push_bit_and)
    qed (use 1(2) [OF 1(3)] True in \<open>subst load_var_slow_loop.simps, simp add: keeps_def\<close>)
  qed (subst load_var_slow_loop.simps, simp add: keeps_def assms)
qed

lemma read_more_keeps:
  assumes rb: "\<And>s. P s \<Longrightarrow> keeps P fails (rb s)"
  shows "P s \<Longrightarrow> keeps P fails (read_more rb k s y)"
proof (induction k arbitrary: s y)
  case (Suc k)
  from keeps_bind [OF rb [OF Suc.prems] Suc.IH] show ?case by simp
qed (simp add: keeps_def)

lemma slow_prefix_keeps:
  assumes rb: "\<And>s. P s \<Longrightarrow> keeps P fails (rb s)" and s: "P s"
  shows "keeps P fails (gg_load_var_uint30_slow rb s)" and "keeps P fails (gg_load_var_uint61_slow rb s)"
  unfolding gg_load_var_uint30_slow_def gg_load_var_uint61_slow_def Let_def
  by (intro keeps_bind [OF rb [OF s]] keeps_bind [where P = P, OF read_more_keeps [where P = P, OF rb]]; simp add: keeps_Inr)+

section \<open>A \<open>MemIO\<close> stays inside its range\<close>

lemma mem_advance: "mem_within k behind s \<Longrightarrow> m_pos s \<le> q \<Longrightarrow> q \<le> m_end s \<Longrightarrow> mem_within k behind (s\<lparr>m_pos := q\<rparr>)"
  by (simp add: mem_within_def mem_ok_def)

lemma mem_readByte_keeps: "mem_within k behind s \<Longrightarrow> keeps (mem_within k behind) mo_fails (mem_readByte s)"
  by (auto simp: mem_readByte_def min_readByte_def rd8_def keeps_def mo_fails_def mem_within_def mem_ok_def)

lemma min_ensureRead_keeps:
  "mem_within k behind s \<Longrightarrow> m_pos s + n \<le> m_end s \<Longrightarrow> keeps (mem_within k behind) mo_fails (min_ensureRead n s)"
  by (auto simp: min_ensureRead_def keeps_def mo_fails_def mem_within_def mem_ok_def)

lemma fast_keeps:
  assumes w: "mem_within k behind s" and r: "int n \<le> mem_buf_remain_bytes s"
    and l: "m_pos s + n \<le> length (mem s) \<Longrightarrow>
      (case r of Inl err \<Rightarrow> err = Runtime_error | Inr (x, q) \<Rightarrow> m_pos s \<le> q \<and> q \<le> m_pos s + n)"
  shows "keeps (mem_within k behind) mo_fails (case r of Inl err \<Rightarrow> Inl err | Inr (x, p) \<Rightarrow> Inr (x, s\<lparr>m_pos := p\<rparr>))"
proof -
  have n: "m_pos s + n \<le> m_end s" using r by (simp add: mem_buf_remain_bytes_def)
  moreover have "m_end s \<le> length (mem s)" using w by (simp add: mem_within_def mem_ok_def)
  ultimately show ?thesis using l mem_advance [OF w]
    by (auto simp: keeps_def mo_fails_def split: sum.splits prod.splits)
qed

lemma prefix_bounds:
  "p + 4 \<le> length buf \<Longrightarrow> case gg_load_var_uint30 buf p of Inl err \<Rightarrow> err = Runtime_error | Inr (x, q) \<Rightarrow> p \<le> q \<and> q \<le> p + 4"
  "p + 8 \<le> length buf \<Longrightarrow> case gg_load_var_uint61 buf p of Inl err \<Rightarrow> err = Runtime_error | Inr (x, q) \<Rightarrow> p \<le> q \<and> q \<le> p + 8"
proof -
  have "unat (x AND 3) \<le> 3" for x :: u32
    using word_and_le1 [of x 3] unfolding word_le_nat_alt by simp
  then show "p + 4 \<le> length buf \<Longrightarrow> case gg_load_var_uint30 buf p of Inl err \<Rightarrow> err = Runtime_error | Inr (x, q) \<Rightarrow> p \<le> q \<and> q \<le> p + 4"
    by (simp add: gg_load_var_uint30_def ld_le_def Let_def)
  have "unat (x AND 7) \<le> 7" for x :: u64
    using word_and_le1 [of x 7] unfolding word_le_nat_alt by simp
  then show "p + 8 \<le> length buf \<Longrightarrow> case gg_load_var_uint61 buf p of Inl err \<Rightarrow> err = Runtime_error | Inr (x, q) \<Rightarrow> p \<le> q \<and> q \<le> p + 8"
    by (simp add: gg_load_var_uint61_def ld_le_def Let_def)
qed

lemma read_var_keeps:
  assumes w: "mem_within k behind s"
  shows "keeps (mem_within k behind) mo_fails (read_var_uint32 mem_buf_remain_bytes mem_readByte s)"
    and "keeps (mem_within k behind) mo_fails (read_var_uint64 mem_buf_remain_bytes mem_readByte s)"
    and "keeps (mem_within k behind) mo_fails (read_var_uint30 mem_buf_remain_bytes mem_readByte s)"
    and "keeps (mem_within k behind) mo_fails (read_var_uint61 mem_buf_remain_bytes mem_readByte s)"
proof -
  have rt: "mo_fails Runtime_error" by (simp add: mo_fails_def)
  note sl = slow_keeps [of mo_fails "mem_within k behind" mem_readByte, OF rt mem_readByte_keeps w]
  note sp = slow_prefix_keeps [of "mem_within k behind" mo_fails mem_readByte, OF mem_readByte_keeps w]
  show "keeps (mem_within k behind) mo_fails (read_var_uint32 mem_buf_remain_bytes mem_readByte s)"
    unfolding read_var_uint32_def gg_load_var_uint_def gg_load_var_uint_slow_def
    using fast_keeps [OF w, of 5 "load_var_loop 28 (mem s) (m_pos s) 0 (0 :: u32)"] load_var_loop_bounds [where M = 28 and s = 0 and k = 5 and acc = "0 :: u32" and buf = "mem s" and p = "m_pos s"] sl [of 28 0 "0 :: u32"] by simp
  show "keeps (mem_within k behind) mo_fails (read_var_uint64 mem_buf_remain_bytes mem_readByte s)"
    unfolding read_var_uint64_def gg_load_var_uint_def gg_load_var_uint_slow_def
    using fast_keeps [OF w, of 10 "load_var_loop 63 (mem s) (m_pos s) 0 (0 :: u64)"] load_var_loop_bounds [where M = 63 and s = 0 and k = 10 and acc = "0 :: u64" and buf = "mem s" and p = "m_pos s"] sl [of 63 0 "0 :: u64"] by simp
  show "keeps (mem_within k behind) mo_fails (read_var_uint30 mem_buf_remain_bytes mem_readByte s)"
    unfolding read_var_uint30_def using fast_keeps [OF w, of 4 "gg_load_var_uint30 (mem s) (m_pos s)"] prefix_bounds(1) [of "m_pos s" "mem s"] sp(1) by simp
  show "keeps (mem_within k behind) mo_fails (read_var_uint61 mem_buf_remain_bytes mem_readByte s)"
    unfolding read_var_uint61_def using fast_keeps [OF w, of 8 "gg_load_var_uint61 (mem s) (m_pos s)"] prefix_bounds(2) [of "m_pos s" "mem s"] sp(2) by simp
qed

lemma keeps_drop_val:
  "keeps (mem_within k behind) mo_fails r \<Longrightarrow> (case drop_val r of Inl err \<Rightarrow> mo_fails err | Inr s' \<Rightarrow> mem_within k behind s')"
  by (auto simp: keeps_def drop_val_def split: sum.splits)

lemma appends_within:
  "appends (mem_within k behind) out_bytes (\<lambda>err. err = Out_of_space) bs s r \<Longrightarrow>
    (case r of Inl err \<Rightarrow> mo_fails err | Inr s' \<Rightarrow> mem_within k behind s')"
  by (simp add: appends_def mo_fails_def split: sum.splits)

lemma ptrdiff_id: "n < 2 ^ 63 \<Longrightarrow> ptrdiff n = int n"
  by (simp add: ptrdiff_def signed_of_nat signed_take_bit_int_eq_self)

lemma mem_read_keeps:
  assumes w: "mem_within k behind s" and n: "n < 2 ^ 63"
  shows "keeps (mem_within k behind) mo_fails (mem_read n s)"
proof -
  obtain r where r: "m_end s = m_pos s + r" using w by (auto simp: mem_within_def mem_ok_def le_iff_add)
  then have b: "mem_buf_remain_bytes s = int r" by (simp add: mem_buf_remain_bytes_def)
  show ?thesis unfolding mem_read_def Let_def b ptrdiff_id [OF n] min_read_def
    using min_ensureRead_keeps [OF w, of r] min_ensureRead_keeps [OF w, of n] r by (simp add: keeps_map)
qed

lemma mem_write_keeps:
  assumes w: "mem_within k behind s" and n: "length bs < 2 ^ 63"
  shows "keeps (mem_within k behind) mo_fails (mem_write bs s)"
proof -
  obtain r where r: "m_end s = m_pos s + r" using w by (auto simp: mem_within_def mem_ok_def le_iff_add)
  then have b: "mem_buf_remain_bytes s = int r" by (simp add: mem_buf_remain_bytes_def)
  have g: "keeps (mem_within k behind) mo_fails (min_write cs s)" if "m_pos s + length cs \<le> m_end s" for cs
    using mem_store [OF w that] by (simp add: min_write_def min_ensureWrite_eq keeps_def)
  show ?thesis unfolding mem_write_def Let_def b ptrdiff_id [OF n]
    using g [of bs] g [of "take r bs"] r by (simp add: min_def split: if_splits)
qed

lemma mem_moves_keep:
  assumes w: "mem_within k behind s"
  shows "keeps (mem_within k behind) mo_fails (mem_getByte s)" and "keeps (mem_within k behind) mo_fails (mem_readAll s)"
    and "keeps (mem_within k behind) mo_fails (mem_ensureRead n s)" and "0 \<le> int (m_pos s) + d \<Longrightarrow> keeps (mem_within k behind) mo_fails (mem_skip d s)"
proof -
  show "keeps (mem_within k behind) mo_fails (mem_getByte s)"
    using mem_readByte_keeps [OF w] w by (auto simp: mem_getByte_def min_getByte_def keeps_map mem_readByte_def keeps_Inr split: if_splits)
  show "keeps (mem_within k behind) mo_fails (mem_readAll s)"
    using min_ensureRead_keeps [OF w, of "m_end s - m_pos s"] w
    by (simp add: mem_readAll_def Let_def keeps_Inr mem_within_def [of k behind s] mem_ok_def [of s])
  show "keeps (mem_within k behind) mo_fails (mem_ensureRead n s)"
    using min_ensureRead_keeps [OF w, of n] by (simp add: mem_ensureRead_def keeps_def mo_fails_def)
  show "keeps (mem_within k behind) mo_fails (mem_skip d s)" if "0 \<le> int (m_pos s) + d"
    using w that by (auto simp: mem_skip_def move_pos_def Let_def keeps_def mo_fails_def mem_within_def mem_ok_def)
qed

lemma read_string_keeps:
  assumes "mem_within k behind s"
  shows "keeps (mem_within k behind) mo_fails (read_string mem_buf_remain_bytes mem_readByte mem_ensureRead s)"
  unfolding read_string_def Let_def
  by (rule keeps_bind [OF read_var_keeps(1) [OF assms]]) (simp add: mem_moves_keep keeps_Inr)

lemma read_int_keeps:
  assumes "mem_within k behind s"
  shows "keeps (mem_within k behind) mo_fails (read_var_int32 mem_buf_remain_bytes mem_readByte s)"
    and "keeps (mem_within k behind) mo_fails (read_var_int64 mem_buf_remain_bytes mem_readByte s)"
    and "keeps (mem_within k behind) mo_fails (read_var_int30 mem_buf_remain_bytes mem_readByte s)"
    and "keeps (mem_within k behind) mo_fails (read_var_int61 mem_buf_remain_bytes mem_readByte s)"
  using read_var_keeps [OF assms] by (simp_all add: read_var_int32_def read_var_int64_def read_var_int30_def read_var_int61_def keeps_map)

lemmas mem_reads_keep = mem_readByte_keeps mem_moves_keep mem_read_keeps mem_write_keeps read_var_keeps read_string_keeps read_int_keeps

lemma mem_writes_within:
  assumes w: "mem_within k behind s"
  shows "case mem_writeByte b s of Inl err \<Rightarrow> mo_fails err | Inr s' \<Rightarrow> mem_within k behind s'"
    and "case write_string mem_buf_remain_bytes mem_ensureWrite str s of Inl err \<Rightarrow> mo_fails err | Inr s' \<Rightarrow> mem_within k behind s'"
proof -
  show "case mem_writeByte b s of Inl err \<Rightarrow> mo_fails err | Inr s' \<Rightarrow> mem_within k behind s'"
    using mem_store [OF w, of "[b]"] by (simp add: mem_writeByte_def min_writeByte_def min_ensureWrite_eq mo_fails_def)
  show "case write_string mem_buf_remain_bytes mem_ensureWrite str s of Inl err \<Rightarrow> mo_fails err | Inr s' \<Rightarrow> mem_within k behind s'"
    unfolding write_string_def by (rule appends_within [OF appends_bind [OF mmw.write_var_uint_appends(1) [OF w] mmw.ew_appends]])
qed

lemma mo_exec_ok:
  assumes w: "mem_within k behind s" and pre: "mo_pre a s"
  shows "case mo_exec a s of Inl err \<Rightarrow> mo_fails err | Inr s' \<Rightarrow> mem_within k behind s'"
  using pre
  by (cases a) (simp_all add: keeps_drop_val mem_reads_keep [OF w] mem_writes_within [OF w] appends_within [OF mmw.ew_appends [OF w]]
    appends_within [OF mmw.write_var_uint_appends(1) [OF w]] appends_within [OF mmw.write_var_uint_appends(2) [OF w]]
    appends_within [OF mmw.write_int_appends(1) [OF w]] appends_within [OF mmw.write_int_appends(2) [OF w]]
    appends_within [OF mmw.write_prefix_appends(1) [OF w]] appends_within [OF mmw.write_prefix_appends(2) [OF w]])

interpretation mom: op_machine mem_ok mo_exec mo_run mo_pre mo_pre_run mem_outside "\<lambda>_ o'. o'" mo_fails
proof
  fix s s' :: MemIO and a err assume "mem_ok s" "mo_pre a s"
  from mo_exec_ok [OF mem_within_self [OF this(1)] this(2)]
  show "mo_exec a s = Inr s' \<Longrightarrow> mem_ok s' \<and> mem_outside s' = mem_outside s" "mo_exec a s = Inl err \<Longrightarrow> mo_fails err"
    by (simp_all add: mem_within_def mem_outside_def)
qed (auto split: sum.splits)

section \<open>Properties\<close>

lemma fold_same: "fold (\<lambda>_ a. a) xs a = a"
  by (induction xs) simp_all

lemma mem_outside_iff:
  assumes "mem_ok s" and "mem_ok t"
  shows "mem_outside s = mem_outside t \<longleftrightarrow> m_end s = m_end t \<and> length (mem s) = length (mem t) \<and> drop (m_end t) (mem s) = drop (m_end t) (mem t)"
proof -
  have "length (mem s) = length (mem t)" if "m_end s = m_end t" "drop (m_end t) (mem s) = drop (m_end t) (mem t)"
    using arg_cong [OF that(2), of length] that(1) assms by (simp add: mem_ok_def eq_diff_iff)
  then show ?thesis by (auto simp: mem_outside_def)
qed





text \<open>C9. The two streams together: any values, signed and unsigned numbers of 32 and 64 bits and strings below 4 GB, written to an \<open>AutoGrownMemIO\<close> one
  after the other are read back, by a \<open>MemIO\<close> on the range that was written, in the same order and to the end of the range, whichever of the reads are
  near the end and so take the byte by byte path.\<close>

theorem items_roundtrip:
  assumes "ag_ok s" and "list_all item_ok xs"
  shows "case write_items e xs s of
      Inl err \<Rightarrow> (err = Bad_alloc \<or> err = Abort) \<and> (\<exists>n. \<not> v_ok e n)
    | Inr s' \<Rightarrow> \<exists>r. read_likes xs (mem_of_range s' (m_pos s, m_pos s')) = Inr (xs, r) \<and> mem_eof r"
proof (cases "write_items e xs s")
  case (Inl err)
  with write_items_ok [OF assms, of e] show ?thesis by (simp add: appends_def ag_fails_def)
next
  case (Inr s')
  with write_items_ok [OF assms, of e] have s': "ag_ok s'" "out_bytes s' = out_bytes s @ concat (map item_bytes xs)" by (simp_all add: appends_def)
  define r where "r = mem_of_range s' (m_pos s, m_pos s')"
  have le: "m_pos s \<le> length (mem s)" "m_pos s' \<le> length (mem s')" using assms(1) s'(1) by (simp_all add: ag_ok_def)
  have p: "m_pos s' = m_pos s + length (concat (map item_bytes xs))" using arg_cong [OF s'(2), of length] le by (simp add: out_bytes_def)
  have ok: "mem_ok r" using p le by (simp add: r_def mem_of_range_def mem_ok_def)
  have "mem_bytes r = drop (m_pos s) (out_bytes s')" by (simp add: r_def mem_of_range_def mem_bytes_def out_bytes_def drop_take)
  also have "\<dots> = concat (map item_bytes xs) @ []" unfolding s'(2) using le by (simp add: out_bytes_def)
  finally have "mem_bytes r = concat (map item_bytes xs) @ []" .
  from read_likes_items [OF mem_within_self [OF ok] this assms(2)] obtain r' where
    "read_likes xs r = Inr (xs, r')" "mem_ok r'" "mem_bytes r' = []" by (auto simp: mem_within_def)
  then show ?thesis by (simp add: Inr r_def mem_eof_def mem_bytes_Nil)
qed

theorem items_roundtrip_witness:
  "case write_items \<lparr>v_ok = \<lambda>_. True, v_junk = \<lambda>_. 0\<rparr> [V_int32 (- 5), V_string [104, 105], V_uint64 (2 ^ 63)] ag_null of
      Inl err \<Rightarrow> False
    | Inr s' \<Rightarrow> \<exists>r. read_likes [V_int32 (- 5), V_string [104, 105], V_uint64 (2 ^ 63)] (mem_of_range s' (0, m_pos s'))
        = Inr ([V_int32 (- 5), V_string [104, 105], V_uint64 (2 ^ 63)], r) \<and> mem_eof r"
  using items_roundtrip [of ag_null "[V_int32 (- 5), V_string [104, 105], V_uint64 (2 ^ 63)]" "\<lparr>v_ok = \<lambda>_. True, v_junk = \<lambda>_. 0\<rparr>"]
  by (simp add: ag_ok_def ag_null_def del: write_items.simps read_likes.simps split: sum.splits)

text \<open>The loops of an \<open>AutoGrownMemIO\<close>. \<open>vprintf\<close>, with a \<open>vsnprintf\<close> that returns the length of the text, always ends, with the text appended (or with the failure of
  the allocation). \<open>grow\<close> ends with at least the space asked for as long as the new size is at most \<open>2^63\<close>; beyond that the doubled capacity wraps to zero and, from
  a size that is a power of two or at most 32, the loop never ends.\<close>

theorem ag_loops_end:
  assumes "ag_ok s"
  shows "(\<exists>r. ag_vprintf e (vsnprintf t) s = Some r \<and>
      (case r of Inl err \<Rightarrow> ag_fails e err | Inr (n, s') \<Rightarrow> n = length t \<and> ag_ok s' \<and> out_bytes s' = out_bytes s @ t))
    \<and> (sk_size s + k \<le> 2 ^ 63 \<longrightarrow> (\<exists>r. ag_grow e k s = Some r \<and>
      (case r of Inl err \<Rightarrow> ag_fails e err | Inr s' \<Rightarrow> ag_ok s' \<and> out_bytes s' = out_bytes s \<and> sk_size s + k \<le> sk_size s')))
    \<and> (2 ^ 63 < sk_size s + k \<and> sk_size s + k < 2 ^ 64 \<and> (sk_size s \<le> 32 \<or> (\<exists>j \<le> 63. sk_size s = 2 ^ j)) \<longrightarrow> ag_grow e k s = None)"
proof (intro conjI impI)
  from ag_vprintf_ok [OF assms, of e t] obtain r where "ag_vprintf e (vsnprintf t) s = Some r" "appends ag_ok out_bytes (ag_fails e) t s (drop_val r)"
    "\<forall>n s'. r = Inr (n, s') \<longrightarrow> n = length t" by blast
  then show "\<exists>r. ag_vprintf e (vsnprintf t) s = Some r \<and>
      (case r of Inl err \<Rightarrow> ag_fails e err | Inr (n, s') \<Rightarrow> n = length t \<and> ag_ok s' \<and> out_bytes s' = out_bytes s @ t)"
    by (cases r) (auto simp: appends_def drop_val_def)
  assume "sk_size s + k \<le> 2 ^ 63"
  from ag_grow_ok [OF assms this, of e] obtain r where "ag_grow e k s = Some r" "appends ag_ok out_bytes (ag_fails e) [] s r"
    "\<forall>s'. r = Inr s' \<longrightarrow> sk_size s + k \<le> sk_size s'" by blast
  then show "\<exists>r. ag_grow e k s = Some r \<and>
      (case r of Inl err \<Rightarrow> ag_fails e err | Inr s' \<Rightarrow> ag_ok s' \<and> out_bytes s' = out_bytes s \<and> sk_size s + k \<le> sk_size s')"
    by (cases r) (auto simp: appends_def)
next
  assume a: "2 ^ 63 < sk_size s + k \<and> sk_size s + k < 2 ^ 64 \<and> (sk_size s \<le> 32 \<or> (\<exists>j \<le> 63. sk_size s = 2 ^ j))"
  have "\<exists>j \<le> 63. max 32 (sk_size s) = 2 ^ j"
  proof (cases "sk_size s \<le> 32")
    case True
    then show ?thesis by (intro exI [of _ 5]) simp
  next
    case False
    with a show ?thesis by (auto simp: max_def)
  qed
  with grow_loop_Some [of "sk_size s + k" "max 32 (sk_size s)"] a have "grow_loop (sk_size s + k) (max 32 (sk_size s)) = None"
    by (cases "grow_loop (sk_size s + k) (max 32 (sk_size s))") auto
  moreover have "(m_end s - m_beg s + k) mod 2 ^ 64 = sk_size s + k" using a by (simp add: sk_size_def)
  ultimately show "ag_grow e k s = None" by (simp add: ag_grow_def Let_def sk_size_def)
qed

theorem ag_loops_end_witness:
  "(\<exists>r. ag_grow \<lparr>v_ok = \<lambda>_. True, v_junk = \<lambda>_. 0\<rparr> 1000 ag_null = Some r) \<and> ag_grow \<lparr>v_ok = \<lambda>_. True, v_junk = \<lambda>_. 0\<rparr> (2 ^ 63 + 1) ag_null = None"
proof -
  have n: "ag_ok ag_null" "sk_size ag_null = 0" by (simp_all add: ag_ok_def ag_null_def sk_size_def)
  from ag_loops_end [OF n(1), of "\<lparr>v_ok = \<lambda>_. True, v_junk = \<lambda>_. 0\<rparr>" _ 1000] ag_loops_end [OF n(1), of "\<lparr>v_ok = \<lambda>_. True, v_junk = \<lambda>_. 0\<rparr>" _ "2 ^ 63 + 1"]
  show ?thesis by (auto simp: n(2))
qed

lemma rev_short: "length xs \<le> 1 \<Longrightarrow> rev xs = xs"
  by (cases xs) auto

lemma prefix_short_value:
  fixes x :: "'a::len word"
  assumes c: "2 ^ t * unat x < 256 ^ 2" and t: "0 < t" "t \<le> 8" and l: "17 \<le> LENGTH('a)"
  shows "drop_bit t (le_word (hd (prefix_code t (unat x)) # rev (tl (prefix_code t (unat x))))) = x"
proof -
  have k: "prefix_len (2 ^ t * unat x) \<le> 1" using c by (simp add: prefix_len_def)
  then have "rev (tl (prefix_code t (unat x))) = tl (prefix_code t (unat x))" by (intro rev_short) (simp only: prefix_code_Cons(2))
  then have e: "hd (prefix_code t (unat x)) # rev (tl (prefix_code t (unat x))) = prefix_code t (unat x)"
    by (simp only: prefix_code_Cons(1) [of t "unat x", symmetric])
  have "drop_bit t (le_word (prefix_code t (unat x)) :: 'a word) = word_of_nat (unat x)"
  proof (rule prefix_value)
    show "2 ^ t * unat x < 256 ^ 8" by (rule less_trans [OF c]) simp
    show "prefix_len (2 ^ t * unat x) < 2 ^ t" by (rule le_less_trans [OF k], rule one_less_power) (use t in simp_all)
    have "2 ^ t * unat x + prefix_len (2 ^ t * unat x) < 256 ^ 2 + 1" by (rule add_less_le_mono [OF c k])
    also have "\<dots> \<le> 2 ^ 17" by simp
    also have "\<dots> \<le> 2 ^ LENGTH('a)" using l by (rule power_increasing) simp
    finally show "2 ^ t * unat x + prefix_len (2 ^ t * unat x) < 2 ^ LENGTH('a)" .
  qed (rule t(2))
  then show ?thesis unfolding e by simp
qed

text \<open>C35. The length prefixed numbers read from a \<open>MemIO\<close>. A number is read back when 4 (8) bytes are left, and when it is below \<open>2^14\<close> (\<open>2^13\<close>); close to the end of
  the range the byte by byte path puts the bytes after the first one together in the reverse of the order in which they are written, so that
  any other number comes back with these bytes reversed. In both cases the position ends up after the number.\<close>

theorem memio_prefix_read:
  assumes "mem_ok s"
  shows "(unat x < 2 ^ 30 \<and> mem_bytes s = prefix_code 2 (unat x) @ rest \<longrightarrow>
      (\<exists>s'. read_var_uint30 mem_buf_remain_bytes mem_readByte s = Inr (if 4 \<le> length (mem_bytes s) \<or> unat x < 2 ^ 14 then x
        else drop_bit 2 (le_word (hd (prefix_code 2 (unat x)) # rev (tl (prefix_code 2 (unat x))))), s') \<and> mem_bytes s' = rest))
    \<and> (unat y < 2 ^ 61 \<and> mem_bytes s = prefix_code 3 (unat y) @ rest \<longrightarrow>
      (\<exists>s'. read_var_uint61 mem_buf_remain_bytes mem_readByte s = Inr (if 8 \<le> length (mem_bytes s) \<or> unat y < 2 ^ 13 then y
        else drop_bit 3 (le_word (hd (prefix_code 3 (unat y)) # rev (tl (prefix_code 3 (unat y))))), s') \<and> mem_bytes s' = rest))"
proof -
  have "(4 \<le> mem_buf_remain_bytes s) = (4 \<le> length (mem_bytes s))" "(8 \<le> mem_buf_remain_bytes s) = (8 \<le> length (mem_bytes s))"
    using mem_remain_bytes [OF assms] by simp_all
  note eq = this
  show ?thesis using mmr.read_prefix30 [OF mem_within_self [OF assms], of x rest, unfolded eq(1)]
      mmr.read_prefix61 [OF mem_within_self [OF assms], of y rest, unfolded eq(2)]
      prefix_short_value [of 2 x] prefix_short_value [of 3 y] by auto
qed

theorem memio_prefix_read_witness:
  "\<exists>s'. read_var_uint30 mem_buf_remain_bytes mem_readByte (mem_set (prefix_code 2 0x4000) 0 3) = Inr (0x40, s') \<and> mem_bytes s' = []"
proof -
  have u: "unat (0x4000 :: u32) = 0x4000" by simp
  have c: "prefix_code 2 0x4000 = [2, 0, 1]" by (simp add: prefix_code_def prefix_len_def upt_rec)
  have "mem_ok (mem_set [2, 0, 1] 0 3)" "mem_bytes (mem_set [2, 0, 1] 0 3) = [2, 0, 1]" by (simp_all add: mem_ok_def mem_bytes_def mem_set_def)
  with memio_prefix_read [of "mem_set [2, 0, 1] 0 3" "0x4000" "[]"] show ?thesis unfolding u c by simp
qed

end
