(* ===== verification/CircularQueue.thy ===== *)
theory CircularQueue
  imports Valvec
begin

text \<open>
  The circular queues: \<open>circular_queue\<close> of \<open>src/src/terark/circular_queue.hpp\<close>, of a fixed capacity, and \<open>AutoGrowCircularQueue\<close> of
  \<open>util/auto_grow_circular_queue.hpp\<close>. Both keep the elements in a ring: from \<open>m_head\<close> on, over the end of the array to its begin, up to
  \<open>m_tail\<close>. The first counts in \<open>ptrdiff_t\<close> (\<open>int\<close> here) and takes the remainder by a comparison, or by a mask when the capacity is a power of two
  (the template parameter \<open>CapIsPower2\<close>, an argument here); the second counts in \<open>size_t\<close>, with the wrap-around of subtraction. A destructed slot
  keeps its bytes. The allocator is the \<open>venv\<close> of \<open>Valvec\<close>.
\<close>

section \<open>The queue of fixed capacity\<close>

record 'a circular_queue =
  cq_vec :: "'a list"
  cq_head :: int
  cq_tail :: int
  cq_nlen :: int

definition cq_prev :: "bool \<Rightarrow> 'a circular_queue \<Rightarrow> int \<Rightarrow> int" where
  "cq_prev CapIsPower2 q current =
     (if CapIsPower2 then (current - 1) AND (cq_nlen q - 1)
      else let i = current - 1 in if i \<ge> 0 then i else i + cq_nlen q)"

definition cq_next :: "bool \<Rightarrow> 'a circular_queue \<Rightarrow> int \<Rightarrow> int" where
  "cq_next CapIsPower2 q current =
     (if CapIsPower2 then (current + 1) AND (cq_nlen q - 1)
      else let i = current + 1 in if i < cq_nlen q then i else i - cq_nlen q)"

definition cq_prev_n :: "bool \<Rightarrow> 'a circular_queue \<Rightarrow> int \<Rightarrow> int \<Rightarrow> int" where
  "cq_prev_n CapIsPower2 q current n =
     (if CapIsPower2 then (current - n) AND (cq_nlen q - 1)
      else let i = current - n in if i \<ge> 0 then i else i + cq_nlen q)"

definition cq_next_n :: "bool \<Rightarrow> 'a circular_queue \<Rightarrow> int \<Rightarrow> int \<Rightarrow> int" where
  "cq_next_n CapIsPower2 q current n =
     (if CapIsPower2 then (current + n) AND (cq_nlen q - 1)
      else let c = cq_nlen q; i = current + n in if i < c then i else i - c)"

definition cq_make :: "'a venv \<Rightarrow> bool \<Rightarrow> int \<Rightarrow> error + 'a circular_queue" where
  "cq_make e CapIsPower2 cap =
     (if CapIsPower2 \<and> (cap AND (cap - 1) \<noteq> 0 \<or> 0 = cap) then Inl Logic_error
      else if cap \<noteq> 0 then
        case v_realloc e [] (nat cap) of
          None \<Rightarrow> Inl Bad_alloc
        | Some m \<Rightarrow> Inr \<lparr>cq_vec = m, cq_head = 0, cq_tail = 0, cq_nlen = cap\<rparr>
      else Inr \<lparr>cq_vec = [], cq_head = 0, cq_tail = 0, cq_nlen = cap\<rparr>)"

definition cq_empty :: "'a circular_queue \<Rightarrow> bool" where
  "cq_empty q = (cq_head q = cq_tail q)"

definition cq_full :: "bool \<Rightarrow> 'a circular_queue \<Rightarrow> bool" where
  "cq_full CapIsPower2 q = (cq_next CapIsPower2 q (cq_tail q) = cq_head q)"

definition cq_size :: "bool \<Rightarrow> 'a circular_queue \<Rightarrow> int" where
  "cq_size CapIsPower2 q =
     (if CapIsPower2 then (cq_tail q - cq_head q) AND (cq_nlen q - 1)
      else if cq_head q \<le> cq_tail q then cq_tail q - cq_head q else cq_tail q + cq_nlen q - cq_head q)"

definition cq_capacity :: "'a circular_queue \<Rightarrow> int" where
  "cq_capacity q = cq_nlen q"

definition cq_push_back :: "bool \<Rightarrow> 'a \<Rightarrow> 'a circular_queue \<Rightarrow> 'a circular_queue" where
  "cq_push_back CapIsPower2 val q =
     (let q = q\<lparr>cq_vec := (cq_vec q)[nat (cq_tail q) := val]\<rparr> in q\<lparr>cq_tail := cq_next CapIsPower2 q (cq_tail q)\<rparr>)"

definition cq_front :: "'a circular_queue \<Rightarrow> 'a" where
  "cq_front q = cq_vec q ! nat (cq_head q)"

definition cq_pop_front :: "bool \<Rightarrow> 'a circular_queue \<Rightarrow> 'a circular_queue" where
  "cq_pop_front CapIsPower2 q = q\<lparr>cq_head := cq_next CapIsPower2 q (cq_head q)\<rparr>"

function cq_clear_loop :: "bool \<Rightarrow> nat \<Rightarrow> 'a circular_queue \<Rightarrow> 'a circular_queue" where
  "cq_clear_loop CapIsPower2 fuel q =
     (if fuel = 0 \<or> cq_empty q then q else cq_clear_loop CapIsPower2 (fuel - 1) (cq_pop_front CapIsPower2 q))"
  by pat_completeness auto
termination by (relation "measure (\<lambda>(_, fuel, _). fuel)") auto

declare cq_clear_loop.simps [simp del]

text \<open>The loop takes as many turns as there are elements; the fuel is the capacity.\<close>

definition cq_clear :: "bool \<Rightarrow> 'a circular_queue \<Rightarrow> 'a circular_queue" where
  "cq_clear CapIsPower2 q = (cq_clear_loop CapIsPower2 (nat (cq_nlen q)) q)\<lparr>cq_head := 0, cq_tail := 0\<rparr>"

definition cq_virtual_index :: "bool \<Rightarrow> int \<Rightarrow> 'a circular_queue \<Rightarrow> int" where
  "cq_virtual_index CapIsPower2 real_index q =
     (if CapIsPower2 then (real_index - cq_head q) AND (cq_nlen q - 1)
      else let i = real_index - cq_head q in if i < 0 then i + cq_nlen q else i)"

definition cq_real_index :: "bool \<Rightarrow> int \<Rightarrow> 'a circular_queue \<Rightarrow> int" where
  "cq_real_index CapIsPower2 virtual_index q =
     (if CapIsPower2 then (virtual_index + cq_head q) AND (cq_nlen q - 1)
      else let i = virtual_index + cq_head q in if i < cq_nlen q then i else i - cq_nlen q)"

definition cq_at :: "bool \<Rightarrow> int \<Rightarrow> 'a circular_queue \<Rightarrow> 'a" where
  "cq_at CapIsPower2 virtual_index q =
     (let c = cq_nlen q; i = cq_head q + virtual_index in
      if CapIsPower2 then cq_vec q ! nat (i AND (c - 1))
      else let j = (if i < c then i else i - c) in cq_vec q ! nat j)"

definition cq_pop_lower :: "bool \<Rightarrow> int \<Rightarrow> 'a circular_queue \<Rightarrow> 'a circular_queue" where
  "cq_pop_lower CapIsPower2 real_index q =
     (let count = cq_virtual_index CapIsPower2 real_index q + 1 in (cq_pop_front CapIsPower2 ^^ nat count) q)"

definition cq_push_front :: "bool \<Rightarrow> 'a \<Rightarrow> 'a circular_queue \<Rightarrow> 'a circular_queue" where
  "cq_push_front CapIsPower2 val q =
     (let q = q\<lparr>cq_head := cq_prev CapIsPower2 q (cq_head q)\<rparr> in q\<lparr>cq_vec := (cq_vec q)[nat (cq_head q) := val]\<rparr>)"

definition cq_back :: "bool \<Rightarrow> 'a circular_queue \<Rightarrow> 'a" where
  "cq_back CapIsPower2 q = cq_vec q ! nat (cq_prev CapIsPower2 q (cq_tail q))"

text \<open>\<open>pop_back(val)\<close> swaps \<open>val\<close> with the element.\<close>

definition cq_pop_back_val :: "bool \<Rightarrow> 'a \<Rightarrow> 'a circular_queue \<Rightarrow> 'a \<times> 'a circular_queue" where
  "cq_pop_back_val CapIsPower2 val q =
     (let q = q\<lparr>cq_tail := cq_prev CapIsPower2 q (cq_tail q)\<rparr>
      in (cq_vec q ! nat (cq_tail q), q\<lparr>cq_vec := (cq_vec q)[nat (cq_tail q) := val]\<rparr>))"

definition cq_pop_back :: "bool \<Rightarrow> 'a circular_queue \<Rightarrow> 'a circular_queue" where
  "cq_pop_back CapIsPower2 q = q\<lparr>cq_tail := cq_prev CapIsPower2 q (cq_tail q)\<rparr>"

definition cq_pop_upper :: "bool \<Rightarrow> int \<Rightarrow> 'a circular_queue \<Rightarrow> 'a circular_queue" where
  "cq_pop_upper CapIsPower2 real_index q =
     (let count = cq_size CapIsPower2 q - cq_virtual_index CapIsPower2 real_index q in (cq_pop_back CapIsPower2 ^^ nat count) q)"

section \<open>The growing queue\<close>

record 'a AutoGrowCircularQueue =
  gq_vec :: "'a list"
  gq_cap :: nat
  gq_head :: nat
  gq_tail :: nat

definition gq_make :: "'a venv \<Rightarrow> nat \<Rightarrow> error + 'a AutoGrowCircularQueue" where
  "gq_make e cap =
     (if cap AND size_sub cap 1 \<noteq> 0 \<or> 0 = cap then Inl Logic_error
      else case v_realloc e [] cap of
             None \<Rightarrow> Inl Bad_alloc
           | Some m \<Rightarrow> Inr \<lparr>gq_vec = m, gq_cap = cap, gq_head = 0, gq_tail = 0\<rparr>)"

definition gq_copy :: "'a venv \<Rightarrow> 'a AutoGrowCircularQueue \<Rightarrow> error + 'a AutoGrowCircularQueue" where
  "gq_copy e y =
     (case v_realloc e [] (gq_cap y) of
        None \<Rightarrow> Inl Bad_alloc
      | Some m \<Rightarrow> Inr \<lparr>gq_vec = put_at 0 (take (gq_cap y) (gq_vec y)) m, gq_cap = gq_cap y, gq_head = gq_head y, gq_tail = gq_tail y\<rparr>)"

definition gq_size :: "'a AutoGrowCircularQueue \<Rightarrow> nat" where
  "gq_size q = size_sub (gq_tail q) (gq_head q) AND (gq_cap q - 1)"

definition gq_empty :: "'a AutoGrowCircularQueue \<Rightarrow> bool" where
  "gq_empty q = (gq_head q = gq_tail q)"

definition gq_front :: "'a AutoGrowCircularQueue \<Rightarrow> 'a" where
  "gq_front q = gq_vec q ! gq_head q"

definition gq_pop_front :: "'a AutoGrowCircularQueue \<Rightarrow> 'a AutoGrowCircularQueue" where
  "gq_pop_front q = q\<lparr>gq_head := (gq_head q + 1) AND (gq_cap q - 1)\<rparr>"

definition gq_pop_front_val :: "'a AutoGrowCircularQueue \<Rightarrow> 'a \<times> 'a AutoGrowCircularQueue" where
  "gq_pop_front_val q = (gq_vec q ! gq_head q, q\<lparr>gq_head := (gq_head q + 1) AND (gq_cap q - 1)\<rparr>)"

text \<open>The elements that \<open>pop_all\<close> and \<open>pop_n\<close> copy to \<open>output\<close>.\<close>

definition gq_pop_all :: "'a AutoGrowCircularQueue \<Rightarrow> 'a list \<times> 'a AutoGrowCircularQueue" where
  "gq_pop_all q =
     (let base = gq_vec q; head = gq_head q; tail = gq_tail q;
          output = (if head < tail then take (tail - head) (drop head base)
                    else take (gq_cap q - head) (drop head base) @ take tail base)
      in (output, q\<lparr>gq_head := 0, gq_tail := 0\<rparr>))"

definition gq_pop_n :: "nat \<Rightarrow> 'a AutoGrowCircularQueue \<Rightarrow> 'a list \<times> 'a AutoGrowCircularQueue" where
  "gq_pop_n n q =
     (let n = min n (gq_size q); base = gq_vec q; head = gq_head q; tail = gq_tail q;
          output = (if head < tail then take n (drop head base)
                    else let len1 = min (gq_cap q - head) n in
                         take len1 (drop head base) @ (if len1 < n then take (n - len1) base else []))
      in (output, q\<lparr>gq_head := (head + n) AND (gq_cap q - 1)\<rparr>))"

definition gq_double_cap :: "'a venv \<Rightarrow> 'a AutoGrowCircularQueue \<Rightarrow> error + 'a AutoGrowCircularQueue" where
  "gq_double_cap e q =
     (let cap = gq_cap q in
      case v_realloc e (gq_vec q) (cap * 2) of
        None \<Rightarrow> Inl Bad_alloc
      | Some base \<Rightarrow>
          let head = gq_head q in
          if cap div 2 < head then
            Inr (q\<lparr>gq_vec := put_at (cap + head) (take (cap - head) (drop head base)) base, gq_head := cap + head, gq_cap := cap * 2\<rparr>)
          else
            let tail = gq_tail q in
            Inr (q\<lparr>gq_vec := put_at cap (take tail base) base, gq_tail := cap + tail, gq_cap := cap * 2\<rparr>))"

definition gq_push_back_slow_path :: "'a venv \<Rightarrow> 'a \<Rightarrow> 'a AutoGrowCircularQueue \<Rightarrow> error + 'a AutoGrowCircularQueue" where
  "gq_push_back_slow_path e x q =
     (case gq_double_cap e q of
        Inl err \<Rightarrow> Inl err
      | Inr q \<Rightarrow> Inr (q\<lparr>gq_vec := (gq_vec q)[gq_tail q := x], gq_tail := (gq_tail q + 1) AND (gq_cap q - 1)\<rparr>))"

definition gq_push_back :: "'a venv \<Rightarrow> 'a \<Rightarrow> 'a AutoGrowCircularQueue \<Rightarrow> error + 'a AutoGrowCircularQueue" where
  "gq_push_back e x q =
     (let head = gq_head q; tail = gq_tail q; cap1 = gq_cap q - 1 in
      if size_sub head tail AND cap1 \<noteq> 1 then Inr (q\<lparr>gq_vec := (gq_vec q)[tail := x], gq_tail := (tail + 1) AND cap1\<rparr>)
      else gq_push_back_slow_path e x q)"

fun gq_pushes :: "'a venv \<Rightarrow> 'a list \<Rightarrow> 'a AutoGrowCircularQueue \<Rightarrow> error + 'a AutoGrowCircularQueue" where
  "gq_pushes e [] q = Inr q"
| "gq_pushes e (x # xs) q = (case gq_push_back e x q of Inl err \<Rightarrow> Inl err | Inr q \<Rightarrow> gq_pushes e xs q)"

section \<open>The elements in order\<close>

text \<open>\<open>s\<close> elements of the ring from \<open>h\<close> on.\<close>

definition ring :: "'a list \<Rightarrow> nat \<Rightarrow> nat \<Rightarrow> 'a list" where
  "ring v h s = map (\<lambda>i. v ! ((h + i) mod length v)) [0..<s]"

definition cq_inv :: "bool \<Rightarrow> 'a circular_queue \<Rightarrow> bool" where
  "cq_inv p2 q = (0 < cq_nlen q \<and> cq_nlen q = int (length (cq_vec q)) \<and> 0 \<le> cq_head q \<and> cq_head q < cq_nlen q \<and> 0 \<le> cq_tail q \<and> cq_tail q < cq_nlen q
     \<and> (p2 \<longrightarrow> (\<exists>k < 64. cq_nlen q = 2 ^ k)))"

definition cq_list :: "'a circular_queue \<Rightarrow> 'a list" where
  "cq_list q = ring (cq_vec q) (nat (cq_head q)) (nat ((cq_tail q - cq_head q) mod cq_nlen q))"

definition gq_inv :: "'a AutoGrowCircularQueue \<Rightarrow> bool" where
  "gq_inv q = ((\<exists>k < 64. gq_cap q = 2 ^ k) \<and> length (gq_vec q) = gq_cap q \<and> gq_head q < gq_cap q \<and> gq_tail q < gq_cap q)"

definition gq_list :: "'a AutoGrowCircularQueue \<Rightarrow> 'a list" where
  "gq_list q = ring (gq_vec q) (gq_head q) ((gq_tail q + gq_cap q - gq_head q) mod gq_cap q)"

section \<open>Sequences of operations\<close>

datatype 'a cq_op = CQ_push_back 'a | CQ_push_front 'a | CQ_pop_front | CQ_pop_back | CQ_pop_back_val 'a | CQ_pop_lower nat | CQ_pop_upper nat | CQ_clear

text \<open>\<open>pop_lower\<close> and \<open>pop_upper\<close> are given the serial number of an element of the queue.\<close>

fun cq_exec :: "bool \<Rightarrow> 'a cq_op \<Rightarrow> 'a circular_queue \<Rightarrow> error + 'a circular_queue" where
  "cq_exec p2 (CQ_push_back x) q = Inr (cq_push_back p2 x q)"
| "cq_exec p2 (CQ_push_front x) q = Inr (cq_push_front p2 x q)"
| "cq_exec p2 CQ_pop_front q = Inr (cq_pop_front p2 q)"
| "cq_exec p2 CQ_pop_back q = Inr (cq_pop_back p2 q)"
| "cq_exec p2 (CQ_pop_back_val x) q = Inr (snd (cq_pop_back_val p2 x q))"
| "cq_exec p2 (CQ_pop_lower i) q = Inr (cq_pop_lower p2 (cq_real_index p2 (int i) q) q)"
| "cq_exec p2 (CQ_pop_upper i) q = Inr (cq_pop_upper p2 (cq_real_index p2 (int i) q) q)"
| "cq_exec p2 CQ_clear q = Inr (cq_clear p2 q)"

fun cq_pre :: "bool \<Rightarrow> 'a cq_op \<Rightarrow> 'a circular_queue \<Rightarrow> bool" where
  "cq_pre p2 (CQ_push_back x) q = (\<not> cq_full p2 q)"
| "cq_pre p2 (CQ_push_front x) q = (\<not> cq_full p2 q)"
| "cq_pre p2 (CQ_pop_lower i) q = (int i < cq_size p2 q)"
| "cq_pre p2 (CQ_pop_upper i) q = (int i < cq_size p2 q)"
| "cq_pre p2 CQ_clear q = True"
| "cq_pre p2 _ q = (\<not> cq_empty q)"

fun cq_spec :: "'a cq_op \<Rightarrow> 'a list \<Rightarrow> 'a list" where
  "cq_spec (CQ_push_back x) l = l @ [x]"
| "cq_spec (CQ_push_front x) l = x # l"
| "cq_spec CQ_pop_front l = tl l"
| "cq_spec CQ_pop_back l = butlast l"
| "cq_spec (CQ_pop_back_val x) l = butlast l"
| "cq_spec (CQ_pop_lower i) l = drop (i + 1) l"
| "cq_spec (CQ_pop_upper i) l = take i l"
| "cq_spec CQ_clear l = []"

fun cq_run :: "bool \<Rightarrow> 'a cq_op list \<Rightarrow> 'a circular_queue \<Rightarrow> error + 'a circular_queue" where
  "cq_run p2 [] q = Inr q"
| "cq_run p2 (a # ops) q = (case cq_exec p2 a q of Inl err \<Rightarrow> Inl err | Inr q \<Rightarrow> cq_run p2 ops q)"

fun cq_pre_run :: "bool \<Rightarrow> 'a cq_op list \<Rightarrow> 'a circular_queue \<Rightarrow> bool" where
  "cq_pre_run p2 [] q = True"
| "cq_pre_run p2 (a # ops) q = (cq_pre p2 a q \<and> (case cq_exec p2 a q of Inl _ \<Rightarrow> True | Inr q \<Rightarrow> cq_pre_run p2 ops q))"

datatype 'a gq_op = GQ_push_back 'a | GQ_pop_front | GQ_pop_front_val | GQ_pop_n nat | GQ_pop_all | GQ_copy

fun gq_exec :: "'a venv \<Rightarrow> 'a gq_op \<Rightarrow> 'a AutoGrowCircularQueue \<Rightarrow> error + 'a AutoGrowCircularQueue" where
  "gq_exec e (GQ_push_back x) q = gq_push_back e x q"
| "gq_exec e GQ_pop_front q = Inr (gq_pop_front q)"
| "gq_exec e GQ_pop_front_val q = Inr (snd (gq_pop_front_val q))"
| "gq_exec e (GQ_pop_n n) q = Inr (snd (gq_pop_n n q))"
| "gq_exec e GQ_pop_all q = Inr (snd (gq_pop_all q))"
| "gq_exec e GQ_copy q = gq_copy e q"

text \<open>A full queue must not begin at the begin of its array when it is pushed to.\<close>

fun gq_pre :: "'a gq_op \<Rightarrow> 'a AutoGrowCircularQueue \<Rightarrow> bool" where
  "gq_pre (GQ_push_back x) q = ((gq_size q + 1 < gq_cap q \<or> 0 < gq_head q) \<and> gq_cap q < 2 ^ 63)"
| "gq_pre GQ_pop_front q = (0 < gq_size q)"
| "gq_pre GQ_pop_front_val q = (0 < gq_size q)"
| "gq_pre _ q = True"

fun gq_spec :: "'a gq_op \<Rightarrow> 'a list \<Rightarrow> 'a list" where
  "gq_spec (GQ_push_back x) l = l @ [x]"
| "gq_spec GQ_pop_front l = tl l"
| "gq_spec GQ_pop_front_val l = tl l"
| "gq_spec (GQ_pop_n n) l = drop n l"
| "gq_spec GQ_pop_all l = []"
| "gq_spec GQ_copy l = l"

fun gq_run :: "'a venv \<Rightarrow> 'a gq_op list \<Rightarrow> 'a AutoGrowCircularQueue \<Rightarrow> error + 'a AutoGrowCircularQueue" where
  "gq_run e [] q = Inr q"
| "gq_run e (a # ops) q = (case gq_exec e a q of Inl err \<Rightarrow> Inl err | Inr q \<Rightarrow> gq_run e ops q)"

fun gq_pre_run :: "'a venv \<Rightarrow> 'a gq_op list \<Rightarrow> 'a AutoGrowCircularQueue \<Rightarrow> bool" where
  "gq_pre_run e [] q = True"
| "gq_pre_run e (a # ops) q = (gq_pre a q \<and> (case gq_exec e a q of Inl _ \<Rightarrow> True | Inr q \<Rightarrow> gq_pre_run e ops q))"

definition gq_fails :: "'a venv \<Rightarrow> error \<Rightarrow> bool" where
  "gq_fails e err = (err = Bad_alloc \<and> (\<exists>k. \<not> v_ok e k))"

definition cq_state :: "'a list \<Rightarrow> nat \<Rightarrow> nat \<Rightarrow> 'a circular_queue" where
  "cq_state v h s = \<lparr>cq_vec = v, cq_head = int h, cq_tail = int ((h + s) mod length v), cq_nlen = int (length v)\<rparr>"

definition ring_ok :: "bool \<Rightarrow> 'a list \<Rightarrow> nat \<Rightarrow> nat \<Rightarrow> bool" where
  "ring_ok p2 v h s = (h < length v \<and> s < length v \<and> (p2 \<longrightarrow> (\<exists>k < 64. length v = 2 ^ k)))"

definition gq_state :: "'a list \<Rightarrow> nat \<Rightarrow> nat \<Rightarrow> 'a AutoGrowCircularQueue" where
  "gq_state v h s = \<lparr>gq_vec = v, gq_cap = length v, gq_head = h, gq_tail = (h + s) mod length v\<rparr>"

section \<open>Positions in a ring\<close>

lemma ring_nth: "i < s \<Longrightarrow> ring v h s ! i = v ! ((h + i) mod length v)"
  by (simp add: ring_def)

lemma length_ring [simp]: "length (ring v h s) = s"
  by (simp add: ring_def)

lemma ring_index_inj:
  assumes "(h + i) mod n = (h + j) mod n" and "i < n" and "j < (n :: nat)"
  shows "i = j"
proof -
  have "n dvd (h + max i j) - (h + min i j)"
    by (rule mod_eq_dvd_iff_nat [THEN iffD1]) (use assms(1) in \<open>auto simp: max_def min_def\<close>)
  then have "n dvd max i j - min i j" by simp
  moreover have "max i j - min i j < n" using assms by (auto simp: max_def min_def)
  ultimately have "max i j - min i j = 0" by (metis dvd_imp_le not_gr0 not_le)
  then show ?thesis by (auto simp: max_def min_def split: if_splits)
qed

lemma ring_update_other: "s < length v \<Longrightarrow> t \<le> s \<Longrightarrow> ring (v[(h + s) mod length v := x]) h t = ring v h t"
proof (rule nth_equalityI)
  fix i assume s: "s < length v" "t \<le> s" and "i < length (ring (v[(h + s) mod length v := x]) h t)"
  then have i: "i < t" by simp
  then have "(h + s) mod length v \<noteq> (h + i) mod length v" using ring_index_inj [of h i "length v" s] s by auto
  with i show "ring (v[(h + s) mod length v := x]) h t ! i = ring v h t ! i" by (simp add: ring_nth)
qed simp

lemma ring_Suc: "ring v h (Suc s) = ring v h s @ [v ! ((h + s) mod length v)]"
  by (simp add: ring_def)

lemma ring_push_back: "s < length v \<Longrightarrow> ring (v[(h + s) mod length v := x]) h (Suc s) = ring v h s @ [x]"
  using mod_less_divisor [of "length v" "h + s"] by (cases "v = []") (simp_all add: ring_Suc ring_update_other)

lemma ring_pop_front: "ring v ((h + 1) mod length v) s = tl (ring v h (Suc s))"
  by (rule nth_equalityI) (simp_all add: ring_nth nth_tl mod_add_left_eq)

lemma ring_pop_back: "ring v h s = butlast (ring v h (Suc s))"
  by (rule nth_equalityI) (simp_all add: ring_nth nth_butlast)

lemma ring_push_front:
  assumes "s < length v" and "h' < length v" and "(h' + 1) mod length v = h"
  shows "ring (v[h' := x]) h' (Suc s) = x # ring v h s"
proof (rule nth_equalityI)
  fix i assume "i < length (ring (v[h' := x]) h' (Suc s))"
  then have i: "i < Suc s" by simp
  show "ring (v[h' := x]) h' (Suc s) ! i = (x # ring v h s) ! i"
  proof (cases i)
    case (Suc j)
    have "h' mod length v = h'" using assms(2) by simp
    then have ne: "(h' + i) mod length v \<noteq> h'" using ring_index_inj [of h' i "length v" 0] i Suc assms(1) by (cases v) auto
    have "(h + j) mod length v = (h' + i) mod length v" unfolding assms(3) [symmetric] by (simp add: mod_add_left_eq Suc)
    with ne i Suc show ?thesis by (simp add: ring_nth)
  qed (use assms(2) in \<open>simp add: ring_nth\<close>)
qed simp

lemma ring_drop: "k \<le> s \<Longrightarrow> ring v ((h + k) mod length v) (s - k) = drop k (ring v h s)"
  by (rule nth_equalityI) (simp_all add: ring_nth mod_add_left_eq add.assoc)

lemma ring_take: "k \<le> s \<Longrightarrow> ring v h k = take k (ring v h s)"
  by (rule nth_equalityI) (simp_all add: ring_nth)

text \<open>The remainders that the code takes by a mask or by one comparison.\<close>

lemma mask_mod: "n = 2 ^ k \<Longrightarrow> x AND (n - 1) = x mod n" for x n :: int
  by (metis and_exp_eq_0_iff_not_bit mask_eq_exp_minus_1 take_bit_eq_mask take_bit_eq_mod)

lemma mask_mod_nat: "n = 2 ^ k \<Longrightarrow> x AND (n - 1) = x mod n" for x n :: nat
  by (metis mask_eq_exp_minus_1 take_bit_eq_mask take_bit_eq_mod)

lemma mod_compare:
  fixes i n :: int
  assumes "0 < n"
  shows "0 \<le> i \<Longrightarrow> i < 2 * n \<Longrightarrow> (if i < n then i else i - n) = i mod n"
    and "- n \<le> i \<Longrightarrow> i < n \<Longrightarrow> (if i \<ge> 0 then i else i + n) = i mod n"
    and "- n \<le> i \<Longrightarrow> i < n \<Longrightarrow> (if i < 0 then i + n else i) = i mod n"
proof -
  show a: "0 \<le> i \<Longrightarrow> i < 2 * n \<Longrightarrow> (if i < n then i else i - n) = i mod n"
    using mod_pos_pos_trivial [of i n] mod_pos_pos_trivial [of "i - n" n] by (auto simp: not_less)
  show b: "- n \<le> i \<Longrightarrow> i < n \<Longrightarrow> (if i \<ge> 0 then i else i + n) = i mod n"
    using mod_pos_pos_trivial [of i n] mod_pos_pos_trivial [of "i + n" n] by auto
  show "- n \<le> i \<Longrightarrow> i < n \<Longrightarrow> (if i < 0 then i + n else i) = i mod n" using b by auto
qed

section \<open>The queue of fixed capacity\<close>

lemma cq_inv_state:
  assumes "cq_inv p2 q"
  obtains v h s where "q = cq_state v h s" and "ring_ok p2 v h s"
proof
  define v h s where "v = cq_vec q" and "h = nat (cq_head q)" and "s = nat ((cq_tail q - cq_head q) mod cq_nlen q)"
  have n: "cq_nlen q = int (length v)" "0 < length v" "cq_head q = int h" "h < length v" "0 \<le> cq_tail q" "cq_tail q < int (length v)"
    using assms by (auto simp: cq_inv_def v_def h_def nat_less_iff)
  have s: "int s = (cq_tail q - int h) mod int (length v)" "s < length v"
    using n by (simp_all add: s_def nat_less_iff)
  have "(int h + int s) mod int (length v) = cq_tail q" unfolding s(1) using n by (simp add: mod_add_right_eq)
  then have t: "cq_tail q = int ((h + s) mod length v)" by (simp add: zmod_int)
  show "q = cq_state v h s" using n(1,3) t by (simp add: cq_state_def v_def)
  have "p2 \<longrightarrow> (\<exists>k < 64. length v = 2 ^ k)"
  proof
    assume p2
    with assms obtain k where "k < 64" "int (length v) = 2 ^ k" using n(1) by (auto simp: cq_inv_def)
    then have "length v = 2 ^ k" by (metis of_nat_eq_iff of_nat_numeral of_nat_power)
    with \<open>k < 64\<close> show "\<exists>k < 64. length v = 2 ^ k" by blast
  qed
  with n s show "ring_ok p2 v h s" by (simp add: ring_ok_def)
qed

lemma cq_state_size: "ring_ok p2 v h s \<Longrightarrow> (int ((h + s) mod length v) - int h) mod int (length v) = int s"
  by (simp add: ring_ok_def zmod_int mod_diff_left_eq)

lemma cq_state_inv: "ring_ok p2 v h s \<Longrightarrow> cq_inv p2 (cq_state v h s) \<and> cq_list (cq_state v h s) = ring v h s"
proof -
  assume r: "ring_ok p2 v h s"
  have "(h + s) mod length v < length v" using r by (intro mod_less_divisor) (auto simp: ring_ok_def)
  with r cq_state_size [OF r] show ?thesis
    by (auto simp: ring_ok_def cq_inv_def cq_list_def cq_state_def)
qed

lemma cq_moves:
  assumes "0 < cq_nlen q" and p: "p2 \<Longrightarrow> \<exists>k. cq_nlen q = 2 ^ k" and "0 \<le> c" "c < cq_nlen q"
  shows "cq_next p2 q c = (c + 1) mod cq_nlen q" and "cq_prev p2 q c = (c - 1) mod cq_nlen q"
    and "0 \<le> n \<Longrightarrow> n < cq_nlen q \<Longrightarrow> cq_next_n p2 q c n = (c + n) mod cq_nlen q"
    and "0 \<le> n \<Longrightarrow> n < cq_nlen q \<Longrightarrow> cq_prev_n p2 q c n = (c - n) mod cq_nlen q"
proof -
  have mm: "x AND (cq_nlen q - 1) = x mod cq_nlen q" if p2 for x using p [OF that] mask_mod by blast
  note m = mod_compare [OF assms(1)]
  show "cq_next p2 q c = (c + 1) mod cq_nlen q" "cq_prev p2 q c = (c - 1) mod cq_nlen q"
    using m(1) [of "c + 1"] m(2) [of "c - 1"] assms(3,4) by (auto simp: cq_next_def cq_prev_def Let_def mm simp del: minus_mod_self2)
  show "cq_next_n p2 q c n = (c + n) mod cq_nlen q" "cq_prev_n p2 q c n = (c - n) mod cq_nlen q" if "0 \<le> n" "n < cq_nlen q"
    using m(1) [of "c + n"] m(2) [of "c - n"] assms(3,4) that by (auto simp: cq_next_n_def cq_prev_n_def Let_def mm)
qed

lemma cq_indices:
  assumes "cq_inv p2 q"
  shows "cq_size p2 q = (cq_tail q - cq_head q) mod cq_nlen q"
    and "0 \<le> c \<Longrightarrow> c < cq_nlen q \<Longrightarrow> cq_virtual_index p2 c q = (c - cq_head q) mod cq_nlen q"
    and "0 \<le> c \<Longrightarrow> c < cq_nlen q \<Longrightarrow> cq_real_index p2 c q = (c + cq_head q) mod cq_nlen q"
    and "0 \<le> c \<Longrightarrow> c < cq_nlen q \<Longrightarrow> cq_at p2 c q = cq_vec q ! nat ((cq_head q + c) mod cq_nlen q)"
proof -
  have n: "0 < cq_nlen q" "0 \<le> cq_head q" "cq_head q < cq_nlen q" "0 \<le> cq_tail q" "cq_tail q < cq_nlen q" and p: "p2 \<Longrightarrow> \<exists>k. cq_nlen q = 2 ^ k"
    using assms unfolding cq_inv_def by blast+
  note m = mod_compare [OF n(1)]
  have mm: "x AND (cq_nlen q - 1) = x mod cq_nlen q" if p2 for x using p [OF that] mask_mod by blast
  show "cq_size p2 q = (cq_tail q - cq_head q) mod cq_nlen q"
    using m(2) [of "cq_tail q - cq_head q"] n by (cases p2) (auto simp: cq_size_def mm split: if_splits)
  show "cq_virtual_index p2 c q = (c - cq_head q) mod cq_nlen q" if "0 \<le> c" "c < cq_nlen q"
    using m(3) [of "c - cq_head q"] n that by (cases p2) (auto simp: cq_virtual_index_def mm Let_def split: if_splits)
  show "cq_real_index p2 c q = (c + cq_head q) mod cq_nlen q" if "0 \<le> c" "c < cq_nlen q"
    using m(1) [of "c + cq_head q"] n that by (cases p2) (auto simp: cq_real_index_def mm Let_def split: if_splits)
  show "cq_at p2 c q = cq_vec q ! nat ((cq_head q + c) mod cq_nlen q)" if "0 \<le> c" "c < cq_nlen q"
    using m(1) [of "cq_head q + c"] n that by (cases p2) (auto simp: cq_at_def mm Let_def split: if_splits)
qed

text \<open>A state is a ring from \<open>h\<close> with \<open>s\<close> elements; each operation takes it to another.\<close>

lemma int_mod_Suc: "(int (a mod n) + 1) mod int n = int ((a + 1) mod n)"
  by (simp add: zmod_int mod_simps ac_simps)

lemma int_mod_pred: "0 < a \<Longrightarrow> (int (a mod n) - 1) mod int n = int ((a - 1) mod n)"
  by (simp add: zmod_int mod_diff_left_eq of_nat_diff)

lemma cq_state_queries:
  assumes r: "ring_ok p2 v h s"
  shows "cq_empty (cq_state v h s) \<longleftrightarrow> s = 0" and "cq_full p2 (cq_state v h s) \<longleftrightarrow> Suc s = length v" and "cq_size p2 (cq_state v h s) = int s"
proof -
  note i = cq_state_inv [OF r, THEN conjunct1]
  have hs: "h < length v" "s < length v" "h mod length v = h" "v \<noteq> []" and p: "p2 \<Longrightarrow> \<exists>k. int (length v) = 2 ^ k"
    using r by (auto simp: ring_ok_def)
  have "(h + 0) mod length v = (h + s) mod length v \<longleftrightarrow> s = 0" using ring_index_inj [of h 0 "length v" s] hs by auto
  then show "cq_empty (cq_state v h s) \<longleftrightarrow> s = 0" using hs by (auto simp: cq_empty_def cq_state_def)
  show "cq_size p2 (cq_state v h s) = int s" using cq_indices(1) [OF i] cq_state_size [OF r] by (simp add: cq_state_def)
  have "(h + s) mod length v < length v" using hs by (intro mod_less_divisor) auto
  then have "cq_next p2 (cq_state v h s) (int ((h + s) mod length v)) = int ((h + Suc s) mod length v)"
    using cq_moves(1) [of "cq_state v h s" p2 "int ((h + s) mod length v)"] hs p int_mod_Suc [of "h + s" "length v"] by (auto simp: cq_state_def)
  moreover have "(h + Suc s) mod length v = h \<longleftrightarrow> Suc s = length v"
  proof (cases "Suc s = length v")
    case False
    then show ?thesis using ring_index_inj [of h "Suc s" "length v" 0] hs by auto
  qed (use hs in simp)
  ultimately show "cq_full p2 (cq_state v h s) \<longleftrightarrow> Suc s = length v" by (simp add: cq_full_def cq_state_def)
qed

lemma cq_state_ops:
  assumes r: "ring_ok p2 v h s"
  shows "Suc s < length v \<Longrightarrow> cq_push_back p2 x (cq_state v h s) = cq_state (v[(h + s) mod length v := x]) h (Suc s)"
    and "0 < s \<Longrightarrow> cq_pop_front p2 (cq_state v h s) = cq_state v ((h + 1) mod length v) (s - 1)"
    and "0 < s \<Longrightarrow> cq_pop_back p2 (cq_state v h s) = cq_state v h (s - 1)"
    and "0 < s \<Longrightarrow> cq_pop_back_val p2 x (cq_state v h s) = (v ! ((h + (s - 1)) mod length v), cq_state (v[(h + (s - 1)) mod length v := x]) h (s - 1))"
    and "cq_push_front p2 x (cq_state v h s) = cq_state (v[(h + length v - 1) mod length v := x]) ((h + length v - 1) mod length v) (Suc s)"
proof -
  have hs: "h < length v" "s < length v" "h mod length v = h" "v \<noteq> []" and p: "p2 \<Longrightarrow> \<exists>k. int (length v) = 2 ^ k"
    using r by (auto simp: ring_ok_def)
  have t: "(h + s) mod length v < length v" using hs by (intro mod_less_divisor) auto
  have mv: "cq_next p2 q (int ((h + s) mod length v)) = int ((h + Suc s) mod length v)" "cq_next p2 q (int h) = int ((h + 1) mod length v)"
    "0 < s \<Longrightarrow> cq_prev p2 q (int ((h + s) mod length v)) = int ((h + (s - 1)) mod length v)"
    "cq_prev p2 q (int h) = int ((h + length v - 1) mod length v)" if q: "cq_nlen q = int (length v)" for q :: "'a circular_queue"
  proof -
    note m = cq_moves [of q p2, unfolded q]
    show "cq_next p2 q (int ((h + s) mod length v)) = int ((h + Suc s) mod length v)"
      using m(1) [of "int ((h + s) mod length v)"] hs t p int_mod_Suc [of "h + s" "length v"] by auto
    show "cq_next p2 q (int h) = int ((h + 1) mod length v)" using m(1) [of "int h"] hs p int_mod_Suc [of h "length v"] by auto
    show "cq_prev p2 q (int ((h + s) mod length v)) = int ((h + (s - 1)) mod length v)" if "0 < s"
      using m(2) [of "int ((h + s) mod length v)"] hs t p int_mod_pred [of "h + s" "length v"] that by auto
    have "int ((h + length v) mod length v) = int h" using hs by simp
    then show "cq_prev p2 q (int h) = int ((h + length v - 1) mod length v)"
      using m(2) [of "int h"] hs p int_mod_pred [of "h + length v" "length v"] by auto
  qed
  show "cq_push_back p2 x (cq_state v h s) = cq_state (v[(h + s) mod length v := x]) h (Suc s)"
    by (simp add: cq_push_back_def cq_state_def Let_def mv)
  show "cq_pop_front p2 (cq_state v h s) = cq_state v ((h + 1) mod length v) (s - 1)" if "0 < s"
    using that mv(2) by (cases s) (simp_all add: cq_pop_front_def cq_state_def mod_add_left_eq)
  show "cq_pop_back p2 (cq_state v h s) = cq_state v h (s - 1)" if "0 < s"
    using that mv(3) by (simp add: cq_pop_back_def cq_state_def)
  show "cq_pop_back_val p2 x (cq_state v h s) = (v ! ((h + (s - 1)) mod length v), cq_state (v[(h + (s - 1)) mod length v := x]) h (s - 1))" if "0 < s"
    using that mv(3) by (simp add: cq_pop_back_val_def cq_state_def Let_def)
  have "((h + length v - 1) mod length v + Suc s) mod length v = (h + s) mod length v"
  proof -
    have "h + length v - 1 + Suc s = h + s + length v" using hs by simp
    then show ?thesis by (metis mod_add_left_eq mod_add_self2)
  qed
  then show "cq_push_front p2 x (cq_state v h s) = cq_state (v[(h + length v - 1) mod length v := x]) ((h + length v - 1) mod length v) (Suc s)"
    using mv(4) by (simp add: cq_push_front_def cq_state_def Let_def)
qed

lemma ring_ok_moves:
  assumes "ring_ok p2 v h s"
  shows "Suc s < length v \<Longrightarrow> ring_ok p2 (v[j := x]) h (Suc s)" and "t \<le> s \<Longrightarrow> ring_ok p2 v ((h + i) mod length v) t"
    and "t \<le> s \<Longrightarrow> ring_ok p2 v h t" and "t \<le> s \<Longrightarrow> ring_ok p2 (v[j := x]) h t"
    and "Suc s < length v \<Longrightarrow> h' < length v \<Longrightarrow> ring_ok p2 (v[j := x]) h' (Suc s)"
  using assms by (auto simp: ring_ok_def intro: mod_less_divisor)

lemma pop_front_n: "ring_ok p2 v h s \<Longrightarrow> k \<le> s \<Longrightarrow> (cq_pop_front p2 ^^ k) (cq_state v h s) = cq_state v ((h + k) mod length v) (s - k)"
proof (induction k)
  case 0
  then show ?case by (simp add: ring_ok_def)
next
  case (Suc k)
  have r: "ring_ok p2 v ((h + k) mod length v) (s - k)" by (rule ring_ok_moves(2) [OF Suc.prems(1)]) simp
  have "(cq_pop_front p2 ^^ Suc k) (cq_state v h s) = cq_pop_front p2 (cq_state v ((h + k) mod length v) (s - k))"
    using Suc.IH [OF Suc.prems(1)] Suc.prems(2) by simp
  also have "\<dots> = cq_state v (((h + k) mod length v + 1) mod length v) (s - k - 1)"
    by (rule cq_state_ops(2) [OF r]) (use Suc.prems(2) in simp)
  finally show ?case by (simp add: mod_simps)
qed

lemma pop_back_n: "ring_ok p2 v h s \<Longrightarrow> k \<le> s \<Longrightarrow> (cq_pop_back p2 ^^ k) (cq_state v h s) = cq_state v h (s - k)"
proof (induction k)
  case (Suc k)
  have r: "ring_ok p2 v h (s - k)" by (rule ring_ok_moves(3) [OF Suc.prems(1)]) simp
  from Suc.IH [OF Suc.prems(1)] Suc.prems(2) cq_state_ops(3) [OF r] show ?case by simp
qed simp

lemma clear_loop_empties: "ring_ok p2 v h s \<Longrightarrow> s \<le> n \<Longrightarrow> cq_empty (cq_clear_loop p2 n (cq_state v h s)) \<and> (\<exists>h'. cq_clear_loop p2 n (cq_state v h s) = cq_state v h' 0)"
proof (induction n arbitrary: h s)
  case 0
  then show ?case using cq_state_queries(1) [OF 0(1)] by (subst (1 2) cq_clear_loop.simps) auto
next
  case (Suc n)
  show ?case
  proof (cases "s = 0")
    case True
    then show ?thesis using cq_state_queries(1) [OF Suc.prems(1)] by (subst (1 2) cq_clear_loop.simps) auto
  next
    case False
    then have st: "cq_clear_loop p2 (Suc n) (cq_state v h s) = cq_clear_loop p2 n (cq_state v ((h + 1) mod length v) (s - 1))"
      using cq_state_queries(1) [OF Suc.prems(1)] cq_state_ops(2) [OF Suc.prems(1)] by (subst cq_clear_loop.simps) simp
    show ?thesis unfolding st by (rule Suc.IH [OF ring_ok_moves(2) [OF Suc.prems(1)]]) (use Suc.prems(2) in simp_all)
  qed
qed

lemma cq_virtual_real: "ring_ok p2 v h s \<Longrightarrow> i < length v \<Longrightarrow> cq_virtual_index p2 (cq_real_index p2 (int i) (cq_state v h s)) (cq_state v h s) = int i"
proof -
  assume r: "ring_ok p2 v h s" and i: "i < length v"
  note inv = cq_state_inv [OF r, THEN conjunct1]
  have "cq_real_index p2 (int i) (cq_state v h s) = (int i + int h) mod int (length v)"
    using cq_indices(3) [OF inv, of "int i"] i by (simp add: cq_state_def)
  moreover have "cq_virtual_index p2 ((int i + int h) mod int (length v)) (cq_state v h s) = ((int i + int h) mod int (length v) - int h) mod int (length v)"
  proof -
    have "0 < int (length v)" using i by auto
    then have "0 \<le> (int i + int h) mod int (length v)" "(int i + int h) mod int (length v) < int (length v)" by simp_all
    then show ?thesis using cq_indices(2) [OF inv, of "(int i + int h) mod int (length v)"] by (simp add: cq_state_def)
  qed
  moreover have "((int i + int h) mod int (length v) - int h) mod int (length v) = int i" using i by (simp add: mod_diff_left_eq)
  ultimately show ?thesis by simp
qed

lemma cq_exec_ok:
  assumes inv: "cq_inv p2 q" and pre: "cq_pre p2 a q"
  shows "\<exists>q'. cq_exec p2 a q = Inr q' \<and> cq_inv p2 q' \<and> cq_list q' = cq_spec a (cq_list q)"
proof -
  obtain v h s where q: "q = cq_state v h s" and r: "ring_ok p2 v h s" using cq_inv_state [OF inv] by blast
  note l = cq_state_inv [OF r, THEN conjunct2] and o = cq_state_ops [OF r] and qu = cq_state_queries [OF r] and mv = ring_ok_moves [OF r]
  have sv: "s < length v" "h < length v" "0 < length v" using r by (auto simp: ring_ok_def)
  show ?thesis
  proof (cases a)
    case (CQ_push_back x)
    then have s: "Suc s < length v" using pre qu sv by (simp add: q)
    show ?thesis using CQ_push_back cq_state_inv [OF mv(1) [OF s, of "(h + s) mod length v" x]] o(1) [OF s] ring_push_back [OF sv(1)]
      by (simp add: q l)
  next
    case (CQ_push_front x)
    then have s: "Suc s < length v" using pre qu sv by (simp add: q)
    have h: "(h + length v - 1) mod length v < length v" using sv(3) by (intro mod_less_divisor)
    have h1: "((h + length v - 1) mod length v + 1) mod length v = h" using sv by (simp add: mod_Suc_eq)
    show ?thesis using CQ_push_front cq_state_inv [OF mv(5) [OF s h, of "(h + length v - 1) mod length v" x]] o(5) ring_push_front [OF sv(1) h h1]
      by (simp add: q l)
  next
    case CQ_pop_front
    then have s: "0 < s" using pre qu by (simp add: q)
    then show ?thesis using CQ_pop_front cq_state_inv [OF mv(2) [of "s - 1" 1]] o(2) [OF s] ring_pop_front [of v h "s - 1"] by (simp add: q l)
  next
    case CQ_pop_back
    then have s: "0 < s" using pre qu by (simp add: q)
    then show ?thesis using CQ_pop_back cq_state_inv [OF mv(3) [of "s - 1"]] o(3) [OF s] ring_pop_back [of v h "s - 1"] by (simp add: q l)
  next
    case (CQ_pop_back_val x)
    then have s: "0 < s" using pre qu by (simp add: q)
    have "ring (v[(h + (s - 1)) mod length v := x]) h (s - 1) = ring v h (s - 1)" using s sv by (intro ring_update_other) simp_all
    then show ?thesis using s CQ_pop_back_val cq_state_inv [OF mv(4) [of "s - 1" "(h + (s - 1)) mod length v" x]] o(4) [OF s, of x] ring_pop_back [of v h "s - 1"]
      by (simp add: q l)
  next
    case (CQ_pop_lower i)
    then have i: "Suc i \<le> s" using pre qu by (simp add: q)
    then have "cq_virtual_index p2 (cq_real_index p2 (int i) (cq_state v h s)) (cq_state v h s) = int i" using cq_virtual_real [OF r] sv by simp
    then have "cq_pop_lower p2 (cq_real_index p2 (int i) q) q = cq_state v ((h + Suc i) mod length v) (s - Suc i)"
      using pop_front_n [OF r i] by (simp add: cq_pop_lower_def q nat_add_distrib del: funpow.simps)
    with CQ_pop_lower cq_state_inv [OF mv(2) [of "s - Suc i" "Suc i"]] ring_drop [OF i, of v h] show ?thesis by (simp add: q l)
  next
    case (CQ_pop_upper i)
    then have i: "i < s" using pre qu by (simp add: q)
    then have "cq_virtual_index p2 (cq_real_index p2 (int i) (cq_state v h s)) (cq_state v h s) = int i" using cq_virtual_real [OF r] sv by simp
    then have "cq_pop_upper p2 (cq_real_index p2 (int i) q) q = cq_state v h i"
      using pop_back_n [OF r, of "s - i"] i qu(3) by (simp add: cq_pop_upper_def q nat_diff_distrib)
    with i CQ_pop_upper cq_state_inv [OF mv(3) [of i]] ring_take [of i s v h] show ?thesis by (simp add: q l)
  next
    case CQ_clear
    obtain h' where "cq_clear_loop p2 (length v) (cq_state v h s) = cq_state v h' 0" using clear_loop_empties [OF r, of "length v"] sv by auto
    then have "cq_clear p2 q = cq_state v 0 0" by (simp add: cq_clear_def q, simp add: cq_state_def)
    moreover have "ring_ok p2 v 0 0" using r by (auto simp: ring_ok_def)
    ultimately show ?thesis using CQ_clear cq_state_inv [of p2 v 0 0] by (simp add: ring_def)
  qed
qed

interpretation cqm: op_machine "cq_inv p2" "cq_exec p2" "cq_run p2" "cq_pre p2" "cq_pre_run p2" cq_list cq_spec "\<lambda>_. False" for p2
proof
  fix q q' :: "'a circular_queue" and a err assume "cq_inv p2 q" "cq_pre p2 a q"
  from cq_exec_ok [OF this]
  show "cq_exec p2 a q = Inr q' \<Longrightarrow> cq_inv p2 q' \<and> cq_list q' = cq_spec a (cq_list q)" "cq_exec p2 a q = Inl err \<Longrightarrow> False" by auto
qed (auto split: sum.splits)

section \<open>The growing queue\<close>

lemma mod_back: "h < n \<Longrightarrow> s < n \<Longrightarrow> ((h + s) mod n + n - h) mod n = (s :: nat)"
proof (cases "h + s < n")
  case False
  assume a: "h < n" "s < n"
  with False have "(h + s) mod n = h + s - n" by (simp add: mod_if)
  with a False show ?thesis by simp
qed simp

lemma mod_to: "h < n \<Longrightarrow> t < n \<Longrightarrow> (h + (t + n - h) mod n) mod n = (t :: nat)"
  by (simp add: mod_add_right_eq)

lemma gq_inv_state:
  assumes "gq_inv q"
  obtains v h s where "q = gq_state v h s" and "ring_ok True v h s"
proof
  define s where "s = (gq_tail q + gq_cap q - gq_head q) mod gq_cap q"
  have c: "gq_head q < gq_cap q" "gq_tail q < gq_cap q" "gq_cap q = length (gq_vec q)" using assms by (auto simp: gq_inv_def)
  then have "s < length (gq_vec q)" unfolding s_def by (metis mod_less_divisor not_less_zero gr_zeroI)
  then show "ring_ok True (gq_vec q) (gq_head q) s" using assms c by (auto simp: ring_ok_def gq_inv_def)
  have "(gq_head q + s) mod gq_cap q = gq_tail q" unfolding s_def by (rule mod_to [OF c(1,2)])
  then show "q = gq_state (gq_vec q) (gq_head q) s" using c(3) by (simp add: gq_state_def)
qed

lemma gq_state_inv: "ring_ok True v h s \<Longrightarrow> gq_inv (gq_state v h s) \<and> gq_list (gq_state v h s) = ring v h s"
  using mod_back [of h "length v" s] mod_less_divisor [of "length v" "h + s"] by (auto simp: ring_ok_def gq_inv_def gq_list_def gq_state_def)

lemma size_sub_mod:
  assumes "k < 64" and n: "n = 2 ^ k" and a: "a < n" "b < n"
  shows "size_sub a b AND (n - 1) = (a + n - b) mod n"
proof -
  have "size_sub a b mod n = (a + n - b) mod n"
  proof (cases "b \<le> a")
    case True
    then have "a + n - b = a - b + n" by simp
    then have "(a + n - b) mod n = (a - b) mod n" by (simp only: mod_add_self2)
    with True show ?thesis by (simp add: size_sub_def)
  next
    case False
    have "(2 :: nat) ^ 64 = n * 2 ^ (64 - k)" using assms(1) by (simp add: n power_add [symmetric])
    then obtain j where j: "(2 :: nat) ^ 64 = n + n * j" using assms(1) by (cases "(2 :: nat) ^ (64 - k)") auto
    have "2 ^ 64 + a - b = a + n - b + n * j" unfolding j using False a by simp
    then show ?thesis using False by (simp add: size_sub_def)
  qed
  then show ?thesis unfolding mask_mod_nat [OF n] .
qed

lemma gq_masks:
  assumes "ring_ok True v h s"
  shows "gq_size (gq_state v h s) = s" and "x AND (length v - 1) = x mod length v"
    and "size_sub h ((h + s) mod length v) AND (length v - 1) = (length v - s) mod length v"
proof -
  obtain k where k: "k < 64" "length v = 2 ^ k" and hs: "h < length v" "s < length v" "0 < length v" using assms by (auto simp: ring_ok_def)
  have t: "(h + s) mod length v < length v" using hs(3) by (rule mod_less_divisor)
  show "gq_size (gq_state v h s) = s" using size_sub_mod [OF k t hs(1)] mod_back [OF hs(1,2)] by (simp add: gq_size_def gq_state_def)
  show "x AND (length v - 1) = x mod length v" by (rule mask_mod_nat [OF k(2)])
  have "(h + length v - (h + s) mod length v) mod length v = (length v - s) mod length v"
  proof (cases "h + s < length v")
    case False
    with hs have "(h + s) mod length v = h + s - length v" by (simp add: mod_if)
    with False hs have "h + length v - (h + s) mod length v = length v - s + length v" by simp
    then show ?thesis by simp
  qed simp
  with size_sub_mod [OF k hs(1) t] show "size_sub h ((h + s) mod length v) AND (length v - 1) = (length v - s) mod length v" by simp
qed

lemma ring_split: "h < length v \<Longrightarrow> k \<le> length v \<Longrightarrow> ring v h k = take k (drop h v) @ take (k - (length v - h)) v"
proof (rule nth_equalityI)
  fix i assume a: "h < length v" "k \<le> length v" and "i < length (ring v h k)"
  then have i: "i < k" by simp
  show "ring v h k ! i = (take k (drop h v) @ take (k - (length v - h)) v) ! i"
  proof (cases "h + i < length v")
    case False
    then have "(h + i) mod length v = h + i - length v" using a i by (simp add: mod_if)
    moreover have "\<not> i < length v - h" "i - (length v - h) = h + i - length v" using False a by linarith+
    ultimately show ?thesis using a i by (simp add: ring_nth nth_append min_def del: diff_diff_right)
  next
    case True
    moreover from this have "i < length v - h" by linarith
    ultimately show ?thesis using a i by (simp add: ring_nth nth_append)
  qed
qed simp

lemma gq_grow_ring:
  assumes h: "0 < h" "h < length v" and s: "Suc s = length v" and J: "length J = length v"
  shows "length v div 2 < h \<Longrightarrow> ring (put_at (length v + h) (drop h v) (v @ J)) (length v + h) s = ring v h s"
    and "ring (put_at (length v) (take (h - 1) v) (v @ J)) h s = ring v h s"
proof -
  define n where "n = length v"
  show "ring (put_at (length v + h) (drop h v) (v @ J)) (length v + h) s = ring v h s"
  proof (rule nth_equalityI)
    fix i assume "i < length (ring (put_at (length v + h) (drop h v) (v @ J)) (length v + h) s)"
    then have i: "i < s" by simp
    define w where "w = put_at (n + h) (drop h v) (v @ J)"
    have w: "length w = 2 * n" "w = v @ take h J @ drop h v" using h J by (simp_all add: w_def put_at_def n_def)
    have "w ! ((n + h + i) mod (2 * n)) = v ! ((h + i) mod n)"
    proof (cases "h + i < n")
      case True
      then show ?thesis using h J by (simp add: w(2) nth_append n_def)
    next
      case False
      then have "(n + h + i) mod (2 * n) = h + i - n" "(h + i) mod n = h + i - n" using i s h by (simp_all add: mod_if n_def)
      moreover have "h + i - n < length v" using i s h by (simp add: n_def)
      ultimately show ?thesis by (simp add: w(2) nth_append)
    qed
    then show "ring (put_at (length v + h) (drop h v) (v @ J)) (length v + h) s ! i = ring v h s ! i"
      using i w(1) by (simp add: ring_nth n_def w_def)
  qed simp
  show "ring (put_at (length v) (take (h - 1) v) (v @ J)) h s = ring v h s"
  proof (rule nth_equalityI)
    fix i assume "i < length (ring (put_at (length v) (take (h - 1) v) (v @ J)) h s)"
    then have i: "i < s" by simp
    define w where "w = put_at n (take (h - 1) v) (v @ J)"
    have w: "length w = 2 * n" "w = v @ take (h - 1) v @ drop (h - 1) J" using h J by (simp_all add: w_def put_at_def n_def)
    have "w ! ((h + i) mod (2 * n)) = v ! ((h + i) mod n)"
    proof (cases "h + i < n")
      case True
      then show ?thesis using h by (simp add: w(2) nth_append n_def)
    next
      case False
      then have "(h + i) mod (2 * n) = h + i" "(h + i) mod n = h + i - n" "h + i - n < h - 1" using i s h by (simp_all add: mod_if n_def)
      with False h show ?thesis by (simp add: w(2) nth_append n_def)
    qed
    then show "ring (put_at (length v) (take (h - 1) v) (v @ J)) h s ! i = ring v h s ! i"
      using i w(1) by (simp add: ring_nth n_def w_def)
  qed simp
qed

lemma realloc_double: "v_ok e (length v * 2) \<Longrightarrow> \<exists>J. length J = length v \<and> v_realloc e v (length v * 2) = Some (v @ J)"
  by (simp add: v_realloc_def)

lemma ring_ok_double: "ring_ok True v h s \<Longrightarrow> length v < 2 ^ 63 \<Longrightarrow> length w = 2 * length v \<Longrightarrow> h' < length w \<Longrightarrow> s' < length w \<Longrightarrow> ring_ok True w h' s'"
proof -
  assume a: "ring_ok True v h s" "length v < 2 ^ 63" "length w = 2 * length v" "h' < length w" "s' < length w"
  from a(1) obtain k where k: "length v = 2 ^ k" by (auto simp: ring_ok_def)
  with a(2) have "k < 63" using power_less_imp_less_exp [of "2 :: nat" k 63] by simp
  with k a(3-5) show ?thesis by (auto simp: ring_ok_def intro!: exI [of _ "Suc k"])
qed

lemma gq_double_cap_full:
  assumes r: "ring_ok True v h s" and s: "Suc s = length v" and h: "0 < h" and ok: "v_ok e (length v * 2)" and c: "length v < 2 ^ 63"
  shows "\<exists>w h'. gq_double_cap e (gq_state v h s) = Inr (gq_state w h' s) \<and> length w = 2 * length v \<and> ring_ok True w h' (Suc s) \<and> ring w h' s = ring v h s"
proof -
  have hv: "h < length v" "v \<noteq> []" using r by (auto simp: ring_ok_def)
  obtain J where J: "length J = length v" "v_realloc e v (length v * 2) = Some (v @ J)" using realloc_double [OF ok] by blast
  have t: "(h + s) mod length v = h - 1"
  proof -
    have "h + s = h - 1 + length v" using s h by simp
    then show ?thesis using hv by simp
  qed
  show ?thesis
  proof (cases "length v div 2 < h")
    case True
    define w where "w = put_at (length v + h) (drop h v) (v @ J)"
    have w: "length w = 2 * length v" using hv J by (simp add: w_def put_at_def)
    have "(length v + h + s) mod length w = h - 1"
    proof -
      have e: "length v + h + s = h - 1 + length w" using s h w by simp
      show ?thesis unfolding e mod_add_self2 by (rule mod_less) (use hv w in simp)
    qed
    then have "gq_double_cap e (gq_state v h s) = Inr (gq_state w (length v + h) s)"
      using True J(2) w t by (simp add: gq_double_cap_def gq_state_def Let_def w_def)
    with gq_grow_ring(1) [OF h hv(1) s J(1) True] ring_ok_double [OF r c w, of "length v + h" "Suc s"] w hv s show ?thesis
      unfolding w_def [symmetric] by auto
  next
    case False
    define w where "w = put_at (length v) (take (h - 1) v) (v @ J)"
    have w: "length w = 2 * length v" using hv J by (simp add: w_def put_at_def)
    have "(h + s) mod length w = length v + (h - 1)" using s h hv w by simp
    then have "gq_double_cap e (gq_state v h s) = Inr (gq_state w h s)"
      using False J(2) w t hv by (simp add: gq_double_cap_def gq_state_def Let_def w_def)
    with gq_grow_ring(2) [OF h hv(1) s J(1)] ring_ok_double [OF r c w, of h "Suc s"] w hv s show ?thesis
      unfolding w_def [symmetric] by auto
  qed
qed

text \<open>A push, on every branch. A full queue that begins at the begin of its array becomes empty.\<close>

lemma gq_push_back_ok:
  assumes r: "ring_ok True v h s"
  shows "Suc s < length v \<Longrightarrow> gq_push_back e x (gq_state v h s) = Inr (gq_state (v[(h + s) mod length v := x]) h (Suc s))"
    and "length v = 1 \<Longrightarrow> gq_push_back e x (gq_state v h s) = Inr (gq_state [x] 0 0)"
    and "Suc s = length v \<Longrightarrow> 1 < length v \<Longrightarrow> gq_push_back e x (gq_state v h s) = gq_push_back_slow_path e x (gq_state v h s)"
proof -
  have hs: "h < length v" "s < length v" using r by (simp_all add: ring_ok_def)
  note m = gq_masks [OF r]
  show "gq_push_back e x (gq_state v h s) = Inr (gq_state (v[(h + s) mod length v := x]) h (Suc s))" if "Suc s < length v"
  proof -
    have "(length v - s) mod length v \<noteq> 1" using that by (cases "s = 0") simp_all
    then have "size_sub h ((h + s) mod length v) AND (length v - 1) \<noteq> 1" unfolding m(3) .
    moreover have "((h + s) mod length v + 1) AND (length v - 1) = (h + Suc s) mod length v" unfolding m(2) by (simp add: mod_simps)
    ultimately show ?thesis by (simp add: gq_push_back_def gq_state_def Let_def)
  qed
  show "gq_push_back e x (gq_state v h s) = Inr (gq_state [x] 0 0)" if l: "length v = 1"
  proof -
    obtain y where "v = [y]" using l by (cases v) auto
    with hs show ?thesis by (simp add: gq_push_back_def gq_state_def Let_def size_sub_def)
  qed
  show "gq_push_back e x (gq_state v h s) = gq_push_back_slow_path e x (gq_state v h s)" if "Suc s = length v" "1 < length v"
  proof -
    have "length v - s = 1" using that(1) by simp
    with that(2) have "size_sub h ((h + s) mod length v) AND (length v - 1) = 1" unfolding m(3) by simp
    then show ?thesis by (simp add: gq_push_back_def gq_state_def Let_def)
  qed
qed

lemma gq_push_slow_ok:
  assumes r: "ring_ok True v h s" and s: "Suc s = length v" and h: "0 < h" and ok: "v_ok e (length v * 2)" and c: "length v < 2 ^ 63"
  shows "\<exists>w h'. gq_push_back_slow_path e x (gq_state v h s) = Inr (gq_state w h' (Suc s)) \<and> ring_ok True w h' (Suc s) \<and> ring w h' (Suc s) = ring v h s @ [x]"
proof -
  obtain w h' where w: "gq_double_cap e (gq_state v h s) = Inr (gq_state w h' s)" "length w = 2 * length v" "ring_ok True w h' (Suc s)" "ring w h' s = ring v h s"
    using gq_double_cap_full [OF r s h ok c] by blast
  have sw: "s < length w" using w(2) s by simp
  define u where "u = w[(h' + s) mod length w := x]"
  have "gq_push_back_slow_path e x (gq_state v h s) = Inr (gq_state u h' (Suc s))"
    unfolding gq_push_back_slow_path_def w(1) using gq_masks(2) [OF w(3)] by (simp add: gq_state_def u_def mod_simps)
  moreover have "ring_ok True u h' (Suc s)" using w(3) by (simp add: u_def ring_ok_def)
  ultimately show ?thesis using ring_push_back [OF sw, of h' x] w(4) unfolding u_def [symmetric] by auto
qed

lemma gq_push_at_begin:
  assumes r: "ring_ok True v 0 s" and s: "Suc s = length v" and c: "1 < length v" "length v < 2 ^ 63" and ok: "v_ok e (length v * 2)"
  shows "\<exists>w. gq_push_back_slow_path e x (gq_state v 0 s) = Inr (gq_state w 0 0) \<and> length w = 2 * length v \<and> ring_ok True w 0 0"
proof -
  obtain J where J: "length J = length v" "v_realloc e v (length v * 2) = Some (v @ J)" using realloc_double [OF ok] by blast
  define w where "w = (put_at (length v) (take s v) (v @ J))[length v + s := x]"
  have w: "length w = 2 * length v" using J s by (simp add: w_def put_at_def)
  have rw: "ring_ok True w 0 0" using ring_ok_double [OF r c(2) w, of 0 0] w c(1) by (cases v) simp_all
  have st: "Suc (length v + s) mod length w = 0" using w by (simp add: s flip: add_Suc_right mult_2)
  have m: "Suc (length v + s) AND (length v * 2 - 1) = Suc (length v + s) mod length w" using gq_masks(2) [OF rw] w by (simp add: mult.commute)
  have "gq_double_cap e (gq_state v 0 s) = Inr \<lparr>gq_vec = put_at (length v) (take s v) (v @ J), gq_cap = length v * 2, gq_head = 0, gq_tail = length v + s\<rparr>"
    using J(2) s by (simp add: gq_double_cap_def gq_state_def Let_def)
  then have "gq_push_back_slow_path e x (gq_state v 0 s) = Inr (gq_state w 0 0)"
    using m st w by (simp add: gq_push_back_slow_path_def gq_state_def w_def [symmetric] mult.commute)
  with w rw show ?thesis by blast
qed

lemma gq_slow_fails: "\<not> v_ok e (length v * 2) \<Longrightarrow> gq_push_back_slow_path e x (gq_state v h s) = Inl Bad_alloc"
  by (simp add: gq_push_back_slow_path_def gq_double_cap_def gq_state_def v_realloc_def)

lemma gq_push_spec:
  assumes inv: "gq_inv q" and c: "gq_cap q < 2 ^ 63"
  shows "case gq_push_back e x q of Inl err \<Rightarrow> err = Bad_alloc \<and> \<not> v_ok e (gq_cap q * 2)
    | Inr q' \<Rightarrow> gq_inv q' \<and> gq_list q' = (if gq_size q + 1 = gq_cap q \<and> gq_head q = 0 then [] else gq_list q @ [x])"
proof -
  obtain v h s where q: "q = gq_state v h s" and r: "ring_ok True v h s" using gq_inv_state [OF inv] by blast
  have hs: "h < length v" "s < length v" using r by (simp_all add: ring_ok_def)
  have f: "gq_size q = s" "gq_cap q = length v" "gq_head q = h" "gq_list q = ring v h s"
    using gq_masks(1) [OF r] gq_state_inv [OF r] by (simp_all add: q, simp_all add: gq_state_def)
  have c': "length v < 2 ^ 63" using c f(2) by simp
  note p = gq_push_back_ok [OF r, of e x, folded q]
  consider "Suc s < length v" | "length v = 1" | "Suc s = length v" "1 < length v" using hs by linarith
  then show ?thesis
  proof cases
    case 1
    then have "ring_ok True (v[(h + s) mod length v := x]) h (Suc s)" using r by (simp add: ring_ok_def)
    from gq_state_inv [OF this] ring_push_back [OF hs(2), of h x] p(1) [OF 1] 1 f show ?thesis by simp
  next
    case 2
    have "ring_ok True [x] 0 0" by (auto simp: ring_ok_def intro: exI [of _ 0])
    from gq_state_inv [OF this] p(2) [OF 2] 2 f hs show ?thesis by (simp add: ring_def)
  next
    case 3
    show ?thesis
    proof (cases "v_ok e (length v * 2)")
      case False
      with gq_slow_fails [OF this, of x h s] p(3) [OF 3] f show ?thesis by (simp add: q)
    next
      case ok: True
      show ?thesis
      proof (cases "h = 0")
        case True
        from gq_push_at_begin [OF r [unfolded True] 3 c' ok, of x] obtain w where
          "gq_push_back_slow_path e x (gq_state v 0 s) = Inr (gq_state w 0 0)" "ring_ok True w 0 0" by blast
        with gq_state_inv [of w 0 0] p(3) [OF 3] f 3 True show ?thesis by (simp add: q ring_def)
      next
        case False
        then have "0 < h" by simp
        from gq_push_slow_ok [OF r 3(1) this ok c', of x] obtain w h' where
          w: "gq_push_back_slow_path e x (gq_state v h s) = Inr (gq_state w h' (Suc s))" "ring_ok True w h' (Suc s)" "ring w h' (Suc s) = ring v h s @ [x]" by blast
        with gq_state_inv [OF w(2)] p(3) [OF 3] f False show ?thesis by (simp add: q)
      qed
    qed
  qed
qed

lemma gq_sel: "gq_vec (gq_state v h s) = v" "gq_cap (gq_state v h s) = length v" "gq_head (gq_state v h s) = h" "gq_tail (gq_state v h s) = (h + s) mod length v"
  by (simp_all add: gq_state_def)

lemma gq_pops:
  assumes r: "ring_ok True v h s"
  shows "0 < s \<Longrightarrow> gq_pop_front (gq_state v h s) = gq_state v ((h + 1) mod length v) (s - 1)"
    and "0 < s \<Longrightarrow> gq_pop_front_val (gq_state v h s) = (hd (ring v h s), gq_state v ((h + 1) mod length v) (s - 1))"
    and "gq_pop_n n (gq_state v h s) = (take n (ring v h s), gq_state v ((h + min n s) mod length v) (s - min n s))"
    and "snd (gq_pop_all (gq_state v h s)) = gq_state v 0 0" and "0 < s \<Longrightarrow> fst (gq_pop_all (gq_state v h s)) = ring v h s"
proof -
  have hs: "h < length v" "s < length v" "v \<noteq> []" using r by (auto simp: ring_ok_def)
  note m = gq_masks [OF r]
  have t: "((h + k) mod length v + (s - k)) mod length v = (h + s) mod length v" if "k \<le> s" for k
    unfolding mod_add_left_eq using that by simp
  show f: "gq_pop_front (gq_state v h s) = gq_state v ((h + 1) mod length v) (s - 1)" if "0 < s"
    using t [of 1] that m(2) [of "h + 1"] by (simp add: gq_pop_front_def gq_state_def)
  have "hd (ring v h s) = v ! h" if "0 < s" using that hs by (simp add: hd_conv_nth ring_nth flip: length_greater_0_conv)
  then show "gq_pop_front_val (gq_state v h s) = (hd (ring v h s), gq_state v ((h + 1) mod length v) (s - 1))" if "0 < s"
    using f that by (simp add: gq_pop_front_val_def gq_pop_front_def) (simp add: gq_state_def)
  have lt: "h < (h + s) mod length v \<longleftrightarrow> 0 < s \<and> h + s < length v"
  proof (cases "h + s < length v")
    case False
    then have "(h + s) mod length v = h + s - length v" using hs by (simp add: mod_if)
    then show ?thesis using False hs by simp
  qed simp
  have out: "(if h < (h + s) mod length v then take k (drop h v)
      else take (min (length v - h) k) (drop h v) @ (if min (length v - h) k < k then take (k - min (length v - h) k) v else [])) = ring v h k"
    if k: "k \<le> s" for k
  proof (cases "h < (h + s) mod length v")
    case True
    then show ?thesis using lt k hs ring_split [of h v k] by simp
  next
    case False
    have "k \<le> length v" using k hs by simp
    from ring_split [OF hs(1) this] False show ?thesis by (cases "k \<le> length v - h") (simp_all add: min_def)
  qed
  define k where "k = min n s"
  have k: "k \<le> s" "ring v h k = take n (ring v h s)" using ring_take [of k s v h] by (simp_all add: k_def min_def split: if_splits)
  have "gq_pop_n n (gq_state v h s) = (ring v h k, gq_state v ((h + k) mod length v) (s - k))"
    unfolding gq_pop_n_def m(1) k_def [symmetric] Let_def gq_sel out [OF k(1)] m(2) using t [OF k(1)] by (simp add: gq_state_def)
  then show "gq_pop_n n (gq_state v h s) = (take n (ring v h s), gq_state v ((h + min n s) mod length v) (s - min n s))"
    unfolding k(2) unfolding k_def .
  show "snd (gq_pop_all (gq_state v h s)) = gq_state v 0 0" using hs by (simp add: gq_pop_all_def gq_state_def Let_def)
  show "fst (gq_pop_all (gq_state v h s)) = ring v h s" if "0 < s"
  proof (cases "h + s < length v")
    case True
    then show ?thesis using that ring_split [of h v s] hs lt by (simp add: gq_pop_all_def gq_state_def Let_def)
  next
    case False
    moreover from this have "(h + s) mod length v = h + s - length v" using hs by (simp add: mod_if)
    moreover have "h + s - length v = s - (length v - h)" using hs by linarith
    ultimately have "(h + s) mod length v = s - (length v - h)" by simp
    with False ring_split [of h v s] hs lt show ?thesis by (simp add: gq_pop_all_def gq_state_def Let_def)
  qed
qed

lemma gq_copy_ok: "gq_inv q \<Longrightarrow> gq_copy e q = (if v_ok e (gq_cap q) then Inr q else Inl Bad_alloc)"
  by (simp add: gq_copy_def v_realloc_def gq_inv_def put_at_def)

lemma gq_exec_ok:
  assumes inv: "gq_inv q" and pre: "gq_pre a q"
  shows "case gq_exec e a q of Inl err \<Rightarrow> gq_fails e err | Inr q' \<Rightarrow> gq_inv q' \<and> gq_list q' = gq_spec a (gq_list q)"
proof -
  obtain v h s where q: "q = gq_state v h s" and r: "ring_ok True v h s" using gq_inv_state [OF inv] by blast
  note l = gq_state_inv [OF r, THEN conjunct2] and p = gq_pops [OF r] and mv = ring_ok_moves [OF r] and sz = gq_masks(1) [OF r]
  show ?thesis
  proof (cases a)
    case (GQ_push_back x)
    with pre gq_push_spec [OF inv, of e x] show ?thesis by (auto simp: gq_fails_def split: sum.splits if_splits)
  next
    case GQ_pop_front
    then have s: "0 < s" using pre sz by (simp add: q)
    then show ?thesis using GQ_pop_front gq_state_inv [OF mv(2) [of "s - 1" 1]] p(1) [OF s] ring_pop_front [of v h "s - 1"] by (simp add: q l)
  next
    case GQ_pop_front_val
    then have s: "0 < s" using pre sz by (simp add: q)
    then show ?thesis using GQ_pop_front_val gq_state_inv [OF mv(2) [of "s - 1" 1]] p(2) [OF s] ring_pop_front [of v h "s - 1"] by (simp add: q l)
  next
    case (GQ_pop_n n)
    have "drop (min n s) (ring v h s) = drop n (ring v h s)" by (simp add: min_def)
    then show ?thesis using GQ_pop_n gq_state_inv [OF mv(2) [of "s - min n s" "min n s"]] p(3) [of n] ring_drop [of "min n s" s v h] by (simp add: q l)
  next
    case GQ_pop_all
    have "ring_ok True v 0 0" using r by (auto simp: ring_ok_def)
    from gq_state_inv [OF this] GQ_pop_all p(4) show ?thesis by (simp add: q ring_def)
  next
    case GQ_copy
    with inv show ?thesis by (auto simp: gq_copy_ok gq_fails_def)
  qed
qed

interpretation gqm: op_machine gq_inv "gq_exec e" "gq_run e" gq_pre "gq_pre_run e" gq_list gq_spec "gq_fails e" for e
proof
  fix q q' :: "'a AutoGrowCircularQueue" and a err assume "gq_inv q" "gq_pre a q"
  from gq_exec_ok [OF this, of e]
  show "gq_exec e a q = Inr q' \<Longrightarrow> gq_inv q' \<and> gq_list q' = gq_spec a (gq_list q)" "gq_exec e a q = Inl err \<Longrightarrow> gq_fails e err" by simp_all
qed (auto split: sum.splits)

text \<open>What the constructor returns.\<close>

lemma cq_make_ok:
  assumes "0 < cap" and "p2 \<Longrightarrow> \<exists>k < 64. cap = 2 ^ k"
  shows "cq_make e p2 cap = (if v_ok e (nat cap) then Inr \<lparr>cq_vec = map (v_junk e) [0..<nat cap], cq_head = 0, cq_tail = 0, cq_nlen = cap\<rparr> else Inl Bad_alloc)"
    and "cq_make e p2 cap = Inr q \<Longrightarrow> cq_inv p2 q \<and> cq_list q = []"
proof -
  have "cap AND (cap - 1) = 0" if p2 using assms(2) [OF that] mask_mod [of cap _ cap] by auto
  then show m: "cq_make e p2 cap = (if v_ok e (nat cap) then Inr \<lparr>cq_vec = map (v_junk e) [0..<nat cap], cq_head = 0, cq_tail = 0, cq_nlen = cap\<rparr> else Inl Bad_alloc)"
    using assms(1) by (auto simp: cq_make_def v_realloc_def)
  show "cq_inv p2 q \<and> cq_list q = []" if "cq_make e p2 cap = Inr q"
    using that assms unfolding m by (auto simp: cq_inv_def cq_list_def ring_def split: if_splits)
qed

lemma gq_make_ok:
  assumes "k < 64"
  shows "gq_make e (2 ^ k) = (if v_ok e (2 ^ k) then Inr (gq_state (map (v_junk e) [0..<2 ^ k]) 0 0) else Inl Bad_alloc)"
    and "gq_make e (2 ^ k) = Inr q \<Longrightarrow> gq_inv q \<and> gq_list q = []"
proof -
  have "(2 :: nat) ^ k AND (2 ^ k - 1) = 0" unfolding mask_mod_nat [OF refl] by simp
  then show m: "gq_make e (2 ^ k) = (if v_ok e (2 ^ k) then Inr (gq_state (map (v_junk e) [0..<2 ^ k]) 0 0) else Inl Bad_alloc)"
    by (simp add: gq_make_def v_realloc_def gq_state_def size_sub_def Suc_le_eq)
  have r: "ring_ok True (map (v_junk e) [0..<2 ^ k]) 0 0" using assms by (auto simp: ring_ok_def)
  show "gq_inv q \<and> gq_list q = []" if "gq_make e (2 ^ k) = Inr q"
    using that gq_state_inv [OF r] unfolding m by (auto simp: ring_def split: if_splits)
qed

section \<open>Properties\<close>

lemma cq_queries:
  assumes "cq_inv p2 q"
  shows "cq_size p2 q = int (length (cq_list q))" and "cq_empty q \<longleftrightarrow> cq_list q = []"
    and "cq_full p2 q \<longleftrightarrow> int (length (cq_list q)) + 1 = cq_capacity q"
    and "i < length (cq_list q) \<Longrightarrow> cq_at p2 (int i) q = cq_list q ! i"
    and "cq_list q \<noteq> [] \<Longrightarrow> cq_front q = hd (cq_list q) \<and> cq_back p2 q = last (cq_list q)"
proof -
  obtain v h s where q: "q = cq_state v h s" and r: "ring_ok p2 v h s" using cq_inv_state [OF assms] by blast
  note l = cq_state_inv [OF r, THEN conjunct2] and qu = cq_state_queries [OF r]
  have hs: "h < length v" "s < length v" using r by (simp_all add: ring_ok_def)
  show "cq_size p2 q = int (length (cq_list q))" "cq_full p2 q \<longleftrightarrow> int (length (cq_list q)) + 1 = cq_capacity q"
    using qu l by (auto simp: q cq_capacity_def) (auto simp: cq_state_def)
  have "ring v h s = [] \<longleftrightarrow> s = 0" by (simp flip: length_0_conv)
  then show "cq_empty q \<longleftrightarrow> cq_list q = []" using qu l by (simp add: q)
  show at: "cq_at p2 (int i) q = cq_list q ! i" if "i < length (cq_list q)" for i
  proof -
    have i: "i < s" using that l by (simp add: q)
    have "nat ((int h + int i) mod int (length v)) = (h + i) mod length v" by (metis nat_int of_nat_add zmod_int)
    then show ?thesis using cq_indices(4) [OF assms, of "int i"] i hs l by (simp add: q ring_nth) (simp add: cq_state_def)
  qed
  show "cq_front q = hd (cq_list q) \<and> cq_back p2 q = last (cq_list q)" if ne: "cq_list q \<noteq> []"
  proof
    have s: "0 < s" using ne l by (simp add: q flip: length_greater_0_conv)
    then have "ring v h s ! 0 = v ! h" using hs by (simp add: ring_nth)
    then show "cq_front q = hd (cq_list q)" using ne l by (simp add: q hd_conv_nth) (simp add: cq_front_def cq_state_def)
    have "cq_back p2 q = fst (cq_pop_back_val p2 undefined q)" by (simp add: cq_back_def cq_pop_back_val_def Let_def)
    also have "\<dots> = ring v h s ! (s - 1)" using cq_state_ops(4) [OF r s] s by (simp add: q ring_nth)
    finally show "cq_back p2 q = last (cq_list q)" using ne l by (simp add: q last_conv_nth)
  qed
qed

text \<open>C15. The queue of fixed capacity, with either way of taking remainders: every sequence of operations that respects the preconditions (no push to a full queue, no
  pop from an empty one, serial numbers of elements of the queue) keeps it well-formed and acts on its elements as the list operations do, and the queries answer for the list:
  size, empty, full (one slot stays unused), access by position, front and back.\<close>

theorem cq_run_refines:
  assumes "cq_inv p2 q" and "cq_pre_run p2 ops q"
  shows "\<exists>q'. cq_run p2 ops q = Inr q' \<and> cq_inv p2 q' \<and> cq_list q' = fold cq_spec ops (cq_list q)
    \<and> cq_size p2 q' = int (length (cq_list q')) \<and> (cq_empty q' \<longleftrightarrow> cq_list q' = []) \<and> (cq_full p2 q' \<longleftrightarrow> int (length (cq_list q')) + 1 = cq_capacity q')
    \<and> (\<forall>i < length (cq_list q'). cq_at p2 (int i) q' = cq_list q' ! i)
    \<and> (cq_list q' \<noteq> [] \<longrightarrow> cq_front q' = hd (cq_list q') \<and> cq_back p2 q' = last (cq_list q'))"
proof -
  from cqm.run_refines [OF assms] obtain q' where q': "cq_run p2 ops q = Inr q'" "cq_inv p2 q'" "cq_list q' = fold cq_spec ops (cq_list q)"
    by (cases "cq_run p2 ops q") auto
  note u = cq_queries [OF q'(2)]
  show ?thesis by (rule exI [of _ q']) (use q' u(1-3) u(4,5) in blast)
qed

theorem cq_run_refines_witness:
  "\<exists>q'. cq_run True [CQ_push_back 5, CQ_push_front 4, CQ_push_back (6 :: nat), CQ_pop_lower 0, CQ_pop_back]
      \<lparr>cq_vec = [0, 0, 0, 0], cq_head = 0, cq_tail = 0, cq_nlen = 4\<rparr> = Inr q' \<and> cq_list q' = [5]"
proof -
  have i: "cq_inv True \<lparr>cq_vec = [0 :: nat, 0, 0, 0], cq_head = 0, cq_tail = 0, cq_nlen = 4\<rparr>"
    by (auto simp: cq_inv_def intro: exI [of _ 2])
  have p: "cq_pre_run True [CQ_push_back 5, CQ_push_front 4, CQ_push_back (6 :: nat), CQ_pop_lower 0, CQ_pop_back]
      \<lparr>cq_vec = [0, 0, 0, 0], cq_head = 0, cq_tail = 0, cq_nlen = 4\<rparr>" by code_simp
  have "cq_list \<lparr>cq_vec = [0 :: nat, 0, 0, 0], cq_head = 0, cq_tail = 0, cq_nlen = 4\<rparr> = []" by (simp add: cq_list_def ring_def)
  with cq_run_refines [OF i p] show ?thesis by auto
qed

text \<open>C16. The growing queue: every sequence of operations keeps it well-formed and acts on its elements as the list operations do, doubling the capacity
  included, as long as no element is pushed to a full queue whose first element is at the begin of the array; what \<open>pop_front_val\<close>, \<open>pop_n\<close> and \<open>pop_all\<close> hand out are the elements in
  order (\<open>pop_all\<close>: of a queue that is not empty). Only a refused allocation fails.\<close>

theorem gq_run_refines:
  assumes "gq_inv q" and "gq_pre_run e ops q"
  shows "case gq_run e ops q of Inl err \<Rightarrow> err = Bad_alloc \<and> (\<exists>k. \<not> v_ok e k)
    | Inr q' \<Rightarrow> gq_inv q' \<and> gq_list q' = fold gq_spec ops (gq_list q) \<and> gq_size q' = length (gq_list q') \<and> fst (gq_pop_n n q') = take n (gq_list q')
        \<and> (gq_list q' \<noteq> [] \<longrightarrow> fst (gq_pop_front_val q') = hd (gq_list q') \<and> gq_front q' = hd (gq_list q') \<and> fst (gq_pop_all q') = gq_list q')"
proof -
  have out: "gq_size q = length (gq_list q) \<and> fst (gq_pop_n n q) = take n (gq_list q)
      \<and> (gq_list q \<noteq> [] \<longrightarrow> fst (gq_pop_front_val q) = hd (gq_list q) \<and> gq_front q = hd (gq_list q) \<and> fst (gq_pop_all q) = gq_list q)"
    if i: "gq_inv q" for q :: "'a AutoGrowCircularQueue"
  proof -
    obtain v h s where q: "q = gq_state v h s" and r: "ring_ok True v h s" using gq_inv_state [OF i] by blast
    have l: "gq_list q = ring v h s" "gq_size q = s" using gq_state_inv [OF r] gq_masks(1) [OF r] by (simp_all add: q)
    have "0 < s" if "gq_list q \<noteq> []" using that l by (simp flip: length_greater_0_conv)
    moreover have "gq_front q = fst (gq_pop_front_val q)" by (simp add: gq_front_def gq_pop_front_val_def)
    ultimately show ?thesis using gq_pops [OF r] l by (auto simp: q)
  qed
  from gqm.run_refines [OF assms] out show ?thesis by (auto simp: gq_fails_def split: sum.splits)
qed

theorem gq_run_refines_witness:
  "case gq_run \<lparr>v_ok = \<lambda>_. True, v_junk = \<lambda>_. 0\<rparr> [GQ_push_back (1 :: nat), GQ_pop_front, GQ_push_back 2, GQ_push_back 3] \<lparr>gq_vec = [0, 0], gq_cap = 2, gq_head = 0, gq_tail = 0\<rparr> of
     Inl err \<Rightarrow> False | Inr q' \<Rightarrow> gq_inv q' \<and> gq_list q' = [2, 3] \<and> fst (gq_pop_n 1 q') = [2]"
proof -
  have i: "gq_inv \<lparr>gq_vec = [0 :: nat, 0], gq_cap = 2, gq_head = 0, gq_tail = 0\<rparr>" by (auto simp: gq_inv_def intro: exI [of _ 1])
  have l: "gq_list \<lparr>gq_vec = [0 :: nat, 0], gq_cap = 2, gq_head = 0, gq_tail = 0\<rparr> = []" by (simp add: gq_list_def ring_def)
  have p: "gq_pre_run \<lparr>v_ok = \<lambda>_. True, v_junk = \<lambda>_. 0\<rparr> [GQ_push_back (1 :: nat), GQ_pop_front, GQ_push_back 2, GQ_push_back 3] \<lparr>gq_vec = [0, 0], gq_cap = 2, gq_head = 0, gq_tail = 0\<rparr>"
    by (simp add: gq_push_back_def gq_size_def size_sub_def Let_def gq_pop_front_def split: sum.splits)
  from gq_run_refines [OF i p, of 1] show ?thesis by (simp add: l del: gq_run.simps split: sum.splits)
qed

lemma gq_pushes_snoc: "gq_pushes e (xs @ [x]) q = (case gq_pushes e xs q of Inl err \<Rightarrow> Inl err | Inr q \<Rightarrow> gq_push_back e x q)"
  by (induction xs arbitrary: q) (simp_all split: sum.splits)

lemma gq_pushes_room:
  "ring_ok True v 0 s \<Longrightarrow> s + length xs < length v \<Longrightarrow>
    \<exists>w. gq_pushes e xs (gq_state v 0 s) = Inr (gq_state w 0 (s + length xs)) \<and> length w = length v \<and> ring_ok True w 0 (s + length xs)"
proof (induction xs arbitrary: v s)
  case (Cons x xs)
  define w where "w = v[(0 + s) mod length v := x]"
  have s: "Suc s < length v" using Cons.prems(2) by simp
  then have "ring_ok True w 0 (Suc s)" using Cons.prems(1) by (simp add: w_def ring_ok_def)
  from Cons.IH [OF this] Cons.prems(2) gq_push_back_ok(1) [OF Cons.prems(1) s, of e x] show ?case
    unfolding w_def [symmetric] by (simp add: w_def)
qed auto

text \<open>C39. Filling a new growing queue: after as many pushes as the capacity it was constructed with, the queue is empty. The last push finds the queue full with its first element at the begin of
  the array; doubling the capacity copies the elements once more behind themselves as if they had wrapped around, and the tail comes back to the head. And \<open>pop_all\<close> on a
  queue that is empty copies as many elements as the capacity to the output.\<close>

theorem gq_fill_empties:
  assumes "0 < k" and "k < 63" and "length xs = 2 ^ k" and ok: "\<forall>n. v_ok e n"
  shows "\<exists>q q'. gq_make e (2 ^ k) = Inr q \<and> gq_pushes e xs q = Inr q' \<and> gq_list q' = [] \<and> gq_cap q' = 2 ^ Suc k \<and> length (fst (gq_pop_all q)) = 2 ^ k"
proof -
  obtain ys y where xs: "xs = ys @ [y]" using assms(3) by (cases xs rule: rev_cases) auto
  define v where "v = map (v_junk e) [0..<2 ^ k]"
  have v: "length v = 2 ^ k" by (simp add: v_def)
  have mk: "gq_make e (2 ^ k) = Inr (gq_state v 0 0)" using gq_make_ok(1) [of k e] assms(2) ok by (simp add: v_def)
  have r: "ring_ok True v 0 0" using assms(2) v by (auto simp: ring_ok_def)
  have n: "Suc (length ys) = length v" using assms(3) v xs by simp
  from gq_pushes_room [OF r, of ys e] n obtain w where w: "gq_pushes e ys (gq_state v 0 0) = Inr (gq_state w 0 (length ys))"
    "length w = length v" "ring_ok True w 0 (length ys)" by auto
  have p: "1 < (2 :: nat) ^ k" "(2 :: nat) ^ k < 2 ^ 63" using one_less_power [of "2 :: nat" k] power_strict_increasing [of k 63 "2 :: nat"] assms(1,2) by simp_all
  then have b: "Suc (length ys) = length w" "1 < length w" "length w < 2 ^ 63" using n w(2) v by simp_all
  from gq_push_at_begin [OF w(3) b, of e y] ok obtain u where
    u: "gq_push_back_slow_path e y (gq_state w 0 (length ys)) = Inr (gq_state u 0 0)" "length u = 2 * length w" "ring_ok True u 0 0" by blast
  have "gq_pushes e xs (gq_state v 0 0) = Inr (gq_state u 0 0)"
    unfolding xs gq_pushes_snoc w(1) using gq_push_back_ok(3) [OF w(3) b(1,2), of e y] u(1) by simp
  moreover have "gq_list (gq_state u 0 0) = []" using gq_state_inv [OF u(3)] by (simp add: ring_def)
  moreover have "length (fst (gq_pop_all (gq_state v 0 0))) = 2 ^ k" using v by (simp add: gq_pop_all_def gq_state_def Let_def)
  ultimately show ?thesis using mk u(2) w(2) v by (auto simp: gq_sel)
qed

theorem gq_fill_empties_witness:
  "\<exists>q q'. gq_make \<lparr>v_ok = \<lambda>_. True, v_junk = \<lambda>_. 0\<rparr> 4 = Inr q \<and> gq_pushes \<lparr>v_ok = \<lambda>_. True, v_junk = \<lambda>_. 0\<rparr> [1, 2, 3, 4 :: nat] q = Inr q' \<and> gq_list q' = []"
  using gq_fill_empties [of 2 "[1, 2, 3, 4 :: nat]" "\<lparr>v_ok = \<lambda>_. True, v_junk = \<lambda>_. 0\<rparr>"] by auto

end
