(* ===== verification/IntVector.thy ===== *)
theory IntVector
  imports VarInt SearchAlgo
begin

text \<open>
  The packed integer vectors of \<open>src/src/terark/int_vector.hpp\<close> and \<open>int_vector.cpp\<close>: \<open>UintVecMin0Base\<close> holds \<open>m_size\<close>
  integers of \<open>m_bits\<close> bits each in a \<open>valvec<byte>\<close>; \<open>UintVecMin0\<close> reads them with one unaligned load (at most 58 bits),
  \<open>BigUintVecMin0\<close> through \<open>febitvec::s_get_uint\<close> (up to 64 bits), and \<open>ZipIntVector\<close> adds a minimum value. The products
  \<open>bits * num\<close> and \<open>num * 103\<close> are those of objects in memory and do not overflow.
\<close>

section \<open>A block of bytes as words\<close>

text \<open>\<open>(size_t*)m_data.data()\<close>: the words of a block of bytes, and the block after the words were changed.\<close>

definition words_of :: "u8 list \<Rightarrow> u64 list" where
  "words_of b = map (\<lambda>k. le_word (take 8 (drop (8 * k) b))) [0..<(length b + 7) div 8]"

definition poke_words :: "(u64 list \<Rightarrow> u64 list) \<Rightarrow> u8 list \<Rightarrow> u8 list" where
  "poke_words f b = map (get8 (f (words_of b))) [0..<length b]"

text \<open>\<open>unaligned_load<size_t>(data + p)\<close>.\<close>

definition unaligned_load :: "u8 list \<Rightarrow> nat \<Rightarrow> u64" where
  "unaligned_load b p = le_word (take 8 (drop p b))"

section \<open>\<open>UintVecMin0Base\<close>\<close>

record uintvec =
  uv_data :: "u8 valvec"
  uv_bits :: nat
  uv_mask :: u64
  uv_size :: nat

definition uv_nullize :: "uintvec \<Rightarrow> uintvec" where
  "uv_nullize v = v\<lparr>uv_bits := 0, uv_mask := 0, uv_size := 0\<rparr>"

definition uv_empty :: uintvec where
  "uv_empty = \<lparr>uv_data = vv_empty, uv_bits = 0, uv_mask = 0, uv_size = 0\<rparr>"

definition uv_clear :: "uintvec \<Rightarrow> uintvec" where
  "uv_clear v = uv_nullize (v\<lparr>uv_data := vv_clear (uv_data v)\<rparr>)"

definition uv_swap :: "uintvec \<Rightarrow> uintvec \<Rightarrow> uintvec \<times> uintvec" where
  "uv_swap x y =
     (let (dx, dy) = vv_swap (uv_data x) (uv_data y) in
      (\<lparr>uv_data = dx, uv_bits = uv_bits y, uv_mask = uv_mask y, uv_size = uv_size y\<rparr>,
       \<lparr>uv_data = dy, uv_bits = uv_bits x, uv_mask = uv_mask x, uv_size = uv_size x\<rparr>))"

definition uv_risk_release_ownership :: "uintvec \<Rightarrow> uintvec" where
  "uv_risk_release_ownership v = uv_nullize (v\<lparr>uv_data := vv_risk_release_ownership (uv_data v)\<rparr>)"

definition uv_risk_destroy :: "MemType \<Rightarrow> bool \<Rightarrow> uintvec \<Rightarrow> error + uintvec" where
  "uv_risk_destroy mt aligned v =
     (case vv_risk_destroy mt aligned (uv_data v) of
        Inl err \<Rightarrow> Inl err
      | Inr d \<Rightarrow> Inr (uv_nullize (v\<lparr>uv_data := d\<rparr>)))"

text \<open>\<open>& ~size_t(15)\<close> clears the low four bits.\<close>

definition uv_bytes :: "nat \<Rightarrow> nat \<Rightarrow> nat" where
  "uv_bytes bits num = (if num = 0 then 0 else (bits * num + 7) div 8 + 7 + 15) div 16 * 16"

definition uv_mask_of :: "nat \<Rightarrow> u64" where
  "uv_mask_of bits = (if 64 = bits then - 1 else push_bit bits 1 - 1)"

definition uv_risk_set_data :: "u8 list \<Rightarrow> nat \<Rightarrow> nat \<Rightarrow> uintvec \<Rightarrow> uintvec" where
  "uv_risk_set_data Data num bits v =
     \<lparr>uv_data = vv_risk_set_data Data (uv_bytes bits num) (uv_data v), uv_bits = bits, uv_mask = uv_mask_of bits, uv_size = num\<rparr>"

definition uv_mem_size :: "uintvec \<Rightarrow> nat" where
  "uv_mem_size v = vn (uv_data v)"

definition uv_resize :: "u8 venv \<Rightarrow> nat \<Rightarrow> uintvec \<Rightarrow> error + uintvec" where
  "uv_resize e newsize v =
     (case vv_resize_val e (uv_bytes (uv_bits v) newsize) 0 (uv_data v) of
        Inl err \<Rightarrow> Inl err
      | Inr d \<Rightarrow> Inr (v\<lparr>uv_data := d, uv_size := newsize\<rparr>))"

definition uv_shrink_to_fit :: "u8 venv \<Rightarrow> uintvec \<Rightarrow> error + uintvec" where
  "uv_shrink_to_fit e v =
     (case uv_resize e (uv_size v) v of
        Inl err \<Rightarrow> Inl err
      | Inr v \<Rightarrow> Inr (v\<lparr>uv_data := vv_shrink_to_fit e (uv_data v)\<rparr>))"

definition uv_set_wire :: "nat \<Rightarrow> u64 \<Rightarrow> uintvec \<Rightarrow> uintvec" where
  "uv_set_wire idx val v =
     (let bits = uv_bits v; bit_idx = bits * idx in
      v\<lparr>uv_data := upd_slots (poke_words (\<lambda>m. febitvec_s_set_uint m bit_idx bits val)) (uv_data v)\<rparr>)"

definition compute_mem_size :: "nat \<Rightarrow> nat \<Rightarrow> nat" where
  "compute_mem_size bits num =
     (let usingsize = (bits * num + 7) div 8; touchsize = usingsize + 8 - 1 in (touchsize + 15) div 16 * 16)"

function compute_uintbits_loop :: "nat \<Rightarrow> u64 \<Rightarrow> nat" where
  "compute_uintbits_loop bits value' =
     (if value' \<noteq> 0 then compute_uintbits_loop (bits + 1) (drop_bit 1 value') else bits)"
  by pat_completeness auto
termination
proof (relation "measure (\<lambda>(bits, value'). unat value')")
  fix bits and value' :: u64
  assume "value' \<noteq> 0"
  then have "0 < unat value'" by (simp add: unat_gt_0)
  then show "((bits + 1, drop_bit 1 value'), (bits, value')) \<in> measure (\<lambda>(bits, value'). unat value')"
    by (simp only: drop_bit_eq_div) (simp add: unat_div)
qed simp

declare compute_uintbits_loop.simps [simp del]

definition compute_uintbits :: "u64 \<Rightarrow> nat" where
  "compute_uintbits value' = compute_uintbits_loop 0 value'"

definition compute_mem_size_by_max_val :: "u64 \<Rightarrow> nat \<Rightarrow> nat" where
  "compute_mem_size_by_max_val max_val num = compute_mem_size (compute_uintbits max_val) num"

definition uv_resize_with_uintbits :: "u8 venv \<Rightarrow> nat \<Rightarrow> nat \<Rightarrow> uintvec \<Rightarrow> error + uintvec" where
  "uv_resize_with_uintbits e num bits v =
     (let v = (uv_clear v)\<lparr>uv_bits := bits, uv_mask := uv_mask_of bits, uv_size := num\<rparr> in
      if num \<noteq> 0 then
        case vv_resize_fill e 0 (compute_mem_size bits num) (uv_data v) of
          Inl err \<Rightarrow> Inl err
        | Inr d \<Rightarrow> Inr (v\<lparr>uv_data := d\<rparr>)
      else Inr v)"

definition uv_resize_with_wire_max_val :: "u8 venv \<Rightarrow> nat \<Rightarrow> u64 \<Rightarrow> uintvec \<Rightarrow> error + uintvec" where
  "uv_resize_with_wire_max_val e num max_val v = uv_resize_with_uintbits e num (compute_uintbits max_val) v"

definition uv_make :: "u8 venv \<Rightarrow> nat \<Rightarrow> u64 \<Rightarrow> error + uintvec" where
  "uv_make e num max_val = uv_resize_with_wire_max_val e num max_val uv_empty"

section \<open>Reading\<close>

definition u0_fast_get :: "u8 list \<Rightarrow> nat \<Rightarrow> u64 \<Rightarrow> nat \<Rightarrow> u64" where
  "u0_fast_get data bits msk idx =
     (let bit_idx = bits * idx;
          byte_idx = bit_idx div 8;
          val = unaligned_load data byte_idx
      in drop_bit (bit_idx mod 8) val AND msk)"

definition u0_get :: "uintvec \<Rightarrow> nat \<Rightarrow> u64" where
  "u0_get v idx = u0_fast_get (vdata (uv_data v)) (uv_bits v) (uv_mask v) idx"

definition u0_get2 :: "uintvec \<Rightarrow> nat \<Rightarrow> u64 \<times> u64" where
  "u0_get2 v idx =
     (let data = vdata (uv_data v); bits = uv_bits v; msk = uv_mask v in
      (u0_fast_get data bits msk idx, u0_fast_get data bits msk (idx + 1)))"

definition u0_back :: "uintvec \<Rightarrow> u64" where
  "u0_back v = u0_get v (uv_size v - 1)"

definition u0_risk_set_data :: "u8 list \<Rightarrow> nat \<Rightarrow> nat \<Rightarrow> uintvec \<Rightarrow> error + uintvec" where
  "u0_risk_set_data Data num bits v = (if 58 < bits then Inl Logic_error else Inr (uv_risk_set_data Data num bits v))"

definition bu_fast_get :: "u8 list \<Rightarrow> nat \<Rightarrow> nat \<Rightarrow> u64" where
  "bu_fast_get data bits idx = (let bitpos = bits * idx in febitvec_s_get_uint (words_of data) bitpos bits)"

definition bu_get :: "uintvec \<Rightarrow> nat \<Rightarrow> u64" where
  "bu_get v idx =
     (let bits = uv_bits v; pos = bits * idx in febitvec_s_get_uint (words_of (vdata (uv_data v))) pos bits)"

definition bu_get2 :: "uintvec \<Rightarrow> nat \<Rightarrow> u64 \<times> u64" where
  "bu_get2 v idx =
     (let data = words_of (vdata (uv_data v)); bits = uv_bits v; pos = bits * idx in
      (febitvec_s_get_uint data pos bits, febitvec_s_get_uint data (pos + bits) bits))"

definition bu_back :: "uintvec \<Rightarrow> u64" where
  "bu_back v = bu_get v (uv_size v - 1)"

section \<open>Appending\<close>

text \<open>\<open>for (i = 0; i < num; ++i) tmp.set_wire(i, get(i))\<close>.\<close>

definition uv_copy_wires :: "(nat \<Rightarrow> u64) \<Rightarrow> nat \<Rightarrow> uintvec \<Rightarrow> uintvec" where
  "uv_copy_wires g num tmp = fold (\<lambda>i. uv_set_wire i (g i)) [0..<num] tmp"

text \<open>\<open>TERARK_VERIFY_AL\<close>, \<open>TERARK_VERIFY_LT\<close> and the write of the new element.\<close>

definition uv_push_verified :: "u64 \<Rightarrow> uintvec \<Rightarrow> error + uintvec" where
  "uv_push_verified val v =
     (if vn (uv_data v) mod 16 \<noteq> 0 then Inl Abort
      else if \<not> compute_mem_size (uv_bits v) (uv_size v + 1) < vn (uv_data v) then Inl Abort
      else Inr ((uv_set_wire (uv_size v) val v)\<lparr>uv_size := uv_size v + 1\<rparr>))"

definition uv_push_back_slow_path :: "u8 venv \<Rightarrow> u64 \<Rightarrow> uintvec \<Rightarrow> error + uintvec" where
  "uv_push_back_slow_path e val v =
     (if uv_mask v < val then
        let num = uv_size v in
        case uv_make e (max (num + 1) (num * 103 div 64)) val of
          Inl err \<Rightarrow> Inl err
        | Inr tmp \<Rightarrow>
            let d = vdata (uv_data v); b = uv_bits v;
                tmp = (if b \<le> 58 then uv_copy_wires (u0_fast_get d b (uv_mask v)) num tmp
                       else uv_copy_wires (bu_fast_get d b) num tmp);
                tmp = tmp\<lparr>uv_size := num\<rparr>;
                (v, tmp) = uv_swap v tmp
            in uv_push_verified val v
      else
        case vv_resize e 0 (max 32 (align_up (vn (uv_data v) * 103 div 64) 16)) (uv_data v) of
          Inl err \<Rightarrow> Inl err
        | Inr d \<Rightarrow> uv_push_verified val (v\<lparr>uv_data := d\<rparr>))"

definition uv_push_back :: "u8 venv \<Rightarrow> u64 \<Rightarrow> uintvec \<Rightarrow> error + uintvec" where
  "uv_push_back e val v =
     (if compute_mem_size (uv_bits v) (uv_size v + 1) < vn (uv_data v) \<and> val \<le> uv_mask v then
        Inr ((uv_set_wire (uv_size v) val v)\<lparr>uv_size := uv_size v + 1\<rparr>)
      else uv_push_back_slow_path e val v)"

section \<open>Building from an array of integers\<close>

text \<open>The integer types of the templates: the values of \<open>Int\<close> are mathematical integers in its range. Types below 32 bits
  are promoted to \<open>int\<close> in a subtraction; a signed subtraction that leaves the range of its type is undefined.\<close>

record cint =
  ci_signed :: bool
  ci_width :: nat

abbreviation Size_t :: cint where "Size_t \<equiv> \<lparr>ci_signed = False, ci_width = 64\<rparr>"
abbreviation Intptr_t :: cint where "Intptr_t \<equiv> \<lparr>ci_signed = True, ci_width = 64\<rparr>"

definition ci_cast :: "cint \<Rightarrow> int \<Rightarrow> int" where
  "ci_cast t x =
     (let r = x mod 2 ^ ci_width t in if ci_signed t \<and> 2 ^ (ci_width t - 1) \<le> r then r - 2 ^ ci_width t else r)"

definition ci_sub :: "cint \<Rightarrow> int \<Rightarrow> int \<Rightarrow> error + int" where
  "ci_sub t a b =
     (if ci_width t < 32 then Inr (a - b)
      else if ci_signed t then if ci_cast t (a - b) = a - b then Inr (a - b) else Inl Undefined
      else Inr ((a - b) mod 2 ^ ci_width t))"

text \<open>\<open>Uint(x)\<close>, widened to 64 bits.\<close>

definition ci_uint :: "cint \<Rightarrow> int \<Rightarrow> u64" where
  "ci_uint t x = word_of_int (x mod 2 ^ ci_width t)"

definition min_max :: "int list \<Rightarrow> int \<Rightarrow> int \<Rightarrow> int \<times> int" where
  "min_max xs mn mx =
     fold (\<lambda>x (mn, mx). let mx = (if mx < x then x else mx); mn = (if x < mn then x else mn) in (mn, mx)) xs (mn, mx)"

fun uv_wire_loop :: "cint \<Rightarrow> int \<Rightarrow> nat \<Rightarrow> int list \<Rightarrow> uintvec \<Rightarrow> error + uintvec" where
  "uv_wire_loop t min_val i [] v = Inr v"
| "uv_wire_loop t min_val i (x # xs) v =
     (case ci_sub t x min_val of
        Inl err \<Rightarrow> Inl err
      | Inr d \<Rightarrow> uv_wire_loop t min_val (Suc i) xs (uv_set_wire i (ci_uint t d) v))"

definition uv_build_from :: "u8 venv \<Rightarrow> cint \<Rightarrow> int list \<Rightarrow> uintvec \<Rightarrow> error + int \<times> uintvec" where
  "uv_build_from e t src v =
     (case src of
        [] \<Rightarrow> Inr (0, uv_clear v)
      | s0 # rest \<Rightarrow>
          let (min_val, max_val) = min_max rest s0 s0 in
          case ci_sub t max_val min_val of
            Inl err \<Rightarrow> Inl err
          | Inr d \<Rightarrow>
              let wire_max = ci_uint t d in
              case uv_resize_with_wire_max_val e (length src) wire_max v of
                Inl err \<Rightarrow> Inl err
              | Inr v \<Rightarrow>
                  case uv_wire_loop t min_val 0 src v of Inl err \<Rightarrow> Inl err | Inr v \<Rightarrow> Inr (min_val, v))"

section \<open>Searching\<close>

text \<open>The loops over the elements read by \<open>g\<close>.\<close>

function uv_lower_loop :: "(nat \<Rightarrow> u64) \<Rightarrow> u64 \<Rightarrow> nat \<Rightarrow> nat \<Rightarrow> nat" where
  "uv_lower_loop g key lo hi =
     (if lo < hi then
        let mid_idx = (lo + hi) div 2 in
        if g mid_idx < key then uv_lower_loop g key (mid_idx + 1) hi else uv_lower_loop g key lo mid_idx
      else lo)"
  by pat_completeness auto
termination
  by (relation "measure (\<lambda>(g, key, lo, hi). hi - lo)") auto

declare uv_lower_loop.simps [simp del]

function uv_upper_loop :: "(nat \<Rightarrow> u64) \<Rightarrow> u64 \<Rightarrow> nat \<Rightarrow> nat \<Rightarrow> nat" where
  "uv_upper_loop g key lo hi =
     (if lo < hi then
        let mid_idx = (lo + hi) div 2 in
        if g mid_idx \<le> key then uv_upper_loop g key (mid_idx + 1) hi else uv_upper_loop g key lo mid_idx
      else lo)"
  by pat_completeness auto
termination
  by (relation "measure (\<lambda>(g, key, lo, hi). hi - lo)") auto

declare uv_upper_loop.simps [simp del]

function uv_range_loop :: "(nat \<Rightarrow> u64) \<Rightarrow> u64 \<Rightarrow> nat \<Rightarrow> nat \<Rightarrow> nat \<times> nat" where
  "uv_range_loop g key lo hi =
     (if lo < hi then
        let mid_idx = (lo + hi) div 2 in
        if g mid_idx < key then uv_range_loop g key (mid_idx + 1) hi
        else if key < g mid_idx then uv_range_loop g key lo mid_idx
        else (uv_lower_loop g key lo mid_idx, uv_upper_loop g key (mid_idx + 1) hi)
      else (lo, lo))"
  by pat_completeness auto
termination
  by (relation "measure (\<lambda>(g, key, lo, hi). hi - lo)") auto

declare uv_range_loop.simps [simp del]

definition u0_equal_range :: "uintvec \<Rightarrow> nat \<Rightarrow> nat \<Rightarrow> u64 \<Rightarrow> nat \<times> nat" where
  "u0_equal_range v lo hi key = uv_range_loop (u0_fast_get (vdata (uv_data v)) (uv_bits v) (uv_mask v)) key lo hi"
definition u0_lower_bound :: "uintvec \<Rightarrow> nat \<Rightarrow> nat \<Rightarrow> u64 \<Rightarrow> nat" where
  "u0_lower_bound v lo hi key = uv_lower_loop (u0_fast_get (vdata (uv_data v)) (uv_bits v) (uv_mask v)) key lo hi"
definition u0_upper_bound :: "uintvec \<Rightarrow> nat \<Rightarrow> nat \<Rightarrow> u64 \<Rightarrow> nat" where
  "u0_upper_bound v lo hi key = uv_upper_loop (u0_fast_get (vdata (uv_data v)) (uv_bits v) (uv_mask v)) key lo hi"
definition u0_equal_range_all :: "uintvec \<Rightarrow> u64 \<Rightarrow> nat \<times> nat" where
  "u0_equal_range_all v key = u0_equal_range v 0 (uv_size v) key"
definition u0_lower_bound_all :: "uintvec \<Rightarrow> u64 \<Rightarrow> nat" where
  "u0_lower_bound_all v key = u0_lower_bound v 0 (uv_size v) key"
definition u0_upper_bound_all :: "uintvec \<Rightarrow> u64 \<Rightarrow> nat" where
  "u0_upper_bound_all v key = u0_upper_bound v 0 (uv_size v) key"

definition bu_equal_range :: "uintvec \<Rightarrow> nat \<Rightarrow> nat \<Rightarrow> u64 \<Rightarrow> nat \<times> nat" where
  "bu_equal_range v lo hi key = uv_range_loop (bu_fast_get (vdata (uv_data v)) (uv_bits v)) key lo hi"
definition bu_lower_bound :: "uintvec \<Rightarrow> nat \<Rightarrow> nat \<Rightarrow> u64 \<Rightarrow> nat" where
  "bu_lower_bound v lo hi key = uv_lower_loop (bu_fast_get (vdata (uv_data v)) (uv_bits v)) key lo hi"
definition bu_upper_bound :: "uintvec \<Rightarrow> nat \<Rightarrow> nat \<Rightarrow> u64 \<Rightarrow> nat" where
  "bu_upper_bound v lo hi key = uv_upper_loop (bu_fast_get (vdata (uv_data v)) (uv_bits v)) key lo hi"
definition bu_equal_range_all :: "uintvec \<Rightarrow> u64 \<Rightarrow> nat \<times> nat" where
  "bu_equal_range_all v key = bu_equal_range v 0 (uv_size v) key"
definition bu_lower_bound_all :: "uintvec \<Rightarrow> u64 \<Rightarrow> nat" where
  "bu_lower_bound_all v key = bu_lower_bound v 0 (uv_size v) key"
definition bu_upper_bound_all :: "uintvec \<Rightarrow> u64 \<Rightarrow> nat" where
  "bu_upper_bound_all v key = bu_upper_bound v 0 (uv_size v) key"

section \<open>\<open>ZipIntVector\<close>\<close>

record zipvec =
  zv_base :: uintvec
  zv_min :: int

definition zv_empty :: zipvec where
  "zv_empty = \<lparr>zv_base = uv_empty, zv_min = 0\<rparr>"

text \<open>The template parameters are \<open>t\<close> for \<open>Int\<close> and \<open>t2\<close> for \<open>Int2\<close>; \<open>size_t(max_val - min_val)\<close> sign-extends.\<close>

definition zv_make :: "u8 venv \<Rightarrow> cint \<Rightarrow> cint \<Rightarrow> nat \<Rightarrow> int \<Rightarrow> int \<Rightarrow> error + zipvec" where
  "zv_make e t t2 num min_val max_val =
     (case ci_sub t2 max_val min_val of
        Inl err \<Rightarrow> Inl err
      | Inr d \<Rightarrow>
          case uv_resize_with_wire_max_val e num (word_of_int d) uv_empty of
            Inl err \<Rightarrow> Inl err
          | Inr v \<Rightarrow> Inr \<lparr>zv_base = v, zv_min = ci_cast t min_val\<rparr>)"

definition zv_swap :: "zipvec \<Rightarrow> zipvec \<Rightarrow> zipvec \<times> zipvec" where
  "zv_swap x y =
     (let (bx, bz) = uv_swap (zv_base x) (zv_base y) in
      (\<lparr>zv_base = bx, zv_min = zv_min y\<rparr>, \<lparr>zv_base = bz, zv_min = zv_min x\<rparr>))"

definition zv_set :: "cint \<Rightarrow> nat \<Rightarrow> int \<Rightarrow> zipvec \<Rightarrow> error + zipvec" where
  "zv_set t idx val z =
     (case ci_sub t val (zv_min z) of
        Inl err \<Rightarrow> Inl err
      | Inr d \<Rightarrow> Inr (z\<lparr>zv_base := uv_set_wire idx (word_of_int d) (zv_base z)\<rparr>))"

definition zv_fast_get :: "cint \<Rightarrow> u8 list \<Rightarrow> nat \<Rightarrow> u64 \<Rightarrow> u64 \<Rightarrow> nat \<Rightarrow> int" where
  "zv_fast_get t data bits msk minVal idx = ci_cast t (uint (minVal + u0_fast_get data bits msk idx))"

definition zv_get :: "cint \<Rightarrow> zipvec \<Rightarrow> nat \<Rightarrow> int" where
  "zv_get t z idx =
     zv_fast_get t (vdata (uv_data (zv_base z))) (uv_bits (zv_base z)) (uv_mask (zv_base z)) (word_of_int (zv_min z)) idx"

definition zv_get2 :: "cint \<Rightarrow> zipvec \<Rightarrow> nat \<Rightarrow> int \<times> int" where
  "zv_get2 t z idx =
     (let data = vdata (uv_data (zv_base z)); bits = uv_bits (zv_base z); msk = uv_mask (zv_base z);
          minVal = word_of_int (zv_min z)
      in (zv_fast_get t data bits msk minVal idx, zv_fast_get t data bits msk minVal (idx + 1)))"

definition zv_risk_set_data :: "cint \<Rightarrow> u8 list \<Rightarrow> nat \<Rightarrow> int \<Rightarrow> nat \<Rightarrow> zipvec \<Rightarrow> error + zipvec" where
  "zv_risk_set_data t Data num min_val bits z =
     (case u0_risk_set_data Data num bits (zv_base z) of
        Inl err \<Rightarrow> Inl err
      | Inr v \<Rightarrow> Inr (z\<lparr>zv_base := v, zv_min := ci_cast t min_val\<rparr>))"

definition zv_build_from :: "u8 venv \<Rightarrow> cint \<Rightarrow> cint \<Rightarrow> int list \<Rightarrow> zipvec \<Rightarrow> error + zipvec" where
  "zv_build_from e t t2 src z =
     (case uv_build_from e t2 src (zv_base z) of
        Inl err \<Rightarrow> Inl err
      | Inr (m, v) \<Rightarrow> Inr (z\<lparr>zv_base := v, zv_min := ci_cast t m\<rparr>))"

text \<open>\<open>m_min_val < key\<close> compares after the conversion of \<open>m_min_val\<close> to \<open>size_t\<close>.\<close>

definition zv_equal_range :: "zipvec \<Rightarrow> nat \<Rightarrow> nat \<Rightarrow> u64 \<Rightarrow> nat \<times> nat" where
  "zv_equal_range z lo hi key =
     (if word_of_int (zv_min z) < key then u0_equal_range (zv_base z) lo hi (key - word_of_int (zv_min z)) else (lo, lo))"
definition zv_lower_bound :: "zipvec \<Rightarrow> nat \<Rightarrow> nat \<Rightarrow> u64 \<Rightarrow> nat" where
  "zv_lower_bound z lo hi key =
     (if word_of_int (zv_min z) < key then u0_lower_bound (zv_base z) lo hi (key - word_of_int (zv_min z)) else lo)"
definition zv_upper_bound :: "zipvec \<Rightarrow> nat \<Rightarrow> nat \<Rightarrow> u64 \<Rightarrow> nat" where
  "zv_upper_bound z lo hi key =
     (if word_of_int (zv_min z) < key then u0_upper_bound (zv_base z) lo hi (key - word_of_int (zv_min z)) else lo)"
definition zv_equal_range_all :: "zipvec \<Rightarrow> u64 \<Rightarrow> nat \<times> nat" where
  "zv_equal_range_all z key = zv_equal_range z 0 (uv_size (zv_base z)) key"
definition zv_lower_bound_all :: "zipvec \<Rightarrow> u64 \<Rightarrow> nat" where
  "zv_lower_bound_all z key = zv_lower_bound z 0 (uv_size (zv_base z)) key"
definition zv_upper_bound_all :: "zipvec \<Rightarrow> u64 \<Rightarrow> nat" where
  "zv_upper_bound_all z key = zv_upper_bound z 0 (uv_size (zv_base z)) key"

section \<open>Invariant and abstract value\<close>

text \<open>\<open>bbit b i\<close> is bit \<open>i\<close> of a block of bytes; \<open>wire b bits idx\<close> the integer of \<open>bits\<close> bits with index \<open>idx\<close>.\<close>

definition bbit :: "u8 list \<Rightarrow> nat \<Rightarrow> bool" where
  "bbit b i = bit (b ! (i div 8)) (i mod 8)"

definition wire :: "u8 list \<Rightarrow> nat \<Rightarrow> nat \<Rightarrow> u64" where
  "wire b bits idx = horner_sum of_bool 2 (map (\<lambda>i. bbit b (bits * idx + i)) [0..<bits])"

definition uv_wires :: "uintvec \<Rightarrow> u64 list" where
  "uv_wires v = map (wire (vdata (uv_data v)) (uv_bits v)) [0..<uv_size v]"

definition uv_inv :: "uintvec \<Rightarrow> bool" where
  "uv_inv v \<longleftrightarrow> vv_inv (uv_data v) \<and> uv_bits v \<le> 64 \<and> uv_mask v = uv_mask_of (uv_bits v) \<and> 16 dvd vn (uv_data v)
     \<and> (uv_size v \<noteq> 0 \<longrightarrow> compute_mem_size (uv_bits v) (uv_size v) \<le> vn (uv_data v))"

text \<open>The operations as commands, their preconditions (the asserts; a \<open>resize\<close> that grows leaves the new elements to what the
  block held, so the commands only shrink), their execution and their meaning on the width and the list of elements.\<close>

datatype uv_op =
    UClear | UResize nat | UShrink | UResize_bits nat nat | UResize_max nat u64 | USet nat u64 | UPush u64

fun uv_pre :: "uv_op \<Rightarrow> uintvec \<Rightarrow> bool" where
  "uv_pre (UResize n) v \<longleftrightarrow> n \<le> uv_size v"
| "uv_pre (UResize_bits num bits) v \<longleftrightarrow> bits \<le> 64"
| "uv_pre (USet i x) v \<longleftrightarrow> i < uv_size v \<and> x \<le> uv_mask v"
| "uv_pre _ v \<longleftrightarrow> True"

fun uv_exec :: "u8 venv \<Rightarrow> uv_op \<Rightarrow> uintvec \<Rightarrow> error + uintvec" where
  "uv_exec e UClear v = Inr (uv_clear v)"
| "uv_exec e (UResize n) v = uv_resize e n v"
| "uv_exec e UShrink v = uv_shrink_to_fit e v"
| "uv_exec e (UResize_bits num bits) v = uv_resize_with_uintbits e num bits v"
| "uv_exec e (UResize_max num x) v = uv_resize_with_wire_max_val e num x v"
| "uv_exec e (USet i x) v = Inr (uv_set_wire i x v)"
| "uv_exec e (UPush x) v = uv_push_back e x v"

fun uv_spec :: "uv_op \<Rightarrow> nat \<times> u64 list \<Rightarrow> nat \<times> u64 list" where
  "uv_spec UClear (b, xs) = (0, [])"
| "uv_spec (UResize n) (b, xs) = (b, take n xs)"
| "uv_spec UShrink (b, xs) = (b, xs)"
| "uv_spec (UResize_bits num bits) (b, xs) = (bits, replicate num 0)"
| "uv_spec (UResize_max num x) (b, xs) = (compute_uintbits x, replicate num 0)"
| "uv_spec (USet i x) (b, xs) = (b, xs[i := x])"
| "uv_spec (UPush x) (b, xs) = (if take_bit b x = x then b else compute_uintbits x, xs @ [x])"

fun uv_run :: "u8 venv \<Rightarrow> uv_op list \<Rightarrow> uintvec \<Rightarrow> error + uintvec" where
  "uv_run e [] v = Inr v"
| "uv_run e (a # ops) v = (case uv_exec e a v of Inl err \<Rightarrow> Inl err | Inr v' \<Rightarrow> uv_run e ops v')"

fun uv_pre_run :: "u8 venv \<Rightarrow> uv_op list \<Rightarrow> uintvec \<Rightarrow> bool" where
  "uv_pre_run e [] v = True"
| "uv_pre_run e (a # ops) v = (uv_pre a v \<and> (case uv_exec e a v of Inl err \<Rightarrow> True | Inr v' \<Rightarrow> uv_pre_run e ops v'))"

definition uv_abs :: "uintvec \<Rightarrow> nat \<times> u64 list" where
  "uv_abs v = (uv_bits v, uv_wires v)"

text \<open>\<open>uv_ok r n xs\<close>: if the operation returned, the vector is well formed and holds \<open>xs\<close> with \<open>n\<close> bits each.\<close>

definition uv_ok :: "error + uintvec \<Rightarrow> nat \<Rightarrow> u64 list \<Rightarrow> bool" where
  "uv_ok r n xs \<longleftrightarrow> (\<forall>v'. r = Inr v' \<longrightarrow> uv_inv v' \<and> uv_bits v' = n \<and> uv_wires v' = xs)"

text \<open>The size of the block after a slow path that keeps the width.\<close>

definition uv_grown :: "nat \<Rightarrow> nat" where
  "uv_grown n = max 32 (align_up (n * 103 div 64) 16)"

text \<open>The copy into a wider vector: \<open>uv_widened\<close> is the vector the slow path continues with.\<close>

definition uv_widened :: "uintvec \<Rightarrow> uintvec \<Rightarrow> uintvec" where
  "uv_widened v tmp =
     (let d = vdata (uv_data v); b = uv_bits v; num = uv_size v in
      (if b \<le> 58 then uv_copy_wires (u0_fast_get d b (uv_mask v)) num tmp else uv_copy_wires (bu_fast_get d b) num tmp)
        \<lparr>uv_size := num\<rparr>)"

text \<open>\<open>uv_push_stuck x v\<close>: the slow path ends in a failed \<open>TERARK_VERIFY_LT\<close>.\<close>

definition uv_push_stuck :: "u64 \<Rightarrow> uintvec \<Rightarrow> bool" where
  "uv_push_stuck x v \<longleftrightarrow>
     (if x \<le> uv_mask v then vn (uv_data v) = 16 \<and> 32 \<le> compute_mem_size (uv_bits v) (uv_size v + 1)
      else compute_mem_size (compute_uintbits x) (uv_size v * 103 div 64) \<le> compute_mem_size (compute_uintbits x) (uv_size v + 1))"

text \<open>A well-formed integer type, its values, and when the spread of an array can be computed.\<close>

definition ci_wf :: "cint \<Rightarrow> bool" where
  "ci_wf t \<longleftrightarrow> 0 < ci_width t \<and> ci_width t \<le> 64"

definition ci_ok :: "cint \<Rightarrow> int \<Rightarrow> bool" where
  "ci_ok t x \<longleftrightarrow> (if ci_signed t then - (2 ^ (ci_width t - 1)) \<le> x \<and> x < 2 ^ (ci_width t - 1) else 0 \<le> x \<and> x < 2 ^ ci_width t)"

definition ci_spread_ok :: "cint \<Rightarrow> int list \<Rightarrow> bool" where
  "ci_spread_ok t src \<longleftrightarrow> (ci_signed t \<and> 32 \<le> ci_width t \<longrightarrow> (\<forall>x \<in> set src. \<forall>y \<in> set src. x - y < 2 ^ (ci_width t - 1)))"

text \<open>The result of a build: \<open>m\<close> is the least element and each element is stored as its distance from it.\<close>

definition uv_built :: "int list \<Rightarrow> int \<times> uintvec \<Rightarrow> bool" where
  "uv_built src r \<longleftrightarrow> (case r of (m, v) \<Rightarrow>
     uv_inv v \<and> uv_wires v = map (\<lambda>x. word_of_int (x - m)) src \<and> (\<forall>x \<in> set src. m \<le> x \<and> x - m < 2 ^ 64)
     \<and> (src \<noteq> [] \<longrightarrow> m \<in> set src) \<and> (\<forall>k. (\<forall>x \<in> set src. x - m < 2 ^ k) \<longrightarrow> uv_bits v \<le> k))"

definition uvenv0 :: "u8 venv" where
  "uvenv0 = \<lparr>v_ok = (\<lambda>_. True), v_junk = (\<lambda>_. 0xA5)\<rparr>"

definition uv_sample :: uintvec where
  "uv_sample = \<lparr>uv_data = \<lparr>vp = Some (replicate 16 0xC7), vn = 16, vc = 16\<rparr>, uv_bits = 5, uv_mask = 31, uv_size = 3\<rparr>"

definition uv_wide_sample :: uintvec where
  "uv_wide_sample = \<lparr>uv_data = \<lparr>vp = Some (replicate 64 0xFF), vn = 64, vc = 64\<rparr>, uv_bits = 59, uv_mask = mask 59, uv_size = 6\<rparr>"

section \<open>Bits of bytes and words\<close>

lemma bit_le_word:
  "bit (le_word bs :: 'a::len word) i \<longleftrightarrow> i < LENGTH('a) \<and> i div 8 < length bs \<and> bit (bs ! (i div 8)) (i mod 8)"
proof (induction bs arbitrary: i)
  case (Cons b bs)
  show ?case
  proof (cases "i < 8")
    case True
    then show ?thesis by (auto simp: bit_simps dest: bit_imp_le_length)
  next
    case False
    then obtain j where j: "i = j + 8" using le_Suc_ex [of 8 i] by (auto simp: add.commute)
    have "\<not> bit b i" using False by (auto dest: bit_imp_le_length)
    moreover have "i div 8 = Suc (j div 8)" "i mod 8 = j mod 8" by (simp_all add: j)
    ultimately show ?thesis using Cons.IH [of j] by (auto simp: bit_simps j)
  qed
qed simp

lemma length_words_of [simp]: "length (words_of b) = (length b + 7) div 8"
  by (simp add: words_of_def)

lemma mbit_words_of: "i < 8 * length b \<Longrightarrow> mbit (words_of b) i = bbit b i"
proof -
  assume i: "i < 8 * length b"
  define k where "k = i div 64"
  define r where "r = i mod 64"
  have ik: "i = 64 * k + r" "r < 64" by (simp_all add: k_def r_def)
  have d: "i div 8 = 8 * k + r div 8" "i mod 8 = r mod 8"
    unfolding ik(1) using div_mult_self4 [of 8 "r" "8 * k"] by (simp_all add: div_add1_eq mod_add_left_eq [symmetric])
  have kl: "k < (length b + 7) div 8" using i ik by linarith
  have rl: "8 * k + r div 8 < length b" using i unfolding d(1) [symmetric] by linarith
  have r8: "r div 8 < 8" using ik(2) by linarith
  have "mbit (words_of b) i = bit (le_word (take 8 (drop (8 * k) b)) :: u64) r"
    unfolding mbit_def k_def [symmetric] r_def [symmetric] using kl by (simp add: words_of_def)
  also have "\<dots> = bit (b ! (8 * k + r div 8)) (r mod 8)"
    using ik(2) rl r8 by (auto simp: bit_le_word)
  finally show ?thesis by (simp add: bbit_def d)
qed

lemma length_poke_words [simp]: "length (poke_words f b) = length b"
  by (simp add: poke_words_def)

lemma bbit_poke_words: "i < 8 * length b \<Longrightarrow> bbit (poke_words f b) i = mbit (f (words_of b)) i"
proof -
  assume i: "i < 8 * length b"
  then have "i div 8 < length b" by linarith
  then have "bbit (poke_words f b) i = (i mod 8 < 8 \<and> mbit (f (words_of b)) (8 * (i div 8) + i mod 8))"
    unfolding bbit_def poke_words_def by (simp add: bit_views(2))
  then show ?thesis by simp
qed

lemma bbit_set_uint:
  fixes val :: u64
  assumes "w \<le> 64" and "take_bit w val = val" and "bp + w \<le> 8 * length b" and i: "i < 8 * length b"
  shows "bbit (poke_words (\<lambda>m. febitvec_s_set_uint m bp w val) b) i =
    (if bp \<le> i \<and> i < bp + w then bit val (i - bp) else bbit b i)"
proof -
  have "8 * length b \<le> 64 * length (words_of b)" unfolding length_words_of by linarith
  then have "bp + w \<le> 64 * length (words_of b)" using assms(3) by linarith
  from mbit_s_set_uint [OF _ _ assms(2) this] assms(1) show ?thesis
    by (simp add: bbit_poke_words [OF i] mbit_words_of [OF i])
qed

lemma bit_wire: "bits \<le> 64 \<Longrightarrow> bit (wire b bits idx) i \<longleftrightarrow> i < bits \<and> bbit b (bits * idx + i)"
  by (auto simp: wire_def bit_horner_sum_bit_word_iff)

lemma wire_cong:
  "(\<And>i. bits * idx \<le> i \<Longrightarrow> i < bits * idx + bits \<Longrightarrow> bbit b i = bbit b' i) \<Longrightarrow> wire b bits idx = wire b' bits idx"
  unfolding wire_def by (rule arg_cong [of _ _ "horner_sum of_bool 2"]) simp

lemma wire_eqI:
  fixes x :: u64
  assumes "bits \<le> 64" and "take_bit bits x = x" and "\<And>i. i < bits \<Longrightarrow> bbit b (bits * idx + i) = bit x i"
  shows "wire b bits idx = x"
  using assms by (intro bit_word_eqI) (auto simp: bit_wire dest: take_bit_bound)

text \<open>Indices below the size stay inside the bytes in use.\<close>

lemma wire_end: "idx < n \<Longrightarrow> bits * idx + bits \<le> bits * (n::nat)"
  using mult_le_mono2 [of "Suc idx" n bits] by (simp add: ac_simps)

lemma mask_of_eq: "bits \<le> 64 \<Longrightarrow> uv_mask_of bits = mask bits"
  by (cases "bits = 64") (simp_all add: uv_mask_of_def mask_eq_exp_minus_1 push_bit_eq_mult)

lemma le_mask_of: "bits \<le> 64 \<Longrightarrow> x \<le> uv_mask_of bits \<longleftrightarrow> take_bit bits x = (x :: u64)"
proof -
  assume "bits \<le> 64"
  have u: "unat (mask bits :: u64) = mask bits" using \<open>bits \<le> 64\<close> by (intro bit_eqI) (auto simp: bit_simps)
  have "x \<le> mask bits \<longleftrightarrow> unat x \<le> mask bits" by (simp add: word_le_nat_alt u)
  also have "\<dots> \<longleftrightarrow> unat x < 2 ^ bits" by (simp add: mask_eq_exp_minus_1 less_eq_iff_succ_less)
  also have "\<dots> \<longleftrightarrow> take_bit bits (unat x) = unat x" by (simp add: take_bit_nat_eq_self_iff)
  also have "\<dots> \<longleftrightarrow> take_bit bits x = x" by (metis unsigned_take_bit_eq unsigned_word_eqI)
  finally show ?thesis using \<open>bits \<le> 64\<close> by (simp add: mask_of_eq)
qed

lemma le_mask_of_iff: "bits < 64 \<Longrightarrow> x \<le> uv_mask_of bits \<longleftrightarrow> unat (x :: u64) < 2 ^ bits"
  using le_mask_of [of bits x] by (metis less_imp_le take_bit_nat_eq_self_iff unsigned_take_bit_eq unsigned_word_eqI)

section \<open>Reads\<close>

lemma bu_fast_get_wire: 
  assumes "bits \<le> 64" and "bits * idx + bits \<le> 8 * length b"
  shows "bu_fast_get b bits idx = wire b bits idx"
  using assms by (intro bit_word_eqI) (auto simp: bu_fast_get_def Let_def bit_s_get_uint bit_wire mbit_words_of)

lemma add8:
  fixes p i :: nat
  shows "(p + i) div 8 = p div 8 + (p mod 8 + i) div 8" and "(p + i) mod 8 = (p mod 8 + i) mod 8"
proof -
  have e: "p + i = (p mod 8 + i) + 8 * (p div 8)" by simp
  show "(p + i) div 8 = p div 8 + (p mod 8 + i) div 8"
    by (subst e, subst div_mult_self2) simp_all
  show "(p + i) mod 8 = (p mod 8 + i) mod 8" by (simp add: mod_simps)
qed

lemma start58:
  assumes "bits \<le> (58::nat)"
  shows "bits * idx mod 8 + bits \<le> 64"
proof (cases "bits = 58")
  case True
  then have "bits * idx mod 8 = 2 * (29 * idx mod 4)" using mult_mod_right [of 2 "29 * idx" 4] by simp
  moreover have "29 * idx mod 4 < 4" by simp
  ultimately show ?thesis using True by linarith
next
  case False
  moreover have "bits * idx mod 8 < 8" by simp
  ultimately show ?thesis using assms by linarith
qed

lemma less_div8: "(i::nat) < 8 * n \<Longrightarrow> i div 8 < n"
  by (simp add: div_less_iff_less_mult mult.commute)

lemma u0_fast_get_wire:
  assumes w: "bits \<le> 58" and r: "bits * idx + bits \<le> 8 * length b"
  shows "u0_fast_get b bits (uv_mask_of bits) idx = wire b bits idx"
proof (rule bit_word_eqI)
  fix i assume "i < LENGTH(64)"
  define p where "p = bits * idx"
  define q where "q = p mod 8 + i"
  have len: "q < 64" "q div 8 < 8" "p div 8 + q div 8 < length b" if "i < bits"
  proof -
    show "q < 64" using that start58 [OF w, of idx] by (simp add: q_def p_def)
    then show "q div 8 < 8" using less_div8 [of q 8] by simp
    have "p + i < 8 * length b" using r that by (simp add: p_def)
    then show "p div 8 + q div 8 < length b" using less_div8 [of "p + i"] add8(1) [of p i] by (simp add: q_def)
  qed
  show "bit (u0_fast_get b bits (uv_mask_of bits) idx) i \<longleftrightarrow> bit (wire b bits idx) i"
  proof (cases "i < bits")
    case True
    have "bit (u0_fast_get b bits (uv_mask_of bits) idx) i \<longleftrightarrow> bit (unaligned_load b (p div 8)) q"
      using w True by (simp add: u0_fast_get_def Let_def p_def [symmetric] q_def mask_of_eq bit_simps)
    also have "\<dots> \<longleftrightarrow> bit (b ! (p div 8 + q div 8)) (q mod 8)"
      using len [OF True] by (auto simp: unaligned_load_def bit_le_word)
    also have "\<dots> \<longleftrightarrow> bbit b (p + i)" using add8 [of p i] by (simp add: bbit_def q_def)
    finally show ?thesis using True w by (simp add: bit_wire p_def)
  next
    case False
    then show ?thesis using w by (simp add: u0_fast_get_def Let_def mask_of_eq bit_simps bit_wire)
  qed
qed

section \<open>Sizes\<close>

lemma compute_mem_size_align: "compute_mem_size bits num = align_up ((bits * num + 7) div 8 + 7) 16"
  by (simp add: compute_mem_size_def align_up_def Let_def)

lemma uv_bytes_eq: "uv_bytes bits num = (if num = 0 then 0 else compute_mem_size bits num)"
  by (simp add: uv_bytes_def compute_mem_size_def Let_def)

lemma compute_mem_size_dvd [simp]: "16 dvd compute_mem_size bits num"
  by (simp add: compute_mem_size_align)

lemma compute_mem_size_room: "(bits * num + 7) div 8 + 7 \<le> compute_mem_size bits num"
  unfolding compute_mem_size_align by (rule align_up_ge) simp

lemma compute_mem_size_bits: "bits * num + 56 \<le> 8 * compute_mem_size bits num"
  using compute_mem_size_room [of bits num] div_mult_mod_eq [of "bits * num + 7" 8] mod_less_divisor [of 8 "bits * num + 7"]
  by linarith

lemma align_up_mono: "a \<le> b \<Longrightarrow> align_up a k \<le> align_up b k"
  unfolding align_up_def by (intro mult_le_mono1 div_le_mono) simp

lemma compute_mem_size_mono: "bits * n \<le> bits * n' \<Longrightarrow> compute_mem_size bits n \<le> compute_mem_size bits n'"
  unfolding compute_mem_size_align by (intro align_up_mono add_right_mono div_le_mono) simp

lemma align_up_add: "0 < k \<Longrightarrow> align_up (n + k) k = align_up n k + k"
proof -
  assume k: "0 < k"
  then have "n + k + k - 1 = n + k - 1 + 1 * k" by simp
  then show ?thesis unfolding align_up_def using k by (simp only: div_mult_self1) simp
qed

lemma compute_mem_size_step: "bits \<le> 64 \<Longrightarrow> compute_mem_size bits (n + 1) \<le> compute_mem_size bits n + 16"
proof -
  assume b: "bits \<le> 64"
  have "(bits * (n + 1) + 7) div 8 \<le> (bits * n + 7 + 8 * 8) div 8" using b by (intro div_le_mono) simp
  also have "\<dots> = (bits * n + 7) div 8 + 8" by (simp only: div_mult_self1 zero_neq_numeral)
  finally have "align_up ((bits * (n + 1) + 7) div 8 + 7) 16 \<le> align_up ((bits * n + 7) div 8 + 7 + 16) 16"
    by (intro align_up_mono) simp
  also have "\<dots> = align_up ((bits * n + 7) div 8 + 7) 16 + 16"
    by (rule align_up_add) simp
  finally show ?thesis unfolding compute_mem_size_align .
qed

lemma compute_mem_size_zero: "compute_mem_size bits 0 = 16"
  by (simp add: compute_mem_size_def)

lemma uintbits_loop_zero [simp]: "compute_uintbits_loop k 0 = k"
  by (subst compute_uintbits_loop.simps) simp

lemma uintbits_loop_bounds:
  "k \<le> compute_uintbits_loop k x \<and> unat x < 2 ^ (compute_uintbits_loop k x - k)
   \<and> (x \<noteq> 0 \<longrightarrow> k < compute_uintbits_loop k x \<and> 2 ^ (compute_uintbits_loop k x - k - 1) \<le> unat x)"
proof (induction k x rule: compute_uintbits_loop.induct)
  case (1 k x)
  show ?case
  proof (cases "x = 0")
    case True
    then show ?thesis by simp
  next
    case False
    define y where "y = drop_bit 1 x"
    define r where "r = compute_uintbits_loop (k + 1) y"
    have y: "unat y = unat x div 2" unfolding y_def by (simp only: drop_bit_eq_div) (simp add: unat_div)
    have r: "compute_uintbits_loop k x = r"
      unfolding r_def y_def using False by (subst compute_uintbits_loop.simps) simp
    have IH: "k + 1 \<le> r" "unat y < 2 ^ (r - (k + 1))" "y \<noteq> 0 \<longrightarrow> k + 1 < r \<and> 2 ^ (r - (k + 1) - 1) \<le> unat y"
      using 1 [OF False] by (simp_all add: r_def y_def)
    then obtain m where m: "r = k + 1 + m" using le_Suc_ex by blast
    have x0: "0 < unat x" using False by (simp add: unat_gt_0)
    have "unat x < 2 ^ (m + 1)" using IH(2) unfolding y m by simp
    moreover have "2 ^ m \<le> unat x"
    proof (cases m)
      case (Suc j)
      then have "y \<noteq> 0" using m by (auto simp: r_def uintbits_loop_zero)
      with IH(3) Suc have "2 ^ j \<le> unat x div 2" by (simp add: m y)
      then show ?thesis using Suc by simp
    qed (use x0 in simp)
    ultimately show ?thesis using False by (simp add: r m)
  qed
qed

lemma compute_uintbits_bounds:
  shows "unat x < 2 ^ compute_uintbits x" and "x \<noteq> 0 \<Longrightarrow> 2 ^ (compute_uintbits x - 1) \<le> unat x"
    and "compute_uintbits x = 0 \<longleftrightarrow> x = 0" and "compute_uintbits x \<le> 64"
proof -
  note b = uintbits_loop_bounds [of 0 x]
  show "unat x < 2 ^ compute_uintbits x" and l: "x \<noteq> 0 \<Longrightarrow> 2 ^ (compute_uintbits x - 1) \<le> unat x"
    using b by (simp_all add: compute_uintbits_def)
  show "compute_uintbits x = 0 \<longleftrightarrow> x = 0"
    using b by (auto simp: compute_uintbits_def)
  show "compute_uintbits x \<le> 64"
  proof (cases "x = 0")
    case False
    have "(2::nat) ^ (compute_uintbits x - 1) < 2 ^ 64" using l [OF False] unsigned_less [of x, where ?'a = nat] by simp
    then have "compute_uintbits x - 1 < 64" by (rule power_less_imp_less_exp [rotated]) simp
    then show ?thesis by simp
  qed (simp add: compute_uintbits_def)
qed

lemma take_bit_iff: "take_bit n x = x \<longleftrightarrow> unat (x :: 'a::len word) < 2 ^ n"
  by (metis take_bit_nat_eq_self_iff unsigned_take_bit_eq unsigned_word_eqI)

lemma uintbits_fits: "take_bit (compute_uintbits x) y = y" if "y \<le> x"
  using that compute_uintbits_bounds(1) [of x] by (simp add: take_bit_iff word_le_nat_alt)

text \<open>A value above the mask needs more bits than the vector has.\<close>

lemma uintbits_grows:
  assumes "bits \<le> 64" and "uv_mask_of bits < val"
  shows "bits < compute_uintbits val"
proof -
  have "\<not> val \<le> uv_mask_of bits" using assms(2) by simp
  then have "\<not> unat val < 2 ^ bits" using le_mask_of [OF assms(1), of val] by (simp add: take_bit_iff)
  then have "(2::nat) ^ bits < 2 ^ compute_uintbits val" using compute_uintbits_bounds(1) [of val] by linarith
  then show ?thesis by (rule power_less_imp_less_exp [rotated]) simp
qed

section \<open>Writing one element\<close>

lemma vdata_poke [simp]: "vdata (upd_slots (poke_words f) d) = poke_words f (vdata d)"
  by (cases "vp d") (simp_all add: vdata_def upd_slots_def poke_words_def)

lemma vv_inv_poke: "vv_inv d \<Longrightarrow> vv_inv (upd_slots (poke_words f) d)"
  by (simp add: vv_inv_def)

lemma wire_set:
  assumes b: "bits \<le> 64" "take_bit bits val = val" and r: "bits * idx + bits \<le> 8 * length m" "bits * j + bits \<le> 8 * length m"
  shows "wire (poke_words (\<lambda>m. febitvec_s_set_uint m (bits * idx) bits val) m) bits j = (if j = idx then val else wire m bits j)"
proof (cases "j = idx")
  case True
  then show ?thesis using b r by (auto intro!: wire_eqI simp: bbit_set_uint)
next
  case False
  then have "bits * j + bits \<le> bits * idx \<or> bits * idx + bits \<le> bits * j"
    using wire_end [of j idx bits] wire_end [of idx j bits] by (cases "j < idx") auto
  then show ?thesis using b r False by (auto intro!: wire_cong simp: bbit_set_uint)
qed

lemma uv_set_wire_simps [simp]:
  "uv_bits (uv_set_wire i x v) = uv_bits v" "uv_mask (uv_set_wire i x v) = uv_mask v" "uv_size (uv_set_wire i x v) = uv_size v"
  "vn (uv_data (uv_set_wire i x v)) = vn (uv_data v)" "vc (uv_data (uv_set_wire i x v)) = vc (uv_data v)"
  by (simp_all add: uv_set_wire_def Let_def)

lemma uv_inv_set_wire [simp]: "uv_inv v \<Longrightarrow> uv_inv (uv_set_wire i x v)"
  by (simp add: uv_inv_def) (simp add: uv_set_wire_def Let_def vv_inv_poke)

lemma uv_invD:
  assumes "uv_inv v"
  shows "vv_inv (uv_data v)" "uv_bits v \<le> 64" "uv_mask v = uv_mask_of (uv_bits v)" "16 dvd vn (uv_data v)"
    "length (vdata (uv_data v)) = vc (uv_data v)" "vn (uv_data v) \<le> vc (uv_data v)"
  using assms by (simp_all add: uv_inv_def vv_inv_def)

lemma uv_room: "uv_inv v \<Longrightarrow> idx < uv_size v \<Longrightarrow> uv_bits v * idx + uv_bits v + 56 \<le> 8 * vn (uv_data v)"
  using wire_end [of idx "uv_size v" "uv_bits v"] compute_mem_size_bits [of "uv_bits v" "uv_size v"]
  by (simp add: uv_inv_def)

lemma uv_room_block: "uv_inv v \<Longrightarrow> idx < uv_size v \<Longrightarrow> uv_bits v * idx + uv_bits v \<le> 8 * length (vdata (uv_data v))"
  using uv_room [of v idx] uv_invD(5,6) [of v] by simp

lemma wire_set_wire:
  assumes "uv_inv v" and "x \<le> uv_mask v" and "uv_bits v * i + uv_bits v \<le> 8 * vc (uv_data v)"
    and "uv_bits v * j + uv_bits v \<le> 8 * vc (uv_data v)"
  shows "wire (vdata (uv_data (uv_set_wire i x v))) (uv_bits v) j = (if j = i then x else wire (vdata (uv_data v)) (uv_bits v) j)"
  using assms uv_invD [OF assms(1)] by (simp add: uv_set_wire_def Let_def wire_set le_mask_of)

lemma length_uv_wires [simp]: "length (uv_wires v) = uv_size v"
  by (simp add: uv_wires_def)

lemma uv_wires_nth: "i < uv_size v \<Longrightarrow> uv_wires v ! i = wire (vdata (uv_data v)) (uv_bits v) i"
  by (simp add: uv_wires_def)

lemma uv_set_wire_wires:
  assumes "uv_inv v" and "i < uv_size v" and "x \<le> uv_mask v"
  shows "uv_wires (uv_set_wire i x v) = (uv_wires v)[i := x]"
  using uv_room_block [OF assms(1)] uv_invD(5) [OF assms(1)] assms
  by (intro nth_equalityI) (simp_all add: uv_wires_nth wire_set_wire nth_list_update)

lemma wire_le_mask: "uv_inv v \<Longrightarrow> i < uv_size v \<Longrightarrow> uv_wires v ! i \<le> uv_mask v"
  using uv_invD [of v] by (simp add: uv_wires_nth le_mask_of) (auto intro!: bit_word_eqI simp: bit_simps bit_wire)

lemma u0_get_wires: "uv_inv v \<Longrightarrow> uv_bits v \<le> 58 \<Longrightarrow> i < uv_size v \<Longrightarrow> u0_get v i = uv_wires v ! i"
  using uv_room_block [of v i] uv_invD(3) [of v] by (simp add: u0_get_def u0_fast_get_wire uv_wires_nth)

lemma bu_get_wires: "uv_inv v \<Longrightarrow> i < uv_size v \<Longrightarrow> bu_get v i = uv_wires v ! i"
  using uv_room_block [of v i] uv_invD(2) [of v] bu_fast_get_wire [of "uv_bits v" i "vdata (uv_data v)"]
  by (simp add: bu_get_def bu_fast_get_def uv_wires_nth)

section \<open>Operations\<close>

lemma uv_ok_Inr [simp]: "uv_ok (Inr v) n xs \<longleftrightarrow> uv_inv v \<and> uv_bits v = n \<and> uv_wires v = xs"
  by (auto simp: uv_ok_def)

lemma uv_ok_Inl [simp]: "uv_ok (Inl err) n xs"
  by (simp add: uv_ok_def)

lemma wire_take: "bits * idx + bits \<le> 8 * n \<Longrightarrow> wire (take n b) bits idx = wire b bits idx"
  using less_div8 [of _ n] by (intro wire_cong) (auto simp: bbit_def)

lemma wire_vec: "bits * idx + bits \<le> 8 * vn d \<Longrightarrow> wire (vec d) bits idx = wire (vdata d) bits idx"
  by (simp add: vec_def wire_take)

text \<open>A new block with the bytes of the first \<open>n\<close> elements keeps these elements.\<close>

lemma uv_newdata:
  assumes v: "uv_inv v" and d: "vv_inv d" "16 dvd vn d" and n: "n \<le> uv_size v"
    and k: "n \<noteq> 0 \<Longrightarrow> compute_mem_size (uv_bits v) n \<le> k \<and> k \<le> vn d \<and> k \<le> vn (uv_data v) \<and> take k (vec d) = take k (vec (uv_data v))"
  shows "uv_ok (Inr (v\<lparr>uv_data := d, uv_size := n\<rparr>)) (uv_bits v) (take n (uv_wires v))"
proof -
  have "wire (vdata d) (uv_bits v) i = uv_wires v ! i" if i: "i < n" for i
  proof -
    have n0: "n \<noteq> 0" using i by simp
    note k = k [OF n0]
    have r: "uv_bits v * i + uv_bits v \<le> 8 * k"
      using wire_end [OF i, of "uv_bits v"] compute_mem_size_bits [of "uv_bits v" n] k by linarith
    then have r': "uv_bits v * i + uv_bits v \<le> 8 * vn d" "uv_bits v * i + uv_bits v \<le> 8 * vn (uv_data v)"
      using k by linarith+
    have "wire (vdata d) (uv_bits v) i = wire (take k (vec d)) (uv_bits v) i"
      by (simp only: wire_take [OF r] wire_vec [OF r'(1)])
    also have "\<dots> = wire (take k (vec (uv_data v))) (uv_bits v) i" using k by simp
    also have "\<dots> = wire (vdata (uv_data v)) (uv_bits v) i" by (simp only: wire_take [OF r] wire_vec [OF r'(2)])
    finally show ?thesis using i n by (simp add: uv_wires_nth)
  qed
  then have "uv_wires (v\<lparr>uv_data := d, uv_size := n\<rparr>) = take n (uv_wires v)"
    using n by (intro nth_equalityI) (simp_all add: uv_wires_nth)
  then show ?thesis using v d k by (auto simp: uv_inv_def)
qed

lemma uv_inv_empty: "uv_inv uv_empty" "uv_wires uv_empty = []" "uv_bits uv_empty = 0"
  by (simp_all add: uv_inv_def uv_empty_def vv_empty_def vv_inv_def uv_mask_of_def uv_wires_def)

lemma uv_clear_ok: "uv_ok (Inr (uv_clear v)) 0 []"
  by (simp add: uv_inv_def uv_clear_def uv_nullize_def vv_clear_ok uv_mask_of_def uv_wires_def) (simp add: vv_clear_def)

lemma list_resize_le: "k \<le> length xs \<Longrightarrow> list_resize x k xs = take k xs"
  by (simp add: list_resize_def)

lemma length_list_resize [simp]: "length (list_resize x k xs) = k"
  by (simp add: list_resize_def)

lemma take_list_resize: "j \<le> k \<Longrightarrow> j \<le> length xs \<Longrightarrow> take j (list_resize x k xs) = take j xs"
  by (simp add: list_resize_def min_absorb1)

lemma step_ok_D: "step_ok (Inr d) xs \<Longrightarrow> vv_inv d \<and> vec d = xs \<and> vn d = length xs"
  using length_vec by auto

lemma uv_resize_ok: "uv_inv v \<Longrightarrow> n \<le> uv_size v \<Longrightarrow> uv_ok (uv_resize e n v) (uv_bits v) (take n (uv_wires v))"
proof -
  assume v: "uv_inv v" and n: "n \<le> uv_size v"
  define k where "k = uv_bytes (uv_bits v) n"
  have k: "k \<le> vn (uv_data v)" "16 dvd k" "n \<noteq> 0 \<Longrightarrow> k = compute_mem_size (uv_bits v) n"
    using v n compute_mem_size_mono [of "uv_bits v" n "uv_size v"] by (auto simp: k_def uv_bytes_eq uv_inv_def)
  show ?thesis
  proof (cases "vv_resize_val e k 0 (uv_data v)")
    case (Inr d)
    with vv_resize_val_ok [OF uv_invD(1) [OF v], of e k 0] have "step_ok (Inr d) (list_resize 0 k (vec (uv_data v)))" by simp
    from step_ok_D [OF this] have d: "vv_inv d" "vec d = take k (vec (uv_data v))" "vn d = k"
      using k(1) uv_invD(1) [OF v] by (simp_all add: list_resize_le)
    have "uv_ok (Inr (v\<lparr>uv_data := d, uv_size := n\<rparr>)) (uv_bits v) (take n (uv_wires v))"
      by (rule uv_newdata [OF v _ _ n, where k = k]) (use d k in auto)
    with Inr show ?thesis by (simp add: uv_resize_def k_def)
  qed (simp add: uv_resize_def k_def)
qed

lemma uv_shrink_ok: "uv_inv v \<Longrightarrow> uv_ok (uv_shrink_to_fit e v) (uv_bits v) (uv_wires v)"
proof -
  assume v: "uv_inv v"
  show ?thesis
  proof (cases "uv_resize e (uv_size v) v")
    case (Inr w)
    with uv_resize_ok [OF v order_refl, of e] have w: "uv_inv w" "uv_bits w = uv_bits v" "uv_wires w = uv_wires v" by simp_all
    note s = vv_shrink_ok [OF uv_invD(1) [OF w(1)], of e]
    then have "vn (vv_shrink_to_fit e (uv_data w)) = vn (uv_data w)" by (metis length_vec uv_invD(1) w(1))
    then have "uv_ok (Inr (w\<lparr>uv_data := vv_shrink_to_fit e (uv_data w), uv_size := uv_size w\<rparr>)) (uv_bits w) (take (uv_size w) (uv_wires w))"
      using s uv_invD(4) [OF w(1)] w(1) by (intro uv_newdata [OF w(1), where k = "vn (uv_data w)"]) (auto simp: uv_inv_def)
    then have "uv_ok (Inr (w\<lparr>uv_data := vv_shrink_to_fit e (uv_data w)\<rparr>)) (uv_bits w) (uv_wires w)" by simp
    then show ?thesis using Inr w by (simp add: uv_shrink_to_fit_def)
  qed (simp add: uv_shrink_to_fit_def)
qed

lemma wire_zeros: "bits * idx + bits \<le> 8 * n \<Longrightarrow> bits \<le> 64 \<Longrightarrow> wire (replicate n 0) bits idx = 0"
  using less_div8 [of _ n] by (intro wire_eqI) (auto simp: bbit_def)

lemma uv_resize_with_uintbits_ok: "bits \<le> 64 \<Longrightarrow> uv_ok (uv_resize_with_uintbits e num bits v) bits (replicate num 0)"
proof -
  assume b: "bits \<le> 64"
  define w where "w = (uv_clear v)\<lparr>uv_bits := bits, uv_mask := uv_mask_of bits, uv_size := num\<rparr>"
  define k where "k = compute_mem_size bits num"
  have w: "uv_bits w = bits" "uv_mask w = uv_mask_of bits" "uv_size w = num" "uv_data w = vv_clear (uv_data v)"
    by (simp_all add: w_def uv_clear_def uv_nullize_def)
  have def: "uv_resize_with_uintbits e num bits v =
      (if num \<noteq> 0 then case vv_resize_fill e 0 k (uv_data w) of Inl err \<Rightarrow> Inl err | Inr d \<Rightarrow> Inr (w\<lparr>uv_data := d\<rparr>) else Inr w)"
    by (simp only: uv_resize_with_uintbits_def Let_def w_def [symmetric] k_def)
  show ?thesis
  proof (cases "num = 0")
    case True
    then show ?thesis unfolding def using b w vv_clear_ok [of "uv_data v"] by (simp add: uv_inv_def uv_wires_def) (simp add: vv_clear_def)
  next
    case False
    show ?thesis
    proof (cases "vv_resize_fill e 0 k (uv_data w)")
      case (Inr d)
      have "step_ok (Inr d) (replicate k 0)"
        using vv_resize_fill_val_ok [of "uv_data w" e k 0] Inr vv_clear_ok(1) [of "uv_data v"] by (simp add: w vv_resize_fill_eq)
      from step_ok_D [OF this] have d: "vv_inv d" "vec d = replicate k 0" "vn d = k" by simp_all
      have i: "uv_inv (w\<lparr>uv_data := d\<rparr>)" using b d by (simp add: uv_inv_def w k_def)
      have "uv_wires (w\<lparr>uv_data := d\<rparr>) = replicate num 0"
      proof (rule nth_equalityI)
        fix j assume "j < length (uv_wires (w\<lparr>uv_data := d\<rparr>))"
        then have j: "j < num" by (simp add: w)
        then have r: "bits * j + bits \<le> 8 * k" using uv_room [OF i, of j] by (simp add: w d)
        then have "wire (vdata d) bits j = wire (replicate k 0) bits j" using wire_vec [of bits j d] d by simp
        then show "uv_wires (w\<lparr>uv_data := d\<rparr>) ! j = replicate num 0 ! j" using j r b by (simp add: uv_wires_nth w wire_zeros)
      qed (simp add: w)
      with i Inr False show ?thesis by (simp add: def w)
    qed (use False in \<open>simp add: def\<close>)
  qed
qed

lemma uv_resize_with_wire_max_val_ok: "uv_ok (uv_resize_with_wire_max_val e num x v) (compute_uintbits x) (replicate num 0)"
  unfolding uv_resize_with_wire_max_val_def by (rule uv_resize_with_uintbits_ok) (rule compute_uintbits_bounds(4))

section \<open>Appending\<close>

lemma uv_append_wire:
  assumes v: "uv_inv v" and x: "x \<le> uv_mask v" and r: "compute_mem_size (uv_bits v) (uv_size v + 1) \<le> vn (uv_data v)"
  shows "uv_ok (Inr ((uv_set_wire (uv_size v) x v)\<lparr>uv_size := uv_size v + 1\<rparr>)) (uv_bits v) (uv_wires v @ [x])"
proof -
  define w where "w = v\<lparr>uv_size := uv_size v + 1\<rparr>"
  have w: "uv_inv w" using v r by (simp add: w_def uv_inv_def)
  have eq: "(uv_set_wire (uv_size v) x v)\<lparr>uv_size := uv_size v + 1\<rparr> = uv_set_wire (uv_size v) x w"
    by (simp add: w_def uv_set_wire_def Let_def)
  have "uv_wires w = uv_wires v @ [wire (vdata (uv_data v)) (uv_bits v) (uv_size v)]" by (simp add: w_def uv_wires_def)
  moreover have "uv_wires (uv_set_wire (uv_size v) x w) = (uv_wires w)[uv_size v := x]"
    using x by (intro uv_set_wire_wires [OF w]) (simp_all add: w_def)
  moreover have "uv_bits (uv_set_wire (uv_size v) x w) = uv_bits v" by (simp add: w_def)
  ultimately show ?thesis unfolding eq uv_ok_Inr using uv_inv_set_wire [OF w] by (simp add: list_update_append)
qed

lemma uv_push_verified_ok:
  "uv_inv v \<Longrightarrow> x \<le> uv_mask v \<Longrightarrow> uv_ok (uv_push_verified x v) (uv_bits v) (uv_wires v @ [x])"
  using uv_append_wire [of v x] by (simp add: uv_push_verified_def)

lemma uv_copy_wires_ok:
  assumes "uv_inv t" and "n \<le> uv_size t" and "\<And>i. i < n \<Longrightarrow> g i \<le> uv_mask t"
  shows "uv_ok (Inr (uv_copy_wires g n t)) (uv_bits t) (map g [0..<n] @ drop n (uv_wires t))
    \<and> uv_mask (uv_copy_wires g n t) = uv_mask t \<and> vn (uv_data (uv_copy_wires g n t)) = vn (uv_data t)"
  using assms(2,3)
proof (induction n)
  case 0
  then show ?case using assms(1) by (simp add: uv_copy_wires_def)
next
  case (Suc n)
  define u where "u = uv_copy_wires g n t"
  from Suc have u: "uv_inv u" "uv_bits u = uv_bits t" "uv_wires u = map g [0..<n] @ drop n (uv_wires t)" "uv_mask u = uv_mask t"
    "vn (uv_data u) = vn (uv_data t)" by (simp_all add: u_def)
  have len: "uv_size u = uv_size t" using arg_cong [OF u(3), of length] Suc.prems(1) by simp
  have "uv_wires (uv_set_wire n (g n) u) = (uv_wires u)[n := g n]"
    using u Suc.prems by (intro uv_set_wire_wires) (simp_all add: len)
  also have "\<dots> = map g [0..<Suc n] @ drop (Suc n) (uv_wires t)"
    using Suc.prems(1) by (simp add: u(3) list_update_append Cons_nth_drop_Suc [symmetric])
  finally show ?case using u by (simp add: uv_copy_wires_def) (simp add: u_def uv_copy_wires_def)
qed

lemma uv_trim: "uv_inv v \<Longrightarrow> n \<le> uv_size v \<Longrightarrow> uv_ok (Inr (v\<lparr>uv_size := n\<rparr>)) (uv_bits v) (take n (uv_wires v))"
proof -
  assume v: "uv_inv v" and n: "n \<le> uv_size v"
  have "compute_mem_size (uv_bits v) n \<le> vn (uv_data v)" if "n \<noteq> 0"
    using v n that compute_mem_size_mono [of "uv_bits v" n "uv_size v"] by (auto simp: uv_inv_def)
  then have "uv_ok (Inr (v\<lparr>uv_data := uv_data v, uv_size := n\<rparr>)) (uv_bits v) (take n (uv_wires v))"
    by (intro uv_newdata [OF v uv_invD(1,4) [OF v] n, where k = "vn (uv_data v)"]) simp
  then show ?thesis by simp
qed

lemma uv_swap_fst: "uv_swap x y = (y, x)"
  by (simp add: uv_swap_def vv_swap_def)

lemma uv_grown_ge: "n + n div 2 \<le> uv_grown n" "16 dvd uv_grown n"
proof -
  have "n + n div 2 \<le> n * 103 div 64" by linarith
  also have "\<dots> \<le> uv_grown n" unfolding uv_grown_def using align_up_ge [of 16 "n * 103 div 64"] by simp
  finally show "n + n div 2 \<le> uv_grown n" .
  have "16 dvd (32 :: nat)" by simp
  then show "16 dvd uv_grown n" by (simp add: uv_grown_def max_def)
qed

lemma uv_regrown:
  assumes v: "uv_inv v" and d: "vv_resize e 0 (uv_grown (vn (uv_data v))) (uv_data v) = Inr d"
  shows "uv_ok (Inr (v\<lparr>uv_data := d\<rparr>)) (uv_bits v) (uv_wires v)" and "vn d = uv_grown (vn (uv_data v))"
proof -
  define k where "k = uv_grown (vn (uv_data v))"
  have k: "vn (uv_data v) \<le> k" "16 dvd k" using uv_grown_ge [of "vn (uv_data v)"] by (simp_all add: k_def)
  have "step_ok (Inr d) (list_resize 0 k (vec (uv_data v)))"
    using vv_resize_ok [OF uv_invD(1) [OF v], of e 0 k] d by (simp add: k_def)
  from step_ok_D [OF this] have d': "vv_inv d" "vec d = list_resize 0 k (vec (uv_data v))" "vn d = k" by simp_all
  then show "vn d = uv_grown (vn (uv_data v))" by (simp add: k_def)
  have "take (vn (uv_data v)) (vec d) = take (vn (uv_data v)) (vec (uv_data v))"
    using uv_invD(1) [OF v] k(1) by (simp add: d'(2) take_list_resize)
  then have "uv_ok (Inr (v\<lparr>uv_data := d, uv_size := uv_size v\<rparr>)) (uv_bits v) (take (uv_size v) (uv_wires v))"
    using v d' k by (intro uv_newdata [OF v, where k = "vn (uv_data v)"]) (auto simp: uv_inv_def)
  then show "uv_ok (Inr (v\<lparr>uv_data := d\<rparr>)) (uv_bits v) (uv_wires v)" by simp
qed

lemma uv_slow_path_forms:
  "uv_push_back_slow_path e x v =
     (if uv_mask v < x then
        case uv_make e (max (uv_size v + 1) (uv_size v * 103 div 64)) x of
          Inl err \<Rightarrow> Inl err
        | Inr tmp \<Rightarrow> uv_push_verified x (uv_widened v tmp)
      else
        case vv_resize e 0 (uv_grown (vn (uv_data v))) (uv_data v) of
          Inl err \<Rightarrow> Inl err
        | Inr d \<Rightarrow> uv_push_verified x (v\<lparr>uv_data := d\<rparr>))"
  by (simp add: uv_push_back_slow_path_def uv_widened_def uv_grown_def uv_swap_fst Let_def split: sum.splits)

lemma mask_of_mono: "a \<le> b \<Longrightarrow> b \<le> 64 \<Longrightarrow> x \<le> uv_mask_of a \<Longrightarrow> x \<le> uv_mask_of b"
  using power_increasing [of a b "2::nat"] by (auto simp: le_mask_of take_bit_iff intro: less_le_trans)

lemma uv_widened_ok:
  assumes v: "uv_inv v" and t: "uv_inv t" "uv_bits v \<le> uv_bits t" "uv_size v \<le> uv_size t"
  shows "uv_ok (Inr (uv_widened v t)) (uv_bits t) (uv_wires v) \<and> vn (uv_data (uv_widened v t)) = vn (uv_data t)"
proof -
  define g where "g = (if uv_bits v \<le> 58 then u0_fast_get (vdata (uv_data v)) (uv_bits v) (uv_mask v) else bu_fast_get (vdata (uv_data v)) (uv_bits v))"
  define u where "u = uv_copy_wires g (uv_size v) t"
  have g: "g i = uv_wires v ! i" if "i < uv_size v" for i
    using u0_get_wires [OF v _ that] bu_get_wires [OF v that] by (auto simp: g_def u0_get_def bu_get_def bu_fast_get_def Let_def)
  have le: "g i \<le> uv_mask t" if "i < uv_size v" for i
    using wire_le_mask [OF v that] g [OF that] mask_of_mono [OF t(2)] uv_invD(2,3) [OF v] uv_invD(2,3) [OF t(1)] by simp
  have u: "uv_inv u" "uv_bits u = uv_bits t" "uv_wires u = map g [0..<uv_size v] @ drop (uv_size v) (uv_wires t)"
    "vn (uv_data u) = vn (uv_data t)"
    using uv_copy_wires_ok [OF t(1,3) le] by (simp_all add: u_def)
  have sz: "uv_size u = uv_size t" using arg_cong [OF u(3), of length] t(3) by simp
  have mg: "map g [0..<uv_size v] = uv_wires v" by (intro nth_equalityI) (simp_all add: g)
  have "uv_widened v t = u\<lparr>uv_size := uv_size v\<rparr>" by (simp add: uv_widened_def u_def g_def Let_def)
  moreover have "uv_ok (Inr (u\<lparr>uv_size := uv_size v\<rparr>)) (uv_bits u) (take (uv_size v) (uv_wires u))"
    using t(3) by (intro uv_trim [OF u(1)]) (simp add: sz)
  ultimately show ?thesis using u by (simp add: mg)
qed

lemma uv_make_ok:
  assumes "uv_make e n x = Inr t"
  shows "uv_inv t" "uv_bits t = compute_uintbits x" "uv_size t = n" "uv_wires t = replicate n 0"
proof -
  have "uv_ok (Inr t) (compute_uintbits x) (replicate n 0)"
    using uv_resize_with_wire_max_val_ok [of e n x uv_empty] assms by (simp add: uv_make_def)
  then show "uv_inv t" "uv_bits t = compute_uintbits x" and w: "uv_wires t = replicate n 0" by simp_all
  show "uv_size t = n" using arg_cong [OF w, of length] by simp
qed

lemma uv_push_back_ok:
  assumes v: "uv_inv v"
  shows "uv_ok (uv_push_back e x v) (if take_bit (uv_bits v) x = x then uv_bits v else compute_uintbits x) (uv_wires v @ [x])"
proof (cases "x \<le> uv_mask v")
  case le: True
  then have fits: "take_bit (uv_bits v) x = x" using uv_invD(2,3) [OF v] by (simp add: le_mask_of)
  have nl: "\<not> uv_mask v < x" using le by simp
  show ?thesis
  proof (cases "vv_resize e 0 (uv_grown (vn (uv_data v))) (uv_data v)")
    case (Inr d)
    from uv_push_verified_ok [of "v\<lparr>uv_data := d\<rparr>" x] uv_regrown(1) [OF v Inr] le nl Inr fits uv_append_wire [OF v le]
    show ?thesis by (simp add: uv_push_back_def uv_slow_path_forms)
  qed (use uv_append_wire [OF v le] le nl fits in \<open>simp add: uv_push_back_def uv_slow_path_forms\<close>)
next
  case False
  then have gt: "uv_mask_of (uv_bits v) < x" and fits: "take_bit (uv_bits v) x \<noteq> x"
    using uv_invD(2,3) [OF v] by (simp_all add: le_mask_of [symmetric])
  have gt': "uv_mask v < x" using False by (rule not_le_imp_less)
  note grows = uintbits_grows [OF uv_invD(2) [OF v] gt]
  show ?thesis
  proof (cases "uv_make e (max (uv_size v + 1) (uv_size v * 103 div 64)) x")
    case (Inr t)
    note t = uv_make_ok [OF Inr]
    have w: "uv_inv (uv_widened v t)" "uv_bits (uv_widened v t) = compute_uintbits x" "uv_wires (uv_widened v t) = uv_wires v"
      using uv_widened_ok [OF v t(1)] t grows by simp_all
    have "x \<le> uv_mask (uv_widened v t)"
      using uv_invD(2,3) [OF w(1)] uintbits_fits [of x x] by (simp add: w le_mask_of)
    from uv_push_verified_ok [OF w(1) this] Inr False gt' fits w show ?thesis by (simp add: uv_push_back_def uv_slow_path_forms)
  qed (use False gt' fits in \<open>simp add: uv_push_back_def uv_slow_path_forms\<close>)
qed

section \<open>Errors and the sequence of operations\<close>

lemma vv_resize_err: "vv_resize e d k v = Inl err \<Longrightarrow> err = Bad_alloc \<and> (\<exists>c. \<not> v_ok e c)"
  by (auto simp: vv_resize_def vv_resize_slow_eq dest: resize_slow_fill_err split: if_splits)

lemma vv_resize_val_err: "vv_resize_val e k x v = Inl err \<Longrightarrow> err = Bad_alloc \<and> (\<exists>c. \<not> v_ok e c)"
  by (auto simp: vv_resize_val_def dest: resize_slow_fill_err split: if_splits)

lemma vv_resize_fill_err: "vv_resize_fill e d k v = Inl err \<Longrightarrow> err = Bad_alloc \<and> (\<exists>c. \<not> v_ok e c)"
  by (auto simp: vv_resize_fill_def dest: vv_ensure_capacity_err split: sum.splits)

lemma uv_resize_err: "uv_resize e n v = Inl err \<Longrightarrow> err = Bad_alloc \<and> (\<exists>c. \<not> v_ok e c)"
  by (auto simp: uv_resize_def dest: vv_resize_val_err split: sum.splits)

lemma uv_resize_with_uintbits_err: "uv_resize_with_uintbits e n b v = Inl err \<Longrightarrow> err = Bad_alloc \<and> (\<exists>c. \<not> v_ok e c)"
  by (auto simp: uv_resize_with_uintbits_def Let_def dest: vv_resize_fill_err split: sum.splits if_splits)

lemma uv_push_back_err:
  "uv_push_back e x v = Inl err \<Longrightarrow> err = Abort \<or> err = Bad_alloc \<and> (\<exists>c. \<not> v_ok e c)"
  by (auto simp: uv_push_back_def uv_slow_path_forms uv_push_verified_def uv_make_def uv_resize_with_wire_max_val_def
      dest: vv_resize_err uv_resize_with_uintbits_err split: sum.splits if_splits)

lemma uv_exec_step:
  assumes v: "uv_inv v" and p: "uv_pre a v"
  shows "uv_ok (uv_exec e a v) (fst (uv_spec a (uv_abs v))) (snd (uv_spec a (uv_abs v)))"
proof (cases a)
  case (UPush x)
  then show ?thesis using uv_push_back_ok [OF v, of e x] by (simp add: uv_abs_def)
next
  case (USet i x)
  then show ?thesis using p v uv_set_wire_wires [OF v, of i x] by (simp add: uv_abs_def)
qed (use v p in \<open>simp_all add: uv_abs_def uv_clear_ok [simplified] uv_resize_ok uv_shrink_ok uv_resize_with_uintbits_ok uv_resize_with_wire_max_val_ok\<close>)

lemma uv_exec_err: "uv_exec e a v = Inl err \<Longrightarrow> err = Abort \<or> err = Bad_alloc"
  by (cases a) (auto simp: uv_shrink_to_fit_def uv_resize_with_wire_max_val_def
      dest: uv_resize_err uv_push_back_err uv_resize_with_uintbits_err split: sum.splits)

interpretation uvm: op_machine uv_inv "uv_exec e" "uv_run e" uv_pre "uv_pre_run e" uv_abs uv_spec "\<lambda>err. err = Abort \<or> err = Bad_alloc" for e
proof unfold_locales
  fix a s s' assume "uv_inv s" "uv_pre a s" "uv_exec e a s = Inr s'"
  with uv_exec_step [of s a e] show "uv_inv s' \<and> uv_abs s' = uv_spec a (uv_abs s)" by (simp add: uv_abs_def)
next
  fix a s err assume "uv_exec e a s = Inl err"
  then show "err = Abort \<or> err = Bad_alloc" by (rule uv_exec_err)
qed (auto split: sum.splits)

section \<open>When \<open>push_back\<close> returns\<close>

lemma uv_push_verified_iff:
  "uv_inv v \<Longrightarrow> uv_push_verified x v = Inl Abort \<longleftrightarrow> \<not> compute_mem_size (uv_bits v) (uv_size v + 1) < vn (uv_data v)"
  using uv_invD(4) [of v] by (auto simp: uv_push_verified_def)

lemma compute_mem_size_one: "bits \<le> 64 \<Longrightarrow> compute_mem_size bits 1 = 16"
proof -
  assume b: "bits \<le> 64"
  then have "(bits + 7) div 8 \<le> (64 + 7) div 8" by (intro div_le_mono) simp
  then have "(bits + 7) div 8 \<le> 8" by simp
  moreover obtain c where c: "compute_mem_size bits 1 = 16 * c" using compute_mem_size_dvd [of bits 1] by (elim dvdE)
  ultimately have "7 \<le> 16 * c" "16 * c < 31"
    using align_up_ge [of 16 "(bits + 7) div 8 + 7"] align_up_less [of 16 "(bits + 7) div 8 + 7"]
    by (simp_all add: compute_mem_size_align)
  then have "c = 1" by linarith
  with c show ?thesis by simp
qed

lemma compute_mem_size_pos: "16 \<le> compute_mem_size bits n"
proof -
  obtain c where c: "compute_mem_size bits n = 16 * c" using compute_mem_size_dvd [of bits n] by (elim dvdE)
  moreover have "7 \<le> compute_mem_size bits n" using compute_mem_size_room [of bits n] by linarith
  ultimately have "c \<noteq> 0" by (cases c) simp_all
  with c show ?thesis by simp
qed

text \<open>With the width kept, only a block of 16 bytes does not grow enough.\<close>

lemma uv_narrow_room:
  assumes v: "uv_inv v"
  shows "compute_mem_size (uv_bits v) (uv_size v + 1) < uv_grown (vn (uv_data v))
    \<longleftrightarrow> \<not> (vn (uv_data v) = 16 \<and> 32 \<le> compute_mem_size (uv_bits v) (uv_size v + 1))"
proof -
  define n where "n = vn (uv_data v)"
  define c where "c = compute_mem_size (uv_bits v) (uv_size v + 1)"
  note b = uv_invD(2) [OF v]
  obtain m where m: "n = 16 * m" using uv_invD(4) [OF v] unfolding n_def by (elim dvdE)
  have c0: "m = 0 \<Longrightarrow> c = 16"
    using v compute_mem_size_pos [of "uv_bits v" "uv_size v"] compute_mem_size_one [OF b] m by (auto simp: uv_inv_def c_def n_def)
  have cn: "c \<le> n + 16" if "m \<noteq> 0"
  proof (cases "uv_size v = 0")
    case True
    then show ?thesis using that m compute_mem_size_one [OF b] by (simp add: c_def)
  next
    case False
    then show ?thesis using compute_mem_size_step [OF b, of "uv_size v"] v by (simp add: uv_inv_def c_def n_def)
  qed
  consider "m = 0" | "m = 1" | "2 \<le> m" by linarith
  then have "c < uv_grown n \<longleftrightarrow> \<not> (n = 16 \<and> 32 \<le> c)"
  proof cases
    case 1
    then show ?thesis using c0 m by (simp add: uv_grown_def)
  next
    case 2
    then have "uv_grown n = 32" unfolding m by (simp add: uv_grown_def align_up_def)
    then show ?thesis using 2 m by auto
  next
    case 3
    obtain g where g: "uv_grown n = 16 * g" using uv_grown_ge(2) [of n] by (elim dvdE)
    have "16 * m + 8 * m \<le> 16 * g" using uv_grown_ge(1) [of n] unfolding g unfolding m by simp
    moreover have "16 * m * 103 div 64 \<le> uv_grown n"
      unfolding uv_grown_def m using align_up_ge [of 16 "16 * m * 103 div 64"] by simp
    then have "16 * m * 103 div 64 \<le> 16 * g" by (simp add: g)
    ultimately have "m + 2 \<le> g" using 3 by linarith
    then have "c < 16 * g" using cn 3 m by linarith
    moreover have "n \<noteq> 16" using 3 m by simp
    ultimately show ?thesis by (simp add: g)
  qed
  then show ?thesis by (simp add: c_def n_def)
qed

lemma uv_make_mem:
  assumes "uv_make e n x = Inr t" and "n \<noteq> 0"
  shows "vn (uv_data t) = compute_mem_size (compute_uintbits x) n"
  using assms by (auto simp: uv_make_def uv_resize_with_wire_max_val_def uv_resize_with_uintbits_def Let_def vv_resize_fill_def split: sum.splits)

lemma uv_wide_room:
  "compute_mem_size b (n + 1) < compute_mem_size b (max (n + 1) k) \<longleftrightarrow> \<not> compute_mem_size b k \<le> compute_mem_size b (n + 1)"
  using compute_mem_size_mono [of b k "n + 1"] mult_le_mono2 [of k "n + 1" b] by (cases "k \<le> n + 1") (auto simp: max_def not_le)

lemma uv_push_back_stuck_iff:
  assumes v: "uv_inv v" and ok: "\<And>n. v_ok e n"
  shows "uv_push_back e x v = Inl Abort \<longleftrightarrow> uv_push_stuck x v"
proof (cases "x \<le> uv_mask v")
  case le: True
  have nl: "\<not> uv_mask v < x" using le by simp
  obtain d where d: "vv_resize e 0 (uv_grown (vn (uv_data v))) (uv_data v) = Inr d"
    using vv_resize_err [of e 0 "uv_grown (vn (uv_data v))" "uv_data v"] ok by (cases "vv_resize e 0 (uv_grown (vn (uv_data v))) (uv_data v)") auto
  have "uv_push_verified x (v\<lparr>uv_data := d\<rparr>) = Inl Abort
      \<longleftrightarrow> \<not> compute_mem_size (uv_bits v) (uv_size v + 1) < uv_grown (vn (uv_data v))"
    using uv_regrown [OF v d] uv_push_verified_iff [of "v\<lparr>uv_data := d\<rparr>" x] by simp
  moreover have "vn (uv_data v) \<le> uv_grown (vn (uv_data v))" using uv_grown_ge(1) [of "vn (uv_data v)"] by linarith
  ultimately show ?thesis
    using uv_narrow_room [OF v] le nl d by (auto simp: uv_push_back_def uv_slow_path_forms uv_push_stuck_def)
next
  case False
  then have gt: "uv_mask v < x" by (rule not_le_imp_less)
  define k where "k = uv_size v * 103 div 64"
  obtain t where t: "uv_make e (max (uv_size v + 1) k) x = Inr t"
    using uv_resize_with_uintbits_err [of e "max (uv_size v + 1) k" "compute_uintbits x" uv_empty] ok
    unfolding uv_make_def uv_resize_with_wire_max_val_def
    by (cases "uv_resize_with_uintbits e (max (uv_size v + 1) k) (compute_uintbits x) uv_empty") auto
  note t' = uv_make_ok [OF t]
  have grows: "uv_bits v < compute_uintbits x" using uintbits_grows [OF uv_invD(2) [OF v], of x] gt uv_invD(3) [OF v] by simp
  have w: "uv_inv (uv_widened v t)" "uv_bits (uv_widened v t) = compute_uintbits x"
    "vn (uv_data (uv_widened v t)) = compute_mem_size (compute_uintbits x) (max (uv_size v + 1) k)" "uv_size (uv_widened v t) = uv_size v"
    using uv_widened_ok [OF v t'(1)] t' grows uv_make_mem [OF t] by (simp_all add: uv_widened_def Let_def)
  show ?thesis
    using uv_push_verified_iff [OF w(1), of x] uv_wide_room [of "compute_uintbits x" "uv_size v" k] False gt t w
    by (simp add: uv_push_back_def uv_slow_path_forms uv_push_stuck_def k_def)
qed

section \<open>Building\<close>

lemma ci_half: "ci_wf t \<Longrightarrow> (2::int) ^ ci_width t = 2 * 2 ^ (ci_width t - 1)"
  by (cases "ci_width t") (simp_all add: ci_wf_def)

lemma ci_cast_id: "ci_wf t \<Longrightarrow> ci_ok t x \<Longrightarrow> ci_cast t x = x"
proof -
  assume t: "ci_wf t" and x: "ci_ok t x"
  define h :: int where "h = 2 ^ (ci_width t - 1)"
  have w: "2 ^ ci_width t = 2 * h" using ci_half [OF t] by (simp add: h_def)
  have h: "0 < h" by (simp add: h_def)
  have x': "if ci_signed t then - h \<le> x \<and> x < h else 0 \<le> x \<and> x < 2 * h" using x unfolding ci_ok_def w h_def .
  have "x mod (2 * h) = (if x < 0 then x + 2 * h else x)"
    using x' h mod_pos_pos_trivial [of "x + 2 * h" "2 * h"] mod_pos_pos_trivial [of x "2 * h"] by (auto split: if_splits)
  then show ?thesis using x' h unfolding ci_cast_def Let_def w h_def [symmetric] by (auto split: if_splits)
qed

lemma ci_cast_mod: "ci_wf t \<Longrightarrow> ci_cast t (x mod 2 ^ 64) = ci_cast t x"
proof -
  assume "ci_wf t"
  then have "(2::int) ^ ci_width t dvd 2 ^ 64" by (intro le_imp_power_dvd) (simp add: ci_wf_def)
  then show ?thesis unfolding ci_cast_def by (simp only: mod_mod_cancel)
qed

lemma ci_diff_bound: "ci_wf t \<Longrightarrow> ci_ok t x \<Longrightarrow> ci_ok t y \<Longrightarrow> x - y < 2 ^ ci_width t"
  using ci_half [of t] by (auto simp: ci_ok_def split: if_splits)

lemma ci_sub_eq:
  assumes t: "ci_wf t" and x: "ci_ok t x" "ci_ok t y" "y \<le> x"
    and s: "ci_signed t \<Longrightarrow> 32 \<le> ci_width t \<Longrightarrow> x - y < 2 ^ (ci_width t - 1)"
  shows "ci_sub t x y = Inr (x - y)" and "ci_uint t (x - y) = word_of_int (x - y)" and "0 \<le> x - y" and "x - y < 2 ^ 64"
proof -
  note b = ci_diff_bound [OF t x(1,2)]
  have m: "(x - y) mod 2 ^ ci_width t = x - y" using b x(3) by (intro mod_pos_pos_trivial) simp_all
  show "ci_uint t (x - y) = word_of_int (x - y)" unfolding ci_uint_def m ..
  have "ci_cast t (x - y) = x - y" if "ci_signed t" "32 \<le> ci_width t"
  proof (rule ci_cast_id [OF t])
    have "- (2 ^ (ci_width t - 1)) \<le> (0::int)" by simp
    then have "- (2 ^ (ci_width t - 1)) \<le> x - y" using x(3) by linarith
    then show "ci_ok t (x - y)" using s [OF that] that(1) unfolding ci_ok_def by (simp only: if_True)
  qed
  then show "ci_sub t x y = Inr (x - y)" using m by (simp add: ci_sub_def)
  show "0 \<le> x - y" using x(3) by simp
  have "(2::int) ^ ci_width t \<le> 2 ^ 64" using t by (intro power_increasing) (simp_all add: ci_wf_def)
  with b show "x - y < 2 ^ 64" by linarith
qed

lemma min_max_bounds:
  "min_max xs a b = (mn, mx) \<Longrightarrow>
    mn \<le> a \<and> b \<le> mx \<and> mn \<in> insert a (set xs) \<and> mx \<in> insert b (set xs) \<and> (\<forall>x \<in> set xs. mn \<le> x \<and> x \<le> mx)"
proof (induction xs arbitrary: a b)
  case (Cons x xs)
  have "min_max xs (if x < a then x else a) (if b < x then x else b) = (mn, mx)"
    using Cons.prems by (simp add: min_max_def Let_def)
  from Cons.IH [OF this] show ?case by (auto split: if_splits)
qed (simp add: min_max_def)

lemma uv_wire_loop_ok:
  assumes "ci_wf t" and "\<And>x. x \<in> set xs \<Longrightarrow> ci_sub t x m = Inr (x - m) \<and> ci_uint t (x - m) = word_of_int (x - m) \<and> word_of_int (x - m) \<le> uv_mask v"
    and "uv_inv v" and "i + length xs \<le> uv_size v"
  shows "\<exists>v'. uv_wire_loop t m i xs v = Inr v' \<and> uv_inv v' \<and> uv_bits v' = uv_bits v
    \<and> uv_wires v' = take i (uv_wires v) @ map (\<lambda>x. word_of_int (x - m)) xs @ drop (i + length xs) (uv_wires v)"
  using assms(2-4)
proof (induction xs arbitrary: i v)
  case (Cons x xs)
  define w where "w = uv_set_wire i (word_of_int (x - m)) v"
  have w: "uv_inv w" "uv_bits w = uv_bits v" "uv_mask w = uv_mask v" "uv_size w = uv_size v"
    "uv_wires w = (uv_wires v)[i := word_of_int (x - m)]"
    using Cons.prems by (simp_all add: w_def uv_set_wire_wires)
  have step: "uv_wire_loop t m i (x # xs) v = uv_wire_loop t m (Suc i) xs w" using Cons.prems(1) [of x] by (simp add: w_def)
  obtain v' where v': "uv_wire_loop t m (Suc i) xs w = Inr v'" "uv_inv v'" "uv_bits v' = uv_bits w"
    "uv_wires v' = take (Suc i) (uv_wires w) @ map (\<lambda>x. word_of_int (x - m)) xs @ drop (Suc i + length xs) (uv_wires w)"
    using Cons.IH [of w "Suc i"] Cons.prems w by auto
  have "take (Suc i) ((uv_wires v)[i := word_of_int (x - m)]) = take i (uv_wires v) @ [word_of_int (x - m)]"
    using Cons.prems(3) by (simp add: take_Suc_conv_app_nth)
  with v' w step show ?case by simp
qed (auto simp: uv_ok_def)

lemma uint_small: "0 \<le> x \<Longrightarrow> x < 2 ^ 64 \<Longrightarrow> uint (word_of_int x :: u64) = x"
  by (simp add: uint_word_of_int)

lemma uintbits_least:
  assumes "x < 2 ^ k" and "0 \<le> x" and "x < 2 ^ 64"
  shows "compute_uintbits (word_of_int x) \<le> k"
proof (cases "(word_of_int x :: u64) = 0")
  case True
  then have "compute_uintbits (word_of_int x) = 0" by (simp only: compute_uintbits_bounds(3))
  then show ?thesis by simp
next
  case False
  define n where "n = compute_uintbits (word_of_int x)"
  have "unat (word_of_int x :: u64) = nat x" unfolding unat_eq_nat_uint uint_small [OF assms(2,3)] ..
  with compute_uintbits_bounds(2) [OF False] have "2 ^ (n - 1) \<le> nat x" by (simp only: n_def)
  also have "nat x < 2 ^ k" using assms(1,2) by (simp add: nat_less_iff)
  finally have "n - 1 < k" by (rule power_less_imp_less_exp [rotated]) simp
  then show ?thesis by (simp add: n_def)
qed

lemma uv_build_from_ok:
  assumes t: "ci_wf t" and src: "\<forall>x \<in> set src. ci_ok t x" "ci_spread_ok t src" and r: "uv_build_from e t src v = r"
  shows "case r of Inl err \<Rightarrow> err = Bad_alloc \<and> (\<exists>c. \<not> v_ok e c) | Inr r \<Rightarrow> uv_built src r"
proof (cases src)
  case Nil
  then show ?thesis using r uv_clear_ok [of v] uv_clear_def [of v] by (auto simp: uv_build_from_def uv_built_def uv_nullize_def)
next
  case (Cons s0 rest)
  obtain m M where mm: "min_max rest s0 s0 = (m, M)" by (cases "min_max rest s0 s0")
  have b: "m \<in> set src" "M \<in> set src" "\<And>x. x \<in> set src \<Longrightarrow> m \<le> x \<and> x \<le> M"
    using min_max_bounds [OF mm] Cons by auto
  have sub: "ci_sub t x m = Inr (x - m)" "ci_uint t (x - m) = word_of_int (x - m)" "0 \<le> x - m" "x - m < 2 ^ 64" if "x \<in> set src" for x
    using ci_sub_eq [OF t, of x m] src b that by (auto simp: ci_spread_ok_def)
  define wm :: u64 where "wm = word_of_int (M - m)"
  have def: "uv_build_from e t src v = (case uv_resize_with_wire_max_val e (length src) wm v of
      Inl err \<Rightarrow> Inl err | Inr v \<Rightarrow> (case uv_wire_loop t m 0 src v of Inl err \<Rightarrow> Inl err | Inr v \<Rightarrow> Inr (m, v)))"
    unfolding Cons uv_build_from_def list.case mm prod.case Let_def sub(1,2) [OF b(2), unfolded Cons] sum.case wm_def ..
  show ?thesis
  proof (cases "uv_resize_with_wire_max_val e (length src) wm v")
    case (Inl err)
    then show ?thesis using r uv_resize_with_uintbits_err by (auto simp: def uv_resize_with_wire_max_val_def)
  next
    case (Inr w)
    have w: "uv_inv w" "uv_bits w = compute_uintbits wm" "uv_wires w = replicate (length src) 0"
      using uv_resize_with_wire_max_val_ok [of e "length src" wm v] Inr by simp_all
    have sz: "uv_size w = length src" using arg_cong [OF w(3), of length] by simp
    have le: "word_of_int (x - m) \<le> uv_mask w" if "x \<in> set src" for x
    proof -
      have "(word_of_int (x - m) :: u64) \<le> wm"
        unfolding wm_def word_le_def uint_small [OF sub(3,4) [OF that]] uint_small [OF sub(3,4) [OF b(2)]] using b(3) [OF that] by simp
      from uintbits_fits [OF this] show ?thesis using uv_invD(2,3) [OF w(1)] by (simp add: w le_mask_of)
    qed
    obtain v' where v': "uv_wire_loop t m 0 src w = Inr v'" "uv_inv v'" "uv_bits v' = uv_bits w"
      "uv_wires v' = map (\<lambda>x. word_of_int (x - m)) src"
      using uv_wire_loop_ok [OF t, of src m w 0] sub le w(1) sz by (auto simp: w(3))
    have bits: "uv_bits v' \<le> k" if "\<forall>x \<in> set src. x - m < 2 ^ k" for k
      using uintbits_least [of "M - m" k] that b(2) sub [OF b(2)] by (simp add: v' w wm_def)
    have "uv_built src (m, v')"
      unfolding uv_built_def using v' bits sub(3,4) b(1) by auto
    then show ?thesis using r Inr v' by (auto simp: def)
  qed
qed

lemma uv_built_nth:
  assumes "uv_built src (m, v)" and "i < length src"
  shows "uv_size v = length src" and "m + uint (uv_wires v ! i) = src ! i"
proof -
  have v: "uv_wires v = map (\<lambda>x. word_of_int (x - m)) src" "m \<le> src ! i" "src ! i - m < 2 ^ 64"
    using assms by (auto simp: uv_built_def)
  show "uv_size v = length src" using arg_cong [OF v(1), of length] by simp
  have "uv_wires v ! i = word_of_int (src ! i - m)" using assms(2) by (simp add: v(1))
  moreover have "uint (word_of_int (src ! i - m) :: u64) = src ! i - m" using v by (intro uint_small) simp_all
  ultimately show "m + uint (uv_wires v ! i) = src ! i" by simp
qed

section \<open>Searches\<close>

lemma uv_lower_loop_array:
  "(\<And>k. lo \<le> k \<Longrightarrow> k < hi \<Longrightarrow> g k = a ! k) \<Longrightarrow> uv_lower_loop g key lo hi = lower_bound_n a key lo hi"
proof (induction g key lo hi rule: uv_lower_loop.induct)
  case (1 g key lo hi)
  show ?case
  proof (cases "lo < hi")
    case True
    note m = mid_bounds [OF True]
    have "g ((lo + hi) div 2) = a ! ((lo + hi) div 2)" using 1(3) m by simp
    then show ?thesis using 1(1,2) [OF True refl] 1(3) True m
      by (subst uv_lower_loop.simps, subst lower_bound_n.simps) (simp add: Let_def)
  qed (simp add: uv_lower_loop.simps lower_bound_n.simps)
qed

lemma uv_upper_loop_array:
  "(\<And>k. lo \<le> k \<Longrightarrow> k < hi \<Longrightarrow> g k = a ! k) \<Longrightarrow> uv_upper_loop g key lo hi = upper_bound_n a key lo hi"
proof (induction g key lo hi rule: uv_upper_loop.induct)
  case (1 g key lo hi)
  show ?case
  proof (cases "lo < hi")
    case True
    note m = mid_bounds [OF True]
    have "g ((lo + hi) div 2) = a ! ((lo + hi) div 2)" using 1(3) m by simp
    then show ?thesis using 1(1,2) [OF True refl] 1(3) True m
      by (subst uv_upper_loop.simps, subst upper_bound_n.simps) (simp add: Let_def not_less [symmetric])
  qed (simp add: uv_upper_loop.simps upper_bound_n.simps)
qed

lemma uv_range_loop_array:
  "(\<And>k. lo \<le> k \<Longrightarrow> k < hi \<Longrightarrow> g k = a ! k) \<Longrightarrow> uv_range_loop g key lo hi = equal_range_c (<) (<) a key lo hi"
proof (induction g key lo hi rule: uv_range_loop.induct)
  case (1 g key lo hi)
  show ?case
  proof (cases "lo < hi")
    case True
    define mid where "mid = (lo + hi) div 2"
    have m: "lo \<le> mid" "mid < hi" using mid_bounds [OF True] by (simp_all add: mid_def)
    have g: "g mid = a ! mid" using 1(3) m by simp
    have lu: "uv_lower_loop g key lo mid = lower_bound_c (<) a key lo mid"
      "uv_upper_loop g key (mid + 1) hi = upper_bound_c (<) a key (mid + 1) hi"
      using uv_lower_loop_array [of lo mid g a key] uv_upper_loop_array [of "mid + 1" hi g a key] 1(3) m
      by (simp_all add: lower_bound_n_c upper_bound_n_c)
    show ?thesis using 1(1,2) [OF True mid_def] 1(3) True m g lu
      by (subst uv_range_loop.simps, subst equal_range_c.simps) (simp add: Let_def mid_def [symmetric])
  qed (simp add: uv_range_loop.simps equal_range_c.simps)
qed

lemma u0_fast_get_wires:
  "uv_inv v \<Longrightarrow> uv_bits v \<le> 58 \<Longrightarrow> k < uv_size v \<Longrightarrow> u0_fast_get (vdata (uv_data v)) (uv_bits v) (uv_mask v) k = uv_wires v ! k"
  using u0_get_wires [of v k] by (simp add: u0_get_def)

lemma bu_fast_get_wires: "uv_inv v \<Longrightarrow> k < uv_size v \<Longrightarrow> bu_fast_get (vdata (uv_data v)) (uv_bits v) k = uv_wires v ! k"
  using bu_get_wires [of v k] by (simp add: bu_get_def bu_fast_get_def Let_def)

lemma u0_search_array:
  assumes "uv_inv v" and "uv_bits v \<le> 58" and "hi \<le> uv_size v"
  shows "u0_lower_bound v lo hi key = lower_bound_n (uv_wires v) key lo hi"
    and "u0_upper_bound v lo hi key = upper_bound_n (uv_wires v) key lo hi"
    and "u0_equal_range v lo hi key = equal_range_c (<) (<) (uv_wires v) key lo hi"
  unfolding u0_lower_bound_def u0_upper_bound_def u0_equal_range_def using assms(3)
  by (auto intro!: uv_lower_loop_array uv_upper_loop_array uv_range_loop_array u0_fast_get_wires [OF assms(1,2)])

lemma bu_search_array:
  assumes "uv_inv v" and "hi \<le> uv_size v"
  shows "bu_lower_bound v lo hi key = lower_bound_n (uv_wires v) key lo hi"
    and "bu_upper_bound v lo hi key = upper_bound_n (uv_wires v) key lo hi"
    and "bu_equal_range v lo hi key = equal_range_c (<) (<) (uv_wires v) key lo hi"
  unfolding bu_lower_bound_def bu_upper_bound_def bu_equal_range_def using assms(2)
  by (auto intro!: uv_lower_loop_array uv_upper_loop_array uv_range_loop_array bu_fast_get_wires [OF assms(1)])

text \<open>The two bounds in a sorted array, as counts.\<close>

lemma sorted_bounds:
  fixes a :: "'a::linorder list"
  assumes "sorted a"
  shows "lower_bound_n a key 0 (length a) = length (filter (\<lambda>x. x < key) a)"
    and "upper_bound_n a key 0 (length a) = length (filter (\<lambda>x. x \<le> key) a)"
    and "equal_range_c (<) (<) a key 0 (length a) = (length (filter (\<lambda>x. x < key) a), length (filter (\<lambda>x. x \<le> key) a))"
proof -
  have s: "sorted_wrt (\<lambda>x y. \<not> y < x) a" using assms by (simp add: not_less)
  have p: "partitioned (<) (<) a key 0 (length a)" by (rule less.sorted_partitioned [OF s]) simp_all
  have l: "is_split (\<lambda>m. a ! m < key) 0 (length a) (lower_bound_n a key 0 (length a))"
    using less.lower_bound_sorted [OF s, of 0 "length a" key] by (simp add: lower_bound_n_c)
  have u: "is_split (\<lambda>m. a ! m \<le> key) 0 (length a) (upper_bound_n a key 0 (length a))"
    using less.upper_bound_sorted [OF s, of 0 "length a" key] by (simp add: upper_bound_n_c not_less)
  show lb: "lower_bound_n a key 0 (length a) = length (filter (\<lambda>x. x < key) a)"
    using split_filter [OF l] filter_nth [of "\<lambda>x. x < key" a] by simp
  show ub: "upper_bound_n a key 0 (length a) = length (filter (\<lambda>x. x \<le> key) a)"
    using split_filter [OF u] filter_nth [of "\<lambda>x. x \<le> key" a] by simp
  show "equal_range_c (<) (<) a key 0 (length a) = (length (filter (\<lambda>x. x < key) a), length (filter (\<lambda>x. x \<le> key) a))"
    using equal_range_c_both [OF p bracket_start [OF p]] lb ub by (simp add: both_bounds_def lower_bound_n_c upper_bound_n_c)
qed

text \<open>Keys above the minimum of a vector of unsigned integers, relative to it.\<close>

lemma built_compare:
  assumes b: "uv_built src (m, v)" and m: "0 \<le> m" "m < uint (key :: u64)" and x: "x \<in> set src"
  shows "word_of_int (x - m) < key - word_of_int m \<longleftrightarrow> x < uint key"
    and "word_of_int (x - m) \<le> key - word_of_int m \<longleftrightarrow> x \<le> uint key"
proof -
  have d: "uint (word_of_int (x - m) :: u64) = x - m" using b x by (intro uint_small) (auto simp: uv_built_def)
  have "uint key < 2 ^ 64" using uint_lt2p [of key] by simp
  then have "uint (word_of_int (uint key - m) :: u64) = uint key - m" using m by (intro uint_small) simp_all
  then have k: "uint (key - word_of_int m) = uint key - m" by simp
  show "word_of_int (x - m) < key - word_of_int m \<longleftrightarrow> x < uint key" unfolding word_less_def d k by simp
  show "word_of_int (x - m) \<le> key - word_of_int m \<longleftrightarrow> x \<le> uint key" unfolding word_le_def d k by simp
qed

lemma built_sorted:
  assumes b: "uv_built src (m, v)" and s: "sorted src"
  shows "sorted (uv_wires v)"
proof -
  have "(word_of_int (x - m) :: u64) \<le> word_of_int (y - m)" if "x \<in> set src" "y \<in> set src" "x \<le> y" for x y
  proof -
    have "uint (word_of_int (z - m) :: u64) = z - m" if "z \<in> set src" for z
      using b that by (intro uint_small) (auto simp: uv_built_def)
    then show ?thesis unfolding word_le_def using that by simp
  qed
  then have "sorted (map (\<lambda>x. word_of_int (x - m) :: u64) src)"
    using s by (simp only: sorted_map) (auto intro: sorted_wrt_mono_rel [rotated])
  then show ?thesis using b by (simp add: uv_built_def)
qed

lemma uv_sample_inv: "uv_inv uv_sample"
  by (simp add: uv_sample_def uv_inv_def vv_inv_def vdata_def uv_mask_of_def compute_mem_size_def push_bit_eq_mult)

text \<open>\<open>UintVecMin0\<close> does not refuse more than 58 bits when it is resized or built: element 5 of a vector of 59-bit integers
  starts at bit 7 of a byte, and the load of 8 bytes does not hold its last two bits.\<close>

lemma u0_get_truncates: "u0_get uv_wide_sample 5 = mask 57" "bu_get uv_wide_sample 5 = mask 59" "uv_inv uv_wide_sample"
proof -
  show "u0_get uv_wide_sample 5 = mask 57" by code_simp
  show "bu_get uv_wide_sample 5 = mask 59" by code_simp
  show "uv_inv uv_wide_sample" by code_simp
qed

text \<open>A negative minimum is compared as a huge \<open>size_t\<close>: no key below \<open>2^63\<close> is searched for.\<close>

lemma zip_search_negative_min:
  assumes "- (2 ^ 63) \<le> zv_min z" and "zv_min z < 0" and "uint key < 2 ^ 63"
  shows "zv_lower_bound z lo hi key = lo \<and> zv_upper_bound z lo hi key = lo \<and> zv_equal_range z lo hi key = (lo, lo)"
proof -
  have "uint (word_of_int (zv_min z) :: u64) = zv_min z mod 2 ^ 64" by (simp add: uint_word_of_int)
  also have "\<dots> = zv_min z + 2 ^ 64"
    using assms(1,2) mod_pos_pos_trivial [of "zv_min z + 2 ^ 64" "2 ^ 64"] by simp
  finally have "\<not> word_of_int (zv_min z) < key" unfolding word_less_def using assms(1,3) by simp
  then show ?thesis by (simp add: zv_lower_bound_def zv_upper_bound_def zv_equal_range_def)
qed

text \<open>The searches of a vector of unsigned integers built from a sorted array.\<close>

lemma zip_search_built:
  assumes s: "sorted src" and r: "\<forall>x \<in> set src. 0 \<le> x \<and> x < 2 ^ 64" and sp: "\<forall>x \<in> set src. \<forall>y \<in> set src. x - y < 2 ^ 58"
    and b: "uv_build_from e Size_t src v0 = Inr (m, v)" "uv_built src (m, v)" and z: "zv_base z = v" "zv_min z = ci_cast Size_t m"
  shows "(src \<noteq> [] \<longrightarrow> zv_min z = hd src)
    \<and> zv_lower_bound_all z key = length (filter (\<lambda>x. x < uint key) src)
    \<and> zv_upper_bound_all z key = (if uint key = zv_min z then 0 else length (filter (\<lambda>x. x \<le> uint key) src))
    \<and> zv_equal_range_all z key = (if uint key = zv_min z then (0, 0)
        else (length (filter (\<lambda>x. x < uint key) src), length (filter (\<lambda>x. x \<le> uint key) src)))"
proof (cases "src = []")
  case True
  then have "uv_size v = 0" using b(2) length_uv_wires [of v] by (auto simp: uv_built_def)
  then show ?thesis
    using True z(1) by (auto simp: zv_lower_bound_all_def zv_upper_bound_all_def zv_equal_range_all_def zv_lower_bound_def
        zv_upper_bound_def zv_equal_range_def u0_lower_bound_def u0_upper_bound_def u0_equal_range_def
        uv_lower_loop.simps uv_upper_loop.simps uv_range_loop.simps)
next
  case False
  have m: "m \<in> set src" "\<And>x. x \<in> set src \<Longrightarrow> m \<le> x" and bits: "uv_bits v \<le> 58" and v: "uv_inv v"
    "uv_wires v = map (\<lambda>x. word_of_int (x - m)) src" using b(2) False sp by (auto simp: uv_built_def)
  have sz: "uv_size v = length (uv_wires v)" by simp
  have mt: "zv_min z = m" using ci_cast_id [of Size_t m] r m(1) by (simp add: z(2) ci_wf_def ci_ok_def)
  have mr: "0 \<le> m" "m < 2 ^ 64" using r m(1) by auto
  have hd: "m = hd src" using s False m by (cases src) force+
  have cmp: "word_of_int (zv_min z) < key \<longleftrightarrow> m < uint key" unfolding mt word_less_def uint_small [OF mr] ..
  note array = u0_search_array [OF v(1) bits order_refl, of 0]
  note srt = sorted_bounds [OF built_sorted [OF b(2) s], folded sz]
  have cl: "length (filter (\<lambda>x. x < key - word_of_int m) (uv_wires v)) = length (filter (\<lambda>x. x < uint key) src)"
    and cu: "length (filter (\<lambda>x. x \<le> key - word_of_int m) (uv_wires v)) = length (filter (\<lambda>x. x \<le> uint key) src)" if "m < uint key"
    unfolding v(2) filter_map length_map comp_def using built_compare [OF b(2) mr(1) that]
    by (auto intro!: arg_cong [of _ _ length] filter_cong)
  have below: "filter (\<lambda>x. x < uint key) src = []" if "uint key \<le> m" using m(2) that by (force simp: filter_empty_conv)
  have below': "filter (\<lambda>x. x \<le> uint key) src = []" if "uint key < m" using m(2) that by (force simp: filter_empty_conv)
  show ?thesis
    using hd mt cmp array srt cl cu below below' z(1)
    by (cases "m < uint key"; cases "uint key = m")
      (auto simp: zv_lower_bound_all_def zv_upper_bound_all_def zv_equal_range_all_def zv_lower_bound_def zv_upper_bound_def zv_equal_range_def)
qed

section \<open>Properties\<close>



text \<open>C31. Reads: \<open>BigUintVecMin0::get\<close> returns the stored integer for every width; \<open>UintVecMin0::get\<close>, one unaligned
  load of 8 bytes, a shift and a mask, returns the same for widths up to 58; and that load stays inside the block for every
  index of the vector.\<close>

theorem int_vector_reads_agree:
  assumes "uv_inv v" and "idx < uv_size v"
  shows "bu_get v idx = uv_wires v ! idx \<and> (uv_bits v \<le> 58 \<longrightarrow> u0_get v idx = bu_get v idx)
    \<and> uv_bits v * idx div 8 + 8 \<le> uv_mem_size v"
proof -
  define p where "p = uv_bits v * idx"
  have "8 * (p div 8) \<le> p" by simp
  moreover have "(uv_bits v * uv_size v + 7) div 8 + 7 \<le> vn (uv_data v)"
    using compute_mem_size_room [of "uv_bits v" "uv_size v"] assms by (auto simp: uv_inv_def)
  moreover have "p div 8 + 1 \<le> (uv_bits v * uv_size v + 7) div 8" if "uv_bits v \<noteq> 0"
  proof -
    have "p + 8 \<le> uv_bits v * uv_size v + 7" using wire_end [OF assms(2), of "uv_bits v"] that unfolding p_def by linarith
    then have "(p + 8) div 8 \<le> (uv_bits v * uv_size v + 7) div 8" by (rule div_le_mono)
    then show ?thesis by simp
  qed
  moreover have "16 \<le> vn (uv_data v)" using assms compute_mem_size_pos [of "uv_bits v" "uv_size v"] by (auto simp: uv_inv_def)
  ultimately have "p div 8 + 8 \<le> uv_mem_size v" by (cases "uv_bits v = 0") (auto simp: uv_mem_size_def p_def)
  then show ?thesis using bu_get_wires [OF assms] u0_get_wires [OF assms(1) _ assms(2)] by (simp add: p_def)
qed

theorem int_vector_reads_agree_witness:
  "bu_get uv_sample 2 = uv_wires uv_sample ! 2 \<and> u0_get uv_sample 2 = bu_get uv_sample 2
    \<and> uv_bits uv_sample * 2 div 8 + 8 \<le> uv_mem_size uv_sample"
  using int_vector_reads_agree [OF uv_sample_inv, of 2] by (simp add: uv_sample_def)

text \<open>C32. With memory available, \<open>push_back\<close> appends its argument, or ends the program in \<open>TERARK_VERIFY_LT\<close>; which of the two
  is decided by the sizes alone: when the value fits the width, it ends the program only for a block of exactly 16 bytes whose
  next element needs a block of 32, and when it does not fit, exactly if the vector of \<open>max(num+1, num*103/64)\<close> elements of the new
  width needs no more memory than one of \<open>num+1\<close>.\<close>

theorem uv_push_back_outcome:
  assumes "uv_inv v" and "\<forall>n. v_ok e n"
  shows "if uv_push_stuck x v then uv_push_back e x v = Inl Abort
    else (\<exists>v'. uv_push_back e x v = Inr v' \<and> uv_inv v' \<and> uv_wires v' = uv_wires v @ [x])"
proof (cases "uv_push_back e x v")
  case (Inl err)
  with uv_push_back_err [OF Inl] assms(2) have "err = Abort" by simp
  with Inl uv_push_back_stuck_iff [OF assms(1), of e x] assms(2) show ?thesis by simp
next
  case (Inr v')
  with uv_push_back_ok [OF assms(1), of e x] uv_push_back_stuck_iff [OF assms(1), of e x] assms(2) show ?thesis by auto
qed

theorem uv_push_back_outcome_witness:
  "if uv_push_stuck 17 uv_sample then uv_push_back uvenv0 17 uv_sample = Inl Abort
    else (\<exists>v'. uv_push_back uvenv0 17 uv_sample = Inr v' \<and> uv_inv v' \<and> uv_wires v' = uv_wires uv_sample @ [17])"
  by (rule uv_push_back_outcome [OF uv_sample_inv]) (simp add: uvenv0_def)

text \<open>\<open>push_back\<close> of a value other than 0 on a new, empty vector never appends it: the vector of one element that the slow path
  makes has 16 bytes, and \<open>TERARK_VERIFY_LT\<close> asks for more than the 16 bytes one element needs.\<close>

theorem uv_push_first_aborts:
  assumes "x \<noteq> 0"
  shows "uv_push_back e x uv_empty = (if v_ok e 16 then Inl Abort else Inl Bad_alloc)"
proof -
  define b where "b = compute_uintbits x"
  have b: "b \<le> 64" "0 < b" using compute_uintbits_bounds(3,4) [of x] assms by (simp_all add: b_def)
  have gt: "\<not> x \<le> 0" "0 < x" using assms by (simp_all add: word_greater_zero_iff)
  have one: "compute_mem_size b (Suc 0) = 16" using compute_mem_size_one [OF b(1)] by simp
  have make: "uv_make e (Suc 0) x = (if v_ok e 16 then Inr \<lparr>uv_data = \<lparr>vp = Some (replicate 16 0), vn = 16, vc = 16\<rparr>,
      uv_bits = b, uv_mask = uv_mask_of b, uv_size = 1\<rparr> else Inl Bad_alloc)"
    by (simp add: uv_make_def uv_resize_with_wire_max_val_def b_def [symmetric] uv_resize_with_uintbits_def one uv_clear_def uv_empty_def
        uv_nullize_def vv_clear_def vv_empty_def vv_resize_fill_def vv_ensure_capacity_def vv_ensure_capacity_slow_def
        larger_capacity_def v_realloc_def upd_slots_def put_at_def)
  show ?thesis using gt one
    by (simp add: uv_push_back_def uv_slow_path_forms uv_empty_def vv_empty_def make uv_widened_def uv_copy_wires_def uv_push_verified_def)
qed

theorem uv_push_first_aborts_witness: "uv_push_back uvenv0 5 uv_empty = Inl Abort"
  using uv_push_first_aborts [of 5 uvenv0] by (simp add: uvenv0_def)



text \<open>C19. The searches in a packed vector return what the searches of a plain array return on the list of its integers, for
  every range of indices and key, sorted or not: \<open>UintVecMin0\<close> for widths up to 58, \<open>BigUintVecMin0\<close> for all.\<close>

theorem packed_search_is_array_search:
  assumes "uv_inv v" and "hi \<le> uv_size v"
  shows "bu_lower_bound v lo hi key = lower_bound_n (uv_wires v) key lo hi
    \<and> bu_upper_bound v lo hi key = upper_bound_n (uv_wires v) key lo hi
    \<and> bu_equal_range v lo hi key = equal_range_c (<) (<) (uv_wires v) key lo hi
    \<and> (uv_bits v \<le> 58 \<longrightarrow> u0_lower_bound v lo hi key = bu_lower_bound v lo hi key
        \<and> u0_upper_bound v lo hi key = bu_upper_bound v lo hi key \<and> u0_equal_range v lo hi key = bu_equal_range v lo hi key)"
  using bu_search_array [OF assms] u0_search_array [OF assms(1) _ assms(2)] by simp

theorem packed_search_is_array_search_witness:
  "bu_lower_bound uv_sample 0 3 9 = lower_bound_n (uv_wires uv_sample) 9 0 3
    \<and> bu_upper_bound uv_sample 0 3 9 = upper_bound_n (uv_wires uv_sample) 9 0 3
    \<and> bu_equal_range uv_sample 0 3 9 = equal_range_c (<) (<) (uv_wires uv_sample) 9 0 3
    \<and> u0_lower_bound uv_sample 0 3 9 = bu_lower_bound uv_sample 0 3 9"
  using packed_search_is_array_search [OF uv_sample_inv, of 3 0 9] by (simp add: uv_sample_def)

text \<open>C36. Searching a \<open>UintVector\<close> built from a sorted array: \<open>lower_bound\<close> is the number of smaller elements; \<open>upper_bound\<close> is the number
  of elements up to the key and \<open>equal_range\<close> is both, except for the key equal to the minimum, for which \<open>upper_bound\<close> returns
  0 and \<open>equal_range\<close> the empty range \<open>(0, 0)\<close> although the first element equals the key.\<close>

theorem zip_search_counts:
  assumes "sorted src" and "\<forall>x \<in> set src. 0 \<le> x \<and> x < 2 ^ 64" and "\<forall>x \<in> set src. \<forall>y \<in> set src. x - y < 2 ^ 58" and "\<forall>n. v_ok e n"
  shows "\<exists>z'. zv_build_from e Size_t Size_t src z = Inr z' \<and> (src \<noteq> [] \<longrightarrow> zv_min z' = hd src)
    \<and> zv_lower_bound_all z' key = length (filter (\<lambda>x. x < uint key) src)
    \<and> zv_upper_bound_all z' key = (if uint key = zv_min z' then 0 else length (filter (\<lambda>x. x \<le> uint key) src))
    \<and> zv_equal_range_all z' key = (if uint key = zv_min z' then (0, 0)
        else (length (filter (\<lambda>x. x < uint key) src), length (filter (\<lambda>x. x \<le> uint key) src)))"
proof -
  have t: "ci_wf Size_t" "\<forall>x \<in> set src. ci_ok Size_t x" "ci_spread_ok Size_t src"
    using assms(2) by (simp_all add: ci_wf_def ci_ok_def ci_spread_ok_def)
  obtain m v where b: "uv_build_from e Size_t src (zv_base z) = Inr (m, v)" "uv_built src (m, v)"
    using uv_build_from_ok [OF t, of e "zv_base z"] assms(4) by (auto split: sum.splits)
  define z' where "z' = z\<lparr>zv_base := v, zv_min := ci_cast Size_t m\<rparr>"
  have z': "zv_build_from e Size_t Size_t src z = Inr z'" "zv_base z' = v" "zv_min z' = ci_cast Size_t m"
    using b(1) by (simp_all add: zv_build_from_def z'_def)
  show ?thesis using zip_search_built [OF assms(1-3) b z'(2,3)] z'(1) by blast
qed

theorem zip_search_counts_witness:
  "\<exists>z'. zv_build_from uvenv0 Size_t Size_t [4, 4, 9] zv_empty = Inr z' \<and> zv_min z' = 4
    \<and> zv_lower_bound_all z' 4 = 0 \<and> zv_upper_bound_all z' 4 = 0 \<and> zv_equal_range_all z' 4 = (0, 0)"
  using zip_search_counts [of "[4, 4, 9]" uvenv0 zv_empty 4] by (auto simp: uvenv0_def)

end
