(* ===== verification/HeapExt.thy ===== *)
theory HeapExt
  imports SearchAlgo "HOL-Library.Multiset"
begin

text \<open>
  The heap algorithms of \<open>src/src/terark/heap_ext.hpp\<close>: a heap is the range \<open>[0, len)\<close> of an array, \<open>cmp\<close> orders its elements and the
  greatest is at index 0; \<open>first\<close> is the array. The loops move a hole down to a leaf and then put the value on the way up. The overloads
  with a \<open>SyncIndex\<close> are not modelled: the \<open>terark_heap_hole_down\<close> they are built on is declared \<open>void\<close>, returns a value and is used
  for one, so no instantiation of them compiles.
\<close>

section \<open>The algorithms\<close>

function terark_heap_hole_up :: "'a list \<Rightarrow> nat \<Rightarrow> nat \<Rightarrow> 'a \<Rightarrow> ('a \<Rightarrow> 'a \<Rightarrow> bool) \<Rightarrow> 'a list" where
  "terark_heap_hole_up first hole tp val cmp =
     (if tp < hole \<and> cmp (first ! ((hole - 1) div 2)) val then
        let parent = (hole - 1) div 2 in terark_heap_hole_up (first[hole := first ! parent]) parent tp val cmp
      else first[hole := val])"
  by pat_completeness auto
termination
  by (relation "measure (\<lambda>(first, hole, tp, val, cmp). hole)") auto

declare terark_heap_hole_up.simps [simp del]

function terark_heap_hole_down :: "'a list \<Rightarrow> nat \<Rightarrow> nat \<Rightarrow> ('a \<Rightarrow> 'a \<Rightarrow> bool) \<Rightarrow> 'a list \<times> nat" where
  "terark_heap_hole_down first hole len cmp =
     (let child2 = 2 * hole + 2 in
      if child2 < len then
        let child2 = (if cmp (first ! child2) (first ! (child2 - 1)) then child2 - 1 else child2)
        in terark_heap_hole_down (first[hole := first ! child2]) child2 len cmp
      else if child2 = len then
        let child2 = child2 - 1 in (first[hole := first ! child2], child2)
      else (first, hole))"
  by pat_completeness auto
termination
  by (relation "measure (\<lambda>(first, hole, len, cmp). len - hole)") auto

declare terark_heap_hole_down.simps [simp del]

definition terark_adjust_heap :: "'a list \<Rightarrow> nat \<Rightarrow> nat \<Rightarrow> 'a \<Rightarrow> ('a \<Rightarrow> 'a \<Rightarrow> bool) \<Rightarrow> 'a list" where
  "terark_adjust_heap first hole len val cmp =
     (let (first, leaf_hole) = terark_heap_hole_down first hole len cmp; tp = hole
      in terark_heap_hole_up first leaf_hole tp val cmp)"

definition pop_heap_ignore_top :: "'a list \<Rightarrow> nat \<Rightarrow> ('a \<Rightarrow> 'a \<Rightarrow> bool) \<Rightarrow> 'a list" where
  "pop_heap_ignore_top first len cmp =
     (if 1 < len then let len = len - 1 in terark_adjust_heap first 0 len (first ! len) cmp else first)"

definition adjust_heap_top :: "'a list \<Rightarrow> nat \<Rightarrow> ('a \<Rightarrow> 'a \<Rightarrow> bool) \<Rightarrow> 'a list" where
  "adjust_heap_top first len cmp = (if 1 < len then terark_adjust_heap first 0 len (first ! 0) cmp else first)"

section \<open>Heap order\<close>

definition parent :: "nat \<Rightarrow> nat" where
  "parent i = (i - 1) div 2"

text \<open>\<open>heap_from lt f tp len\<close>: no element whose parent has an index of at least \<open>tp\<close> is above its parent; \<open>below t h\<close>: \<open>h\<close> is \<open>t\<close> or a
  descendant of it.\<close>

definition heap_from :: "('a \<Rightarrow> 'a \<Rightarrow> bool) \<Rightarrow> 'a list \<Rightarrow> nat \<Rightarrow> nat \<Rightarrow> bool" where
  "heap_from lt f tp len \<longleftrightarrow> (\<forall>i. 0 < i \<and> i < len \<and> tp \<le> parent i \<longrightarrow> \<not> lt (f ! parent i) (f ! i))"

definition is_heap :: "('a \<Rightarrow> 'a \<Rightarrow> bool) \<Rightarrow> 'a list \<Rightarrow> nat \<Rightarrow> bool" where
  "is_heap lt f len \<longleftrightarrow> (\<forall>i. 0 < i \<and> i < len \<longrightarrow> \<not> lt (f ! parent i) (f ! i))"

definition below :: "nat \<Rightarrow> nat \<Rightarrow> bool" where
  "below t h \<longleftrightarrow> (\<exists>k. (parent ^^ k) h = t)"

text \<open>A heap with a hole: the order holds between the elements other than the hole, also across it.\<close>

definition holed :: "('a \<Rightarrow> 'a \<Rightarrow> bool) \<Rightarrow> 'a list \<Rightarrow> nat \<Rightarrow> nat \<Rightarrow> nat \<Rightarrow> bool" where
  "holed lt f tp len hole \<longleftrightarrow>
     (\<forall>i. 0 < i \<and> i < len \<and> tp \<le> parent i \<and> parent i \<noteq> hole \<and> i \<noteq> hole \<longrightarrow> \<not> lt (f ! parent i) (f ! i))
     \<and> (\<forall>i. 0 < i \<and> i < len \<and> parent i = hole \<and> tp < hole \<longrightarrow> \<not> lt (f ! parent hole) (f ! i))"

definition fits_above :: "('a \<Rightarrow> 'a \<Rightarrow> bool) \<Rightarrow> 'a list \<Rightarrow> nat \<Rightarrow> nat \<Rightarrow> 'a \<Rightarrow> bool" where
  "fits_above lt f len hole val \<longleftrightarrow> (\<forall>i. 0 < i \<and> i < len \<and> parent i = hole \<longrightarrow> \<not> lt val (f ! i))"

definition heap_sample :: "nat list" where
  "heap_sample = [9, 7, 8, 1, 7, 2]"

lemma parent_less: "0 < i \<Longrightarrow> parent i < i"
  by (simp add: parent_def)

lemma parent_le: "parent i \<le> i"
  by (simp add: parent_def)

lemma parent_child [simp]: "parent (2 * p + 2) = p" "parent (2 * p + 1) = p" "parent (Suc (2 * p)) = p" "parent (Suc (Suc (2 * p))) = p"
  by (simp_all add: parent_def)

lemma child_of_parent: "0 < i \<Longrightarrow> i = 2 * parent i + 1 \<or> i = 2 * parent i + 2"
  unfolding parent_def by presburger

lemma below_refl [simp]: "below t t"
  unfolding below_def by (rule exI [of _ 0]) simp

lemma below_child: "below t (parent c) \<Longrightarrow> below t c"
  unfolding below_def by (auto simp: funpow_swap1 intro: exI [of _ "Suc _"])

lemma below_le: "below t h \<Longrightarrow> t \<le> h"
proof -
  have "(parent ^^ k) h \<le> h" for k
    by (induction k) (auto intro: order_trans [OF parent_le])
  then show "below t h \<Longrightarrow> t \<le> h" unfolding below_def by blast
qed

lemma below_parent: "below t h \<Longrightarrow> t \<noteq> h \<Longrightarrow> below t (parent h)"
proof -
  assume "below t h" "t \<noteq> h"
  then obtain k where "(parent ^^ k) h = t" unfolding below_def by blast
  with \<open>t \<noteq> h\<close> obtain j where "(parent ^^ j) (parent h) = t" by (cases k) (auto simp: funpow_swap1)
  then show ?thesis unfolding below_def by blast
qed

lemma mset_move:
  assumes "i < length f" and "j < length f"
  shows "mset (f[i := f ! j]) + {#f ! i#} = mset f + {#f ! j#}"
  using assms by (simp add: mset_update)

lemma mset_chain:
  assumes "A + {#y#} = B + {#v#}" and "B + {#x#} = C + {#y#}"
  shows "A + {#x#} = C + {#v#}"
proof -
  have "add_mset y (add_mset x A) = add_mset v (add_mset y C)"
    using assms by (metis add_mset_add_single add_mset_commute)
  then show ?thesis by (simp add: add_mset_commute)
qed

section \<open>The loops\<close>

context strict_weak_order
begin

lemma asym: "lt x y \<Longrightarrow> \<not> lt y x"
  using irrefl trans by blast

lemma not_less_trans: "\<not> lt x y \<Longrightarrow> \<not> lt y z \<Longrightarrow> \<not> lt x z"
  using comparable by blast

text \<open>Moving a child up into the hole.\<close>

lemma holed_down:
  assumes h: "holed lt f tp len hole" and b: "below tp hole" and c: "0 < c" "c < len" "parent c = hole" and l: "len \<le> length f"
    and sib: "\<And>i. 0 < i \<Longrightarrow> i < len \<Longrightarrow> parent i = hole \<Longrightarrow> \<not> lt (f ! c) (f ! i)"
  shows "holed lt (f[hole := f ! c]) tp len c"
proof -
  have hc: "hole < c" using parent_less [OF c(1)] c(3) by simp
  have tp: "tp \<le> hole" by (rule below_le [OF b])
  have get: "(f[hole := f ! c]) ! i = (if i = hole then f ! c else f ! i)" if "i < len" for i
    using that l by (simp add: nth_list_update)
  have hl: "hole < len" using hc c(2) by simp
  have "\<not> lt ((f[hole := f ! c]) ! parent i) ((f[hole := f ! c]) ! i)"
    if i: "0 < i" "i < len" "tp \<le> parent i" "parent i \<noteq> c" "i \<noteq> c" for i
  proof -
    have pl: "parent i < i" "parent i < len" using parent_less [OF i(1)] i(2) by simp_all
    show ?thesis
    proof (cases "i = hole")
      case True
      then have "tp < hole" using i(3) pl by simp
      with h c True have "\<not> lt (f ! parent hole) (f ! c)" by (auto simp: holed_def)
      then show ?thesis using True i pl by (simp add: get)
    next
      case False
      then show ?thesis using sib [OF i(1,2)] h i pl unfolding holed_def by (auto simp: get)
    qed
  qed
  moreover have "\<not> lt ((f[hole := f ! c]) ! parent c) ((f[hole := f ! c]) ! i)" if i: "0 < i" "i < len" "parent i = c" for i
  proof -
    have "i \<noteq> hole" "parent i \<noteq> hole" using parent_less [OF i(1)] i(3) hc by simp_all
    moreover have "tp \<le> parent i" using tp hc i(3) by simp
    ultimately have "\<not> lt (f ! c) (f ! i)" using h i unfolding holed_def by metis
    then show ?thesis using i \<open>i \<noteq> hole\<close> hl by (simp add: get c(3))
  qed
  ultimately show ?thesis unfolding holed_def by blast
qed

lemma hole_down:
  assumes "holed lt f tp len hole" and "below tp hole" and "hole < len" and "len \<le> length f"
    and "terark_heap_hole_down f hole len lt = (f', leaf)"
  shows "holed lt f' tp len leaf \<and> below tp leaf \<and> leaf < len \<and> len \<le> 2 * leaf + 1 \<and> length f' = length f
    \<and> mset f' + {#f ! hole#} = mset f + {#f' ! leaf#} \<and> drop len f' = drop len f"
  using assms
proof (induction "len - hole" arbitrary: f hole f' leaf rule: less_induct)
  case less
  note h = less.prems(1) and b = less.prems(2) and hl = less.prems(3) and l = less.prems(4) and r = less.prems(5)
  define c2 where "c2 = 2 * hole + 2"
  have kids: "i = c2 \<or> i = c2 - 1" if "0 < i" "parent i = hole" for i using child_of_parent [OF that(1)] unfolding that(2) c2_def by auto
  have down: "holed lt (f[hole := f ! c]) tp len c" "below tp c" "mset (f[hole := f ! c]) + {#f ! hole#} = mset f + {#f ! c#}"
    "drop len (f[hole := f ! c]) = drop len f" "f[hole := f ! c] ! c = f ! c"
    if c: "c = c2 \<or> c = c2 - 1" "c < len" "\<forall>i. 0 < i \<and> i < len \<and> parent i = hole \<longrightarrow> \<not> lt (f ! c) (f ! i)" for c
  proof -
    have pc: "0 < c" "parent c = hole" "c \<noteq> hole" using c(1) by (auto simp: c2_def)
    show "holed lt (f[hole := f ! c]) tp len c" using c(3) by (intro holed_down [OF h b pc(1) c(2) pc(2) l]) simp
    show "below tp c" using below_child [of tp c] b pc(2) by simp
    show "mset (f[hole := f ! c]) + {#f ! hole#} = mset f + {#f ! c#}" using hl c(2) l by (intro mset_move) simp_all
    show "drop len (f[hole := f ! c]) = drop len f" using hl by simp
    show "f[hole := f ! c] ! c = f ! c" using pc(3) by simp
  qed
  consider (two) "c2 < len" | (one) "c2 = len" | (none) "len < c2" by linarith
  then show ?case
  proof cases
    case two
    define c where "c = (if lt (f ! c2) (f ! (c2 - 1)) then c2 - 1 else c2)"
    have c: "c = c2 \<or> c = c2 - 1" "c < len" using two by (auto simp: c_def)
    have "\<not> lt (f ! c) (f ! i)" if "0 < i" "parent i = hole" for i
      using kids [OF that] asym irrefl by (auto simp: c_def split: if_splits)
    then have sib: "\<forall>i. 0 < i \<and> i < len \<and> parent i = hole \<longrightarrow> \<not> lt (f ! c) (f ! i)" by blast
    note d = down [OF c sib]
    have "terark_heap_hole_down f hole len lt = terark_heap_hole_down (f[hole := f ! c]) c len lt"
      using two by (subst terark_heap_hole_down.simps) (simp only: Let_def c2_def [symmetric] c_def [symmetric] if_True)
    then have r': "terark_heap_hole_down (f[hole := f ! c]) c len lt = (f', leaf)" using r by simp
    have "len - c < len - hole" using c hl by (auto simp: c2_def)
    moreover have "len \<le> length (f[hole := f ! c])" using l by simp
    ultimately have IH: "holed lt f' tp len leaf \<and> below tp leaf \<and> leaf < len \<and> len \<le> 2 * leaf + 1 \<and> length f' = length (f[hole := f ! c])
      \<and> mset f' + {#(f[hole := f ! c]) ! c#} = mset (f[hole := f ! c]) + {#f' ! leaf#} \<and> drop len f' = drop len (f[hole := f ! c])"
      by (rule less.hyps [OF _ d(1,2) c(2) _ r'])
    then have "mset f' + {#f ! c#} = mset (f[hole := f ! c]) + {#f' ! leaf#}" by (simp only: d(5))
    from mset_chain [OF this d(3)] IH show ?thesis by (simp only: d(4) length_list_update)
  next
    case one
    then have c: "c2 - 1 < len" using hl by (simp add: c2_def)
    have "\<not> lt (f ! (c2 - 1)) (f ! i)" if "0 < i" "i < len" "parent i = hole" for i
      using kids [OF that(1,3)] that(2) one irrefl by auto
    then have sib: "\<forall>i. 0 < i \<and> i < len \<and> parent i = hole \<longrightarrow> \<not> lt (f ! (c2 - 1)) (f ! i)" by blast
    note d = down [OF disjI2 [OF refl] c sib]
    have "f' = f[hole := f ! (c2 - 1)]" "leaf = c2 - 1"
      using r one by (subst (asm) terark_heap_hole_down.simps; simp add: c2_def Let_def)+
    moreover have "len \<le> 2 * (c2 - 1) + 1" using one by linarith
    ultimately show ?thesis using d c by (simp only: length_list_update)
  next
    case none
    then have "f' = f" "leaf = hole" using r by (subst (asm) terark_heap_hole_down.simps; simp add: c2_def Let_def)+
    then show ?thesis using none h b hl by (simp add: c2_def)
  qed
qed

text \<open>Moving the parent down into the hole.\<close>

lemma holed_up:
  assumes h: "holed lt f tp len hole" and b: "below tp hole" "tp < hole" and hl: "hole < len" and l: "len \<le> length f"
    and v: "fits_above lt f len hole val" and p: "lt (f ! parent hole) val"
  shows "holed lt (f[hole := f ! parent hole]) tp len (parent hole) \<and> fits_above lt (f[hole := f ! parent hole]) len (parent hole) val"
proof -
  define p where "p = parent hole"
  have ph: "p < hole" using b(2) parent_less [of hole] by (simp add: p_def)
  have tp: "tp \<le> p" using below_le [OF below_parent [OF b(1)]] b(2) by (simp add: p_def)
  have get: "(f[hole := f ! p]) ! i = (if i = hole then f ! p else f ! i)" if "i < len" for i
    using that l by (simp add: nth_list_update)
  have edge: "\<not> lt (f ! parent i) (f ! i)" if "0 < i" "i < len" "tp \<le> parent i" "parent i \<noteq> hole" "i \<noteq> hole" for i
    using h that unfolding holed_def by blast
  have across: "\<not> lt (f ! p) (f ! i)" if "0 < i" "i < len" "parent i = hole" for i
    using h that b(2) unfolding holed_def p_def by blast
  have "\<not> lt ((f[hole := f ! p]) ! parent i) ((f[hole := f ! p]) ! i)"
    if i: "0 < i" "i < len" "tp \<le> parent i" "parent i \<noteq> p" "i \<noteq> p" for i
  proof -
    have "parent i < len" "i \<noteq> hole" using parent_less [OF i(1)] i by (auto simp: p_def)
    then show ?thesis using edge [OF i(1-3)] across [OF i(1,2)] i by (auto simp: get)
  qed
  moreover have sib: "\<not> lt (f ! p) ((f[hole := f ! p]) ! i)" if i: "0 < i" "i < len" "parent i = p" for i
    using edge [OF i(1,2)] i tp ph irrefl by (auto simp: get)
  moreover have "\<not> lt ((f[hole := f ! p]) ! parent p) ((f[hole := f ! p]) ! i)" if i: "0 < i" "i < len" "parent i = p" "tp < p" for i
  proof -
    have pp: "parent p < p" using parent_less [of p] i(4) by simp
    have "tp \<le> parent p" using below_le [OF below_parent [of tp p]] below_parent [OF b(1)] b(2) i(4) by (simp add: p_def)
    then have "\<not> lt (f ! parent p) (f ! p)" using edge [of p] pp ph hl i(4) by simp
    moreover have "(f[hole := f ! p]) ! parent p = f ! parent p" using pp ph hl by (simp add: get)
    ultimately show ?thesis using not_less_trans sib [OF i(1-3)] by simp
  qed
  moreover have "\<not> lt val ((f[hole := f ! p]) ! i)" if "0 < i" "i < len" "parent i = p" for i
    using sib [OF that] p comparable trans unfolding p_def [symmetric] by blast
  ultimately show ?thesis unfolding holed_def fits_above_def p_def [symmetric] by blast
qed

lemma hole_up:
  assumes "holed lt f tp len hole" and "below tp hole" and "hole < len" and "len \<le> length f" and "fits_above lt f len hole val"
  defines "f' \<equiv> terark_heap_hole_up f hole tp val lt"
  shows "heap_from lt f' tp len \<and> length f' = length f \<and> mset f' + {#f ! hole#} = mset f + {#val#} \<and> drop len f' = drop len f"
  unfolding f'_def using assms(1-5)
proof (induction hole arbitrary: f rule: less_induct)
  case (less hole)
  note h = less.prems(1) and b = less.prems(2) and hl = less.prems(3) and l = less.prems(4) and v = less.prems(5)
  have tp: "tp \<le> hole" by (rule below_le [OF b])
  show ?case
  proof (cases "tp < hole \<and> lt (f ! parent hole) val")
    case True
    define g where "g = f[hole := f ! parent hole]"
    have ph: "parent hole < hole" using True parent_less [of hole] by simp
    have r: "terark_heap_hole_up f hole tp val lt = terark_heap_hole_up g (parent hole) tp val lt"
      using True by (subst terark_heap_hole_up.simps) (simp add: g_def parent_def Let_def)
    have g: "holed lt g tp len (parent hole)" "fits_above lt g len (parent hole) val"
      using holed_up [OF h b _ hl l v] True by (simp_all add: g_def)
    have "below tp (parent hole)" using below_parent [OF b] True by simp
    with less.IH [OF ph g(1)] g(2) ph hl l
    have IH: "heap_from lt (terark_heap_hole_up g (parent hole) tp val lt) tp len"
      "length (terark_heap_hole_up g (parent hole) tp val lt) = length f"
      "mset (terark_heap_hole_up g (parent hole) tp val lt) + {#g ! parent hole#} = mset g + {#val#}"
      "drop len (terark_heap_hole_up g (parent hole) tp val lt) = drop len f"
      by (simp_all add: g_def)
    have m: "mset g + {#f ! hole#} = mset f + {#f ! parent hole#}" "g ! parent hole = f ! parent hole"
      using mset_move [of hole f "parent hole"] ph hl l by (simp_all add: g_def)
    show ?thesis using IH mset_chain [OF IH(3) [unfolded m(2)] m(1)] by (simp add: r)
  next
    case False
    have r: "terark_heap_hole_up f hole tp val lt = f[hole := val]"
      using False by (subst terark_heap_hole_up.simps) (auto simp: parent_def)
    have "\<not> lt ((f[hole := val]) ! parent i) ((f[hole := val]) ! i)" if i: "0 < i" "i < len" "tp \<le> parent i" for i
    proof -
      have pl: "parent i < i" by (rule parent_less [OF i(1)])
      consider "i = hole" | "parent i = hole" "i \<noteq> hole" | "parent i \<noteq> hole" "i \<noteq> hole" by blast
      then show ?thesis
      proof cases
        case 1
        then show ?thesis using False i pl hl l by (auto simp: nth_list_update)
      next
        case 2
        then show ?thesis using v i hl l by (auto simp: fits_above_def)
      next
        case 3
        then show ?thesis using h i by (auto simp: holed_def)
      qed
    qed
    moreover have "mset (f[hole := val]) + {#f ! hole#} = mset f + {#val#}" using hl l by (simp add: mset_update)
    ultimately show ?thesis using hl by (simp add: r heap_from_def)
  qed
qed

lemma adjust_heap:
  fixes val :: 'a
  assumes "\<And>i. 0 < i \<Longrightarrow> i < len \<Longrightarrow> hole < parent i \<Longrightarrow> \<not> lt (f ! parent i) (f ! i)" and "hole < len" and "len \<le> length f"
  defines "f' \<equiv> terark_adjust_heap f hole len val lt"
  shows "heap_from lt f' hole len" and "length f' = length f" and "mset f' + {#f ! hole#} = mset f + {#val#}" and "drop len f' = drop len f"
proof -
  have "holed lt f hole len hole" using assms(1) by (auto simp: holed_def)
  moreover obtain g leaf where g: "terark_heap_hole_down f hole len lt = (g, leaf)" by (cases "terark_heap_hole_down f hole len lt")
  ultimately have d: "holed lt g hole len leaf" "below hole leaf" "leaf < len" "len \<le> 2 * leaf + 1" "length g = length f"
    "mset g + {#f ! hole#} = mset f + {#g ! leaf#}" "drop len g = drop len f"
    using hole_down [OF _ below_refl assms(2,3) g] by auto
  have "\<not> (0 < i \<and> i < len \<and> parent i = leaf)" for i using child_of_parent [of i] d(4) by auto
  then have "fits_above lt g len leaf val" unfolding fits_above_def by blast
  from hole_up [OF d(1-3) _ this] assms(3) d(5)
  have u: "heap_from lt f' hole len" "length f' = length f" "mset f' + {#g ! leaf#} = mset g + {#val#}" "drop len f' = drop len f"
    by (auto simp: f'_def terark_adjust_heap_def g d(7))
  then show "heap_from lt f' hole len" "length f' = length f" "drop len f' = drop len f" by auto
  show "mset f' + {#f ! hole#} = mset f + {#val#}" by (rule mset_chain [OF u(3) d(6)])
qed

end

section \<open>Pop and adjust\<close>

lemma mset_take_drop: "drop n f' = drop n f \<Longrightarrow> mset f' = A \<Longrightarrow> mset (take n f') + mset (drop n f) = A"
  by (metis append_take_drop_id mset_append)

lemma is_heap_from: "is_heap lt f len \<longleftrightarrow> heap_from lt f 0 len"
  by (simp add: is_heap_def heap_from_def)

context strict_weak_order
begin

lemma heap_top_max: "is_heap lt f len \<Longrightarrow> i < len \<Longrightarrow> \<not> lt (f ! 0) (f ! i)"
proof (induction i rule: less_induct)
  case (less i)
  show ?case
  proof (cases "i = 0")
    case False
    then have "parent i < i" using parent_less [of i] by simp
    with less have "\<not> lt (f ! 0) (f ! parent i)" by simp
    moreover have "\<not> lt (f ! parent i) (f ! i)" using less.prems False by (simp add: is_heap_def)
    ultimately show ?thesis by (rule not_less_trans)
  qed (use irrefl in simp)
qed

lemma adjust_top:
  assumes "\<And>i. 0 < i \<Longrightarrow> i < len \<Longrightarrow> 0 < parent i \<Longrightarrow> \<not> lt (f ! parent i) (f ! i)" and "len \<le> length f"
  shows "is_heap lt (adjust_heap_top f len lt) len" and "length (adjust_heap_top f len lt) = length f"
    and "mset (adjust_heap_top f len lt) = mset f" and "drop len (adjust_heap_top f len lt) = drop len f"
proof -
  have "is_heap lt (adjust_heap_top f len lt) len \<and> length (adjust_heap_top f len lt) = length f
    \<and> mset (adjust_heap_top f len lt) = mset f \<and> drop len (adjust_heap_top f len lt) = drop len f"
  proof (cases "1 < len")
    case True
    then show ?thesis using adjust_heap [of len 0 f "f ! 0"] assms by (simp add: adjust_heap_top_def is_heap_from)
  next
    case False
    then show ?thesis by (auto simp: adjust_heap_top_def is_heap_def)
  qed
  then show "is_heap lt (adjust_heap_top f len lt) len" "length (adjust_heap_top f len lt) = length f"
    "mset (adjust_heap_top f len lt) = mset f" "drop len (adjust_heap_top f len lt) = drop len f" by auto
qed

lemma pop_top:
  assumes h: "is_heap lt f len" and len: "0 < len" "len \<le> length f"
  defines "f' \<equiv> pop_heap_ignore_top f len lt"
  shows "is_heap lt f' (len - 1)" and "length f' = length f" and "add_mset (f ! 0) (mset (take (len - 1) f')) = mset (take len f)"
    and "drop len f' = drop len f"
proof -
  have "is_heap lt f' (len - 1) \<and> length f' = length f \<and> add_mset (f ! 0) (mset (take (len - 1) f')) = mset (take len f)
    \<and> drop len f' = drop len f"
  proof (cases "1 < len")
    case True
    define n where "n = len - 1"
    have n: "len = Suc n" "0 < n" "n < length f" using True len(2) by (auto simp: n_def)
    have f': "f' = terark_adjust_heap f 0 n (f ! n) lt" using True by (simp add: f'_def pop_heap_ignore_top_def n_def Let_def)
    have o: "\<not> lt (f ! parent i) (f ! i)" if "0 < i" "i < n" "0 < parent i" for i using h that n by (simp add: is_heap_def)
    have a: "heap_from lt f' 0 n" "length f' = length f" "mset f' + {#f ! 0#} = mset f + {#f ! n#}" "drop n f' = drop n f"
      using adjust_heap [of n 0 f "f ! n", folded f'] o n by auto
    have "mset (take n f') + mset (drop n f) = mset f'" by (rule mset_take_drop [OF a(4) refl])
    moreover have "mset (take n f) + mset (drop n f) = mset f" by (rule mset_take_drop [OF refl refl])
    ultimately have "mset (take n f') + {#f ! 0#} + mset (drop n f) = mset (take n f) + {#f ! n#} + mset (drop n f)"
      using a(3) by (simp add: ac_simps)
    then have "mset (take n f') + {#f ! 0#} = mset (take n f) + {#f ! n#}" by (rule add_right_imp_eq)
    moreover have "drop len f' = drop len f" using arg_cong [OF a(4), of "drop 1"] by (simp add: n)
    ultimately show ?thesis using a n by (simp add: is_heap_from take_Suc_conv_app_nth)
  next
    case False
    then have "len = 1" using len by simp
    then show ?thesis using len by (cases f) (simp_all add: f'_def pop_heap_ignore_top_def is_heap_def)
  qed
  then show "is_heap lt f' (len - 1)" "length f' = length f" "add_mset (f ! 0) (mset (take (len - 1) f')) = mset (take len f)"
    "drop len f' = drop len f" by auto
qed

end

section \<open>Properties\<close>

text \<open>C20. \<open>terark_adjust_heap\<close> repairs a heap at any index: if the order holds below the children of \<open>hole\<close>, then after it the
  order holds at and below \<open>hole\<close>, the array holds \<open>val\<close> instead of the element of the hole and is otherwise a permutation of what it was,
  and nothing past \<open>len\<close> is changed.\<close>

theorem adjust_heap_repairs:
  fixes val :: 'a
  assumes "strict_weak_order lt" and "\<forall>i. 0 < i \<and> i < len \<and> hole < parent i \<longrightarrow> \<not> lt (f ! parent i) (f ! i)"
    and "hole < len" and "len \<le> length f"
  shows "heap_from lt (terark_adjust_heap f hole len val lt) hole len
    \<and> mset (terark_adjust_heap f hole len val lt) + {#f ! hole#} = mset f + {#val#}
    \<and> drop len (terark_adjust_heap f hole len val lt) = drop len f"
  using strict_weak_order.adjust_heap [OF assms(1) _ assms(3,4), of val] assms(2) by simp

theorem adjust_heap_repairs_witness:
  "heap_from (<) (terark_adjust_heap heap_sample 1 6 5 (<)) 1 6
    \<and> mset (terark_adjust_heap heap_sample 1 6 5 (<)) + {#heap_sample ! 1#} = mset heap_sample + {#5#}
    \<and> drop 6 (terark_adjust_heap heap_sample 1 6 5 (<)) = drop 6 heap_sample"
proof (rule adjust_heap_repairs)
  show "strict_weak_order ((<) :: nat \<Rightarrow> nat \<Rightarrow> bool)" by unfold_locales
  have "\<forall>i \<in> set [0..<6]. 1 < parent i \<longrightarrow> \<not> heap_sample ! parent i < heap_sample ! i" by code_simp
  then show "\<forall>i. 0 < i \<and> i < 6 \<and> 1 < parent i \<longrightarrow> \<not> heap_sample ! parent i < heap_sample ! i" by simp
qed (simp_all add: heap_sample_def)

text \<open>C21. \<open>pop_heap_ignore_top\<close> on a heap of \<open>len\<close> elements leaves a heap of \<open>len - 1\<close> elements that are all but the first one, which no
  other element exceeds; \<open>adjust_heap_top\<close> after a change of the first element restores the heap with the same elements.\<close>

theorem heap_top_operations:
  assumes "strict_weak_order lt" and "is_heap lt f len" and "0 < len" and "len \<le> length f"
  shows "is_heap lt (pop_heap_ignore_top f len lt) (len - 1)
    \<and> add_mset (f ! 0) (mset (take (len - 1) (pop_heap_ignore_top f len lt))) = mset (take len f)
    \<and> (\<forall>x \<in> set (take len f). \<not> lt (f ! 0) x)
    \<and> is_heap lt (adjust_heap_top (f[0 := x]) len lt) len
    \<and> mset (take len (adjust_heap_top (f[0 := x]) len lt)) = mset (take len (f[0 := x]))"
proof -
  note pop = strict_weak_order.pop_top [OF assms]
  have "\<not> lt (f ! 0) x" if "x \<in> set (take len f)" for x
    using that strict_weak_order.heap_top_max [OF assms(1,2)] assms(4) by (auto simp: in_set_conv_nth)
  moreover have o: "\<not> lt ((f[0 := x]) ! parent i) ((f[0 := x]) ! i)" if "0 < i" "i < len" "0 < parent i" for i
    using assms(2) that by (simp add: is_heap_def)
  note top = strict_weak_order.adjust_top [OF assms(1) o, of len] 
  have "mset (take len (adjust_heap_top (f[0 := x]) len lt)) + mset (drop len f) = mset (take len (f[0 := x])) + mset (drop len f)"
    using top assms(3,4) mset_take_drop [of len "adjust_heap_top (f[0 := x]) len lt" f "mset (f[0 := x])"]
      mset_take_drop [of len "f[0 := x]" f "mset (f[0 := x])"] by simp
  then have "mset (take len (adjust_heap_top (f[0 := x]) len lt)) = mset (take len (f[0 := x]))" by (rule add_right_imp_eq)
  ultimately show ?thesis using pop top(1) assms(4) by simp
qed

theorem heap_top_operations_witness:
  "is_heap (<) (pop_heap_ignore_top heap_sample 6 (<)) 5
    \<and> add_mset 9 (mset (take 5 (pop_heap_ignore_top heap_sample 6 (<)))) = mset heap_sample
    \<and> is_heap (<) (adjust_heap_top (heap_sample[0 := 3]) 6 (<)) 6"
proof -
  have "\<forall>i \<in> set [0..<6]. 0 < i \<longrightarrow> \<not> heap_sample ! parent i < heap_sample ! i" by code_simp
  then have "is_heap (<) heap_sample 6" by (simp add: is_heap_def)
  from heap_top_operations [OF less.strict_weak_order_axioms this, of 3] show ?thesis by (simp add: heap_sample_def)
qed

end
