(* ===== verification/StreamBuffer.thy ===== *)
theory StreamBuffer
  imports MemStream
begin

text \<open>
  The buffers of \<open>src/src/terark/io/StreamBuffer.hpp\<close> and \<open>StreamBuffer.cpp\<close>: an \<open>InputBuffer\<close> reads ahead from a stream, an \<open>OutputBuffer\<close>
  collects what is written for one. \<open>IOBufferBase\<close> extends the record of \<open>MemIO\<close>: \<open>mem\<close> is the block, \<open>m_pos\<close> and \<open>m_end\<close> are offsets in it, \<open>b_null\<close>
  says that \<open>m_beg\<close> is \<open>NULL\<close>. The attached stream is part of the state, and its \<open>read\<close> and \<open>write\<close> are arguments (\<open>rd\<close>, \<open>wr\<close>): the interfaces \<open>IInputStream\<close> and
  \<open>IOutputStream\<close>. An operation returns its result or the exception, and in both cases the state it leaves. The virtual \<open>update_pos\<close> is the argument \<open>up\<close>.
\<close>

section \<open>IOBufferBase\<close>

type_synonym ('r, 's) outcome = "(error + 'r) \<times> 's"
type_synonym 's rd_op = "nat \<Rightarrow> 's \<Rightarrow> (u8 list, 's) outcome"
type_synonym 's wr_op = "u8 list \<Rightarrow> 's \<Rightarrow> (nat, 's) outcome"

record IOBufferBase = MemIO +
  b_null :: bool
  b_capacity :: nat

definition io_initbuf :: "u8 venv \<Rightarrow> nat \<Rightarrow> 'a IOBufferBase_scheme \<Rightarrow> (unit, 'a IOBufferBase_scheme) outcome" where
  "io_initbuf e capacity b =
     (if \<not> b_null b then (Inl Abort, b)
      else case v_realloc e [] capacity of
             None \<Rightarrow> (Inl Abort, b)
           | Some m \<Rightarrow> (Inr (), b\<lparr>mem := m, m_pos := 0, m_end := 0, b_null := False, b_capacity := capacity\<rparr>))"

definition io_set_bufsize :: "u8 venv \<Rightarrow> nat \<Rightarrow> 'a IOBufferBase_scheme \<Rightarrow> (unit, 'a IOBufferBase_scheme) outcome" where
  "io_set_bufsize e sz b =
     (let sz = align_up sz 4096 in
      if b_null b then (Inr (), b\<lparr>b_capacity := sz\<rparr>)
      else if sz \<le> b_capacity b then (Inr (), b)
      else case v_realloc e (take (m_end b) (mem b)) sz of
             None \<Rightarrow> (Inl Abort, b)
           | Some pnewbuf \<Rightarrow> (Inr (), b\<lparr>mem := pnewbuf, b_capacity := sz\<rparr>))"

definition io_set_bufeof :: "nat \<Rightarrow> 'a IOBufferBase_scheme \<Rightarrow> 'a IOBufferBase_scheme" where
  "io_set_bufeof eofpos b = b\<lparr>m_end := eofpos, m_pos := (if eofpos < m_pos b then eofpos else m_pos b)\<rparr>"

definition io_risk_release_ownership :: "'a IOBufferBase_scheme \<Rightarrow> 'a IOBufferBase_scheme" where
  "io_risk_release_ownership b = b\<lparr>mem := [], m_pos := 0, m_end := 0, b_null := True, b_capacity := 0\<rparr>"

definition io_resetbuf :: "'a IOBufferBase_scheme \<Rightarrow> 'a IOBufferBase_scheme" where
  "io_resetbuf b = b\<lparr>m_pos := 0, m_end := 0\<rparr>"

definition io_risk_set_bufpos :: "nat \<Rightarrow> 'a IOBufferBase_scheme \<Rightarrow> 'a IOBufferBase_scheme" where
  "io_risk_set_bufpos p b = b\<lparr>m_pos := p\<rparr>"

definition io_update_pos :: "nat \<Rightarrow> 'a IOBufferBase_scheme \<Rightarrow> 'a IOBufferBase_scheme" where
  "io_update_pos inc b = b"

section \<open>InputBuffer\<close>

text \<open>The \<open>read\<close> of a stream for at most \<open>n\<close> bytes returns the bytes it has stored.\<close>

record 's InputBuffer = IOBufferBase +
  b_is :: "'s option"

type_synonym ('s, 'a) ib_pos = "nat \<Rightarrow> ('s, 'a) InputBuffer_scheme \<Rightarrow> ('s, 'a) InputBuffer_scheme"
type_synonym ('s, 'a) ib_bytes_out = "(u8 list, ('s, 'a) InputBuffer_scheme) outcome"

definition ib_make :: "'s option \<Rightarrow> 's InputBuffer" where
  "ib_make stream = \<lparr>mem = [], m_pos = 0, m_end = 0, b_null = True, b_capacity = 8 * 1024, b_is = stream\<rparr>"

definition ib_attach :: "'s option \<Rightarrow> ('s, 'a) InputBuffer_scheme \<Rightarrow> ('s, 'a) InputBuffer_scheme" where
  "ib_attach stream b = b\<lparr>b_is := stream\<rparr>"

definition ib_setMemory :: "u8 list \<Rightarrow> ('s, 'a) InputBuffer_scheme \<Rightarrow> ('s, 'a) InputBuffer_scheme" where
  "ib_setMemory m b = b\<lparr>mem := m, m_pos := 0, m_end := length m, b_null := False, b_capacity := length m, b_is := None\<rparr>"

text \<open>The loop of \<open>read_min_max\<close>: the bytes stored, the exception that ended it, if any, and the stream.\<close>

function read_loop :: "'s rd_op \<Rightarrow> nat \<Rightarrow> nat \<Rightarrow> u8 list \<Rightarrow> 's \<Rightarrow> u8 list \<times> error option \<times> 's" where
  "read_loop rd min_length max_length buf sm =
     (if length buf < min_length then
        (case rd (max_length - length buf) sm of
           (Inl err, sm) \<Rightarrow> (buf, Some err, sm)
         | (Inr bs, sm) \<Rightarrow> if bs = [] then (buf, None, sm) else read_loop rd min_length max_length (buf @ bs) sm)
      else (buf, None, sm))"
  by pat_completeness auto
termination
  by (relation "measure (\<lambda>(rd, min_length, max_length, buf, sm). min_length - length buf)") (auto intro!: diff_less_mono2)

declare read_loop.simps [simp del]

definition ib_read_min_max :: "'s rd_op \<Rightarrow> nat \<Rightarrow> nat \<Rightarrow> ('s, 'a) InputBuffer_scheme
    \<Rightarrow> u8 list \<times> error option \<times> ('s, 'a) InputBuffer_scheme" where
  "ib_read_min_max rd min_length max_length b =
     (case b_is b of
        None \<Rightarrow> ([], Some End_of_file, b)
      | Some sm \<Rightarrow> (case read_loop rd min_length max_length [] sm of (bs, err, sm) \<Rightarrow> (bs, err, b\<lparr>b_is := Some sm\<rparr>)))"

text \<open>\<open>do_fill_and_read\<close>: the unbuffered branch, the part after the buffer is there, and the whole.\<close>

definition ib_read_unbuffered :: "'s rd_op \<Rightarrow> nat \<Rightarrow> ('s, 'a) InputBuffer_scheme \<Rightarrow> ('s, 'a) ib_bytes_out" where
  "ib_read_unbuffered rd len b =
     (case ib_read_min_max rd len len b of
        (bs, Some err, b) \<Rightarrow> (Inl err, b)
      | (bs, None, b) \<Rightarrow> (if bs = [] then Inl End_of_file else Inr bs, b))"

definition ib_fill :: "('s, 'a) ib_pos \<Rightarrow> 's rd_op \<Rightarrow> nat
    \<Rightarrow> ('s, 'a) InputBuffer_scheme \<Rightarrow> ('s, 'a) ib_bytes_out" where
  "ib_fill up rd len b =
     (let n1 = m_end b - m_pos b;
          n2 = size_sub len n1;
          buffered = take n1 (drop (m_pos b) (mem b))
      in if b_capacity b \<le> n2 then
           (case ib_read_min_max rd n2 n2 (b\<lparr>m_pos := 0, m_end := 0\<rparr>) of
              (bs, Some err, b) \<Rightarrow> (Inl err, b)
            | (bs, None, b) \<Rightarrow> if bs = [] then (Inl End_of_file, b) else (Inr (buffered @ bs), up (length bs) b))
         else
           (case ib_read_min_max rd n2 (b_capacity b) b of
              (bs, err, b) \<Rightarrow>
                let b = b\<lparr>mem := put_at 0 bs (mem b)\<rparr> in
                (case err of
                   Some err \<Rightarrow> (Inl err, b)
                 | None \<Rightarrow>
                     if bs = [] then (Inl End_of_file, b)
                     else
                       let b = (up (length bs) b)\<lparr>m_end := length bs\<rparr> in
                       if length bs < n2 then (Inr (buffered @ bs), b\<lparr>m_pos := m_end b\<rparr>)
                       else (Inr (buffered @ take n2 bs), b\<lparr>m_pos := n2\<rparr>))))"

definition ib_do_fill_and_read :: "('s, 'a) ib_pos \<Rightarrow> u8 venv \<Rightarrow> 's rd_op \<Rightarrow> nat
    \<Rightarrow> ('s, 'a) InputBuffer_scheme \<Rightarrow> ('s, 'a) ib_bytes_out" where
  "ib_do_fill_and_read up e rd len b =
     (if b_is b = None then (Inl End_of_file, b)
      else if b_null b then
        if b_capacity b = 0 then ib_read_unbuffered rd len b
        else (case io_initbuf e (b_capacity b) b of
                (Inl err, b) \<Rightarrow> (Inl err, b)
              | (Inr _, b) \<Rightarrow> ib_fill up rd len b)
      else ib_fill up rd len b)"


definition ib_read :: "('s, 'a) ib_pos \<Rightarrow> u8 venv \<Rightarrow> 's rd_op \<Rightarrow> nat
    \<Rightarrow> ('s, 'a) InputBuffer_scheme \<Rightarrow> ('s, 'a) ib_bytes_out" where
  "ib_read up e rd len b =
     (if m_pos b + len \<le> m_end b then (Inr (take len (drop (m_pos b) (mem b))), b\<lparr>m_pos := m_pos b + len\<rparr>)
      else ib_do_fill_and_read up e rd len b)"

definition ib_fill_and_ensureRead :: "('s, 'a) ib_pos \<Rightarrow> u8 venv \<Rightarrow> 's rd_op \<Rightarrow> nat
    \<Rightarrow> ('s, 'a) InputBuffer_scheme \<Rightarrow> ('s, 'a) ib_bytes_out" where
  "ib_fill_and_ensureRead up e rd len b =
     (case ib_do_fill_and_read up e rd len b of
        (Inl err, b) \<Rightarrow> (Inl err, b)
      | (Inr bs, b) \<Rightarrow> (if length bs \<noteq> len then Inl End_of_file else Inr bs, b))"

definition ib_ensureRead :: "('s, 'a) ib_pos \<Rightarrow> u8 venv \<Rightarrow> 's rd_op \<Rightarrow> nat
    \<Rightarrow> ('s, 'a) InputBuffer_scheme \<Rightarrow> ('s, 'a) ib_bytes_out" where
  "ib_ensureRead up e rd len b =
     (if m_pos b + len \<le> m_end b then (Inr (take len (drop (m_pos b) (mem b))), b\<lparr>m_pos := m_pos b + len\<rparr>)
      else ib_fill_and_ensureRead up e rd len b)"

definition ib_fill_and_read_byte :: "('s, 'a) ib_pos \<Rightarrow> u8 venv \<Rightarrow> 's rd_op
    \<Rightarrow> ('s, 'a) InputBuffer_scheme \<Rightarrow> (u8, ('s, 'a) InputBuffer_scheme) outcome" where
  "ib_fill_and_read_byte up e rd b =
     (case ib_do_fill_and_read up e rd 1 b of
        (Inl err, b) \<Rightarrow> (Inl err, b)
      | (Inr bs, b) \<Rightarrow> (if bs \<noteq> [] then Inr (hd bs) else Inl End_of_file, b))"

definition ib_readByte :: "('s, 'a) ib_pos \<Rightarrow> u8 venv \<Rightarrow> 's rd_op
    \<Rightarrow> ('s, 'a) InputBuffer_scheme \<Rightarrow> (u8, ('s, 'a) InputBuffer_scheme) outcome" where
  "ib_readByte up e rd b =
     (if m_pos b < m_end b then (Inr (mem b ! m_pos b), b\<lparr>m_pos := m_pos b + 1\<rparr>) else ib_fill_and_read_byte up e rd b)"

definition ib_fill_and_get_byte :: "('s, 'a) ib_pos \<Rightarrow> u8 venv \<Rightarrow> 's rd_op
    \<Rightarrow> ('s, 'a) InputBuffer_scheme \<Rightarrow> (int, ('s, 'a) InputBuffer_scheme) outcome" where
  "ib_fill_and_get_byte up e rd b =
     (case ib_do_fill_and_read up e rd 1 b of
        (Inl err, b) \<Rightarrow> (Inl err, b)
      | (Inr bs, b) \<Rightarrow> (Inr (if bs \<noteq> [] then uint (hd bs) else - 1), b))"

definition ib_getByte :: "('s, 'a) ib_pos \<Rightarrow> u8 venv \<Rightarrow> 's rd_op
    \<Rightarrow> ('s, 'a) InputBuffer_scheme \<Rightarrow> (int, ('s, 'a) InputBuffer_scheme) outcome" where
  "ib_getByte up e rd b =
     (if m_pos b < m_end b then (Inr (uint (mem b ! m_pos b)), b\<lparr>m_pos := m_pos b + 1\<rparr>) else ib_fill_and_get_byte up e rd b)"

text \<open>\<open>test_eof\<close> catches \<open>EndOfFileException\<close> and no other exception.\<close>

definition ib_test_eof :: "('s, 'a) ib_pos \<Rightarrow> u8 venv \<Rightarrow> 's rd_op
    \<Rightarrow> ('s, 'a) InputBuffer_scheme \<Rightarrow> (bool, ('s, 'a) InputBuffer_scheme) outcome" where
  "ib_test_eof up e rd b =
     (if b_is b = None then (Inr True, b)
      else (case ib_do_fill_and_read up e rd 1 b of
              (Inr bs, b) \<Rightarrow> if bs \<noteq> [] then (Inr False, b\<lparr>m_pos := 0\<rparr>) else (Inr True, b)
            | (Inl err, b) \<Rightarrow> (if err = End_of_file then Inr True else Inl err, b)))"

definition ib_eof :: "('s, 'a) ib_pos \<Rightarrow> u8 venv \<Rightarrow> 's rd_op
    \<Rightarrow> ('s, 'a) InputBuffer_scheme \<Rightarrow> (bool, ('s, 'a) InputBuffer_scheme) outcome" where
  "ib_eof up e rd b = (if m_pos b = m_end b then ib_test_eof up e rd b else (Inr False, b))"

text \<open>The two loops of \<open>getline\<close>; \<open>room\<close> is \<open>maxlen - len\<close>, \<open>p\<close> the pointer that scans.\<close>

definition io_slice :: "nat \<Rightarrow> nat \<Rightarrow> 'a IOBufferBase_scheme \<Rightarrow> u8 list" where
  "io_slice p q b = take (q - p) (drop p (mem b))"

definition ib_getline_cr :: "('s, 'a) ib_pos \<Rightarrow> u8 venv \<Rightarrow> 's rd_op
    \<Rightarrow> u8 list \<Rightarrow> ('s, 'a) InputBuffer_scheme \<Rightarrow> ('s, 'a) ib_bytes_out" where
  "ib_getline_cr up e rd line b =
     (case ib_getByte up e rd b of
        (Inl err, b) \<Rightarrow> (Inl err, b)
      | (Inr nextCh, b) \<Rightarrow>
          if nextCh = - 1 then (Inr line, b)
          else if nextCh \<noteq> 10 then (Inr line, b\<lparr>m_pos := m_pos b - 1\<rparr>)
          else (Inr line, b))"

function ib_getline_loop :: "('s, 'a) ib_pos \<Rightarrow> u8 venv \<Rightarrow> 's rd_op
    \<Rightarrow> u8 list \<Rightarrow> nat \<Rightarrow> nat \<Rightarrow> ('s, 'a) InputBuffer_scheme \<Rightarrow> ('s, 'a) ib_bytes_out" where
  "ib_getline_loop up e rd line p room b =
     (if room = 0 then (Inr (line @ io_slice (m_pos b) p b), b\<lparr>m_pos := p\<rparr>)
      else if p = m_end b then
        if b_null b then
          if b_capacity b = 0 then (Inl Io_exception, b)
          else (case io_initbuf e (b_capacity b) b of
                  (Inl err, b) \<Rightarrow> (Inl err, b)
                | (Inr _, b) \<Rightarrow> ib_getline_loop up e rd line (m_pos b) room b)
        else
          let line = line @ io_slice (m_pos b) (m_end b) b in
          (case ib_read_min_max rd 1 (b_capacity b) (b\<lparr>m_pos := m_end b\<rparr>) of
             (bs, err, b) \<Rightarrow>
               let b = b\<lparr>mem := put_at 0 bs (mem b)\<rparr> in
               (case err of
                  Some err \<Rightarrow> (Inl err, b)
                | None \<Rightarrow>
                    if bs = [] then
                      if line = [] then (Inl End_of_file, b) else (Inr line, b\<lparr>m_pos := 0, m_end := 0\<rparr>)
                    else ib_getline_loop up e rd line 0 room ((up (length bs) b)\<lparr>m_end := length bs, m_pos := 0\<rparr>)))
      else if mem b ! p = 13 then ib_getline_cr up e rd (line @ io_slice (m_pos b) p b) (b\<lparr>m_pos := p + 1\<rparr>)
      else if mem b ! p = 10 then (Inr (line @ io_slice (m_pos b) p b), b\<lparr>m_pos := p + 1\<rparr>)
      else ib_getline_loop up e rd line (p + 1) (room - 1) b)"
  by pat_completeness auto
termination
  by (relation "measures [\<lambda>(up, e, rd, line, p, room, b). room, \<lambda>(up, e, rd, line, p, room, b). if p = m_end b then if b_null b then 2 else 1 else 0]")
    (auto simp: io_initbuf_def split: if_splits option.splits)

declare ib_getline_loop.simps [simp del]

definition ib_getline :: "('s, 'a) ib_pos \<Rightarrow> u8 venv \<Rightarrow> 's rd_op
    \<Rightarrow> nat \<Rightarrow> ('s, 'a) InputBuffer_scheme \<Rightarrow> ('s, 'a) ib_bytes_out" where
  "ib_getline up e rd maxlen b = ib_getline_loop up e rd [] (m_pos b) maxlen b"

text \<open>\<open>to_output\<close>: the \<open>ensureWrite\<close> of the other stream is an argument. The loop need not end.\<close>

partial_function (option) ib_to_output :: "('s, 'a) ib_pos \<Rightarrow> u8 venv \<Rightarrow> 's rd_op
    \<Rightarrow> (u8 list \<Rightarrow> 'o \<Rightarrow> (unit, 'o) outcome) \<Rightarrow> nat \<Rightarrow> 'o \<Rightarrow> ('s, 'a) InputBuffer_scheme \<Rightarrow> (unit, 'o \<times> ('s, 'a) InputBuffer_scheme) outcome option" where
  "ib_to_output up e rd ew left out b =
     (if left = 0 then Some (Inr (), out, b)
      else case (if m_pos b = m_end b then ib_do_fill_and_read up e rd (m_end b) b else (Inr [], b)) of
             (Inl err, b) \<Rightarrow> Some (Inl err, out, b)
           | (Inr _, b) \<Rightarrow>
               let nWrite = min (m_end b - m_pos b) left in
               (case ew (io_slice (m_pos b) (m_pos b + nWrite) b) out of
                  (Inl err, out) \<Rightarrow> Some (Inl err, out, b)
                | (Inr _, out) \<Rightarrow> ib_to_output up e rd ew (left - nWrite) out (b\<lparr>m_pos := m_pos b + nWrite\<rparr>)))"

declare ib_to_output.simps [code]


section \<open>OutputBuffer\<close>

text \<open>\<open>m_os\<close> is \<open>NULL\<close>, the mark \<open>-1\<close> of memory mode, or a stream. The \<open>write\<close> of a stream returns the number of bytes it has taken.\<close>

datatype 's os_ptr = Os_null | Os_memory | Os 's

record 's OutputBuffer = IOBufferBase +
  b_os :: "'s os_ptr"

type_synonym ('s, 'a) ob_pos = "nat \<Rightarrow> ('s, 'a) OutputBuffer_scheme \<Rightarrow> ('s, 'a) OutputBuffer_scheme"
type_synonym ('r, 's, 'a) ob_out = "('r, ('s, 'a) OutputBuffer_scheme) outcome"

definition ob_make :: "'s os_ptr \<Rightarrow> 's OutputBuffer" where
  "ob_make os = \<lparr>mem = [], m_pos = 0, m_end = 0, b_null = True, b_capacity = 8 * 1024, b_os = os\<rparr>"

definition ob_attach :: "'s os_ptr \<Rightarrow> ('s, 'a) OutputBuffer_scheme \<Rightarrow> ('s, 'a) OutputBuffer_scheme" where
  "ob_attach os b = b\<lparr>b_os := os\<rparr>"

text \<open>\<open>memcpy\<close> into the block, at an offset from \<open>m_beg\<close>.\<close>

definition io_store :: "nat \<Rightarrow> u8 list \<Rightarrow> 'a IOBufferBase_scheme \<Rightarrow> (unit, 'a IOBufferBase_scheme) outcome" where
  "io_store p bs b =
     (if bs = [] then (Inr (), b)
      else if b_null b then (Inl Undefined, b)
      else if p + length bs \<le> length (mem b) then (Inr (), b\<lparr>mem := put_at p bs (mem b)\<rparr>)
      else (Inl Out_of_bounds, b))"

text \<open>\<open>m_os->write\<close>: a call through \<open>NULL\<close> or through the mark of memory mode is undefined.\<close>

definition ob_os_write :: "'s wr_op \<Rightarrow> u8 list \<Rightarrow> ('s, 'a) OutputBuffer_scheme \<Rightarrow> (nat, 's, 'a) ob_out" where
  "ob_os_write wr bs b =
     (case b_os b of
        Os sm \<Rightarrow> (case wr bs sm of (r, sm) \<Rightarrow> (r, b\<lparr>b_os := Os sm\<rparr>))
      | _ \<Rightarrow> (Inl Undefined, b))"

definition ob_flush_buffer :: "('s, 'a) ob_pos \<Rightarrow> 's wr_op \<Rightarrow> ('s, 'a) OutputBuffer_scheme \<Rightarrow> (unit, 's, 'a) ob_out" where
  "ob_flush_buffer up wr b =
     (if b_null b then (Inr (), b)
      else case b_os b of
        Os_null \<Rightarrow> (Inl Delay_write, b)
      | _ \<Rightarrow>
          if m_pos b \<noteq> 0 then
            (case ob_os_write wr (take (m_pos b) (mem b)) b of
               (Inl err, b) \<Rightarrow> (Inl err, b)
             | (Inr n2, b) \<Rightarrow>
                 let n1 = m_pos b; b = up n2 b in
                 if n1 \<noteq> n2 then (Inl Delay_write, b) else (Inr (), b\<lparr>m_pos := 0, m_end := b_capacity b\<rparr>))
          else (Inr (), b\<lparr>m_pos := 0, m_end := b_capacity b\<rparr>))"

text \<open>The destructor catches the exceptions of \<open>flush_buffer\<close> and drops the bytes; the stream remains.\<close>

definition ob_destroy :: "('s, 'a) ob_pos \<Rightarrow> 's wr_op \<Rightarrow> ('s, 'a) OutputBuffer_scheme \<Rightarrow> error + 's os_ptr" where
  "ob_destroy up wr b =
     (if b_os b = Os_null then Inr Os_null
      else case ob_flush_buffer up wr b of (r, b) \<Rightarrow> if r = Inl Undefined then Inl Undefined else Inr (b_os b))"

definition ob_flush :: "('s, 'a) ob_pos \<Rightarrow> 's wr_op \<Rightarrow> ('s \<Rightarrow> (unit, 's) outcome) \<Rightarrow> ('s, 'a) OutputBuffer_scheme \<Rightarrow> (unit, 's, 'a) ob_out" where
  "ob_flush up wr fl b =
     (case ob_flush_buffer up wr b of
        (Inl err, b) \<Rightarrow> (Inl err, b)
      | (Inr _, b) \<Rightarrow>
          (case b_os b of
             Os sm \<Rightarrow> (case fl sm of (r, sm) \<Rightarrow> (r, b\<lparr>b_os := Os sm\<rparr>))
           | _ \<Rightarrow> (Inl Undefined, b)))"

text \<open>\<open>do_flush_and_write\<close>: the branch of memory mode, the bytes that go past the buffer, the bytes that go through it, and the whole.\<close>

definition ob_write_memory :: "u8 venv \<Rightarrow> u8 list \<Rightarrow> ('s, 'a) OutputBuffer_scheme \<Rightarrow> (nat, 's, 'a) ob_out" where
  "ob_write_memory e bs b =
     (let min_cap = m_pos b + length bs;
          enlarge_cap = b_capacity b * 103 div 64;
          new_cap = align_up (max min_cap enlarge_cap) 4096
      in case io_set_bufsize e new_cap b of
           (Inl err, b) \<Rightarrow> (Inl err, b)
         | (Inr _, b) \<Rightarrow>
             (case io_store (m_pos b) bs (b\<lparr>m_end := new_cap\<rparr>) of
                (Inl err, b) \<Rightarrow> (Inl err, b)
              | (Inr _, b) \<Rightarrow> (Inr (length bs), b\<lparr>m_pos := m_pos b + length bs\<rparr>)))"

definition ob_write_past :: "('s, 'a) ob_pos \<Rightarrow> 's wr_op \<Rightarrow> u8 list \<Rightarrow> ('s, 'a) OutputBuffer_scheme \<Rightarrow> (nat, 's, 'a) ob_out" where
  "ob_write_past up wr bs b =
     (case ob_flush_buffer up wr b of
        (Inl err, b) \<Rightarrow> (Inl err, b)
      | (Inr _, b) \<Rightarrow>
          (case ob_os_write wr bs b of
             (Inl err, b) \<Rightarrow> (Inl err, b)
           | (Inr n, b) \<Rightarrow> if n = 0 then (Inl Out_of_space, b) else (Inr n, up n b)))"

definition ob_write_through :: "('s, 'a) ob_pos \<Rightarrow> 's wr_op \<Rightarrow> u8 list \<Rightarrow> ('s, 'a) OutputBuffer_scheme \<Rightarrow> (nat, 's, 'a) ob_out" where
  "ob_write_through up wr bs b =
     (let n = m_end b - m_pos b in
      case io_store (m_pos b) (take n bs) b of
        (Inl err, b) \<Rightarrow> (Inl err, b)
      | (Inr _, b) \<Rightarrow>
          (case ob_flush_buffer up wr (b\<lparr>m_pos := m_end b\<rparr>) of
             (Inl err, b) \<Rightarrow> (Inl err, b)
           | (Inr _, b) \<Rightarrow>
               (case io_store 0 (drop n bs) b of
                  (Inl err, b) \<Rightarrow> (Inl err, b)
                | (Inr _, b) \<Rightarrow> (Inr (length bs), b\<lparr>m_pos := length bs - n\<rparr>))))"

definition ob_do_flush_and_write :: "('s, 'a) ob_pos \<Rightarrow> u8 venv \<Rightarrow> 's wr_op \<Rightarrow> u8 list \<Rightarrow> ('s, 'a) OutputBuffer_scheme \<Rightarrow> (nat, 's, 'a) ob_out" where
  "ob_do_flush_and_write up e wr bs b =
     (case b_os b of
        Os_memory \<Rightarrow> ob_write_memory e bs b
      | Os_null \<Rightarrow> (Inl Delay_write, b)
      | Os _ \<Rightarrow>
          if b_capacity b \<le> length bs then ob_write_past up wr bs b
          else if b_null b then
            (case io_initbuf e (b_capacity b) b of
               (Inl err, b) \<Rightarrow> (Inl err, b)
             | (Inr _, b) \<Rightarrow> ob_write_through up wr bs b)
          else ob_write_through up wr bs b)"

definition ob_write :: "('s, 'a) ob_pos \<Rightarrow> u8 venv \<Rightarrow> 's wr_op \<Rightarrow> u8 list \<Rightarrow> ('s, 'a) OutputBuffer_scheme \<Rightarrow> (nat, 's, 'a) ob_out" where
  "ob_write up e wr bs b =
     (if m_pos b + length bs \<le> m_end b then
        (case io_store (m_pos b) bs b of
           (Inl err, b) \<Rightarrow> (Inl err, b)
         | (Inr _, b) \<Rightarrow> (Inr (length bs), b\<lparr>m_pos := m_pos b + length bs\<rparr>))
      else ob_do_flush_and_write up e wr bs b)"

definition ob_flush_and_ensureWrite :: "('s, 'a) ob_pos \<Rightarrow> u8 venv \<Rightarrow> 's wr_op \<Rightarrow> u8 list \<Rightarrow> ('s, 'a) OutputBuffer_scheme \<Rightarrow> (unit, 's, 'a) ob_out" where
  "ob_flush_and_ensureWrite up e wr bs b =
     (case ob_do_flush_and_write up e wr bs b of
        (Inl err, b) \<Rightarrow> (Inl err, b)
      | (Inr n, b) \<Rightarrow> (if n \<noteq> length bs then Inl Out_of_space else Inr (), b))"

definition ob_ensureWrite :: "('s, 'a) ob_pos \<Rightarrow> u8 venv \<Rightarrow> 's wr_op \<Rightarrow> u8 list \<Rightarrow> ('s, 'a) OutputBuffer_scheme \<Rightarrow> (unit, 's, 'a) ob_out" where
  "ob_ensureWrite up e wr bs b =
     (if m_pos b + length bs \<le> m_end b then
        (case io_store (m_pos b) bs b of
           (Inl err, b) \<Rightarrow> (Inl err, b)
         | (Inr _, b) \<Rightarrow> (Inr (), b\<lparr>m_pos := m_pos b + length bs\<rparr>))
      else ob_flush_and_ensureWrite up e wr bs b)"

definition ob_writeByte :: "('s, 'a) ob_pos \<Rightarrow> u8 venv \<Rightarrow> 's wr_op \<Rightarrow> u8 \<Rightarrow> ('s, 'a) OutputBuffer_scheme \<Rightarrow> (unit, 's, 'a) ob_out" where
  "ob_writeByte up e wr x b =
     (if m_pos b < m_end b then
        (case io_store (m_pos b) [x] b of
           (Inl err, b) \<Rightarrow> (Inl err, b)
         | (Inr _, b) \<Rightarrow> (Inr (), b\<lparr>m_pos := m_pos b + 1\<rparr>))
      else ob_flush_and_ensureWrite up e wr [x] b)"

definition ob_setMemoryMode :: "u8 venv \<Rightarrow> nat \<Rightarrow> ('s, 'a) OutputBuffer_scheme \<Rightarrow> (unit, 's, 'a) ob_out" where
  "ob_setMemoryMode e cap b =
     (case io_set_bufsize e cap (b\<lparr>b_os := Os_memory, mem := [], m_pos := 0, m_end := 0, b_null := True, b_capacity := 0\<rparr>) of
        (Inl err, b) \<Rightarrow> (Inl err, b)
      | (Inr _, b) \<Rightarrow> (Inr (), b\<lparr>m_pos := 0, m_end := cap\<rparr>))"

text \<open>\<open>from_input\<close>, which need not end, with the \<open>ensureRead\<close> of the other stream as an argument.\<close>

partial_function (option) ob_from_input :: "('s, 'a) ob_pos \<Rightarrow> 's wr_op \<Rightarrow> (nat \<Rightarrow> 'i \<Rightarrow> (u8 list, 'i) outcome) \<Rightarrow> nat \<Rightarrow> 'i \<Rightarrow> ('s, 'a) OutputBuffer_scheme
    \<Rightarrow> (unit, 'i \<times> ('s, 'a) OutputBuffer_scheme) outcome option" where
  "ob_from_input up wr er left inp b =
     (if left = 0 then Some (Inr (), inp, b)
      else case (if m_pos b = m_end b then ob_flush_buffer up wr b else (Inr (), b)) of
             (Inl err, b) \<Rightarrow> Some (Inl err, inp, b)
           | (Inr _, b) \<Rightarrow>
               let nRead = min (m_end b - m_pos b) left in
               (case er nRead inp of
                  (Inl err, inp) \<Rightarrow> Some (Inl err, inp, b)
                | (Inr bs, inp) \<Rightarrow>
                    (case io_store (m_pos b) bs b of
                       (Inl err, b) \<Rightarrow> Some (Inl err, inp, b)
                     | (Inr _, b) \<Rightarrow> ob_from_input up wr er (left - nRead) inp (b\<lparr>m_pos := m_pos b + nRead\<rparr>))))"

declare ob_from_input.simps [code]

text \<open>\<open>vprintf\<close>, over a \<open>vsnprintf\<close> that returns its number and the bytes it stores in a buffer of the given size.\<close>

partial_function (option) ob_vprintf_loop :: "('s, 'a) ob_pos \<Rightarrow> u8 venv \<Rightarrow> 's wr_op \<Rightarrow> ('s \<Rightarrow> (unit, 's) outcome) \<Rightarrow> (nat \<Rightarrow> int \<times> u8 list)
    \<Rightarrow> ('s, 'a) OutputBuffer_scheme \<Rightarrow> (nat, 's, 'a) ob_out option" where
  "ob_vprintf_loop up e wr fl vsn b =
     (let sz = m_end b - m_pos b;
          n = fst (vsn sz);
          b = b\<lparr>mem := put_at (m_pos b) (snd (vsn sz)) (mem b)\<rparr>
      in if - 1 < n \<and> n < int sz then Some (Inr (nat n), b\<lparr>m_pos := m_pos b + nat n\<rparr>)
         else case ob_flush up wr fl b of
                (Inl err, b) \<Rightarrow> Some (Inl err, b)
              | (Inr _, b) \<Rightarrow>
                  let sz = (if - 1 < n then nat n + 1 else sz * 2) in
                  (case (if b_capacity b < sz then io_set_bufsize e (align_up sz (b_capacity b)) b else (Inr (), b)) of
                     (Inl err, b) \<Rightarrow> Some (Inl err, b)
                   | (Inr _, b) \<Rightarrow> ob_vprintf_loop up e wr fl vsn b))"

declare ob_vprintf_loop.simps [code]

definition ob_vprintf :: "('s, 'a) ob_pos \<Rightarrow> u8 venv \<Rightarrow> 's wr_op \<Rightarrow> ('s \<Rightarrow> (unit, 's) outcome) \<Rightarrow> (nat \<Rightarrow> int \<times> u8 list)
    \<Rightarrow> ('s, 'a) OutputBuffer_scheme \<Rightarrow> (nat, 's, 'a) ob_out option" where
  "ob_vprintf up e wr fl vsn b =
     (if b_capacity b = 0 then Some (Inl Io_exception, b)
      else case (if b_null b then io_initbuf e (b_capacity b) b else (Inr (), b)) of
             (Inl err, b) \<Rightarrow> Some (Inl err, b)
           | (Inr _, b) \<Rightarrow> ob_vprintf_loop up e wr fl vsn b)"


section \<open>SeekableInputBuffer\<close>

text \<open>\<open>SeekableBufferBase<InputBuffer>\<close>, which is always prefetched: \<open>m_stream_pos\<close> is the position of \<open>m_end\<close> in the stream. \<open>m_seekable\<close> is the
  attached stream; its \<open>seek(pos)\<close>, \<open>seek(offset, origin)\<close>, \<open>tell\<close> and \<open>size\<close> are the arguments \<open>sk\<close>, \<open>sko\<close>, \<open>tlf\<close> and \<open>szf\<close>.\<close>

record 's SeekableInputBuffer = "'s InputBuffer" +
  b_stream_pos :: nat

type_synonym ('r, 's, 'a) si_out = "('r, ('s, 'a) SeekableInputBuffer_scheme) outcome"

definition si_make :: "'s option \<Rightarrow> 's SeekableInputBuffer" where
  "si_make stream = \<lparr>mem = [], m_pos = 0, m_end = 0, b_null = True, b_capacity = 8 * 1024, b_is = stream, b_stream_pos = 0\<rparr>"

definition si_update_pos :: "nat \<Rightarrow> ('s, 'a) SeekableInputBuffer_scheme \<Rightarrow> ('s, 'a) SeekableInputBuffer_scheme" where
  "si_update_pos inc b = b\<lparr>b_stream_pos := b_stream_pos b + inc\<rparr>"

text \<open>\<open>m_pos = m_beg + q\<close>, a pointer that must not leave the block.\<close>

definition si_set_pos :: "int \<Rightarrow> ('s, 'a) SeekableInputBuffer_scheme \<Rightarrow> (unit, 's, 'a) si_out" where
  "si_set_pos q b = (if 0 \<le> q \<and> q \<le> int (length (mem b)) then (Inr (), b\<lparr>m_pos := nat q\<rparr>) else (Inl Undefined, b))"

definition si_seek_stream :: "('s \<Rightarrow> (unit, 's) outcome) \<Rightarrow> ('s \<Rightarrow> nat) \<Rightarrow> ('s, 'a) SeekableInputBuffer_scheme \<Rightarrow> (unit, 's, 'a) si_out" where
  "si_seek_stream f tlf b =
     (case b_is b of
        None \<Rightarrow> (Inl Out_of_space, b)
      | Some sm \<Rightarrow>
          (case f sm of
             (Inl err, sm) \<Rightarrow> (Inl err, b\<lparr>b_is := Some sm\<rparr>)
           | (Inr _, sm) \<Rightarrow> (Inr (), b\<lparr>b_is := Some sm, b_stream_pos := tlf sm, m_end := 0, m_pos := 0\<rparr>)))"

definition si_seek :: "(nat \<Rightarrow> 's \<Rightarrow> (unit, 's) outcome) \<Rightarrow> ('s \<Rightarrow> nat) \<Rightarrow> nat \<Rightarrow> ('s, 'a) SeekableInputBuffer_scheme \<Rightarrow> (unit, 's, 'a) si_out" where
  "si_seek sk tlf p b =
     (let pos_beg = size_sub (b_stream_pos b) (m_end b);
          pos_end = b_stream_pos b
      in if m_end b \<noteq> 0 \<and> pos_beg \<le> p \<and> p \<le> pos_end then si_set_pos (int p - int (b_stream_pos b)) b
         else si_seek_stream (sk p) tlf b)"

definition si_seek_origin :: "(nat \<Rightarrow> 's \<Rightarrow> (unit, 's) outcome) \<Rightarrow> (int \<Rightarrow> int \<Rightarrow> 's \<Rightarrow> (unit, 's) outcome) \<Rightarrow> ('s \<Rightarrow> nat) \<Rightarrow> ('s \<Rightarrow> nat) \<Rightarrow> int \<Rightarrow> int
    \<Rightarrow> ('s, 'a) SeekableInputBuffer_scheme \<Rightarrow> (unit, 's, 'a) si_out" where
  "si_seek_origin sk sko tlf szf offset origin b =
     (if origin = 0 then si_seek sk tlf (nat (offset mod 2 ^ 64)) b
      else if origin = 1 then
        if m_end b \<noteq> 0 then
          let pos_beg = size_sub (b_stream_pos b) (m_end b);
              pos_end = b_stream_pos b;
              pos_cur = (int (pos_beg + m_pos b) + offset) mod 2 ^ 64
          in if int pos_beg \<le> pos_cur \<and> pos_cur \<le> int pos_end then si_set_pos (int (m_pos b) + offset) b
             else si_seek_stream (sko offset 1) tlf b
        else si_seek_stream (sko offset 1) tlf b
      else if origin = 2 then
        (case b_is b of
           None \<Rightarrow> (Inl Out_of_space, b)
         | Some sm \<Rightarrow>
             if m_end b = 0 then si_seek_stream (sko offset 2) tlf b
             else si_seek sk tlf (nat ((int (szf sm) + offset) mod 2 ^ 64)) b)
      else (Inl Invalid_argument, b))"

definition si_skip :: "(nat \<Rightarrow> 's \<Rightarrow> (unit, 's) outcome) \<Rightarrow> (int \<Rightarrow> int \<Rightarrow> 's \<Rightarrow> (unit, 's) outcome) \<Rightarrow> ('s \<Rightarrow> nat) \<Rightarrow> ('s \<Rightarrow> nat) \<Rightarrow> int
    \<Rightarrow> ('s, 'a) SeekableInputBuffer_scheme \<Rightarrow> (unit, 's, 'a) si_out" where
  "si_skip sk sko tlf szf diff b = si_seek_origin sk sko tlf szf diff 1 b"

definition si_tell :: "('s \<Rightarrow> nat) \<Rightarrow> ('s, 'a) SeekableInputBuffer_scheme \<Rightarrow> error + nat" where
  "si_tell tlf b =
     (if m_end b = 0 then (case b_is b of None \<Rightarrow> Inl Undefined | Some sm \<Rightarrow> Inr (tlf sm))
      else Inr (size_sub (b_stream_pos b) (m_end b - m_pos b)))"

definition si_size :: "('s \<Rightarrow> nat) \<Rightarrow> ('s, 'a) SeekableInputBuffer_scheme \<Rightarrow> error + nat" where
  "si_size szf b = (case b_is b of None \<Rightarrow> Inl Undefined | Some sm \<Rightarrow> Inr (szf sm))"

section \<open>Streams in memory behind the interfaces\<close>

text \<open>\<open>InputStreamWrapper\<close> on a \<open>MemIO\<close> and \<open>OutputStreamWrapper\<close> on an \<open>AutoGrownMemIO\<close>.\<close>

definition mem_rd :: "'a MemIO_scheme rd_op" where
  "mem_rd n s = (case mem_read n s of Inl err \<Rightarrow> (Inl err, s) | Inr ((bs, _), s) \<Rightarrow> (Inr bs, s))"

definition ag_wr :: "u8 venv \<Rightarrow> AutoGrownMemIO wr_op" where
  "ag_wr e bs s = (case ag_write e bs s of Inl err \<Rightarrow> (Inl err, s) | Inr (n, s) \<Rightarrow> (Inr n, s))"

text \<open>\<open>SeekableWrapper\<close> on a \<open>SeekableMemIO\<close>.\<close>

definition sk_sk :: "nat \<Rightarrow> 'a SeekableMemIO_scheme \<Rightarrow> (unit, 'a SeekableMemIO_scheme) outcome" where
  "sk_sk p s = (case sk_seek (ptrdiff p) s of Inl err \<Rightarrow> (Inl err, s) | Inr s \<Rightarrow> (Inr (), s))"

definition sk_sko :: "int \<Rightarrow> int \<Rightarrow> 'a SeekableMemIO_scheme \<Rightarrow> (unit, 'a SeekableMemIO_scheme) outcome" where
  "sk_sko offset origin s = (case sk_seek_origin offset origin s of Inl err \<Rightarrow> (Inl err, s) | Inr s \<Rightarrow> (Inr (), s))"

definition mem_fl :: "'a MinMemIO_scheme \<Rightarrow> (unit, 'a MinMemIO_scheme) outcome" where
  "mem_fl s = (Inr (), s)"

text \<open>A client that does not catch the exceptions, on an \<open>InputBuffer\<close> over a \<open>MemIO\<close> and an \<open>OutputBuffer\<close> over an \<open>AutoGrownMemIO\<close>.\<close>

definition uncaught :: "('r, 's) outcome \<Rightarrow> error + 'r \<times> 's" where
  "uncaught r = (case r of (Inl err, _) \<Rightarrow> Inl err | (Inr x, s) \<Rightarrow> Inr (x, s))"

type_synonym mem_in = "MemIO InputBuffer"
type_synonym mem_out = "AutoGrownMemIO OutputBuffer"

definition mi_rb :: "u8 venv \<Rightarrow> mem_in \<Rightarrow> error + u8 \<times> mem_in" where
  "mi_rb e b = uncaught (ib_readByte io_update_pos e mem_rd b)"

definition mi_er :: "u8 venv \<Rightarrow> nat \<Rightarrow> mem_in \<Rightarrow> error + u8 list \<times> mem_in" where
  "mi_er e n b = uncaught (ib_ensureRead io_update_pos e mem_rd n b)"

definition mo_ew :: "u8 venv \<Rightarrow> u8 list \<Rightarrow> mem_out \<Rightarrow> error + mem_out" where
  "mo_ew e bs b = drop_val (uncaught (ob_ensureWrite io_update_pos e (ag_wr e) bs b))"

text \<open>The functions of \<open>var_int_io.hpp\<close>, which \<open>StreamBuffer.cpp\<close> includes for the two classes.\<close>

fun mo_write_item :: "u8 venv \<Rightarrow> var_item \<Rightarrow> mem_out \<Rightarrow> error + mem_out" where
  "mo_write_item e (V_uint32 x) b = write_var_uint32 mem_buf_remain_bytes (mo_ew e) x b"
| "mo_write_item e (V_int32 x) b = write_var_int32 mem_buf_remain_bytes (mo_ew e) x b"
| "mo_write_item e (V_uint64 x) b = write_var_uint64 mem_buf_remain_bytes (mo_ew e) x b"
| "mo_write_item e (V_int64 x) b = write_var_int64 mem_buf_remain_bytes (mo_ew e) x b"
| "mo_write_item e (V_string x) b = write_string mem_buf_remain_bytes (mo_ew e) x b"

fun mi_read_like :: "u8 venv \<Rightarrow> var_item \<Rightarrow> mem_in \<Rightarrow> error + var_item \<times> mem_in" where
  "mi_read_like e (V_uint32 _) b = map_val V_uint32 (read_var_uint32 mem_buf_remain_bytes (mi_rb e) b)"
| "mi_read_like e (V_int32 _) b = map_val V_int32 (read_var_int32 mem_buf_remain_bytes (mi_rb e) b)"
| "mi_read_like e (V_uint64 _) b = map_val V_uint64 (read_var_uint64 mem_buf_remain_bytes (mi_rb e) b)"
| "mi_read_like e (V_int64 _) b = map_val V_int64 (read_var_int64 mem_buf_remain_bytes (mi_rb e) b)"
| "mi_read_like e (V_string _) b = map_val V_string (read_string mem_buf_remain_bytes (mi_rb e) (mi_er e) b)"

fun mi_read_likes :: "u8 venv \<Rightarrow> var_item list \<Rightarrow> mem_in \<Rightarrow> error + var_item list \<times> mem_in" where
  "mi_read_likes e [] b = Inr ([], b)"
| "mi_read_likes e (x # xs) b =
     (case mi_read_like e x b of
        Inl err \<Rightarrow> Inl err
      | Inr (y, b) \<Rightarrow> map_val (\<lambda>ys. y # ys) (mi_read_likes e xs b))"

text \<open>Sequences of operations; those of an \<open>InputBuffer\<close> collect what they return.\<close>

datatype ib_op = IB_read nat | IB_ensureRead nat | IB_readByte | IB_getByte | IB_eof | IB_getline nat
datatype ib_val = R_bytes "u8 list" | R_byte u8 | R_int int | R_bool bool

fun mi_exec :: "u8 venv \<Rightarrow> ib_op \<Rightarrow> ib_val list \<times> mem_in \<Rightarrow> error + ib_val list \<times> mem_in" where
  "mi_exec e (IB_read n) (vs, b) = map_val (\<lambda>x. vs @ [R_bytes x]) (uncaught (ib_read io_update_pos e mem_rd n b))"
| "mi_exec e (IB_ensureRead n) (vs, b) = map_val (\<lambda>x. vs @ [R_bytes x]) (uncaught (ib_ensureRead io_update_pos e mem_rd n b))"
| "mi_exec e IB_readByte (vs, b) = map_val (\<lambda>x. vs @ [R_byte x]) (uncaught (ib_readByte io_update_pos e mem_rd b))"
| "mi_exec e IB_getByte (vs, b) = map_val (\<lambda>x. vs @ [R_int x]) (uncaught (ib_getByte io_update_pos e mem_rd b))"
| "mi_exec e IB_eof (vs, b) = map_val (\<lambda>x. vs @ [R_bool x]) (uncaught (ib_eof io_update_pos e mem_rd b))"
| "mi_exec e (IB_getline n) (vs, b) = map_val (\<lambda>x. vs @ [R_bytes x]) (uncaught (ib_getline io_update_pos e mem_rd n b))"

fun mi_pre :: "ib_op \<Rightarrow> ib_val list \<times> mem_in \<Rightarrow> bool" where
  "mi_pre (IB_read n) s = (n < 2 ^ 63)"
| "mi_pre (IB_ensureRead n) s = (n < 2 ^ 63)"
| "mi_pre _ s = True"

fun mi_run :: "u8 venv \<Rightarrow> ib_op list \<Rightarrow> ib_val list \<times> mem_in \<Rightarrow> error + ib_val list \<times> mem_in" where
  "mi_run e [] s = Inr s"
| "mi_run e (a # ops) s = (case mi_exec e a s of Inl err \<Rightarrow> Inl err | Inr s \<Rightarrow> mi_run e ops s)"

fun mi_pre_run :: "u8 venv \<Rightarrow> ib_op list \<Rightarrow> ib_val list \<times> mem_in \<Rightarrow> bool" where
  "mi_pre_run e [] s = True"
| "mi_pre_run e (a # ops) s = (mi_pre a s \<and> (case mi_exec e a s of Inl _ \<Rightarrow> True | Inr s \<Rightarrow> mi_pre_run e ops s))"

datatype ob_op = OB_write "u8 list" | OB_ensureWrite "u8 list" | OB_writeByte u8 | OB_flush_buffer | OB_flush | OB_printf "u8 list" | OB_item var_item
  | OB_uint30 u32 | OB_uint61 u64

fun mo_step :: "u8 venv \<Rightarrow> ob_op \<Rightarrow> mem_out \<Rightarrow> error + mem_out" where
  "mo_step e (OB_write bs) b = drop_val (uncaught (ob_write io_update_pos e (ag_wr e) bs b))"
| "mo_step e (OB_ensureWrite bs) b = mo_ew e bs b"
| "mo_step e (OB_writeByte x) b = drop_val (uncaught (ob_writeByte io_update_pos e (ag_wr e) x b))"
| "mo_step e OB_flush_buffer b = drop_val (uncaught (ob_flush_buffer io_update_pos (ag_wr e) b))"
| "mo_step e OB_flush b = drop_val (uncaught (ob_flush io_update_pos (ag_wr e) mem_fl b))"
| "mo_step e (OB_printf tx) b = drop_val (run_opt (map_option uncaught (ob_vprintf io_update_pos e (ag_wr e) mem_fl (vsnprintf tx) b)))"
| "mo_step e (OB_item x) b = mo_write_item e x b"
| "mo_step e (OB_uint30 x) b = write_var_uint30 mem_buf_remain_bytes (mo_ew e) x b"
| "mo_step e (OB_uint61 x) b = write_var_uint61 mem_buf_remain_bytes (mo_ew e) x b"

fun ob_pre :: "ob_op \<Rightarrow> mem_out \<Rightarrow> bool" where
  "ob_pre (OB_item x) b = item_ok x"
| "ob_pre (OB_printf tx) b = (b_capacity b \<noteq> 0)"
| "ob_pre (OB_uint30 x) b = (unat x < 2 ^ 30)"
| "ob_pre (OB_uint61 x) b = (unat x < 2 ^ 61)"
| "ob_pre _ b = True"

fun ob_spec :: "ob_op \<Rightarrow> u8 list \<Rightarrow> u8 list" where
  "ob_spec (OB_write bs) w = w @ bs"
| "ob_spec (OB_ensureWrite bs) w = w @ bs"
| "ob_spec (OB_writeByte x) w = w @ [x]"
| "ob_spec OB_flush_buffer w = w"
| "ob_spec OB_flush w = w"
| "ob_spec (OB_printf tx) w = w @ tx"
| "ob_spec (OB_item x) w = w @ item_bytes x"
| "ob_spec (OB_uint30 x) w = w @ prefix_code 2 (unat x)"
| "ob_spec (OB_uint61 x) w = w @ prefix_code 3 (unat x)"

fun ob_run :: "u8 venv \<Rightarrow> ob_op list \<Rightarrow> mem_out \<Rightarrow> error + mem_out" where
  "ob_run e [] b = Inr b"
| "ob_run e (a # ops) b = (case mo_step e a b of Inl err \<Rightarrow> Inl err | Inr b \<Rightarrow> ob_run e ops b)"

fun ob_pre_run :: "u8 venv \<Rightarrow> ob_op list \<Rightarrow> mem_out \<Rightarrow> bool" where
  "ob_pre_run e [] b = True"
| "ob_pre_run e (a # ops) b = (ob_pre a b \<and> (case mo_step e a b of Inl _ \<Rightarrow> True | Inr b \<Rightarrow> ob_pre_run e ops b))"

section \<open>What a buffer holds\<close>

definition ib_ok :: "('s \<Rightarrow> bool) \<Rightarrow> ('s, 'a) InputBuffer_scheme \<Rightarrow> bool" where
  "ib_ok ok b \<longleftrightarrow> mem_ok b \<and> (if b_null b then mem b = [] else length (mem b) = b_capacity b) \<and> b_capacity b < 2 ^ 63 \<and> pred_option ok (b_is b)"

definition ib_bytes :: "('s \<Rightarrow> u8 list) \<Rightarrow> ('s, 'a) InputBuffer_scheme \<Rightarrow> u8 list" where
  "ib_bytes cont b = mem_bytes b @ (case b_is b of None \<Rightarrow> [] | Some sm \<Rightarrow> cont sm)"

definition ib_exhausted :: "('s \<Rightarrow> u8 list) \<Rightarrow> ('s, 'a) InputBuffer_scheme \<Rightarrow> bool" where
  "ib_exhausted cont b \<longleftrightarrow> (case b_is b of None \<Rightarrow> True | Some sm \<Rightarrow> cont sm = [])"

text \<open>What \<open>read\<close> does with the bytes that are left: it returns as many as there are, but throws when fewer are left than asked for and all of them
  are in the buffer already. The bytes are then lost when the missing ones alone would fill the buffer.\<close>

definition ib_reads :: "('s \<Rightarrow> bool) \<Rightarrow> ('s \<Rightarrow> u8 list) \<Rightarrow> nat \<Rightarrow> ('s, 'a) InputBuffer_scheme \<Rightarrow> ('s, 'a) ib_bytes_out \<Rightarrow> bool" where
  "ib_reads ok cont n b r \<longleftrightarrow>
     (let c = ib_bytes cont b; b' = snd r in
      ib_ok ok b' \<and> b_capacity b' = b_capacity b \<and> (b_is b' = None \<longleftrightarrow> b_is b = None)
      \<and> (if n \<le> length c then fst r = Inr (take n c) \<and> ib_bytes cont b' = drop n c
         else if ib_exhausted cont b then
           fst r = Inl End_of_file \<and> ib_bytes cont b' = (if b_is b \<noteq> None \<and> b_capacity b \<le> n - length c then [] else c)
         else fst r = Inr c \<and> ib_bytes cont b' = []))"

fun getline_spec :: "nat \<Rightarrow> u8 list \<Rightarrow> u8 list \<times> u8 list" where
  "getline_spec 0 c = ([], c)"
| "getline_spec (Suc k) [] = ([], [])"
| "getline_spec (Suc k) (x # c) =
     (if x = 13 then ([], if c \<noteq> [] \<and> hd c = 10 then tl c else c)
      else if x = 10 then ([], c)
      else let (l, r) = getline_spec k c in (x # l, r))"

fun ib_spec :: "ib_op \<Rightarrow> ib_val list \<times> u8 list \<Rightarrow> ib_val list \<times> u8 list" where
  "ib_spec (IB_read n) (vs, c) = (vs @ [R_bytes (take n c)], drop n c)"
| "ib_spec (IB_ensureRead n) (vs, c) = (vs @ [R_bytes (take n c)], drop n c)"
| "ib_spec IB_readByte (vs, c) = (vs @ [R_byte (hd c)], tl c)"
| "ib_spec IB_getByte (vs, c) = (vs @ [R_int (uint (hd c))], tl c)"
| "ib_spec IB_eof (vs, c) = (vs @ [R_bool (c = [])], c)"
| "ib_spec (IB_getline n) (vs, c) = (vs @ [R_bytes (fst (getline_spec n c))], snd (getline_spec n c))"

definition mi_ok :: "u8 venv \<Rightarrow> ib_val list \<times> mem_in \<Rightarrow> bool" where
  "mi_ok e s \<longleftrightarrow> ib_ok mem_ok (snd s) \<and> 1 < b_capacity (snd s) \<and> v_ok e (b_capacity (snd s))"

definition mi_abs :: "ib_val list \<times> mem_in \<Rightarrow> ib_val list \<times> u8 list" where
  "mi_abs s = (fst s, ib_bytes mem_bytes (snd s))"

text \<open>When \<open>getline\<close> throws: at the end of the input before any byte of a line (\<open>emp\<close>) or, without a stream (\<open>det\<close>), before the end of the line; and when the
  input ends in a carriage return.\<close>

fun getline_throws :: "bool \<Rightarrow> bool \<Rightarrow> nat \<Rightarrow> u8 list \<Rightarrow> bool" where
  "getline_throws det emp 0 c = False"
| "getline_throws det emp (Suc k) [] = (det \<or> emp)"
| "getline_throws det emp (Suc k) (x # c) = (if x = 13 then c = [] else if x = 10 then False else getline_throws det False k c)"

text \<open>What \<open>getline\<close> returns and leaves, when the bytes \<open>pre\<close> of the line are scanned and \<open>c\<close> is what follows them.\<close>

definition getline_ends :: "('s \<Rightarrow> bool) \<Rightarrow> ('s \<Rightarrow> u8 list) \<Rightarrow> nat \<Rightarrow> u8 list \<Rightarrow> u8 list \<Rightarrow> ('s, 'a) InputBuffer_scheme \<Rightarrow> ('s, 'a) ib_bytes_out \<Rightarrow> bool" where
  "getline_ends ok cont room pre c b r \<longleftrightarrow>
     (let th = getline_throws (b_is b = None) (pre = []) room c in
      fst r = (if th then Inl End_of_file else Inr (pre @ fst (getline_spec room c)))
      \<and> ib_ok ok (snd r) \<and> b_capacity (snd r) = b_capacity b \<and> (th \<or> ib_bytes cont (snd r) = snd (getline_spec room c)))"

definition ob_ok :: "('s \<Rightarrow> bool) \<Rightarrow> ('s, 'a) OutputBuffer_scheme \<Rightarrow> bool" where
  "ob_ok ok b \<longleftrightarrow> mem_ok b \<and> (if b_null b then mem b = [] else length (mem b) = b_capacity b) \<and> (case b_os b of Os sm \<Rightarrow> ok sm | _ \<Rightarrow> False)"

text \<open>What was written: the bytes the stream has taken and those in the buffer.\<close>

definition ob_bytes :: "('s \<Rightarrow> u8 list) \<Rightarrow> ('s, 'a) OutputBuffer_scheme \<Rightarrow> u8 list" where
  "ob_bytes out b = (case b_os b of Os sm \<Rightarrow> out sm | _ \<Rightarrow> []) @ out_bytes b"

text \<open>The exceptions of the stream, a refused allocation and, unless the stream takes all it is given (\<open>full\<close>), those for what it did not take.\<close>

definition ob_fails :: "(error \<Rightarrow> bool) \<Rightarrow> bool \<Rightarrow> u8 venv \<Rightarrow> error \<Rightarrow> bool" where
  "ob_fails fails full e err \<longleftrightarrow> fails err \<or> err = Abort \<and> (\<exists>k. \<not> v_ok e k) \<or> \<not> full \<and> (err = Delay_write \<or> err = Out_of_space)"

text \<open>A write of \<open>bs\<close>: the buffer is well-formed after it, and unless it throws it holds \<open>bs\<close> as well.\<close>

definition ob_appends :: "('s \<Rightarrow> bool) \<Rightarrow> ('s \<Rightarrow> u8 list) \<Rightarrow> (error \<Rightarrow> bool) \<Rightarrow> u8 list \<Rightarrow> ('s, 'a) OutputBuffer_scheme \<Rightarrow> ('r, 's, 'a) ob_out \<Rightarrow> bool" where
  "ob_appends ok out fails bs b r \<longleftrightarrow>
     ob_ok ok (snd r) \<and> (case fst r of Inl err \<Rightarrow> fails err | Inr _ \<Rightarrow> ob_bytes out (snd r) = ob_bytes out b @ bs)"

definition ob_prints :: "('s \<Rightarrow> bool) \<Rightarrow> ('s \<Rightarrow> u8 list) \<Rightarrow> (error \<Rightarrow> bool) \<Rightarrow> u8 list \<Rightarrow> ('s, 'a) OutputBuffer_scheme \<Rightarrow> (nat, 's, 'a) ob_out option \<Rightarrow> bool" where
  "ob_prints ok out fails tx b r \<longleftrightarrow>
     (case r of None \<Rightarrow> False | Some y \<Rightarrow> ob_appends ok out fails tx b y \<and> (case fst y of Inl _ \<Rightarrow> True | Inr n \<Rightarrow> n = length tx))"

text \<open>A \<open>SeekableInputBuffer\<close> over a \<open>SeekableMemIO\<close>: the stream is where the buffer ends. \<open>sk_all\<close> is the whole content of the stream.\<close>

definition si_ok :: "SeekableMemIO SeekableInputBuffer \<Rightarrow> bool" where
  "si_ok b \<longleftrightarrow> ib_ok mem_ok b \<and> m_end b \<le> b_stream_pos b
    \<and> (case b_is b of None \<Rightarrow> False | Some sm \<Rightarrow> m_beg sm \<le> m_pos sm \<and> b_stream_pos b = sk_tell sm \<and> sk_size sm < 2 ^ 63)"

definition sk_all :: "SeekableMemIO \<Rightarrow> u8 list" where
  "sk_all sm = take (sk_size sm) (drop (m_beg sm) (mem sm))"

definition sb_env :: "u8 venv" where
  "sb_env = \<lparr>v_ok = \<lambda>_. True, v_junk = \<lambda>_. 0\<rparr>"

definition sb_text :: "u8 list" where
  "sb_text = [104, 105, 13, 10, 120, 10, 121]"

section \<open>Reading\<close>

text \<open>What a buffer relies on in the stream it reads from: a read returns the next bytes, at most as many as asked for, and none only at the end. The lengths
  are those a \<open>ptrdiff_t\<close> holds.\<close>

locale input_stream =
  fixes rd :: "'s rd_op" and ok :: "'s \<Rightarrow> bool" and cont :: "'s \<Rightarrow> u8 list"
  assumes rd_law: "ok s \<Longrightarrow> n < 2 ^ 63 \<Longrightarrow>
    \<exists>bs s'. rd n s = (Inr bs, s') \<and> ok s' \<and> cont s = bs @ cont s' \<and> length bs \<le> n \<and> (bs = [] \<longrightarrow> n = 0 \<or> cont s = [])"
begin

lemma read_loop_law:
  assumes "ok sm" and "mx < 2 ^ 63" and "length buf \<le> mx" and "mn \<le> mx"
  shows "\<exists>bs sm'. read_loop rd mn mx buf sm = (buf @ bs, None, sm') \<and> ok sm' \<and> cont sm = bs @ cont sm' \<and> length (buf @ bs) \<le> mx
    \<and> (mn \<le> length (buf @ bs) \<or> cont sm' = [])"
  using assms
proof (induction "mn - length buf" arbitrary: buf sm rule: less_induct)
  case less
  show ?case
  proof (cases "length buf < mn")
    case False
    then show ?thesis using less.prems by (intro exI [of _ "[]"] exI [of _ sm]) (simp add: read_loop.simps [of rd mn mx buf])
  next
    case True
    from less.prems have "mx - length buf < 2 ^ 63" by linarith
    from rd_law [OF less.prems(1) this] obtain bs s' where
      r: "rd (mx - length buf) sm = (Inr bs, s')" "ok s'" "cont sm = bs @ cont s'" "length bs \<le> mx - length buf" "bs = [] \<longrightarrow> mx - length buf = 0 \<or> cont sm = []"
      by blast
    have step: "read_loop rd mn mx buf sm = (if bs = [] then (buf, None, s') else read_loop rd mn mx (buf @ bs) s')"
      using True r(1) by (simp add: read_loop.simps [of rd mn mx buf])
    show ?thesis
    proof (cases "bs = []")
      case True
      then show ?thesis using r less.prems \<open>length buf < mn\<close> step by (intro exI [of _ "[]"] exI [of _ s']) auto
    next
      case False
      then have "mn - length (buf @ bs) < mn - length buf" using True by (cases bs) auto
      moreover have "length (buf @ bs) \<le> mx" using r(4) less.prems(3) by simp
      ultimately obtain bs' sm' where "read_loop rd mn mx (buf @ bs) s' = ((buf @ bs) @ bs', None, sm')" "ok sm'" "cont s' = bs' @ cont sm'"
        "length ((buf @ bs) @ bs') \<le> mx" "mn \<le> length ((buf @ bs) @ bs') \<or> cont sm' = []"
        using less.hyps [OF _ r(2) less.prems(2) _ less.prems(4), of "buf @ bs"] by blast
      then show ?thesis using r(3) step False by (intro exI [of _ "bs @ bs'"] exI [of _ sm']) auto
    qed
  qed
qed

lemma read_min_max_law:
  assumes "b_is b = Some sm" and "ok sm" and "mx < 2 ^ 63" and "mn \<le> mx"
  obtains bs sm' where "ib_read_min_max rd mn mx b = (bs, None, b\<lparr>b_is := Some sm'\<rparr>)" and "ok sm'" and "cont sm = bs @ cont sm'"
    and "length bs \<le> mx" and "mn \<le> length bs \<or> cont sm' = []"
  using read_loop_law [OF assms(2,3), of "[]" mn] assms by (auto simp: ib_read_min_max_def)

end

lemma ib_readsI:
  assumes b: "b_is b = Some sm" "cont sm = bs @ rest" "n = length (mem_bytes b) + n2" "0 < n2"
    and b': "ib_ok ok b'" "b_capacity b' = b_capacity b" "b_is b' \<noteq> None"
    and r: "if bs = [] then rest = [] \<and> x = Inl End_of_file \<and> ib_bytes cont b' = (if b_capacity b \<le> n2 then [] else mem_bytes b)
      else x = Inr (mem_bytes b @ take n2 bs) \<and> ib_bytes cont b' = drop n2 bs @ rest \<and> (n2 \<le> length bs \<or> rest = [])"
  shows "ib_reads ok cont n b (x, b')"
proof -
  define p where "p = mem_bytes b"
  have c: "ib_bytes cont b = p @ bs @ rest" using b by (simp add: ib_bytes_def p_def)
  have ex: "ib_exhausted cont b \<longleftrightarrow> bs @ rest = []" using b by (simp add: ib_exhausted_def)
  show ?thesis using r b(3,4) b' b(1) unfolding ib_reads_def c ex p_def [symmetric] Let_def
    by (cases "bs = []"; cases "n2 \<le> length bs") auto
qed

text \<open>A buffer over such a stream; \<open>update_pos\<close> changes nothing the buffer itself uses.\<close>

locale input_buffer = input_stream rd ok cont
  for rd :: "'s rd_op" and ok :: "'s \<Rightarrow> bool" and cont :: "'s \<Rightarrow> u8 list" +
  fixes up :: "('s, 'a) ib_pos"
  assumes up_keeps: "mem (up n b) = mem b" "m_pos (up n b) = m_pos b" "m_end (up n b) = m_end b" "b_null (up n b) = b_null b"
    "b_capacity (up n b) = b_capacity b" "b_is (up n b) = b_is b"
begin

lemma unbuffered_reads:
  assumes b: "ib_ok ok b" "b_null b" "b_is b = Some sm" and n: "0 < n" "n < 2 ^ 63" and cap: "b_capacity b = 0"
  shows "ib_reads ok cont n b (ib_read_unbuffered rd n b)"
proof -
  have sm: "ok sm" and z: "mem b = []" "m_end b = 0" "m_pos b = 0" using b by (auto simp: ib_ok_def mem_ok_def)
  obtain bs sm' where r: "ib_read_min_max rd n n b = (bs, None, b\<lparr>b_is := Some sm'\<rparr>)" "ok sm'" "cont sm = bs @ cont sm'" "length bs \<le> n"
    "n \<le> length bs \<or> cont sm' = []" by (rule read_min_max_law [OF b(3) sm n(2) order_refl])
  have e: "ib_read_unbuffered rd n b = (if bs = [] then Inl End_of_file else Inr bs, b\<lparr>b_is := Some sm'\<rparr>)"
    using r(1) by (simp add: ib_read_unbuffered_def)
  show ?thesis unfolding e
    by (rule ib_readsI [where cont = cont, OF b(3) r(3), of _ n]) (use r n z b cap in \<open>auto simp: mem_bytes_def ib_ok_def mem_ok_def ib_bytes_def\<close>)
qed

lemma fill_reads:
  assumes b: "ib_ok ok b" "\<not> b_null b" "b_is b = Some sm" and n: "m_end b < m_pos b + n" "n < 2 ^ 63"
  shows "ib_reads ok cont n b (ib_fill up rd n b)"
proof -
  define buffered where "buffered = mem_bytes b"
  define n2 where "n2 = n - length buffered"
  have mb: "mem_ok b" "length (mem b) = b_capacity b" "b_capacity b < 2 ^ 63" "ok sm" using b by (simp_all add: ib_ok_def)
  have lb: "m_end b - m_pos b = length buffered" using length_mem_bytes [OF mb(1)] by (simp add: buffered_def)
  have n2: "size_sub n (length buffered) = n2" "0 < n2" "n2 < 2 ^ 63" "n = length (mem_bytes b) + n2" using lb n mb(1) by (auto simp: size_sub_def n2_def mem_ok_def buffered_def)
  have bf: "take (length buffered) (drop (m_pos b) (mem b)) = buffered" using lb by (simp add: buffered_def mem_bytes_def)
  show ?thesis
  proof (cases "b_capacity b \<le> n2")
    case True
    obtain bs sm' where r: "ib_read_min_max rd n2 n2 (b\<lparr>m_pos := 0, m_end := 0\<rparr>) = (bs, None, b\<lparr>m_pos := 0, m_end := 0, b_is := Some sm'\<rparr>)"
      "ok sm'" "cont sm = bs @ cont sm'" "length bs \<le> n2" "n2 \<le> length bs \<or> cont sm' = []"
      by (rule read_min_max_law [of "b\<lparr>m_pos := 0, m_end := 0\<rparr>", OF _ mb(4) n2(3) order_refl]) (simp_all add: b(3))
    define b' where "b' = b\<lparr>m_pos := 0, m_end := 0, b_is := Some sm'\<rparr>"
    have e: "ib_fill up rd n b = (if bs = [] then Inl End_of_file else Inr (buffered @ bs), if bs = [] then b' else up (length bs) b')"
      using True r(1) by (simp add: ib_fill_def lb n2(1) bf Let_def b'_def)
    show ?thesis unfolding e
      by (rule ib_readsI [where cont = cont, OF b(3) r(3) n2(4,2)])
        (use r b mb True n2(2) in \<open>auto simp: b'_def mem_bytes_def ib_ok_def mem_ok_def ib_bytes_def up_keeps buffered_def\<close>)
  next
    case False
    obtain bs sm' where r: "ib_read_min_max rd n2 (b_capacity b) b = (bs, None, b\<lparr>b_is := Some sm'\<rparr>)"
      "ok sm'" "cont sm = bs @ cont sm'" "length bs \<le> b_capacity b" "n2 \<le> length bs \<or> cont sm' = []"
      by (rule read_min_max_law [OF b(3) mb(4,3), of n2]) (use False in simp_all)
    define b1 where "b1 = b\<lparr>b_is := Some sm', mem := put_at 0 bs (mem b)\<rparr>"
    define b2 where "b2 = (up (length bs) b1)\<lparr>m_end := length bs, m_pos := min n2 (length bs)\<rparr>"
    have e: "ib_fill up rd n b = (if bs = [] then Inl End_of_file else Inr (buffered @ take n2 bs), if bs = [] then b1 else b2)"
      using False r(1) by (simp add: ib_fill_def lb n2(1) bf Let_def b1_def b2_def)
    show ?thesis unfolding e
      by (rule ib_readsI [where cont = cont, OF b(3) r(3) n2(4,2)])
        (use r b mb False n2(2) in \<open>auto simp: b1_def b2_def mem_bytes_def ib_ok_def mem_ok_def ib_bytes_def up_keeps buffered_def put_at_def min_def\<close>)
  qed
qed


lemma initbuf_law:
  assumes "ib_ok ok b" and "b_null b" and "v_ok e (b_capacity b)"
  obtains b' where "io_initbuf e (b_capacity b) b = (Inr (), b')" and "ib_ok ok b'" and "\<not> b_null b'" and "b_capacity b' = b_capacity b"
    and "b_is b' = b_is b" and "m_pos b' = 0" and "m_end b' = 0" and "mem_bytes b = []" and "mem_bytes b' = []" and "m_end b = 0"
proof
  let ?b = "b\<lparr>mem := map (v_junk e) [0..<b_capacity b], m_pos := 0, m_end := 0, b_null := False, b_capacity := b_capacity b\<rparr>"
  show "io_initbuf e (b_capacity b) b = (Inr (), ?b)" using assms(2,3) by (simp add: io_initbuf_def v_realloc_def)
  show "ib_ok ok ?b" "m_end b = 0" using assms by (auto simp: ib_ok_def mem_ok_def)
qed (use assms in \<open>auto simp: ib_ok_def mem_bytes_def\<close>)

lemma ib_reads_cong:
  assumes "ib_bytes cont b = ib_bytes cont b'" "b_capacity b = b_capacity b'" "b_is b = b_is b'"
  shows "ib_reads ok cont n b r \<longleftrightarrow> ib_reads ok cont n b' r"
  using assms by (simp add: ib_reads_def ib_exhausted_def)

lemma do_fill_reads:
  assumes b: "ib_ok ok b" and n: "m_end b < m_pos b + n" "n < 2 ^ 63" and e: "b_null b \<longrightarrow> v_ok e (b_capacity b)"
  shows "ib_reads ok cont n b (ib_do_fill_and_read up e rd n b)"
proof (cases "b_is b")
  case None
  have "length (mem_bytes b) < n" using length_mem_bytes [of b] b n by (auto simp: ib_ok_def mem_ok_def)
  with None b show ?thesis by (simp add: ib_do_fill_and_read_def ib_reads_def ib_bytes_def ib_exhausted_def)
next
  case (Some sm)
  consider (buf) "\<not> b_null b" | (un) "b_null b" "b_capacity b = 0" | (new) "b_null b" "b_capacity b \<noteq> 0" by blast
  then show ?thesis
  proof cases
    case buf
    with fill_reads [OF b buf Some n] Some show ?thesis by (simp add: ib_do_fill_and_read_def)
  next
    case un
    moreover have "0 < n" using n b un by (auto simp: ib_ok_def mem_ok_def)
    ultimately show ?thesis using unbuffered_reads [OF b un(1) Some _ n(2)] Some by (simp add: ib_do_fill_and_read_def)
  next
    case new
    from new(1) e have "v_ok e (b_capacity b)" by simp
    from initbuf_law [OF b new(1) this] obtain b' where i: "io_initbuf e (b_capacity b) b = (Inr (), b')" "ib_ok ok b'" "\<not> b_null b'"
      "b_capacity b' = b_capacity b" "b_is b' = b_is b" "m_pos b' = 0" "m_end b' = 0" "mem_bytes b = []" "mem_bytes b' = []" "m_end b = 0" by blast
    have "0 < n" using n i(10) b by (auto simp: ib_ok_def mem_ok_def)
    then have "ib_reads ok cont n b' (ib_fill up rd n b')" using fill_reads [OF i(2,3) _ _ n(2)] i Some by simp
    then show ?thesis using new i Some ib_reads_cong [of b b' n] by (simp add: ib_do_fill_and_read_def ib_bytes_def)
  qed
qed

lemma advance_reads:
  assumes b: "ib_ok ok b" and n: "m_pos b + n \<le> m_end b"
  shows "ib_reads ok cont n b (Inr (take n (drop (m_pos b) (mem b))), b\<lparr>m_pos := m_pos b + n\<rparr>)"
proof -
  have l: "n \<le> length (mem_bytes b)" using length_mem_bytes [of b] b n by (simp add: ib_ok_def)
  then have "n \<le> length (ib_bytes cont b)" by (simp add: ib_bytes_def)
  moreover have "take n (drop (m_pos b) (mem b)) = take n (ib_bytes cont b)"
    using l n by (simp add: ib_bytes_def) (simp add: mem_bytes_def min_def)
  moreover have "ib_bytes cont (b\<lparr>m_pos := m_pos b + n\<rparr>) = drop n (ib_bytes cont b)"
    using l n by (simp add: ib_bytes_def) (simp add: mem_bytes_def drop_take add.commute)
  ultimately show ?thesis using b n by (simp add: ib_reads_def ib_ok_def mem_ok_def)
qed

lemma read_law:
  assumes "ib_ok ok b" "n < 2 ^ 63" "b_null b \<longrightarrow> v_ok e (b_capacity b)"
  shows "ib_reads ok cont n b (ib_read up e rd n b)"
  using advance_reads [OF assms(1), of n] do_fill_reads [OF assms(1) _ assms(2,3)] by (simp add: ib_read_def)

text \<open>\<open>ensureRead\<close> returns the bytes when there are enough and throws otherwise.\<close>

lemma ensureRead_law:
  assumes "ib_ok ok b" "n < 2 ^ 63" "b_null b \<longrightarrow> v_ok e (b_capacity b)"
  shows "\<exists>b'. ib_ensureRead up e rd n b = (if n \<le> length (ib_bytes cont b) then Inr (take n (ib_bytes cont b)) else Inl End_of_file, b')
    \<and> ib_ok ok b' \<and> b_capacity b' = b_capacity b \<and> (b_is b' = None \<longleftrightarrow> b_is b = None)
    \<and> (n \<le> length (ib_bytes cont b) \<longrightarrow> ib_bytes cont b' = drop n (ib_bytes cont b))"
proof -
  obtain r b' where rb: "ib_read up e rd n b = (r, b')" by fastforce
  have e: "ib_ensureRead up e rd n b = (case r of Inl err \<Rightarrow> Inl err | Inr bs \<Rightarrow> if length bs \<noteq> n then Inl End_of_file else Inr bs, b')"
    if "length (take n (drop (m_pos b) (mem b))) = n \<or> m_end b < m_pos b + n"
    using that rb by (auto simp: ib_ensureRead_def ib_read_def ib_fill_and_ensureRead_def split: sum.splits if_splits)
  have "length (take n (drop (m_pos b) (mem b))) = n \<or> m_end b < m_pos b + n" using assms(1) by (auto simp: ib_ok_def mem_ok_def)
  from e [OF this] read_law [OF assms] show ?thesis unfolding rb by (auto simp: ib_reads_def Let_def split: if_splits)
qed

lemma byte_law:
  assumes "ib_ok ok b" "b_null b \<longrightarrow> v_ok e (b_capacity b)"
  shows "\<exists>b'. ib_readByte up e rd b = (if ib_bytes cont b = [] then Inl End_of_file else Inr (hd (ib_bytes cont b)), b')
    \<and> ib_getByte up e rd b = (if ib_bytes cont b = [] then Inl End_of_file else Inr (uint (hd (ib_bytes cont b))), b')
    \<and> ib_ok ok b' \<and> b_capacity b' = b_capacity b \<and> (b_is b' = None \<longleftrightarrow> b_is b = None) \<and> ib_bytes cont b' = tl (ib_bytes cont b)"
proof -
  let ?c = "ib_bytes cont b"
  obtain r b' where rb: "ib_read up e rd 1 b = (r, b')" by fastforce
  have e: "ib_readByte up e rd b = (case r of Inl err \<Rightarrow> Inl err | Inr bs \<Rightarrow> if bs \<noteq> [] then Inr (hd bs) else Inl End_of_file, b')"
    "ib_getByte up e rd b = (case r of Inl err \<Rightarrow> Inl err | Inr bs \<Rightarrow> Inr (if bs \<noteq> [] then uint (hd bs) else - 1), b')"
    using rb assms(1)
    by (auto simp: ib_readByte_def ib_getByte_def ib_fill_and_read_byte_def ib_fill_and_get_byte_def ib_read_def ib_ok_def mem_ok_def hd_drop_conv_nth split: sum.splits if_splits)
  show ?thesis
  proof (cases ?c)
    case Nil
    then have "ib_exhausted cont b" by (auto simp: ib_exhausted_def ib_bytes_def split: option.splits)
    with Nil read_law [OF assms(1) _ assms(2), of 1] e show ?thesis unfolding rb by (simp add: ib_reads_def)
  next
    case (Cons x d)
    with read_law [OF assms(1) _ assms(2), of 1] e show ?thesis unfolding rb by (simp add: ib_reads_def)
  qed
qed

end

context input_buffer
begin

text \<open>The one byte that \<open>test_eof\<close> and \<open>getline\<close> read ahead can be put back, in a buffer of more than one byte.\<close>

lemma fill_one:
  assumes b: "ib_ok ok b" "\<not> b_null b" "b_is b = Some sm" "m_pos b = m_end b" and cap: "1 < b_capacity b" and c: "cont sm = x # d"
  obtains b' where "ib_fill up rd 1 b = (Inr [x], b')" and "m_pos b' = 1" and "ib_ok ok (b'\<lparr>m_pos := 0\<rparr>)" and "ib_bytes cont (b'\<lparr>m_pos := 0\<rparr>) = x # d"
    and "b_capacity b' = b_capacity b" and "b_is b' \<noteq> None"
proof -
  have mb: "length (mem b) = b_capacity b" "b_capacity b < 2 ^ 63" "ok sm" using b by (simp_all add: ib_ok_def)
  obtain bs sm' where r: "ib_read_min_max rd 1 (b_capacity b) b = (bs, None, b\<lparr>b_is := Some sm'\<rparr>)"
      "ok sm'" "cont sm = bs @ cont sm'" "length bs \<le> b_capacity b" "1 \<le> length bs \<or> cont sm' = []"
      by (rule read_min_max_law [OF b(3) mb(3,2), of 1]) (use cap in simp_all)
  obtain bs' where bs: "bs = x # bs'" using r(3,5) c by (cases bs) auto
  define b1 where "b1 = b\<lparr>b_is := Some sm', mem := put_at 0 bs (mem b)\<rparr>"
  define b' where "b' = (up (length bs) b1)\<lparr>m_end := length bs, m_pos := 1\<rparr>"
  have "ib_fill up rd 1 b = (Inr [x], b')"
    using cap r(1) b(4) bs by (simp add: ib_fill_def Let_def b1_def b'_def size_sub_def)
  moreover have "ib_ok ok (b'\<lparr>m_pos := 0\<rparr>)" "ib_bytes cont (b'\<lparr>m_pos := 0\<rparr>) = x # d" "b_capacity b' = b_capacity b" "b_is b' \<noteq> None" "m_pos b' = 1"
    using b(2) r c mb by (simp_all add: b'_def b1_def ib_ok_def mem_ok_def ib_bytes_def mem_bytes_def up_keeps put_at_def)
  ultimately show thesis using that by blast
qed

lemma do_fill_one:
  assumes b: "ib_ok ok b" "m_pos b = m_end b" "b_null b \<longrightarrow> v_ok e (b_capacity b)" and cap: "1 < b_capacity b" and c: "ib_bytes cont b = x # d"
  obtains b' where "ib_do_fill_and_read up e rd 1 b = (Inr [x], b')" and "m_pos b' = 1" and "ib_ok ok (b'\<lparr>m_pos := 0\<rparr>)"
    and "ib_bytes cont (b'\<lparr>m_pos := 0\<rparr>) = x # d" and "b_capacity b' = b_capacity b" and "b_is b' \<noteq> None" and "b_is b \<noteq> None"
proof -
  have m: "mem_bytes b = []" using b(2) by (simp add: mem_bytes_def)
  then obtain sm where sm: "b_is b = Some sm" "cont sm = x # d" using c by (auto simp: ib_bytes_def split: option.splits)
  show thesis
  proof (cases "b_null b")
    case False
    from fill_one [OF b(1) False sm(1) b(2) cap sm(2)] sm(1) False that show thesis by (auto simp: ib_do_fill_and_read_def)
  next
    case True
    with b(3) have "v_ok e (b_capacity b)" by simp
    from initbuf_law [OF b(1) True this] obtain b1 where i: "io_initbuf e (b_capacity b) b = (Inr (), b1)" "ib_ok ok b1" "\<not> b_null b1"
      "b_capacity b1 = b_capacity b" "b_is b1 = b_is b" "m_pos b1 = 0" "m_end b1 = 0" by blast
    from fill_one [OF i(2,3), of sm x d] i sm cap True that show thesis by (auto simp: ib_do_fill_and_read_def)
  qed
qed

text \<open>\<open>eof\<close> tells whether a byte is left and leaves all of them.\<close>

lemma eof_law:
  assumes b: "ib_ok ok b" "b_null b \<longrightarrow> v_ok e (b_capacity b)" and cap: "1 < b_capacity b"
  shows "\<exists>b'. ib_eof up e rd b = (Inr (ib_bytes cont b = []), b') \<and> ib_ok ok b' \<and> ib_bytes cont b' = ib_bytes cont b \<and> b_capacity b' = b_capacity b
    \<and> (b_is b' = None \<longleftrightarrow> b_is b = None)"
proof (cases "m_pos b = m_end b")
  case False
  then have "mem_bytes b \<noteq> []" using b(1) mem_bytes_Nil [of b] by (simp add: ib_ok_def)
  with False b(1) show ?thesis by (simp add: ib_eof_def ib_bytes_def)
next
  case p: True
  show ?thesis
  proof (cases "ib_bytes cont b")
    case Nil
    have "ib_exhausted cont b" using Nil by (auto simp: ib_exhausted_def ib_bytes_def split: option.splits)
    then show ?thesis using do_fill_reads [OF b(1) _ _ b(2), of 1] p Nil b(1)
      by (cases "ib_do_fill_and_read up e rd 1 b") (auto simp: ib_eof_def ib_test_eof_def ib_reads_def Let_def)
  next
    case (Cons x d)
    from do_fill_one [OF b(1) p b(2) cap Cons] obtain b' where "ib_do_fill_and_read up e rd 1 b = (Inr [x], b')" "m_pos b' = 1" "ib_ok ok (b'\<lparr>m_pos := 0\<rparr>)"
      "ib_bytes cont (b'\<lparr>m_pos := 0\<rparr>) = x # d" "b_capacity b' = b_capacity b" "b_is b' \<noteq> None" "b_is b \<noteq> None" by blast
    then show ?thesis using p Cons by (auto simp: ib_eof_def ib_test_eof_def)
  qed
qed

lemma getByte_back:
  assumes b: "ib_ok ok b" "b_null b \<longrightarrow> v_ok e (b_capacity b)" and cap: "1 < b_capacity b" and c: "ib_bytes cont b = x # d"
  obtains b' where "ib_getByte up e rd b = (Inr (uint x), b')" and "ib_ok ok b'" and "ib_bytes cont b' = d" and "ib_ok ok (b'\<lparr>m_pos := m_pos b' - 1\<rparr>)"
    and "ib_bytes cont (b'\<lparr>m_pos := m_pos b' - 1\<rparr>) = x # d" and "b_capacity b' = b_capacity b"
proof -
  obtain b' where g: "ib_getByte up e rd b = (Inr (uint x), b')" "ib_ok ok b'" "b_capacity b' = b_capacity b" "ib_bytes cont b' = d"
    using byte_law [OF b] c by auto
  have "ib_ok ok (b'\<lparr>m_pos := m_pos b' - 1\<rparr>) \<and> ib_bytes cont (b'\<lparr>m_pos := m_pos b' - 1\<rparr>) = x # d"
  proof (cases "m_pos b < m_end b")
    case True
    then have "b' = b\<lparr>m_pos := m_pos b + 1\<rparr>" using g(1) by (simp add: ib_getByte_def)
    then show ?thesis using b(1) c by simp
  next
    case False
    then have p: "m_pos b = m_end b" using b(1) by (simp add: ib_ok_def mem_ok_def)
    from do_fill_one [OF b(1) p b(2) cap c] obtain b1 where "ib_do_fill_and_read up e rd 1 b = (Inr [x], b1)" "m_pos b1 = 1" "ib_ok ok (b1\<lparr>m_pos := 0\<rparr>)"
      "ib_bytes cont (b1\<lparr>m_pos := 0\<rparr>) = x # d" by blast
    then show ?thesis using g(1) False by (auto simp: ib_getByte_def ib_fill_and_get_byte_def)
  qed
  with g that show thesis by blast
qed

end

context input_buffer
begin

lemma slice_law:
  assumes "ib_ok ok b" and "m_pos b \<le> p" and "p \<le> m_end b"
  shows "ib_ok ok (b\<lparr>m_pos := p\<rparr>)" and "ib_bytes cont (b\<lparr>m_pos := p\<rparr>) = drop (p - m_pos b) (ib_bytes cont b)"
    and "io_slice (m_pos b) p b = take (p - m_pos b) (ib_bytes cont b)"
  using advance_reads [OF assms(1), of "p - m_pos b"] assms
  by (auto simp: ib_reads_def io_slice_def Let_def ib_bytes_def length_mem_bytes ib_ok_def split: if_splits)

lemma getline_cr_ends:
  assumes b: "ib_ok ok b" "b_null b \<longrightarrow> v_ok e (b_capacity b)" and cap: "1 < b_capacity b" and b0: "b_capacity b = b_capacity b0" "ib_bytes cont b = d"
  shows "getline_ends ok cont (Suc k) pre (13 # d) b0 (ib_getline_cr up e rd pre b)"
proof (cases d)
  case Nil
  then obtain b' where "ib_getByte up e rd b = (Inl End_of_file, b')" "ib_ok ok b'" "b_capacity b' = b_capacity b" using byte_law [OF b] b0(2) by auto
  then show ?thesis using Nil b0(1) by (simp add: ib_getline_cr_def getline_ends_def)
next
  case (Cons y d')
  have y: "uint y \<noteq> - 1" "uint y = 10 \<longleftrightarrow> y = 10" using uint_ge_0 [of y] by (linarith, simp add: word_uint_eq_iff)
  have "ib_bytes cont b = y # d'" using Cons b0(2) by simp
  from getByte_back [OF b cap this] obtain b' where "ib_getByte up e rd b = (Inr (uint y), b')" "ib_ok ok b'" "ib_bytes cont b' = d'"
    "ib_ok ok (b'\<lparr>m_pos := m_pos b' - 1\<rparr>)" "ib_bytes cont (b'\<lparr>m_pos := m_pos b' - 1\<rparr>) = y # d'" "b_capacity b' = b_capacity b" by blast
  then show ?thesis using Cons b0(1) y by (simp add: ib_getline_cr_def getline_ends_def)
qed

lemma scan_byte:
  assumes b: "ib_ok ok b" and p: "m_pos b \<le> p" "p < m_end b"
  shows "io_slice (m_pos b) (Suc p) b = io_slice (m_pos b) p b @ [mem b ! p]"
    and "drop (p - m_pos b) (ib_bytes cont b) = mem b ! p # drop (Suc p - m_pos b) (ib_bytes cont b)"
proof -
  have k: "p - m_pos b < length (mem_bytes b)" using p b by (simp add: length_mem_bytes ib_ok_def)
  then have "ib_bytes cont b ! (p - m_pos b) = mem_bytes b ! (p - m_pos b)" by (simp add: ib_bytes_def nth_append)
  also have "\<dots> = mem b ! p" using p b by (simp add: mem_bytes_def ib_ok_def mem_ok_def)
  finally have x: "ib_bytes cont b ! (p - m_pos b) = mem b ! p" .
  have l: "p - m_pos b < length (ib_bytes cont b)" "Suc p - m_pos b = Suc (p - m_pos b)" using k p by (simp_all add: ib_bytes_def)
  show "io_slice (m_pos b) (Suc p) b = io_slice (m_pos b) p b @ [mem b ! p]"
    using slice_law(3) [OF b, of p] slice_law(3) [OF b, of "Suc p"] p l x by (simp add: take_Suc_conv_app_nth)
  show "drop (p - m_pos b) (ib_bytes cont b) = mem b ! p # drop (Suc p - m_pos b) (ib_bytes cont b)"
    unfolding l(2) using l(1) x by (metis Cons_nth_drop_Suc)
qed

text \<open>The end of the buffer is reached: either the stream ends there or the buffer is filled again.\<close>

lemma getline_refill:
  assumes b: "ib_ok ok b" "\<not> b_null b" "b_is b = Some sm" and cap: "1 < b_capacity b" and room: "room \<noteq> 0" and pre: "pre = line @ io_slice (m_pos b) (m_end b) b"
  obtains (fin) b' where "ib_getline_loop up e rd line (m_end b) room b = (if pre = [] then Inl End_of_file else Inr pre, b')" and "ib_ok ok b'"
      and "b_capacity b' = b_capacity b" and "cont sm = []" and "pre \<noteq> [] \<longrightarrow> ib_bytes cont b' = []"
    | (more) b' where "ib_getline_loop up e rd line (m_end b) room b = ib_getline_loop up e rd pre 0 room b'" and "ib_ok ok b'"
      and "b_capacity b' = b_capacity b" and "ib_bytes cont b' = cont sm" and "m_pos b' = 0" and "m_end b' \<noteq> 0" and "b_is b' \<noteq> None" and "\<not> b_null b'"
proof -
  note step = ib_getline_loop.simps [of up e rd line "m_end b" room b]
  have ok: "ok sm" "b_capacity b < 2 ^ 63" "length (mem b) = b_capacity b" using b by (simp_all add: ib_ok_def)
  obtain bs sm' where r: "ib_read_min_max rd 1 (b_capacity b) (b\<lparr>m_pos := m_end b\<rparr>) = (bs, None, b\<lparr>m_pos := m_end b, b_is := Some sm'\<rparr>)"
    "ok sm'" "cont sm = bs @ cont sm'" "length bs \<le> b_capacity b" "1 \<le> length bs \<or> cont sm' = []"
    by (rule read_min_max_law [of "b\<lparr>m_pos := m_end b\<rparr>", OF _ ok(1,2), of 1]) (use cap b(3) in simp_all)
  show thesis
  proof (cases "bs = []")
    case True
    show thesis
      by (rule fin [of "if pre = [] then b\<lparr>m_pos := m_end b, b_is := Some sm'\<rparr> else b\<lparr>m_pos := 0, b_is := Some sm', m_end := 0\<rparr>"])
        (use True r b ok room pre in \<open>auto simp: step Let_def put_at_def ib_ok_def mem_ok_def ib_bytes_def mem_bytes_def\<close>)
  next
    case False
    show thesis
      by (rule more [of "(up (length bs) (b\<lparr>m_pos := m_end b, b_is := Some sm', mem := put_at 0 bs (mem b)\<rparr>))\<lparr>m_end := length bs, m_pos := 0\<rparr>"])
        (use False r b ok room pre in \<open>simp_all add: step Let_def put_at_def ib_ok_def mem_ok_def ib_bytes_def mem_bytes_def up_keeps\<close>)
  qed
qed

lemma getline_loop_ends:
  assumes "ib_ok ok b" "b_null b \<longrightarrow> v_ok e (b_capacity b)" "1 < b_capacity b" "m_pos b \<le> p" "p \<le> m_end b"
  shows "getline_ends ok cont room (line @ io_slice (m_pos b) p b) (drop (p - m_pos b) (ib_bytes cont b)) b (ib_getline_loop up e rd line p room b)"
  using assms
proof (induction "3 * room + (if p = m_end b then if b_null b then 2 else 1 else 0)" arbitrary: line p room b rule: less_induct)
  case less
  note b = less.prems(1) and e = less.prems(2) and cap = less.prems(3) and p = less.prems(4,5)
  define pre where "pre = line @ io_slice (m_pos b) p b"
  define c where "c = drop (p - m_pos b) (ib_bytes cont b)"
  note sl = slice_law [OF b p]
  note step = ib_getline_loop.simps [of up e rd line p room b]
  consider (stop) "room = 0" | (init) k where "room = Suc k" "p = m_end b" "b_null b" | (det) k where "room = Suc k" "p = m_end b" "\<not> b_null b" "b_is b = None"
    | (refill) k sm where "room = Suc k" "p = m_end b" "\<not> b_null b" "b_is b = Some sm" | (byte) k where "room = Suc k" "p < m_end b"
    using p by (cases room) fastforce+
  then have "getline_ends ok cont room pre c b (ib_getline_loop up e rd line p room b)"
  proof cases
    case stop
    then show ?thesis using sl unfolding step by (simp add: getline_ends_def pre_def c_def)
  next
    case init
    with e have "v_ok e (b_capacity b)" by simp
    from initbuf_law [OF b init(3) this] obtain b1 where i: "io_initbuf e (b_capacity b) b = (Inr (), b1)" "ib_ok ok b1" "\<not> b_null b1"
      "b_capacity b1 = b_capacity b" "b_is b1 = b_is b" "m_pos b1 = 0" "m_end b1 = 0" "mem_bytes b = []" "mem_bytes b1 = []" "m_end b = 0" by blast
    have eq: "ib_getline_loop up e rd line p room b = ib_getline_loop up e rd line 0 room b1"
      unfolding step using init i cap by simp
    have "getline_ends ok cont room (line @ io_slice (m_pos b1) 0 b1) (drop (0 - m_pos b1) (ib_bytes cont b1)) b1 (ib_getline_loop up e rd line 0 room b1)"
      by (rule less.hyps) (use i init cap in simp_all)
    then show ?thesis unfolding eq using i p by (simp add: getline_ends_def pre_def c_def ib_bytes_def io_slice_def)
  next
    case det
    have "ib_bytes cont b = mem_bytes b" "mem_bytes b = take (m_end b - m_pos b) (drop (m_pos b) (mem b))" using det by (simp_all add: ib_bytes_def mem_bytes_def)
    then have "c = []" using det(2) by (simp add: c_def)
    then show ?thesis using det sl b unfolding step by (simp add: ib_read_min_max_def getline_ends_def put_at_def)
  next
    case refill
    have c: "c = cont sm" using refill b length_mem_bytes [of b] by (simp add: c_def ib_bytes_def ib_ok_def)
    have pre: "pre = line @ io_slice (m_pos b) (m_end b) b" using refill(2) by (simp add: pre_def)
    have room: "room \<noteq> 0" using refill(1) by simp
    show ?thesis
    proof (rule getline_refill [OF b refill(3,4) cap room pre, of e])
      fix b' assume "ib_getline_loop up e rd line (m_end b) room b = (if pre = [] then Inl End_of_file else Inr pre, b')" "ib_ok ok b'"
        "b_capacity b' = b_capacity b" "cont sm = []" "pre \<noteq> [] \<longrightarrow> ib_bytes cont b' = []"
      then show ?thesis using refill c by (simp add: getline_ends_def)
    next
      fix b' assume b': "ib_getline_loop up e rd line (m_end b) room b = ib_getline_loop up e rd pre 0 room b'" "ib_ok ok b'" "b_capacity b' = b_capacity b"
        "ib_bytes cont b' = cont sm" "m_pos b' = 0" "m_end b' \<noteq> 0" "b_is b' \<noteq> None" "\<not> b_null b'"
      have "getline_ends ok cont room (pre @ io_slice (m_pos b') 0 b') (drop (0 - m_pos b') (ib_bytes cont b')) b' (ib_getline_loop up e rd pre 0 room b')"
        by (rule less.hyps) (use b' refill cap in simp_all)
      then show ?thesis using b' refill c by (auto simp: getline_ends_def io_slice_def)
    qed
  next
    case byte
    define x where "x = mem b ! p"
    define d where "d = drop (Suc p - m_pos b) (ib_bytes cont b)"
    have q: "m_pos b \<le> Suc p" "Suc p \<le> m_end b" using byte p by simp_all
    note sl1 = slice_law [OF b q]
    have nb: "\<not> b_null b" using byte b by (auto simp: ib_ok_def mem_ok_def)
    have pre1: "line @ io_slice (m_pos b) (Suc p) b = pre @ [x]" and c: "c = x # d"
      using scan_byte [OF b p(1) byte(2)] by (simp_all add: pre_def c_def x_def d_def)
    consider (cr) "x = 13" | (lf) "x = 10" | (other) "x \<noteq> 13" "x \<noteq> 10" by blast
    then show ?thesis
    proof cases
      case cr
      have eq: "ib_getline_loop up e rd line p room b = ib_getline_cr up e rd pre (b\<lparr>m_pos := Suc p\<rparr>)"
        unfolding step using byte cr by (simp add: x_def [symmetric] pre_def)
      show ?thesis unfolding eq c cr unfolding byte(1) by (rule getline_cr_ends) (use sl1 cap nb in \<open>simp_all add: d_def\<close>)
    next
      case lf
      then show ?thesis using byte sl1 c unfolding step by (simp add: x_def [symmetric] pre_def [symmetric] d_def getline_ends_def)
    next
      case other
      have "getline_ends ok cont k (line @ io_slice (m_pos b) (Suc p) b) (drop (Suc p - m_pos b) (ib_bytes cont b)) b (ib_getline_loop up e rd line (Suc p) k b)"
        by (rule less.hyps) (use byte b e cap q in simp_all)
      then show ?thesis using other byte c unfolding step pre1 by (auto simp: x_def [symmetric] d_def getline_ends_def Let_def split: prod.splits)
    qed
  qed
  then show ?case by (simp add: pre_def c_def)
qed


lemma getline_law:
  assumes "ib_ok ok b" "b_null b \<longrightarrow> v_ok e (b_capacity b)" "1 < b_capacity b"
  shows "getline_ends ok cont n [] (ib_bytes cont b) b (ib_getline up e rd n b)"
  using getline_loop_ends [OF assms, of "m_pos b" n "[]"] assms(1) by (simp add: ib_getline_def io_slice_def ib_ok_def mem_ok_def)

end

section \<open>Writing\<close>

text \<open>What a buffer relies on in the stream it writes to: a write appends the bytes it says it took, from the first on.\<close>

locale output_stream =
  fixes wr :: "'s wr_op" and ok :: "'s \<Rightarrow> bool" and out :: "'s \<Rightarrow> u8 list" and fails :: "error \<Rightarrow> bool" and full :: bool
  assumes wr_law: "ok s \<Longrightarrow> wr bs s = (r, s') \<Longrightarrow>
    ok s' \<and> (case r of Inl err \<Rightarrow> fails err | Inr n \<Rightarrow> n \<le> length bs \<and> out s' = out s @ take n bs \<and> (full \<longrightarrow> n = length bs))"

locale output_buffer = output_stream wr ok out fails full
  for wr :: "'s wr_op" and ok :: "'s \<Rightarrow> bool" and out :: "'s \<Rightarrow> u8 list" and fails :: "error \<Rightarrow> bool" and full :: bool +
  fixes up :: "('s, 'a) ob_pos" and e :: "u8 venv"
  assumes up_keeps: "mem (up n b) = mem b" "m_pos (up n b) = m_pos b" "m_end (up n b) = m_end b" "b_null (up n b) = b_null b"
    "b_capacity (up n b) = b_capacity b" "b_os (up n b) = b_os b"
begin

lemma os_write_law:
  assumes "ob_ok ok b" and "ob_os_write wr bs b = (r, b')"
  obtains sm sm' where "b_os b = Os sm" and "b' = b\<lparr>b_os := Os sm'\<rparr>" and "ok sm'"
    and "case r of Inl err \<Rightarrow> fails err | Inr n \<Rightarrow> n \<le> length bs \<and> out sm' = out sm @ take n bs \<and> (full \<longrightarrow> n = length bs)"
proof -
  obtain sm where sm: "b_os b = Os sm" "ok sm" using assms(1) by (auto simp: ob_ok_def split: os_ptr.splits)
  obtain r' sm' where w: "wr bs sm = (r', sm')" by fastforce
  from wr_law [OF sm(2) w] sm(1) w assms(2) that show thesis by (auto simp: ob_os_write_def)
qed

text \<open>\<open>flush_buffer\<close> hands everything on and makes the whole buffer available.\<close>

lemma flush_law:
  assumes b: "ob_ok ok b" and r: "ob_flush_buffer up wr b = (r, b')"
  shows "ob_appends ok out (ob_fails fails full e) [] b (r, b') \<and> b_capacity b' = b_capacity b \<and> b_null b' = b_null b
    \<and> (\<not> b_null b \<and> r = Inr () \<longrightarrow> m_pos b' = 0 \<and> m_end b' = b_capacity b)"
proof (cases "b_null b \<or> m_pos b = 0")
  case True
  obtain sm where sm: "b_os b = Os sm" using b by (auto simp: ob_ok_def split: os_ptr.splits)
  have "ob_flush_buffer up wr b = (Inr (), if b_null b then b else b\<lparr>m_pos := 0, m_end := b_capacity b\<rparr>)" using True sm by (auto simp: ob_flush_buffer_def)
  then have rb: "r = Inr ()" "b' = (if b_null b then b else b\<lparr>m_pos := 0, m_end := b_capacity b\<rparr>)" using r by simp_all
  show ?thesis unfolding rb using b True sm by (auto simp: ob_appends_def ob_ok_def mem_ok_def ob_bytes_def out_bytes_def)
next
  case False
  obtain r1 b1 where w: "ob_os_write wr (take (m_pos b) (mem b)) b = (r1, b1)" by fastforce
  obtain sm sm' where s: "b_os b = Os sm" "b1 = b\<lparr>b_os := Os sm'\<rparr>" "ok sm'"
    "case r1 of Inl err \<Rightarrow> fails err | Inr n \<Rightarrow> n \<le> length (take (m_pos b) (mem b)) \<and> out sm' = out sm @ take n (take (m_pos b) (mem b))
      \<and> (full \<longrightarrow> n = length (take (m_pos b) (mem b)))" by (rule os_write_law [OF b w])
  have l: "length (take (m_pos b) (mem b)) = m_pos b" "mem_ok b" "length (mem b) = b_capacity b" using b False by (auto simp: ob_ok_def mem_ok_def)
  have e: "ob_flush_buffer up wr b = (case r1 of Inl err \<Rightarrow> (Inl err, b1) | Inr n \<Rightarrow> if m_pos b \<noteq> n then (Inl Delay_write, up n b1)
      else (Inr (), (up n b1)\<lparr>m_pos := 0, m_end := b_capacity b\<rparr>))"
    using False w s(1,2) by (simp add: ob_flush_buffer_def up_keeps Let_def split: sum.splits)
  show ?thesis using r s l False unfolding e
    by (auto simp: ob_appends_def ob_ok_def mem_ok_def ob_bytes_def out_bytes_def ob_fails_def up_keeps split: sum.splits if_splits)
qed

lemma store_law:
  assumes b: "ob_ok ok b" and n: "m_pos b + length bs \<le> m_end b"
  obtains b' where "io_store (m_pos b) bs b = (Inr (), b')" and "ob_ok ok (b'\<lparr>m_pos := m_pos b + length bs\<rparr>)"
    and "ob_bytes out (b'\<lparr>m_pos := m_pos b + length bs\<rparr>) = ob_bytes out b @ bs" and "m_end b' = m_end b" and "m_pos b' = m_pos b"
    and "b_capacity b' = b_capacity b" and "b_null b' = b_null b"
proof (cases "bs = []")
  case True
  with b that [of b] show thesis by (simp add: io_store_def)
next
  case False
  then have l: "\<not> b_null b" "m_pos b + length bs \<le> length (mem b)" using b n by (auto simp: ob_ok_def mem_ok_def)
  show thesis
    by (rule that [of "b\<lparr>mem := put_at (m_pos b) bs (mem b)\<rparr>"])
      (use l b n False in \<open>auto simp: io_store_def ob_ok_def mem_ok_def ob_bytes_def out_bytes_def put_at_def split: os_ptr.splits\<close>)
qed

lemma write_past_law:
  assumes b: "ob_ok ok b" and bs: "bs \<noteq> []"
  obtains r b' where "ob_write_past up wr bs b = (r, b')"
    and "case r of Inl err \<Rightarrow> ob_appends ok out (ob_fails fails full e) [] b (r, b')
      | Inr n \<Rightarrow> n \<le> length bs \<and> (full \<longrightarrow> n = length bs) \<and> ob_appends ok out (ob_fails fails full e) (take n bs) b (r, b')"
proof -
  obtain r1 b1 where f: "ob_flush_buffer up wr b = (r1, b1)" by fastforce
  note fl = flush_law [OF b f]
  show thesis
  proof (cases r1)
    case (Inl err)
    with f fl that show thesis by (simp add: ob_write_past_def ob_appends_def)
  next
    case (Inr u)
    then have b1: "ob_ok ok b1" "ob_bytes out b1 = ob_bytes out b" using fl by (simp_all add: ob_appends_def)
    have z: "b_null b1 \<or> m_pos b1 = 0" "b_null b1 \<longrightarrow> mem b1 = []" using fl Inr b1(1) by (auto simp: ob_ok_def)
    obtain r2 b2 where w: "ob_os_write wr bs b1 = (r2, b2)" by fastforce
    obtain sm sm' where s: "b_os b1 = Os sm" "b2 = b1\<lparr>b_os := Os sm'\<rparr>" "ok sm'"
      "case r2 of Inl err \<Rightarrow> fails err | Inr n \<Rightarrow> n \<le> length bs \<and> out sm' = out sm @ take n bs \<and> (full \<longrightarrow> n = length bs)"
      by (rule os_write_law [OF b1(1) w])
    have e: "ob_write_past up wr bs b = (case r2 of Inl err \<Rightarrow> (Inl err, b2) | Inr n \<Rightarrow> if n = 0 then (Inl Out_of_space, b2) else (Inr n, up n b2))"
      using f Inr w by (simp add: ob_write_past_def split: sum.splits)
    have ok2: "ob_ok ok b2" "ob_ok ok (up n b2)" for n using b1(1) s(2,3) by (simp_all add: ob_ok_def mem_ok_def up_keeps)
    have c: "ob_bytes out b = out sm" "ob_bytes out (up n b2) = out sm'" for n using b1(2) s(1,2) z by (auto simp: ob_bytes_def out_bytes_def up_keeps)
    show thesis
    proof (cases r2)
      case (Inl err)
      then show thesis using e s(4) ok2 by (intro that [of "Inl err" b2]) (simp_all add: ob_appends_def ob_fails_def)
    next
      case (Inr n)
      then show thesis using e s(4) ok2 c bs
        by (intro that [of "if n = 0 then Inl Out_of_space else Inr n" "if n = 0 then b2 else up n b2"]) (auto simp: ob_appends_def ob_fails_def)
    qed
  qed
qed


lemma write_through_law:
  assumes b: "ob_ok ok b" "\<not> b_null b" and n: "m_end b < m_pos b + length bs" "length bs < b_capacity b"
  obtains r b' where "ob_write_through up wr bs b = (r, b')" and "ob_appends ok out (ob_fails fails full e) bs b (r, b')" and "case r of Inl _ \<Rightarrow> True | Inr n \<Rightarrow> n = length bs"
proof -
  define k where "k = m_end b - m_pos b"
  have k: "m_pos b + length (take k bs) = m_end b" using b n by (auto simp: ob_ok_def mem_ok_def k_def)
  from store_law [OF b(1) eq_refl [OF k]] obtain b1 where s: "io_store (m_pos b) (take k bs) b = (Inr (), b1)" "ob_ok ok (b1\<lparr>m_pos := m_end b\<rparr>)"
    "ob_bytes out (b1\<lparr>m_pos := m_end b\<rparr>) = ob_bytes out b @ take k bs" "m_end b1 = m_end b" "b_capacity b1 = b_capacity b" "b_null b1 = b_null b"
    unfolding k by metis
  obtain r2 b2 where f: "ob_flush_buffer up wr (b1\<lparr>m_pos := m_end b\<rparr>) = (r2, b2)" by fastforce
  note fl = flush_law [OF s(2) f]
  show thesis
  proof (cases r2)
    case (Inl err)
    then show thesis using s f fl b by (intro that [of "Inl err" b2]) (simp_all add: ob_write_through_def k_def [symmetric] ob_appends_def)
  next
    case (Inr u)
    then have b2: "ob_ok ok b2" "ob_bytes out b2 = ob_bytes out b @ take k bs" "m_pos b2 = 0" "m_end b2 = b_capacity b" using fl s b by (simp_all add: ob_appends_def)
    have "m_pos b2 + length (drop k bs) \<le> m_end b2" using b2 n by simp
    from store_law [OF b2(1) this] obtain b3 where "io_store (m_pos b2) (drop k bs) b2 = (Inr (), b3)" "ob_ok ok (b3\<lparr>m_pos := m_pos b2 + length (drop k bs)\<rparr>)"
      "ob_bytes out (b3\<lparr>m_pos := m_pos b2 + length (drop k bs)\<rparr>) = ob_bytes out b2 @ drop k bs" by metis
    then show thesis using s f Inr b2
      by (intro that [of "Inr (length bs)" "b3\<lparr>m_pos := length bs - k\<rparr>"]) (simp_all add: ob_write_through_def k_def [symmetric] ob_appends_def)
  qed
qed

lemma initbuf_law:
  assumes b: "ob_ok ok b" "b_null b"
  obtains "io_initbuf e c b = (Inl Abort, b)" "\<exists>k. \<not> v_ok e k" | b' where "io_initbuf e c b = (Inr (), b')" and "ob_ok ok b'" and "\<not> b_null b'"
    and "ob_bytes out b' = ob_bytes out b" and "b_capacity b' = c" and "m_pos b' = 0" and "m_end b' = 0" and "m_pos b = 0" and "m_end b = 0" and "b_os b' = b_os b"
proof (cases "v_ok e c")
  case False
  then show thesis using that(1) b by (auto simp: io_initbuf_def v_realloc_def)
next
  case True
  then show thesis using b that(2) [of "b\<lparr>mem := map (v_junk e) [0..<c], m_pos := 0, m_end := 0, b_null := False, b_capacity := c\<rparr>"]
    by (auto simp: io_initbuf_def v_realloc_def ob_ok_def mem_ok_def ob_bytes_def out_bytes_def)
qed

text \<open>\<open>write\<close> appends what it says it wrote, \<open>ensureWrite\<close> and \<open>writeByte\<close> append all or throw.\<close>

lemma write_law:
  assumes b: "ob_ok ok b"
  obtains r b' where "ob_write up e wr bs b = (r, b')"
    and "case r of Inl err \<Rightarrow> ob_ok ok b' \<and> ob_fails fails full e err
      | Inr n \<Rightarrow> n \<le> length bs \<and> (full \<longrightarrow> n = length bs) \<and> ob_appends ok out (ob_fails fails full e) (take n bs) b (r, b')"
proof (cases "m_pos b + length bs \<le> m_end b")
  case True
  from store_law [OF b True] obtain b1 where "io_store (m_pos b) bs b = (Inr (), b1)" "ob_ok ok (b1\<lparr>m_pos := m_pos b + length bs\<rparr>)"
    "ob_bytes out (b1\<lparr>m_pos := m_pos b + length bs\<rparr>) = ob_bytes out b @ bs" "m_pos b1 = m_pos b" by metis
  then show thesis using True by (intro that [of "Inr (length bs)" "b1\<lparr>m_pos := m_pos b + length bs\<rparr>"]) (simp_all add: ob_write_def ob_appends_def)
next
  case False
  obtain sm where sm: "b_os b = Os sm" using b by (auto simp: ob_ok_def split: os_ptr.splits)
  have ne: "bs \<noteq> []" using False b by (auto simp: ob_ok_def mem_ok_def)
  consider (past) "b_capacity b \<le> length bs" | (through) "length bs < b_capacity b" "\<not> b_null b" | (init) "length bs < b_capacity b" "b_null b" by linarith
  then show thesis
  proof cases
    case past
    from write_past_law [OF b ne] obtain r b' where "ob_write_past up wr bs b = (r, b')"
      "case r of Inl err \<Rightarrow> ob_appends ok out (ob_fails fails full e) [] b (r, b')
      | Inr n \<Rightarrow> n \<le> length bs \<and> (full \<longrightarrow> n = length bs) \<and> ob_appends ok out (ob_fails fails full e) (take n bs) b (r, b')" by blast
    then show thesis using False past sm by (intro that [of r b']) (auto simp: ob_write_def ob_do_flush_and_write_def ob_appends_def split: sum.splits)
  next
    case through
    from write_through_law [OF b through(2) _ through(1)] False obtain r b' where "ob_write_through up wr bs b = (r, b')"
      "ob_appends ok out (ob_fails fails full e) bs b (r, b')" "case r of Inl _ \<Rightarrow> True | Inr n \<Rightarrow> n = length bs" by (metis not_le)
    then show thesis using False through sm by (intro that [of r b']) (auto simp: ob_write_def ob_do_flush_and_write_def ob_appends_def split: sum.splits)
  next
    case init
    from init(2) b show thesis
    proof (cases rule: initbuf_law [OF b init(2), of "b_capacity b"])
      case 1
      then show thesis using False init sm b by (intro that [of "Inl Abort" b]) (auto simp: ob_write_def ob_do_flush_and_write_def ob_fails_def)
    next
      case (2 b1)
      have "m_end b1 < m_pos b1 + length bs" using 2 ne by simp
      from write_through_law [OF 2(2,3) this] init 2 obtain r b' where "ob_write_through up wr bs b1 = (r, b')"
        "ob_appends ok out (ob_fails fails full e) bs b1 (r, b')" "case r of Inl _ \<Rightarrow> True | Inr n \<Rightarrow> n = length bs" by metis
      then show thesis using False init sm 2 by (intro that [of r b']) (auto simp: ob_write_def ob_do_flush_and_write_def ob_appends_def split: sum.splits)
    qed
  qed
qed

lemma ensureWrite_law:
  assumes b: "ob_ok ok b"
  shows "ob_appends ok out (ob_fails fails full e) bs b (ob_ensureWrite up e wr bs b)"
proof -
  from write_law [OF b, of bs] obtain r b' where w: "ob_write up e wr bs b = (r, b')" "case r of Inl err \<Rightarrow> ob_ok ok b' \<and> ob_fails fails full e err
      | Inr n \<Rightarrow> n \<le> length bs \<and> (full \<longrightarrow> n = length bs) \<and> ob_appends ok out (ob_fails fails full e) (take n bs) b (r, b')" by blast
  have "ob_ensureWrite up e wr bs b = (case r of Inl err \<Rightarrow> Inl err | Inr n \<Rightarrow> if n \<noteq> length bs then Inl Out_of_space else Inr (), b')"
    using w(1) by (auto simp: ob_ensureWrite_def ob_write_def ob_flush_and_ensureWrite_def split: prod.splits sum.splits if_splits)
  then show ?thesis using w(2) by (auto simp: ob_appends_def ob_fails_def split: sum.splits)
qed

lemma writeByte_law:
  assumes "ob_ok ok b"
  shows "ob_appends ok out (ob_fails fails full e) [x] b (ob_writeByte up e wr x b)"
proof -
  have "ob_writeByte up e wr x b = ob_ensureWrite up e wr [x] b" by (simp add: ob_writeByte_def ob_ensureWrite_def Suc_le_eq split: prod.splits sum.splits)
  with ensureWrite_law [OF assms] show ?thesis by simp
qed

end

lemma length_vsnprintf: "length (snd (vsnprintf tx sz)) \<le> sz" "fst (vsnprintf tx sz) = int (length tx)"
  by (auto simp: vsnprintf_def)

context output_buffer
begin

lemma set_bufsize_law:
  assumes b: "ob_ok ok b" "\<not> b_null b"
  obtains "io_set_bufsize e sz b = (Inl Abort, b)" "\<exists>k. \<not> v_ok e k"
    | b' where "io_set_bufsize e sz b = (Inr (), b')" and "ob_ok ok b'" and "\<not> b_null b'" and "ob_bytes out b' = ob_bytes out b" and "sz \<le> b_capacity b'"
proof -
  have ge: "sz \<le> align_up sz 4096" by (rule align_up_ge) simp
  consider (keep) "align_up sz 4096 \<le> b_capacity b" | (no) "b_capacity b < align_up sz 4096" "\<not> v_ok e (align_up sz 4096)"
    | (new) "b_capacity b < align_up sz 4096" "v_ok e (align_up sz 4096)" by linarith
  then show thesis
  proof cases
    case new
    then show thesis using b ge
      by (intro that(2) [of "b\<lparr>mem := take (align_up sz 4096) (take (m_end b) (mem b)) @ map (v_junk e) [length (take (m_end b) (mem b))..<align_up sz 4096], b_capacity := align_up sz 4096\<rparr>"])
        (auto simp: io_set_bufsize_def v_realloc_def ob_ok_def mem_ok_def ob_bytes_def out_bytes_def min_def Let_def split: os_ptr.splits)
  qed (use b ge that in \<open>auto simp: io_set_bufsize_def v_realloc_def\<close>)
qed

lemma full_flush_law:
  assumes fl: "\<forall>s. ok s \<longrightarrow> (\<exists>s'. fl s = (Inr (), s') \<and> ok s' \<and> out s' = out s)" and b: "ob_ok ok b" "\<not> b_null b" and r: "ob_flush up wr fl b = (r, b')"
  shows "ob_appends ok out (ob_fails fails full e) [] b (r, b') \<and> b_capacity b' = b_capacity b \<and> \<not> b_null b' \<and> (r = Inr () \<longrightarrow> m_pos b' = 0 \<and> m_end b' = b_capacity b)"
proof -
  obtain r1 b1 where f: "ob_flush_buffer up wr b = (r1, b1)" by fastforce
  note l = flush_law [OF b(1) f]
  show ?thesis
  proof (cases r1)
    case (Inl err)
    then show ?thesis using r f l b by (simp add: ob_flush_def)
  next
    case (Inr u)
    then have b1: "ob_ok ok b1" "m_pos b1 = 0" using l b by (simp_all add: ob_appends_def)
    then obtain sm where sm: "b_os b1 = Os sm" "ok sm" by (auto simp: ob_ok_def split: os_ptr.splits)
    with fl obtain sm' where s: "fl sm = (Inr (), sm')" "ok sm'" "out sm' = out sm" by blast
    have "r = Inr ()" "b' = b1\<lparr>b_os := Os sm'\<rparr>" using r f Inr sm s by (simp_all add: ob_flush_def)
    then show ?thesis using l b b1 sm s Inr by (auto simp: ob_appends_def ob_ok_def mem_ok_def ob_bytes_def out_bytes_def)
  qed
qed

text \<open>\<open>vprintf\<close>: it prints into the free part of the buffer, after one flush when that is too small and after two and a larger buffer when the buffer is.\<close>

lemma print_store:
  assumes b: "ob_ok ok b" and n: "length st' \<le> m_end b - m_pos b" "k \<le> length st'"
  shows "ob_ok ok (b\<lparr>mem := put_at (m_pos b) st' (mem b), m_pos := m_pos b + k\<rparr>)"
    and "ob_bytes out (b\<lparr>mem := put_at (m_pos b) st' (mem b), m_pos := m_pos b + k\<rparr>) = ob_bytes out b @ take k st'"
proof -
  have l: "m_pos b + length st' \<le> length (mem b)" "m_pos b + length st' \<le> m_end b" using b n(1) by (auto simp: ob_ok_def mem_ok_def)
  show "ob_ok ok (b\<lparr>mem := put_at (m_pos b) st' (mem b), m_pos := m_pos b + k\<rparr>)" using b l n by (auto simp: ob_ok_def mem_ok_def put_at_def)
  show "ob_bytes out (b\<lparr>mem := put_at (m_pos b) st' (mem b), m_pos := m_pos b + k\<rparr>) = ob_bytes out b @ take k st'"
    using l n by (simp add: ob_bytes_def out_bytes_def put_at_def min_def split: os_ptr.splits)
qed

lemma vprintf_fits:
  assumes b: "ob_ok ok b" and n: "length tx < m_end b - m_pos b"
  shows "ob_prints ok out (ob_fails fails full e) tx b (ob_vprintf_loop up e wr fl (vsnprintf tx) b)"
proof -
  define t where "t = snd (vsnprintf tx (m_end b - m_pos b))"
  have t: "t = tx @ [0]" using n by (simp add: t_def vsnprintf_def)
  have "ob_vprintf_loop up e wr fl (vsnprintf tx) b = Some (Inr (length tx), b\<lparr>mem := put_at (m_pos b) t (mem b), m_pos := m_pos b + length tx\<rparr>)"
    using n by (subst ob_vprintf_loop.simps) (simp add: length_vsnprintf(2) t_def)
  moreover have "length t \<le> m_end b - m_pos b" "length tx \<le> length t" using n t by simp_all
  ultimately show ?thesis using print_store [OF b, of t "length tx"] t by (simp add: ob_prints_def ob_appends_def)
qed

lemma vprintf_step:
  assumes fl: "\<forall>s. ok s \<longrightarrow> (\<exists>s'. fl s = (Inr (), s') \<and> ok s' \<and> out s' = out s)" and b: "ob_ok ok b" "\<not> b_null b" "0 < b_capacity b" and n: "m_end b - m_pos b \<le> length tx"
  obtains "ob_prints ok out (ob_fails fails full e) tx b (ob_vprintf_loop up e wr fl (vsnprintf tx) b)"
    | b' where "ob_vprintf_loop up e wr fl (vsnprintf tx) b = ob_vprintf_loop up e wr fl (vsnprintf tx) b'" and "ob_ok ok b'" and "\<not> b_null b'"
      and "ob_bytes out b' = ob_bytes out b" and "length tx < b_capacity b'" and "length tx < b_capacity b \<longrightarrow> m_pos b' = 0 \<and> m_end b' = b_capacity b"
proof -
  define sz where "sz = m_end b - m_pos b"
  define b1 where "b1 = b\<lparr>mem := put_at (m_pos b) (snd (vsnprintf tx sz)) (mem b)\<rparr>"
  have b1: "ob_ok ok b1" "ob_bytes out b1 = ob_bytes out b" "\<not> b_null b1" "b_capacity b1 = b_capacity b"
    using print_store [OF b(1) length_vsnprintf(1) [of tx sz, unfolded sz_def], of 0] b(2) by (simp_all add: b1_def sz_def ob_ok_def mem_ok_def ob_bytes_def out_bytes_def)
  obtain r b2 where f: "ob_flush up wr fl b1 = (r, b2)" by fastforce
  note l = full_flush_law [OF fl b1(1,3) f]
  have step: "ob_vprintf_loop up e wr fl (vsnprintf tx) b = (case r of Inl err \<Rightarrow> Some (Inl err, b2) | Inr _ \<Rightarrow>
      (case (if b_capacity b2 < length tx + 1 then io_set_bufsize e (align_up (length tx + 1) (b_capacity b2)) b2 else (Inr (), b2)) of
         (Inl err, b) \<Rightarrow> Some (Inl err, b) | (Inr _, b) \<Rightarrow> ob_vprintf_loop up e wr fl (vsnprintf tx) b))"
    using n f by (subst ob_vprintf_loop.simps) (simp add: length_vsnprintf(2) sz_def [symmetric] b1_def [symmetric] Let_def split: sum.splits)
  show thesis
  proof (cases r)
    case (Inl err)
    then show thesis using step l by (intro that(1)) (simp add: ob_prints_def ob_appends_def)
  next
    case (Inr u)
    then have b2: "ob_ok ok b2" "ob_bytes out b2 = ob_bytes out b" "\<not> b_null b2" "b_capacity b2 = b_capacity b" "m_pos b2 = 0" "m_end b2 = b_capacity b"
      using l b1 by (simp_all add: ob_appends_def)
    show thesis
    proof (cases "b_capacity b2 < length tx + 1")
      case False
      then show thesis using step Inr b2 by (intro that(2) [of b2]) simp_all
    next
      case True
      have ge: "length tx + 1 \<le> align_up (length tx + 1) (b_capacity b2)" by (rule align_up_ge) (use b(3) b2 in simp)
      show thesis
      proof (cases rule: set_bufsize_law [OF b2(1,3), of "align_up (length tx + 1) (b_capacity b2)"])
        case 1
        then show thesis using step Inr True b2 by (intro that(1)) (auto simp: ob_prints_def ob_appends_def ob_fails_def)
      next
        case (2 b')
        then show thesis using step Inr True b2 ge by (intro that(2) [of b']) simp_all
      qed
    qed
  qed
qed

lemma prints_cong:
  fixes b b' :: "('s, 'a) OutputBuffer_scheme" and r :: "(nat, 's, 'a) ob_out option"
  assumes "ob_bytes out b = ob_bytes out b'"
  shows "ob_prints ok out F tx b r = ob_prints ok out F tx b' r"
proof -
  have "ob_appends ok out F tx b y = ob_appends ok out F tx b' y" for y :: "(nat, 's, 'a) ob_out" using assms by (simp add: ob_appends_def split: sum.splits)
  then show ?thesis by (simp add: ob_prints_def split: option.splits)
qed

lemma vprintf_in_buffer:
  assumes fl: "\<forall>s. ok s \<longrightarrow> (\<exists>s'. fl s = (Inr (), s') \<and> ok s' \<and> out s' = out s)" and b: "ob_ok ok b" "\<not> b_null b" and n: "length tx < b_capacity b"
  shows "ob_prints ok out (ob_fails fails full e) tx b (ob_vprintf_loop up e wr fl (vsnprintf tx) b)"
proof (cases "length tx < m_end b - m_pos b")
  case True
  then show ?thesis by (rule vprintf_fits [OF b(1)])
next
  case False
  show ?thesis
  proof (rule vprintf_step [OF fl b, of tx])
    fix b' assume b': "ob_vprintf_loop up e wr fl (vsnprintf tx) b = ob_vprintf_loop up e wr fl (vsnprintf tx) b'" "ob_ok ok b'"
      "ob_bytes out b' = ob_bytes out b" "length tx < b_capacity b \<longrightarrow> m_pos b' = 0 \<and> m_end b' = b_capacity b"
    then show ?thesis using vprintf_fits [OF b'(2), of tx fl] n prints_cong [OF b'(3)] by simp
  qed (use False n in auto)
qed

lemma vprintf_law:
  assumes fl: "\<forall>s. ok s \<longrightarrow> (\<exists>s'. fl s = (Inr (), s') \<and> ok s' \<and> out s' = out s)" and b: "ob_ok ok b" "0 < b_capacity b"
  shows "ob_prints ok out (ob_fails fails full e) tx b (ob_vprintf up e wr fl (vsnprintf tx) b)"
proof -
  have main: "ob_prints ok out (ob_fails fails full e) tx b (ob_vprintf_loop up e wr fl (vsnprintf tx) b)"
    if b: "ob_ok ok b" "\<not> b_null b" "0 < b_capacity b" for b
  proof (cases "length tx < m_end b - m_pos b")
    case True
    then show ?thesis by (rule vprintf_fits [OF b(1)])
  next
    case False
    show ?thesis
    proof (rule vprintf_step [OF fl b, of tx])
      fix b' assume b': "ob_vprintf_loop up e wr fl (vsnprintf tx) b = ob_vprintf_loop up e wr fl (vsnprintf tx) b'" "ob_ok ok b'" "\<not> b_null b'"
        "ob_bytes out b' = ob_bytes out b" "length tx < b_capacity b'"
      then show ?thesis using vprintf_in_buffer [OF fl b'(2,3,5)] prints_cong [OF b'(4)] by simp
    qed (use False in auto)
  qed
  show ?thesis
  proof (cases "b_null b")
    case False
    then show ?thesis using main [OF b(1) False b(2)] b by (simp add: ob_vprintf_def)
  next
    case True
    show ?thesis
    proof (cases rule: initbuf_law [OF b(1) True, of "b_capacity b"])
      case 1
      then show ?thesis using b True by (auto simp: ob_vprintf_def ob_prints_def ob_appends_def ob_fails_def)
    next
      case (2 b')
      then show ?thesis using main [OF 2(2,3)] b True prints_cong [OF 2(4)] by (simp add: ob_vprintf_def)
    qed
  qed
qed

end

section \<open>The streams in memory\<close>

lemma mem_rd_eq:
  assumes "mem_ok s" and "n < 2 ^ 63"
  shows "mem_rd n s = (Inr (take (min n (m_end s - m_pos s)) (drop (m_pos s) (mem s))), s\<lparr>m_pos := m_pos s + min n (m_end s - m_pos s)\<rparr>)"
  using assms(1)
  by (auto simp: mem_rd_def mem_read_def ptrdiff_id [OF assms(2)] mem_buf_remain_bytes_def min_read_def min_ensureRead_def map_val_def mem_ok_def min_def nat_diff_distrib Let_def)

interpretation mis: input_stream mem_rd mem_ok mem_bytes
proof
  fix s :: "'a MemIO_scheme" and n assume s: "mem_ok s" and n: "(n :: nat) < 2 ^ 63"
  let ?k = "min n (m_end s - m_pos s)"
  have k: "?k + (m_end s - m_pos s - ?k) = m_end s - m_pos s" by simp
  have "mem_bytes s = take ?k (drop (m_pos s) (mem s)) @ mem_bytes (s\<lparr>m_pos := m_pos s + ?k\<rparr>)"
    using take_add [of ?k "m_end s - m_pos s - ?k" "drop (m_pos s) (mem s)"] unfolding k by (simp add: mem_bytes_def add.commute)
  with mem_rd_eq [OF s n]
  show "\<exists>bs s'. mem_rd n s = (Inr bs, s') \<and> mem_ok s' \<and> mem_bytes s = bs @ mem_bytes s' \<and> length bs \<le> n \<and> (bs = [] \<longrightarrow> n = 0 \<or> mem_bytes s = [])"
    using s by (intro exI [of _ "take ?k (drop (m_pos s) (mem s))"] exI [of _ "s\<lparr>m_pos := m_pos s + ?k\<rparr>"]) (auto simp: mem_ok_def mem_bytes_def)
qed

interpretation mib: input_buffer mem_rd mem_ok mem_bytes io_update_pos
  by unfold_locales (simp_all add: io_update_pos_def)

interpretation sib: input_buffer mem_rd mem_ok mem_bytes si_update_pos
  by unfold_locales (simp_all add: si_update_pos_def)

interpretation aos: output_buffer "ag_wr e" ag_ok out_bytes "ag_fails e" True io_update_pos e for e
proof unfold_locales
  fix s s' :: AutoGrownMemIO and bs r assume s: "ag_ok s" and w: "ag_wr e bs s = (r, s')"
  from ag_writes(1) [OF s, of e bs] w s
  show "ag_ok s' \<and> (case r of Inl err \<Rightarrow> ag_fails e err | Inr n \<Rightarrow> n \<le> length bs \<and> out_bytes s' = out_bytes s @ take n bs \<and> (True \<longrightarrow> n = length bs))"
    by (auto simp: ag_wr_def ag_write_def appends_def split: sum.splits)
qed (simp_all add: io_update_pos_def)

lemma map_uncaught: "map_val f (uncaught (r, b)) = (case r of Inl err \<Rightarrow> Inl err | Inr x \<Rightarrow> Inr (f x, b))"
  by (auto simp: uncaught_def map_val_def split: sum.splits)

interpretation mim: op_machine "mi_ok e" "mi_exec e" "mi_run e" mi_pre "mi_pre_run e" mi_abs ib_spec "\<lambda>err. err = End_of_file" for e
proof
  fix s s' :: "ib_val list \<times> mem_in" and a err assume o: "mi_ok e s" and p: "mi_pre a s"
  obtain vs b where s: "s = (vs, b)" by fastforce
  have b: "ib_ok mem_ok b" "b_null b \<longrightarrow> v_ok e (b_capacity b)" "1 < b_capacity b" "v_ok e (b_capacity b)" using o s by (simp_all add: mi_ok_def)
  have "case mi_exec e a s of Inl err \<Rightarrow> err = End_of_file | Inr s' \<Rightarrow> mi_ok e s' \<and> mi_abs s' = ib_spec a (mi_abs s)"
  proof (cases a)
    case (IB_read n)
    then have "n < 2 ^ 63" using p by simp
    from mib.read_law [OF b(1) this b(2)] IB_read b show ?thesis
      by (cases "ib_read io_update_pos e mem_rd n b") (auto simp: s map_uncaught ib_reads_def mi_ok_def mi_abs_def Let_def split: sum.splits if_splits)
  next
    case (IB_ensureRead n)
    then have "n < 2 ^ 63" using p by simp
    from mib.ensureRead_law [OF b(1) this b(2)] IB_ensureRead b show ?thesis
      by (auto simp: s map_uncaught mi_ok_def mi_abs_def split: sum.splits if_splits)
  next
    case IB_readByte
    from mib.byte_law [OF b(1,2)] this b show ?thesis by (auto simp: s map_uncaught mi_ok_def mi_abs_def split: sum.splits if_splits)
  next
    case IB_getByte
    from mib.byte_law [OF b(1,2)] this b show ?thesis by (auto simp: s map_uncaught mi_ok_def mi_abs_def split: sum.splits if_splits)
  next
    case IB_eof
    from mib.eof_law [OF b(1-3)] this b show ?thesis by (auto simp: s map_uncaught mi_ok_def mi_abs_def)
  next
    case (IB_getline n)
    from mib.getline_law [OF b(1-3), of n] this b show ?thesis
      by (cases "ib_getline io_update_pos e mem_rd n b") (auto simp: s map_uncaught mi_ok_def mi_abs_def getline_ends_def Let_def split: sum.splits if_splits)
  qed
  then show "mi_exec e a s = Inr s' \<Longrightarrow> mi_ok e s' \<and> mi_abs s' = ib_spec a (mi_abs s)" "mi_exec e a s = Inl err \<Longrightarrow> err = End_of_file" by simp_all
qed (auto split: sum.splits)

lemma ob_fails_ag: "ob_fails (ag_fails e) True e = ag_fails e"
  by (auto simp: ob_fails_def ag_fails_def fun_eq_iff)

lemma appends_uncaught:
  "ob_appends ok out fails bs b r \<Longrightarrow> appends (ob_ok ok) (ob_bytes out) fails bs b (drop_val (uncaught r))"
  by (cases r) (auto simp: ob_appends_def appends_def uncaught_def drop_val_def split: sum.splits)

lemma mo_ew_appends: "ob_ok ag_ok b \<Longrightarrow> appends (ob_ok ag_ok) (ob_bytes out_bytes) (ag_fails e) bs b (mo_ew e bs b)"
  using appends_uncaught [OF aos.ensureWrite_law, of b e bs] by (simp add: mo_ew_def ob_fails_ag)

interpretation obw: var_writer "ob_ok ag_ok" "mo_ew e" mem_buf_remain_bytes "ob_bytes out_bytes" "ag_fails e" for e
proof
  fix b :: mem_out and bs assume b: "ob_ok ag_ok b"
  show "appends (ob_ok ag_ok) (ob_bytes out_bytes) (ag_fails e) bs b (mo_ew e bs b)" by (rule mo_ew_appends [OF b])
  assume "int (length bs) \<le> mem_buf_remain_bytes b"
  then have "m_pos b + length bs \<le> length (mem b)" "m_pos b + length bs \<le> m_end b" using b by (simp_all add: mem_buf_remain_bytes_def ob_ok_def mem_ok_def)
  then show "m_pos b + length bs \<le> length (mem b) \<and>
      appends (ob_ok ag_ok) (ob_bytes out_bytes) (ag_fails e) bs b (Inr (b\<lparr>mem := put_at (m_pos b) bs (mem b), m_pos := m_pos b + length bs\<rparr>))"
    using aos.print_store [OF b, of bs "length bs"] by (simp add: appends_Inr)
qed

lemma mo_write_item_ok: "ob_ok ag_ok b \<Longrightarrow> item_ok x \<Longrightarrow> appends (ob_ok ag_ok) (ob_bytes out_bytes) (ag_fails e) (item_bytes x) b (mo_write_item e x b)"
  by (cases x) (simp_all add: obw.write_var_uint_appends obw.write_int_appends obw.write_string_appends)

lemma mem_fl_law: "\<forall>s. ag_ok s \<longrightarrow> (\<exists>s'. mem_fl s = (Inr (), s') \<and> ag_ok s' \<and> out_bytes s' = out_bytes s)"
  by (simp add: mem_fl_def)

lemma flush_appends:
  assumes b: "ob_ok ag_ok b"
  shows "appends (ob_ok ag_ok) (ob_bytes out_bytes) (ag_fails e) [] b (drop_val (uncaught (ob_flush_buffer io_update_pos (ag_wr e) b)))"
    and "appends (ob_ok ag_ok) (ob_bytes out_bytes) (ag_fails e) [] b (drop_val (uncaught (ob_flush io_update_pos (ag_wr e) mem_fl b)))"
    and "drop_val (uncaught (ob_flush io_update_pos (ag_wr e) mem_fl b)) = Inr b' \<Longrightarrow> out_bytes b' = []"
proof -
  obtain r b1 where f: "ob_flush_buffer io_update_pos (ag_wr e) b = (r, b1)" by fastforce
  note l = aos.flush_law [OF b f]
  show "appends (ob_ok ag_ok) (ob_bytes out_bytes) (ag_fails e) [] b (drop_val (uncaught (ob_flush_buffer io_update_pos (ag_wr e) b)))"
    using appends_uncaught [of ag_ok out_bytes "ag_fails e" "[]" b "(r, b1)"] l f by (simp add: ob_fails_ag)
  have a: "ob_appends ag_ok out_bytes (ag_fails e) [] b (ob_flush io_update_pos (ag_wr e) mem_fl b)
      \<and> (\<forall>u b'. ob_flush io_update_pos (ag_wr e) mem_fl b = (Inr u, b') \<longrightarrow> out_bytes b' = [])"
  proof (cases r)
    case (Inl err)
    then show ?thesis using l f by (simp add: ob_flush_def ob_fails_ag)
  next
    case (Inr u)
    then have b1: "ob_ok ag_ok b1" using l by (simp add: ob_appends_def)
    then obtain sm where sm: "b_os b1 = Os sm" by (auto simp: ob_ok_def split: os_ptr.splits)
    have "ob_flush io_update_pos (ag_wr e) mem_fl b = (Inr (), b1)" using Inr f sm by (simp add: ob_flush_def mem_fl_def)
    moreover have "out_bytes b1 = []" using l Inr b1 by (auto simp: out_bytes_def ob_ok_def)
    ultimately show ?thesis using l Inr by (simp add: ob_appends_def)
  qed
  then show "appends (ob_ok ag_ok) (ob_bytes out_bytes) (ag_fails e) [] b (drop_val (uncaught (ob_flush io_update_pos (ag_wr e) mem_fl b)))"
    using appends_uncaught by blast
  show "drop_val (uncaught (ob_flush io_update_pos (ag_wr e) mem_fl b)) = Inr b' \<Longrightarrow> out_bytes b' = []"
    using a by (cases "ob_flush io_update_pos (ag_wr e) mem_fl b") (auto simp: uncaught_def drop_val_def split: sum.splits)
qed

lemma mo_step_ok:
  assumes b: "ob_ok ag_ok b" and p: "ob_pre a b"
  shows "case mo_step e a b of Inl err \<Rightarrow> ag_fails e err | Inr b' \<Rightarrow> ob_ok ag_ok b' \<and> ob_bytes out_bytes b' = ob_spec a (ob_bytes out_bytes b)"
proof (cases a)
  case (OB_write bs)
  obtain r b' where w: "ob_write io_update_pos e (ag_wr e) bs b = (r, b')" "case r of Inl err \<Rightarrow> ob_ok ag_ok b' \<and> ob_fails (ag_fails e) True e err
      | Inr n \<Rightarrow> n \<le> length bs \<and> (True \<longrightarrow> n = length bs) \<and> ob_appends ag_ok out_bytes (ob_fails (ag_fails e) True e) (take n bs) b (r, b')"
    by (rule aos.write_law [OF b])
  then show ?thesis using OB_write by (cases r) (simp_all add: ob_appends_def ob_fails_ag uncaught_def drop_val_def)
next
  case (OB_ensureWrite bs)
  with mo_ew_appends [OF b, of e bs] show ?thesis by (simp add: appends_def split: sum.splits)
next
  case (OB_writeByte x)
  with appends_uncaught [OF aos.writeByte_law [OF b, of e x]] show ?thesis by (simp add: appends_def ob_fails_ag split: sum.splits)
next
  case OB_flush_buffer
  with flush_appends(1) [OF b, of e] show ?thesis by (simp add: appends_def split: sum.splits)
next
  case OB_flush
  with flush_appends(2) [OF b, of e] show ?thesis by (simp add: appends_def split: sum.splits)
next
  case (OB_printf tx)
  with p have "0 < b_capacity b" by simp
  from aos.vprintf_law [OF mem_fl_law b this, of e tx] OB_printf show ?thesis
    by (auto simp: ob_prints_def ob_appends_def ob_fails_ag uncaught_def drop_val_def run_opt_def split: option.splits sum.splits)
next
  case (OB_item x)
  with mo_write_item_ok [OF b, of x e] p show ?thesis by (simp add: appends_def split: sum.splits)
next
  case (OB_uint30 x)
  with obw.write_prefix_appends(1) [OF b, of x e] p show ?thesis by (simp add: appends_def split: sum.splits)
next
  case (OB_uint61 x)
  with obw.write_prefix_appends(2) [OF b, of x e] p show ?thesis by (simp add: appends_def split: sum.splits)
qed

interpretation obm: op_machine "ob_ok ag_ok" "mo_step e" "ob_run e" ob_pre "ob_pre_run e" "ob_bytes out_bytes" ob_spec "ag_fails e" for e
proof
  fix b b' :: mem_out and a err assume "ob_ok ag_ok b" "ob_pre a b"
  from mo_step_ok [OF this, of e]
  show "mo_step e a b = Inr b' \<Longrightarrow> ob_ok ag_ok b' \<and> ob_bytes out_bytes b' = ob_spec a (ob_bytes out_bytes b)" "mo_step e a b = Inl err \<Longrightarrow> ag_fails e err"
    by simp_all
qed (auto split: sum.splits)

interpretation ibr: var_reader "\<lambda>b. mi_ok e ([], b)" "mi_rb e" "ib_bytes mem_bytes" mem_buf_remain_bytes for e
proof
  fix b :: mem_in and x d n assume o: "mi_ok e ([], b)"
  then have b: "ib_ok mem_ok b" "b_null b \<longrightarrow> v_ok e (b_capacity b)" by (simp_all add: mi_ok_def)
  note by' = mib.byte_law [OF b]
  show "\<exists>s'. mi_rb e b = Inr (x, s') \<and> mi_ok e ([], s') \<and> ib_bytes mem_bytes s' = d" if "ib_bytes mem_bytes b = x # d"
    using by' that o by (auto simp: mi_rb_def uncaught_def mi_ok_def)
  show "mi_rb e b = Inl End_of_file" if "ib_bytes mem_bytes b = []" using by' that by (auto simp: mi_rb_def uncaught_def)
  have m: "mem_buf_remain_bytes b = int (length (mem_bytes b))" using mem_remain_bytes [of b] b by (simp add: ib_ok_def)
  then show "mem_buf_remain_bytes b \<le> int (length (ib_bytes mem_bytes b))" by (simp add: ib_bytes_def)
  show "\<exists>rest. drop (m_pos b) (mem b) = take (nat (mem_buf_remain_bytes b)) (ib_bytes mem_bytes b) @ rest"
    unfolding m by (simp add: ib_bytes_def) (metis append_take_drop_id mem_bytes_def)
  assume "int n \<le> mem_buf_remain_bytes b"
  then have "m_pos b + n \<le> m_end b" by (simp add: mem_buf_remain_bytes_def)
  moreover have "n \<le> length (ib_bytes mem_bytes b)" using \<open>int n \<le> mem_buf_remain_bytes b\<close> m by (simp add: ib_bytes_def)
  ultimately show "mi_ok e ([], b\<lparr>m_pos := m_pos b + n\<rparr>) \<and> ib_bytes mem_bytes (b\<lparr>m_pos := m_pos b + n\<rparr>) = drop n (ib_bytes mem_bytes b)"
    using mib.advance_reads [OF b(1), of n] o by (simp add: ib_reads_def mi_ok_def Let_def)
qed

lemma mi_er_law:
  assumes "mi_ok e ([], b)" and "ib_bytes mem_bytes b = bs @ rest" and "length bs < 2 ^ 63"
  shows "\<exists>b'. mi_er e (length bs) b = Inr (bs, b') \<and> mi_ok e ([], b') \<and> ib_bytes mem_bytes b' = rest"
  using mib.ensureRead_law [of b "length bs" e] assms by (auto simp: mi_ok_def mi_er_def uncaught_def)

lemma mi_read_like_item:
  assumes w: "mi_ok e ([], b)" and c: "ib_bytes mem_bytes b = item_bytes x @ rest" and x: "item_ok x"
  shows "\<exists>b'. mi_read_like e x b = Inr (x, b') \<and> mi_ok e ([], b') \<and> ib_bytes mem_bytes b' = rest"
proof (cases x)
  case (V_string str)
  have u: "unat (word_of_nat (length str) :: u32) = length str" "length str < 2 ^ 63" using x V_string by (simp_all add: unat_of_nat)
  have "ib_bytes mem_bytes b = varint (unat (word_of_nat (length str) :: u32)) @ str @ rest" using c V_string u by simp
  from ibr.read_var_uint(1) [OF w this] obtain s1 where
    s1: "read_var_uint32 mem_buf_remain_bytes (mi_rb e) b = Inr (word_of_nat (length str), s1)" "mi_ok e ([], s1)" "ib_bytes mem_bytes s1 = str @ rest" by blast
  from mi_er_law [OF s1(2,3) u(2)] s1 show ?thesis
    by (cases "str = []") (auto simp: V_string read_string_def u map_val_def Let_def)
qed (use c ibr.read_var_uint [OF w] ibr.read_var_int [OF w] in \<open>force simp: map_val_def\<close>)+

lemma mi_read_likes_items:
  "mi_ok e ([], b) \<Longrightarrow> ib_bytes mem_bytes b = concat (map item_bytes xs) @ rest \<Longrightarrow> list_all item_ok xs \<Longrightarrow>
    \<exists>b'. mi_read_likes e xs b = Inr (xs, b') \<and> mi_ok e ([], b') \<and> ib_bytes mem_bytes b' = rest"
proof (induction xs arbitrary: b)
  case (Cons x xs)
  from Cons.prems(2,3) mi_read_like_item [OF Cons.prems(1), of x "concat (map item_bytes xs) @ rest"]
  obtain b1 where b1: "mi_read_like e x b = Inr (x, b1)" "mi_ok e ([], b1)" "ib_bytes mem_bytes b1 = concat (map item_bytes xs) @ rest" by auto
  from Cons.IH [OF b1(2,3)] Cons.prems(3) b1(1) show ?case by (auto simp: map_val_def)
qed simp

section \<open>Copying between streams\<close>

text \<open>\<open>from_input\<close> on a buffer whose memory is not there yet never ends.\<close>

lemma from_input_Some:
  assumes "ob_from_input up wr er left inp b = Some y"
  shows "\<not> (0 < left \<and> b_null b \<and> m_pos b = m_end b \<and> er 0 inp = (Inr [], inp))"
  by (rule ob_from_input.raw_induct [where P = "\<lambda>up wr er left inp b y. \<not> (0 < left \<and> b_null b \<and> m_pos b = m_end b \<and> er 0 inp = (Inr [], inp))", OF _ assms])
    (auto simp: ob_flush_buffer_def io_store_def, metis neq0_conv)

lemma from_input_null:
  assumes "0 < left" "b_null b" "m_pos b = m_end b" "er 0 inp = (Inr [], inp)"
  shows "ob_from_input up wr er left inp b = None"
  using from_input_Some [of up wr er left inp b] assms by (cases "ob_from_input up wr er left inp b") auto

context output_buffer
begin

text \<open>On a buffer with memory it ends, and copies the bytes or throws.\<close>

lemma from_input_law:
  assumes er: "\<forall>n inp. n \<le> length (c inp) \<longrightarrow> (\<exists>inp'. er n inp = (Inr (take n (c inp)), inp') \<and> c inp' = drop n (c inp))"
    and "ob_ok ok b" "\<not> b_null b" "0 < b_capacity b" "left \<le> length (c inp)"
  shows "\<exists>r inp' b'. ob_from_input up wr er left inp b = Some (r, inp', b') \<and> ob_appends ok out (ob_fails fails full e) (take left (c inp)) b (r, b')"
  using assms(2-)
proof (induction left arbitrary: inp b rule: less_induct)
  case (less left)
  note b = less.prems(1,2)
  show ?case
  proof (cases "left = 0")
    case True
    then show ?thesis using b by (subst ob_from_input.simps) (simp add: ob_appends_def)
  next
    case False
    obtain r1 b1 where f: "(if m_pos b = m_end b then ob_flush_buffer up wr b else (Inr (), b)) = (r1, b1)" by fastforce
    have l: "ob_appends ok out (ob_fails fails full e) [] b (r1, b1) \<and> b_capacity b1 = b_capacity b \<and> \<not> b_null b1 \<and> (r1 = Inr () \<longrightarrow> m_pos b1 < m_end b1)"
      using f flush_law [OF b(1), of r1 b1] b less.prems(3) by (auto simp: ob_appends_def ob_ok_def mem_ok_def split: if_splits)
    show ?thesis
    proof (cases r1)
      case (Inl err)
      then show ?thesis using False f l by (subst ob_from_input.simps) (simp add: ob_appends_def)
    next
      case (Inr u)
      define k where "k = min (m_end b1 - m_pos b1) left"
      have b1: "ob_ok ok b1" "ob_bytes out b1 = ob_bytes out b" "m_pos b1 < m_end b1" using l Inr by (simp_all add: ob_appends_def)
      have "k \<le> length (c inp)" using less.prems(4) by (simp add: k_def)
      with er obtain inp1 where i: "er k inp = (Inr (take k (c inp)), inp1)" "c inp1 = drop k (c inp)" by blast
      have lk: "length (take k (c inp)) = k" "m_pos b1 + length (take k (c inp)) \<le> m_end b1" "0 < k" "k \<le> left"
        using less.prems(4) b1(3) False by (auto simp: k_def)
      from store_law [OF b1(1) lk(2)] obtain b2 where s: "io_store (m_pos b1) (take k (c inp)) b1 = (Inr (), b2)" "ob_ok ok (b2\<lparr>m_pos := m_pos b1 + k\<rparr>)"
        "ob_bytes out (b2\<lparr>m_pos := m_pos b1 + k\<rparr>) = ob_bytes out b1 @ take k (c inp)" "m_pos b2 = m_pos b1" "b_capacity b2 = b_capacity b1" "b_null b2 = b_null b1"
        unfolding lk(1) by metis
      have step: "ob_from_input up wr er left inp b = ob_from_input up wr er (left - k) inp1 (b2\<lparr>m_pos := m_pos b1 + k\<rparr>)"
        using False f Inr i s by (subst ob_from_input.simps) (simp add: k_def [symmetric] Let_def)
      have "\<exists>r inp' b'. ob_from_input up wr er (left - k) inp1 (b2\<lparr>m_pos := m_pos b1 + k\<rparr>) = Some (r, inp', b')
          \<and> ob_appends ok out (ob_fails fails full e) (take (left - k) (c inp1)) (b2\<lparr>m_pos := m_pos b1 + k\<rparr>) (r, b')"
        by (rule less.IH) (use s l lk less.prems(3,4) i(2) False in simp_all)
      then obtain r inp' b' where w: "ob_from_input up wr er (left - k) inp1 (b2\<lparr>m_pos := m_pos b1 + k\<rparr>) = Some (r, inp', b')"
        "ob_appends ok out (ob_fails fails full e) (take (left - k) (c inp1)) (b2\<lparr>m_pos := m_pos b1 + k\<rparr>) (r, b')" by blast
      have t: "take k (c inp) @ take (left - k) (c inp1) = take left (c inp)" using take_add [of k "left - k" "c inp"] lk(4) i(2) by simp
      show ?thesis using step w s(3) b1(2) t [symmetric] by (auto simp: ob_appends_def split: sum.splits)
    qed
  qed
qed

end

text \<open>\<open>to_output\<close> copies the bytes that are in the buffer.\<close>

lemma to_output_buffered:
  assumes "m_pos b + left \<le> m_end b" and "\<forall>bs out. ew bs out = (Inr (), out @ bs)"
  shows "ib_to_output up e rd ew left out b = Some (Inr (), out @ io_slice (m_pos b) (m_pos b + left) b, b\<lparr>m_pos := m_pos b + left\<rparr>)"
proof (cases "left = 0")
  case True
  then show ?thesis by (subst ib_to_output.simps) (simp add: io_slice_def)
next
  case False
  have m: "min (m_end b - m_pos b) left = left" using assms(1) by simp
  have "ib_to_output up e rd ew left out b = ib_to_output up e rd ew 0 (out @ io_slice (m_pos b) (m_pos b + left) b) (b\<lparr>m_pos := m_pos b + left\<rparr>)"
    using False assms m by (subst ib_to_output.simps) simp
  then show ?thesis by (subst (asm) (2) ib_to_output.simps) simp
qed

text \<open>Where it refills the buffer it asks for as many bytes as the buffer has held: none at first, and then it throws; later these bytes are skipped.\<close>

lemma to_output_empty:
  assumes "0 < left" "m_pos b = 0" "m_end b = 0" "b_is b = Some sm" "0 < b_capacity b" "\<not> b_null b \<or> v_ok e (b_capacity b)"
  shows "\<exists>b'. ib_to_output up e rd ew left out b = Some (Inl End_of_file, out, b')"
proof -
  have f: "fst (ib_fill up rd 0 b) = Inl End_of_file" if "m_pos b = 0" "m_end b = 0" "b_is b = Some sm" "0 < b_capacity b" for b
    using that by (simp add: ib_fill_def ib_read_min_max_def read_loop.simps size_sub_def)
  have "fst (ib_do_fill_and_read up e rd 0 b) = Inl End_of_file"
    using assms f by (auto simp: ib_do_fill_and_read_def io_initbuf_def v_realloc_def)
  then obtain b' where "ib_do_fill_and_read up e rd 0 b = (Inl End_of_file, b')" by (metis prod.collapse)
  then show ?thesis using assms by (subst ib_to_output.simps) simp
qed

lemma mem_rd_some:
  assumes "mem_ok s" and "n < 2 ^ 63"
  shows "\<exists>s'. mem_rd n s = (Inr (take n (mem_bytes s)), s') \<and> mem_ok s' \<and> mem_bytes s' = drop n (mem_bytes s)"
proof -
  let ?k = "min n (m_end s - m_pos s)"
  have "mem_rd n s = (Inr (take ?k (drop (m_pos s) (mem s))), s\<lparr>m_pos := m_pos s + ?k\<rparr>)" by (rule mem_rd_eq [OF assms])
  moreover have "take ?k (drop (m_pos s) (mem s)) = take n (mem_bytes s)" by (simp add: mem_bytes_def)
  moreover have "mem_bytes (s\<lparr>m_pos := m_pos s + ?k\<rparr>) = drop n (mem_bytes s)"
    by (auto simp: mem_bytes_def drop_take min_def add.commute)
  ultimately show ?thesis using assms(1) by (auto simp: mem_ok_def)
qed

lemma to_output_skips:
  fixes b :: "(MemIO, 'a) InputBuffer_scheme"
  assumes b: "ib_ok mem_ok b" "\<not> b_null b" "m_pos b = L" "m_end b = L" "0 < L" "L + left \<le> b_capacity b" "0 < left" "b_is b = Some sm" "L + left \<le> length (mem_bytes sm)"
    and ew: "\<forall>bs out. ew bs out = (Inr (), out @ bs)"
  shows "\<exists>b'. ib_to_output io_update_pos e mem_rd ew left out b = Some (Inr (), out @ take left (drop L (mem_bytes sm)), b')"
proof -
  have cap: "b_capacity b < 2 ^ 63" "mem_ok sm" "length (mem b) = b_capacity b" using b by (simp_all add: ib_ok_def)
  obtain sm' where r: "mem_rd (b_capacity b) sm = (Inr (take (b_capacity b) (mem_bytes sm)), sm')" using mem_rd_some [OF cap(2,1)] by blast
  define bs where "bs = take (b_capacity b) (mem_bytes sm)"
  have bs: "L + left \<le> length bs" "bs \<noteq> []" using b by (auto simp: bs_def)
  have loop: "read_loop mem_rd L (b_capacity b) [] sm = (bs, None, sm')"
    using b r bs by (simp add: read_loop.simps [of mem_rd L "b_capacity b" "[]"] read_loop.simps [of mem_rd L "b_capacity b" bs] bs_def [symmetric])
  define b1 where "b1 = b\<lparr>b_is := Some sm', mem := put_at 0 bs (mem b), m_end := length bs\<rparr>"
  have "ib_fill io_update_pos mem_rd L b = (Inr (take L bs), b1)"
    using b bs loop by (auto simp: ib_fill_def ib_read_min_max_def size_sub_def io_update_pos_def b1_def)
  then have f: "ib_do_fill_and_read io_update_pos e mem_rd L b = (Inr (take L bs), b1)" using b by (simp add: ib_do_fill_and_read_def)
  have e: "ib_to_output io_update_pos e mem_rd ew left out b = ib_to_output io_update_pos e mem_rd ew left out b1"
    using b f bs by (subst (1 2) ib_to_output.simps) (simp add: b1_def)
  have "io_slice L (L + left) b1 = take left (drop L bs)" using bs by (simp add: io_slice_def b1_def put_at_def)
  also have "\<dots> = take left (drop L (mem_bytes sm))" using b by (simp add: bs_def drop_take min_def)
  finally show ?thesis using e to_output_buffered [OF _ ew, of b1 left] b bs by (simp add: b1_def)
qed

section \<open>Memory mode, partial writes and seeking\<close>

text \<open>\<open>setMemoryMode\<close> sets a capacity and allocates nothing: the first byte goes through the null pointer.\<close>

lemma memory_mode_unusable:
  assumes "bs \<noteq> []" and "b\<^sub>0 = snd (ob_setMemoryMode e cap b)"
  shows "fst (ob_setMemoryMode e cap b) = Inr ()" and "fst (ob_ensureWrite up e wr bs b\<^sub>0) = Inl Undefined" and "fst (ob_write up e wr bs b\<^sub>0) = Inl Undefined"
proof -
  have b0: "ob_setMemoryMode e cap b = (Inr (), b\<^sub>0)" "b_null b\<^sub>0" "b_os b\<^sub>0 = Os_memory"
    using assms(2) by (simp_all add: ob_setMemoryMode_def io_set_bufsize_def)
  have w: "fst (ob_write_memory e bs b\<^sub>0) = Inl Undefined" using b0(2) assms(1) by (simp add: ob_write_memory_def io_set_bufsize_def io_store_def Let_def)
  obtain b1 where w1: "ob_write_memory e bs b\<^sub>0 = (Inl Undefined, b1)" using w by (metis prod.collapse)
  show "fst (ob_setMemoryMode e cap b) = Inr ()" using b0 by simp
  show "fst (ob_ensureWrite up e wr bs b\<^sub>0) = Inl Undefined" "fst (ob_write up e wr bs b\<^sub>0) = Inl Undefined"
    using b0 assms(1) w1 by (simp_all add: ob_ensureWrite_def ob_write_def ob_flush_and_ensureWrite_def ob_do_flush_and_write_def io_store_def)
qed

text \<open>A stream that takes only some of the bytes: \<open>flush_buffer\<close> throws and keeps all of them, so that the next flush writes the taken ones again.\<close>

lemma partial_flush_keeps:
  assumes "\<not> b_null b" "b_os b = Os sm" "wr (out_bytes b) sm = (Inr n, sm')" "n < m_pos b"
  shows "ob_flush_buffer io_update_pos wr b = (Inl Delay_write, b\<lparr>b_os := Os sm'\<rparr>)"
  using assms by (simp add: ob_flush_buffer_def ob_os_write_def io_update_pos_def out_bytes_def)

lemma sint_small: "0 \<le> i \<Longrightarrow> i < 2 ^ 63 \<Longrightarrow> sint (word_of_int i :: u64) = i"
  by (simp add: signed_of_int signed_take_bit_int_eq_self)

lemma si_seek_stream_law:
  assumes b: "si_ok b" "b_is b = Some sm" and f: "f sm = (Inr (), sm\<lparr>m_pos := m_beg sm + p\<rparr>)" and p: "p \<le> sk_size sm"
  obtains b' where "si_seek_stream f sk_tell b = (Inr (), b')" and "si_ok b'" and "si_tell sk_tell b' = Inr p" and "ib_bytes mem_bytes b' = drop p (sk_all sm)"
proof
  let ?sm = "sm\<lparr>m_pos := m_beg sm + p\<rparr>"
  let ?b = "b\<lparr>b_is := Some ?sm, b_stream_pos := p, m_end := 0, m_pos := 0\<rparr>"
  have m: "m_end sm \<le> length (mem sm)" "m_beg sm \<le> m_end sm" using b by (auto simp: si_ok_def ib_ok_def mem_ok_def)
  show "si_seek_stream f sk_tell b = (Inr (), ?b)" using b f by (simp add: si_seek_stream_def sk_tell_def)
  show "si_ok ?b" using b p m by (auto simp: si_ok_def ib_ok_def mem_ok_def sk_tell_def sk_size_def)
  show "si_tell sk_tell ?b = Inr p" by (simp add: si_tell_def sk_tell_def)
  show "ib_bytes mem_bytes ?b = drop p (sk_all sm)"
    using p m by (simp add: ib_bytes_def mem_bytes_def sk_all_def sk_size_def drop_take add.commute)
qed

lemma sk_sk_law:
  assumes "p \<le> sk_size sm" "sk_size sm < 2 ^ 63" "m_beg sm \<le> m_end sm"
  shows "sk_sk p sm = (Inr (), sm\<lparr>m_pos := m_beg sm + p\<rparr>)"
  using assms by (simp add: sk_sk_def ptrdiff_id sk_seek_def sk_size_def)

lemma sk_sko_law:
  assumes "0 \<le> int (sk_tell sm) + d" "int (sk_tell sm) + d \<le> int (sk_size sm)" "sk_size sm < 2 ^ 63" "m_beg sm \<le> m_end sm"
  shows "sk_sko d 1 sm = (Inr (), sm\<lparr>m_pos := m_beg sm + nat (int (sk_tell sm) + d)\<rparr>)"
proof -
  have "int (sk_size sm) < 2 ^ 63" using assms(3) by simp
  then have "int (sk_tell sm) + d < 2 ^ 63" using assms(2) by linarith
  from sint_small [OF assms(1) this] show ?thesis using assms by (simp add: sk_sko_def sk_seek_origin_def sk_seek_def sk_size_def)
qed

lemma si_ok_facts:
  assumes "si_ok b" "b_is b = Some sm"
  shows "m_pos b \<le> m_end b" "m_end b \<le> length (mem b)" "m_end b \<le> b_stream_pos b" "b_stream_pos b = sk_tell sm" "sk_tell sm \<le> sk_size sm" "sk_size sm < 2 ^ 63"
    "m_beg sm \<le> m_end sm" "size_sub (b_stream_pos b) (m_end b) = b_stream_pos b - m_end b" "int (b_stream_pos b) < 2 ^ 63"
proof -
  have s: "b_stream_pos b = sk_tell sm" "sk_size sm < 2 ^ 63" "m_beg sm \<le> m_pos sm" "m_pos sm \<le> m_end sm" "m_end b \<le> b_stream_pos b"
    using assms by (simp_all add: si_ok_def ib_ok_def mem_ok_def)
  show "m_pos b \<le> m_end b" "m_end b \<le> length (mem b)" using assms by (simp_all add: si_ok_def ib_ok_def mem_ok_def)
  show t: "sk_tell sm \<le> sk_size sm" using s by (simp add: sk_tell_def sk_size_def)
  show "size_sub (b_stream_pos b) (m_end b) = b_stream_pos b - m_end b" using s by (simp add: size_sub_def)
  have "int (sk_size sm) < 2 ^ 63" using s(2) by simp
  then show "int (b_stream_pos b) < 2 ^ 63" using s(1) t by linarith
qed (use assms in \<open>simp_all add: si_ok_def ib_ok_def mem_ok_def\<close>)

lemma si_tell_eq:
  assumes "si_ok b" "b_is b = Some sm" "m_end b \<noteq> 0"
  shows "si_tell sk_tell b = Inr (b_stream_pos b - m_end b + m_pos b)"
  using si_ok_facts [OF assms(1,2)] assms(3) by (simp add: si_tell_def size_sub_def)

lemma si_skip_inside:
  assumes b: "si_ok b" "b_is b = Some sm" "m_end b \<noteq> 0" and d: "0 \<le> int (m_pos b) + d" "int (m_pos b) + d \<le> int (m_end b)"
  shows "\<exists>b'. si_skip sk_sk sk_sko sk_tell sk_size d b = (Inr (), b') \<and> si_ok b' \<and> si_tell sk_tell b' = Inr (nat (int (b_stream_pos b - m_end b + m_pos b) + d))"
proof -
  note f = si_ok_facts [OF b(1,2)]
  define t where "t = int (b_stream_pos b - m_end b + m_pos b) + d"
  have t: "int (b_stream_pos b - m_end b) \<le> t" "t \<le> int (b_stream_pos b)" using d f(3) by (simp_all add: t_def of_nat_diff)
  have m: "t mod 2 ^ 64 = t" using t f(9) by (intro mod_pos_pos_trivial) simp_all
  define b' where "b' = b\<lparr>m_pos := nat (int (m_pos b) + d)\<rparr>"
  have "si_skip sk_sk sk_sko sk_tell sk_size d b = (Inr (), b')"
    using b(3) t d f(2) unfolding si_skip_def si_seek_origin_def f(8) Let_def t_def [symmetric] m by (simp add: si_set_pos_def b'_def)
  moreover have o: "si_ok b'" "b_is b' = Some sm" "m_end b' \<noteq> 0" using b d by (simp_all add: b'_def si_ok_def ib_ok_def mem_ok_def)
  moreover have "b_stream_pos b' - m_end b' + m_pos b' = nat t" using d by (simp add: b'_def t_def)
  ultimately show ?thesis using si_tell_eq [OF o] by (simp add: t_def)
qed

lemma si_skip_beyond:
  assumes b: "si_ok b" "b_is b = Some sm" "m_end b \<noteq> 0" and d: "int (m_end b) < int (m_pos b) + d" "int (b_stream_pos b) + d \<le> int (sk_size sm)"
  shows "\<exists>b'. si_skip sk_sk sk_sko sk_tell sk_size d b = (Inr (), b') \<and> si_tell sk_tell b' = Inr (nat (int (b_stream_pos b) + d))"
proof -
  note f = si_ok_facts [OF b(1,2)]
  define t where "t = int (b_stream_pos b - m_end b + m_pos b) + d"
  have sz: "int (sk_size sm) < 2 ^ 63" using f(6) by simp
  have t: "int (b_stream_pos b) < t" "t \<le> int (b_stream_pos b) + d" using d f(1,3) by (simp_all add: t_def of_nat_diff)
  have m: "t mod 2 ^ 64 = t" using t d(2) sz by (intro mod_pos_pos_trivial) simp_all
  have e: "si_skip sk_sk sk_sko sk_tell sk_size d b = si_seek_stream (sk_sko d 1) sk_tell b"
    using b(3) t unfolding si_skip_def si_seek_origin_def f(8) Let_def t_def [symmetric] m by simp
  have d0: "0 \<le> int (sk_tell sm) + d" "int (sk_tell sm) + d \<le> int (sk_size sm)" using d f(1,4) by simp_all
  obtain b' where "si_seek_stream (sk_sko d 1) sk_tell b = (Inr (), b')" "si_tell sk_tell b' = Inr (nat (int (sk_tell sm) + d))"
    by (rule si_seek_stream_law [where f = "sk_sko d 1", OF b(1,2) sk_sko_law [OF d0 f(6,7)]]) (use d0 in simp_all)
  then show ?thesis using e f(4) by simp
qed

lemma si_seek_law:
  assumes b: "si_ok b" "b_is b = Some sm" and p: "p \<le> sk_size sm"
  shows "if m_end b \<noteq> 0 \<and> b_stream_pos b - m_end b \<le> p \<and> p \<le> b_stream_pos b
    then if p < b_stream_pos b then si_seek sk_sk sk_tell p b = (Inl Undefined, b)
      else si_seek sk_sk sk_tell p b = (Inr (), b\<lparr>m_pos := 0\<rparr>) \<and> si_tell sk_tell (b\<lparr>m_pos := 0\<rparr>) = Inr (p - m_end b)
    else (\<exists>b'. si_seek sk_sk sk_tell p b = (Inr (), b') \<and> si_ok b' \<and> si_tell sk_tell b' = Inr p \<and> ib_bytes mem_bytes b' = drop p (sk_all sm))"
proof -
  note f = si_ok_facts [OF b]
  show ?thesis
  proof (cases "m_end b \<noteq> 0 \<and> b_stream_pos b - m_end b \<le> p \<and> p \<le> b_stream_pos b")
    case True
    have "si_ok (b\<lparr>m_pos := 0\<rparr>)" using b by (simp add: si_ok_def ib_ok_def mem_ok_def)
    from si_tell_eq [OF this, of sm] True b have "si_tell sk_tell (b\<lparr>m_pos := 0\<rparr>) = Inr (b_stream_pos b - m_end b)" by simp
    then show ?thesis using True unfolding si_seek_def f(8) Let_def by (auto simp: si_set_pos_def)
  next
    case False
    then have e: "si_seek sk_sk sk_tell p b = si_seek_stream (sk_sk p) sk_tell b" unfolding si_seek_def f(8) Let_def by auto
    obtain b' where "si_seek_stream (sk_sk p) sk_tell b = (Inr (), b')" "si_ok b'" "si_tell sk_tell b' = Inr p" "ib_bytes mem_bytes b' = drop p (sk_all sm)"
      by (rule si_seek_stream_law [where f = "sk_sk p", OF b sk_sk_law [OF p f(6,7)] p])
    then show ?thesis unfolding if_not_P [OF False] using e by simp
  qed
qed

lemma ob_run_append: "ob_run e (xs @ ys) b = (case ob_run e xs b of Inl err \<Rightarrow> Inl err | Inr b \<Rightarrow> ob_run e ys b)"
  by (induction xs arbitrary: b) (auto split: sum.splits)

lemma run_items:
  assumes "ob_ok ag_ok b" and "list_all item_ok xs"
  shows "case ob_run e (map OB_item xs) b of Inl err \<Rightarrow> ag_fails e err
    | Inr b' \<Rightarrow> ob_ok ag_ok b' \<and> ob_bytes out_bytes b' = ob_bytes out_bytes b @ concat (map item_bytes xs)"
proof -
  have "ob_pre_run e (map OB_item xs) b" for b using assms(2) by (induction xs arbitrary: b) (simp_all split: sum.splits)
  moreover have "fold ob_spec (map OB_item xs) w = w @ concat (map item_bytes xs)" for w by (induction xs arbitrary: w) simp_all
  ultimately show ?thesis using obm.run_refines [OF assms(1), of e "map OB_item xs"] by (simp split: sum.splits)
qed

lemma read_range:
  assumes "ag_ok sm" and "out_bytes sm = pre @ ys"
  shows "mem_ok (mem_of_range sm (length pre, m_pos sm))" and "mem_bytes (mem_of_range sm (length pre, m_pos sm)) = ys"
proof -
  have l: "m_pos sm \<le> length (mem sm)" using assms(1) by (simp add: ag_ok_def)
  have "length pre + length ys = m_pos sm" using arg_cong [OF assms(2), of length] l by (simp add: out_bytes_def)
  then show "mem_ok (mem_of_range sm (length pre, m_pos sm))" using l by (simp add: mem_ok_def mem_of_range_def)
  have "mem_bytes (mem_of_range sm (length pre, m_pos sm)) = drop (length pre) (out_bytes sm)" by (simp add: mem_bytes_def mem_of_range_def out_bytes_def drop_take)
  then show "mem_bytes (mem_of_range sm (length pre, m_pos sm)) = ys" using assms(2) by simp
qed

section \<open>Properties\<close>

text \<open>C7. Values written through an \<open>OutputBuffer\<close> of any size on an \<open>AutoGrownMemIO\<close> and flushed are all in the stream, and an \<open>InputBuffer\<close> of any size of at
  least two bytes on a \<open>MemIO\<close> over what was written reads the same values back, in order and to the end, wherever the boundaries of the two buffers fall.\<close>

theorem stream_buffer_roundtrip:
  assumes "ob_ok ag_ok b" and "list_all item_ok xs" and "\<forall>n. v_ok e n" and "1 < cap" and "cap < 2 ^ 63"
  shows "\<exists>b' sm r. ob_run e (map OB_item xs @ [OB_flush]) b = Inr b' \<and> b_os b' = Os sm \<and> out_bytes sm = ob_bytes out_bytes b @ concat (map item_bytes xs)
    \<and> mi_read_likes e xs ((ib_make (Some (mem_of_range sm (length (ob_bytes out_bytes b), m_pos sm))))\<lparr>b_capacity := cap\<rparr>) = Inr (xs, r)
    \<and> ib_bytes mem_bytes r = []"
proof -
  have run: "case ob_run e (map OB_item xs) b of Inl err \<Rightarrow> ag_fails e err | Inr b' \<Rightarrow> ob_ok ag_ok b' \<and> ob_bytes out_bytes b' = ob_bytes out_bytes b @ concat (map item_bytes xs)"
    using run_items [OF assms(1,2), of e] by simp
  then obtain b1 where b1: "ob_run e (map OB_item xs) b = Inr b1" "ob_ok ag_ok b1" "ob_bytes out_bytes b1 = ob_bytes out_bytes b @ concat (map item_bytes xs)"
    using assms(3) by (auto simp: ag_fails_def split: sum.splits)
  obtain b' where b': "mo_step e OB_flush b1 = Inr b'" "ob_ok ag_ok b'" "ob_bytes out_bytes b' = ob_bytes out_bytes b1"
    using mo_step_ok [OF b1(2), of OB_flush e] assms(3) by (auto simp: ag_fails_def split: sum.splits)
  obtain sm where sm: "b_os b' = Os sm" "ag_ok sm" using b'(2) by (auto simp: ob_ok_def split: os_ptr.splits)
  have "out_bytes b' = []" using flush_appends(3) [OF b1(2)] b'(1) by simp
  then have o: "out_bytes sm = ob_bytes out_bytes b @ concat (map item_bytes xs)" using b'(3) b1(3) sm(1) by (simp add: ob_bytes_def)
  define r0 where "r0 = (ib_make (Some (mem_of_range sm (length (ob_bytes out_bytes b), m_pos sm))))\<lparr>b_capacity := cap\<rparr>"
  have r0: "mi_ok e ([], r0)" "ib_bytes mem_bytes r0 = concat (map item_bytes xs) @ []"
    using read_range [OF sm(2) o] assms(3-5) by (simp_all add: r0_def mi_ok_def ib_ok_def ib_make_def mem_ok_def ib_bytes_def mem_bytes_def)
  from mi_read_likes_items [OF r0 assms(2)] obtain r where "mi_read_likes e xs r0 = Inr (xs, r)" "ib_bytes mem_bytes r = []" by blast
  then show ?thesis using ob_run_append [of e "map OB_item xs" "[OB_flush]" b] b1(1) b'(1) sm(1) o by (auto simp: r0_def)
qed


theorem stream_buffer_roundtrip_witness:
  "\<exists>b' sm r. ob_run sb_env (map OB_item [V_int32 (- 5), V_string [104, 105], V_uint64 (2 ^ 63)] @ [OB_flush]) ((ob_make (Os ag_null))\<lparr>b_capacity := 4\<rparr>) = Inr b'
    \<and> b_os b' = Os sm \<and> mi_read_likes sb_env [V_int32 (- 5), V_string [104, 105], V_uint64 (2 ^ 63)]
      ((ib_make (Some (mem_of_range sm (0, m_pos sm))))\<lparr>b_capacity := 3\<rparr>) = Inr ([V_int32 (- 5), V_string [104, 105], V_uint64 (2 ^ 63)], r)
    \<and> ib_bytes mem_bytes r = []"
proof -
  let ?b = "(ob_make (Os ag_null))\<lparr>b_capacity := 4\<rparr>"
  have b: "ob_ok ag_ok ?b" "ob_bytes out_bytes ?b = []" by (simp_all add: ob_ok_def ob_make_def mem_ok_def ag_ok_def ag_null_def ob_bytes_def out_bytes_def)
  have x: "list_all item_ok [V_int32 (- 5), V_string [104, 105], V_uint64 (2 ^ 63)]" by simp
  show ?thesis using stream_buffer_roundtrip [OF b(1) x, of sb_env 3]
    by (auto simp: sb_env_def b(2) simp del: ob_run.simps mi_read_likes.simps list.map)
qed

text \<open>C14. Whatever sequence of \<open>read\<close>, \<open>ensureRead\<close>, \<open>readByte\<close>, \<open>getByte\<close>, \<open>eof\<close> and \<open>getline\<close> runs on an \<open>InputBuffer\<close> over a \<open>MemIO\<close>, what it returns and what is left
  are what the list operations give on the bytes of buffer and stream together; the only exception is \<open>EndOfFileException\<close>.\<close>

theorem input_buffer_run_refines:
  assumes "mi_ok e s" and "mi_pre_run e ops s"
  shows "case mi_run e ops s of Inl err \<Rightarrow> err = End_of_file | Inr s' \<Rightarrow> mi_ok e s' \<and> mi_abs s' = fold ib_spec ops (mi_abs s)"
  by (rule mim.run_refines [OF assms])

theorem input_buffer_run_refines_witness:
  "case mi_run sb_env [IB_getline 100, IB_readByte, IB_eof] ([], ib_make (Some (mem_set sb_text 0 7))) of Inl err \<Rightarrow> err = End_of_file
    | Inr s' \<Rightarrow> mi_ok sb_env s' \<and> mi_abs s' = fold ib_spec [IB_getline 100, IB_readByte, IB_eof] (mi_abs ([], ib_make (Some (mem_set sb_text 0 7))))"
proof (rule input_buffer_run_refines)
  show "mi_ok sb_env ([], ib_make (Some (mem_set sb_text 0 7)))" by (simp add: mi_ok_def ib_ok_def ib_make_def mem_ok_def mem_set_def sb_text_def sb_env_def)
qed (simp split: sum.splits)

text \<open>C33. When the reads of an \<open>InputBuffer\<close> over a \<open>MemIO\<close> throw. \<open>ensureRead\<close> throws exactly when fewer bytes are left than asked for. \<open>read\<close> returns the bytes there are, but throws when
  they are too few and all of them are in the buffer, and then loses them when the missing ones alone would fill the buffer; a \<open>read\<close> at the end never returns 0. \<open>eof\<close> is true exactly at the end
  and consumes nothing. \<open>getline\<close> returns the line up to the next end of line or \<open>maxlen\<close>, and throws at the end of the input, when the input ends in a carriage return, and, without
  a stream behind the buffer, when the last line has no end.\<close>

theorem input_buffer_outcomes:
  assumes "ib_ok mem_ok b" and "1 < b_capacity b" and "v_ok e (b_capacity b)" and "n < 2 ^ 63" and "c = ib_bytes mem_bytes b"
  shows "(\<exists>b'. ib_ensureRead io_update_pos e mem_rd n b = (if n \<le> length c then Inr (take n c) else Inl End_of_file, b') \<and> (n \<le> length c \<longrightarrow> ib_bytes mem_bytes b' = drop n c))
    \<and> ib_reads mem_ok mem_bytes n b (ib_read io_update_pos e mem_rd n b)
    \<and> (\<exists>b'. ib_eof io_update_pos e mem_rd b = (Inr (c = []), b') \<and> ib_bytes mem_bytes b' = c)
    \<and> getline_ends mem_ok mem_bytes maxlen [] c b (ib_getline io_update_pos e mem_rd maxlen b)"
  using mib.ensureRead_law [of b n e] mib.read_law [of b n e] mib.eof_law [of b e] mib.getline_law [of b e maxlen] assms by auto

theorem input_buffer_outcomes_witness:
  "fst (ib_read io_update_pos sb_env mem_rd 4 \<lparr>mem = [1, 2, 3], m_pos = 1, m_end = 3, b_null = False, b_capacity = 3, b_is = Some (mem_set [] 0 0)\<rparr>) = Inl End_of_file
    \<and> fst (ib_getline io_update_pos sb_env mem_rd 9 (ib_make (Some (mem_set [104, 13] 0 2)))) = Inl End_of_file"
proof -
  let ?b = "\<lparr>mem = [1, 2, 3], m_pos = 1, m_end = 3, b_null = False, b_capacity = 3, b_is = Some (mem_set [] 0 0)\<rparr> :: mem_in"
  have b: "ib_ok mem_ok ?b" "ib_bytes mem_bytes ?b = [2, 3]" "ib_exhausted mem_bytes ?b"
    by (simp_all add: ib_ok_def mem_ok_def mem_set_def ib_bytes_def mem_bytes_def ib_exhausted_def)
  let ?d = "ib_make (Some (mem_set [104, 13] 0 2)) :: mem_in"
  have d: "ib_ok mem_ok ?d" "ib_bytes mem_bytes ?d = [104, 13]" "b_is ?d \<noteq> None" "1 < b_capacity ?d"
    by (simp_all add: ib_ok_def mem_ok_def mem_set_def ib_bytes_def mem_bytes_def ib_make_def)
  have t: "getline_throws False True 9 [104, 13]" by code_simp
  show ?thesis using input_buffer_outcomes [OF b(1), of sb_env 4 "[2, 3]" 0] input_buffer_outcomes [OF d(1,4), of sb_env 0 "[104, 13]" 9] b(2,3) d(2,3) t
    by (simp add: ib_reads_def getline_ends_def sb_env_def Let_def)
qed



text \<open>C34. Copying between a buffer and another stream. \<open>from_input\<close> on an \<open>OutputBuffer\<close> that has its memory ends, and appends the bytes unless the allocator refuses memory to the stream; on a
  new \<open>OutputBuffer\<close> it never ends. \<open>to_output\<close> copies bytes that are in the buffer; on a new \<open>InputBuffer\<close> it throws, whatever the stream holds; and when it refills a buffer that has
  held \<open>L\<close> bytes, it leaves out the next \<open>L\<close> bytes.\<close>

theorem buffer_copies:
  fixes d :: mem_in
  assumes "\<forall>n inp. n \<le> length (c inp) \<longrightarrow> (\<exists>inp'. er n inp = (Inr (take n (c inp)), inp') \<and> c inp' = drop n (c inp))" and "er 0 inp = (Inr [], inp)"
    and "ob_ok ag_ok b" "\<not> b_null b" "0 < b_capacity b" "left \<le> length (c inp)" "0 < left"
    and "\<forall>bs out. ew bs out = (Inr (), out @ bs)"
    and "ib_ok mem_ok d" "\<not> b_null d" "m_pos d = m_end d" "0 < m_end d" "m_end d + left \<le> b_capacity d" "b_is d = Some sm" "m_end d + left \<le> length (mem_bytes sm)"
  shows "(\<exists>r inp' b'. ob_from_input io_update_pos (ag_wr e) er left inp b = Some (r, inp', b') \<and> ob_appends ag_ok out_bytes (ag_fails e) (take left (c inp)) b (r, b'))
    \<and> ob_from_input io_update_pos (ag_wr e) er left inp (ob_make (Os ag_null)) = None
    \<and> (v_ok e 8192 \<longrightarrow> (\<exists>d'. ib_to_output io_update_pos e mem_rd ew left out (ib_make (Some sm)) = Some (Inl End_of_file, out, d')))
    \<and> (\<exists>d'. ib_to_output io_update_pos e mem_rd ew left out d = Some (Inr (), out @ take left (drop (m_end d) (mem_bytes sm)), d'))"
proof -
  have "ob_from_input io_update_pos (ag_wr e) er left inp (ob_make (Os ag_null)) = None"
    by (rule from_input_null) (use assms(2,7) in \<open>simp_all add: ob_make_def\<close>)
  moreover have "\<exists>d'. ib_to_output io_update_pos e mem_rd ew left out (ib_make (Some sm)) = Some (Inl End_of_file, out, d')" if "v_ok e 8192"
    by (rule to_output_empty) (use that assms(7) in \<open>simp_all add: ib_make_def\<close>)
  ultimately show ?thesis
    using aos.from_input_law [OF assms(1,3-6), of e] to_output_skips [OF assms(9,10,11) refl assms(12,13,7,14,15,8), of e out] by (simp add: ob_fails_ag)
qed

theorem buffer_copies_witness:
  "ob_from_input io_update_pos (ag_wr sb_env) (\<lambda>n w. (Inr (take n w), drop n w)) 2 sb_text (ob_make (Os ag_null)) = None
    \<and> (\<exists>d'. ib_to_output io_update_pos sb_env mem_rd (\<lambda>bs out. (Inr (), out @ bs)) 2 []
        \<lparr>mem = [9, 9, 9, 9], m_pos = 1, m_end = 1, b_null = False, b_capacity = 4, b_is = Some (mem_set sb_text 0 7)\<rparr> = Some (Inr (), [105, 13], d'))"
proof -
  let ?b = "\<lparr>mem = [0], m_pos = 0, m_end = 0, b_null = False, b_capacity = 1, b_os = Os ag_null\<rparr> :: mem_out"
  let ?d = "\<lparr>mem = [9, 9, 9, 9], m_pos = 1, m_end = 1, b_null = False, b_capacity = 4, b_is = Some (mem_set sb_text 0 7)\<rparr> :: mem_in"
  have "ob_ok ag_ok ?b" "ib_ok mem_ok ?d" "mem_bytes (mem_set sb_text 0 7) = sb_text" "length sb_text = 7"
    by (simp_all add: ob_ok_def mem_ok_def ag_ok_def ag_null_def ib_ok_def mem_set_def mem_bytes_def sb_text_def)
  then show ?thesis
    using buffer_copies [of "\<lambda>w. w" "\<lambda>n w. (Inr (take n w), drop n w)" sb_text ?b 2 "\<lambda>bs out. (Inr (), out @ bs)" ?d "mem_set sb_text 0 7" sb_env "[]"]
    by (simp add: sb_text_def)
qed

text \<open>C40. Seeking in a \<open>SeekableInputBuffer\<close> over a \<open>SeekableMemIO\<close>. \<open>seek\<close> to a position outside the buffer is right: \<open>tell\<close> is the position and the bytes from there on are read. To a position whose
  byte is in the buffer it moves the pointer to before the begin of the block, and to the end of the buffer it moves to its begin, from where all of it is read again. \<open>skip\<close> is right inside the buffer;
  past its end it counts from the position of the stream, the end of the buffer, and not from the position of the reader.\<close>

theorem seekable_input_seek:
  assumes "si_ok b" and "b_is b = Some sm" and "p \<le> sk_size sm"
  shows "(if m_end b \<noteq> 0 \<and> b_stream_pos b - m_end b \<le> p \<and> p \<le> b_stream_pos b
      then if p < b_stream_pos b then si_seek sk_sk sk_tell p b = (Inl Undefined, b)
        else si_seek sk_sk sk_tell p b = (Inr (), b\<lparr>m_pos := 0\<rparr>) \<and> si_tell sk_tell (b\<lparr>m_pos := 0\<rparr>) = Inr (p - m_end b)
      else (\<exists>b'. si_seek sk_sk sk_tell p b = (Inr (), b') \<and> si_ok b' \<and> si_tell sk_tell b' = Inr p \<and> ib_bytes mem_bytes b' = drop p (sk_all sm)))
    \<and> (m_end b \<noteq> 0 \<longrightarrow> si_tell sk_tell b = Inr (b_stream_pos b - m_end b + m_pos b)
      \<and> (0 \<le> int (m_pos b) + k \<and> int (m_pos b) + k \<le> int (m_end b) \<longrightarrow>
          (\<exists>b'. si_skip sk_sk sk_sko sk_tell sk_size k b = (Inr (), b') \<and> si_ok b' \<and> si_tell sk_tell b' = Inr (nat (int (b_stream_pos b - m_end b + m_pos b) + k))))
      \<and> (int (m_end b) < int (m_pos b) + k \<and> int (b_stream_pos b) + k \<le> int (sk_size sm) \<longrightarrow>
          (\<exists>b'. si_skip sk_sk sk_sko sk_tell sk_size k b = (Inr (), b') \<and> si_tell sk_tell b' = Inr (nat (int (b_stream_pos b) + k)))))"
  using si_seek_law [OF assms] si_tell_eq [OF assms(1,2)] si_skip_inside [OF assms(1,2), of k] si_skip_beyond [OF assms(1,2), of k] by blast

theorem seekable_input_seek_witness:
  "si_seek sk_sk sk_tell 1 \<lparr>mem = [1, 2, 3], m_pos = 2, m_end = 3, b_null = False, b_capacity = 3, b_is = Some \<lparr>mem = sb_text, m_pos = 3, m_end = 7, m_beg = 0\<rparr>, b_stream_pos = 3\<rparr>
    = (Inl Undefined, \<lparr>mem = [1, 2, 3], m_pos = 2, m_end = 3, b_null = False, b_capacity = 3, b_is = Some \<lparr>mem = sb_text, m_pos = 3, m_end = 7, m_beg = 0\<rparr>, b_stream_pos = 3\<rparr>)"
proof -
  let ?b = "\<lparr>mem = [1, 2, 3], m_pos = 2, m_end = 3, b_null = False, b_capacity = 3, b_is = Some \<lparr>mem = sb_text, m_pos = 3, m_end = 7, m_beg = 0\<rparr>, b_stream_pos = 3\<rparr> :: SeekableMemIO SeekableInputBuffer"
  have "si_ok ?b" by (simp add: si_ok_def ib_ok_def mem_ok_def sk_tell_def sk_size_def sb_text_def)
  from seekable_input_seek [OF this, of "\<lparr>mem = sb_text, m_pos = 3, m_end = 7, m_beg = 0\<rparr>" 1 0] show ?thesis by (simp add: sk_size_def)
qed

end
