(* ===== verification/Spec2Isabelle.thy ===== *)
theory Spec2Isabelle
  imports RankSelectSE512 RankSelectIL256 FebitvecQuery SearchAlgo MemStream CircularQueue IntVector HeapExt StreamBuffer
begin

text \<open>
  A verification library of the succinct data structures and containers of terark-zip (C++, under
  \<open>src/src/terark\<close>).

  \<^bold>\<open>The program.\<close> terark-zip is a library of compressed, searchable stores. Its upper layers (the LOUDS
  tries of \<open>fsa\<close>, the indexes of \<open>idx\<close>, the blob stores of \<open>zbs\<close>) are built on a small core: a growable array
  (\<open>valvec\<close>), a growable bit vector (\<open>febitvec\<close>) and rank/select structures over bit vectors
  (\<open>rank_select_simple\<close>, \<open>rank_select_se_256\<close>, \<open>rank_select_se_512\<close>, ...) that answer "how many ones are below
  position p" and "where is the r-th one" from a cache stored in the same block as the bits. What the layers store and load goes
  through byte streams (\<open>MemIO\<close>, \<open>AutoGrownMemIO\<close>) as variable length integers. This library models that core.

  \<^bold>\<open>Conventions.\<close> A heap block is an explicit list of 64-bit words, little-endian, with 32-bit and 8-bit
  views (\<open>get32\<close>, \<open>set32\<close>, \<open>get8\<close>, \<open>set8\<close> of TZ_Prelude): the caches of the rank structures live in the words after
  the bits exactly as in the code, and every write is framed (\<open>same_except\<close>). A null pointer is \<open>None\<close>, a pointer into
  the block an index. The allocator is a parameter (\<open>env\<close>, \<open>venv\<close>): it may refuse any request and
  leaves arbitrary contents in new memory. \<open>size_t\<close> is \<open>nat\<close>, with the wrap-around of subtraction written out
  (\<open>size_sub\<close>) and the 32-bit fields kept as words; sums of sizes of objects in memory do not overflow. Exceptions and \<open>abort\<close>
  are values of \<open>error + 'a\<close>. Asserts are the preconditions of the theorems.

  \<^bold>\<open>Theories.\<close>

  \<^item> TZ_Prelude: machine types, errors, memory blocks and their views, counting and selecting of set bits, and the locale
    \<open>op_machine\<close>, the contract of a container (a step simulates a list operation; every sequence then does).

  \<^item> Bitmanip: \<open>bitmanip.hpp\<close>, population count, trailing and leading zeros, bit tests, range fills.

  \<^item> UintSelect: \<open>succinct/rank_select_inline_slow.hpp\<close> and \<open>rank_select_inline_bmi2.hpp\<close>, select inside a word, by
    the byte table and by \<open>pdep\<close>.

  \<^item> RankSelectSpec: what a rank/select structure answers (\<open>rs_answers\<close>) and the locales of the bisections and scans
    that all of them share.

  \<^item> Febitvec, FebitvecQuery: \<open>febitvec\<close> of \<open>bitmap.hpp\<close> and \<open>bitmap.cpp\<close>. Every sequence of operations refines the list
    of bits (an interpretation of \<open>op_machine\<close>); integers packed at any width round trip; run lengths, counts, bitwise
    operators and copies are right on the bits.

  \<^item> RankSelectLines: the layout of a line structure (lines of bits, rank cache, select caches, size trailer) as
    the locale \<open>rank_lines\<close>, from which rank and select are derived once; interpreted for each structure.

  \<^item> RankSelectSimple, RankSelectSE256, RankSelectSE512: the files of those names under \<open>succinct\<close>. \<open>build_cache\<close>
    returns (or throws exactly on overflow) and the built structure answers every query for its bits; mapping the
    block of a built structure restores it.

  \<^item> RankSelectIL256: \<open>succinct/rank_select_il_256\<close>, which interleaves ranks and bits in lines kept in a \<open>valvec\<close>: every sequence of
    operations refines the list of bits, and the built structure answers every query; also what \<open>build_cache\<close> does to popped bits.

  \<^item> Valvec: \<open>valvec\<close> of \<open>valvec.hpp\<close>, all operations, with references into the vector as arguments. Refinement of lists
    (\<open>op_machine\<close> again), totality, error behaviour, lexicographic comparison, and the cases in which the code
    goes wrong (\<open>insert\<close> of an own element, the copying move assignment).

  \<^item> SearchAlgo: the binary searches of \<open>valvec.hpp\<close>, for \<open>operator<\<close>, comparators (locale \<open>strict_weak_order\<close>) and key
    extractors.

  \<^item> CircularQueue: \<open>circular_queue.hpp\<close> and \<open>util/auto_grow_circular_queue.hpp\<close>, two queues over a ring of slots, as refinements of lists (\<open>op_machine\<close>), and
    the push that loses the elements of a full queue.

  \<^item> HeapExt: \<open>heap_ext.hpp\<close>, the heap algorithms that move a hole to a leaf and the value up from it: they restore the heap order and
    keep the multiset of elements, for every comparator of the locale \<open>strict_weak_order\<close>.

  \<^item> IntVector: \<open>int_vector.hpp\<close> and \<open>int_vector.cpp\<close>, integers packed at a common width (\<open>UintVecMin0\<close>, \<open>BigUintVecMin0\<close>) and as offsets from a minimum
    (\<open>ZipIntVector\<close>, for every integer type of up to 64 bits). Every sequence of operations refines the width and the list of integers
    (\<open>op_machine\<close>), what is built is read back, the searches are those of SearchAlgo on the list; also when \<open>push_back\<close> ends the program and
    which keys the searches miss.

  \<^item> VarInt: \<open>io/var_int.hpp\<close>, \<open>var_int_inline.hpp\<close> and \<open>var_int.cpp\<close>, the two codes of variable length integers, specified as functions from numbers to
    bytes (\<open>varint\<close>, \<open>prefix_code\<close>). Writing produces these bytes and reading inverts them, forwards, backwards and from any stream of the
    locale \<open>byte_source\<close>, except in the cases the theorems name.

  \<^item> MemStream: \<open>io/MemStream.hpp\<close> and \<open>MemStream.cpp\<close> with \<open>io/var_int_io.hpp\<close>. The records extend each other as the classes do. The locales \<open>var_reader\<close>
    (over \<open>byte_source\<close>) and \<open>var_writer\<close> are what \<open>var_int_io.hpp\<close> expects of the class that includes it, interpreted on \<open>MemIO\<close> and \<open>AutoGrownMemIO\<close>. No operation
    leaves the range of its stream, an \<open>AutoGrownMemIO\<close> refines the list of written bytes (\<open>op_machine\<close>), and what one stream writes the other reads back.

  \<^item> StreamBuffer: \<open>io/StreamBuffer.hpp\<close> and \<open>StreamBuffer.cpp\<close>, the buffers between the clients and a stream: \<open>InputBuffer\<close>, \<open>OutputBuffer\<close> and
    \<open>SeekableInputBuffer\<close>. The interfaces \<open>IInputStream\<close> and \<open>IOutputStream\<close> are the locales \<open>input_stream\<close> and \<open>output_stream\<close>, the buffers over them \<open>input_buffer\<close> and
    \<open>output_buffer\<close>, all interpreted on the streams of MemStream; exceptions keep the state they leave, so that \<open>test_eof\<close> can catch one. Sequences of operations refine the bytes of buffer
    and stream together (\<open>op_machine\<close>), \<open>var_int_io.hpp\<close> works on the buffers too (\<open>var_reader\<close>, \<open>var_writer\<close>), and what goes through one buffer comes back
    through the other; also when the operations throw, which bytes they lose, which loops do not end and where \<open>seek\<close> goes wrong.

  \<^bold>\<open>Loops and bounds.\<close> Every loop of the source is a total function with a measure, so results are never
  conditional on termination, but for the loops that need not end: \<open>grow\<close> and \<open>vprintf\<close> of \<open>AutoGrownMemIO\<close> and \<open>vprintf\<close>, \<open>from_input\<close> and \<open>to_output\<close> of the buffers are partial
  functions with the value \<open>None\<close> for not ending, and the theorems show when they return; scans that the source does not bound (the line scans of select, \<open>fast_one_seq_len\<close>)
  return \<open>Inl Out_of_bounds\<close> when they leave the block, and the theorems show that they do not. The only fuel
  is that of \<open>clear\<close> of \<open>circular_queue\<close>, the capacity, and is shown to be enough.

  \<^bold>\<open>Not modelled.\<close> Of the core: \<open>static_bitmap\<close>, the 64-bit-rank instance of \<open>rank_select_se_512\<close>, the mixed and the sparse rank structures, the builders of packed vectors that
  stream to files, the buffers that read and write one file, the DataIO templates (serialisation by overloading), hash tables and memory pools (the lock-free ones depend on the memory model of the
  machine). Outside this library are threads, files, memory mapping, external compressors, and the tries, indexes and stores built on the core; PROJECT.json lists
  each part with its reason.
\<close>

end
